(* ===== verification/Prelude.thy ===== *)
theory Prelude
  imports Main "HOL-Library.Word" "HOL-Library.Multiset"
begin

text \<open>
  Shared vocabulary of the development: the names of Go's machine integers, thread
  identifiers, the run of a machine over a schedule of actions, and the locales that
  state what an inductive invariant and a mutual-exclusion protocol promise.

  A concurrent component is a function \<open>step :: action \<Rightarrow> state \<Rightarrow> state option\<close>. An
  action names the goroutine that moves (and the call it makes when it is idle); the
  result is \<open>None\<close> when that goroutine cannot move so. One step is one access to shared
  memory (one \<^verbatim>\<open>sync/atomic\<close> operation, one plain field access), so a list of
  actions is an interleaving, and Go's sequentially consistent atomics make every
  execution such an interleaving.
\<close>

unbundle bit_operations_syntax

section \<open>Types\<close>

type_synonym tid = nat
type_synonym u64 = "64 word"
type_synonym u32 = "32 word"
type_synonym i64 = "64 word"
type_synonym i32 = "32 word"

text \<open>Facts a component's proofs share: the unfolding of its invariant.\<close>

named_theorems inv_defs

section \<open>Words\<close>

lemma of_nat_u64_eq:
  "(of_nat j :: u64) = of_nat k \<Longrightarrow> j < 2 ^ 64 \<Longrightarrow> k < 2 ^ 64 \<Longrightarrow> j = k"
  by (drule arg_cong [where f = unat]) (simp add: unat_of_nat)

lemma sint_i64_bounds: "- (2 ^ 63) \<le> sint (x :: i64)" "sint (x :: i64) < 2 ^ 63"
  using sint_greater_eq [of x] sint_less [of x] by simp_all

lemma sint_word_of_int_i64:
  "- (2 ^ 63) \<le> k \<Longrightarrow> k < 2 ^ 63 \<Longrightarrow> sint (word_of_int k :: i64) = k"
  by (simp add: sint_sbintrunc' signed_take_bit_int_eq_self)

lemma sint_i64_add_1:
  assumes "sint (x :: i64) < 2 ^ 63 - 1"
  shows "sint (x + 1) = sint x + 1"
proof -
  have "x + 1 = word_of_int (sint x + 1)" by simp
  then show ?thesis using assms sint_i64_bounds [of x] sint_word_of_int_i64 [of "sint x + 1"] by simp
qed

lemma sint_i64_sub_1:
  assumes "- (2 ^ 63) < sint (x :: i64)"
  shows "sint (x - 1) = sint x - 1"
proof -
  have "x - 1 = word_of_int (sint x - 1)" by simp
  then show ?thesis using assms sint_i64_bounds [of x] sint_word_of_int_i64 [of "sint x - 1"] by simp
qed

lemma uint_pred:
  assumes "(x :: 'a::len word) \<noteq> 0"
  shows "uint (x - 1) = uint x - 1"
proof -
  have "0 \<le> uint x" "uint x \<noteq> 0" using assms by (simp_all add: uint_0_iff)
  then have "1 \<le> uint x" by arith
  then have "1 \<le> x" by (simp add: word_le_def)
  then show ?thesis by (simp add: uint_minus_simple_alt)
qed

section \<open>Runs of a machine\<close>

primrec run :: "('a \<Rightarrow> 's \<Rightarrow> 's option) \<Rightarrow> 'a list \<Rightarrow> 's \<Rightarrow> 's option" where
  "run step [] s = Some s"
| "run step (a # as) s = (case step a s of None \<Rightarrow> None | Some s' \<Rightarrow> run step as s')"

lemma run_append:
  "run step (as @ bs) s = (case run step as s of None \<Rightarrow> None | Some s' \<Rightarrow> run step bs s')"
  by (induction as arbitrary: s) (auto split: option.splits)

lemma run_append_Some: "run step as s = Some t \<Longrightarrow> run step (as @ bs) s = run step bs t"
  by (simp add: run_append)

lemma run_snoc_Some:
  "run step (as @ [a]) s = Some s' \<longleftrightarrow> (\<exists>t. run step as s = Some t \<and> step a t = Some s')"
  by (auto simp: run_append split: option.splits)

lemma run_replicate_Suc:
  "step a s = Some s' \<Longrightarrow> run step (replicate (Suc n) a) s = run step (replicate n a) s'"
  by simp

text \<open>
  The contract of an inductive invariant: it holds initially and every step keeps it, so it
  holds after every schedule.
\<close>

locale machine =
  fixes init :: "'s \<Rightarrow> bool"
    and step :: "'a \<Rightarrow> 's \<Rightarrow> 's option"
    and inv :: "'s \<Rightarrow> bool"
  assumes inv_init: "init s \<Longrightarrow> inv s"
    and inv_step: "inv s \<Longrightarrow> step a s = Some s' \<Longrightarrow> inv s'"
begin

lemma inv_run: "run step as s = Some s' \<Longrightarrow> inv s \<Longrightarrow> inv s'"
  by (induction as arbitrary: s) (auto split: option.splits dest: inv_step)

lemma invariant: "init s \<Longrightarrow> run step as s = Some s' \<Longrightarrow> inv s'"
  using inv_init inv_run by blast

end

text \<open>
  The contract of a lock: the invariant leaves at most one goroutine between the return of
  its \<^verbatim>\<open>Lock\<close> and the release of its \<^verbatim>\<open>Unlock\<close>.
\<close>

locale lock_machine = machine init step inv
  for init :: "'s \<Rightarrow> bool" and step :: "'a \<Rightarrow> 's \<Rightarrow> 's option" and inv :: "'s \<Rightarrow> bool" +
  fixes in_cs :: "'s \<Rightarrow> tid \<Rightarrow> bool"
  assumes exclusive: "inv s \<Longrightarrow> in_cs s i \<Longrightarrow> in_cs s j \<Longrightarrow> i = j"
begin

lemma mutual_exclusion:
  "init s \<Longrightarrow> run step as s = Some s' \<Longrightarrow> in_cs s' i \<Longrightarrow> in_cs s' j \<Longrightarrow> i = j"
  using invariant exclusive by blast

end

text \<open>
  When nothing can happen any more: the actions of \<open>inside\<close>, those of goroutines that are inside a call, are
  impossible or change nothing (an idle turn of a spin loop). Lost wake-ups and deadlocks show in such states.
\<close>

definition quiet :: "('a \<Rightarrow> 's \<Rightarrow> 's option) \<Rightarrow> 'a set \<Rightarrow> 's \<Rightarrow> bool" where
  "quiet step inside s \<longleftrightarrow> (\<forall>a \<in> inside. \<forall>s'. step a s = Some s' \<longrightarrow> s' = s)"

lemma quietD: "quiet step inside s \<Longrightarrow> a \<in> inside \<Longrightarrow> step a s = Some s' \<Longrightarrow> s' = s"
  by (simp add: quiet_def)

text \<open>What the environment of a lock may do: call \<^verbatim>\<open>Lock\<close> or \<^verbatim>\<open>Unlock\<close>, or let a
  goroutine take its next step.\<close>

datatype lock_act = CallLock tid | CallUnlock tid | Step tid

section \<open>Sequential objects and logs\<close>

text \<open>Running a list of operations of any object, collecting the results in order.\<close>

fun exec_ops :: "('o \<Rightarrow> 's \<Rightarrow> 's \<times> 'r) \<Rightarrow> 'o list \<Rightarrow> 's \<Rightarrow> 's \<times> 'r list" where
  "exec_ops f [] s = (s, [])"
| "exec_ops f (a # as) s = (case f a s of (s', r) \<Rightarrow> case exec_ops f as s' of (s'', rs) \<Rightarrow> (s'', r # rs))"

text \<open>Objects whose operations can fail, by a panic or a breach of their contract.\<close>

fun exec_partial :: "('o \<Rightarrow> 's \<Rightarrow> ('s \<times> 'r) option) \<Rightarrow> 'o list \<Rightarrow> 's \<Rightarrow> ('s \<times> 'r list) option" where
  "exec_partial f [] s = Some (s, [])"
| "exec_partial f (a # as) s =
     (case f a s of
        None \<Rightarrow> None
      | Some (s', r) \<Rightarrow> (case exec_partial f as s' of None \<Rightarrow> None | Some (s'', rs) \<Rightarrow> Some (s'', r # rs)))"

text \<open>The contract of a data refinement: whatever the specification allows, the implementation does,
  without failing and with the same results.\<close>

locale data_refinement =
  fixes impl :: "'o \<Rightarrow> 's \<Rightarrow> ('s \<times> 'r) option" and spec :: "'o \<Rightarrow> 'a \<Rightarrow> ('a \<times> 'r) option"
    and rep :: "'s \<Rightarrow> 'a \<Rightarrow> bool"
  assumes simulates: "rep s a \<Longrightarrow> spec b a = Some (a', r) \<Longrightarrow> \<exists>s'. impl b s = Some (s', r) \<and> rep s' a'"
begin

lemma run_simulates:
  "rep s a \<Longrightarrow> exec_partial spec bs a = Some (a', rs) \<Longrightarrow> \<exists>s'. exec_partial impl bs s = Some (s', rs) \<and> rep s' a'"
proof (induction bs arbitrary: s a rs)
  case (Cons b bs)
  obtain a1 r rs' where sp: "spec b a = Some (a1, r)" "exec_partial spec bs a1 = Some (a', rs')" "rs = r # rs'"
    using Cons.prems(2) by (auto split: option.splits)
  obtain s1 where s1: "impl b s = Some (s1, r)" "rep s1 a1" using simulates [OF Cons.prems(1) sp(1)] by blast
  show ?case using Cons.IH [OF s1(2) sp(2)] s1(1) sp(3) by auto
qed simp

end

text \<open>Logs of linearised operations: the abstract run extended by one operation.\<close>

lemma exec_ops_snoc:
  "exec_ops f as s = (s', rs) \<Longrightarrow> f a s' = (s'', r) \<Longrightarrow> exec_ops f (as @ [a]) s = (s'', rs @ [r])"
  by (induction as arbitrary: s rs) (auto split: prod.splits)

definition logged :: "('o \<Rightarrow> 's \<Rightarrow> 's \<times> 'r) \<Rightarrow> 's \<Rightarrow> ('o \<times> 'r) list \<Rightarrow> 's \<Rightarrow> bool" where
  "logged f s log s' \<longleftrightarrow> exec_ops f (map fst log) s = (s', map snd log)"

lemma logged_Nil: "logged f s [] s"
  by (simp add: logged_def)

lemma logged_snoc: "logged f s log s' \<Longrightarrow> f a s' = (s'', r) \<Longrightarrow> logged f s (log @ [(a, r)]) s''"
  by (simp add: logged_def exec_ops_snoc)

text \<open>What goroutine \<open>t\<close> did last, in a log whose entries name the goroutine.\<close>

definition last_entry :: "(tid \<times> 'e) list \<Rightarrow> tid \<Rightarrow> 'e \<Rightarrow> bool" where
  "last_entry log t e \<longleftrightarrow> filter (\<lambda>x. fst x = t) log \<noteq> [] \<and> last (filter (\<lambda>x. fst x = t) log) = (t, e)"

lemma last_entry_snoc [simp]:
  "last_entry (log @ [(u, e)]) t e' \<longleftrightarrow> (if u = t then e' = e else last_entry log t e')"
  by (auto simp: last_entry_def)

end
