(* ===== verification/Park.thy ===== *)
theory Park
  imports Prelude
begin

text \<open>
  The parkers of \<^verbatim>\<open>park/park.go\<close>: a permit store with a blocking \<^verbatim>\<open>Park\<close> and a
  non-blocking \<^verbatim>\<open>Unpark\<close>. \<open>None\<close> means that the call blocks in this state. The
  runtime semaphore is Go's: \<^verbatim>\<open>Semacquire\<close> waits until the counter is positive and
  decrements it atomically, \<^verbatim>\<open>Semrelease\<close> increments it atomically.
\<close>

section \<open>The runtime semaphore\<close>

definition runtime_Semacquire :: "u32 \<Rightarrow> u32 option" where
  "runtime_Semacquire s = (if s = 0 then None else Some (s - 1))"

definition runtime_Semrelease :: "u32 \<Rightarrow> u32" where
  "runtime_Semrelease s = s + 1"

section \<open>Parker\<close>

record Parker = sema :: u32

definition Parker_Park :: "Parker \<Rightarrow> Parker option" where
  "Parker_Park p = (case runtime_Semacquire (sema p) of
       None \<Rightarrow> None | Some n \<Rightarrow> Some (p\<lparr>sema := n\<rparr>))"

definition Parker_Unpark :: "Parker \<Rightarrow> Parker" where
  "Parker_Unpark p = p\<lparr>sema := runtime_Semrelease (sema p)\<rparr>"

lemma Parker_Park_blocks: "Parker_Park p = None \<longleftrightarrow> sema p = 0"
  by (simp add: Parker_Park_def runtime_Semacquire_def)

lemma Parker_Park_Some: "Parker_Park p = Some p' \<longleftrightarrow> sema p \<noteq> 0 \<and> p' = p\<lparr>sema := sema p - 1\<rparr>"
  by (auto simp: Parker_Park_def runtime_Semacquire_def)

lemma sema_Unpark [simp]: "sema (Parker_Unpark p) = sema p + 1"
  by (simp add: Parker_Unpark_def runtime_Semrelease_def)

section \<open>ChanParker\<close>

text \<open>A channel of capacity 1 carrying \<^verbatim>\<open>struct{}\<close>: its state is the list of buffered
  elements.\<close>

record ChanParker = park :: "unit list"

definition ChanParker_cap :: nat where
  "ChanParker_cap = 1"

definition NewChanParker :: ChanParker where
  "NewChanParker = \<lparr>park = []\<rparr>"

definition ChanParker_Park :: "ChanParker \<Rightarrow> ChanParker option" where
  "ChanParker_Park p = (case park p of [] \<Rightarrow> None | _ # rest \<Rightarrow> Some (p\<lparr>park := rest\<rparr>))"

definition ChanParker_Unpark :: "ChanParker \<Rightarrow> ChanParker" where
  "ChanParker_Unpark p =
     (if length (park p) < ChanParker_cap then p\<lparr>park := park p @ [()]\<rparr> else p)"

section \<open>The parker contract\<close>

text \<open>A row of \<open>n\<close> calls of \<^verbatim>\<open>Park\<close>: \<open>None\<close> when one of them blocks.\<close>

primrec park_n :: "('p \<Rightarrow> 'p option) \<Rightarrow> nat \<Rightarrow> 'p \<Rightarrow> 'p option" where
  "park_n prk 0 p = Some p"
| "park_n prk (Suc n) p = (case prk p of None \<Rightarrow> None | Some p' \<Rightarrow> park_n prk n p')"

text \<open>
  What a synchroniser relies on: an unparked parker has a permit, so the next \<^verbatim>\<open>Park\<close>
  returns; a parker without a permit blocks. \<open>permits\<close> counts how many calls of
  \<^verbatim>\<open>Park\<close> would return without an \<^verbatim>\<open>Unpark\<close> in between.
\<close>

locale parker =
  fixes prk :: "'p \<Rightarrow> 'p option" and unprk :: "'p \<Rightarrow> 'p" and permits :: "'p \<Rightarrow> nat"
    and room :: "'p \<Rightarrow> bool"
  assumes prk_None: "prk p = None \<longleftrightarrow> permits p = 0"
    and prk_Some: "prk p = Some p' \<Longrightarrow> permits p = Suc (permits p')"
    and unprk_permit: "room p \<Longrightarrow> 0 < permits (unprk p)"
begin

text \<open>No lost wake-up: a \<^verbatim>\<open>Park\<close> after an \<^verbatim>\<open>Unpark\<close> returns.\<close>

lemma park_after_unpark: "room p \<Longrightarrow> \<exists>p'. prk (unprk p) = Some p'"
  using prk_None [of "unprk p"] unprk_permit [of p] by (cases "prk (unprk p)") auto

lemma park_n_iff: "park_n prk n p \<noteq> None \<longleftrightarrow> n \<le> permits p"
proof (induction n arbitrary: p)
  case (Suc n)
  show ?case
  proof (cases "prk p")
    case None
    then show ?thesis using prk_None [of p] by simp
  next
    case (Some p')
    with prk_Some [OF Some] Suc.IH [of p'] show ?thesis by simp
  qed
qed simp

end

interpretation runtime_parker: parker Parker_Park Parker_Unpark "\<lambda>p. unat (sema p)"
  "\<lambda>p. sema p \<noteq> - 1"
proof unfold_locales
  show "Parker_Park p = None \<longleftrightarrow> unat (sema p) = 0" for p
    by (simp add: Parker_Park_blocks unat_eq_0)
  show "unat (sema p) = Suc (unat (sema p'))" if "Parker_Park p = Some p'" for p p'
    using that by (auto simp: Parker_Park_Some unat_minus_one unat_gt_0)
  show "0 < unat (sema (Parker_Unpark p))" if "sema p \<noteq> - 1" for p
    using that by (simp add: unat_gt_0 eq_neg_iff_add_eq_0)
qed

interpretation chan_parker: parker ChanParker_Park ChanParker_Unpark "\<lambda>p. length (park p)"
  "\<lambda>p. True"
  by unfold_locales
    (auto simp: ChanParker_Park_def ChanParker_Unpark_def ChanParker_cap_def split: list.splits)

lemma park_Unpark_n: "length (park ((ChanParker_Unpark ^^ m) NewChanParker)) = min 1 m"
proof (induction m)
  case (Suc m)
  then show ?case by (cases m) (auto simp: ChanParker_Unpark_def ChanParker_cap_def)
qed (simp add: NewChanParker_def)

lemma sema_Unpark_n: "sema ((Parker_Unpark ^^ m) p) = sema p + of_nat m"
  by (induction m) auto

text \<open>permits are remembered, so an early \<^verbatim>\<open>Unpark\<close> is never lost, and the two parkers
  differ as documented: after \<open>m\<close> calls of \<^verbatim>\<open>Unpark\<close> on a fresh parker exactly
  \<open>min 1 m\<close> calls of \<^verbatim>\<open>ChanParker.Park\<close> return without blocking (permits collapse), and
  exactly \<open>m\<close> calls of \<^verbatim>\<open>Parker.Park\<close> (permits count), as long as \<open>m\<close> fits the
  32-bit counter.\<close>

theorem parker_permits:
  assumes "m < 2 ^ 32"
  shows "(park_n ChanParker_Park k ((ChanParker_Unpark ^^ m) NewChanParker) \<noteq> None \<longleftrightarrow> k \<le> min 1 m)
    \<and> (park_n Parker_Park k ((Parker_Unpark ^^ m) \<lparr>sema = 0\<rparr>) \<noteq> None \<longleftrightarrow> k \<le> m)"
proof -
  have "unat (sema ((Parker_Unpark ^^ m) \<lparr>sema = 0\<rparr>)) = m"
    using assms by (simp add: sema_Unpark_n unat_of_nat)
  then show ?thesis
    unfolding chan_parker.park_n_iff runtime_parker.park_n_iff park_Unpark_n by simp
qed

theorem parker_permits_witness:
  "park_n ChanParker_Park 2 ((ChanParker_Unpark ^^ 3) NewChanParker) = None
    \<and> park_n Parker_Park 2 ((Parker_Unpark ^^ 3) \<lparr>sema = 0\<rparr>) \<noteq> None"
  using parker_permits [of 3 2] by simp

end
