(* ===== verification/Lock_Spin.thy ===== *)
theory Lock_Spin
  imports Prelude
begin

text \<open>
  \<^verbatim>\<open>SpinLock\<close> of \<^verbatim>\<open>syncx/lock.go\<close>: one atomic flag, taken by a CAS loop and
  released by a store. The record holds the flag and, per goroutine, the statement it is
  about to execute.
\<close>

datatype spin_pc =
    SIdle      \<comment> \<open>outside the lock\<close>
  | SCas       \<comment> \<open>in \<open>Lock\<close>, before the CAS\<close>
  | SHeld      \<comment> \<open>\<open>Lock\<close> has returned\<close>
  | SStore     \<comment> \<open>in \<open>Unlock\<close>, before the store\<close>

record SpinLock =
  sl_state :: bool
  sl_pc :: "tid \<Rightarrow> spin_pc"

definition spin_init :: "SpinLock \<Rightarrow> bool" where
  "spin_init s \<longleftrightarrow> \<not> sl_state s \<and> (\<forall>t. sl_pc s t = SIdle)"

fun spin_step :: "lock_act \<Rightarrow> SpinLock \<Rightarrow> SpinLock option" where
  "spin_step (CallLock t) s =
     (if sl_pc s t = SIdle then Some (s\<lparr>sl_pc := (sl_pc s)(t := SCas)\<rparr>) else None)"
| "spin_step (CallUnlock t) s =
     (if sl_pc s t = SHeld then Some (s\<lparr>sl_pc := (sl_pc s)(t := SStore)\<rparr>) else None)"
| "spin_step (Step t) s =
     (case sl_pc s t of
        SCas \<Rightarrow> (if sl_state s = False
                 then Some (s\<lparr>sl_state := True, sl_pc := (sl_pc s)(t := SHeld)\<rparr>)
                 else Some s)
      | SStore \<Rightarrow> Some (s\<lparr>sl_state := False, sl_pc := (sl_pc s)(t := SIdle)\<rparr>)
      | _ \<Rightarrow> None)"

definition spin_in_cs :: "SpinLock \<Rightarrow> tid \<Rightarrow> bool" where
  "spin_in_cs s t \<longleftrightarrow> sl_pc s t = SHeld \<or> sl_pc s t = SStore"

definition spin_inv :: "SpinLock \<Rightarrow> bool" where
  "spin_inv s \<longleftrightarrow> (\<forall>i. spin_in_cs s i \<longrightarrow> sl_state s)
     \<and> (\<forall>i j. spin_in_cs s i \<longrightarrow> spin_in_cs s j \<longrightarrow> i = j)
     \<and> (sl_state s \<longrightarrow> (\<exists>i. spin_in_cs s i))"

lemma spin_inv_step:
  assumes "spin_inv s" and "spin_step a s = Some s'"
  shows "spin_inv s'"
proof (cases a)
  case (CallLock t)
  with assms have "spin_in_cs s' = spin_in_cs s" and "sl_state s' = sl_state s"
    by (auto simp: spin_in_cs_def fun_eq_iff split: if_splits)
  with assms(1) show ?thesis by (simp add: spin_inv_def)
next
  case (CallUnlock t)
  with assms have "spin_in_cs s' = spin_in_cs s" and "sl_state s' = sl_state s"
    by (auto simp: spin_in_cs_def fun_eq_iff split: if_splits)
  with assms(1) show ?thesis by (simp add: spin_inv_def)
next
  case (Step t)
  with assms show ?thesis
    by (auto simp: spin_inv_def spin_in_cs_def split: spin_pc.splits if_splits)
qed

interpretation spin: lock_machine spin_init spin_step spin_inv spin_in_cs
proof unfold_locales
  show "spin_init s \<Longrightarrow> spin_inv s" for s
    by (auto simp: spin_init_def spin_inv_def spin_in_cs_def)
  show "spin_inv s \<Longrightarrow> spin_step a s = Some s' \<Longrightarrow> spin_inv s'" for s a s'
    by (rule spin_inv_step)
  show "spin_inv s \<Longrightarrow> spin_in_cs s i \<Longrightarrow> spin_in_cs s j \<Longrightarrow> i = j" for s i j
    by (auto simp: spin_inv_def)
qed

text \<open>at most one goroutine holds a \<^verbatim>\<open>SpinLock\<close>, and the flag is set exactly while
  somebody does, so a free lock is taken by the next CAS of any waiter.\<close>

theorem spin_lock_exclusion:
  assumes "spin_init s" and "run spin_step as s = Some s'"
  shows "(\<forall>i j. spin_in_cs s' i \<longrightarrow> spin_in_cs s' j \<longrightarrow> i = j)
    \<and> (sl_state s' \<longleftrightarrow> (\<exists>i. spin_in_cs s' i))
    \<and> (\<forall>i. sl_pc s' i = SCas \<longrightarrow> (\<forall>j. \<not> spin_in_cs s' j) \<longrightarrow>
         (\<exists>s''. spin_step (Step i) s' = Some s'' \<and> spin_in_cs s'' i))"
proof -
  have inv: "spin_inv s'" using spin.invariant [OF assms] .
  then have "sl_state s' \<longleftrightarrow> (\<exists>i. spin_in_cs s' i)" by (auto simp: spin_inv_def)
  with inv show ?thesis by (auto simp: spin_inv_def spin_in_cs_def)
qed

theorem spin_lock_exclusion_witness:
  "\<exists>s s'. spin_init s \<and> run spin_step [CallLock 1, CallLock 2, Step 1, Step 2] s = Some s'
     \<and> spin_in_cs s' 1 \<and> \<not> spin_in_cs s' 2 \<and> sl_state s'"
proof -
  let ?s = "\<lparr>sl_state = False, sl_pc = (\<lambda>_. SIdle)\<rparr>"
  have i: "spin_init ?s" by (simp add: spin_init_def)
  obtain s' where r: "run spin_step [CallLock 1, CallLock 2, Step 1, Step 2] ?s = Some s'"
    and h: "sl_pc s' 1 = SHeld" by simp
  have c: "spin_in_cs s' 1" using h by (simp add: spin_in_cs_def)
  then have "sl_state s' \<and> \<not> spin_in_cs s' 2" using spin_lock_exclusion [OF i r] by force
  with i r c show ?thesis by blast
qed

end
