(* ===== verification/Lock_Spec.thy ===== *)
theory Lock_Spec
  imports Prelude
begin

text \<open>
  The contract of the first-come-first-served locks (\<^verbatim>\<open>TicketLock\<close>, \<^verbatim>\<open>CLHLock\<close>, \<^verbatim>\<open>MCSLock\<close>): a queue
  of the goroutines that have joined and not yet left, of which only the first can be inside. Goroutines
  join at the end and leave at the front, from inside, so mutual exclusion and the order of entries follow.
\<close>

text \<open>From \<open>s\<close> on, whoever has arrived goes before whoever has not: when \<open>j\<close>, which has not arrived in \<open>s\<close>, is
  inside, then \<open>i\<close>, which has, was inside before. The statement speaks of the goroutines' own places in
  \<^verbatim>\<open>Lock\<close> and \<^verbatim>\<open>Unlock\<close> only; the queue is how it is proved.\<close>

definition first_come_first_served ::
  "('a \<Rightarrow> 's \<Rightarrow> 's option) \<Rightarrow> ('s \<Rightarrow> tid \<Rightarrow> bool) \<Rightarrow> ('s \<Rightarrow> tid \<Rightarrow> bool) \<Rightarrow> 's \<Rightarrow> bool" where
  "first_come_first_served step in_cs arrived s \<longleftrightarrow>
     (\<forall>as s' i j. run step as s = Some s' \<longrightarrow> arrived s i \<longrightarrow> \<not> arrived s j \<longrightarrow> in_cs s' j \<longrightarrow>
        (\<exists>k < length as. \<exists>s1. run step (take k as) s = Some s1 \<and> in_cs s1 i))"

lemma first_come_first_servedD:
  "first_come_first_served step in_cs arrived s \<Longrightarrow> run step as s = Some s' \<Longrightarrow> arrived s i \<Longrightarrow> \<not> arrived s j
    \<Longrightarrow> in_cs s' j \<Longrightarrow> \<exists>k < length as. \<exists>s1. run step (take k as) s = Some s1 \<and> in_cs s1 i"
  unfolding first_come_first_served_def by blast

locale fifo_lock = machine init step inv
  for init :: "'s \<Rightarrow> bool" and step :: "'a \<Rightarrow> 's \<Rightarrow> 's option" and inv :: "'s \<Rightarrow> bool" +
  fixes in_cs :: "'s \<Rightarrow> tid \<Rightarrow> bool" and arrived :: "'s \<Rightarrow> tid \<Rightarrow> bool" and queue :: "'s \<Rightarrow> tid list"
  assumes at_head: "inv s \<Longrightarrow> in_cs s t \<Longrightarrow> queue s \<noteq> [] \<and> hd (queue s) = t"
    and queued: "inv s \<Longrightarrow> t \<in> set (queue s) \<longleftrightarrow> arrived s t"
    and queue_step: "inv s \<Longrightarrow> step a s = Some s' \<Longrightarrow>
      queue s' = queue s \<or> (\<exists>t. queue s' = queue s @ [t]) \<or> (\<exists>t. queue s = t # queue s' \<and> in_cs s t)"

sublocale fifo_lock \<subseteq> lock_machine init step inv in_cs
  by unfold_locales (use at_head in blast)

context fifo_lock
begin

text \<open>Who stands before \<open>j\<close> in the queue has been inside when \<open>j\<close> gets in.\<close>

lemma goes_before:
  "run step as s = Some s' \<Longrightarrow> inv s \<Longrightarrow> queue s = xs @ i # ys \<Longrightarrow> j \<notin> set (xs @ [i]) \<Longrightarrow> in_cs s' j
    \<Longrightarrow> \<exists>k < length as. \<exists>s1. run step (take k as) s = Some s1 \<and> in_cs s1 i"
proof (induction as arbitrary: s xs ys)
  case Nil
  then show ?case using at_head [of s j] by (cases xs) auto
next
  case (Cons a as)
  obtain s1 where s1: "step a s = Some s1" "run step as s1 = Some s'" using Cons.prems(1) by (auto split: option.splits)
  note i1 = inv_step [OF Cons.prems(2) s1(1)]
  have later: ?case if ex: "\<exists>k < length as. \<exists>s2. run step (take k as) s1 = Some s2 \<and> in_cs s2 i"
  proof -
    obtain k s2 where k: "k < length as" "run step (take k as) s1 = Some s2" "in_cs s2 i" using ex by blast
    then show ?thesis using s1(1) by (intro exI [of _ "Suc k"]) simp
  qed
  from queue_step [OF Cons.prems(2) s1(1)] show ?case
  proof (elim disjE exE conjE)
    assume "queue s1 = queue s"
    then show ?thesis using later Cons.IH [OF s1(2) i1 _ Cons.prems(4,5), of ys] Cons.prems(3) by simp
  next
    fix t assume "queue s1 = queue s @ [t]"
    then show ?thesis using later Cons.IH [OF s1(2) i1 _ Cons.prems(4,5), of "ys @ [t]"] Cons.prems(3) by simp
  next
    fix t assume q: "queue s = t # queue s1" "in_cs s t"
    show ?thesis
    proof (cases xs)
      case Nil
      then show ?thesis using q Cons.prems(3) by (intro exI [of _ 0]) simp
    next
      case xs: (Cons x zs)
      then show ?thesis using later Cons.IH [OF s1(2) i1, of zs ys] Cons.prems(3-5) q(1) by simp
    qed
  qed
qed

lemma served_in_order: "inv s \<Longrightarrow> first_come_first_served step in_cs arrived s"
  unfolding first_come_first_served_def
proof (intro allI impI)
  fix as s' i j assume inv: "inv s" and r: "run step as s = Some s'" and a: "arrived s i" "\<not> arrived s j" and c: "in_cs s' j"
  obtain xs ys where q: "queue s = xs @ i # ys" using queued [OF inv] a(1) by (metis split_list)
  moreover have "j \<notin> set (xs @ [i])" using queued [OF inv, of j] a(2) q by simp
  ultimately show "\<exists>k < length as. \<exists>s1. run step (take k as) s = Some s1 \<and> in_cs s1 i"
    using goes_before [OF r inv] c by blast
qed

lemma queue_is: "inv s \<Longrightarrow> set (queue s) = {t. arrived s t}"
  using queued by auto

end

end
