(* ===== verification/Lock_Ticket.thy ===== *)
theory Lock_Ticket
  imports Lock_Spec
begin

text \<open>
  \<^verbatim>\<open>TicketLock\<close> of \<^verbatim>\<open>syncx/lock.go\<close>. Both counters are \<^verbatim>\<open>uint64\<close> and wrap
  around; nothing below bounds how often the lock is used. The auxiliary field
  \<open>tk_queue\<close> lists the goroutines that hold a ticket, in the order of their
  fetch-and-add; no step reads it.
\<close>

datatype ticket_pc =
    TIdle
  | TAdd          \<comment> \<open>in \<open>Lock\<close>, before the fetch-and-add\<close>
  | TSpin u64     \<comment> \<open>spinning, with its ticket \<open>my\<close>\<close>
  | THeld
  | TRel          \<comment> \<open>in \<open>Unlock\<close>, before \<open>serving.Add(1)\<close>\<close>

record TicketLock =
  tk_ticket :: u64
  tk_serving :: u64
  tk_pc :: "tid \<Rightarrow> ticket_pc"
  tk_queue :: "tid list"

definition ticket_init :: "TicketLock \<Rightarrow> bool" where
  "ticket_init s \<longleftrightarrow> tk_ticket s = 0 \<and> tk_serving s = 0 \<and> (\<forall>t. tk_pc s t = TIdle)
     \<and> tk_queue s = []"

fun ticket_step :: "lock_act \<Rightarrow> TicketLock \<Rightarrow> TicketLock option" where
  "ticket_step (CallLock t) s =
     (if tk_pc s t = TIdle then Some (s\<lparr>tk_pc := (tk_pc s)(t := TAdd)\<rparr>) else None)"
| "ticket_step (CallUnlock t) s =
     (if tk_pc s t = THeld then Some (s\<lparr>tk_pc := (tk_pc s)(t := TRel)\<rparr>) else None)"
| "ticket_step (Step t) s =
     (case tk_pc s t of
        TAdd \<Rightarrow>
          (let new = tk_ticket s + 1; my = new - 1
           in Some (s\<lparr>tk_ticket := new, tk_pc := (tk_pc s)(t := TSpin my),
                      tk_queue := tk_queue s @ [t]\<rparr>))
      | TSpin my \<Rightarrow>
          (if my \<noteq> tk_serving s then Some s
           else Some (s\<lparr>tk_pc := (tk_pc s)(t := THeld)\<rparr>))
      | TRel \<Rightarrow>
          Some (s\<lparr>tk_serving := tk_serving s + 1, tk_pc := (tk_pc s)(t := TIdle),
                  tk_queue := tl (tk_queue s)\<rparr>)
      | _ \<Rightarrow> None)"

definition ticket_in_cs :: "TicketLock \<Rightarrow> tid \<Rightarrow> bool" where
  "ticket_in_cs s t \<longleftrightarrow> tk_pc s t = THeld \<or> tk_pc s t = TRel"

text \<open>A goroutine holds a ticket from its fetch-and-add to its release.\<close>

definition ticket_has :: "TicketLock \<Rightarrow> tid \<Rightarrow> bool" where
  "ticket_has s t \<longleftrightarrow> tk_pc s t \<noteq> TIdle \<and> tk_pc s t \<noteq> TAdd"

text \<open>
  The invariant: the queue lists the ticket holders without repetition, its length is the
  distance from \<open>serving\<close> to \<open>ticket\<close>, its \<open>k\<close>-th member spins on
  \<open>serving + k\<close>, and only its first may have left the spin loop. Goroutine identifiers
  are below \<open>2 ^ 64\<close>, so the tickets in the queue are distinct words.
\<close>

definition ticket_inv :: "TicketLock \<Rightarrow> bool" where
  "ticket_inv s \<longleftrightarrow>
     distinct (tk_queue s) \<and> (\<forall>t. t \<in> set (tk_queue s) \<longleftrightarrow> ticket_has s t)
     \<and> (\<forall>t. ticket_has s t \<longrightarrow> t < 2 ^ 64)
     \<and> tk_ticket s = tk_serving s + of_nat (length (tk_queue s))
     \<and> (\<forall>k < length (tk_queue s). tk_pc s (tk_queue s ! k) = TSpin (tk_serving s + of_nat k)
          \<or> k = 0 \<and> ticket_in_cs s (tk_queue s ! k))"

fun lock_actor :: "lock_act \<Rightarrow> tid" where
  "lock_actor (CallLock t) = t"
| "lock_actor (CallUnlock t) = t"
| "lock_actor (Step t) = t"

definition ticket_step64 :: "lock_act \<Rightarrow> TicketLock \<Rightarrow> TicketLock option" where
  "ticket_step64 a s = (if lock_actor a < 2 ^ 64 then ticket_step a s else None)"

lemma ticket_queue_length: "ticket_inv s \<Longrightarrow> length (tk_queue s) \<le> 2 ^ 64"
proof -
  assume inv: "ticket_inv s"
  then have "card (set (tk_queue s)) \<le> card {..<(2::nat) ^ 64}"
    by (intro card_mono) (auto simp: ticket_inv_def)
  moreover have "card (set (tk_queue s)) = length (tk_queue s)"
    using inv distinct_card unfolding ticket_inv_def by blast
  ultimately show ?thesis by simp
qed

lemma ticket_inv_AddE:
  assumes inv: "ticket_inv s" and pc: "tk_pc s t = TAdd" and t: "t < 2 ^ 64"
    and s': "s' = s\<lparr>tk_ticket := tk_ticket s + 1, tk_pc := (tk_pc s)(t := TSpin (tk_ticket s)),
                     tk_queue := tk_queue s @ [t]\<rparr>"
  shows "ticket_inv s'"
proof -
  have new: "t \<notin> set (tk_queue s)" using inv pc by (auto simp: ticket_inv_def ticket_has_def)
  then have other: "k < length (tk_queue s) \<Longrightarrow> tk_queue s ! k \<noteq> t" for k
    using nth_mem by metis
  show ?thesis using inv pc t new other
    by (auto simp: ticket_inv_def s' ticket_has_def ticket_in_cs_def nth_append less_Suc_eq)
qed

lemma ticket_spin_head:
  assumes inv: "ticket_inv s" and pc: "tk_pc s t = TSpin (tk_serving s)"
  shows "tk_queue s \<noteq> [] \<and> hd (tk_queue s) = t"
proof -
  have "t \<in> set (tk_queue s)" using inv pc by (auto simp: ticket_inv_def ticket_has_def)
  then obtain k where k: "k < length (tk_queue s)" and t: "tk_queue s ! k = t"
    by (auto simp: in_set_conv_nth)
  with inv pc have "tk_serving s = tk_serving s + of_nat k \<or> k = 0"
    by (force simp: ticket_inv_def ticket_in_cs_def)
  then have "(of_nat k :: u64) = of_nat 0 \<or> k = 0" by simp
  moreover have "k < 2 ^ 64" using k ticket_queue_length [OF inv] by simp
  ultimately have "k = 0" using of_nat_u64_eq [of k 0] by auto
  with k t show ?thesis by (cases "tk_queue s") auto
qed

lemma ticket_cs_head:
  assumes inv: "ticket_inv s" and cs: "ticket_in_cs s t"
  shows "tk_queue s \<noteq> [] \<and> hd (tk_queue s) = t"
proof -
  have "t \<in> set (tk_queue s)"
    using inv cs by (auto simp: ticket_inv_def ticket_has_def ticket_in_cs_def)
  then obtain k where k: "k < length (tk_queue s)" and t: "tk_queue s ! k = t"
    by (auto simp: in_set_conv_nth)
  with inv cs have "k = 0" by (force simp: ticket_inv_def ticket_in_cs_def)
  with k t show ?thesis by (cases "tk_queue s") auto
qed

lemma ticket_inv_Rel:
  assumes inv: "ticket_inv s" and pc: "tk_pc s t = TRel"
    and s': "s' = s\<lparr>tk_serving := tk_serving s + 1, tk_pc := (tk_pc s)(t := TIdle),
                     tk_queue := tl (tk_queue s)\<rparr>"
  shows "ticket_inv s'"
proof -
  obtain qs where q: "tk_queue s = t # qs"
    using ticket_cs_head [OF inv, of t] pc by (cases "tk_queue s") (auto simp: ticket_in_cs_def)
  have nt: "t \<notin> set qs" and ds: "distinct qs" using inv q by (auto simp: ticket_inv_def)
  have tail: "tk_pc s (qs ! k) = TSpin (tk_serving s + 1 + of_nat k)" if "k < length qs" for k
    using inv that q unfolding ticket_inv_def
    by (force dest: spec [of _ "Suc k"] simp: add.assoc)
  have other: "k < length qs \<Longrightarrow> qs ! k \<noteq> t" for k using nt nth_mem by metis
  have has: "t' \<in> set qs \<longleftrightarrow> ticket_has s' t'" for t'
    using inv q nt by (auto simp: ticket_inv_def s' ticket_has_def)
  show ?thesis using inv has tail other ds
    unfolding ticket_inv_def by (auto simp: s' q add.assoc)
qed

lemma ticket_inv_same:
  assumes "ticket_inv s" and "s' = s\<lparr>tk_pc := (tk_pc s)(t := p)\<rparr>"
    and "tk_pc s t = TIdle \<and> p = TAdd \<or> tk_pc s t = THeld \<and> p = TRel"
  shows "ticket_inv s'"
  using assms
  by (auto simp: ticket_inv_def ticket_has_def ticket_in_cs_def)

lemma ticket_inv_enter:
  assumes inv: "ticket_inv s" and pc: "tk_pc s t = TSpin (tk_serving s)"
    and s': "s' = s\<lparr>tk_pc := (tk_pc s)(t := THeld)\<rparr>"
  shows "ticket_inv s'"
proof -
  obtain qs where q: "tk_queue s = t # qs"
    using ticket_spin_head [OF inv pc] by (cases "tk_queue s") auto
  have nt: "t \<notin> set qs" using inv q by (auto simp: ticket_inv_def)
  then have other: "k < length qs \<Longrightarrow> qs ! k \<noteq> t" for k using nth_mem by metis
  have has: "ticket_has s' = ticket_has s" using pc by (auto simp: s' ticket_has_def fun_eq_iff)
  have "tk_queue s' = tk_queue s" by (simp add: s')
  moreover have "tk_pc s' (tk_queue s ! k) = TSpin (tk_serving s + of_nat k)
      \<or> k = 0 \<and> ticket_in_cs s' (tk_queue s ! k)" if "k < length (tk_queue s)" for k
    using inv that other pc unfolding ticket_inv_def
    by (cases k) (auto simp: s' q ticket_in_cs_def)
  ultimately show ?thesis using inv has unfolding ticket_inv_def by (simp add: s')
qed

lemma ticket_inv_step:
  assumes "ticket_inv s" and "ticket_step64 a s = Some s'"
  shows "ticket_inv s'"
proof (cases a)
  case (Step t)
  with assms show ?thesis
    by (auto simp: ticket_step64_def Let_def intro: ticket_inv_AddE ticket_inv_Rel ticket_inv_enter
        split: ticket_pc.splits if_splits)
qed (use assms in \<open>auto simp: ticket_step64_def intro: ticket_inv_same split: if_splits\<close>)

interpretation ticket: fifo_lock ticket_init ticket_step64 ticket_inv ticket_in_cs ticket_has tk_queue
proof unfold_locales
  show "ticket_init s \<Longrightarrow> ticket_inv s" for s
    by (auto simp: ticket_init_def ticket_inv_def ticket_has_def)
  show "ticket_inv s \<Longrightarrow> ticket_step64 a s = Some s' \<Longrightarrow> ticket_inv s'" for s a s'
    by (rule ticket_inv_step)
  show "ticket_inv s \<Longrightarrow> ticket_in_cs s t \<Longrightarrow> tk_queue s \<noteq> [] \<and> hd (tk_queue s) = t" for s t
    by (rule ticket_cs_head)
  show "ticket_inv s \<Longrightarrow> t \<in> set (tk_queue s) \<longleftrightarrow> ticket_has s t" for s t by (simp add: ticket_inv_def)
  show "tk_queue s' = tk_queue s \<or> (\<exists>t. tk_queue s' = tk_queue s @ [t]) \<or> (\<exists>t. tk_queue s = t # tk_queue s' \<and> ticket_in_cs s t)"
    if "ticket_inv s" "ticket_step64 a s = Some s'" for s a s'
  proof -
    have "tk_queue s = t # tl (tk_queue s)" if "tk_pc s t = TRel" for t
      using ticket_cs_head [OF \<open>ticket_inv s\<close>, of t] that by (cases "tk_queue s") (auto simp: ticket_in_cs_def)
    then show ?thesis using that(2)
      by (cases a) (fastforce simp: ticket_step64_def ticket_in_cs_def Let_def split: ticket_pc.splits if_splits)+
  qed
qed

text \<open>The first in the queue is inside, or its next read of \<open>serving\<close> lets it in.\<close>

lemma ticket_head_enters:
  assumes inv: "ticket_inv s" and q: "tk_queue s = i # q"
  shows "ticket_in_cs s i
    \<or> (\<exists>s'. ticket_step64 (Step i) s = Some s' \<and> ticket_in_cs s' i)"
proof -
  have "tk_pc s i = TSpin (tk_serving s) \<or> ticket_in_cs s i"
    using inv q unfolding ticket_inv_def by force
  moreover have "i < 2 ^ 64" using inv q by (auto simp: ticket_inv_def)
  ultimately show ?thesis by (auto simp: ticket_step64_def ticket_in_cs_def)
qed

text \<open>\<^verbatim>\<open>TicketLock\<close> is a FIFO lock, for any number of acquisitions although both
  counters wrap around: after every schedule of fewer than \<open>2 ^ 64\<close> goroutines the only
  goroutine that can be inside is the one whose fetch-and-add is the earliest among those
  still holding a ticket, that goroutine is inside already or enters with its next
  step, and from here on the goroutines enter in the order in which they took their tickets.\<close>

theorem ticket_fifo_mutual_exclusion:
  assumes "ticket_init s" and "run ticket_step64 as s = Some s'"
  shows "(\<forall>i. ticket_in_cs s' i \<longrightarrow> tk_queue s' \<noteq> [] \<and> hd (tk_queue s') = i)
    \<and> (\<forall>i q. tk_queue s' = i # q \<longrightarrow> ticket_in_cs s' i
         \<or> (\<exists>s''. ticket_step64 (Step i) s' = Some s'' \<and> ticket_in_cs s'' i))
    \<and> first_come_first_served ticket_step64 ticket_in_cs ticket_has s'"
  using ticket.invariant [OF assms] ticket_cs_head ticket_head_enters ticket.served_in_order by blast

theorem ticket_fifo_witness:
  "\<exists>s s'. ticket_init s
     \<and> run ticket_step64 [CallLock 5, CallLock 3, Step 3, Step 5, Step 5, Step 3] s = Some s'
     \<and> tk_queue s' = [3, 5] \<and> ticket_in_cs s' 3 \<and> \<not> ticket_in_cs s' 5"
proof -
  let ?s = "\<lparr>tk_ticket = 0, tk_serving = 0, tk_pc = (\<lambda>_. TIdle), tk_queue = []\<rparr>"
  let ?s' = "\<lparr>tk_ticket = 2, tk_serving = 0,
               tk_pc = (\<lambda>_. TIdle)(5 := TSpin 1, 3 := THeld), tk_queue = [3, 5]\<rparr>"
  have i: "ticket_init ?s" by (simp add: ticket_init_def)
  have r: "run ticket_step64 [CallLock 5, CallLock 3, Step 3, Step 5, Step 5, Step 3] ?s = Some ?s'"
    by (simp add: ticket_step64_def Let_def fun_upd_twist)
  show ?thesis using ticket_fifo_mutual_exclusion [OF i r] i r
    by (auto simp: ticket_in_cs_def)
qed

end
