(* ===== verification/Lock_Mutex.thy ===== *)
theory Lock_Mutex
  imports Park
begin

text \<open>
  \<^verbatim>\<open>MutexLock\<close> of \<^verbatim>\<open>syncx/lock.go\<close>: a three-valued state word and a
  \<^verbatim>\<open>park.Parker\<close>. One step is one atomic operation on the word or one call of the
  parker; a goroutine at \<open>MPark\<close> cannot move while the parker has no permit. The
  auxiliary field \<open>mx_unparks\<close> counts the calls of \<^verbatim>\<open>Unpark\<close>; no step reads it.
\<close>

definition unlocked :: i32 where "unlocked = 0"
definition lockedNoWait :: i32 where "lockedNoWait = 1"
definition lockedWait :: i32 where "lockedWait = 2"

lemmas lock_words = unlocked_def lockedNoWait_def lockedWait_def

datatype mutex_pc =
    MIdle
  | MFast      \<comment> \<open>\<open>Lock\<close>, before the fast-path CAS\<close>
  | MSwap      \<comment> \<open>slow path, before the swap\<close>
  | MPark      \<comment> \<open>slow path, before or in \<open>Park\<close>\<close>
  | MHeld
  | MUnl1      \<comment> \<open>\<open>Unlock\<close>, before the first CAS\<close>
  | MUnl2      \<comment> \<open>\<open>Unlock\<close>, before the second CAS\<close>
  | MUnpark    \<comment> \<open>\<open>Unlock\<close>, before \<open>Unpark\<close>\<close>

record MutexLock =
  mx_state :: i32
  mx_parker :: Parker
  mx_pc :: "tid \<Rightarrow> mutex_pc"
  mx_unparks :: nat

definition mutex_zero :: MutexLock where
  "mutex_zero = \<lparr>mx_state = unlocked, mx_parker = \<lparr>sema = 0\<rparr>, mx_pc = (\<lambda>_. MIdle), mx_unparks = 0\<rparr>"

fun mutex_Lock_step :: "tid \<Rightarrow> MutexLock \<Rightarrow> MutexLock option" where
  "mutex_Lock_step t s =
     (case mx_pc s t of
        MFast \<Rightarrow>
          (if mx_state s = unlocked
           then Some (s\<lparr>mx_state := lockedNoWait, mx_pc := (mx_pc s)(t := MHeld)\<rparr>)
           else Some (s\<lparr>mx_pc := (mx_pc s)(t := MSwap)\<rparr>))
      | MSwap \<Rightarrow>
          (if mx_state s = unlocked
           then Some (s\<lparr>mx_state := lockedWait, mx_pc := (mx_pc s)(t := MHeld)\<rparr>)
           else Some (s\<lparr>mx_state := lockedWait, mx_pc := (mx_pc s)(t := MPark)\<rparr>))
      | MPark \<Rightarrow>
          (case Parker_Park (mx_parker s) of
             None \<Rightarrow> None
           | Some p \<Rightarrow> Some (s\<lparr>mx_parker := p, mx_pc := (mx_pc s)(t := MSwap)\<rparr>))
      | _ \<Rightarrow> None)"

fun mutex_Unlock_step :: "tid \<Rightarrow> MutexLock \<Rightarrow> MutexLock option" where
  "mutex_Unlock_step t s =
     (case mx_pc s t of
        MUnl1 \<Rightarrow>
          (if mx_state s = lockedNoWait
           then Some (s\<lparr>mx_state := unlocked, mx_pc := (mx_pc s)(t := MIdle)\<rparr>)
           else Some (s\<lparr>mx_pc := (mx_pc s)(t := MUnl2)\<rparr>))
      | MUnl2 \<Rightarrow>
          (if mx_state s = lockedWait
           then Some (s\<lparr>mx_state := unlocked, mx_pc := (mx_pc s)(t := MUnpark)\<rparr>)
           else Some (s\<lparr>mx_pc := (mx_pc s)(t := MIdle)\<rparr>))
      | MUnpark \<Rightarrow>
          Some (s\<lparr>mx_parker := Parker_Unpark (mx_parker s), mx_unparks := Suc (mx_unparks s),
                  mx_pc := (mx_pc s)(t := MIdle)\<rparr>)
      | _ \<Rightarrow> None)"

fun mutex_step :: "lock_act \<Rightarrow> MutexLock \<Rightarrow> MutexLock option" where
  "mutex_step (CallLock t) s =
     (if mx_pc s t = MIdle then Some (s\<lparr>mx_pc := (mx_pc s)(t := MFast)\<rparr>) else None)"
| "mutex_step (CallUnlock t) s =
     (if mx_pc s t = MHeld then Some (s\<lparr>mx_pc := (mx_pc s)(t := MUnl1)\<rparr>) else None)"
| "mutex_step (Step t) s =
     (if mx_pc s t \<in> {MFast, MSwap, MPark} then mutex_Lock_step t s else mutex_Unlock_step t s)"

definition mutex_in_cs :: "MutexLock \<Rightarrow> tid \<Rightarrow> bool" where
  "mutex_in_cs s t \<longleftrightarrow> mx_pc s t \<in> {MHeld, MUnl1, MUnl2}"

definition mutex_excl :: "MutexLock \<Rightarrow> bool" where
  "mutex_excl s \<longleftrightarrow>
     (\<forall>i. mutex_in_cs s i \<longrightarrow> mx_state s \<noteq> unlocked)
     \<and> (\<forall>i j. mutex_in_cs s i \<longrightarrow> mutex_in_cs s j \<longrightarrow> i = j)
     \<and> (mx_state s \<noteq> unlocked \<longrightarrow> (\<exists>i. mutex_in_cs s i))
     \<and> mx_state s \<in> {unlocked, lockedNoWait, lockedWait}
     \<and> (\<forall>i. mx_pc s i = MUnl2 \<longrightarrow> mx_state s = lockedWait)"

text \<open>Someone will still wake, or try again for, a goroutine that is about to sleep.\<close>

definition mutex_wakeup :: "MutexLock \<Rightarrow> bool" where
  "mutex_wakeup s \<longleftrightarrow>
     mx_state s = lockedWait \<or> sema (mx_parker s) \<noteq> 0
     \<or> (\<exists>i. mx_pc s i = MUnpark) \<or> (\<exists>i. mx_pc s i = MSwap)"

definition mutex_inv :: "MutexLock \<Rightarrow> bool" where
  "mutex_inv s \<longleftrightarrow> mutex_excl s
     \<and> unat (sema (mx_parker s)) \<le> mx_unparks s
     \<and> (mx_unparks s < 2 ^ 32 \<longrightarrow> (\<exists>i. mx_pc s i = MPark) \<longrightarrow> mutex_wakeup s)"

text \<open>The four ways in which a step touches what \<open>mutex_excl\<close> speaks about.\<close>

lemma mutex_excl_keep:
  assumes "mutex_excl s" and "mutex_in_cs s' = mutex_in_cs s"
    and "mx_state s' = mx_state s \<or> mx_state s \<noteq> unlocked \<and> mx_state s' = lockedWait"
    and "\<And>i. mx_pc s' i = MUnl2 \<Longrightarrow> mx_state s' = lockedWait"
  shows "mutex_excl s'"
  using assms unfolding mutex_excl_def by (auto simp: lock_words)

lemma mutex_excl_enter:
  assumes "mutex_excl s" and "mx_state s = unlocked" and "v = lockedNoWait \<or> v = lockedWait"
  shows "mutex_excl (s\<lparr>mx_state := v, mx_pc := (mx_pc s)(t := MHeld)\<rparr>)"
proof -
  have "\<not> mutex_in_cs s i" for i using assms(1,2) by (auto simp: mutex_excl_def)
  then show ?thesis using assms(3)
    unfolding mutex_excl_def by (auto simp: mutex_in_cs_def lock_words)
qed

lemma mutex_excl_leave:
  assumes "mutex_excl s" and "mutex_in_cs s t" and "p = MIdle \<or> p = MUnpark"
  shows "mutex_excl (s\<lparr>mx_state := unlocked, mx_pc := (mx_pc s)(t := p)\<rparr>)"
proof -
  have "\<not> mutex_in_cs s i" if "i \<noteq> t" for i using assms(1,2) that by (auto simp: mutex_excl_def)
  then show ?thesis using assms(3)
    unfolding mutex_excl_def by (auto simp: mutex_in_cs_def)
qed

lemma mutex_held_word: "mutex_excl s \<Longrightarrow> mutex_in_cs s t \<Longrightarrow> mx_state s \<noteq> lockedNoWait
    \<Longrightarrow> mx_state s = lockedWait"
  by (auto simp: mutex_excl_def)

lemma mutex_cs_upd:
  "mutex_in_cs s t \<longleftrightarrow> p \<in> {MHeld, MUnl1, MUnl2}
    \<Longrightarrow> mutex_in_cs (s\<lparr>mx_pc := (mx_pc s)(t := p)\<rparr>) = mutex_in_cs s"
  by (auto simp: mutex_in_cs_def fun_eq_iff)

lemma mutex_excl_upd:
  assumes "mutex_excl s" and "mutex_in_cs s t \<longleftrightarrow> p \<in> {MHeld, MUnl1, MUnl2}"
    and "p = MUnl2 \<Longrightarrow> mx_state s = lockedWait"
  shows "mutex_excl (s\<lparr>mx_pc := (mx_pc s)(t := p)\<rparr>)"
  by (rule mutex_excl_keep [OF assms(1)])
    (use assms in \<open>auto simp: mutex_cs_upd mutex_excl_def split: if_splits\<close>)

lemma mutex_excl_parker:
  "mutex_excl (s\<lparr>mx_parker := q, mx_unparks := n\<rparr>) = mutex_excl s"
  "mutex_excl (s\<lparr>mx_parker := q\<rparr>) = mutex_excl s"
  by (simp_all add: mutex_excl_def mutex_in_cs_def)

lemma mutex_excl_mark:
  assumes "mutex_excl s" and "mx_state s \<noteq> unlocked" and "mx_pc s t = MSwap"
  shows "mutex_excl (s\<lparr>mx_state := lockedWait, mx_pc := (mx_pc s)(t := MPark)\<rparr>)"
  by (rule mutex_excl_keep [OF assms(1)])
    (use assms in \<open>auto simp: mutex_in_cs_def fun_eq_iff mutex_excl_def split: if_splits\<close>)

lemma mutex_excl_Lock_step:
  assumes ex: "mutex_excl s" and st: "mutex_Lock_step t s = Some s'"
  shows "mutex_excl s'"
proof (cases "mx_pc s t")
  case MFast
  then show ?thesis using ex st
    by (auto intro!: mutex_excl_enter mutex_excl_upd simp: mutex_in_cs_def split: if_splits)
next
  case MSwap
  then show ?thesis using ex st
    by (auto intro!: mutex_excl_enter mutex_excl_mark split: if_splits)
next
  case MPark
  then obtain q where "s' = s\<lparr>mx_parker := q, mx_pc := (mx_pc s)(t := MSwap)\<rparr>"
    using st by (auto split: option.splits)
  moreover have "mutex_excl (s\<lparr>mx_parker := q\<rparr>)" using ex by (simp add: mutex_excl_parker)
  from mutex_excl_upd [OF this, of t MSwap] MPark
  have "mutex_excl (s\<lparr>mx_parker := q, mx_pc := (mx_pc s)(t := MSwap)\<rparr>)"
    by (simp add: mutex_in_cs_def)
  ultimately show ?thesis by simp
qed (use st in auto)

lemma mutex_excl_Unlock_step:
  assumes ex: "mutex_excl s" and st: "mutex_Unlock_step t s = Some s'"
  shows "mutex_excl s'"
proof (cases "mx_pc s t")
  case MUnl1
  then have cs: "mutex_in_cs s t" by (simp add: mutex_in_cs_def)
  with MUnl1 show ?thesis using ex st mutex_held_word [OF ex cs]
    by (auto intro!: mutex_excl_leave mutex_excl_upd simp: mutex_in_cs_def split: if_splits)
next
  case MUnl2
  then have cs: "mutex_in_cs s t" by (simp add: mutex_in_cs_def)
  have "mx_state s = lockedWait" using ex MUnl2 by (auto simp: mutex_excl_def)
  with MUnl2 cs show ?thesis using ex st by (auto intro!: mutex_excl_leave)
next
  case MUnpark
  then obtain q n where "s' = s\<lparr>mx_parker := q, mx_unparks := n, mx_pc := (mx_pc s)(t := MIdle)\<rparr>"
    using st by auto
  moreover have "mutex_excl (s\<lparr>mx_parker := q, mx_unparks := n\<rparr>)"
    using ex by (simp add: mutex_excl_parker)
  from mutex_excl_upd [OF this, of t MIdle] MUnpark
  have "mutex_excl (s\<lparr>mx_parker := q, mx_unparks := n, mx_pc := (mx_pc s)(t := MIdle)\<rparr>)"
    by (simp add: mutex_in_cs_def)
  ultimately show ?thesis by simp
qed (use st in auto)

lemma mutex_excl_step:
  assumes ex: "mutex_excl s" and st: "mutex_step a s = Some s'"
  shows "mutex_excl s'"
proof (cases a)
  case (Step t)
  with st have "mutex_Lock_step t s = Some s' \<or> mutex_Unlock_step t s = Some s'"
    by (simp only: mutex_step.simps split: if_splits) simp_all
  with ex show ?thesis using mutex_excl_Lock_step mutex_excl_Unlock_step by blast
qed (use ex st in \<open>auto intro!: mutex_excl_upd simp: mutex_in_cs_def split: if_splits\<close>)

text \<open>A step of a goroutine that is not itself the promised waker keeps the promise.\<close>

lemma mutex_wakeup_keep:
  assumes "mutex_wakeup s" and "mx_pc s t \<noteq> MUnpark" and "mx_pc s t \<noteq> MSwap"
    and "mx_state s = lockedWait \<Longrightarrow> mx_state s' = lockedWait"
    and "sema (mx_parker s') = sema (mx_parker s)" and "mx_pc s' = (mx_pc s)(t := p)"
  shows "mutex_wakeup s'"
  using assms unfolding mutex_wakeup_def by (metis fun_upd_other)

lemma mutex_sema_step:
  assumes "unat (sema (mx_parker s)) \<le> mx_unparks s" and "mutex_step a s = Some s'"
  shows "unat (sema (mx_parker s')) \<le> mx_unparks s' \<and> mx_unparks s \<le> mx_unparks s'"
proof (cases a)
  case (Step t)
  have "unat (w + 1) \<le> Suc n" if "unat w \<le> n" for w :: u32 and n
    using that by (cases "1 + w = 0") (auto simp: add.commute unatSuc)
  moreover have "unat (w - 1) \<le> n" if "unat w \<le> n" "w \<noteq> 0" for w :: u32 and n
    using that by (simp add: unat_minus_one)
  ultimately show ?thesis using assms Step
    by (auto simp: Parker_Park_Some split: mutex_pc.splits if_splits option.splits)
qed (use assms in \<open>auto split: if_splits\<close>)

lemma mutex_wakeup_local:
  assumes inv: "mutex_inv s" and Step: "a = Step t" and st: "mutex_step a s = Some s'" and b: "mx_unparks s' < 2 ^ 32"
    and pk: "mx_pc s' i = MPark"
  shows "mutex_wakeup s'"
proof -
  have le: "mx_unparks s \<le> mx_unparks s'" and nz: "unat (sema (mx_parker s)) \<le> mx_unparks s"
    using mutex_sema_step [OF _ st] inv by (auto simp: mutex_inv_def)
  have old: "mx_pc s j = MPark \<Longrightarrow> mutex_wakeup s" for j
    using inv le b by (auto simp: mutex_inv_def)
  show ?thesis
  proof (cases "mx_pc s t")
    case MUnpark
    then have s': "sema (mx_parker s') = sema (mx_parker s) + 1"
      and "mx_unparks s' = Suc (mx_unparks s)" using st Step by auto
    with nz b have "Suc (unat (sema (mx_parker s))) < 2 ^ 32" by simp
    then have "unat (sema (mx_parker s) + 1) = Suc (unat (sema (mx_parker s)))"
      by (simp add: unat_word_ariths)
    with s' show ?thesis by (auto simp: mutex_wakeup_def)
  next
    case MUnl2
    have "mx_state s = lockedWait" using inv MUnl2 by (auto simp: mutex_inv_def mutex_excl_def)
    with MUnl2 st Step show ?thesis by (auto simp: mutex_wakeup_def)
  next
    case MPark
    with st Step show ?thesis by (auto simp: mutex_wakeup_def split: option.splits)
  next
    case MSwap
    with st Step show ?thesis by (auto simp: mutex_wakeup_def split: if_splits)
  next
    case MFast
    show ?thesis
    proof (cases "mx_state s = unlocked")
      case True
      with MFast st Step have s': "s' = s\<lparr>mx_state := lockedNoWait, mx_pc := (mx_pc s)(t := MHeld)\<rparr>"
        by simp
      with pk have "mutex_wakeup s" using old [of i] by (auto split: if_splits)
      then show ?thesis
        by (rule mutex_wakeup_keep [where t = t and p = MHeld])
          (use True MFast in \<open>auto simp: s' lock_words\<close>)
    next
      case False
      with MFast st Step show ?thesis by (auto simp: mutex_wakeup_def)
    qed
  next
    case MUnl1
    with pk st Step have "mutex_wakeup s" using old [of i] by (auto split: if_splits)
    then show ?thesis
      by (rule mutex_wakeup_keep [where t = t and p = "mx_pc s' t"])
        (use MUnl1 st Step in \<open>auto simp: lock_words split: if_splits\<close>)
  qed (use st Step in auto)
qed

lemma mutex_wakeup_step:
  assumes inv: "mutex_inv s" and st: "mutex_step a s = Some s'" and b: "mx_unparks s' < 2 ^ 32"
    and pk: "mx_pc s' i = MPark"
  shows "mutex_wakeup s'"
proof (cases a)
  case (Step t)
  then show ?thesis using mutex_wakeup_local [OF inv _ st b pk] by blast
next
  case (CallLock t)
  with st pk inv b have "mutex_wakeup s" by (auto simp: mutex_inv_def split: if_splits)
  then show ?thesis
    by (rule mutex_wakeup_keep [where t = t and p = MFast])
      (use CallLock st in \<open>auto split: if_splits\<close>)
next
  case (CallUnlock t)
  with st pk inv b have "mutex_wakeup s" by (auto simp: mutex_inv_def split: if_splits)
  then show ?thesis
    by (rule mutex_wakeup_keep [where t = t and p = MUnl1])
      (use CallUnlock st in \<open>auto split: if_splits\<close>)
qed

lemma mutex_inv_step: "mutex_inv s \<Longrightarrow> mutex_step a s = Some s' \<Longrightarrow> mutex_inv s'"
  using mutex_excl_step mutex_sema_step mutex_wakeup_step by (metis mutex_inv_def)

lemma mutex_inv_zero: "mutex_inv mutex_zero"
  by (simp add: mutex_inv_def mutex_excl_def mutex_zero_def mutex_in_cs_def)

interpretation mutex: lock_machine "\<lambda>s. s = mutex_zero" mutex_step mutex_inv mutex_in_cs
proof unfold_locales
  show "s = mutex_zero \<Longrightarrow> mutex_inv s" for s by (simp add: mutex_inv_zero)
  show "mutex_inv s \<Longrightarrow> mutex_step a s = Some s' \<Longrightarrow> mutex_inv s'" for s a s'
    by (rule mutex_inv_step)
  show "mutex_inv s \<Longrightarrow> mutex_in_cs s i \<Longrightarrow> mutex_in_cs s j \<Longrightarrow> i = j" for s i j
    by (auto simp: mutex_inv_def mutex_excl_def)
qed

text \<open>at most one goroutine holds a \<^verbatim>\<open>MutexLock\<close>, and its state word says so exactly:
  it is \<open>unlocked\<close> if and only if nobody holds the lock.\<close>

theorem mutex_lock_exclusion:
  assumes "run mutex_step as mutex_zero = Some s"
  shows "(\<forall>i j. mutex_in_cs s i \<longrightarrow> mutex_in_cs s j \<longrightarrow> i = j)
    \<and> (mx_state s = unlocked \<longleftrightarrow> (\<forall>i. \<not> mutex_in_cs s i))"
  using mutex.invariant [OF refl assms] unfolding mutex_inv_def mutex_excl_def by metis

theorem mutex_lock_exclusion_witness:
  "\<exists>s. run mutex_step [CallLock 1, CallLock 2, Step 1, Step 2, Step 2] mutex_zero = Some s
     \<and> mutex_in_cs s 1 \<and> \<not> mutex_in_cs s 2 \<and> mx_pc s 2 = MPark \<and> mx_state s = lockedWait"
proof -
  let ?s = "mutex_zero\<lparr>mx_state := lockedWait, mx_pc := (\<lambda>_. MIdle)(1 := MHeld, 2 := MPark)\<rparr>"
  have r: "run mutex_step [CallLock 1, CallLock 2, Step 1, Step 2, Step 2] mutex_zero = Some ?s"
    by (simp add: mutex_zero_def lock_words fun_upd_twist)
  have c: "mutex_in_cs ?s 1" by (simp add: mutex_in_cs_def)
  with mutex_lock_exclusion [OF r] have "\<not> mutex_in_cs ?s 2" by force
  with r c show ?thesis by (intro exI [of _ ?s]) simp
qed

section \<open>Permits pile up\<close>

text \<open>The state with the lock free, every goroutine outside it and \<open>n\<close> unused permits.\<close>

definition mutex_permits :: "nat \<Rightarrow> nat \<Rightarrow> MutexLock" where
  "mutex_permits n u =
     \<lparr>mx_state = unlocked, mx_parker = \<lparr>sema = of_nat n\<rparr>, mx_pc = (\<lambda>_. MIdle), mx_unparks = u\<rparr>"

text \<open>One round: goroutine 2 marks the lock contended while goroutine 1 holds it, goroutine 1
  unlocks and unparks before goroutine 2 gets to park, and goroutine 2 then takes the lock
  in the contended state and unparks nobody when it unlocks.\<close>

definition mutex_leak_round :: "lock_act list" where
  "mutex_leak_round =
     [CallLock 1, Step 1, CallLock 2, Step 2, Step 2, CallUnlock 1, Step 1, Step 1, Step 1,
      Step 2, Step 2, CallUnlock 2, Step 2, Step 2, Step 2]"

text \<open>The states on the way: goroutines 1 and 2 at given statements, the others outside.\<close>

definition mutex_two :: "i32 \<Rightarrow> u32 \<Rightarrow> mutex_pc \<Rightarrow> mutex_pc \<Rightarrow> nat \<Rightarrow> MutexLock" where
  "mutex_two w n x y u = \<lparr>mx_state = w, mx_parker = \<lparr>sema = n\<rparr>,
     mx_pc = (\<lambda>_. MIdle)(1 := x, 2 := y), mx_unparks = u\<rparr>"

lemma mutex_two_idle: "mutex_permits n u = mutex_two unlocked (of_nat n) MIdle MIdle u"
  by (simp add: mutex_permits_def mutex_two_def fun_eq_iff)

lemma mutex_two_calls:
  "mutex_step (CallLock 1) (mutex_two w n MIdle y u) = Some (mutex_two w n MFast y u)"
  "mutex_step (CallLock 2) (mutex_two w n x MIdle u) = Some (mutex_two w n x MFast u)"
  "mutex_step (CallUnlock 1) (mutex_two w n MHeld y u) = Some (mutex_two w n MUnl1 y u)"
  "mutex_step (CallUnlock 2) (mutex_two w n x MHeld u) = Some (mutex_two w n x MUnl1 u)"
  by (simp_all add: mutex_two_def fun_eq_iff)

lemma mutex_two_one:
  "mutex_step (Step 1) (mutex_two unlocked n MFast y u) = Some (mutex_two lockedNoWait n MHeld y u)"
  "mutex_step (Step 1) (mutex_two lockedWait n MUnl1 y u) = Some (mutex_two lockedWait n MUnl2 y u)"
  "mutex_step (Step 1) (mutex_two lockedWait n MUnl2 y u) = Some (mutex_two unlocked n MUnpark y u)"
  "mutex_step (Step 1) (mutex_two w n MUnpark y u) = Some (mutex_two w (n + 1) MIdle y (Suc u))"
  by (simp_all add: mutex_two_def fun_eq_iff lock_words Parker_Unpark_def runtime_Semrelease_def)

lemma mutex_two_two:
  "mutex_step (Step 2) (mutex_two lockedNoWait n x MFast u) = Some (mutex_two lockedNoWait n x MSwap u)"
  "mutex_step (Step 2) (mutex_two lockedNoWait n x MSwap u) = Some (mutex_two lockedWait n x MPark u)"
  "mutex_step (Step 2) (mutex_two unlocked n x MSwap u) = Some (mutex_two lockedWait n x MHeld u)"
  "mutex_step (Step 2) (mutex_two lockedWait n x MUnl1 u) = Some (mutex_two lockedWait n x MUnl2 u)"
  "mutex_step (Step 2) (mutex_two lockedWait n x MUnl2 u) = Some (mutex_two unlocked n x MUnpark u)"
  "mutex_step (Step 2) (mutex_two w n x MUnpark u) = Some (mutex_two w (n + 1) x MIdle (Suc u))"
  by (simp_all add: mutex_two_def fun_eq_iff lock_words Parker_Unpark_def runtime_Semrelease_def)

lemma mutex_two_park:
  "n \<noteq> 0 \<Longrightarrow> mutex_step (Step 2) (mutex_two w n x MPark u) = Some (mutex_two w (n - 1) x MSwap u)"
  by (simp add: mutex_two_def fun_eq_iff Parker_Park_def runtime_Semacquire_def)

lemma mutex_leak_one:
  assumes "n < 2 ^ 32 - 1"
  shows "run mutex_step mutex_leak_round (mutex_permits n u) = Some (mutex_permits (Suc n) (u + 2))"
proof -
  have "unat ((of_nat n :: u32) + 1) = Suc n"
    using assms by (simp add: unat_word_ariths unat_of_nat)
  then have nz: "(of_nat n :: u32) + 1 \<noteq> 0" by (metis nat.distinct(1) unat_0)
  show ?thesis using nz
    by (simp add: mutex_leak_round_def mutex_two_idle mutex_two_calls mutex_two_one mutex_two_two
        mutex_two_park add.commute del: mutex_step.simps One_nat_def)
qed

text \<open>permits accumulate without bound although every goroutine pairs its calls: for each
  \<open>n\<close> that fits the 32-bit semaphore there is a schedule of two goroutines that ends with
  the lock free, both goroutines outside it, and \<open>n\<close> permits left over, each of which will
  wake a later waiter for nothing.\<close>

theorem mutex_permits_accumulate:
  assumes "n < 2 ^ 32"
  shows "\<exists>s. run mutex_step (concat (replicate n mutex_leak_round)) mutex_zero = Some s
     \<and> mx_state s = unlocked \<and> (\<forall>t. mx_pc s t = MIdle) \<and> sema (mx_parker s) = of_nat n"
proof -
  have "run mutex_step (concat (replicate n mutex_leak_round)) (mutex_permits k u)
      = Some (mutex_permits (k + n) (u + 2 * n))" if "k + n < 2 ^ 32" for k u
    using that
    by (induction n arbitrary: k u) (simp_all add: run_append mutex_leak_one)
  from this [of 0 0] assms show ?thesis by (simp add: mutex_zero_def mutex_permits_def)
qed

theorem mutex_permits_accumulate_witness:
  "\<exists>s. run mutex_step (concat (replicate 2 mutex_leak_round)) mutex_zero = Some s
     \<and> sema (mx_parker s) = 2"
  using mutex_permits_accumulate [of 2] by auto

end
