(* ===== verification/Lock_Seq.thy ===== *)
theory Lock_Seq
  imports Prelude
begin

text \<open>
  \<^verbatim>\<open>SeqLock\<close> of \<^verbatim>\<open>syncx/lock.go\<close> with its clients. The data the lock protects is an
  array of cells \<open>sq_data\<close>; a writer stores cells one at a time between \<^verbatim>\<open>WriteLock\<close> and
  \<^verbatim>\<open>WriteUnlock\<close>, and a reader's callback reads cells one at a time into its local
  snapshot, so torn reads are possible. \<^verbatim>\<open>sync.Mutex\<close> is its lock bit. The auxiliary
  field \<open>sq_adds\<close> counts the executions of \<^verbatim>\<open>seq.Add(1)\<close>; no step reads it.
\<close>

datatype 'v seq_pc =
    SqIdle
  | SqWLock                              \<comment> \<open>\<open>WriteLock\<close>: \<open>s.writerMu.Lock()\<close>\<close>
  | SqWOpen                              \<comment> \<open>\<open>WriteLock\<close>: \<open>s.seq.Add(1)\<close>\<close>
  | SqWCrit                              \<comment> \<open>\<open>WriteLock\<close> has returned\<close>
  | SqWClose                             \<comment> \<open>\<open>WriteUnlock\<close>: \<open>s.seq.Add(1)\<close>\<close>
  | SqWUnlock                            \<comment> \<open>\<open>WriteUnlock\<close>: \<open>s.writerMu.Unlock()\<close>\<close>
  | SqRStart                             \<comment> \<open>\<open>Read\<close>: \<open>start := s.seq.Load()\<close>\<close>
  | SqRBody u64 "nat \<rightharpoonup> 'v"              \<comment> \<open>\<open>Read\<close>: in \<open>f()\<close>\<close>
  | SqRCheck u64 "nat \<rightharpoonup> 'v"             \<comment> \<open>\<open>Read\<close>: \<open>s.seq.Load() == start\<close>\<close>
  | SqRBegin                             \<comment> \<open>\<open>ReadBegin\<close>\<close>
  | SqRBegun u64 "nat \<rightharpoonup> 'v"             \<comment> \<open>\<open>ReadBegin\<close> has returned\<close>
  | SqRValidate u64 "nat \<rightharpoonup> 'v"          \<comment> \<open>\<open>ReadValidate(start)\<close>\<close>
  | SqRDone bool "nat \<rightharpoonup> 'v"             \<comment> \<open>the read has ended; was it validated?\<close>

record 'v SeqLock =
  sq_seq :: u64
  sq_writerMu :: bool
  sq_data :: "nat \<Rightarrow> 'v"
  sq_pc :: "tid \<Rightarrow> 'v seq_pc"
  sq_adds :: nat

datatype 'v seq_act =
    SqCallWrite tid | SqPut tid nat 'v | SqCallWriteUnlock tid
  | SqCallRead tid | SqCallReadBegin tid | SqGet tid nat | SqEndBody tid | SqCallValidate tid
  | SqReset tid | SqStep tid

definition seq_init :: "'v SeqLock \<Rightarrow> bool" where
  "seq_init s \<longleftrightarrow> sq_seq s = 0 \<and> \<not> sq_writerMu s \<and> (\<forall>t. sq_pc s t = SqIdle) \<and> sq_adds s = 0"

abbreviation sq_goto :: "tid \<Rightarrow> 'v seq_pc \<Rightarrow> 'v SeqLock \<Rightarrow> 'v SeqLock" where
  "sq_goto t p s \<equiv> s\<lparr>sq_pc := (sq_pc s)(t := p)\<rparr>"

text \<open>\<^verbatim>\<open>ReadValidate\<close> as a function of the current sequence word.\<close>

definition ReadValidate :: "u64 \<Rightarrow> u64 \<Rightarrow> bool" where
  "ReadValidate seq start \<longleftrightarrow> start AND 1 = 0 \<and> seq = start"

definition seq_local_step :: "tid \<Rightarrow> 'v SeqLock \<Rightarrow> 'v SeqLock option" where
  "seq_local_step t s =
     (case sq_pc s t of
        SqWLock \<Rightarrow> (if sq_writerMu s then None else Some (sq_goto t SqWOpen (s\<lparr>sq_writerMu := True\<rparr>)))
      | SqWOpen \<Rightarrow> Some (sq_goto t SqWCrit (s\<lparr>sq_seq := sq_seq s + 1, sq_adds := Suc (sq_adds s)\<rparr>))
      | SqWClose \<Rightarrow> Some (sq_goto t SqWUnlock (s\<lparr>sq_seq := sq_seq s + 1, sq_adds := Suc (sq_adds s)\<rparr>))
      | SqWUnlock \<Rightarrow> Some (sq_goto t SqIdle (s\<lparr>sq_writerMu := False\<rparr>))
      | SqRStart \<Rightarrow>
          (let start = sq_seq s
           in if start AND 1 \<noteq> 0 then Some s
              else Some (sq_goto t (SqRBody start (\<lambda>_. None)) s))
      | SqRCheck start snap \<Rightarrow>
          (if sq_seq s = start then Some (sq_goto t (SqRDone True snap) s)
           else Some (sq_goto t SqRStart s))
      | SqRBegin \<Rightarrow> Some (sq_goto t (SqRBegun (sq_seq s) (\<lambda>_. None)) s)
      | SqRValidate start snap \<Rightarrow>
          Some (sq_goto t (SqRDone (ReadValidate (sq_seq s) start) snap) s)
      | _ \<Rightarrow> None)"

fun seq_step :: "'v seq_act \<Rightarrow> 'v SeqLock \<Rightarrow> 'v SeqLock option" where
  "seq_step (SqCallWrite t) s = (if sq_pc s t = SqIdle then Some (sq_goto t SqWLock s) else None)"
| "seq_step (SqPut t i v) s =
     (if sq_pc s t = SqWCrit then Some (s\<lparr>sq_data := (sq_data s)(i := v)\<rparr>) else None)"
| "seq_step (SqCallWriteUnlock t) s =
     (if sq_pc s t = SqWCrit then Some (sq_goto t SqWClose s) else None)"
| "seq_step (SqCallRead t) s = (if sq_pc s t = SqIdle then Some (sq_goto t SqRStart s) else None)"
| "seq_step (SqCallReadBegin t) s = (if sq_pc s t = SqIdle then Some (sq_goto t SqRBegin s) else None)"
| "seq_step (SqGet t i) s =
     (case sq_pc s t of
        SqRBody start snap \<Rightarrow> Some (sq_goto t (SqRBody start (snap(i \<mapsto> sq_data s i))) s)
      | SqRBegun start snap \<Rightarrow> Some (sq_goto t (SqRBegun start (snap(i \<mapsto> sq_data s i))) s)
      | _ \<Rightarrow> None)"
| "seq_step (SqEndBody t) s =
     (case sq_pc s t of SqRBody start snap \<Rightarrow> Some (sq_goto t (SqRCheck start snap) s) | _ \<Rightarrow> None)"
| "seq_step (SqCallValidate t) s =
     (case sq_pc s t of SqRBegun start snap \<Rightarrow> Some (sq_goto t (SqRValidate start snap) s) | _ \<Rightarrow> None)"
| "seq_step (SqReset t) s =
     (case sq_pc s t of SqRDone b snap \<Rightarrow> Some (sq_goto t SqIdle s) | _ \<Rightarrow> None)"
| "seq_step (SqStep t) s = seq_local_step t s"

text \<open>The writer holds \<^verbatim>\<open>writerMu\<close>, and the sequence word is odd, in these sections.\<close>

fun seq_has_mu :: "'v seq_pc \<Rightarrow> bool" where
  "seq_has_mu SqWOpen = True" | "seq_has_mu SqWCrit = True" | "seq_has_mu SqWClose = True"
| "seq_has_mu SqWUnlock = True" | "seq_has_mu _ = False"

fun seq_writing :: "'v seq_pc \<Rightarrow> bool" where
  "seq_writing SqWCrit = True" | "seq_writing SqWClose = True" | "seq_writing _ = False"

fun seq_reading :: "'v seq_pc \<Rightarrow> (u64 \<times> (nat \<rightharpoonup> 'v)) option" where
  "seq_reading (SqRBody w m) = Some (w, m)" | "seq_reading (SqRCheck w m) = Some (w, m)"
| "seq_reading (SqRBegun w m) = Some (w, m)" | "seq_reading (SqRValidate w m) = Some (w, m)"
| "seq_reading _ = None"

definition seq_writers :: "'v SeqLock \<Rightarrow> bool" where
  "seq_writers s \<longleftrightarrow>
     (\<forall>i. seq_has_mu (sq_pc s i) \<longrightarrow> sq_writerMu s)
     \<and> (\<forall>i j. seq_has_mu (sq_pc s i) \<longrightarrow> seq_has_mu (sq_pc s j) \<longrightarrow> i = j)
     \<and> (odd (sq_adds s) \<longleftrightarrow> (\<exists>i. seq_writing (sq_pc s i)))"

text \<open>A reader whose even start word is still current has read cells of the present data.\<close>

definition seq_readers :: "'v SeqLock \<Rightarrow> bool" where
  "seq_readers s \<longleftrightarrow>
     sq_seq s = of_nat (sq_adds s)
     \<and> (\<forall>i w m. seq_reading (sq_pc s i) = Some (w, m) \<longrightarrow>
          unat w \<le> sq_adds s
          \<and> (even (unat w) \<longrightarrow> sq_seq s = w \<longrightarrow> (\<forall>k v. m k = Some v \<longrightarrow> sq_data s k = v)))
     \<and> (\<forall>i w m. sq_pc s i = SqRBody w m \<or> sq_pc s i = SqRCheck w m \<longrightarrow> even (unat w))"

definition seq_inv :: "'v SeqLock \<Rightarrow> bool" where
  "seq_inv s \<longleftrightarrow> sq_adds s < 2 ^ 64 \<longrightarrow> seq_writers s \<and> seq_readers s"

lemma even_and_1: "(w :: u64) AND 1 = 0 \<longleftrightarrow> even (unat w)"
proof -
  have "odd (unat w) \<longleftrightarrow> odd w" by (simp flip: bit_0 add: bit_unsigned_iff)
  moreover have "w AND 1 = 0 \<longleftrightarrow> even w" by (simp only: and_one_eq even_iff_mod_2_eq_zero)
  ultimately show ?thesis by blast
qed

text \<open>Steps that neither move the sequence word nor the data.\<close>

lemma seq_writers_goto:
  assumes "seq_writers s" and "seq_has_mu p = seq_has_mu (sq_pc s t)"
    and "seq_writing p = seq_writing (sq_pc s t)"
  shows "seq_writers (sq_goto t p s)"
proof -
  have "seq_has_mu (sq_pc (sq_goto t p s) i) = seq_has_mu (sq_pc s i)"
    and "seq_writing (sq_pc (sq_goto t p s) i) = seq_writing (sq_pc s i)" for i
    using assms(2,3) by auto
  with assms(1) show ?thesis unfolding seq_writers_def by simp
qed

lemma seq_readers_goto:
  assumes r: "seq_readers s"
    and new: "\<And>w m. seq_reading p = Some (w, m) \<Longrightarrow> unat w \<le> sq_adds s
       \<and> (even (unat w) \<longrightarrow> sq_seq s = w \<longrightarrow> (\<forall>k v. m k = Some v \<longrightarrow> sq_data s k = v))"
    and ev: "\<And>w m. p = SqRBody w m \<or> p = SqRCheck w m \<Longrightarrow> even (unat w)"
  shows "seq_readers (sq_goto t p s)"
  using assms unfolding seq_readers_def by (simp split: if_splits)

lemma seq_readersD:
  assumes "seq_readers s" and "seq_reading (sq_pc s t) = Some (w, m)"
  shows "unat w \<le> sq_adds s
    \<and> (even (unat w) \<longrightarrow> sq_seq s = w \<longrightarrow> (\<forall>k v. m k = Some v \<longrightarrow> sq_data s k = v))"
  using assms unfolding seq_readers_def by blast

lemma seq_readers_even:
  "seq_readers s \<Longrightarrow> sq_pc s t = SqRBody w m \<or> sq_pc s t = SqRCheck w m \<Longrightarrow> even (unat w)"
  unfolding seq_readers_def by blast

lemma seq_readers_mu: "seq_readers (s\<lparr>sq_writerMu := b\<rparr>) = seq_readers s"
  by (simp add: seq_readers_def)

text \<open>The next value of the sequence word has not been seen by any reader.\<close>

lemma seq_readers_add:
  assumes r: "seq_readers s" and b: "Suc (sq_adds s) < 2 ^ 64"
  shows "seq_readers (s\<lparr>sq_seq := sq_seq s + 1, sq_adds := Suc (sq_adds s)\<rparr>)" (is "seq_readers ?s")
proof -
  have sq: "sq_seq s = of_nat (sq_adds s)" using r by (simp add: seq_readers_def)
  then have new: "sq_seq ?s = of_nat (Suc (sq_adds s))" by (simp add: add.commute)
  then have un: "unat (sq_seq ?s) = Suc (sq_adds s)" using b by (simp add: unat_of_nat del: of_nat_Suc)
  have "sq_seq ?s \<noteq> w" if "seq_reading (sq_pc s i) = Some (w, m)" for i w m
    using r that un unfolding seq_readers_def by fastforce
  with r new show ?thesis unfolding seq_readers_def by (auto simp: le_Suc_eq)
qed

lemma seq_readers_put:
  assumes r: "seq_readers s" and "odd (sq_adds s)" and b: "sq_adds s < 2 ^ 64"
  shows "seq_readers (s\<lparr>sq_data := d\<rparr>)"
proof -
  have "unat (sq_seq s) = sq_adds s" using r b by (simp add: seq_readers_def unat_of_nat)
  with assms show ?thesis unfolding seq_readers_def by auto
qed

lemma seq_readers_get:
  assumes r: "seq_readers s" and rd: "seq_reading (sq_pc s t) = Some (w, m)"
    and p: "p = SqRBody w (m(i \<mapsto> sq_data s i)) \<and> (\<exists>m. sq_pc s t = SqRBody w m)
      \<or> p = SqRBegun w (m(i \<mapsto> sq_data s i))"
  shows "seq_readers (sq_goto t p s)"
proof (rule seq_readers_goto [OF r])
  have old: "unat w \<le> sq_adds s \<and> (even (unat w) \<longrightarrow> sq_seq s = w \<longrightarrow>
      (\<forall>k v. m k = Some v \<longrightarrow> sq_data s k = v))"
    using r rd unfolding seq_readers_def by blast
  show "unat w' \<le> sq_adds s \<and> (even (unat w') \<longrightarrow> sq_seq s = w' \<longrightarrow>
      (\<forall>k v. m' k = Some v \<longrightarrow> sq_data s k = v))" if "seq_reading p = Some (w', m')" for w' m'
    using that p old by (auto split: if_splits)
  show "even (unat w')" if "p = SqRBody w' m' \<or> p = SqRCheck w' m'" for w' m'
    using that p r unfolding seq_readers_def by auto
qed

text \<open>The writer's own steps.\<close>

lemma seq_writers_none:
  assumes "seq_writers s" and "\<not> sq_writerMu s"
  shows "\<not> seq_has_mu (sq_pc s i)"
  using assms by (auto simp: seq_writers_def)

lemma seq_writing_mu: "seq_writing p \<Longrightarrow> seq_has_mu p"
  by (cases p) auto

lemma seq_writers_lock:
  assumes w: "seq_writers s" and "\<not> sq_writerMu s"
  shows "seq_writers (sq_goto t SqWOpen (s\<lparr>sq_writerMu := True\<rparr>))"
proof -
  have "\<not> seq_writing (sq_pc s i)" for i using seq_writers_none [OF assms] seq_writing_mu by blast
  then show ?thesis using w seq_writers_none [OF assms] by (auto simp: seq_writers_def)
qed

lemma seq_writers_other:
  assumes w: "seq_writers s" and "seq_has_mu (sq_pc s t)" and "i \<noteq> t"
  shows "\<not> seq_has_mu (sq_pc s i) \<and> \<not> seq_writing (sq_pc s i)"
  using assms seq_writing_mu unfolding seq_writers_def by blast

lemma seq_writers_add:
  assumes w: "seq_writers s" and mu: "seq_has_mu (sq_pc s t)" and p: "seq_has_mu p"
    and flip: "seq_writing p \<longleftrightarrow> \<not> seq_writing (sq_pc s t)"
  shows "seq_writers (sq_goto t p (s\<lparr>sq_seq := x, sq_adds := Suc (sq_adds s)\<rparr>))"
proof -
  note other = seq_writers_other [OF w mu]
  have "(\<exists>i. seq_writing (sq_pc s i)) \<longleftrightarrow> seq_writing (sq_pc s t)" using other by metis
  moreover have "sq_writerMu s" using w mu by (auto simp: seq_writers_def)
  ultimately show ?thesis using w other p flip
    unfolding seq_writers_def by auto
qed

lemma seq_writers_unlock:
  assumes w: "seq_writers s" and pc: "sq_pc s t = SqWUnlock"
  shows "seq_writers (sq_goto t SqIdle (s\<lparr>sq_writerMu := False\<rparr>))"
proof -
  have mu: "seq_has_mu (sq_pc s t)" using pc by simp
  note other = seq_writers_other [OF w mu]
  have "\<not> seq_writing (sq_pc s i)" for i using other [of i] pc by (cases "i = t") auto
  then show ?thesis using w other by (auto simp: seq_writers_def)
qed

text \<open>Every step keeps the invariant as long as the counter has not wrapped.\<close>

lemma seq_local_keeps:
  assumes w: "seq_writers s" and r: "seq_readers s" and st: "seq_local_step t s = Some s'"
    and b: "sq_adds s' < 2 ^ 64"
  shows "seq_writers s' \<and> seq_readers s'"
proof (cases "sq_pc s t")
  case SqWLock
  with st have mu: "\<not> sq_writerMu s" and s': "s' = sq_goto t SqWOpen (s\<lparr>sq_writerMu := True\<rparr>)"
    by (auto simp: seq_local_step_def split: if_splits)
  from seq_readers_goto [of "s\<lparr>sq_writerMu := True\<rparr>" SqWOpen t] r
  show ?thesis using seq_writers_lock [OF w mu] by (simp add: s' seq_readers_mu)
next
  case SqWOpen
  with st have s': "s' = sq_goto t SqWCrit (s\<lparr>sq_seq := sq_seq s + 1, sq_adds := Suc (sq_adds s)\<rparr>)"
    by (simp add: seq_local_step_def)
  with b have "Suc (sq_adds s) < 2 ^ 64" by simp
  from seq_readers_goto [OF seq_readers_add [OF r this], of SqWCrit t]
  show ?thesis using seq_writers_add [OF w, of t SqWCrit] SqWOpen by (simp add: s')
next
  case SqWClose
  with st have s': "s' = sq_goto t SqWUnlock (s\<lparr>sq_seq := sq_seq s + 1, sq_adds := Suc (sq_adds s)\<rparr>)"
    by (simp add: seq_local_step_def)
  with b have "Suc (sq_adds s) < 2 ^ 64" by simp
  from seq_readers_goto [OF seq_readers_add [OF r this], of SqWUnlock t]
  show ?thesis using seq_writers_add [OF w, of t SqWUnlock] SqWClose by (simp add: s')
next
  case SqWUnlock
  with st have s': "s' = sq_goto t SqIdle (s\<lparr>sq_writerMu := False\<rparr>)"
    by (simp add: seq_local_step_def)
  from seq_readers_goto [of "s\<lparr>sq_writerMu := False\<rparr>" SqIdle t] r
  show ?thesis using seq_writers_unlock [OF w SqWUnlock] by (simp add: s' seq_readers_mu)
next
  case SqRStart
  have "sq_seq s = of_nat (sq_adds s)" using r by (simp add: seq_readers_def)
  then have "unat (sq_seq s) \<le> sq_adds s" by (simp add: unat_of_nat)
  then show ?thesis using SqRStart st w r
    by (auto simp: seq_local_step_def Let_def even_and_1 intro!: seq_writers_goto seq_readers_goto
        split: if_splits)
next
  case SqRBegin
  have "sq_seq s = of_nat (sq_adds s)" using r by (simp add: seq_readers_def)
  then have "unat (sq_seq s) \<le> sq_adds s" by (simp add: unat_of_nat)
  then show ?thesis using SqRBegin st w r
    by (auto simp: seq_local_step_def intro!: seq_writers_goto seq_readers_goto)
next
  case (SqRCheck x m)
  then show ?thesis using st w r
    by (auto simp: seq_local_step_def intro!: seq_writers_goto seq_readers_goto split: if_splits)
next
  case (SqRValidate x m)
  then show ?thesis using st w r
    by (auto simp: seq_local_step_def intro!: seq_writers_goto seq_readers_goto)
qed (use st in \<open>simp_all add: seq_local_step_def\<close>)

lemma seq_call_keeps:
  assumes w: "seq_writers s" and r: "seq_readers s" and st: "seq_step a s = Some s'"
    and b: "sq_adds s' < 2 ^ 64" and nl: "\<And>t. a \<noteq> SqStep t"
  shows "seq_writers s' \<and> seq_readers s'"
proof (cases a)
  case (SqPut t i v)
  with st have pc: "sq_pc s t = SqWCrit" and s': "s' = s\<lparr>sq_data := (sq_data s)(i := v)\<rparr>"
    by (auto split: if_splits)
  have "odd (sq_adds s)" using w pc unfolding seq_writers_def by (metis seq_writing.simps(1))
  from seq_readers_put [OF r this] b have "seq_readers s'" by (simp add: s')
  with w show ?thesis by (simp add: s' seq_writers_def)
next
  case (SqGet t i)
  with st obtain x m p where rd: "seq_reading (sq_pc s t) = Some (x, m)" and s': "s' = sq_goto t p s"
    and p: "p = SqRBody x (m(i \<mapsto> sq_data s i)) \<and> (\<exists>m. sq_pc s t = SqRBody x m)
      \<or> p = SqRBegun x (m(i \<mapsto> sq_data s i))"
    and nw: "seq_has_mu p = seq_has_mu (sq_pc s t)" "seq_writing p = seq_writing (sq_pc s t)"
    by (cases "sq_pc s t") auto
  show ?thesis using seq_readers_get [OF r rd p] seq_writers_goto [OF w nw] by (simp add: s')
next
  case (SqEndBody t)
  with st obtain x m where pc: "sq_pc s t = SqRBody x m" and s': "s' = sq_goto t (SqRCheck x m) s"
    by (cases "sq_pc s t") auto
  have "seq_reading (sq_pc s t) = Some (x, m)" using pc by simp
  from seq_readersD [OF r this] seq_readers_even [OF r, of t x m] pc have "seq_readers s'"
    unfolding s' by (intro seq_readers_goto [OF r]) auto
  with seq_writers_goto [OF w, of "SqRCheck x m" t] pc show ?thesis by (simp add: s')
next
  case (SqCallValidate t)
  with st obtain x m where pc: "sq_pc s t = SqRBegun x m" and s': "s' = sq_goto t (SqRValidate x m) s"
    by (cases "sq_pc s t") auto
  have "seq_reading (sq_pc s t) = Some (x, m)" using pc by simp
  from seq_readersD [OF r this] have "seq_readers s'"
    unfolding s' by (intro seq_readers_goto [OF r]) auto
  with seq_writers_goto [OF w, of "SqRValidate x m" t] pc show ?thesis by (simp add: s')
qed (use st w r nl in \<open>auto intro!: seq_writers_goto seq_readers_goto split: if_splits seq_pc.splits\<close>)

lemma seq_adds_mono: "seq_step a s = Some s' \<Longrightarrow> sq_adds s \<le> sq_adds s'"
  by (cases a) (auto simp: seq_local_step_def Let_def split: seq_pc.splits if_splits)

lemma seq_inv_step:
  assumes inv: "seq_inv s" and st: "seq_step a s = Some s'"
  shows "seq_inv s'"
  unfolding seq_inv_def
proof
  assume b: "sq_adds s' < 2 ^ 64"
  then have "sq_adds s < 2 ^ 64" using seq_adds_mono [OF st] by simp
  then have w: "seq_writers s" and r: "seq_readers s" using inv by (simp_all add: seq_inv_def)
  show "seq_writers s' \<and> seq_readers s'"
  proof (cases "\<exists>t. a = SqStep t")
    case True
    then show ?thesis using seq_local_keeps [OF w r _ b] st by auto
  qed (use seq_call_keeps [OF w r st b] in blast)
qed

interpretation seqlock: machine seq_init seq_step seq_inv
proof unfold_locales
  show "seq_init s \<Longrightarrow> seq_inv s" for s :: "'a SeqLock"
    by (auto simp: seq_init_def seq_inv_def seq_writers_def seq_readers_def)
  show "seq_inv s \<Longrightarrow> seq_step a s = Some s' \<Longrightarrow> seq_inv s'" for s :: "'a SeqLock" and a s'
    by (rule seq_inv_step)
qed

text \<open>C33: a validated read is consistent. Whenever \<^verbatim>\<open>Read\<close> leaves its loop, or
  \<^verbatim>\<open>ReadValidate\<close> returns true, all cells the reader collected (in whatever order and
  however slowly, with writers storing cells one by one in between) equal the protected data
  at the instant of the validating load, and no writer is inside its critical section then;
  for runs in which the 64-bit sequence word has not wrapped around.\<close>

theorem seqlock_validated_read_consistent:
  assumes "seq_init s" and "run seq_step as s = Some s1" and "sq_adds s1 < 2 ^ 64"
    and "seq_step (SqStep t) s1 = Some s2" and "sq_pc s2 t = SqRDone True snap"
  shows "(\<forall>k v. snap k = Some v \<longrightarrow> sq_data s1 k = v) \<and> (\<forall>i. \<not> seq_writing (sq_pc s1 i))"
proof -
  have w: "seq_writers s1" and r: "seq_readers s1"
    using seqlock.invariant [OF assms(1,2)] assms(3) by (simp_all add: seq_inv_def)
  have cur: "unat (sq_seq s1) = sq_adds s1"
    using r assms(3) by (simp add: seq_readers_def unat_of_nat)
  have "sq_pc s1 t = SqRCheck (sq_seq s1) snap
      \<or> sq_pc s1 t = SqRValidate (sq_seq s1) snap \<and> ReadValidate (sq_seq s1) (sq_seq s1)"
    using assms(4,5) by (auto simp: seq_local_step_def Let_def ReadValidate_def
        split: seq_pc.splits if_splits)
  then have ev: "even (unat (sq_seq s1))"
    and rd: "seq_reading (sq_pc s1 t) = Some (sq_seq s1, snap)"
    using seq_readers_even [OF r, of t] by (auto simp: ReadValidate_def even_and_1)
  have "\<not> (\<exists>i. seq_writing (sq_pc s1 i))" using w ev cur by (simp add: seq_writers_def)
  with seq_readersD [OF r rd] ev show ?thesis by blast
qed

theorem seqlock_validated_read_witness:
  "\<exists>s s1 s2 snap. seq_init s
     \<and> run seq_step [SqCallRead 1, SqCallWrite 2, SqStep 2, SqStep 2, SqPut 2 0 5, SqStep 1,
          SqPut 2 1 (6::int), SqCallWriteUnlock 2, SqStep 2, SqStep 1, SqGet 1 1, SqGet 1 0,
          SqEndBody 1] s = Some s1
     \<and> seq_step (SqStep 1) s1 = Some s2 \<and> sq_pc s2 1 = SqRDone True snap
     \<and> snap 0 = Some 5 \<and> snap 1 = Some 6 \<and> sq_data s1 0 = 5 \<and> sq_data s1 1 = 6
     \<and> \<not> seq_writing (sq_pc s1 2)"
proof -
  let ?s = "\<lparr>sq_seq = 0, sq_writerMu = False, sq_data = (\<lambda>_. 0::int), sq_pc = (\<lambda>_. SqIdle), sq_adds = 0\<rparr>"
  let ?as = "[SqCallRead 1, SqCallWrite 2, SqStep 2, SqStep 2, SqPut 2 0 5, SqStep 1,
          SqPut 2 1 6, SqCallWriteUnlock 2, SqStep 2, SqStep 1, SqGet 1 1, SqGet 1 0, SqEndBody 1]"
  have i: "seq_init ?s" by (simp add: seq_init_def)
  obtain s1 where r: "run seq_step ?as ?s = Some s1" and b: "sq_adds s1 < 2 ^ 64"
    and p: "sq_pc s1 1 = SqRCheck 2 [1 \<mapsto> 6, 0 \<mapsto> 5]" and q: "sq_seq s1 = 2"
    by (simp add: seq_local_step_def Let_def)
  obtain s2 where t: "seq_step (SqStep 1) s1 = Some s2"
    and d: "sq_pc s2 1 = SqRDone True [1 \<mapsto> 6, 0 \<mapsto> 5]"
    using p q by (simp add: seq_local_step_def)
  have "sq_data s1 0 = 5" "sq_data s1 1 = 6" "\<not> seq_writing (sq_pc s1 2)"
    using seqlock_validated_read_consistent [OF i r b t d] by auto
  with i r t d show ?thesis
    by (intro exI [of _ ?s] exI [of _ s1] exI [of _ s2] exI [of _ "[1 \<mapsto> 6, 0 \<mapsto> 5]"]) simp
qed

end
