(* ===== verification/Lock_CLH.thy ===== *)
theory Lock_CLH
  imports Lock_Spec
begin

text \<open>
  \<^verbatim>\<open>CLHLock\<close> of \<^verbatim>\<open>syncx/lock.go\<close>. \<open>cl_flag n\<close> is the \<^verbatim>\<open>state\<close> of the node at
  address \<open>n\<close>; \<^verbatim>\<open>Lock\<close> returns the address of its node and the client hands it back
  to \<^verbatim>\<open>Unlock\<close>. The auxiliary field \<open>cl_queue\<close> lists the goroutines between their swap of
  \<^verbatim>\<open>tail\<close> and their release; no step reads it.
\<close>

datatype clh_pc =
    ClIdle
  | ClAlloc            \<comment> \<open>\<open>node := &clhNode{}\<close>\<close>
  | ClSwap nat         \<comment> \<open>\<open>prev := l.tail.Swap(node)\<close>\<close>
  | ClSpin nat nat     \<comment> \<open>\<open>for !prev.state.Load()\<close>, with \<open>node\<close> and \<open>prev\<close>\<close>
  | ClHeld nat         \<comment> \<open>\<open>Lock\<close> has returned \<open>node\<close>\<close>
  | ClStore nat        \<comment> \<open>\<open>Unlock\<close>: \<open>node.state.Store(true)\<close>\<close>

record CLHLock =
  cl_tail :: "nat option"
  cl_flag :: "nat \<Rightarrow> bool"
  cl_alloc :: nat
  cl_pc :: "tid \<Rightarrow> clh_pc"
  cl_queue :: "tid list"

definition clh_zero :: CLHLock where
  "clh_zero = \<lparr>cl_tail = None, cl_flag = (\<lambda>_. False), cl_alloc = 0, cl_pc = (\<lambda>_. ClIdle), cl_queue = []\<rparr>"

datatype clh_error = UnlockOfUnlocked

text \<open>The body of \<^verbatim>\<open>Unlock(node)\<close>, with its panic on a nil handle.\<close>

definition clh_Unlock :: "nat option \<Rightarrow> CLHLock \<Rightarrow> clh_error + CLHLock" where
  "clh_Unlock node s =
     (case node of
        None \<Rightarrow> Inl UnlockOfUnlocked
      | Some n \<Rightarrow> Inr (s\<lparr>cl_flag := (cl_flag s)(n := True)\<rparr>))"

fun clh_step :: "lock_act \<Rightarrow> CLHLock \<Rightarrow> CLHLock option" where
  "clh_step (CallLock t) s =
     (if cl_pc s t = ClIdle then Some (s\<lparr>cl_pc := (cl_pc s)(t := ClAlloc)\<rparr>) else None)"
| "clh_step (CallUnlock t) s =
     (case cl_pc s t of
        ClHeld n \<Rightarrow> Some (s\<lparr>cl_pc := (cl_pc s)(t := ClStore n)\<rparr>)
      | _ \<Rightarrow> None)"
| "clh_step (Step t) s =
     (case cl_pc s t of
        ClAlloc \<Rightarrow>
          Some (s\<lparr>cl_alloc := Suc (cl_alloc s), cl_flag := (cl_flag s)(cl_alloc s := False),
                  cl_pc := (cl_pc s)(t := ClSwap (cl_alloc s))\<rparr>)
      | ClSwap n \<Rightarrow>
          (case cl_tail s of
             None \<Rightarrow> Some (s\<lparr>cl_tail := Some n, cl_queue := cl_queue s @ [t],
                       cl_pc := (cl_pc s)(t := ClHeld n)\<rparr>)
           | Some prev \<Rightarrow> Some (s\<lparr>cl_tail := Some n, cl_queue := cl_queue s @ [t],
                       cl_pc := (cl_pc s)(t := ClSpin n prev)\<rparr>))
      | ClSpin n prev \<Rightarrow>
          (if \<not> cl_flag s prev then Some s
           else Some (s\<lparr>cl_pc := (cl_pc s)(t := ClHeld n)\<rparr>))
      | ClStore n \<Rightarrow>
          (case clh_Unlock (Some n) s of
             Inl _ \<Rightarrow> None
           | Inr s' \<Rightarrow> Some (s'\<lparr>cl_queue := tl (cl_queue s'), cl_pc := (cl_pc s')(t := ClIdle)\<rparr>))
      | _ \<Rightarrow> None)"

definition clh_in_cs :: "CLHLock \<Rightarrow> tid \<Rightarrow> bool" where
  "clh_in_cs s t \<longleftrightarrow> (\<exists>n. cl_pc s t = ClHeld n \<or> cl_pc s t = ClStore n)"

fun clh_node :: "clh_pc \<Rightarrow> nat option" where
  "clh_node (ClSwap n) = Some n"
| "clh_node (ClSpin n p) = Some n"
| "clh_node (ClHeld n) = Some n"
| "clh_node (ClStore n) = Some n"
| "clh_node _ = None"

fun clh_queued :: "clh_pc \<Rightarrow> bool" where
  "clh_queued (ClSpin n p) = True"
| "clh_queued (ClHeld n) = True"
| "clh_queued (ClStore n) = True"
| "clh_queued _ = False"

definition clh_nodes :: "CLHLock \<Rightarrow> bool" where
  "clh_nodes s \<longleftrightarrow>
     (\<forall>t n. clh_node (cl_pc s t) = Some n \<longrightarrow> n < cl_alloc s \<and> \<not> cl_flag s n)
     \<and> (\<forall>t u n. clh_node (cl_pc s t) = Some n \<longrightarrow> clh_node (cl_pc s u) = Some n \<longrightarrow> t = u)"

text \<open>The released node \<open>p\<close> that lets the next locker in.\<close>

definition clh_open :: "CLHLock \<Rightarrow> nat \<Rightarrow> bool" where
  "clh_open s p \<longleftrightarrow> p < cl_alloc s \<and> cl_flag s p"

definition clh_behind :: "CLHLock \<Rightarrow> tid \<Rightarrow> tid \<Rightarrow> bool" where
  "clh_behind s a b \<longleftrightarrow> (\<exists>n p. cl_pc s b = ClSpin n p \<and> clh_node (cl_pc s a) = Some p)"

definition clh_inv :: "CLHLock \<Rightarrow> bool" where
  "clh_inv s \<longleftrightarrow> clh_nodes s
     \<and> distinct (cl_queue s) \<and> (\<forall>t. t \<in> set (cl_queue s) \<longleftrightarrow> clh_queued (cl_pc s t))
     \<and> (cl_queue s \<noteq> [] \<longrightarrow> cl_tail s = clh_node (cl_pc s (last (cl_queue s))))
     \<and> (cl_queue s = [] \<longrightarrow> (\<forall>p. cl_tail s = Some p \<longrightarrow> clh_open s p))
     \<and> (\<forall>k. Suc k < length (cl_queue s) \<longrightarrow> clh_behind s (cl_queue s ! k) (cl_queue s ! Suc k))
     \<and> (\<forall>n p. cl_queue s \<noteq> [] \<longrightarrow> cl_pc s (hd (cl_queue s)) = ClSpin n p \<longrightarrow> clh_open s p)"

lemma clh_invI:
  assumes "clh_nodes s" and "distinct (cl_queue s)"
    and "\<And>t. t \<in> set (cl_queue s) \<longleftrightarrow> clh_queued (cl_pc s t)"
    and "cl_queue s \<noteq> [] \<Longrightarrow> cl_tail s = clh_node (cl_pc s (last (cl_queue s)))"
    and "\<And>p. cl_queue s = [] \<Longrightarrow> cl_tail s = Some p \<Longrightarrow> clh_open s p"
    and "\<And>k. Suc k < length (cl_queue s) \<Longrightarrow> clh_behind s (cl_queue s ! k) (cl_queue s ! Suc k)"
    and "\<And>n p. cl_queue s \<noteq> [] \<Longrightarrow> cl_pc s (hd (cl_queue s)) = ClSpin n p \<Longrightarrow> clh_open s p"
  shows "clh_inv s"
  using assms by (auto simp: clh_inv_def)

lemma clh_inv_parts:
  assumes "clh_inv s"
  shows clh_inv_nodes: "clh_nodes s"
    and clh_inv_distinct: "distinct (cl_queue s)"
    and clh_queued_iff: "t \<in> set (cl_queue s) \<longleftrightarrow> clh_queued (cl_pc s t)"
    and clh_inv_tail: "cl_queue s \<noteq> [] \<Longrightarrow> cl_tail s = clh_node (cl_pc s (last (cl_queue s)))"
    and clh_inv_empty: "cl_queue s = [] \<Longrightarrow> cl_tail s = Some p \<Longrightarrow> clh_open s p"
    and clh_inv_behind: "Suc k < length (cl_queue s) \<Longrightarrow>
      clh_behind s (cl_queue s ! k) (cl_queue s ! Suc k)"
    and clh_inv_hd: "cl_queue s \<noteq> [] \<Longrightarrow> cl_pc s (hd (cl_queue s)) = ClSpin n p \<Longrightarrow> clh_open s p"
  using assms unfolding clh_inv_def by blast+

lemma clh_not_head:
  assumes inv: "clh_inv s" and q: "t \<in> set (cl_queue s)" and nh: "t \<noteq> hd (cl_queue s)"
  shows "\<exists>n p. cl_pc s t = ClSpin n p \<and> \<not> cl_flag s p"
proof -
  obtain k where k: "k < length (cl_queue s)" and t: "cl_queue s ! k = t"
    using q by (auto simp: in_set_conv_nth)
  with nh have "k \<noteq> 0" by (metis hd_conv_nth list.size(3) not_less_zero)
  then obtain j where "k = Suc j" by (cases k) auto
  with clh_inv_behind [OF inv, of j] k t clh_inv_nodes [OF inv] show ?thesis
    unfolding clh_behind_def clh_nodes_def by blast
qed

lemma clh_head_of:
  assumes inv: "clh_inv s" and qd: "clh_queued (cl_pc s t)"
    and sp: "\<And>n p. cl_pc s t = ClSpin n p \<Longrightarrow> cl_flag s p"
  obtains r where "cl_queue s = t # r"
proof -
  have "t \<in> set (cl_queue s)" using qd by (simp add: clh_queued_iff [OF inv])
  moreover from clh_not_head [OF inv this] sp have "t = hd (cl_queue s)" by auto
  ultimately show ?thesis using that by (cases "cl_queue s") auto
qed

text \<open>A step that changes one program counter and keeps that goroutine's node.\<close>

lemma clh_inv_goto:
  assumes inv: "clh_inv s" and nd: "clh_node p = clh_node (cl_pc s t)"
    and qd: "clh_queued p = clh_queued (cl_pc s t)"
    and sp: "\<And>n x. p \<noteq> ClSpin n x" and hd: "clh_queued p \<Longrightarrow> \<exists>r. cl_queue s = t # r"
  shows "clh_inv (s\<lparr>cl_pc := (cl_pc s)(t := p)\<rparr>)" (is "clh_inv ?s")
proof (rule clh_invI)
  have node: "clh_node (cl_pc ?s u) = clh_node (cl_pc s u)" for u using nd by simp
  show "clh_nodes ?s" using clh_inv_nodes [OF inv] unfolding clh_nodes_def node by simp
  show "u \<in> set (cl_queue ?s) \<longleftrightarrow> clh_queued (cl_pc ?s u)" for u
    using clh_queued_iff [OF inv, of u] qd by simp
  show "cl_tail ?s = clh_node (cl_pc ?s (last (cl_queue ?s)))" if "cl_queue ?s \<noteq> []"
    using clh_inv_tail [OF inv] that unfolding node by simp
  show "clh_behind ?s (cl_queue ?s ! k) (cl_queue ?s ! Suc k)" if k: "Suc k < length (cl_queue ?s)" for k
  proof -
    have "cl_queue s ! Suc k \<noteq> t"
    proof
      assume "cl_queue s ! Suc k = t"
      then have "t \<in> set (cl_queue s)" using k nth_mem [of "Suc k" "cl_queue s"] by simp
      then obtain r where "cl_queue s = t # r" using hd qd clh_queued_iff [OF inv] by auto
      with k \<open>cl_queue s ! Suc k = t\<close> clh_inv_distinct [OF inv] show False
        by (auto simp: in_set_conv_nth)
    qed
    then show ?thesis using clh_inv_behind [OF inv, of k] k
      unfolding clh_behind_def node by simp
  qed
  show "clh_open ?s x" if "cl_queue ?s \<noteq> []" "cl_pc ?s (hd (cl_queue ?s)) = ClSpin n x" for n x
    using clh_inv_hd [OF inv] that sp by (auto simp: clh_open_def split: if_splits)
  show "distinct (cl_queue ?s)" using clh_inv_distinct [OF inv] by simp
  show "clh_open ?s p" if "cl_queue ?s = []" "cl_tail ?s = Some p" for p
    using clh_inv_empty [OF inv, of p] that by (simp add: clh_open_def)
qed

lemma clh_inv_alloc:
  assumes inv: "clh_inv s" and pc: "cl_pc s t = ClAlloc"
  shows "clh_inv (s\<lparr>cl_alloc := Suc (cl_alloc s), cl_flag := (cl_flag s)(cl_alloc s := False),
      cl_pc := (cl_pc s)(t := ClSwap (cl_alloc s))\<rparr>)" (is "clh_inv ?s")
proof (rule clh_invI)
  have nq: "t \<notin> set (cl_queue s)" using pc by (simp add: clh_queued_iff [OF inv])
  have op: "clh_open s p \<Longrightarrow> clh_open ?s p" for p by (auto simp: clh_open_def)
  show "clh_nodes ?s" using clh_inv_nodes [OF inv]
    unfolding clh_nodes_def by (auto simp: less_SucI split: if_splits)
  show "u \<in> set (cl_queue ?s) \<longleftrightarrow> clh_queued (cl_pc ?s u)" for u
    using clh_queued_iff [OF inv, of u] nq by auto
  show "cl_tail ?s = clh_node (cl_pc ?s (last (cl_queue ?s)))" if "cl_queue ?s \<noteq> []"
    using clh_inv_tail [OF inv] that nq last_in_set [of "cl_queue s"] by auto
  show "clh_open ?s p" if "cl_queue ?s = []" "cl_tail ?s = Some p" for p
    using clh_inv_empty [OF inv] that op by simp
  show "clh_behind ?s (cl_queue ?s ! k) (cl_queue ?s ! Suc k)" if k: "Suc k < length (cl_queue ?s)" for k
  proof -
    have "cl_queue s ! k \<noteq> t" "cl_queue s ! Suc k \<noteq> t"
      using k nq nth_mem [of k "cl_queue s"] nth_mem [of "Suc k" "cl_queue s"] by auto
    then show ?thesis using clh_inv_behind [OF inv, of k] k by (auto simp: clh_behind_def)
  qed
  show "clh_open ?s x" if "cl_queue ?s \<noteq> []" "cl_pc ?s (hd (cl_queue ?s)) = ClSpin n x" for n x
    using clh_inv_hd [OF inv] that nq op by (auto split: if_splits)
qed (use clh_inv_distinct [OF inv] in auto)

lemma clh_inv_swap:
  assumes inv: "clh_inv s" and pc: "cl_pc s t = ClSwap n"
    and p: "p = (case cl_tail s of None \<Rightarrow> ClHeld n | Some prev \<Rightarrow> ClSpin n prev)"
  shows "clh_inv (s\<lparr>cl_tail := Some n, cl_queue := cl_queue s @ [t], cl_pc := (cl_pc s)(t := p)\<rparr>)"
    (is "clh_inv ?s")
proof (rule clh_invI)
  let ?q = "cl_queue s"
  have nq: "t \<notin> set ?q" using pc by (simp add: clh_queued_iff [OF inv])
  have np: "clh_node p = Some n" and qp: "clh_queued p" using p by (auto split: option.splits)
  have node: "clh_node (cl_pc ?s u) = clh_node (cl_pc s u)" for u using np pc by simp
  show "clh_nodes ?s" using clh_inv_nodes [OF inv] unfolding clh_nodes_def node by simp
  show "distinct (cl_queue ?s)" using clh_inv_distinct [OF inv] nq by simp
  show "u \<in> set (cl_queue ?s) \<longleftrightarrow> clh_queued (cl_pc ?s u)" for u
    using clh_queued_iff [OF inv, of u] qp by auto
  show "clh_behind ?s (cl_queue ?s ! k) (cl_queue ?s ! Suc k)" if k: "Suc k < length (cl_queue ?s)" for k
  proof (cases "Suc k < length ?q")
    case True
    then have "?q ! Suc k \<noteq> t" using nq nth_mem by metis
    then show ?thesis using clh_inv_behind [OF inv True] True
      unfolding clh_behind_def node by (simp add: nth_append)
  next
    case False
    with k have "k = length ?q - 1" and ne: "?q \<noteq> []" by auto
    then have "?q ! k = last ?q" by (simp add: last_conv_nth)
    moreover obtain m where m: "clh_node (cl_pc s (last ?q)) = Some m"
      using clh_queued_iff [OF inv, of "last ?q"] ne by (cases "cl_pc s (last ?q)") auto
    moreover have "p = ClSpin n m" using p clh_inv_tail [OF inv ne] m by simp
    ultimately show ?thesis using False k
      unfolding clh_behind_def node by (simp add: nth_append)
  qed
  show "clh_open ?s x" if "cl_pc ?s (hd (cl_queue ?s)) = ClSpin m x" for m x
  proof (cases ?q)
    case Nil
    then show ?thesis using that clh_inv_empty [OF inv] p by (auto simp: clh_open_def split: option.splits)
  next
    case (Cons h r)
    then have "h \<noteq> t" using nq by auto
    then show ?thesis using that clh_inv_hd [OF inv] Cons by (auto simp: clh_open_def)
  qed
qed (use p in \<open>auto split: option.splits\<close>)

lemma clh_inv_release:
  assumes inv: "clh_inv s" and pc: "cl_pc s t = ClStore n"
  shows "clh_inv (s\<lparr>cl_flag := (cl_flag s)(n := True), cl_queue := tl (cl_queue s),
      cl_pc := (cl_pc s)(t := ClIdle)\<rparr>)" (is "clh_inv ?s")
proof -
  obtain r where q: "cl_queue s = t # r" using clh_head_of [OF inv, of t] pc by auto
  have d: "t \<notin> set r" "distinct r" using clh_inv_distinct [OF inv] q by auto
  have mine: "clh_node (cl_pc s t) = Some n" using pc by simp
  then have n: "n < cl_alloc s" using clh_inv_nodes [OF inv] unfolding clh_nodes_def by blast
  have other: "u = t" if "clh_node (cl_pc s u) = Some n" for u
    using clh_inv_nodes [OF inv] mine that unfolding clh_nodes_def by blast
  have b: "\<exists>m. cl_pc s (hd r) = ClSpin m n" if "r \<noteq> []"
    using clh_inv_behind [OF inv, of 0] q that pc
    by (auto simp: clh_behind_def hd_conv_nth)
  show ?thesis
  proof (rule clh_invI)
    show "clh_nodes ?s" using clh_inv_nodes [OF inv] other unfolding clh_nodes_def by auto
    show "u \<in> set (cl_queue ?s) \<longleftrightarrow> clh_queued (cl_pc ?s u)" for u
      using clh_queued_iff [OF inv, of u] q d by auto
    show "cl_tail ?s = clh_node (cl_pc ?s (last (cl_queue ?s)))" if "cl_queue ?s \<noteq> []"
    proof -
      have ne: "r \<noteq> []" using that q by simp
      then have "last r \<noteq> t" using d last_in_set [of r] by auto
      then show ?thesis using clh_inv_tail [OF inv] q ne by simp
    qed
    show "clh_open ?s x" if "cl_queue ?s = []" "cl_tail ?s = Some x" for x
      using clh_inv_tail [OF inv] that q pc n by (auto simp: clh_open_def)
    show "clh_behind ?s (cl_queue ?s ! k) (cl_queue ?s ! Suc k)" if k: "Suc k < length (cl_queue ?s)" for k
    proof -
      have "r ! k \<noteq> t" "r ! Suc k \<noteq> t"
        using k q d nth_mem [of k r] nth_mem [of "Suc k" r] by auto
      then show ?thesis using clh_inv_behind [OF inv, of "Suc k"] k q by (auto simp: clh_behind_def)
    qed
    show "clh_open ?s x" if "cl_queue ?s \<noteq> []" "cl_pc ?s (hd (cl_queue ?s)) = ClSpin m x" for m x
    proof -
      have ne: "r \<noteq> []" using that q by simp
      then have "hd r \<noteq> t" using d hd_in_set [of r] by auto
      then have "x = n" using that q b [OF ne] by auto
      then show ?thesis using n by (simp add: clh_open_def)
    qed
  qed (use d q in simp_all)
qed

lemma clh_inv_step:
  assumes inv: "clh_inv s" and st: "clh_step a s = Some s'"
  shows "clh_inv s'"
proof (cases a)
  case (CallLock t)
  with st clh_inv_goto [OF inv, of ClAlloc t] show ?thesis by (auto split: if_splits)
next
  case (CallUnlock t)
  then obtain n where n: "cl_pc s t = ClHeld n" and s': "s' = s\<lparr>cl_pc := (cl_pc s)(t := ClStore n)\<rparr>"
    using st by (auto split: clh_pc.splits)
  obtain r where "cl_queue s = t # r" using clh_head_of [OF inv, of t] n by auto
  with clh_inv_goto [OF inv, of "ClStore n" t] n s' show ?thesis by simp
next
  case (Step t)
  show ?thesis
  proof (cases "cl_pc s t")
    case ClAlloc
    with Step st clh_inv_alloc [OF inv ClAlloc] show ?thesis by simp
  next
    case (ClSwap n)
    with Step st clh_inv_swap [OF inv ClSwap refl] show ?thesis by (auto split: option.splits)
  next
    case (ClSpin n p)
    show ?thesis
    proof (cases "cl_flag s p")
      case True
      then obtain r where "cl_queue s = t # r" using clh_head_of [OF inv, of t] ClSpin by auto
      with clh_inv_goto [OF inv, of "ClHeld n" t] Step st ClSpin True show ?thesis by simp
    qed (use Step st ClSpin inv in simp)
  next
    case (ClStore n)
    with Step st clh_inv_release [OF inv ClStore] show ?thesis by (simp add: clh_Unlock_def)
  qed (use Step st in simp_all)
qed

lemma clh_cs_head:
  assumes "clh_inv s" and "clh_in_cs s t"
  obtains r where "cl_queue s = t # r"
proof -
  have "clh_queued (cl_pc s t)" "\<And>n p. cl_pc s t \<noteq> ClSpin n p"
    using assms(2) by (auto simp: clh_in_cs_def)
  with clh_head_of [OF assms(1), of t] that show ?thesis by blast
qed

lemma clh_queue_step:
  assumes "clh_inv s" and "clh_step a s = Some s'"
  shows "cl_queue s' = cl_queue s \<or> (\<exists>t. cl_queue s' = cl_queue s @ [t])
    \<or> (\<exists>t. cl_queue s = t # cl_queue s' \<and> clh_in_cs s t)"
proof -
  have "\<exists>r. cl_queue s = t # r" if "cl_pc s t = ClStore n" for t n
    using clh_cs_head [OF assms(1), of t] that by (auto simp: clh_in_cs_def)
  then show ?thesis using assms(2)
    by (cases a) (fastforce simp: clh_Unlock_def clh_in_cs_def split: clh_pc.splits option.splits if_splits)+
qed

interpretation clh: fifo_lock "\<lambda>s. s = clh_zero" clh_step clh_inv clh_in_cs "\<lambda>s t. clh_queued (cl_pc s t)" cl_queue
proof unfold_locales
  show "s = clh_zero \<Longrightarrow> clh_inv s" for s
    by (rule clh_invI) (simp_all add: clh_zero_def clh_nodes_def)
  show "clh_inv s \<Longrightarrow> clh_step a s = Some s' \<Longrightarrow> clh_inv s'" for s a s' by (rule clh_inv_step)
  show "clh_inv s \<Longrightarrow> clh_in_cs s t \<Longrightarrow> cl_queue s \<noteq> [] \<and> hd (cl_queue s) = t" for s t
    using clh_cs_head [of s t] by force
qed (rule clh_queued_iff, assumption, rule clh_queue_step)

text \<open>The first of the queue is inside, or its next look at its predecessor lets it in.\<close>

lemma clh_head_enters:
  assumes inv: "clh_inv s" and q: "cl_queue s = i # r"
  shows "clh_in_cs s i \<or> (\<exists>s'. clh_step (Step i) s = Some s' \<and> clh_in_cs s' i)"
proof -
  have "clh_queued (cl_pc s i)" using clh_queued_iff [OF inv, of i] q by simp
  then show ?thesis using clh_inv_hd [OF inv] q
    by (cases "cl_pc s i") (auto simp: clh_in_cs_def clh_open_def)
qed

text \<open>\<^verbatim>\<open>CLHLock\<close> excludes, is FIFO and hands over: only the goroutine whose swap of
  \<^verbatim>\<open>tail\<close> is the earliest of all that have not released can be inside, it is inside
  already or enters with its next step, and from here on the goroutines enter in the order of their
  swaps.\<close>

theorem clh_fifo_handover:
  assumes "run clh_step as clh_zero = Some s"
  shows "(\<forall>i. clh_in_cs s i \<longrightarrow> cl_queue s \<noteq> [] \<and> hd (cl_queue s) = i)
    \<and> (\<forall>i q. cl_queue s = i # q \<longrightarrow> clh_in_cs s i
         \<or> (\<exists>s'. clh_step (Step i) s = Some s' \<and> clh_in_cs s' i))
    \<and> first_come_first_served clh_step clh_in_cs (\<lambda>s t. clh_queued (cl_pc s t)) s"
proof -
  have inv: "clh_inv s" using clh.invariant [OF refl assms] .
  show ?thesis using clh.at_head [OF inv] clh_head_enters [OF inv] clh.served_in_order [OF inv] by blast
qed

theorem clh_fifo_handover_witness:
  "\<exists>s. run clh_step [CallLock 1, CallLock 2, Step 2, Step 1, Step 1, Step 2, CallUnlock 1, Step 1]
        clh_zero = Some s
     \<and> cl_queue s = [2] \<and> (\<exists>s'. clh_step (Step 2) s = Some s' \<and> clh_in_cs s' 2)"
proof -
  let ?as = "[CallLock 1, CallLock 2, Step 2, Step 1, Step 1, Step 2, CallUnlock 1, Step 1]"
  obtain s where r: "run clh_step ?as clh_zero = Some s" and q: "cl_queue s = [2]"
    and p: "cl_pc s 2 = ClSpin 0 1"
    by (simp add: clh_zero_def clh_Unlock_def)
  have "\<not> clh_in_cs s 2" using p by (simp add: clh_in_cs_def)
  with clh_fifo_handover [OF r] q have "\<exists>s'. clh_step (Step 2) s = Some s' \<and> clh_in_cs s' 2" by blast
  with r q show ?thesis by blast
qed

end
