(* ===== verification/Lock_MCS.thy ===== *)
theory Lock_MCS
  imports Lock_Spec
begin

text \<open>
  \<^verbatim>\<open>MCSLock\<close> of \<^verbatim>\<open>syncx/lock.go\<close>. Nodes live in a heap of addresses
  \<open>0 ..< mc_alloc\<close> (the garbage collector never reuses the address of a reachable node, so
  an allocation takes a fresh one); \<open>None\<close> is the nil pointer. \<open>mc_node t\<close> is the local
  \<^verbatim>\<open>node\<close> of goroutine \<open>t\<close> in \<^verbatim>\<open>Lock\<close>. The auxiliary field \<open>mc_queue\<close> lists the
  goroutines between their swap of \<^verbatim>\<open>tail\<close> and the step that gives the lock up; no step
  reads it. A goroutine that panics stays where it is and keeps its place in the queue.
\<close>

datatype mcs_pc =
    McIdle
  | McInit            \<comment> \<open>\<open>Lock\<close>: allocate \<open>node\<close>, \<open>node.locked.Store(true)\<close>\<close>
  | McSwap            \<comment> \<open>\<open>prev := m.tail.Swap(node)\<close>\<close>
  | McLink nat        \<comment> \<open>\<open>prev.next.Store(node)\<close>\<close>
  | McSpin            \<comment> \<open>\<open>for node.locked.Load()\<close>\<close>
  | McOwn             \<comment> \<open>\<open>m.owner.Store(node)\<close>\<close>
  | McHeld
  | McUOwner          \<comment> \<open>\<open>Unlock\<close>: \<open>node := m.owner.Load()\<close>\<close>
  | McUNext nat       \<comment> \<open>\<open>next := node.next.Load()\<close>\<close>
  | McUCas nat        \<comment> \<open>\<open>m.tail.CompareAndSwap(node, nil)\<close>\<close>
  | McUWait nat       \<comment> \<open>\<open>for next == nil\<close>\<close>
  | McUNil            \<comment> \<open>after the CAS: \<open>m.owner.Store(nil); return\<close>\<close>
  | McUClear nat      \<comment> \<open>with a successor: \<open>m.owner.Store(nil)\<close>\<close>
  | McUGrant nat      \<comment> \<open>\<open>next.locked.Store(false)\<close>\<close>
  | McPanic           \<comment> \<open>\<open>panic("syncx: unlock of unlocked MCSLock")\<close>\<close>

record MCSLock =
  mc_tail :: "nat option"
  mc_owner :: "nat option"
  mc_next :: "nat \<Rightarrow> nat option"
  mc_locked :: "nat \<Rightarrow> bool"
  mc_alloc :: nat
  mc_node :: "tid \<Rightarrow> nat"
  mc_pc :: "tid \<Rightarrow> mcs_pc"
  mc_queue :: "tid list"

definition mcs_zero :: MCSLock where
  "mcs_zero = \<lparr>mc_tail = None, mc_owner = None, mc_next = (\<lambda>_. None), mc_locked = (\<lambda>_. False),
     mc_alloc = 0, mc_node = (\<lambda>_. 0), mc_pc = (\<lambda>_. McIdle), mc_queue = []\<rparr>"

definition mcs_goto :: "tid \<Rightarrow> mcs_pc \<Rightarrow> MCSLock \<Rightarrow> MCSLock" where
  "mcs_goto t p s = s\<lparr>mc_pc := (mc_pc s)(t := p)\<rparr>"

definition mcs_Lock_step :: "tid \<Rightarrow> MCSLock \<Rightarrow> MCSLock option" where
  "mcs_Lock_step t s =
     (case mc_pc s t of
        McInit \<Rightarrow>
          (let n = mc_alloc s
           in Some (mcs_goto t McSwap (s\<lparr>mc_alloc := Suc n, mc_next := (mc_next s)(n := None),
                mc_locked := (mc_locked s)(n := True), mc_node := (mc_node s)(t := n)\<rparr>)))
      | McSwap \<Rightarrow>
          (let prev = mc_tail s;
               s1 = s\<lparr>mc_tail := Some (mc_node s t), mc_queue := mc_queue s @ [t]\<rparr>
           in case prev of
                None \<Rightarrow> Some (mcs_goto t McOwn s1)
              | Some p \<Rightarrow> Some (mcs_goto t (McLink p) s1))
      | McLink prev \<Rightarrow>
          Some (mcs_goto t McSpin (s\<lparr>mc_next := (mc_next s)(prev := Some (mc_node s t))\<rparr>))
      | McSpin \<Rightarrow>
          (if mc_locked s (mc_node s t) then Some s else Some (mcs_goto t McOwn s))
      | McOwn \<Rightarrow>
          Some (mcs_goto t McHeld (s\<lparr>mc_owner := Some (mc_node s t)\<rparr>))
      | _ \<Rightarrow> None)"

definition mcs_Unlock_step :: "tid \<Rightarrow> MCSLock \<Rightarrow> MCSLock option" where
  "mcs_Unlock_step t s =
     (case mc_pc s t of
        McUOwner \<Rightarrow>
          (case mc_owner s of
             None \<Rightarrow> Some (mcs_goto t McPanic s)
           | Some node \<Rightarrow> Some (mcs_goto t (McUNext node) s))
      | McUNext node \<Rightarrow>
          (case mc_next s node of
             None \<Rightarrow> Some (mcs_goto t (McUCas node) s)
           | Some nxt \<Rightarrow> Some (mcs_goto t (McUClear nxt) s))
      | McUCas node \<Rightarrow>
          (if mc_tail s = Some node
           then Some (mcs_goto t McUNil (s\<lparr>mc_tail := None, mc_queue := tl (mc_queue s)\<rparr>))
           else Some (mcs_goto t (McUWait node) s))
      | McUWait node \<Rightarrow>
          (case mc_next s node of
             None \<Rightarrow> Some s
           | Some nxt \<Rightarrow> Some (mcs_goto t (McUClear nxt) s))
      | McUNil \<Rightarrow> Some (mcs_goto t McIdle (s\<lparr>mc_owner := None\<rparr>))
      | McUClear nxt \<Rightarrow> Some (mcs_goto t (McUGrant nxt) (s\<lparr>mc_owner := None\<rparr>))
      | McUGrant nxt \<Rightarrow>
          Some (mcs_goto t McIdle
            (s\<lparr>mc_locked := (mc_locked s)(nxt := False), mc_queue := tl (mc_queue s)\<rparr>))
      | _ \<Rightarrow> None)"

fun mcs_step :: "lock_act \<Rightarrow> MCSLock \<Rightarrow> MCSLock option" where
  "mcs_step (CallLock t) s = (if mc_pc s t = McIdle then Some (mcs_goto t McInit s) else None)"
| "mcs_step (CallUnlock t) s = (if mc_pc s t = McHeld then Some (mcs_goto t McUOwner s) else None)"
| "mcs_step (Step t) s =
     (case mcs_Lock_step t s of None \<Rightarrow> mcs_Unlock_step t s | Some s' \<Rightarrow> Some s')"

text \<open>Inside: from the return of \<^verbatim>\<open>Lock\<close> to the step of \<^verbatim>\<open>Unlock\<close> that gives the lock
  to the successor or marks it free.\<close>

fun mcs_pc_in :: "mcs_pc \<Rightarrow> bool" where
  "mcs_pc_in McHeld = True"
| "mcs_pc_in McUOwner = True"
| "mcs_pc_in (McUNext n) = True"
| "mcs_pc_in (McUCas n) = True"
| "mcs_pc_in (McUWait n) = True"
| "mcs_pc_in (McUClear n) = True"
| "mcs_pc_in (McUGrant n) = True"
| "mcs_pc_in p = False"

definition mcs_in_cs :: "MCSLock \<Rightarrow> tid \<Rightarrow> bool" where
  "mcs_in_cs s t \<longleftrightarrow> mcs_pc_in (mc_pc s t)"

fun mcs_pc_queued :: "mcs_pc \<Rightarrow> bool" where
  "mcs_pc_queued (McLink p) = True"
| "mcs_pc_queued McSpin = True"
| "mcs_pc_queued McOwn = True"
| "mcs_pc_queued McPanic = True"
| "mcs_pc_queued p = mcs_pc_in p"

definition mcs_has_node :: "MCSLock \<Rightarrow> tid \<Rightarrow> bool" where
  "mcs_has_node s t \<longleftrightarrow> mc_pc s t = McSwap \<or> mcs_pc_queued (mc_pc s t)"

text \<open>What the first of the queue knows.\<close>

definition mcs_head_ok :: "MCSLock \<Rightarrow> tid \<Rightarrow> bool" where
  "mcs_head_ok s h =
     (case mc_pc s h of
        McSpin \<Rightarrow> \<not> mc_locked s (mc_node s h)
      | McOwn \<Rightarrow> True
      | McHeld \<Rightarrow> mc_owner s = None \<or> mc_owner s = Some (mc_node s h)
      | McUOwner \<Rightarrow> mc_owner s = None \<or> mc_owner s = Some (mc_node s h)
      | McUNext n \<Rightarrow> n = mc_node s h
      | McUCas n \<Rightarrow> n = mc_node s h
      | McUWait n \<Rightarrow> n = mc_node s h
      | McUClear x \<Rightarrow> mc_next s (mc_node s h) = Some x
      | McUGrant x \<Rightarrow> mc_next s (mc_node s h) = Some x
      | McPanic \<Rightarrow> True
      | _ \<Rightarrow> False)"

text \<open>A waiter either spins on its locked node, to which its predecessor points, or is about
  to make its predecessor point to it.\<close>

definition mcs_linked :: "MCSLock \<Rightarrow> tid \<Rightarrow> tid \<Rightarrow> bool" where
  "mcs_linked s a b \<longleftrightarrow> mc_locked s (mc_node s b)
     \<and> (mc_pc s b = McSpin \<and> mc_next s (mc_node s a) = Some (mc_node s b)
        \<or> mc_pc s b = McLink (mc_node s a) \<and> mc_next s (mc_node s a) = None)"

definition mcs_nodes :: "MCSLock \<Rightarrow> bool" where
  "mcs_nodes s \<longleftrightarrow>
     (\<forall>t. mcs_has_node s t \<longrightarrow> mc_node s t < mc_alloc s)
     \<and> (\<forall>t u. mcs_has_node s t \<longrightarrow> mcs_has_node s u \<longrightarrow> mc_node s t = mc_node s u \<longrightarrow> t = u)
     \<and> (\<forall>t. mc_pc s t = McSwap \<longrightarrow> mc_next s (mc_node s t) = None \<and> mc_locked s (mc_node s t))"

definition mcs_inv :: "MCSLock \<Rightarrow> bool" where
  "mcs_inv s \<longleftrightarrow> mcs_nodes s
     \<and> distinct (mc_queue s) \<and> (\<forall>t. t \<in> set (mc_queue s) \<longleftrightarrow> mcs_pc_queued (mc_pc s t))
     \<and> mc_tail s = (if mc_queue s = [] then None else Some (mc_node s (last (mc_queue s))))
     \<and> (\<forall>k. Suc k < length (mc_queue s) \<longrightarrow>
          mcs_linked s (mc_queue s ! k) (mc_queue s ! Suc k))
     \<and> (mc_queue s \<noteq> [] \<longrightarrow> mc_next s (mc_node s (last (mc_queue s))) = None
          \<and> mcs_head_ok s (hd (mc_queue s)))"

lemma mcs_goto_simps [simp]:
  "mc_tail (mcs_goto t p s) = mc_tail s" "mc_owner (mcs_goto t p s) = mc_owner s"
  "mc_next (mcs_goto t p s) = mc_next s" "mc_locked (mcs_goto t p s) = mc_locked s"
  "mc_alloc (mcs_goto t p s) = mc_alloc s" "mc_node (mcs_goto t p s) = mc_node s"
  "mc_queue (mcs_goto t p s) = mc_queue s" "mc_pc (mcs_goto t p s) = (mc_pc s)(t := p)"
  by (simp_all add: mcs_goto_def)

lemma mcs_invI:
  assumes "mcs_nodes s" and "distinct (mc_queue s)"
    and "\<And>t. t \<in> set (mc_queue s) \<longleftrightarrow> mcs_pc_queued (mc_pc s t)"
    and "mc_tail s = (if mc_queue s = [] then None else Some (mc_node s (last (mc_queue s))))"
    and "\<And>k. Suc k < length (mc_queue s) \<Longrightarrow> mcs_linked s (mc_queue s ! k) (mc_queue s ! Suc k)"
    and "mc_queue s \<noteq> [] \<Longrightarrow> mc_next s (mc_node s (last (mc_queue s))) = None"
    and "mc_queue s \<noteq> [] \<Longrightarrow> mcs_head_ok s (hd (mc_queue s))"
  shows "mcs_inv s"
  using assms by (auto simp: mcs_inv_def)

lemma mcs_inv_parts:
  assumes "mcs_inv s"
  shows mcs_inv_nodes: "mcs_nodes s"
    and mcs_inv_distinct: "distinct (mc_queue s)"
    and mcs_queued_iff: "t \<in> set (mc_queue s) \<longleftrightarrow> mcs_pc_queued (mc_pc s t)"
    and mcs_inv_tail: "mc_tail s = (if mc_queue s = [] then None else Some (mc_node s (last (mc_queue s))))"
    and mcs_inv_linked: "Suc k < length (mc_queue s) \<Longrightarrow>
      mcs_linked s (mc_queue s ! k) (mc_queue s ! Suc k)"
    and mcs_inv_last: "mc_queue s \<noteq> [] \<Longrightarrow> mc_next s (mc_node s (last (mc_queue s))) = None"
    and mcs_inv_hd: "mc_queue s \<noteq> [] \<Longrightarrow> mcs_head_ok s (hd (mc_queue s))"
  using assms unfolding mcs_inv_def by blast+

lemma mcs_in_queued: "mcs_pc_in p \<Longrightarrow> mcs_pc_queued p"
  by (cases p) auto

lemma mcs_has_queued: "mcs_inv s \<Longrightarrow> t \<in> set (mc_queue s) \<Longrightarrow> mcs_has_node s t"
  by (simp add: mcs_has_node_def mcs_queued_iff)

lemma mcs_not_head:
  assumes inv: "mcs_inv s" and q: "t \<in> set (mc_queue s)" and nh: "t \<noteq> hd (mc_queue s)"
  shows "mc_locked s (mc_node s t) \<and> (mc_pc s t = McSpin \<or> (\<exists>p. mc_pc s t = McLink p))"
proof -
  obtain k where k: "k < length (mc_queue s)" and t: "mc_queue s ! k = t"
    using q by (auto simp: in_set_conv_nth)
  with nh have "k \<noteq> 0" by (metis hd_conv_nth list.size(3) not_less_zero)
  then obtain j where "k = Suc j" by (cases k) auto
  with mcs_inv_linked [OF inv, of j] k t show ?thesis by (auto simp: mcs_linked_def)
qed

lemma mcs_head_of:
  assumes inv: "mcs_inv s" and qd: "mcs_pc_queued (mc_pc s t)"
    and "mc_pc s t = McSpin \<longrightarrow> \<not> mc_locked s (mc_node s t)" and "\<And>p. mc_pc s t \<noteq> McLink p"
  obtains r where "mc_queue s = t # r"
proof -
  have "t \<in> set (mc_queue s)" using qd by (simp add: mcs_queued_iff [OF inv])
  moreover from mcs_not_head [OF inv this] assms(3,4) have "t = hd (mc_queue s)" by auto
  ultimately show ?thesis using that by (cases "mc_queue s") auto
qed

lemma mcs_node_eq:
  "mcs_nodes s \<Longrightarrow> mcs_has_node s t \<Longrightarrow> mcs_has_node s u \<Longrightarrow> mc_node s t = mc_node s u \<longleftrightarrow> t = u"
  by (auto simp: mcs_nodes_def)

text \<open>What a step outside the queue must leave alone.\<close>

lemma mcs_inv_cong:
  assumes inv: "mcs_inv s" and nodes: "mcs_nodes s'"
    and q: "mc_queue s' = mc_queue s" and tl: "mc_tail s' = mc_tail s"
    and ow: "mc_owner s' = mc_owner s \<or> mc_owner s' = None"
    and same: "\<And>u. u \<in> set (mc_queue s) \<Longrightarrow> mc_pc s' u = mc_pc s u \<and> mc_node s' u = mc_node s u
      \<and> mc_next s' (mc_node s u) = mc_next s (mc_node s u)
      \<and> mc_locked s' (mc_node s u) = mc_locked s (mc_node s u)"
    and out: "\<And>u. u \<notin> set (mc_queue s) \<Longrightarrow> \<not> mcs_pc_queued (mc_pc s' u)"
  shows "mcs_inv s'"
proof (rule mcs_invI)
  show "t \<in> set (mc_queue s') \<longleftrightarrow> mcs_pc_queued (mc_pc s' t)" for t
    using same [of t] out [of t] mcs_queued_iff [OF inv, of t] q by auto
  show "mc_tail s' = (if mc_queue s' = [] then None else Some (mc_node s' (last (mc_queue s'))))"
    using mcs_inv_tail [OF inv] same [of "last (mc_queue s)"] q tl by auto
  show "mcs_linked s' (mc_queue s' ! k) (mc_queue s' ! Suc k)" if k: "Suc k < length (mc_queue s')" for k
  proof -
    have "mc_queue s ! k \<in> set (mc_queue s)" "mc_queue s ! Suc k \<in> set (mc_queue s)"
      using k q by auto
    then show ?thesis using same mcs_inv_linked [OF inv, of k] k q by (auto simp: mcs_linked_def)
  qed
  show "mc_next s' (mc_node s' (last (mc_queue s'))) = None" if "mc_queue s' \<noteq> []"
    using that mcs_inv_last [OF inv] same [of "last (mc_queue s)"] q by auto
  show "mcs_head_ok s' (hd (mc_queue s'))" if "mc_queue s' \<noteq> []"
    using that mcs_inv_hd [OF inv] same [of "hd (mc_queue s)"] q ow
    by (auto simp: mcs_head_ok_def split: mcs_pc.splits)
qed (use assms mcs_inv_distinct in auto)

lemma mcs_inv_outside:
  assumes inv: "mcs_inv s" and out: "\<not> mcs_has_node s t" and p: "p = McIdle \<or> p = McInit"
    and ow: "ow = mc_owner s \<or> ow = None"
  shows "mcs_inv (mcs_goto t p (s\<lparr>mc_owner := ow\<rparr>))"
proof (rule mcs_inv_cong [OF inv])
  let ?s = "mcs_goto t p (s\<lparr>mc_owner := ow\<rparr>)"
  have has: "mcs_has_node ?s u = mcs_has_node s u" for u
    using out p by (auto simp: mcs_has_node_def)
  show "mcs_nodes ?s"
    using mcs_inv_nodes [OF inv] p unfolding mcs_nodes_def has by auto
  have "t \<notin> set (mc_queue s)" using out mcs_has_queued [OF inv] by blast
  then show "mc_pc ?s u = mc_pc s u \<and> mc_node ?s u = mc_node s u
      \<and> mc_next ?s (mc_node s u) = mc_next s (mc_node s u)
      \<and> mc_locked ?s (mc_node s u) = mc_locked s (mc_node s u)" if "u \<in> set (mc_queue s)" for u
    using that by auto
  show "\<not> mcs_pc_queued (mc_pc ?s u)" if "u \<notin> set (mc_queue s)" for u
    using that p mcs_queued_iff [OF inv, of u] by auto
qed (use ow in auto)

lemma mcs_inv_alloc:
  assumes inv: "mcs_inv s" and pc: "mc_pc s t = McInit" and n: "n = mc_alloc s"
  shows "mcs_inv (mcs_goto t McSwap (s\<lparr>mc_alloc := Suc n, mc_next := (mc_next s)(n := None),
      mc_locked := (mc_locked s)(n := True), mc_node := (mc_node s)(t := n)\<rparr>))"
    (is "mcs_inv ?s")
proof (rule mcs_inv_cong [OF inv])
  have nq: "t \<notin> set (mc_queue s)" using pc by (simp add: mcs_queued_iff [OF inv])
  have fresh: "mc_node s u \<noteq> n" if "mcs_has_node s u" for u
    using mcs_inv_nodes [OF inv] that n by (auto simp: mcs_nodes_def)
  have has: "mcs_has_node ?s u \<longleftrightarrow> u = t \<or> mcs_has_node s u" for u
    by (auto simp: mcs_has_node_def)
  show "mcs_nodes ?s"
    unfolding mcs_nodes_def has
    using mcs_inv_nodes [OF inv] fresh n unfolding mcs_nodes_def
    by (auto simp: less_SucI mcs_has_node_def)
  show "mc_pc ?s u = mc_pc s u \<and> mc_node ?s u = mc_node s u
      \<and> mc_next ?s (mc_node s u) = mc_next s (mc_node s u)
      \<and> mc_locked ?s (mc_node s u) = mc_locked s (mc_node s u)" if "u \<in> set (mc_queue s)" for u
    using that nq fresh [OF mcs_has_queued [OF inv that]] by auto
  show "\<not> mcs_pc_queued (mc_pc ?s u)" if "u \<notin> set (mc_queue s)" for u
    using that mcs_queued_iff [OF inv, of u] by auto
qed auto

text \<open>A step of the first of the queue that touches nothing but \<open>owner\<close>.\<close>

lemma mcs_inv_head:
  assumes inv: "mcs_inv s" and q: "mc_queue s = t # r" and p: "mcs_pc_queued p"
    and ok: "mcs_head_ok (mcs_goto t p (s\<lparr>mc_owner := ow\<rparr>)) t"
  shows "mcs_inv (mcs_goto t p (s\<lparr>mc_owner := ow\<rparr>))"
proof (rule mcs_invI)
  let ?s = "mcs_goto t p (s\<lparr>mc_owner := ow\<rparr>)"
  have tq: "mcs_pc_queued (mc_pc s t)" using q mcs_queued_iff [OF inv, of t] by simp
  then have nsw: "mc_pc s t \<noteq> McSwap" and psw: "p \<noteq> McSwap" using p by auto
  have has: "mcs_has_node ?s u = mcs_has_node s u" for u
    using tq p by (auto simp: mcs_has_node_def)
  show "mcs_nodes ?s"
    using mcs_inv_nodes [OF inv] psw unfolding mcs_nodes_def has by auto
  show "u \<in> set (mc_queue ?s) \<longleftrightarrow> mcs_pc_queued (mc_pc ?s u)" for u
    using mcs_queued_iff [OF inv, of u] tq p by auto
  show "mcs_linked ?s (mc_queue ?s ! k) (mc_queue ?s ! Suc k)" if k: "Suc k < length (mc_queue ?s)" for k
  proof -
    have "mc_queue s ! Suc k \<noteq> t" using k q mcs_inv_distinct [OF inv] by (auto simp: in_set_conv_nth)
    then show ?thesis using mcs_inv_linked [OF inv, of k] k by (auto simp: mcs_linked_def)
  qed
  show "mcs_head_ok ?s (hd (mc_queue ?s))" using ok q by simp
qed (use mcs_inv_distinct [OF inv] mcs_inv_tail [OF inv] mcs_inv_last [OF inv] in auto)

text \<open>The swap of \<^verbatim>\<open>tail\<close> appends to the queue.\<close>

lemma mcs_inv_swap:
  assumes inv: "mcs_inv s" and pc: "mc_pc s t = McSwap"
    and p: "p = (case mc_tail s of None \<Rightarrow> McOwn | Some x \<Rightarrow> McLink x)"
  shows "mcs_inv (mcs_goto t p (s\<lparr>mc_tail := Some (mc_node s t), mc_queue := mc_queue s @ [t]\<rparr>))"
    (is "mcs_inv ?s")
proof (rule mcs_invI)
  have nq: "t \<notin> set (mc_queue s)" using pc by (simp add: mcs_queued_iff [OF inv])
  have pq: "mcs_pc_queued p" and psw: "p \<noteq> McSwap" using p by (auto split: option.splits)
  have mine: "mc_next s (mc_node s t) = None" "mc_locked s (mc_node s t)"
    using mcs_inv_nodes [OF inv] pc by (auto simp: mcs_nodes_def)
  have has: "mcs_has_node ?s u = mcs_has_node s u" for u
    using pc pq by (auto simp: mcs_has_node_def)
  show "mcs_nodes ?s"
    using mcs_inv_nodes [OF inv] psw unfolding mcs_nodes_def has by auto
  show "distinct (mc_queue ?s)" using mcs_inv_distinct [OF inv] nq by simp
  show "u \<in> set (mc_queue ?s) \<longleftrightarrow> mcs_pc_queued (mc_pc ?s u)" for u
    using mcs_queued_iff [OF inv, of u] pq by auto
  show "mcs_linked ?s (mc_queue ?s ! k) (mc_queue ?s ! Suc k)" if k: "Suc k < length (mc_queue ?s)" for k
  proof (cases "Suc k < length (mc_queue s)")
    case True
    then have "mc_queue s ! Suc k \<noteq> t" using nq nth_mem by metis
    then show ?thesis using mcs_inv_linked [OF inv True] True
      by (auto simp: mcs_linked_def nth_append)
  next
    case False
    with k have "k = length (mc_queue s) - 1" and ne: "mc_queue s \<noteq> []" by auto
    then have "mc_queue s ! k = last (mc_queue s)" by (simp add: last_conv_nth)
    moreover have "p = McLink (mc_node s (last (mc_queue s)))"
      using p mcs_inv_tail [OF inv] ne by simp
    ultimately show ?thesis using False k mine(2) mcs_inv_last [OF inv ne]
      by (auto simp: mcs_linked_def nth_append)
  qed
  show "mcs_head_ok ?s (hd (mc_queue ?s))"
  proof (cases "mc_queue s")
    case Nil
    then have "p = McOwn" using p mcs_inv_tail [OF inv] by simp
    with Nil show ?thesis by (simp add: mcs_head_ok_def)
  next
    case (Cons h r)
    then have "h \<noteq> t" using nq by auto
    then show ?thesis using mcs_inv_hd [OF inv] Cons
      by (simp add: mcs_head_ok_def split: mcs_pc.splits)
  qed
qed (use mcs_inv_nodes [OF inv] pc in \<open>auto simp: mcs_nodes_def\<close>)

text \<open>A waiter publishes itself in its predecessor's node.\<close>

text \<open>Where a goroutine stands that is about to make its predecessor point to it.\<close>

lemma mcs_link_place:
  assumes inv: "mcs_inv s" and pc: "mc_pc s t = McLink p"
  obtains j where "Suc j < length (mc_queue s)" "mc_queue s ! Suc j = t" "p = mc_node s (mc_queue s ! j)"
    "mc_locked s (mc_node s t)" "mc_next s p = None"
proof -
  have "t \<in> set (mc_queue s)" using pc by (simp add: mcs_queued_iff [OF inv])
  then obtain i where i: "i < length (mc_queue s)" and ti: "mc_queue s ! i = t" by (auto simp: in_set_conv_nth)
  have "i \<noteq> 0"
  proof
    assume "i = 0"
    then have "hd (mc_queue s) = t" "mc_queue s \<noteq> []" using i ti by (auto simp: hd_conv_nth)
    then show False using mcs_inv_hd [OF inv] pc by (simp add: mcs_head_ok_def)
  qed
  then obtain j where j: "i = Suc j" by (cases i) auto
  have "mcs_linked s (mc_queue s ! j) t" using mcs_inv_linked [OF inv, of j] i ti j by simp
  then show ?thesis using that [of j] i ti j pc by (auto simp: mcs_linked_def)
qed

lemma mcs_inv_link:
  assumes inv: "mcs_inv s" and pc: "mc_pc s t = McLink p"
  shows "mcs_inv (mcs_goto t McSpin (s\<lparr>mc_next := (mc_next s)(p := Some (mc_node s t))\<rparr>))"
    (is "mcs_inv ?s")
proof -
  let ?q = "mc_queue s"
  obtain j where j: "Suc j < length ?q" "?q ! Suc j = t" and p: "p = mc_node s (?q ! j)"
    and lt: "mc_locked s (mc_node s t)" and np: "mc_next s p = None" using mcs_link_place [OF inv pc] .
  have aq: "?q ! j \<in> set ?q" using j by simp
  have node_p: "mc_node s u = p \<longleftrightarrow> u = ?q ! j" if "mcs_has_node s u" for u
    using mcs_node_eq [OF mcs_inv_nodes [OF inv] that mcs_has_queued [OF inv aq]] p by auto
  have idx: "?q ! k = ?q ! j \<longleftrightarrow> k = j" "?q ! k = t \<longleftrightarrow> k = Suc j" if "k < length ?q" for k
    using nth_eq_iff_index_eq [OF mcs_inv_distinct [OF inv] that] j by auto
  have has: "mcs_has_node ?s u = mcs_has_node s u" for u
    using pc by (auto simp: mcs_has_node_def)
  show ?thesis
  proof (rule mcs_invI)
    have "mc_node s u \<noteq> p" if "mc_pc s u = McSwap" for u
      using that node_p [of u] aq mcs_queued_iff [OF inv, of "?q ! j"] by (auto simp: mcs_has_node_def)
    then show "mcs_nodes ?s"
      using mcs_inv_nodes [OF inv] unfolding mcs_nodes_def has by auto
    show "u \<in> set (mc_queue ?s) \<longleftrightarrow> mcs_pc_queued (mc_pc ?s u)" for u
      using mcs_queued_iff [OF inv, of u] pc by auto
    show "mcs_linked ?s (mc_queue ?s ! k) (mc_queue ?s ! Suc k)" if k: "Suc k < length (mc_queue ?s)" for k
    proof (cases "k = j")
      case True
      with lt j p show ?thesis by (simp add: mcs_linked_def)
    next
      case False
      have "mcs_has_node s (?q ! k)" using k by (intro mcs_has_queued [OF inv]) simp
      then have "mc_node s (?q ! k) \<noteq> p" using node_p idx(1) [of k] False k by simp
      moreover have "?q ! Suc k \<noteq> t" using idx(2) [of "Suc k"] False k by simp
      ultimately show ?thesis using mcs_inv_linked [OF inv, of k] k by (auto simp: mcs_linked_def)
    qed
    show "mc_next ?s (mc_node ?s (last (mc_queue ?s))) = None" if ne: "mc_queue ?s \<noteq> []"
    proof -
      have "last ?q = ?q ! (length ?q - 1)" using ne by (simp add: last_conv_nth)
      moreover have "length ?q - 1 \<noteq> j" using j by auto
      ultimately have "last ?q \<noteq> ?q ! j" using idx(1) [of "length ?q - 1"] ne by simp
      moreover have "mcs_has_node s (last ?q)" using ne by (intro mcs_has_queued [OF inv]) simp
      ultimately show ?thesis using node_p mcs_inv_last [OF inv] ne by simp
    qed
    show "mcs_head_ok ?s (hd (mc_queue ?s))" if ne: "mc_queue ?s \<noteq> []"
    proof -
      have ht: "hd ?q \<noteq> t" using idx(2) [of 0] ne by (simp add: hd_conv_nth)
      have "mc_node s (hd ?q) = p \<Longrightarrow> mc_next s (mc_node s (hd ?q)) = None" using np by simp
      then show ?thesis using mcs_inv_hd [OF inv] ne ht
        by (auto simp: mcs_head_ok_def split: mcs_pc.splits)
    qed
  qed (use mcs_inv_distinct [OF inv] mcs_inv_tail [OF inv] in auto)
qed

text \<open>The two ways to leave the queue.\<close>

lemma mcs_inv_free:
  assumes inv: "mcs_inv s" and pc: "mc_pc s t = McUCas n" and tl: "mc_tail s = Some n"
  shows "mcs_inv (mcs_goto t McUNil (s\<lparr>mc_tail := None, mc_queue := tl (mc_queue s)\<rparr>))"
    (is "mcs_inv ?s")
proof -
  obtain r where q: "mc_queue s = t # r" using mcs_head_of [OF inv, of t] pc by auto
  have "n = mc_node s t" using mcs_inv_hd [OF inv] q pc by (simp add: mcs_head_ok_def)
  then have "mc_node s (last (mc_queue s)) = mc_node s t"
    using tl mcs_inv_tail [OF inv] q by simp
  then have "last (mc_queue s) = t"
    using mcs_node_eq [OF mcs_inv_nodes [OF inv], of "last (mc_queue s)" t] q
      mcs_has_queued [OF inv] last_in_set [of "mc_queue s"] by auto
  then have r: "r = []" using q mcs_inv_distinct [OF inv] by (cases r) (auto split: if_splits)
  have has: "mcs_has_node ?s u \<longleftrightarrow> u \<noteq> t \<and> mcs_has_node s u" for u
    by (auto simp: mcs_has_node_def)
  show ?thesis
  proof (rule mcs_invI)
    show "mcs_nodes ?s" using mcs_inv_nodes [OF inv] unfolding mcs_nodes_def has by auto
    show "u \<in> set (mc_queue ?s) \<longleftrightarrow> mcs_pc_queued (mc_pc ?s u)" for u
      using mcs_queued_iff [OF inv, of u] q r by auto
  qed (simp_all add: q r)
qed

lemma mcs_inv_grant:
  assumes inv: "mcs_inv s" and pc: "mc_pc s t = McUGrant x"
  shows "mcs_inv (mcs_goto t McIdle
     (s\<lparr>mc_locked := (mc_locked s)(x := False), mc_queue := tl (mc_queue s)\<rparr>))" (is "mcs_inv ?s")
proof -
  obtain r where q: "mc_queue s = t # r" using mcs_head_of [OF inv, of t] pc by auto
  have nx: "mc_next s (mc_node s t) = Some x"
    using mcs_inv_hd [OF inv] q pc by (simp add: mcs_head_ok_def)
  then have "r \<noteq> []" using mcs_inv_last [OF inv] q by auto
  then obtain b r' where r: "r = b # r'" by (cases r) auto
  have lb: "mcs_linked s t b" using mcs_inv_linked [OF inv, of 0] q r by simp
  then have b: "mc_pc s b = McSpin" and x: "x = mc_node s b" using nx by (auto simp: mcs_linked_def)
  have d: "t \<notin> set r" "distinct r" using mcs_inv_distinct [OF inv] q by auto
  have has: "mcs_has_node ?s u \<longleftrightarrow> u \<noteq> t \<and> mcs_has_node s u" for u
    by (auto simp: mcs_has_node_def)
  have bq: "mcs_has_node s b" using q r by (intro mcs_has_queued [OF inv]) simp
  have node_x: "mc_node s u = x \<longleftrightarrow> u = b" if "mcs_has_node s u" for u
    using mcs_node_eq [OF mcs_inv_nodes [OF inv] that bq] x by simp
  show ?thesis
  proof (rule mcs_invI)
    have "mc_node s u \<noteq> x" if "mc_pc s u = McSwap" for u
      using that node_x [of u] b by (auto simp: mcs_has_node_def)
    then show "mcs_nodes ?s" using mcs_inv_nodes [OF inv] unfolding mcs_nodes_def has by auto
    show "u \<in> set (mc_queue ?s) \<longleftrightarrow> mcs_pc_queued (mc_pc ?s u)" for u
      using mcs_queued_iff [OF inv, of u] q d by auto
    show "mcs_linked ?s (mc_queue ?s ! k) (mc_queue ?s ! Suc k)" if k: "Suc k < length (mc_queue ?s)" for k
    proof -
      have in1: "r ! Suc k \<in> set r" using k q by simp
      have "r ! Suc k \<noteq> b" using k q r d by (auto simp: nth_Cons split: nat.splits)
      moreover have "mcs_has_node s (r ! Suc k)" using in1 q by (intro mcs_has_queued [OF inv]) simp
      ultimately have "mc_node s (r ! Suc k) \<noteq> x" using node_x by simp
      moreover have "r ! Suc k \<noteq> t" using in1 d by auto
      ultimately show ?thesis using mcs_inv_linked [OF inv, of "Suc k"] k q
        by (auto simp: mcs_linked_def)
    qed
    show "mcs_head_ok ?s (hd (mc_queue ?s))"
      using q r b x d by (simp add: mcs_head_ok_def)
  qed (use d mcs_inv_tail [OF inv] mcs_inv_last [OF inv] q r in auto)
qed

lemma mcs_inv_Lock_step:
  assumes inv: "mcs_inv s" and st: "mcs_Lock_step t s = Some s'"
  shows "mcs_inv s'"
proof (cases "mc_pc s t")
  case McInit
  with st mcs_inv_alloc [OF inv McInit refl] show ?thesis
    by (simp add: mcs_Lock_step_def Let_def)
next
  case McSwap
  with st mcs_inv_swap [OF inv McSwap refl] show ?thesis
    by (auto simp: mcs_Lock_step_def Let_def split: option.splits)
next
  case (McLink p)
  with st mcs_inv_link [OF inv McLink] show ?thesis by (simp add: mcs_Lock_step_def)
next
  case McSpin
  show ?thesis
  proof (cases "mc_locked s (mc_node s t)")
    case False
    then obtain r where "mc_queue s = t # r" using mcs_head_of [OF inv, of t] McSpin by auto
    from mcs_inv_head [OF inv this, of McOwn "mc_owner s"] st McSpin False show ?thesis
      by (simp add: mcs_Lock_step_def mcs_head_ok_def)
  qed (use st inv McSpin in \<open>simp add: mcs_Lock_step_def\<close>)
next
  case McOwn
  then obtain r where "mc_queue s = t # r" using mcs_head_of [OF inv, of t] by auto
  from mcs_inv_head [OF inv this, of McHeld "Some (mc_node s t)"] st McOwn show ?thesis
    by (simp add: mcs_Lock_step_def mcs_head_ok_def)
qed (use st in \<open>simp_all add: mcs_Lock_step_def\<close>)

lemma mcs_inv_Unlock_step:
  assumes inv: "mcs_inv s" and st: "mcs_Unlock_step t s = Some s'"
  shows "mcs_inv s'"
proof (cases "mcs_pc_in (mc_pc s t)")
  case False
  then have pc: "mc_pc s t = McUNil" using st
    by (cases "mc_pc s t") (simp_all add: mcs_Unlock_step_def)
  from mcs_inv_outside [OF inv, of t McIdle None] pc st show ?thesis
    by (simp add: mcs_Unlock_step_def mcs_has_node_def)
next
  case True
  then obtain r where q: "mc_queue s = t # r"
    using mcs_head_of [OF inv, of t] mcs_in_queued [OF True] by (cases "mc_pc s t") auto
  note ok = mcs_inv_hd [OF inv, unfolded q, simplified]
  note head = mcs_inv_head [OF inv q]
  show ?thesis
  proof (cases "mc_pc s t")
    case McUOwner
    with st ok head [of McPanic "mc_owner s"] head [of "McUNext (mc_node s t)" "mc_owner s"]
    show ?thesis
      by (auto simp: mcs_Unlock_step_def mcs_head_ok_def split: option.splits)
  next
    case (McUNext n)
    with st ok head [of "McUCas n" "mc_owner s"] head [of "McUClear (the (mc_next s n))" "mc_owner s"]
    show ?thesis by (auto simp: mcs_Unlock_step_def mcs_head_ok_def split: option.splits)
  next
    case (McUCas n)
    with st ok head [of "McUWait n" "mc_owner s"] mcs_inv_free [OF inv McUCas] show ?thesis
      by (auto simp: mcs_Unlock_step_def mcs_head_ok_def split: if_splits)
  next
    case (McUWait n)
    with st inv ok head [of "McUClear (the (mc_next s n))" "mc_owner s"]
    show ?thesis by (auto simp: mcs_Unlock_step_def mcs_head_ok_def split: option.splits)
  next
    case (McUClear x)
    with st ok head [of "McUGrant x" None]
    show ?thesis by (auto simp: mcs_Unlock_step_def mcs_head_ok_def)
  next
    case (McUGrant x)
    with st mcs_inv_grant [OF inv McUGrant] show ?thesis by (simp add: mcs_Unlock_step_def)
  qed (use True st in \<open>simp_all add: mcs_Unlock_step_def\<close>)
qed

lemma mcs_inv_step:
  assumes inv: "mcs_inv s" and st: "mcs_step a s = Some s'"
  shows "mcs_inv s'"
proof (cases a)
  case (CallLock t)
  with st mcs_inv_outside [OF inv, of t McInit "mc_owner s"] show ?thesis
    by (auto simp: mcs_has_node_def split: if_splits)
next
  case (CallUnlock t)
  with st have pc: "mc_pc s t = McHeld" and s': "s' = mcs_goto t McUOwner s"
    by (auto split: if_splits)
  then obtain r where q: "mc_queue s = t # r" using mcs_head_of [OF inv, of t] by auto
  from mcs_inv_head [OF inv q, of McUOwner "mc_owner s"] mcs_inv_hd [OF inv] pc q s'
  show ?thesis by (simp add: mcs_head_ok_def)
next
  case (Step t)
  with st show ?thesis using mcs_inv_Lock_step [OF inv] mcs_inv_Unlock_step [OF inv]
    by (auto split: option.splits)
qed

lemma mcs_inv_zero: "mcs_inv mcs_zero"
  by (rule mcs_invI) (simp_all add: mcs_zero_def mcs_nodes_def mcs_has_node_def)

lemma mcs_cs_head:
  assumes "mcs_inv s" and "mcs_in_cs s t"
  obtains r where "mc_queue s = t # r"
proof -
  have "mcs_pc_queued (mc_pc s t)" and "mc_pc s t \<noteq> McSpin" and "\<And>p. mc_pc s t \<noteq> McLink p"
    using assms(2) mcs_in_queued by (auto simp: mcs_in_cs_def)
  with mcs_head_of [OF assms(1), of t] that show ?thesis by blast
qed

lemma mcs_queue_step:
  assumes "mcs_inv s" and "mcs_step a s = Some s'"
  shows "mc_queue s' = mc_queue s \<or> (\<exists>t. mc_queue s' = mc_queue s @ [t])
    \<or> (\<exists>t. mc_queue s = t # mc_queue s' \<and> mcs_in_cs s t)"
proof -
  have front: "mc_queue s = t # tl (mc_queue s) \<and> mcs_in_cs s t" if "mcs_pc_in (mc_pc s t)" for t
    using mcs_cs_head [OF assms(1), of t] that by (metis list.sel(3) mcs_in_cs_def)
  show ?thesis
  proof (cases a)
    case (Step t)
    then show ?thesis using assms(2) front [of t]
      by (cases "mc_pc s t") (auto simp: mcs_Lock_step_def mcs_Unlock_step_def mcs_goto_def Let_def
          split: option.splits if_splits)
  qed (use assms(2) in \<open>auto simp: mcs_goto_def split: if_splits\<close>)
qed

interpretation mcs: fifo_lock "\<lambda>s. s = mcs_zero" mcs_step mcs_inv mcs_in_cs "\<lambda>s t. mcs_pc_queued (mc_pc s t)" mc_queue
proof unfold_locales
  show "s = mcs_zero \<Longrightarrow> mcs_inv s" for s by (simp add: mcs_inv_zero)
  show "mcs_inv s \<Longrightarrow> mcs_step a s = Some s' \<Longrightarrow> mcs_inv s'" for s a s' by (rule mcs_inv_step)
  show "mcs_inv s \<Longrightarrow> mcs_in_cs s t \<Longrightarrow> mc_queue s \<noteq> [] \<and> hd (mc_queue s) = t" for s t
    using mcs_cs_head [of s t] by force
qed (rule mcs_queued_iff, assumption, rule mcs_queue_step)

text \<open>The first of the queue is inside, or enters within two of its own steps, or has panicked.\<close>

lemma mcs_head_enters:
  assumes inv: "mcs_inv s" and q: "mc_queue s = i # r"
  shows "mcs_in_cs s i \<or> mc_pc s i = McPanic
    \<or> (\<exists>n \<in> {1, 2}. \<exists>s'. run mcs_step (replicate n (Step i)) s = Some s' \<and> mcs_in_cs s' i)"
  using mcs_inv_hd [OF inv] q
  by (cases "mc_pc s i") (auto simp: mcs_head_ok_def mcs_in_cs_def mcs_Lock_step_def numeral_2_eq_2)

text \<open>\<^verbatim>\<open>MCSLock\<close> excludes and is FIFO: after every schedule a goroutine inside is the
  earliest, in the order of the swaps of \<^verbatim>\<open>tail\<close>, of all that have not given the lock up; the earliest
  is inside, enters within two steps of its own, or has panicked in \<^verbatim>\<open>Unlock\<close>; and from here on the
  goroutines enter in the order of their swaps.\<close>

theorem mcs_fifo_mutual_exclusion:
  assumes "run mcs_step as mcs_zero = Some s"
  shows "(\<forall>i. mcs_in_cs s i \<longrightarrow> mc_queue s \<noteq> [] \<and> hd (mc_queue s) = i)
    \<and> (\<forall>i q. mc_queue s = i # q \<longrightarrow> mcs_in_cs s i \<or> mc_pc s i = McPanic
         \<or> (\<exists>n \<in> {1, 2}. \<exists>s'. run mcs_step (replicate n (Step i)) s = Some s' \<and> mcs_in_cs s' i))
    \<and> first_come_first_served mcs_step mcs_in_cs (\<lambda>s t. mcs_pc_queued (mc_pc s t)) s"
proof -
  have inv: "mcs_inv s" using mcs.invariant [OF refl assms] .
  show ?thesis using mcs.at_head [OF inv] mcs_head_enters [OF inv] mcs.served_in_order [OF inv] by blast
qed

theorem mcs_fifo_witness:
  "\<exists>s. run mcs_step [CallLock 1, CallLock 2, Step 1, Step 2, Step 2, Step 1, Step 1, Step 2, Step 1]
        mcs_zero = Some s \<and> mcs_in_cs s 2 \<and> mc_queue s = [2, 1] \<and> \<not> mcs_in_cs s 1"
proof -
  let ?as = "[CallLock 1, CallLock 2, Step 1, Step 2, Step 2, Step 1, Step 1, Step 2, Step 1]"
  obtain s where r: "run mcs_step ?as mcs_zero = Some s"
    and h: "mc_pc s 2 = McHeld" and q: "mc_queue s = [2, 1]"
    by (simp add: mcs_zero_def mcs_Lock_step_def mcs_goto_def Let_def)
  have c: "mcs_in_cs s 2" using h by (simp add: mcs_in_cs_def)
  from mcs_fifo_mutual_exclusion [OF r] q have "\<not> mcs_in_cs s 1" by force
  with r c q show ?thesis by blast
qed

section \<open>The window in Unlock\<close>

text \<open>
  \<^verbatim>\<open>Unlock\<close> frees the lock with the CAS of \<^verbatim>\<open>tail\<close> and only then stores nil to
  \<^verbatim>\<open>owner\<close>. In between another goroutine can lock and record itself as the owner.
\<close>

definition mcs_race :: "lock_act list" where
  "mcs_race =
     [CallLock 1, Step 1, Step 1, Step 1, CallUnlock 1, Step 1, Step 1, Step 1,
      CallLock 2, Step 2, Step 2, Step 2, Step 1, CallUnlock 2, Step 2]"

lemma mcs_panic_stays:
  "mcs_step a s = Some s' \<Longrightarrow> mc_pc s t = McPanic \<Longrightarrow> mc_pc s' t = McPanic"
  by (cases a) (auto simp: mcs_Lock_step_def mcs_Unlock_step_def Let_def
      split: mcs_pc.splits option.splits if_splits)

lemma mcs_panic_run:
  "run mcs_step bs s = Some s' \<Longrightarrow> mc_pc s t = McPanic \<Longrightarrow> mc_pc s' t = McPanic"
  by (induction bs arbitrary: s) (auto split: option.splits dest: mcs_panic_stays)

lemma mcs_panic_blocks:
  assumes inv: "mcs_inv s" and "mc_pc s t = McPanic"
  shows "\<not> mcs_in_cs s i"
proof
  assume i: "mcs_in_cs s i"
  obtain r where "mc_queue s = i # r" using mcs_cs_head [OF inv i] by blast
  moreover obtain r' where "mc_queue s = t # r'"
    using mcs_head_of [OF inv, of t] assms(2) by auto
  ultimately show False using i assms(2) by (simp add: mcs_in_cs_def)
qed

text \<open>C38: two goroutines that pair \<^verbatim>\<open>Lock\<close> and \<^verbatim>\<open>Unlock\<close> correctly can still reach the
  panic of \<^verbatim>\<open>Unlock\<close>: goroutine 1 frees the lock, goroutine 2 locks and becomes the owner,
  goroutine 1 then overwrites \<^verbatim>\<open>owner\<close> with nil, and the \<^verbatim>\<open>Unlock\<close> of goroutine 2 finds
  no owner. From then on no goroutine ever acquires the lock.\<close>

theorem mcs_spurious_panic:
  "\<exists>s. run mcs_step mcs_race mcs_zero = Some s \<and> mc_pc s 2 = McPanic
     \<and> (\<forall>bs s' i. run mcs_step bs s = Some s' \<longrightarrow> \<not> mcs_in_cs s' i)"
proof -
  obtain s where r: "run mcs_step mcs_race mcs_zero = Some s" and p: "mc_pc s 2 = McPanic"
    by (simp add: mcs_race_def mcs_zero_def mcs_Lock_step_def mcs_Unlock_step_def mcs_goto_def Let_def)
  have inv: "mcs_inv s" using mcs.invariant [OF refl r] .
  have "\<not> mcs_in_cs s' i" if "run mcs_step bs s = Some s'" for bs s' i
    using mcs_panic_blocks [OF mcs.inv_run [OF that inv] mcs_panic_run [OF that p]] .
  with r p show ?thesis by blast
qed

theorem mcs_spurious_panic_witness:
  "\<exists>s s'. run mcs_step mcs_race mcs_zero = Some s
     \<and> run mcs_step [CallLock 3, Step 3, Step 3, Step 3, Step 3] s = Some s' \<and> \<not> mcs_in_cs s' 3"
proof -
  obtain s where r: "run mcs_step mcs_race mcs_zero = Some s"
    and n: "\<And>bs s' i. run mcs_step bs s = Some s' \<Longrightarrow> \<not> mcs_in_cs s' i"
    using mcs_spurious_panic by blast
  have "\<exists>s'. run mcs_step [CallLock 3, Step 3, Step 3, Step 3, Step 3] s = Some s'"
    using r by (auto simp: mcs_race_def mcs_zero_def mcs_Lock_step_def mcs_Unlock_step_def
        mcs_goto_def Let_def)
  with r n show ?thesis by blast
qed

end
