(* ===== verification/Counting.thy ===== *)
theory Counting
  imports Prelude
begin

text \<open>
  How many goroutines are at a program point: the number of goroutines whose program counter
  satisfies a predicate, and how it changes when one of them moves. Only finitely many
  goroutines are ever active.
\<close>

text \<open>Goroutines have identifiers below \<open>2 ^ 31\<close>: so many of them would need terabytes of stack.\<close>

definition max_goroutines :: nat where
  "max_goroutines = 2 ^ 31"

definition active :: "'p \<Rightarrow> (tid \<Rightarrow> 'p) \<Rightarrow> bool" where
  "active idle pc \<longleftrightarrow> (\<forall>t. pc t \<noteq> idle \<longrightarrow> t < max_goroutines)"

definition num :: "('p \<Rightarrow> bool) \<Rightarrow> (tid \<Rightarrow> 'p) \<Rightarrow> int" where
  "num P pc = int (card {t. P (pc t)})"

lemma active_init [simp]: "active idle (\<lambda>_. idle)"
  by (simp add: active_def)

lemma active_call: "active idle pc \<Longrightarrow> t < max_goroutines \<Longrightarrow> active idle (pc(t := p))"
  by (simp add: active_def)

lemma active_move: "active idle pc \<Longrightarrow> pc t \<noteq> idle \<Longrightarrow> active idle (pc(t := p))"
  by (simp add: active_def)

lemma active_finite: "active idle pc \<Longrightarrow> \<not> P idle \<Longrightarrow> finite {t. P (pc t)}"
  unfolding active_def by (rule finite_subset [of _ "{..<max_goroutines}"]) auto

lemma num_init [simp]: "\<not> P idle \<Longrightarrow> num P (\<lambda>_. idle) = 0"
  by (simp add: num_def)

lemma num_nonneg [simp]: "0 \<le> num P pc"
  by (simp add: num_def)

lemma num_upd:
  assumes "active idle pc" and "\<not> P idle"
  shows "num P (pc(t := p)) = num P pc - of_bool (P (pc t)) + of_bool (P p)"
proof -
  let ?A = "{u. u \<noteq> t \<and> P (pc u)}"
  have fin: "finite ?A" using active_finite [where P = P, OF assms] by (rule rev_finite_subset) auto
  have "{u. P (pc u)} = (if P (pc t) then insert t ?A else ?A)" by auto
  moreover have "{u. P ((pc(t := p)) u)} = (if P p then insert t ?A else ?A)" by auto
  ultimately show ?thesis using fin unfolding num_def by (simp split: if_splits)
qed

lemma num_le:
  assumes "active idle pc" and "\<not> P idle"
  shows "num P pc \<le> 2 ^ 31"
proof -
  have "card {t. P (pc t)} \<le> card {..<max_goroutines}"
    using assms unfolding active_def by (intro card_mono) auto
  then show ?thesis by (simp add: num_def max_goroutines_def)
qed

lemma num_pos:
  assumes "active idle pc" and "\<not> P idle" and "P (pc t)"
  shows "0 < num P pc"
  using assms(3) active_finite [where P = P, OF assms(1,2)] by (auto simp: num_def card_gt_0_iff)

lemma num_zeroD:
  assumes "num P pc = 0" and "active idle pc" and "\<not> P idle"
  shows "\<not> P (pc t)"
  using num_pos [where P = P, OF assms(2,3)] assms(1) by fastforce

lemma num_posD: "0 < num P pc \<Longrightarrow> \<exists>t. P (pc t)"
  by (auto simp: num_def card_gt_0_iff)

lemma num_mono:
  assumes "\<And>p. P p \<Longrightarrow> Q p" and "active idle pc" and "\<not> Q idle"
  shows "num P pc \<le> num Q pc"
  unfolding num_def using active_finite [where P = Q, OF assms(2,3)] assms(1) by (auto intro!: card_mono)

text \<open>When everybody at the point satisfies \<open>Q\<close> and only they do.\<close>

lemma num_cong: "(\<And>t. P (pc t) = Q (pc t)) \<Longrightarrow> num P pc = num Q pc"
  by (simp add: num_def)

lemma num_disj:
  assumes "\<And>p. \<not> (P p \<and> Q p)" and "active idle pc" and "\<not> P idle" and "\<not> Q idle"
  shows "num (\<lambda>p. P p \<or> Q p) pc = num P pc + num Q pc"
proof -
  have "{t. P (pc t) \<or> Q (pc t)} = {t. P (pc t)} \<union> {t. Q (pc t)}" by auto
  moreover have "{t. P (pc t)} \<inter> {t. Q (pc t)} = {}" using assms(1) by auto
  ultimately show ?thesis
    using active_finite [where P = P, OF assms(2,3)] active_finite [where P = Q, OF assms(2,4)] by (simp add: num_def card_Un_disjoint)
qed

end
