(* ===== verification/Lock_RW.thy ===== *)
theory Lock_RW
  imports Counting
begin

text \<open>
  \<^verbatim>\<open>RWMutexLock\<close> of \<^verbatim>\<open>syncx/lock.go\<close>, which forwards to \<^verbatim>\<open>sync.RWMutex\<close>. The mutex of the
  standard library is modelled by its documented behaviour: writers exclude everybody, a writer that waits
  keeps new readers out, the readers that wait may come in when the writer unlocks (or be overtaken by the
  next writer, which the documentation leaves open), and an unlock of a mutex that nobody has locked is a
  fatal error. A goroutine unlocks what it locked itself; that one goroutine may unlock for another, which
  \<^verbatim>\<open>sync.RWMutex\<close> allows, is not modelled.
\<close>

section \<open>The code\<close>

datatype rw_pc =
    RwIdle
  | RwLock        \<comment> \<open>\<open>r.mu.Lock()\<close>, behind other writers\<close>
  | RwDrain       \<comment> \<open>\<open>r.mu.Lock()\<close>, behind the readers that were in before\<close>
  | RwWriting
  | RwRLock       \<comment> \<open>\<open>r.mu.RLock()\<close>\<close>
  | RwRWait       \<comment> \<open>\<open>r.mu.RLock()\<close>, behind a writer\<close>
  | RwReading
  | RwFatal

record RWMutexLock =
  rw_writer :: "tid option"
  rw_readers :: nat
  rw_pc :: "tid \<Rightarrow> rw_pc"

definition RWMutex_zero :: RWMutexLock where
  "RWMutex_zero = \<lparr>rw_writer = None, rw_readers = 0, rw_pc = (\<lambda>_. RwIdle)\<rparr>"

definition RW_Lock_step :: "tid \<Rightarrow> RWMutexLock \<Rightarrow> RWMutexLock option" where
  "RW_Lock_step t s =
     (case rw_pc s t of
        RwLock \<Rightarrow>
          (if rw_writer s = None then Some (s\<lparr>rw_writer := Some t, rw_pc := (rw_pc s)(t := RwDrain)\<rparr>) else None)
      | RwDrain \<Rightarrow> (if rw_readers s = 0 then Some (s\<lparr>rw_pc := (rw_pc s)(t := RwWriting)\<rparr>) else None)
      | _ \<Rightarrow> None)"

text \<open>The readers that wait try again.\<close>

definition RW_admit :: "(tid \<Rightarrow> rw_pc) \<Rightarrow> tid \<Rightarrow> rw_pc" where
  "RW_admit pc u = (if pc u = RwRWait then RwRLock else pc u)"

definition RW_Unlock :: "tid \<Rightarrow> RWMutexLock \<Rightarrow> RWMutexLock" where
  "RW_Unlock t s =
     (if rw_pc s t = RwWriting
      then s\<lparr>rw_writer := None, rw_pc := RW_admit ((rw_pc s)(t := RwIdle))\<rparr>
      else s\<lparr>rw_pc := (rw_pc s)(t := RwFatal)\<rparr>)"

definition RW_RLock_step :: "tid \<Rightarrow> RWMutexLock \<Rightarrow> RWMutexLock option" where
  "RW_RLock_step t s =
     (if rw_pc s t = RwRLock
      then (if rw_writer s = None then Some (s\<lparr>rw_readers := Suc (rw_readers s), rw_pc := (rw_pc s)(t := RwReading)\<rparr>)
            else Some (s\<lparr>rw_pc := (rw_pc s)(t := RwRWait)\<rparr>))
      else None)"

definition RW_RUnlock :: "tid \<Rightarrow> RWMutexLock \<Rightarrow> RWMutexLock" where
  "RW_RUnlock t s =
     (if rw_pc s t = RwReading then s\<lparr>rw_readers := rw_readers s - 1, rw_pc := (rw_pc s)(t := RwIdle)\<rparr>
      else s\<lparr>rw_pc := (rw_pc s)(t := RwFatal)\<rparr>)"

datatype rw_act = CallRWLock tid | CallRWUnlock tid | CallRLock tid | CallRUnlock tid | RwStep tid

fun rw_step :: "rw_act \<Rightarrow> RWMutexLock \<Rightarrow> RWMutexLock option" where
  "rw_step (CallRWLock t) s =
     (if rw_pc s t = RwIdle \<and> t < max_goroutines then Some (s\<lparr>rw_pc := (rw_pc s)(t := RwLock)\<rparr>) else None)"
| "rw_step (CallRLock t) s =
     (if rw_pc s t = RwIdle \<and> t < max_goroutines then Some (s\<lparr>rw_pc := (rw_pc s)(t := RwRLock)\<rparr>) else None)"
| "rw_step (CallRWUnlock t) s =
     (if rw_pc s t = RwWriting \<or> rw_pc s t = RwIdle \<and> t < max_goroutines \<and> rw_writer s = None
      then Some (RW_Unlock t s) else None)"
| "rw_step (CallRUnlock t) s =
     (if rw_pc s t = RwReading \<or> rw_pc s t = RwIdle \<and> t < max_goroutines \<and> rw_writer s = None \<and> rw_readers s = 0
      then Some (RW_RUnlock t s) else None)"
| "rw_step (RwStep t) s = (case RW_Lock_step t s of Some s' \<Rightarrow> Some s' | None \<Rightarrow> RW_RLock_step t s)"

section \<open>The invariant\<close>

definition rw_inv :: "RWMutexLock \<Rightarrow> bool" where
  "rw_inv s \<longleftrightarrow> active RwIdle (rw_pc s) \<and> int (rw_readers s) = num (\<lambda>p. p = RwReading) (rw_pc s)
     \<and> (\<forall>t. rw_pc s t = RwDrain \<or> rw_pc s t = RwWriting \<longleftrightarrow> rw_writer s = Some t)
     \<and> (\<forall>t. rw_pc s t = RwWriting \<longrightarrow> rw_readers s = 0) \<and> (\<forall>t. rw_pc s t = RwRWait \<longrightarrow> rw_writer s \<noteq> None)"

lemmas rw_num = num_upd [where idle = RwIdle and P = "\<lambda>p. p = RwReading", simplified]

lemma rw_admit_num: "num (\<lambda>p. p = RwReading) (RW_admit pc) = num (\<lambda>p. p = RwReading) pc"
proof -
  have "RW_admit pc t = RwReading \<longleftrightarrow> pc t = RwReading" for t by (simp add: RW_admit_def)
  then show ?thesis unfolding num_def by (simp only:)
qed

lemma rw_admit_active: "active RwIdle pc \<Longrightarrow> active RwIdle (RW_admit pc)"
  by (auto simp: active_def RW_admit_def)

lemma rw_invD:
  assumes "rw_inv s"
  shows rw_active: "active RwIdle (rw_pc s)" and rw_count: "int (rw_readers s) = num (\<lambda>p. p = RwReading) (rw_pc s)"
    and rw_owner: "rw_pc s t = RwDrain \<or> rw_pc s t = RwWriting \<longleftrightarrow> rw_writer s = Some t"
    and rw_alone: "rw_pc s t = RwWriting \<Longrightarrow> rw_readers s = 0"
    and rw_blocked: "rw_pc s t = RwRWait \<Longrightarrow> rw_writer s \<noteq> None"
  using assms unfolding rw_inv_def by blast+

text \<open>A goroutine that is no reader and no writer goes to a place where it is none either.\<close>

lemma rw_inv_idle:
  assumes inv: "rw_inv s" and t: "rw_pc s t \<notin> {RwDrain, RwWriting, RwReading}" "t < max_goroutines \<or> rw_pc s t \<noteq> RwIdle"
    and p: "p \<notin> {RwDrain, RwWriting, RwReading}" "p = RwRWait \<longrightarrow> rw_writer s \<noteq> None"
  shows "rw_inv (s\<lparr>rw_pc := (rw_pc s)(t := p)\<rparr>)"
proof -
  have "active RwIdle ((rw_pc s)(t := p))" using rw_active [OF inv] t(2) active_call active_move by metis
  moreover have "num (\<lambda>p. p = RwReading) ((rw_pc s)(t := p)) = num (\<lambda>p. p = RwReading) (rw_pc s)"
    using rw_active [OF inv] t(1) p(1) by (simp add: rw_num)
  ultimately show ?thesis
    using rw_count [OF inv] rw_owner [OF inv] rw_alone [OF inv] rw_blocked [OF inv] t(1) p unfolding rw_inv_def by auto
qed

lemma rw_inv_writer:
  assumes inv: "rw_inv s"
  shows "rw_pc s t = RwLock \<Longrightarrow> rw_writer s = None \<Longrightarrow> rw_inv (s\<lparr>rw_writer := Some t, rw_pc := (rw_pc s)(t := RwDrain)\<rparr>)"
    and "rw_pc s t = RwDrain \<Longrightarrow> rw_readers s = 0 \<Longrightarrow> rw_inv (s\<lparr>rw_pc := (rw_pc s)(t := RwWriting)\<rparr>)"
    and "rw_pc s t = RwWriting \<Longrightarrow> rw_inv (RW_Unlock t s)"
proof -
  note a = rw_active [OF inv]
  show "rw_inv (s\<lparr>rw_writer := Some t, rw_pc := (rw_pc s)(t := RwDrain)\<rparr>)" if "rw_pc s t = RwLock" "rw_writer s = None"
    using that rw_count [OF inv] rw_owner [OF inv] rw_alone [OF inv] rw_blocked [OF inv] a unfolding rw_inv_def
    by (auto simp: rw_num active_move)
  show "rw_inv (s\<lparr>rw_pc := (rw_pc s)(t := RwWriting)\<rparr>)" if "rw_pc s t = RwDrain" "rw_readers s = 0"
    using that rw_count [OF inv] rw_owner [OF inv] rw_alone [OF inv] rw_blocked [OF inv] a unfolding rw_inv_def
    by (auto simp: rw_num active_move)
  show "rw_inv (RW_Unlock t s)" if w: "rw_pc s t = RwWriting"
  proof -
    let ?pc = "RW_admit ((rw_pc s)(t := RwIdle))"
    have other: "rw_pc s u \<noteq> RwDrain" "rw_pc s u \<noteq> RwWriting" if "u \<noteq> t" for u
      using rw_owner [OF inv, of u] rw_owner [OF inv, of t] w that by auto
    have "active RwIdle ?pc" using a w by (intro rw_admit_active active_move) simp_all
    moreover have "num (\<lambda>p. p = RwReading) ?pc = num (\<lambda>p. p = RwReading) (rw_pc s)" using a w by (simp add: rw_admit_num rw_num)
    moreover have "?pc u \<noteq> RwDrain" "?pc u \<noteq> RwWriting" "?pc u \<noteq> RwRWait" for u
      using other [of u] by (auto simp: RW_admit_def)
    ultimately show ?thesis using w rw_count [OF inv] unfolding rw_inv_def by (simp add: RW_Unlock_def)
  qed
qed

lemma rw_inv_reader:
  assumes inv: "rw_inv s"
  shows "rw_pc s t = RwRLock \<Longrightarrow> rw_writer s = None \<Longrightarrow>
      rw_inv (s\<lparr>rw_readers := Suc (rw_readers s), rw_pc := (rw_pc s)(t := RwReading)\<rparr>)"
    and "rw_pc s t = RwReading \<Longrightarrow> rw_inv (s\<lparr>rw_readers := rw_readers s - Suc 0, rw_pc := (rw_pc s)(t := RwIdle)\<rparr>)"
proof -
  note a = rw_active [OF inv]
  show "rw_inv (s\<lparr>rw_readers := Suc (rw_readers s), rw_pc := (rw_pc s)(t := RwReading)\<rparr>)"
    if "rw_pc s t = RwRLock" "rw_writer s = None"
  proof -
    have "rw_pc s u \<noteq> RwWriting" "rw_pc s u \<noteq> RwDrain" for u using rw_owner [OF inv, of u] that by auto
    then show ?thesis using that rw_count [OF inv] rw_blocked [OF inv] a unfolding rw_inv_def
      by (auto simp: rw_num active_move)
  qed
  show "rw_inv (s\<lparr>rw_readers := rw_readers s - Suc 0, rw_pc := (rw_pc s)(t := RwIdle)\<rparr>)" if r: "rw_pc s t = RwReading"
  proof -
    have "0 < num (\<lambda>p. p = RwReading) (rw_pc s)" using num_pos [where P = "\<lambda>p. p = RwReading" and t = t, OF a] r by simp
    then have pos: "0 < rw_readers s" using rw_count [OF inv] by simp
    then have "rw_pc s u \<noteq> RwWriting" for u using rw_alone [OF inv, of u] by auto
    moreover have "rw_writer s \<noteq> Some t" using rw_owner [OF inv, of t] r by simp
    ultimately show ?thesis using r pos rw_count [OF inv] rw_owner [OF inv] rw_blocked [OF inv] a unfolding rw_inv_def
      by (auto simp: rw_num active_move of_nat_diff)
  qed
qed

lemma rw_inv_step:
  assumes inv: "rw_inv s" and st: "rw_step a s = Some s'"
  shows "rw_inv s'"
proof (cases a)
  case (CallRWLock t)
  then show ?thesis using st rw_inv_idle [OF inv, of t RwLock] by (auto split: if_splits)
next
  case (CallRLock t)
  then show ?thesis using st rw_inv_idle [OF inv, of t RwRLock] by (auto split: if_splits)
next
  case (CallRWUnlock t)
  then show ?thesis using st rw_inv_idle [OF inv, of t RwFatal] rw_inv_writer(3) [OF inv, of t]
    by (auto simp: RW_Unlock_def split: if_splits)
next
  case (CallRUnlock t)
  then show ?thesis using st rw_inv_idle [OF inv, of t RwFatal] rw_inv_reader(2) [OF inv, of t]
    by (auto simp: RW_RUnlock_def split: if_splits)
next
  case (RwStep t)
  then show ?thesis using st rw_inv_writer(1,2) [OF inv, of t] rw_inv_reader(1) [OF inv, of t] rw_inv_idle [OF inv, of t RwRWait]
    by (cases "rw_pc s t") (auto simp: RW_Lock_step_def RW_RLock_step_def split: if_splits)
qed

interpretation rw_lock: lock_machine "\<lambda>s. s = RWMutex_zero" rw_step rw_inv "\<lambda>s t. rw_pc s t = RwWriting"
proof
  show "rw_inv s" if "s = RWMutex_zero" for s by (simp add: that rw_inv_def RWMutex_zero_def)
  show "rw_inv s'" if "rw_inv s" and "rw_step a s = Some s'" for s a s' using rw_inv_step that .
  show "i = j" if "rw_inv s" "rw_pc s i = RwWriting" "rw_pc s j = RwWriting" for s i j
    using rw_owner [OF that(1), of i] rw_owner [OF that(1), of j] that(2,3) by simp
qed

text \<open>A writer excludes writers and readers; and while a goroutine waits for the lock, some goroutine can
  move or holds it.\<close>

lemma rw_writer_alone:
  assumes inv: "rw_inv s" and w: "rw_pc s i = RwWriting"
  shows "(rw_pc s j = RwWriting \<longrightarrow> i = j) \<and> rw_pc s j \<noteq> RwReading"
proof -
  have "num (\<lambda>p. p = RwReading) (rw_pc s) = 0" using rw_count [OF inv] rw_alone [OF inv w] by simp
  then have "rw_pc s j \<noteq> RwReading"
    using num_zeroD [where idle = RwIdle and P = "\<lambda>p. p = RwReading"] rw_active [OF inv] by blast
  then show ?thesis using rw_owner [OF inv, of i] rw_owner [OF inv, of j] w by auto
qed

lemma rw_held_or_moves:
  assumes inv: "rw_inv s" and t: "rw_pc s t \<in> {RwLock, RwDrain, RwRLock, RwRWait}"
  shows "\<exists>u. rw_pc s u = RwWriting \<or> rw_pc s u = RwReading \<or> rw_step (RwStep u) s \<noteq> None"
proof (cases "rw_writer s")
  case None
  then show ?thesis using t rw_owner [OF inv, of t] rw_blocked [OF inv, of t]
    by (intro exI [of _ t]) (auto simp: RW_Lock_step_def RW_RLock_step_def)
next
  case (Some w)
  show ?thesis
  proof (cases "rw_readers s = 0")
    case True
    then show ?thesis using Some rw_owner [OF inv, of w]
      by (intro exI [of _ w]) (auto simp: RW_Lock_step_def RW_RLock_step_def)
  next
    case False
    then have "0 < num (\<lambda>p. p = RwReading) (rw_pc s)" using rw_count [OF inv] by simp
    then show ?thesis using num_posD by blast
  qed
qed

end
