(* ===== verification/Peterson.thy ===== *)
theory Peterson
  imports Prelude
begin

text \<open>
  \<^verbatim>\<open>Lock\<close> of \<^verbatim>\<open>peterson/peterson.go\<close>. The two flags and \<^verbatim>\<open>turn\<close> are plain
  fields in the source; the model gives each access to them one sequentially consistent
  step, which is what the algorithm needs and more than Go's memory model promises for plain
  fields. The loop condition reads the flag first and the turn only if the flag is set, so it
  is two steps. Calls with an argument other than 0 or 1 index the array out of range and
  panic.
\<close>

datatype peterson_pc =
    PtIdle
  | PtFlag       \<comment> \<open>\<open>l.flag[me] = true\<close>\<close>
  | PtTurn       \<comment> \<open>\<open>l.turn = other\<close>\<close>
  | PtTestFlag   \<comment> \<open>read \<open>l.flag[other]\<close>\<close>
  | PtTestTurn   \<comment> \<open>read \<open>l.turn\<close>\<close>
  | PtHeld
  | PtClear      \<comment> \<open>\<open>l.flag[me] = false\<close>\<close>
  | PtPanic

record Peterson =
  pt_flag :: "nat \<Rightarrow> bool"
  pt_turn :: nat
  pt_pc :: "tid \<Rightarrow> peterson_pc"

definition peterson_zero :: Peterson where
  "peterson_zero = \<lparr>pt_flag = (\<lambda>_. False), pt_turn = 0, pt_pc = (\<lambda>_. PtIdle)\<rparr>"

abbreviation pt_goto :: "tid \<Rightarrow> peterson_pc \<Rightarrow> Peterson \<Rightarrow> Peterson" where
  "pt_goto t p s \<equiv> s\<lparr>pt_pc := (pt_pc s)(t := p)\<rparr>"

fun peterson_step :: "lock_act \<Rightarrow> Peterson \<Rightarrow> Peterson option" where
  "peterson_step (CallLock me) s = (if pt_pc s me = PtIdle then Some (pt_goto me PtFlag s) else None)"
| "peterson_step (CallUnlock me) s = (if pt_pc s me = PtHeld then Some (pt_goto me PtClear s) else None)"
| "peterson_step (Step me) s =
     (let other = 1 - me in
      case pt_pc s me of
        PtFlag \<Rightarrow>
          (if me < 2 then Some (pt_goto me PtTurn (s\<lparr>pt_flag := (pt_flag s)(me := True)\<rparr>))
           else Some (pt_goto me PtPanic s))
      | PtTurn \<Rightarrow> Some (pt_goto me PtTestFlag (s\<lparr>pt_turn := other\<rparr>))
      | PtTestFlag \<Rightarrow>
          (if pt_flag s other then Some (pt_goto me PtTestTurn s) else Some (pt_goto me PtHeld s))
      | PtTestTurn \<Rightarrow>
          (if pt_turn s = other then Some (pt_goto me PtTestFlag s) else Some (pt_goto me PtHeld s))
      | PtClear \<Rightarrow> Some (pt_goto me PtIdle (s\<lparr>pt_flag := (pt_flag s)(me := False)\<rparr>))
      | _ \<Rightarrow> None)"

definition peterson_in_cs :: "Peterson \<Rightarrow> tid \<Rightarrow> bool" where
  "peterson_in_cs s t \<longleftrightarrow> pt_pc s t = PtHeld \<or> pt_pc s t = PtClear"

text \<open>What holds of one goroutine (flag \<open>f\<close>, statement \<open>p\<close>) against the other (statement
  \<open>q\<close>): its flag says whether it competes, and if it is inside while the other competes, the
  turn is its own and the other is not inside.\<close>

fun peterson_inside :: "peterson_pc \<Rightarrow> bool" where
  "peterson_inside PtHeld = True" | "peterson_inside PtClear = True" | "peterson_inside _ = False"

fun peterson_competes :: "peterson_pc \<Rightarrow> bool" where
  "peterson_competes PtTestFlag = True" | "peterson_competes PtTestTurn = True"
| "peterson_competes p = peterson_inside p"

definition peterson_side :: "bool \<Rightarrow> peterson_pc \<Rightarrow> peterson_pc \<Rightarrow> bool \<Rightarrow> bool" where
  "peterson_side f p q mine \<longleftrightarrow> (f \<longleftrightarrow> p = PtTurn \<or> peterson_competes p)
     \<and> (peterson_inside p \<longrightarrow> peterson_competes q \<longrightarrow> mine \<and> \<not> peterson_inside q)"

definition peterson_inv :: "Peterson \<Rightarrow> bool" where
  "peterson_inv s \<longleftrightarrow> peterson_side (pt_flag s 0) (pt_pc s 0) (pt_pc s 1) (pt_turn s = 0)
     \<and> peterson_side (pt_flag s 1) (pt_pc s 1) (pt_pc s 0) (pt_turn s = 1)
     \<and> (pt_turn s = 0 \<or> pt_turn s = 1)
     \<and> (\<forall>t \<ge> 2. pt_pc s t \<in> {PtIdle, PtFlag, PtPanic})"

lemma peterson_in_cs_inside: "peterson_in_cs s t \<longleftrightarrow> peterson_inside (pt_pc s t)"
  by (cases "pt_pc s t") (simp_all add: peterson_in_cs_def)

text \<open>One step of a goroutine, on its own statement \<open>p\<close> and flag \<open>f\<close>, the other's
  statement \<open>q\<close> and flag \<open>g\<close>, and whether the turn is the goroutine's own (\<open>mine\<close>).\<close>

fun peterson_local :: "peterson_pc \<Rightarrow> bool \<Rightarrow> bool \<Rightarrow> bool \<Rightarrow> peterson_pc \<times> bool \<times> bool" where
  "peterson_local PtFlag f g mine = (PtTurn, True, mine)"
| "peterson_local PtTurn f g mine = (PtTestFlag, f, False)"
| "peterson_local PtTestFlag f g mine = (if g then PtTestTurn else PtHeld, f, mine)"
| "peterson_local PtTestTurn f g mine = (if mine then PtHeld else PtTestFlag, f, mine)"
| "peterson_local PtClear f g mine = (PtIdle, False, mine)"
| "peterson_local p f g mine = (p, f, mine)"

lemma peterson_local_sides:
  assumes "peterson_side f p q mine" and "peterson_side g q p (\<not> mine)"
    and "peterson_local p f g mine = (p', f', mine')"
  shows "peterson_side f' p' q mine' \<and> peterson_side g q p' (\<not> mine')"
  using assms by (cases p; cases q) (simp_all add: peterson_side_def split: if_splits)

lemma peterson_step_local:
  assumes st: "peterson_step (Step me) s = Some s'" and me: "me = 0 \<or> me = 1"
    and tn: "pt_turn s = 0 \<or> pt_turn s = 1"
  shows "peterson_local (pt_pc s me) (pt_flag s me) (pt_flag s (1 - me)) (pt_turn s = me)
       = (pt_pc s' me, pt_flag s' me, pt_turn s' = me)
    \<and> (\<forall>t. t \<noteq> me \<longrightarrow> pt_pc s' t = pt_pc s t \<and> pt_flag s' t = pt_flag s t)
    \<and> (pt_turn s' = 0 \<or> pt_turn s' = 1)"
proof -
  have o: "1 - me \<noteq> me" and other: "pt_turn s = 1 - me \<longleftrightarrow> pt_turn s \<noteq> me" and "me < 2"
    using me tn by auto
  with st me tn show ?thesis
    by (cases "pt_pc s me") (auto simp: Let_def simp del: One_nat_def split: if_splits)
qed

lemma peterson_inv_local:
  assumes inv: "peterson_inv s" and st: "peterson_step (Step me) s = Some s'"
    and me: "me = 0 \<or> me = 1"
  shows "peterson_inv s'"
proof -
  have tn: "pt_turn s = 0 \<or> pt_turn s = 1" using inv by (simp add: peterson_inv_def)
  have loc: "peterson_local (pt_pc s me) (pt_flag s me) (pt_flag s (1 - me)) (pt_turn s = me)
       = (pt_pc s' me, pt_flag s' me, pt_turn s' = me)"
    and same: "\<And>t. t \<noteq> me \<Longrightarrow> pt_pc s' t = pt_pc s t \<and> pt_flag s' t = pt_flag s t"
    and tn': "pt_turn s' = 0 \<or> pt_turn s' = 1"
    using peterson_step_local [OF st me tn] by blast+
  have not: "pt_turn s = 1 - me \<longleftrightarrow> pt_turn s \<noteq> me" "pt_turn s' = 1 - me \<longleftrightarrow> pt_turn s' \<noteq> me"
    and o: "1 - me \<noteq> me" using tn tn' me by auto
  have big: "pt_pc s' t \<in> {PtIdle, PtFlag, PtPanic}" if "2 \<le> t" for t
  proof -
    have "t \<noteq> me" using that me by auto
    with same inv that show ?thesis by (simp add: peterson_inv_def)
  qed
  have "peterson_side (pt_flag s me) (pt_pc s me) (pt_pc s (1 - me)) (pt_turn s = me)"
    and "peterson_side (pt_flag s (1 - me)) (pt_pc s (1 - me)) (pt_pc s me) (pt_turn s = 1 - me)"
    using inv me unfolding peterson_inv_def by (elim disjE; simp)+
  from peterson_local_sides [OF this(1) this(2) [unfolded not] loc]
  have "peterson_side (pt_flag s' me) (pt_pc s' me) (pt_pc s' (1 - me)) (pt_turn s' = me)"
    and "peterson_side (pt_flag s' (1 - me)) (pt_pc s' (1 - me)) (pt_pc s' me) (pt_turn s' = 1 - me)"
    using same [OF o] not by simp_all
  with big tn' me show ?thesis unfolding peterson_inv_def by (elim disjE; simp)
qed

lemma peterson_call:
  assumes inv: "peterson_inv s" and s': "s' = pt_goto me p s"
    and "pt_pc s me = PtIdle \<and> p = PtFlag \<or> pt_pc s me = PtHeld \<and> p = PtClear"
  shows "peterson_inv s'"
proof -
  have same: "peterson_inside (pt_pc s' t) = peterson_inside (pt_pc s t)"
    "peterson_competes (pt_pc s' t) = peterson_competes (pt_pc s t)"
    "pt_pc s' t = PtTurn \<longleftrightarrow> pt_pc s t = PtTurn" for t
    using assms(2,3) by auto
  have "pt_pc s' t \<in> {PtIdle, PtFlag, PtPanic}" if "2 \<le> t" for t
    using inv that assms(2,3) by (auto simp: peterson_inv_def)
  then show ?thesis using inv unfolding peterson_inv_def peterson_side_def same by (simp add: s')
qed

lemma peterson_inv_step:
  assumes inv: "peterson_inv s" and st: "peterson_step a s = Some s'"
  shows "peterson_inv s'"
proof (cases a)
  case (Step me)
  consider "me = 0" | "me = 1" | "2 \<le> me" by linarith
  then show ?thesis
  proof cases
    case 3
    then have "pt_pc s me \<in> {PtIdle, PtFlag, PtPanic}" using inv by (simp add: peterson_inv_def)
    with st Step 3 have s': "s' = pt_goto me PtPanic s" by auto
    with inv 3 show ?thesis by (auto simp: peterson_inv_def simp del: One_nat_def)
  qed (use Step st peterson_inv_local [OF inv] in blast)+
qed (use peterson_call [OF inv] st in \<open>auto split: if_splits\<close>)

lemma peterson_cs_small:
  assumes "peterson_inv s" and "peterson_in_cs s i"
  shows "i = 0 \<or> i = 1"
proof (rule ccontr)
  assume "\<not> (i = 0 \<or> i = 1)"
  then have "2 \<le> i" by linarith
  with assms show False by (auto simp: peterson_inv_def peterson_in_cs_def)
qed

lemma peterson_one:
  assumes "peterson_inv s" shows "\<not> (peterson_in_cs s 0 \<and> peterson_in_cs s 1)"
  using assms unfolding peterson_in_cs_inside peterson_inv_def peterson_side_def
  by (cases "pt_pc s 1") auto

interpretation peterson: lock_machine "\<lambda>s. s = peterson_zero" peterson_step peterson_inv peterson_in_cs
proof unfold_locales
  show "s = peterson_zero \<Longrightarrow> peterson_inv s" for s
    by (simp add: peterson_zero_def peterson_inv_def peterson_side_def)
  show "peterson_inv s \<Longrightarrow> peterson_step a s = Some s' \<Longrightarrow> peterson_inv s'" for s a s'
    by (rule peterson_inv_step)
  show "i = j" if inv: "peterson_inv s" and i: "peterson_in_cs s i" and j: "peterson_in_cs s j" for s i j
    using peterson_cs_small [OF inv i] peterson_cs_small [OF inv j] peterson_one [OF inv] i j by auto
qed

text \<open>under sequentially consistent memory Peterson's lock excludes the two goroutines,
  and it never blocks both: if both are in the waiting loop, one of them leaves it within two
  of its own steps.\<close>

theorem peterson_exclusion_and_progress:
  assumes "run peterson_step as peterson_zero = Some s"
  shows "\<not> (peterson_in_cs s 0 \<and> peterson_in_cs s 1)
    \<and> (pt_pc s 0 \<in> {PtTestFlag, PtTestTurn} \<and> pt_pc s 1 \<in> {PtTestFlag, PtTestTurn} \<longrightarrow>
         (\<exists>me \<in> {0, 1}. \<exists>n \<in> {1, 2}. \<exists>s'. run peterson_step (replicate n (Step me)) s = Some s'
            \<and> peterson_in_cs s' me))"
proof (intro conjI impI)
  have inv: "peterson_inv s" using peterson.invariant [OF refl assms] .
  show "\<not> (peterson_in_cs s 0 \<and> peterson_in_cs s 1)"
    by (rule peterson_one [OF inv])
  assume w: "pt_pc s 0 \<in> {PtTestFlag, PtTestTurn} \<and> pt_pc s 1 \<in> {PtTestFlag, PtTestTurn}"
  have "pt_turn s = 0 \<or> pt_turn s = 1" using inv by (auto simp: peterson_inv_def)
  moreover have fl: "pt_flag s 0" "pt_flag s 1"
    using inv w by (auto simp: peterson_inv_def peterson_side_def)
  moreover have "\<exists>n \<in> {1, 2}. \<exists>s'. run peterson_step (replicate n (Step me)) s = Some s'
      \<and> peterson_in_cs s' me" if "me = 0 \<or> me = 1" "pt_turn s = me" for me
  proof (cases "pt_pc s me = PtTestTurn")
    case True
    have "1 - me \<noteq> me" using that(1) by auto
    with that True show ?thesis by (intro bexI [of _ 1]) (auto simp: peterson_in_cs_def)
  next
    case False
    with that w have "pt_pc s me = PtTestFlag" by auto
    moreover have "1 - me \<noteq> me" "pt_flag s (1 - me)" using that(1) fl by auto
    ultimately show ?thesis using that
      by (intro bexI [of _ 2]) (auto simp: peterson_in_cs_def numeral_2_eq_2)
  qed
  ultimately show "\<exists>me \<in> {0, 1}. \<exists>n \<in> {1, 2}. \<exists>s'. run peterson_step (replicate n (Step me)) s = Some s'
      \<and> peterson_in_cs s' me" by blast
qed

theorem peterson_exclusion_and_progress_witness:
  "\<exists>s. run peterson_step [CallLock 0, CallLock 1, Step 0, Step 1, Step 0, Step 1] peterson_zero = Some s
    \<and> pt_pc s 0 = PtTestFlag \<and> pt_pc s 1 = PtTestFlag
    \<and> (\<exists>me \<in> {0, 1}. \<exists>n \<in> {1, 2}. \<exists>s'. run peterson_step (replicate n (Step me)) s = Some s'
            \<and> peterson_in_cs s' me)"
proof -
  obtain s where r: "run peterson_step [CallLock 0, CallLock 1, Step 0, Step 1, Step 0, Step 1]
      peterson_zero = Some s" and p: "pt_pc s 0 = PtTestFlag" "pt_pc s 1 = PtTestFlag"
    by (simp add: peterson_zero_def Let_def)
  with peterson_exclusion_and_progress [OF r] show ?thesis by blast
qed

end
