(* ===== verification/Monitor.thy ===== *)
theory Monitor
  imports Prelude
begin

text \<open>
  Objects behind a \<^verbatim>\<open>sync.Mutex\<close>: every method of the mutex queues, the mutex stacks and
  \<^verbatim>\<open>SyncLRU\<close> is \<^verbatim>\<open>mu.Lock()\<close>, a body on the fields, \<^verbatim>\<open>mu.Unlock()\<close>. This theory runs
  such methods in any number of goroutines and any interleaving, and shows once for all of them
  that an implementation whose bodies refine a specification is linearizable to it.

  While a body is at work the fields hold something between two states of the object, which only
  the goroutine inside should see: the shared object is then \<open>None\<close>, and a goroutine that reads
  it gets into \<open>MonRace\<close>. A body that dereferences nil or indexes out of range is the result
  \<open>None\<close> of \<open>impl\<close> and leads to \<open>MonPanic\<close>. The mutex is the standard library's: \<^verbatim>\<open>Lock\<close>
  waits while it is held. Auxiliary fields: \<open>mon_log\<close>, the finished bodies in order;
  \<open>mon_since\<close>, how many there were when the goroutine made its call.
\<close>

section \<open>Calls under a mutex\<close>

datatype ('o, 's, 'r) mon_pc =
    MonIdle
  | MonLock 'o        \<comment> \<open>\<open>mu.Lock()\<close>\<close>
  | MonIn 'o          \<comment> \<open>the first access to the fields\<close>
  | MonRun 'o 's      \<comment> \<open>the body at work\<close>
  | MonUnlock 'o 'r   \<comment> \<open>\<open>mu.Unlock()\<close>, deferred or explicit\<close>
  | MonOut 'o 'r
  | MonPanic
  | MonRace

record ('o, 's, 'r) monitor =
  mon_mu :: "tid option"
  mon_obj :: "'s option"
  mon_pc :: "tid \<Rightarrow> ('o, 's, 'r) mon_pc"
  mon_since :: "tid \<Rightarrow> nat"
  mon_log :: "(tid \<times> 'o \<times> 'r) list"

definition mon_new :: "'s \<Rightarrow> ('o, 's, 'r) monitor" where
  "mon_new s = \<lparr>mon_mu = None, mon_obj = Some s, mon_pc = (\<lambda>_. MonIdle), mon_since = (\<lambda>_. 0), mon_log = []\<rparr>"

abbreviation mon_goto :: "tid \<Rightarrow> ('o, 's, 'r) mon_pc \<Rightarrow> ('o, 's, 'r) monitor \<Rightarrow> ('o, 's, 'r) monitor" where
  "mon_goto t p m \<equiv> m\<lparr>mon_pc := (mon_pc m)(t := p)\<rparr>"

datatype 'o mon_act = MonCall tid 'o | MonStep tid

fun mon_step :: "('o \<Rightarrow> 's \<Rightarrow> ('s \<times> 'r) option) \<Rightarrow> 'o mon_act \<Rightarrow> ('o, 's, 'r) monitor \<Rightarrow> ('o, 's, 'r) monitor option" where
  "mon_step impl (MonCall t b) m =
     (case mon_pc m t of
        MonIdle \<Rightarrow> Some (mon_goto t (MonLock b) (m\<lparr>mon_since := (mon_since m)(t := length (mon_log m))\<rparr>))
      | MonOut _ _ \<Rightarrow> Some (mon_goto t (MonLock b) (m\<lparr>mon_since := (mon_since m)(t := length (mon_log m))\<rparr>))
      | _ \<Rightarrow> None)"
| "mon_step impl (MonStep t) m =
     (case mon_pc m t of
        MonLock b \<Rightarrow> (if mon_mu m = None then Some (mon_goto t (MonIn b) (m\<lparr>mon_mu := Some t\<rparr>)) else None)
      | MonIn b \<Rightarrow>
          (case mon_obj m of
             None \<Rightarrow> Some (mon_goto t MonRace m)
           | Some s \<Rightarrow> Some (mon_goto t (MonRun b s) (m\<lparr>mon_obj := None\<rparr>)))
      | MonRun b s \<Rightarrow>
          (case impl b s of
             None \<Rightarrow> Some (mon_goto t MonPanic m)
           | Some (s', r) \<Rightarrow>
               Some (mon_goto t (MonUnlock b r) (m\<lparr>mon_obj := Some s', mon_log := mon_log m @ [(t, b, r)]\<rparr>)))
      | MonUnlock b r \<Rightarrow> Some (mon_goto t (MonOut b r) (m\<lparr>mon_mu := None\<rparr>))
      | _ \<Rightarrow> None)"

section \<open>What a goroutine has done since its call\<close>

definition mon_mine :: "('o, 's, 'r) monitor \<Rightarrow> tid \<Rightarrow> (tid \<times> 'o \<times> 'r) list" where
  "mon_mine m t = filter (\<lambda>e. fst e = t) (drop (mon_since m t) (mon_log m))"

fun mon_holds :: "('o, 's, 'r) mon_pc \<Rightarrow> bool" where
  "mon_holds (MonIn _) = True"
| "mon_holds (MonRun _ _) = True"
| "mon_holds (MonUnlock _ _) = True"
| "mon_holds _ = False"

text \<open>What the log holds of the call a goroutine is at.\<close>

fun mon_mine_ok :: "tid \<Rightarrow> ('o, 's, 'r) mon_pc \<Rightarrow> (tid \<times> 'o \<times> 'r) list \<Rightarrow> bool" where
  "mon_mine_ok t (MonUnlock b r) es \<longleftrightarrow> es = [(t, b, r)]"
| "mon_mine_ok t (MonOut b r) es \<longleftrightarrow> es = [(t, b, r)]"
| "mon_mine_ok t MonPanic es \<longleftrightarrow> False"
| "mon_mine_ok t MonRace es \<longleftrightarrow> False"
| "mon_mine_ok t p es \<longleftrightarrow> es = []"

lemma mon_mine_goto [simp]: "mon_mine (m\<lparr>mon_pc := p\<rparr>) t = mon_mine m t"
  and mon_mine_mu [simp]: "mon_mine (m\<lparr>mon_mu := x\<rparr>) t = mon_mine m t"
  and mon_mine_obj [simp]: "mon_mine (m\<lparr>mon_obj := y\<rparr>) t = mon_mine m t"
  by (simp_all add: mon_mine_def)

locale monitor =
  fixes impl :: "'o \<Rightarrow> 's \<Rightarrow> ('s \<times> 'r) option" and spec :: "'o \<Rightarrow> 'a \<Rightarrow> 'a \<times> 'r"
    and rep :: "'s \<Rightarrow> 'a \<Rightarrow> bool" and new :: 's and a0 :: 'a
  assumes new_rep: "rep new a0"
    and step_rep: "rep s a \<Longrightarrow> spec b a = (a', r) \<Longrightarrow> \<exists>s'. impl b s = Some (s', r) \<and> rep s' a'"

sublocale monitor \<subseteq> data_refinement impl "\<lambda>b a. Some (spec b a)" rep
  by unfold_locales (use step_rep in auto)

context monitor
begin

text \<open>The object at rest represents what the log says, and so does the copy of the body at
  work.\<close>

definition obj_ok :: "('o, 's, 'r) monitor \<Rightarrow> 'a \<Rightarrow> bool" where
  "obj_ok m a \<longleftrightarrow> (\<forall>s. mon_obj m = Some s \<longrightarrow> rep s a) \<and> (\<forall>t b s. mon_pc m t = MonRun b s \<longrightarrow> rep s a)
     \<and> (mon_obj m = None \<longrightarrow> (\<exists>t b s. mon_pc m t = MonRun b s))"

definition mon_inv :: "('o, 's, 'r) monitor \<Rightarrow> bool" where
  "mon_inv m \<longleftrightarrow> (\<forall>t. mon_holds (mon_pc m t) \<longleftrightarrow> mon_mu m = Some t)
     \<and> (\<forall>t. mon_since m t \<le> length (mon_log m) \<and> (mon_pc m t \<noteq> MonIdle \<longrightarrow> mon_mine_ok t (mon_pc m t) (mon_mine m t)))
     \<and> (\<exists>a. logged spec a0 (map snd (mon_log m)) a \<and> obj_ok m a)"

lemma mon_invD:
  assumes "mon_inv m"
  shows mon_holder: "mon_holds (mon_pc m t) \<longleftrightarrow> mon_mu m = Some t"
    and mon_since_le: "mon_since m t \<le> length (mon_log m)"
    and mon_mineD: "mon_pc m t \<noteq> MonIdle \<Longrightarrow> mon_mine_ok t (mon_pc m t) (mon_mine m t)"
    and mon_logged: "\<exists>a. logged spec a0 (map snd (mon_log m)) a \<and> obj_ok m a"
  using assms unfolding mon_inv_def by blast+

lemma mon_inv_new: "mon_inv (mon_new new)"
  using new_rep by (auto simp: mon_inv_def mon_new_def obj_ok_def intro: logged_Nil)

text \<open>A step that leaves object and log alone.\<close>

lemma mon_move:
  assumes inv: "mon_inv m" and old: "\<And>b s. mon_pc m t \<noteq> MonRun b s" and new: "\<And>b s. p \<noteq> MonRun b s"
    and mu: "\<And>u. mon_holds (if u = t then p else mon_pc m u) \<longleftrightarrow> x = Some u"
    and mine: "p \<noteq> MonIdle \<longrightarrow> mon_mine_ok t p (mon_mine m t)"
  shows "mon_inv (m\<lparr>mon_mu := x, mon_pc := (mon_pc m)(t := p)\<rparr>)"
proof -
  obtain a where a: "logged spec a0 (map snd (mon_log m)) a" "obj_ok m a" using mon_logged [OF inv] by blast
  have "obj_ok (m\<lparr>mon_mu := x, mon_pc := (mon_pc m)(t := p)\<rparr>) a"
    using a(2) old new unfolding obj_ok_def by (auto; metis)
  then show ?thesis
    using a(1) mu mine mon_since_le [OF inv] mon_mineD [OF inv] unfolding mon_inv_def by auto
qed

lemma mon_inv_call:
  assumes inv: "mon_inv m" and free: "\<not> mon_holds (mon_pc m t)"
  shows "mon_inv (m\<lparr>mon_since := (mon_since m)(t := length (mon_log m)), mon_pc := (mon_pc m)(t := MonLock b)\<rparr>)"
proof -
  obtain a where a: "logged spec a0 (map snd (mon_log m)) a" "obj_ok m a" using mon_logged [OF inv] by blast
  have nr: "mon_pc m t \<noteq> MonRun c s" for c s using free by auto
  let ?m = "m\<lparr>mon_since := (mon_since m)(t := length (mon_log m)), mon_pc := (mon_pc m)(t := MonLock b)\<rparr>"
  have "obj_ok ?m a" using a(2) nr unfolding obj_ok_def by (auto; metis)
  moreover have "mon_mine ?m u = (if u = t then [] else mon_mine m u)" for u by (simp add: mon_mine_def)
  ultimately show ?thesis
    using a(1) mon_since_le [OF inv] mon_mineD [OF inv] mon_holder [OF inv] free unfolding mon_inv_def by auto
qed

lemma mon_inv_enter:
  assumes inv: "mon_inv m" and pc: "mon_pc m t = MonIn b" and obj: "mon_obj m = Some s"
  shows "mon_inv (m\<lparr>mon_obj := None, mon_pc := (mon_pc m)(t := MonRun b s)\<rparr>)"
proof -
  obtain a where a: "logged spec a0 (map snd (mon_log m)) a" "obj_ok m a" using mon_logged [OF inv] by blast
  have "obj_ok (m\<lparr>mon_obj := None, mon_pc := (mon_pc m)(t := MonRun b s)\<rparr>) a"
    using a(2) obj unfolding obj_ok_def by auto
  then show ?thesis
    using a(1) mon_since_le [OF inv] mon_mineD [OF inv] mon_mineD [OF inv, of t] mon_holder [OF inv] mon_holder [OF inv, of t] pc
    unfolding mon_inv_def by auto
qed

text \<open>The end of a body: only the goroutine inside has a copy, so the object becomes its result.\<close>

lemma mon_inv_body:
  assumes inv: "mon_inv m" and pc: "mon_pc m t = MonRun b s"
  obtains s' r where "impl b s = Some (s', r)"
    "mon_inv (m\<lparr>mon_obj := Some s', mon_log := mon_log m @ [(t, b, r)], mon_pc := (mon_pc m)(t := MonUnlock b r)\<rparr>)"
proof -
  obtain a where a: "logged spec a0 (map snd (mon_log m)) a" "obj_ok m a" using mon_logged [OF inv] by blast
  obtain a' r where sp: "spec b a = (a', r)" by force
  have "rep s a" using a(2) pc unfolding obj_ok_def by blast
  then obtain s' where s': "impl b s = Some (s', r)" "rep s' a'" using step_rep sp by blast
  let ?m = "m\<lparr>mon_obj := Some s', mon_log := mon_log m @ [(t, b, r)], mon_pc := (mon_pc m)(t := MonUnlock b r)\<rparr>"
  have mu: "mon_mu m = Some t" using mon_holder [OF inv, of t] pc by simp
  have only: "u = t" if "mon_pc m u = MonRun c x" for u c x
    using mon_holder [OF inv, of u] mu that by simp
  have "obj_ok ?m a'" using s'(2) only unfolding obj_ok_def by auto
  moreover have "logged spec a0 (map snd (mon_log ?m)) a'" using logged_snoc [OF a(1) sp] by simp
  moreover have "mon_mine ?m u = (if u = t then mon_mine m t @ [(t, b, r)] else mon_mine m u)" for u
    using mon_since_le [OF inv, of u] by (simp add: mon_mine_def)
  ultimately have "mon_inv ?m"
    using mon_since_le [OF inv] mon_mineD [OF inv] mon_mineD [OF inv, of t] mon_holder [OF inv] mon_holder [OF inv, of t] pc
    unfolding mon_inv_def by (auto simp: le_SucI)
  with s'(1) show ?thesis by (rule that)
qed

lemma mon_inv_step:
  assumes inv: "mon_inv m" and st: "mon_step impl act m = Some m'"
  shows "mon_inv m'"
proof (cases act)
  case (MonCall t b)
  then show ?thesis using st mon_inv_call [OF inv, of t b] by (auto split: mon_pc.splits)
next
  case (MonStep t)
  note h = mon_holder [OF inv] and mine = mon_mineD [OF inv, of t]
  show ?thesis
  proof (cases "mon_pc m t")
    case (MonLock b)
    with st MonStep have m': "mon_mu m = None" "m' = mon_goto t (MonIn b) (m\<lparr>mon_mu := Some t\<rparr>)"
      by (auto split: if_splits)
    show ?thesis using mon_move [OF inv, of t "MonIn b" "Some t"] h mine MonLock m' by simp
  next
    case (MonIn b)
    obtain s where s: "mon_obj m = Some s"
    proof (cases "mon_obj m")
      case None
      then obtain u c x where "mon_pc m u = MonRun c x" using mon_logged [OF inv] unfolding obj_ok_def by blast
      with h [of u] h [of t] MonIn show thesis by simp
    qed blast
    then show ?thesis using st MonStep MonIn mon_inv_enter [OF inv MonIn s] by simp
  next
    case (MonRun b s)
    show ?thesis by (rule mon_inv_body [OF inv MonRun]) (use st MonStep MonRun in auto)
  next
    case (MonUnlock b r)
    have "mon_mu m = Some t" using h [of t] MonUnlock by simp
    then show ?thesis using mon_move [OF inv, of t "MonOut b r" None] h mine MonUnlock st MonStep by simp
  qed (use st MonStep in auto)
qed

end

sublocale monitor \<subseteq> mon: machine "\<lambda>m. m = mon_new new" "mon_step impl" mon_inv
  by unfold_locales (use mon_inv_new mon_inv_step in auto)

text \<open>What clients of the object see: no panic and no race; the bodies in the order of their ends
  are a run of the specification, whose state the object at rest represents; a call that has
  returned is answered by exactly one of them, which ended after the call; and while somebody waits
  for the mutex, the goroutine that holds it, or a waiter, can take a step.\<close>

definition mon_linearized :: "('o \<Rightarrow> 's \<Rightarrow> ('s \<times> 'r) option) \<Rightarrow> ('o \<Rightarrow> 'a \<Rightarrow> 'a \<times> 'r) \<Rightarrow> 'a \<Rightarrow> ('s \<Rightarrow> 'a \<Rightarrow> bool)
    \<Rightarrow> ('o, 's, 'r) monitor \<Rightarrow> bool" where
  "mon_linearized impl spec a0 view m \<longleftrightarrow>
     (\<exists>a. exec_ops spec (map (fst \<circ> snd) (mon_log m)) a0 = (a, map (snd \<circ> snd) (mon_log m))
        \<and> (\<forall>s. mon_obj m = Some s \<longrightarrow> view s a))
     \<and> (\<forall>t. mon_pc m t \<noteq> MonPanic \<and> mon_pc m t \<noteq> MonRace
        \<and> (\<forall>b r. mon_pc m t = MonOut b r \<longrightarrow> mon_mine m t = [(t, b, r)])
        \<and> (\<forall>b. mon_pc m t = MonLock b \<longrightarrow> (\<exists>u. mon_pc m u \<noteq> MonIdle \<and> mon_step impl (MonStep u) m \<noteq> None)))"

lemma mon_linearized_mono:
  "mon_linearized impl spec a0 v m \<Longrightarrow> (\<And>s a. v s a \<Longrightarrow> w s a) \<Longrightarrow> mon_linearized impl spec a0 w m"
  unfolding mon_linearized_def by blast

context monitor
begin

lemma waiter_progress:
  assumes inv: "mon_inv m" and pc: "mon_pc m t = MonLock b"
  shows "\<exists>u. mon_pc m u \<noteq> MonIdle \<and> mon_step impl (MonStep u) m \<noteq> None"
proof (cases "mon_mu m")
  case None
  then show ?thesis using pc by (intro exI [of _ t]) simp
next
  case (Some u)
  then have "mon_holds (mon_pc m u)" using mon_holder [OF inv] by blast
  then show ?thesis by (intro exI [of _ u]) (cases "mon_pc m u"; auto split: option.splits)
qed

lemma linearizable:
  assumes "run (mon_step impl) as (mon_new new) = Some m"
  shows "mon_linearized impl spec a0 rep m"
proof -
  have inv: "mon_inv m" using mon.invariant [OF refl assms] .
  obtain a where a: "logged spec a0 (map snd (mon_log m)) a" "obj_ok m a" using mon_logged [OF inv] by blast
  have "mon_mine_ok t (mon_pc m t) (mon_mine m t) \<or> mon_pc m t = MonIdle" for t using mon_mineD [OF inv] by blast
  then have "mon_pc m t \<noteq> MonPanic \<and> mon_pc m t \<noteq> MonRace
      \<and> (\<forall>b r. mon_pc m t = MonOut b r \<longrightarrow> mon_mine m t = [(t, b, r)])" for t
    by (cases "mon_pc m t") (metis mon_mine_ok.simps mon_pc.distinct mon_pc.inject)+
  then show ?thesis
    using a waiter_progress [OF inv] unfolding mon_linearized_def logged_def obj_ok_def by (auto simp: comp_def)
qed

end

text \<open>A meeting of two goroutines at the mutex: both have called, the first is let in.\<close>

definition mon_meeting :: "'o \<Rightarrow> 'o \<Rightarrow> 'o mon_act list" where
  "mon_meeting b c = [MonCall 1 b, MonCall 2 c] @ replicate 4 (MonStep 1) @ replicate 4 (MonStep 2)"

lemma mon_meeting_runs:
  assumes "impl b s = Some (s1, r)" and "impl c s1 = Some (s2, q)"
  shows "\<exists>m. run (mon_step impl) (mon_meeting b c) (mon_new s) = Some m \<and> mon_obj m = Some s2
     \<and> mon_pc m 1 = MonOut b r \<and> mon_pc m 2 = MonOut c q \<and> mon_log m = [(1, b, r), (2, c, q)]"
  using assms by (simp add: mon_meeting_def mon_new_def numeral_eq_Suc)

end
