(* ===== verification/Queue_Spec.thy ===== *)
theory Queue_Spec
  imports Monitor
begin

text \<open>
  The interface \<^verbatim>\<open>Queue[T]\<close> of \<^verbatim>\<open>queue/queue.go\<close> as a contract, its abstract
  specification (a bounded FIFO list), and the arithmetic of ring positions that its
  implementations share. Positions are \<^verbatim>\<open>uint64\<close> counters that wrap around; the slot of a
  position is its lowest ten bits.
\<close>

section \<open>Constants\<close>

definition BoundedQueueSize :: nat where
  "BoundedQueueSize = 1024"

definition queueMask :: u64 where
  "queueMask = of_nat BoundedQueueSize - 1"

text \<open>The array index \<^verbatim>\<open>pos & queueMask\<close>.\<close>

definition slot_of :: "u64 \<Rightarrow> nat" where
  "slot_of pos = unat (pos AND queueMask)"

section \<open>The abstract queue\<close>

datatype 'a queue_op = Enq 'a | Deq

text \<open>Go returns a pair \<^verbatim>\<open>(T, bool)\<close> from \<^verbatim>\<open>Dequeue\<close> and a \<^verbatim>\<open>bool\<close> from
  \<^verbatim>\<open>Enqueue\<close>.\<close>

datatype 'a queue_result = EnqRes bool | DeqRes 'a bool

fun spec_queue :: "nat \<Rightarrow> 'a::zero queue_op \<Rightarrow> 'a list \<Rightarrow> 'a list \<times> 'a queue_result" where
  "spec_queue cap (Enq v) xs = (if length xs < cap then (xs @ [v], EnqRes True) else (xs, EnqRes False))"
| "spec_queue cap Deq xs = (case xs of [] \<Rightarrow> ([], DeqRes 0 False) | x # xs' \<Rightarrow> (xs', DeqRes x True))"

text \<open>The values accepted by a run, and the values it delivered.\<close>

fun accepted :: "'a queue_op list \<Rightarrow> 'a queue_result list \<Rightarrow> 'a list" where
  "accepted (Enq v # as) (EnqRes True # rs) = v # accepted as rs"
| "accepted (_ # as) (_ # rs) = accepted as rs"
| "accepted _ _ = []"

fun delivered :: "'a queue_result list \<Rightarrow> 'a list" where
  "delivered (DeqRes x True # rs) = x # delivered rs"
| "delivered (_ # rs) = delivered rs"
| "delivered [] = []"

lemma spec_queue_fifo:
  "exec_ops (spec_queue cap) as xs = (ys, rs) \<Longrightarrow> xs @ accepted as rs = delivered rs @ ys"
proof (induction as arbitrary: xs rs)
  case (Cons a as)
  obtain xs' r where f: "spec_queue cap a xs = (xs', r)" by force
  obtain ys' rs' where e: "exec_ops (spec_queue cap) as xs' = (ys', rs')" by force
  with Cons.prems f have rs: "rs = r # rs'" "ys' = ys" by auto
  with Cons.IH e have ih: "xs' @ accepted as rs' = delivered rs' @ ys" by auto
  show ?case
  proof (cases a)
    case (Enq v)
    then show ?thesis using f ih rs by (auto split: if_splits)
  next
    case Deq
    then show ?thesis using f ih rs by (auto split: list.splits)
  qed
qed simp

lemma spec_queue_bounded:
  "exec_ops (spec_queue cap) as xs = (ys, rs) \<Longrightarrow> length xs \<le> cap \<Longrightarrow> length ys \<le> cap"
proof (induction as arbitrary: xs rs)
  case (Cons a as)
  obtain xs' r where f: "spec_queue cap a xs = (xs', r)" by force
  then have "length xs' \<le> cap"
    using Cons.prems(2) by (cases a) (auto split: if_splits list.splits)
  with Cons f show ?case by (auto split: prod.splits)
qed simp

section \<open>The contract\<close>

text \<open>An implementation: its operations simulate the abstract queue of capacity \<open>cap\<close> under
  the abstraction \<open>abs\<close>, wherever its invariant holds.\<close>

locale bounded_queue =
  fixes new :: 'q and enq :: "'a::zero \<Rightarrow> 'q \<Rightarrow> 'q \<times> bool" and deq :: "'q \<Rightarrow> 'q \<times> ('a \<times> bool)"
    and inv :: "'q \<Rightarrow> bool" and abs :: "'q \<Rightarrow> 'a list" and cap :: nat
  assumes inv_new: "inv new" and abs_new: "abs new = []"
    and inv_enq: "inv q \<Longrightarrow> inv (fst (enq v q))"
    and inv_deq: "inv q \<Longrightarrow> inv (fst (deq q))"
    and enq_spec: "inv q \<Longrightarrow>
      (abs (fst (enq v q)), EnqRes (snd (enq v q))) = spec_queue cap (Enq v) (abs q)"
    and deq_spec: "inv q \<Longrightarrow>
      (abs (fst (deq q)), DeqRes (fst (snd (deq q))) (snd (snd (deq q)))) = spec_queue cap Deq (abs q)"

fun queue_impl :: "('a \<Rightarrow> 'q \<Rightarrow> 'q \<times> bool) \<Rightarrow> ('q \<Rightarrow> 'q \<times> ('a \<times> bool))
    \<Rightarrow> 'a queue_op \<Rightarrow> 'q \<Rightarrow> 'q \<times> 'a queue_result" where
  "queue_impl enq deq (Enq v) q = (case enq v q of (q', b) \<Rightarrow> (q', EnqRes b))"
| "queue_impl enq deq Deq q = (case deq q of (q', x, b) \<Rightarrow> (q', DeqRes x b))"

context bounded_queue
begin

lemma step_refines:
  assumes "inv q"
  shows "inv (fst (queue_impl enq deq a q)) \<and>
    spec_queue cap a (abs q)
      = (abs (fst (queue_impl enq deq a q)), snd (queue_impl enq deq a q))"
proof (cases a)
  case (Enq v)
  with assms enq_spec [of q v] inv_enq [of q v] show ?thesis by (simp add: case_prod_beta)
next
  case Deq
  with assms deq_spec [of q] inv_deq [of q] show ?thesis by (simp add: case_prod_beta)
qed

lemma run_refines:
  "inv q \<Longrightarrow> exec_ops (queue_impl enq deq) as q = (q', rs) \<Longrightarrow>
     inv q' \<and> exec_ops (spec_queue cap) as (abs q) = (abs q', rs)"
proof (induction as arbitrary: q q' rs)
  case (Cons a as)
  obtain q1 r where f: "queue_impl enq deq a q = (q1, r)" by force
  obtain q2 rs' where e: "exec_ops (queue_impl enq deq) as q1 = (q2, rs')" by force
  from step_refines [OF Cons.prems(1), of a] f have i: "inv q1"
    and sp: "spec_queue cap a (abs q) = (abs q1, r)" by simp_all
  from Cons.IH [OF i e] Cons.prems(2) f e sp show ?case by auto
qed simp

lemma refines_from_new:
  "exec_ops (queue_impl enq deq) as new = (q, rs) \<Longrightarrow> exec_ops (spec_queue cap) as [] = (abs q, rs)"
  using run_refines [OF inv_new] abs_new by metis

lemma fifo_from_new:
  assumes "exec_ops (queue_impl enq deq) as new = (q, rs)"
  shows "accepted as rs = delivered rs @ abs q \<and> length (abs q) \<le> cap"
  using spec_queue_fifo [OF refines_from_new [OF assms]]
    spec_queue_bounded [OF refines_from_new [OF assms]] by simp

end

text \<open>The same operations called concurrently, each under the queue's mutex.\<close>

abbreviation queue_body :: "('a \<Rightarrow> 'q \<Rightarrow> 'q \<times> bool) \<Rightarrow> ('q \<Rightarrow> 'q \<times> ('a \<times> bool))
    \<Rightarrow> 'a queue_op \<Rightarrow> 'q \<Rightarrow> ('q \<times> 'a queue_result) option" where
  "queue_body enq deq b q \<equiv> Some (queue_impl enq deq b q)"

sublocale bounded_queue \<subseteq> guarded: monitor "queue_body enq deq" "spec_queue cap" "\<lambda>q xs. inv q \<and> abs q = xs" new "[]"
proof (unfold_locales, goal_cases)
  case (2 q xs b xs' r)
  then show ?case using step_refines [of q b] by (cases "queue_impl enq deq b q") auto
qed (simp add: inv_new abs_new)

context bounded_queue
begin

lemma concurrent:
  assumes "run (mon_step (queue_body enq deq)) as (mon_new new) = Some m"
  shows "mon_linearized (queue_body enq deq) (spec_queue cap) [] (\<lambda>q xs. abs q = xs \<and> length xs \<le> cap
      \<and> accepted (map (fst \<circ> snd) (mon_log m)) (map (snd \<circ> snd) (mon_log m))
          = delivered (map (snd \<circ> snd) (mon_log m)) @ xs) m"
  using guarded.linearizable [OF assms] spec_queue_fifo spec_queue_bounded
  unfolding mon_linearized_def by fastforce

end

section \<open>Ring positions\<close>

lemma queueMask_mask: "queueMask = mask 10"
  by (simp add: queueMask_def BoundedQueueSize_def mask_eq_exp_minus_1)

lemma slot_of_mod: "slot_of pos = unat pos mod BoundedQueueSize"
proof -
  have "pos AND queueMask = take_bit 10 pos" by (simp add: queueMask_mask take_bit_eq_mask)
  then have "slot_of pos = take_bit 10 (unat pos)" by (simp only: slot_of_def unsigned_take_bit_eq)
  then show ?thesis by (simp add: take_bit_eq_mod BoundedQueueSize_def)
qed

lemma slot_of_less: "slot_of pos < BoundedQueueSize"
  by (simp add: slot_of_mod BoundedQueueSize_def)

text \<open>The ring size divides \<open>2 ^ 64\<close>, so the slot survives the wrap-around of the counter.\<close>

lemma slot_of_add: "slot_of (pos + of_nat k) = (slot_of pos + k) mod BoundedQueueSize"
proof -
  have "(1024::nat) dvd 2 ^ 64" by simp
  then have "(unat pos + k) mod 2 ^ 64 mod 1024 = (unat pos + k) mod 1024"
    by (rule mod_mod_cancel)
  then show ?thesis
    by (simp add: slot_of_mod BoundedQueueSize_def unat_word_ariths unat_of_nat mod_add_right_eq
        mod_add_left_eq)
qed

text \<open>The content of a ring from position \<open>h\<close>: \<open>n\<close> slots in order.\<close>

definition ring_list :: "'a list \<Rightarrow> u64 \<Rightarrow> nat \<Rightarrow> 'a list" where
  "ring_list arr h n = map (\<lambda>k. arr ! slot_of (h + of_nat k)) [0..<n]"

lemma length_ring_list [simp]: "length (ring_list arr h n) = n"
  by (simp add: ring_list_def)

lemma ring_list_0 [simp]: "ring_list arr h 0 = []"
  by (simp add: ring_list_def)

lemma ring_list_Suc: "ring_list arr h (Suc n) = arr ! slot_of h # ring_list arr (h + 1) n"
  by (simp add: ring_list_def upt_rec [of 0] map_Suc_upt [symmetric] add.assoc del: upt_Suc)

lemma ring_list_snoc: "ring_list arr h (Suc n) = ring_list arr h n @ [arr ! slot_of (h + of_nat n)]"
  by (simp add: ring_list_def)

lemma slot_of_other:
  assumes "k < n" and "n < BoundedQueueSize"
  shows "slot_of (h + of_nat n) \<noteq> slot_of (h + of_nat k)"
proof
  assume "slot_of (h + of_nat n) = slot_of (h + of_nat k)"
  then have "(slot_of h + n) mod 1024 = (slot_of h + k) mod 1024"
    by (simp add: slot_of_add BoundedQueueSize_def)
  moreover have "slot_of h + k \<le> slot_of h + n" using assms(1) by simp
  ultimately have "1024 dvd (slot_of h + n) - (slot_of h + k)" using mod_eq_dvd_iff_nat by blast
  with assms show False by (simp add: BoundedQueueSize_def nat_dvd_not_less)
qed

lemma ring_list_write_end:
  assumes "n < BoundedQueueSize" and "length arr = BoundedQueueSize"
  shows "ring_list (arr[slot_of (h + of_nat n) := v]) h (Suc n) = ring_list arr h n @ [v]"
proof -
  have "slot_of (h + of_nat n) \<noteq> slot_of (h + of_nat k)" if "k < n" for k
    using slot_of_other [OF that assms(1)] .
  then have "ring_list (arr[slot_of (h + of_nat n) := v]) h n = ring_list arr h n"
    by (auto simp: ring_list_def)
  then show ?thesis using assms(2) slot_of_less by (simp add: ring_list_snoc)
qed

lemma ring_list_clear_front:
  assumes "n < BoundedQueueSize"
  shows "ring_list (arr[slot_of h := z]) (h + 1) n = ring_list arr (h + 1) n"
proof -
  have "slot_of h \<noteq> slot_of (h + 1 + of_nat k)" if "k < n" for k
    using slot_of_other [of 0 "Suc k" h] that assms by (simp add: add.assoc)
  then show ?thesis by (auto simp: ring_list_def)
qed

lemma unat_BoundedQueueSize: "unat (of_nat BoundedQueueSize :: u64) = BoundedQueueSize"
  by (simp add: BoundedQueueSize_def unat_of_nat)

lemma u64_eq_size: "w = of_nat BoundedQueueSize \<longleftrightarrow> unat (w :: u64) = BoundedQueueSize"
proof
  assume "unat w = BoundedQueueSize"
  then have "of_nat (unat w) = (of_nat BoundedQueueSize :: u64)" by simp
  then show "w = of_nat BoundedQueueSize" by simp
qed (simp only: unat_BoundedQueueSize)

text \<open>The two counters as a distance.\<close>

lemma u64_distance: "(t :: u64) = h + of_nat (unat (t - h))"
  by simp

lemma u64_distance_inc:
  assumes "unat ((t :: u64) - h) < 2 ^ 64 - 1"
  shows "unat (t + 1 - h) = Suc (unat (t - h))"
proof -
  have "t + 1 - h = (t - h) + 1" by (simp add: algebra_simps)
  then have "unat (t + 1 - h) = (unat (t - h) + 1) mod 2 ^ 64"
    by (simp only: unat_word_ariths) simp
  also have "\<dots> = unat (t - h) + 1" using assms by (intro mod_less) linarith
  finally show ?thesis by simp
qed

lemma u64_distance_dec:
  assumes "unat ((t :: u64) - h) = Suc n"
  shows "unat (t - (h + 1)) = n"
proof -
  have "t - h \<noteq> 0" using assms by (metis nat.distinct(1) unat_0)
  moreover have "t - (h + 1) = (t - h) - 1" by (simp add: algebra_simps)
  ultimately have "unat (t - (h + 1)) = unat (t - h) - 1"
    by (metis unat_minus_one)
  then show ?thesis using assms by simp
qed

text \<open>Writing the slot behind the last element, or leaving the front, does not disturb the
  content.\<close>

lemma ring_list_write_free:
  assumes "n < BoundedQueueSize"
  shows "ring_list (arr[slot_of (h + of_nat n) := v]) h n = ring_list arr h n"
proof -
  have "slot_of (h + of_nat n) \<noteq> slot_of (h + of_nat k)" if "k < n" for k
    using slot_of_other [OF that assms] .
  then show ?thesis by (auto simp: ring_list_def)
qed

lemma slot_front_not_end:
  assumes "0 < n" and "n < BoundedQueueSize"
  shows "slot_of (h + of_nat n) \<noteq> slot_of h"
  using slot_of_other [OF assms, of h] by simp

text \<open>The operations of the producers, and of the consumers, in a log.\<close>

definition enq_entries :: "('a queue_op \<times> 'r) list \<Rightarrow> ('a queue_op \<times> 'r) list" where
  "enq_entries log = filter (\<lambda>(a, _). case a of Enq _ \<Rightarrow> True | Deq \<Rightarrow> False) log"

definition deq_entries :: "('a queue_op \<times> 'r) list \<Rightarrow> ('a queue_op \<times> 'r) list" where
  "deq_entries log = filter (\<lambda>(a, _). case a of Enq _ \<Rightarrow> False | Deq \<Rightarrow> True) log"

lemma entries_snoc [simp]:
  "enq_entries (log @ [(Enq v, r)]) = enq_entries log @ [(Enq v, r)]"
  "enq_entries (log @ [(Deq, r)]) = enq_entries log"
  "deq_entries (log @ [(Enq v, r)]) = deq_entries log"
  "deq_entries (log @ [(Deq, r)]) = deq_entries log @ [(Deq, r)]"
  by (simp_all add: enq_entries_def deq_entries_def)

end
