(* ===== verification/Queue_Mutex.thy ===== *)
theory Queue_Mutex
  imports Queue_Spec
begin

text \<open>
  \<^verbatim>\<open>MutexMPMC\<close> and \<^verbatim>\<open>MutexMPSC\<close> of the \<^verbatim>\<open>queue\<close> package: a ring of
  \<^verbatim>\<open>BoundedQueueSize\<close> elements with two wrapping \<^verbatim>\<open>uint64\<close> counters. Each operation
  holds \<^verbatim>\<open>mu\<close> from its first to its last access, so it is one function of the state.
\<close>

section \<open>MutexMPMC\<close>

record 'a MutexMPMC =
  mm_arr :: "'a list"
  mm_tail :: u64
  mm_head :: u64

definition NewMutexMPMC :: "'a::zero MutexMPMC" where
  "NewMutexMPMC = \<lparr>mm_arr = replicate BoundedQueueSize 0, mm_tail = 0, mm_head = 0\<rparr>"

definition MutexMPMC_Enqueue :: "'a \<Rightarrow> 'a MutexMPMC \<Rightarrow> 'a MutexMPMC \<times> bool" where
  "MutexMPMC_Enqueue v b =
     (if mm_tail b - mm_head b = of_nat BoundedQueueSize then (b, False)
      else
        let pos = slot_of (mm_tail b)
        in (b\<lparr>mm_arr := (mm_arr b)[pos := v], mm_tail := mm_tail b + 1\<rparr>, True))"

definition MutexMPMC_Dequeue :: "'a::zero MutexMPMC \<Rightarrow> 'a MutexMPMC \<times> ('a \<times> bool)" where
  "MutexMPMC_Dequeue b =
     (if mm_tail b - mm_head b = 0 then (b, (0, False))
      else
        let pos = slot_of (mm_head b);
            val = mm_arr b ! pos
        in (b\<lparr>mm_arr := (mm_arr b)[pos := 0], mm_head := mm_head b + 1\<rparr>, (val, True)))"

definition mm_size :: "'a MutexMPMC \<Rightarrow> nat" where
  "mm_size b = unat (mm_tail b - mm_head b)"

definition mm_inv :: "'a MutexMPMC \<Rightarrow> bool" where
  "mm_inv b \<longleftrightarrow> length (mm_arr b) = BoundedQueueSize \<and> mm_size b \<le> BoundedQueueSize"

definition mm_abs :: "'a MutexMPMC \<Rightarrow> 'a list" where
  "mm_abs b = ring_list (mm_arr b) (mm_head b) (mm_size b)"

lemma mm_full_iff:
  "mm_tail b - mm_head b = of_nat BoundedQueueSize \<longleftrightarrow> mm_size b = BoundedQueueSize"
  by (simp only: mm_size_def u64_eq_size)

lemma mm_empty_iff: "mm_tail b = mm_head b \<longleftrightarrow> mm_size b = 0"
  by (simp add: mm_size_def unat_eq_0)

lemma mm_Enqueue_full:
  "mm_size b = BoundedQueueSize \<Longrightarrow> MutexMPMC_Enqueue v b = (b, False)"
  by (simp add: MutexMPMC_Enqueue_def mm_full_iff)

lemma mm_Enqueue_ok:
  assumes inv: "mm_inv b" and room: "mm_size b \<noteq> BoundedQueueSize"
  shows "\<exists>b'. MutexMPMC_Enqueue v b = (b', True) \<and> mm_inv b' \<and> mm_abs b' = mm_abs b @ [v]"
proof -
  have lt: "mm_size b < BoundedQueueSize" using inv room by (simp add: mm_inv_def)
  let ?b = "b\<lparr>mm_arr := (mm_arr b)[slot_of (mm_tail b) := v], mm_tail := mm_tail b + 1\<rparr>"
  have e: "MutexMPMC_Enqueue v b = (?b, True)"
    using room by (simp add: MutexMPMC_Enqueue_def mm_full_iff Let_def)
  have "unat (mm_tail b - mm_head b) < 2 ^ 64 - 1"
    using lt by (simp add: mm_size_def BoundedQueueSize_def)
  then have sz: "mm_size ?b = Suc (mm_size b)" using u64_distance_inc by (simp add: mm_size_def)
  then have i: "mm_inv ?b" using inv lt by (simp add: mm_inv_def)
  have "mm_tail b = mm_head b + of_nat (mm_size b)"
    unfolding mm_size_def by (rule u64_distance)
  then have "mm_abs ?b = mm_abs b @ [v]"
    using ring_list_write_end [OF lt, of "mm_arr b" "mm_head b" v] inv sz
    by (simp add: mm_abs_def mm_inv_def)
  with e i show ?thesis by blast
qed

lemma mm_Dequeue_empty: "mm_size b = 0 \<Longrightarrow> MutexMPMC_Dequeue b = (b, (0, False))"
  by (simp add: MutexMPMC_Dequeue_def mm_empty_iff)

lemma mm_Dequeue_ok:
  assumes inv: "mm_inv b" and ne: "mm_size b \<noteq> 0"
  shows "\<exists>b' x. MutexMPMC_Dequeue b = (b', (x, True)) \<and> mm_inv b' \<and> mm_abs b = x # mm_abs b'"
proof -
  let ?b = "b\<lparr>mm_arr := (mm_arr b)[slot_of (mm_head b) := 0], mm_head := mm_head b + 1\<rparr>"
  have e: "MutexMPMC_Dequeue b = (?b, (mm_arr b ! slot_of (mm_head b), True))"
    using ne by (simp add: MutexMPMC_Dequeue_def mm_empty_iff Let_def)
  obtain n where n: "mm_size b = Suc n" using ne by (cases "mm_size b") auto
  then have sz: "mm_size ?b = n" using u64_distance_dec by (simp add: mm_size_def)
  then have i: "mm_inv ?b" using inv n by (simp add: mm_inv_def)
  have "n < BoundedQueueSize" using inv n by (simp add: mm_inv_def)
  from ring_list_clear_front [OF this, of "mm_arr b" "mm_head b" 0]
  have "mm_abs b = mm_arr b ! slot_of (mm_head b) # mm_abs ?b"
    using sz by (simp add: mm_abs_def n ring_list_Suc)
  with e i show ?thesis by blast
qed

lemma mm_Enqueue_spec:
  assumes inv: "mm_inv b"
  shows "mm_inv (fst (MutexMPMC_Enqueue v b))
    \<and> (mm_abs (fst (MutexMPMC_Enqueue v b)), EnqRes (snd (MutexMPMC_Enqueue v b)))
      = spec_queue BoundedQueueSize (Enq v) (mm_abs b)"
proof (cases "mm_size b = BoundedQueueSize")
  case True
  with inv mm_Enqueue_full [of b v] show ?thesis by (simp add: mm_abs_def)
next
  case False
  with inv have "length (mm_abs b) < BoundedQueueSize" by (simp add: mm_abs_def mm_inv_def)
  with mm_Enqueue_ok [OF inv False, of v] show ?thesis by auto
qed

lemma mm_Dequeue_spec:
  assumes inv: "mm_inv b"
  shows "mm_inv (fst (MutexMPMC_Dequeue b))
    \<and> (mm_abs (fst (MutexMPMC_Dequeue b)),
        DeqRes (fst (snd (MutexMPMC_Dequeue b))) (snd (snd (MutexMPMC_Dequeue b))))
      = spec_queue BoundedQueueSize Deq (mm_abs b)"
proof (cases "mm_size b = 0")
  case True
  with inv show ?thesis by (simp add: mm_Dequeue_empty mm_abs_def)
next
  case False
  with mm_Dequeue_ok [OF inv] show ?thesis by force
qed

lemma mm_new: "mm_inv NewMutexMPMC" "mm_abs NewMutexMPMC = []"
  by (simp_all add: mm_inv_def mm_abs_def NewMutexMPMC_def mm_size_def)

interpretation mutex_mpmc: bounded_queue NewMutexMPMC MutexMPMC_Enqueue MutexMPMC_Dequeue
  mm_inv mm_abs BoundedQueueSize
  by unfold_locales (simp_all only: mm_new mm_Enqueue_spec mm_Dequeue_spec)

section \<open>MutexMPSC\<close>

record 'a MutexMPSC =
  ms_arr :: "'a list"
  ms_tail :: u64
  ms_head :: u64

definition NewMutexMPSC :: "'a::zero MutexMPSC" where
  "NewMutexMPSC = \<lparr>ms_arr = replicate BoundedQueueSize 0, ms_tail = 0, ms_head = 0\<rparr>"

definition MutexMPSC_Enqueue :: "'a \<Rightarrow> 'a MutexMPSC \<Rightarrow> 'a MutexMPSC \<times> bool" where
  "MutexMPSC_Enqueue v b =
     (if ms_tail b - ms_head b = of_nat BoundedQueueSize then (b, False)
      else
        let pos = slot_of (ms_tail b)
        in (b\<lparr>ms_arr := (ms_arr b)[pos := v], ms_tail := ms_tail b + 1\<rparr>, True))"

definition MutexMPSC_Dequeue :: "'a::zero MutexMPSC \<Rightarrow> 'a MutexMPSC \<times> ('a \<times> bool)" where
  "MutexMPSC_Dequeue b =
     (if ms_tail b - ms_head b = 0 then (b, (0, False))
      else
        let pos = slot_of (ms_head b);
            val = ms_arr b ! pos
        in (b\<lparr>ms_arr := (ms_arr b)[pos := 0], ms_head := ms_head b + 1\<rparr>, (val, True)))"

text \<open>The two types have the same fields and the same code: a renaming of one is the other.\<close>

definition mpsc_as_mpmc :: "'a MutexMPSC \<Rightarrow> 'a MutexMPMC" where
  "mpsc_as_mpmc b = \<lparr>mm_arr = ms_arr b, mm_tail = ms_tail b, mm_head = ms_head b\<rparr>"

lemma mpsc_as_mpmc_ops:
  "mpsc_as_mpmc NewMutexMPSC = NewMutexMPMC"
  "MutexMPMC_Enqueue v (mpsc_as_mpmc b) = map_prod mpsc_as_mpmc id (MutexMPSC_Enqueue v b)"
  "MutexMPMC_Dequeue (mpsc_as_mpmc b) = map_prod mpsc_as_mpmc id (MutexMPSC_Dequeue b)"
  by (simp_all add: mpsc_as_mpmc_def NewMutexMPSC_def NewMutexMPMC_def MutexMPMC_Enqueue_def
      MutexMPSC_Enqueue_def MutexMPMC_Dequeue_def MutexMPSC_Dequeue_def Let_def)

interpretation mutex_mpsc: bounded_queue NewMutexMPSC MutexMPSC_Enqueue MutexMPSC_Dequeue
  "\<lambda>b. mm_inv (mpsc_as_mpmc b)" "\<lambda>b. mm_abs (mpsc_as_mpmc b)" BoundedQueueSize
proof (unfold_locales, goal_cases)
  case (3 q v)
  then show ?case using mutex_mpmc.inv_enq [of "mpsc_as_mpmc q" v] by (simp add: mpsc_as_mpmc_ops)
next
  case (4 q)
  then show ?case using mutex_mpmc.inv_deq [of "mpsc_as_mpmc q"] by (simp add: mpsc_as_mpmc_ops)
next
  case (5 q v)
  then show ?case using mutex_mpmc.enq_spec [of "mpsc_as_mpmc q" v] by (simp add: mpsc_as_mpmc_ops)
next
  case (6 q)
  then show ?case using mutex_mpmc.deq_spec [of "mpsc_as_mpmc q"] by (simp add: mpsc_as_mpmc_ops)
qed (simp_all add: mpsc_as_mpmc_ops mm_new)

section \<open>Every run is a run of the bounded FIFO queue\<close>

text \<open>The contract, read off a sequence of calls in the order in which they hold the mutex.\<close>

theorem mutex_mpmc_refines_fifo:
  "case exec_ops (queue_impl MutexMPMC_Enqueue MutexMPMC_Dequeue) as NewMutexMPMC of (q, rs) \<Rightarrow>
     exec_ops (spec_queue BoundedQueueSize) as [] = (mm_abs q, rs)
     \<and> accepted as rs = delivered rs @ mm_abs q \<and> length (mm_abs q) \<le> BoundedQueueSize"
  by (auto dest: mutex_mpmc.refines_from_new mutex_mpmc.fifo_from_new split: prod.split)

text \<open>The same contract for \<^verbatim>\<open>MutexMPSC\<close>.\<close>

theorem mutex_mpsc_refines_fifo:
  "case exec_ops (queue_impl MutexMPSC_Enqueue MutexMPSC_Dequeue) as NewMutexMPSC of (q, rs) \<Rightarrow>
     exec_ops (spec_queue BoundedQueueSize) as [] = (mm_abs (mpsc_as_mpmc q), rs)
     \<and> accepted as rs = delivered rs @ mm_abs (mpsc_as_mpmc q)
     \<and> length (mm_abs (mpsc_as_mpmc q)) \<le> BoundedQueueSize"
  by (auto dest: mutex_mpsc.refines_from_new mutex_mpsc.fifo_from_new split: prod.split)

text \<open>Goroutines that call the methods of one queue: each call locks \<^verbatim>\<open>mu\<close>, runs its body and
  unlocks.\<close>

definition MutexMPMC_step :: "'a::zero queue_op mon_act \<Rightarrow> ('a queue_op, 'a MutexMPMC, 'a queue_result) monitor
    \<Rightarrow> ('a queue_op, 'a MutexMPMC, 'a queue_result) monitor option" where
  "MutexMPMC_step = mon_step (queue_body MutexMPMC_Enqueue MutexMPMC_Dequeue)"

definition MutexMPSC_step :: "'a::zero queue_op mon_act \<Rightarrow> ('a queue_op, 'a MutexMPSC, 'a queue_result) monitor
    \<Rightarrow> ('a queue_op, 'a MutexMPSC, 'a queue_result) monitor option" where
  "MutexMPSC_step = mon_step (queue_body MutexMPSC_Enqueue MutexMPSC_Dequeue)"

text \<open>The content of a queue after a log of calls: what the ring holds from its head, at most 1024
  values, and the values accepted are the values delivered followed by it.\<close>

definition fifo_view :: "('q \<Rightarrow> 'a list) \<Rightarrow> (tid \<times> 'a queue_op \<times> 'a queue_result) list \<Rightarrow> 'q \<Rightarrow> 'a list \<Rightarrow> bool" where
  "fifo_view content log q xs \<longleftrightarrow> content q = xs \<and> length xs \<le> BoundedQueueSize
     \<and> accepted (map (fst \<circ> snd) log) (map (snd \<circ> snd) log) = delivered (map (snd \<circ> snd) log) @ xs"

text \<open>\<^verbatim>\<open>MutexMPMC\<close> and \<^verbatim>\<open>MutexMPSC\<close>, called by any number of goroutines in any
  interleaving: no body ever starts while another is at work, every call that has returned is answered
  by one step of the bounded FIFO queue of capacity 1024 taken between its call and its return, the
  ring holds that queue's content, the values accepted are the values delivered followed by the
  content, and a goroutine that waits for the mutex never waits for nobody; the 64-bit counters may
  wrap around any number of times.\<close>

theorem mutex_queues_linearizable:
  "(run MutexMPMC_step as (mon_new NewMutexMPMC) = Some m \<longrightarrow>
      mon_linearized (queue_body MutexMPMC_Enqueue MutexMPMC_Dequeue) (spec_queue BoundedQueueSize) []
        (fifo_view mm_abs (mon_log m)) m)
   \<and> (run MutexMPSC_step bs (mon_new NewMutexMPSC) = Some k \<longrightarrow>
      mon_linearized (queue_body MutexMPSC_Enqueue MutexMPSC_Dequeue) (spec_queue BoundedQueueSize) []
        (fifo_view (mm_abs \<circ> mpsc_as_mpmc) (mon_log k)) k)"
  unfolding MutexMPMC_step_def MutexMPSC_step_def
  by (intro conjI impI; elim mon_linearized_mono [OF mutex_mpmc.concurrent] mon_linearized_mono [OF mutex_mpsc.concurrent])
    (simp_all add: fifo_view_def)

lemma mutex_queues_linearizable_witness:
  "\<exists>m k. run MutexMPMC_step (mon_meeting (Enq (7 :: nat)) Deq) (mon_new NewMutexMPMC) = Some m
     \<and> run MutexMPSC_step (mon_meeting (Enq (7 :: nat)) Deq) (mon_new NewMutexMPSC) = Some k
     \<and> mon_mine m 2 = [(2, Deq, DeqRes 7 True)] \<and> mon_mine k 2 = [(2, Deq, DeqRes 7 True)]"
proof -
  have l: "length (replicate BoundedQueueSize (0 :: nat)) = BoundedQueueSize" "of_nat BoundedQueueSize \<noteq> (0 :: u64)"
    by (simp_all add: BoundedQueueSize_def)
  obtain m where m: "run MutexMPMC_step (mon_meeting (Enq (7 :: nat)) Deq) (mon_new NewMutexMPMC) = Some m"
    "mon_pc m 2 = MonOut Deq (DeqRes 7 True)"
    using mon_meeting_runs [of "queue_body MutexMPMC_Enqueue MutexMPMC_Dequeue" "Enq 7" NewMutexMPMC _ "EnqRes True" Deq] l
      slot_of_less [of 0]
    unfolding MutexMPMC_step_def by (fastforce simp: MutexMPMC_Enqueue_def MutexMPMC_Dequeue_def NewMutexMPMC_def)
  obtain k where k: "run MutexMPSC_step (mon_meeting (Enq (7 :: nat)) Deq) (mon_new NewMutexMPSC) = Some k"
    "mon_pc k 2 = MonOut Deq (DeqRes 7 True)"
    using mon_meeting_runs [of "queue_body MutexMPSC_Enqueue MutexMPSC_Dequeue" "Enq 7" NewMutexMPSC _ "EnqRes True" Deq] l
      slot_of_less [of 0]
    unfolding MutexMPSC_step_def by (fastforce simp: MutexMPSC_Enqueue_def MutexMPSC_Dequeue_def NewMutexMPSC_def)
  show ?thesis
    using m k mutex_queues_linearizable [of "mon_meeting (Enq 7) Deq" m "mon_meeting (Enq 7) Deq" k]
    unfolding mon_linearized_def by blast
qed

end
