(* ===== verification/Queue_SPSC.thy ===== *)
theory Queue_SPSC
  imports Queue_Spec
begin

text \<open>
  The single-producer single-consumer rings of \<^verbatim>\<open>queue/lockfree_spsc.go\<close>, with the
  producer and the consumer running concurrently: one step is one access to a shared field.
  The auxiliary field \<open>sp_log\<close> records each operation with its result at the access that
  decides it; no step reads it.
\<close>

section \<open>SPSCQueue\<close>

datatype 'a prod_pc =
    PIdle
  | PLoadTail 'a          \<comment> \<open>\<open>t := s.tail.Load()\<close>\<close>
  | PLoadHead 'a u64      \<comment> \<open>\<open>diff := t - s.head.Load()\<close> and the test\<close>
  | PWrite 'a u64         \<comment> \<open>\<open>s.arr[t&queueMask] = v\<close>\<close>
  | PStore 'a u64         \<comment> \<open>\<open>s.tail.Store(t + 1)\<close>\<close>
  | PDone 'a bool

datatype 'a cons_pc =
    CIdle
  | CLoadHead             \<comment> \<open>\<open>h := s.head.Load()\<close>\<close>
  | CLoadTail u64         \<comment> \<open>\<open>diff := s.tail.Load() - h\<close> and the test\<close>
  | CRead u64             \<comment> \<open>\<open>v := s.arr[h&queueMask]\<close>\<close>
  | CStore u64 'a         \<comment> \<open>\<open>s.head.Store(h + 1)\<close>\<close>
  | CDone 'a bool

record 'a SPSCQueue =
  sp_arr :: "'a list"
  sp_head :: u64
  sp_tail :: u64
  sp_prod :: "'a prod_pc"
  sp_cons :: "'a cons_pc"
  sp_log :: "('a queue_op \<times> 'a queue_result) list"

definition NewSPSCQueue :: "'a::zero SPSCQueue" where
  "NewSPSCQueue = \<lparr>sp_arr = replicate BoundedQueueSize 0, sp_head = 0, sp_tail = 0,
     sp_prod = PIdle, sp_cons = CIdle, sp_log = []\<rparr>"

datatype 'a spsc_act = CallEnqueue 'a | CallDequeue | StepProd | StepCons | ReturnProd | ReturnCons

definition SPSC_Enqueue_step :: "'a SPSCQueue \<Rightarrow> 'a SPSCQueue option" where
  "SPSC_Enqueue_step s =
     (case sp_prod s of
        PLoadTail v \<Rightarrow> Some (s\<lparr>sp_prod := PLoadHead v (sp_tail s)\<rparr>)
      | PLoadHead v t \<Rightarrow>
          (let diff = t - sp_head s
           in if of_nat BoundedQueueSize \<le> diff
              then Some (s\<lparr>sp_prod := PDone v False, sp_log := sp_log s @ [(Enq v, EnqRes False)]\<rparr>)
              else Some (s\<lparr>sp_prod := PWrite v t\<rparr>))
      | PWrite v t \<Rightarrow> Some (s\<lparr>sp_arr := (sp_arr s)[slot_of t := v], sp_prod := PStore v t\<rparr>)
      | PStore v t \<Rightarrow> Some (s\<lparr>sp_tail := t + 1, sp_prod := PDone v True,
                             sp_log := sp_log s @ [(Enq v, EnqRes True)]\<rparr>)
      | _ \<Rightarrow> None)"

definition SPSC_Dequeue_step :: "'a::zero SPSCQueue \<Rightarrow> 'a SPSCQueue option" where
  "SPSC_Dequeue_step s =
     (case sp_cons s of
        CLoadHead \<Rightarrow> Some (s\<lparr>sp_cons := CLoadTail (sp_head s)\<rparr>)
      | CLoadTail h \<Rightarrow>
          (let diff = sp_tail s - h
           in if diff = 0
              then Some (s\<lparr>sp_cons := CDone 0 False, sp_log := sp_log s @ [(Deq, DeqRes 0 False)]\<rparr>)
              else Some (s\<lparr>sp_cons := CRead h\<rparr>))
      | CRead h \<Rightarrow> Some (s\<lparr>sp_cons := CStore h (sp_arr s ! slot_of h)\<rparr>)
      | CStore h v \<Rightarrow> Some (s\<lparr>sp_head := h + 1, sp_cons := CDone v True,
                             sp_log := sp_log s @ [(Deq, DeqRes v True)]\<rparr>)
      | _ \<Rightarrow> None)"

fun SPSC_step :: "'a::zero spsc_act \<Rightarrow> 'a SPSCQueue \<Rightarrow> 'a SPSCQueue option" where
  "SPSC_step (CallEnqueue v) s = (if sp_prod s = PIdle then Some (s\<lparr>sp_prod := PLoadTail v\<rparr>) else None)"
| "SPSC_step CallDequeue s = (if sp_cons s = CIdle then Some (s\<lparr>sp_cons := CLoadHead\<rparr>) else None)"
| "SPSC_step StepProd s = SPSC_Enqueue_step s"
| "SPSC_step StepCons s = SPSC_Dequeue_step s"
| "SPSC_step ReturnProd s =
     (case sp_prod s of PDone v b \<Rightarrow> Some (s\<lparr>sp_prod := PIdle\<rparr>) | _ \<Rightarrow> None)"
| "SPSC_step ReturnCons s =
     (case sp_cons s of CDone v b \<Rightarrow> Some (s\<lparr>sp_cons := CIdle\<rparr>) | _ \<Rightarrow> None)"

definition sp_size :: "'a SPSCQueue \<Rightarrow> nat" where
  "sp_size s = unat (sp_tail s - sp_head s)"

definition sp_abs :: "'a SPSCQueue \<Rightarrow> 'a list" where
  "sp_abs s = ring_list (sp_arr s) (sp_head s) (sp_size s)"

definition sp_prod_ok :: "'a SPSCQueue \<Rightarrow> bool" where
  "sp_prod_ok s \<longleftrightarrow>
     (case sp_prod s of
        PLoadHead v t \<Rightarrow> t = sp_tail s
      | PWrite v t \<Rightarrow> t = sp_tail s \<and> sp_size s < BoundedQueueSize
      | PStore v t \<Rightarrow> t = sp_tail s \<and> sp_size s < BoundedQueueSize \<and> sp_arr s ! slot_of t = v
      | PDone v b \<Rightarrow> enq_entries (sp_log s) \<noteq> [] \<and> last (enq_entries (sp_log s)) = (Enq v, EnqRes b)
      | _ \<Rightarrow> True)"

definition sp_cons_ok :: "'a SPSCQueue \<Rightarrow> bool" where
  "sp_cons_ok s \<longleftrightarrow>
     (case sp_cons s of
        CLoadTail h \<Rightarrow> h = sp_head s
      | CRead h \<Rightarrow> h = sp_head s \<and> 0 < sp_size s
      | CStore h v \<Rightarrow> h = sp_head s \<and> 0 < sp_size s \<and> sp_arr s ! slot_of h = v
      | CDone v b \<Rightarrow> deq_entries (sp_log s) \<noteq> [] \<and> last (deq_entries (sp_log s)) = (Deq, DeqRes v b)
      | _ \<Rightarrow> True)"

definition sp_inv :: "'a::zero SPSCQueue \<Rightarrow> bool" where
  "sp_inv s \<longleftrightarrow> length (sp_arr s) = BoundedQueueSize \<and> sp_size s \<le> BoundedQueueSize
     \<and> sp_prod_ok s \<and> sp_cons_ok s
     \<and> logged (spec_queue BoundedQueueSize) [] (sp_log s) (sp_abs s)"

lemma sp_size_frame [simp]:
  "sp_size (s\<lparr>sp_prod := p\<rparr>) = sp_size s"
  "sp_size (s\<lparr>sp_cons := c\<rparr>) = sp_size s"
  "sp_size (s\<lparr>sp_log := l\<rparr>) = sp_size s"
  "sp_size (s\<lparr>sp_arr := a\<rparr>) = sp_size s"
  by (simp_all add: sp_size_def)

lemma sp_abs_frame [simp]:
  "sp_abs (s\<lparr>sp_prod := p\<rparr>) = sp_abs s"
  "sp_abs (s\<lparr>sp_cons := c\<rparr>) = sp_abs s"
  "sp_abs (s\<lparr>sp_log := l\<rparr>) = sp_abs s"
  by (simp_all add: sp_abs_def)

lemma sp_ok_frame [simp]:
  "sp_cons_ok (s\<lparr>sp_prod := p\<rparr>) = sp_cons_ok s"
  "sp_prod_ok (s\<lparr>sp_cons := c\<rparr>) = sp_prod_ok s"
  by (auto simp: sp_cons_ok_def sp_prod_ok_def split: cons_pc.splits prod_pc.splits)

lemma sp_size_moved:
  "sp_size (s\<lparr>sp_tail := t\<rparr>) = unat (t - sp_head s)"
  "sp_size (s\<lparr>sp_head := h\<rparr>) = unat (sp_tail s - h)"
  by (simp_all add: sp_size_def)

lemma le_size_iff: "of_nat BoundedQueueSize \<le> (d :: u64) \<longleftrightarrow> BoundedQueueSize \<le> unat d"
  by (simp add: word_le_nat_alt unat_BoundedQueueSize)

lemma sp_tail_eq: "sp_tail s = sp_head s + of_nat (sp_size s)"
  unfolding sp_size_def by (rule u64_distance)

lemma sp_empty_iff: "sp_tail s - sp_head s = 0 \<longleftrightarrow> sp_size s = 0"
  by (simp add: sp_size_def unat_eq_0)

text \<open>The producer's write and publication.\<close>

lemma sp_write_keeps:
  assumes inv: "sp_inv s" and pc: "sp_prod s = PWrite v t"
  shows "sp_inv (s\<lparr>sp_arr := (sp_arr s)[slot_of t := v], sp_prod := PStore v t\<rparr>)" (is "sp_inv ?s")
proof -
  have t: "t = sp_head s + of_nat (sp_size s)" and lt: "sp_size s < BoundedQueueSize"
    and len: "length (sp_arr s) = BoundedQueueSize"
    using inv pc sp_tail_eq [of s] by (simp_all add: sp_inv_def sp_prod_ok_def)
  have abs: "sp_abs ?s = sp_abs s"
    using ring_list_write_free [OF lt] by (simp add: sp_abs_def t)
  have "slot_of t \<noteq> slot_of (sp_head s)" if "0 < sp_size s"
    using slot_front_not_end [OF that lt] t by simp
  then have "sp_cons_ok ?s" using inv
    by (auto simp: sp_inv_def sp_cons_ok_def split: cons_pc.splits)
  then show ?thesis using inv pc abs len slot_of_less
    by (simp add: sp_inv_def sp_prod_ok_def)
qed

lemma sp_publish_keeps:
  assumes inv: "sp_inv s" and pc: "sp_prod s = PStore v t"
  shows "sp_inv (s\<lparr>sp_tail := t + 1, sp_prod := PDone v True,
      sp_log := sp_log s @ [(Enq v, EnqRes True)]\<rparr>)" (is "sp_inv ?s")
proof -
  have t: "t = sp_tail s" and lt: "sp_size s < BoundedQueueSize" and val: "sp_arr s ! slot_of t = v"
    using inv pc by (auto simp: sp_inv_def sp_prod_ok_def)
  have "unat (sp_tail s - sp_head s) < 2 ^ 64 - 1"
    using lt by (simp add: sp_size_def BoundedQueueSize_def)
  then have sz: "sp_size ?s = Suc (sp_size s)" using u64_distance_inc t by (simp add: sp_size_def)
  have "sp_abs ?s = ring_list (sp_arr s) (sp_head s) (Suc (sp_size s))"
    using sz by (simp add: sp_abs_def)
  then have abs: "sp_abs ?s = sp_abs s @ [v]"
    using val t sp_tail_eq [of s] by (simp add: sp_abs_def ring_list_snoc)
  have "length (sp_abs s) < BoundedQueueSize" using lt by (simp add: sp_abs_def)
  then have log: "logged (spec_queue BoundedQueueSize) [] (sp_log ?s) (sp_abs ?s)"
    using inv abs by (auto simp: sp_inv_def intro: logged_snoc)
  have "sp_cons_ok ?s" using inv sz
    by (auto simp: sp_inv_def sp_cons_ok_def split: cons_pc.splits)
  then show ?thesis using inv lt sz log by (simp add: sp_inv_def sp_prod_ok_def)
qed

text \<open>The consumer's publication.\<close>

lemma sp_take_keeps:
  assumes inv: "sp_inv s" and pc: "sp_cons s = CStore h v"
  shows "sp_inv (s\<lparr>sp_head := h + 1, sp_cons := CDone v True,
      sp_log := sp_log s @ [(Deq, DeqRes v True)]\<rparr>)" (is "sp_inv ?s")
proof -
  have h: "h = sp_head s" and pos: "0 < sp_size s" and val: "sp_arr s ! slot_of h = v"
    using inv pc by (auto simp: sp_inv_def sp_cons_ok_def)
  obtain n where n: "sp_size s = Suc n" using pos by (cases "sp_size s") auto
  then have sz: "sp_size ?s = n" using u64_distance_dec h by (simp add: sp_size_def)
  have "sp_abs ?s = ring_list (sp_arr s) (h + 1) n" using sz by (simp add: sp_abs_def)
  then have abs: "sp_abs s = v # sp_abs ?s" using val h by (simp add: sp_abs_def n ring_list_Suc)
  then have log: "logged (spec_queue BoundedQueueSize) [] (sp_log ?s) (sp_abs ?s)"
    using inv by (auto simp: sp_inv_def intro: logged_snoc)
  have "sp_prod_ok ?s" using inv sz n
    by (auto simp: sp_inv_def sp_prod_ok_def split: prod_pc.splits)
  then show ?thesis using inv n sz log by (simp add: sp_inv_def sp_cons_ok_def)
qed

text \<open>The two refusals.\<close>

lemma sp_full_keeps:
  assumes inv: "sp_inv s" and pc: "sp_prod s = PLoadHead v t"
    and full: "of_nat BoundedQueueSize \<le> t - sp_head s"
  shows "sp_inv (s\<lparr>sp_prod := PDone v False, sp_log := sp_log s @ [(Enq v, EnqRes False)]\<rparr>)"
    (is "sp_inv ?s")
proof -
  have abs: "sp_abs ?s = sp_abs s" "sp_size ?s = sp_size s" by simp_all
  have "t = sp_tail s" using inv pc by (simp add: sp_inv_def sp_prod_ok_def)
  then have "sp_size s = BoundedQueueSize"
    using full inv by (simp add: sp_inv_def sp_size_def le_size_iff)
  then have "length (sp_abs s) = BoundedQueueSize" by (simp add: sp_abs_def)
  then have "logged (spec_queue BoundedQueueSize) [] (sp_log ?s) (sp_abs ?s)"
    using inv abs by (auto simp: sp_inv_def intro: logged_snoc)
  moreover have "sp_cons_ok ?s" using inv abs
    by (auto simp: sp_inv_def sp_cons_ok_def split: cons_pc.splits)
  ultimately show ?thesis using inv abs by (simp add: sp_inv_def sp_prod_ok_def)
qed

lemma sp_empty_keeps:
  assumes inv: "sp_inv s" and pc: "sp_cons s = CLoadTail h" and empty: "sp_tail s - h = 0"
  shows "sp_inv (s\<lparr>sp_cons := CDone 0 False, sp_log := sp_log s @ [(Deq, DeqRes 0 False)]\<rparr>)"
    (is "sp_inv ?s")
proof -
  have abs: "sp_abs ?s = sp_abs s" "sp_size ?s = sp_size s" by simp_all
  have "h = sp_head s" using inv pc by (simp add: sp_inv_def sp_cons_ok_def)
  then have "sp_size s = 0" using empty by (simp add: sp_size_def)
  then have "sp_abs s = []" by (simp add: sp_abs_def)
  then have "logged (spec_queue BoundedQueueSize) [] (sp_log ?s) (sp_abs ?s)"
    using inv abs by (auto simp: sp_inv_def intro: logged_snoc)
  moreover have "sp_prod_ok ?s" using inv abs
    by (auto simp: sp_inv_def sp_prod_ok_def split: prod_pc.splits)
  ultimately show ?thesis using inv abs by (simp add: sp_inv_def sp_cons_ok_def)
qed

text \<open>All other steps move one program counter.\<close>

lemma sp_prod_goto:
  assumes "sp_inv s" and "sp_prod_ok (s\<lparr>sp_prod := p\<rparr>)"
  shows "sp_inv (s\<lparr>sp_prod := p\<rparr>)"
  using assms by (simp add: sp_inv_def)

lemma sp_cons_goto:
  assumes "sp_inv s" and "sp_cons_ok (s\<lparr>sp_cons := p\<rparr>)"
  shows "sp_inv (s\<lparr>sp_cons := p\<rparr>)"
  using assms by (simp add: sp_inv_def)

lemma sp_Enqueue_step_keeps:
  assumes inv: "sp_inv s" and st: "SPSC_Enqueue_step s = Some s'"
  shows "sp_inv s'"
proof (cases "sp_prod s")
  case (PLoadTail v)
  with st sp_prod_goto [OF inv, of "PLoadHead v (sp_tail s)"] show ?thesis
    by (auto simp: SPSC_Enqueue_step_def sp_prod_ok_def)
next
  case (PLoadHead v t)
  show ?thesis
  proof (cases "of_nat BoundedQueueSize \<le> t - sp_head s")
    case True
    with st PLoadHead sp_full_keeps [OF inv PLoadHead True] show ?thesis
      by (auto simp: SPSC_Enqueue_step_def Let_def)
  next
    case False
    have "t = sp_tail s" using inv PLoadHead by (simp add: sp_inv_def sp_prod_ok_def)
    with False have "sp_prod_ok (s\<lparr>sp_prod := PWrite v t\<rparr>)"
      by (simp add: sp_prod_ok_def sp_size_def le_size_iff)
    with sp_prod_goto [OF inv this] st PLoadHead False show ?thesis
      by (auto simp: SPSC_Enqueue_step_def Let_def)
  qed
next
  case (PWrite v t)
  with st sp_write_keeps [OF inv PWrite] show ?thesis by (auto simp: SPSC_Enqueue_step_def)
next
  case (PStore v t)
  with st sp_publish_keeps [OF inv PStore] show ?thesis by (auto simp: SPSC_Enqueue_step_def)
qed (use st in \<open>simp_all add: SPSC_Enqueue_step_def\<close>)

lemma sp_Dequeue_step_keeps:
  assumes inv: "sp_inv s" and st: "SPSC_Dequeue_step s = Some s'"
  shows "sp_inv s'"
proof (cases "sp_cons s")
  case CLoadHead
  with st sp_cons_goto [OF inv, of "CLoadTail (sp_head s)"] show ?thesis
    by (auto simp: SPSC_Dequeue_step_def sp_cons_ok_def)
next
  case (CLoadTail h)
  have h: "h = sp_head s" using inv CLoadTail by (simp add: sp_inv_def sp_cons_ok_def)
  show ?thesis
  proof (cases "sp_tail s - h = 0")
    case True
    with st CLoadTail sp_empty_keeps [OF inv CLoadTail True] show ?thesis
      by (auto simp: SPSC_Dequeue_step_def Let_def)
  next
    case False
    with h have "sp_cons_ok (s\<lparr>sp_cons := CRead h\<rparr>)"
      using sp_empty_iff [of s] by (simp add: sp_cons_ok_def sp_size_def)
    with sp_cons_goto [OF inv this] st CLoadTail False show ?thesis
      by (auto simp: SPSC_Dequeue_step_def Let_def)
  qed
next
  case (CRead h)
  with inv have "sp_cons_ok (s\<lparr>sp_cons := CStore h (sp_arr s ! slot_of h)\<rparr>)"
    by (simp add: sp_inv_def sp_cons_ok_def sp_size_def)
  with sp_cons_goto [OF inv this] st CRead show ?thesis by (auto simp: SPSC_Dequeue_step_def)
next
  case (CStore h v)
  with st sp_take_keeps [OF inv CStore] show ?thesis by (auto simp: SPSC_Dequeue_step_def)
qed (use st in \<open>simp_all add: SPSC_Dequeue_step_def\<close>)

lemma sp_inv_step:
  assumes inv: "sp_inv s" and st: "SPSC_step a s = Some s'"
  shows "sp_inv s'"
proof (cases a)
  case StepProd
  with st sp_Enqueue_step_keeps [OF inv] show ?thesis by simp
next
  case StepCons
  with st sp_Dequeue_step_keeps [OF inv] show ?thesis by simp
qed (use st sp_prod_goto [OF inv] sp_cons_goto [OF inv] in
    \<open>auto simp: sp_prod_ok_def sp_cons_ok_def split: if_splits prod_pc.splits cons_pc.splits\<close>)

interpretation spsc: machine "\<lambda>s. s = NewSPSCQueue" SPSC_step sp_inv
proof unfold_locales
  show "s = NewSPSCQueue \<Longrightarrow> sp_inv s" for s :: "'a SPSCQueue"
    by (simp add: sp_inv_def NewSPSCQueue_def sp_size_def sp_abs_def sp_prod_ok_def sp_cons_ok_def
        logged_Nil)
  show "sp_inv s \<Longrightarrow> SPSC_step a s = Some s' \<Longrightarrow> sp_inv s'" for s :: "'a SPSCQueue" and a s'
    by (rule sp_inv_step)
qed

lemma sp_no_slot_clash:
  assumes "sp_inv s" and "sp_prod s = PWrite v t" and "sp_cons s = CRead h"
  shows "slot_of t \<noteq> slot_of h"
  using assms slot_front_not_end [of "sp_size s" "sp_head s"] sp_tail_eq [of s]
  by (simp add: sp_inv_def sp_prod_ok_def sp_cons_ok_def)

lemma sp_done_logged:
  "sp_inv s \<Longrightarrow> sp_prod s = PDone v b \<Longrightarrow>
     enq_entries (sp_log s) \<noteq> [] \<and> last (enq_entries (sp_log s)) = (Enq v, EnqRes b)"
  "sp_inv s \<Longrightarrow> sp_cons s = CDone v b \<Longrightarrow>
     deq_entries (sp_log s) \<noteq> [] \<and> last (deq_entries (sp_log s)) = (Deq, DeqRes v b)"
  by (simp_all add: sp_inv_def sp_prod_ok_def sp_cons_ok_def)

text \<open>C1: The single-producer single-consumer ring is linearizable: after every interleaving of
  its two goroutines, the operations in the order of their deciding accesses, with the results
  they return, are a run of the bounded FIFO queue of capacity 1024 that ends in the ring's
  content (so every value delivered was accepted, once and in order, also after the counters wrap
  around); each finished call returns the result recorded for it; and the producer never writes
  the slot the consumer is reading.\<close>

theorem spsc_linearizable:
  assumes "run SPSC_step as NewSPSCQueue = Some s"
  shows "exec_ops (spec_queue BoundedQueueSize) (map fst (sp_log s)) [] = (sp_abs s, map snd (sp_log s))
    \<and> accepted (map fst (sp_log s)) (map snd (sp_log s)) = delivered (map snd (sp_log s)) @ sp_abs s
    \<and> length (sp_abs s) \<le> BoundedQueueSize
    \<and> (\<forall>v b. sp_prod s = PDone v b \<longrightarrow>
          enq_entries (sp_log s) \<noteq> [] \<and> last (enq_entries (sp_log s)) = (Enq v, EnqRes b))
    \<and> (\<forall>v b. sp_cons s = CDone v b \<longrightarrow>
          deq_entries (sp_log s) \<noteq> [] \<and> last (deq_entries (sp_log s)) = (Deq, DeqRes v b))
    \<and> (\<forall>v t h. sp_prod s = PWrite v t \<longrightarrow> sp_cons s = CRead h \<longrightarrow> slot_of t \<noteq> slot_of h)"
proof -
  have inv: "sp_inv s" by (rule spsc.invariant [OF refl assms])
  then have log: "exec_ops (spec_queue BoundedQueueSize) (map fst (sp_log s)) []
      = (sp_abs s, map snd (sp_log s))"
    by (simp add: sp_inv_def logged_def)
  show ?thesis
    using log spec_queue_fifo [OF log] spec_queue_bounded [OF log] sp_no_slot_clash [OF inv]
      sp_done_logged [OF inv] by simp
qed

lemma spsc_linearizable_witness:
  "\<exists>s. run SPSC_step
      [CallEnqueue (7::nat), StepProd, StepProd, StepProd, CallDequeue, StepCons, StepProd,
       StepCons, StepCons, StepCons] NewSPSCQueue = Some s
     \<and> sp_cons s = CDone 7 True
     \<and> last (deq_entries (sp_log s)) = (Deq, DeqRes 7 True)"
proof -
  have l: "length (replicate BoundedQueueSize (0::nat)) = BoundedQueueSize" "0 < BoundedQueueSize"
    "of_nat BoundedQueueSize \<noteq> (0::u64)"
    by (simp_all add: BoundedQueueSize_def)
  obtain s where r: "run SPSC_step
      [CallEnqueue (7::nat), StepProd, StepProd, StepProd, CallDequeue, StepCons, StepProd,
       StepCons, StepCons, StepCons] NewSPSCQueue = Some s"
    and c: "sp_cons s = CDone 7 True"
    using l slot_of_less [of 0]
    by (simp add: NewSPSCQueue_def SPSC_Enqueue_step_def SPSC_Dequeue_step_def)
  show ?thesis using r c spsc_linearizable [OF r] by blast
qed

section \<open>CachedSPSCQueue\<close>

text \<open>
  Each side keeps its own cursor and a cached copy of the other side's published one, and reads
  the published cursor only when the cached copy says full (empty). A step may include accesses
  to the fields that only its own goroutine reads or writes.
\<close>

datatype 'a cprod_pc =
    CPIdle
  | CPTest 'a             \<comment> \<open>\<open>t := s.producerTail; if t-s.cachedHead >= BoundedQueueSize\<close>\<close>
  | CPRefresh 'a u64      \<comment> \<open>\<open>s.cachedHead = s.publishedHead.Load()\<close> and the second test\<close>
  | CPWrite 'a u64        \<comment> \<open>\<open>s.arr[t&queueMask] = v\<close>\<close>
  | CPPublish 'a u64      \<comment> \<open>\<open>s.producerTail = t + 1; s.publishedTail.Store(t + 1)\<close>\<close>
  | CPDone 'a bool

datatype 'a ccons_pc =
    CCIdle
  | CCTest
  | CCRefresh u64
  | CCRead u64
  | CCPublish u64 'a
  | CCDone 'a bool

record 'a CachedSPSCQueue =
  csp_arr :: "'a list"
  producerTail :: u64
  cachedHead :: u64
  consumerHead :: u64
  cachedTail :: u64
  publishedHead :: u64
  publishedTail :: u64
  csp_prod :: "'a cprod_pc"
  csp_cons :: "'a ccons_pc"
  csp_log :: "('a queue_op \<times> 'a queue_result) list"

definition NewCachedSPSCQueue :: "'a::zero CachedSPSCQueue" where
  "NewCachedSPSCQueue = \<lparr>csp_arr = replicate BoundedQueueSize 0, producerTail = 0, cachedHead = 0,
     consumerHead = 0, cachedTail = 0, publishedHead = 0, publishedTail = 0,
     csp_prod = CPIdle, csp_cons = CCIdle, csp_log = []\<rparr>"

definition Cached_Enqueue_step :: "'a CachedSPSCQueue \<Rightarrow> 'a CachedSPSCQueue option" where
  "Cached_Enqueue_step s =
     (case csp_prod s of
        CPTest v \<Rightarrow>
          (let t = producerTail s
           in if of_nat BoundedQueueSize \<le> t - cachedHead s
              then Some (s\<lparr>csp_prod := CPRefresh v t\<rparr>)
              else Some (s\<lparr>csp_prod := CPWrite v t\<rparr>))
      | CPRefresh v t \<Rightarrow>
          (let s1 = s\<lparr>cachedHead := publishedHead s\<rparr>
           in if of_nat BoundedQueueSize \<le> t - cachedHead s1
              then Some (s1\<lparr>csp_prod := CPDone v False, csp_log := csp_log s @ [(Enq v, EnqRes False)]\<rparr>)
              else Some (s1\<lparr>csp_prod := CPWrite v t\<rparr>))
      | CPWrite v t \<Rightarrow> Some (s\<lparr>csp_arr := (csp_arr s)[slot_of t := v], csp_prod := CPPublish v t\<rparr>)
      | CPPublish v t \<Rightarrow> Some (s\<lparr>producerTail := t + 1, publishedTail := t + 1,
                                csp_prod := CPDone v True,
                                csp_log := csp_log s @ [(Enq v, EnqRes True)]\<rparr>)
      | _ \<Rightarrow> None)"

definition Cached_Dequeue_step :: "'a::zero CachedSPSCQueue \<Rightarrow> 'a CachedSPSCQueue option" where
  "Cached_Dequeue_step s =
     (case csp_cons s of
        CCTest \<Rightarrow>
          (let h = consumerHead s
           in if cachedTail s - h = 0
              then Some (s\<lparr>csp_cons := CCRefresh h\<rparr>)
              else Some (s\<lparr>csp_cons := CCRead h\<rparr>))
      | CCRefresh h \<Rightarrow>
          (let s1 = s\<lparr>cachedTail := publishedTail s\<rparr>
           in if cachedTail s1 - h = 0
              then Some (s1\<lparr>csp_cons := CCDone 0 False, csp_log := csp_log s @ [(Deq, DeqRes 0 False)]\<rparr>)
              else Some (s1\<lparr>csp_cons := CCRead h\<rparr>))
      | CCRead h \<Rightarrow> Some (s\<lparr>csp_cons := CCPublish h (csp_arr s ! slot_of h)\<rparr>)
      | CCPublish h v \<Rightarrow> Some (s\<lparr>consumerHead := h + 1, publishedHead := h + 1,
                                csp_cons := CCDone v True,
                                csp_log := csp_log s @ [(Deq, DeqRes v True)]\<rparr>)
      | _ \<Rightarrow> None)"

fun Cached_step :: "'a::zero spsc_act \<Rightarrow> 'a CachedSPSCQueue \<Rightarrow> 'a CachedSPSCQueue option" where
  "Cached_step (CallEnqueue v) s = (if csp_prod s = CPIdle then Some (s\<lparr>csp_prod := CPTest v\<rparr>) else None)"
| "Cached_step CallDequeue s = (if csp_cons s = CCIdle then Some (s\<lparr>csp_cons := CCTest\<rparr>) else None)"
| "Cached_step StepProd s = Cached_Enqueue_step s"
| "Cached_step StepCons s = Cached_Dequeue_step s"
| "Cached_step ReturnProd s =
     (case csp_prod s of CPDone v b \<Rightarrow> Some (s\<lparr>csp_prod := CPIdle\<rparr>) | _ \<Rightarrow> None)"
| "Cached_step ReturnCons s =
     (case csp_cons s of CCDone v b \<Rightarrow> Some (s\<lparr>csp_cons := CCIdle\<rparr>) | _ \<Rightarrow> None)"

text \<open>The plain ring a cached ring stands for: the published cursors are its cursors, and a
  refresh is its load of the opposite cursor.\<close>

fun prod_view :: "'a cprod_pc \<Rightarrow> 'a prod_pc" where
  "prod_view CPIdle = PIdle"
| "prod_view (CPTest v) = PLoadTail v"
| "prod_view (CPRefresh v t) = PLoadHead v t"
| "prod_view (CPWrite v t) = PWrite v t"
| "prod_view (CPPublish v t) = PStore v t"
| "prod_view (CPDone v b) = PDone v b"

fun cons_view :: "'a ccons_pc \<Rightarrow> 'a cons_pc" where
  "cons_view CCIdle = CIdle"
| "cons_view CCTest = CLoadHead"
| "cons_view (CCRefresh h) = CLoadTail h"
| "cons_view (CCRead h) = CRead h"
| "cons_view (CCPublish h v) = CStore h v"
| "cons_view (CCDone v b) = CDone v b"

definition csp_view :: "'a CachedSPSCQueue \<Rightarrow> 'a SPSCQueue" where
  "csp_view s = \<lparr>sp_arr = csp_arr s, sp_head = publishedHead s, sp_tail = publishedTail s,
     sp_prod = prod_view (csp_prod s), sp_cons = cons_view (csp_cons s), sp_log = csp_log s\<rparr>"

text \<open>The states of a call that has passed its test.\<close>

fun prod_reserved :: "'a cprod_pc \<Rightarrow> bool" where
  "prod_reserved (CPWrite v t) = True"
| "prod_reserved (CPPublish v t) = True"
| "prod_reserved _ = False"

fun cons_reserved :: "'a ccons_pc \<Rightarrow> bool" where
  "cons_reserved (CCRead h) = True"
| "cons_reserved (CCPublish h v) = True"
| "cons_reserved _ = False"

text \<open>A cached head lies behind the published head and a cached tail behind the published tail:
  the producer sees at least the ring's content, the consumer at most that.\<close>

definition csp_cursors :: "'a CachedSPSCQueue \<Rightarrow> bool" where
  "csp_cursors s \<longleftrightarrow> producerTail s = publishedTail s \<and> consumerHead s = publishedHead s
     \<and> sp_size (csp_view s) \<le> unat (publishedTail s - cachedHead s)
     \<and> unat (publishedTail s - cachedHead s) \<le> BoundedQueueSize
     \<and> unat (cachedTail s - publishedHead s) \<le> sp_size (csp_view s)
     \<and> (prod_reserved (csp_prod s) \<longrightarrow> unat (publishedTail s - cachedHead s) < BoundedQueueSize)
     \<and> (cons_reserved (csp_cons s) \<longrightarrow> 0 < unat (cachedTail s - publishedHead s))"

definition csp_inv :: "'a::zero CachedSPSCQueue \<Rightarrow> bool" where
  "csp_inv s \<longleftrightarrow> sp_inv (csp_view s) \<and> csp_cursors s"

text \<open>A step of the cached ring is a schedule of the plain one, step by step.\<close>

definition plain_acts :: "'a spsc_act \<Rightarrow> 'a CachedSPSCQueue \<Rightarrow> 'a spsc_act list" where
  "plain_acts a s =
     (case a of
        StepProd \<Rightarrow> (case csp_prod s of
            CPTest v \<Rightarrow> (if of_nat BoundedQueueSize \<le> producerTail s - cachedHead s
                         then [StepProd] else [StepProd, StepProd])
          | _ \<Rightarrow> [StepProd])
      | StepCons \<Rightarrow> (case csp_cons s of
            CCTest \<Rightarrow> (if cachedTail s - consumerHead s = 0
                       then [StepCons] else [StepCons, StepCons])
          | _ \<Rightarrow> [StepCons])
      | _ \<Rightarrow> [a])"

lemma csp_size: "sp_size (csp_view s) = unat (publishedTail s - publishedHead s)"
  by (simp add: sp_size_def csp_view_def)

lemma csp_pc_view [simp]:
  "prod_view p = PIdle \<longleftrightarrow> p = CPIdle"
  "cons_view c = CIdle \<longleftrightarrow> c = CCIdle"
  by (cases p; simp) (cases c; simp)

lemma Cached_Enqueue_simulates:
  assumes inv: "csp_inv s" and st: "Cached_Enqueue_step s = Some s'"
  shows "run SPSC_step (plain_acts StepProd s) (csp_view s) = Some (csp_view s')"
proof (cases "csp_prod s")
  case (CPTest v)
  have "\<not> of_nat BoundedQueueSize \<le> publishedTail s - publishedHead s"
    if "\<not> of_nat BoundedQueueSize \<le> producerTail s - cachedHead s"
    using that inv by (simp add: csp_inv_def csp_cursors_def csp_size le_size_iff)
  with CPTest st inv show ?thesis
    by (auto simp: Cached_Enqueue_step_def SPSC_Enqueue_step_def plain_acts_def csp_view_def
        csp_inv_def csp_cursors_def Let_def split: if_splits)
qed (use st in \<open>auto simp: Cached_Enqueue_step_def SPSC_Enqueue_step_def plain_acts_def
       csp_view_def Let_def split: if_splits\<close>)

lemma Cached_Dequeue_simulates:
  assumes inv: "csp_inv s" and st: "Cached_Dequeue_step s = Some s'"
  shows "run SPSC_step (plain_acts StepCons s) (csp_view s) = Some (csp_view s')"
proof (cases "csp_cons s")
  case CCTest
  have "publishedTail s - publishedHead s \<noteq> 0" if "cachedTail s - consumerHead s \<noteq> 0"
    using that inv by (simp add: csp_inv_def csp_cursors_def csp_size unat_eq_0 [symmetric])
  with CCTest st inv show ?thesis
    by (auto simp: Cached_Dequeue_step_def SPSC_Dequeue_step_def plain_acts_def csp_view_def
        csp_inv_def csp_cursors_def Let_def split: if_splits)
qed (use st in \<open>auto simp: Cached_Dequeue_step_def SPSC_Dequeue_step_def plain_acts_def
       csp_view_def Let_def split: if_splits\<close>)

lemma Cached_simulates:
  assumes inv: "csp_inv s" and st: "Cached_step a s = Some s'"
  shows "run SPSC_step (plain_acts a s) (csp_view s) = Some (csp_view s')"
proof (cases a)
  case StepProd
  with st Cached_Enqueue_simulates [OF inv] show ?thesis by simp
next
  case StepCons
  with st Cached_Dequeue_simulates [OF inv] show ?thesis by simp
qed (use st in \<open>auto simp: plain_acts_def csp_view_def split: if_splits cprod_pc.splits ccons_pc.splits\<close>)

text \<open>The cached copies keep their side of the published cursors.\<close>

lemma Cached_Enqueue_cursors:
  assumes inv: "csp_inv s" and st: "Cached_Enqueue_step s = Some s'"
  shows "csp_cursors s'"
proof (cases "csp_prod s")
  case (CPRefresh v t)
  then have t: "t = publishedTail s" and le: "unat (publishedTail s - publishedHead s) \<le> BoundedQueueSize"
    using inv by (simp_all add: csp_inv_def sp_inv_def sp_prod_ok_def csp_size)
       (simp add: csp_view_def)
  with CPRefresh st inv show ?thesis
    by (auto simp: Cached_Enqueue_step_def csp_inv_def csp_cursors_def csp_size le_size_iff Let_def
        split: if_splits)
next
  case (CPPublish v t)
  then have t: "t = publishedTail s"
    and lt: "unat (publishedTail s - cachedHead s) < BoundedQueueSize"
    and le: "unat (publishedTail s - publishedHead s) \<le> unat (publishedTail s - cachedHead s)"
    using inv by (simp_all add: csp_inv_def sp_inv_def sp_prod_ok_def csp_cursors_def csp_size)
      (simp add: csp_view_def)
  then have "unat (t + 1 - cachedHead s) = Suc (unat (t - cachedHead s))"
    "unat (t + 1 - publishedHead s) = Suc (unat (t - publishedHead s))"
    using u64_distance_inc [of t] by (simp_all add: BoundedQueueSize_def)
  with CPPublish st inv t lt show ?thesis
    by (auto simp: Cached_Enqueue_step_def csp_inv_def csp_cursors_def csp_size)
qed (use st inv in \<open>auto simp: Cached_Enqueue_step_def csp_inv_def csp_cursors_def csp_size
       le_size_iff Let_def split: if_splits\<close>)

lemma Cached_Dequeue_cursors:
  assumes inv: "csp_inv s" and st: "Cached_Dequeue_step s = Some s'"
  shows "csp_cursors s'"
proof (cases "csp_cons s")
  case (CCRefresh h)
  then have h: "h = publishedHead s"
    using inv by (simp add: csp_inv_def sp_inv_def sp_cons_ok_def csp_view_def)
  with CCRefresh st inv show ?thesis
    by (auto simp: Cached_Dequeue_step_def csp_inv_def csp_cursors_def csp_size unat_gt_0 Let_def
        split: if_splits)
next
  case (CCPublish h v)
  then have h: "h = publishedHead s" and pos: "0 < unat (cachedTail s - publishedHead s)"
    and le: "unat (cachedTail s - publishedHead s) \<le> unat (publishedTail s - publishedHead s)"
    using inv by (simp_all add: csp_inv_def sp_inv_def sp_cons_ok_def csp_cursors_def csp_size)
      (simp add: csp_view_def)
  obtain m n where m: "unat (cachedTail s - h) = Suc m" and n: "unat (publishedTail s - h) = Suc n"
    using pos le h by (metis Suc_pred le_zero_eq neq0_conv)
  then have "unat (cachedTail s - (h + 1)) = m" "unat (publishedTail s - (h + 1)) = n"
    by (simp_all only: u64_distance_dec)
  with CCPublish st inv h m n show ?thesis
    by (auto simp: Cached_Dequeue_step_def csp_inv_def csp_cursors_def csp_size)
qed (use st inv in \<open>auto simp: Cached_Dequeue_step_def csp_inv_def csp_cursors_def csp_size
       unat_gt_0 Let_def split: if_splits\<close>)

lemma Cached_call_cursors:
  "csp_cursors s \<Longrightarrow> prod_reserved p \<longrightarrow> prod_reserved (csp_prod s)
     \<Longrightarrow> csp_cursors (s\<lparr>csp_prod := p\<rparr>)"
  "csp_cursors s \<Longrightarrow> cons_reserved c \<longrightarrow> cons_reserved (csp_cons s)
     \<Longrightarrow> csp_cursors (s\<lparr>csp_cons := c\<rparr>)"
  by (simp_all add: csp_cursors_def csp_size)

lemma csp_inv_step:
  assumes inv: "csp_inv s" and st: "Cached_step a s = Some s'"
  shows "csp_inv s'"
proof -
  have "sp_inv (csp_view s')"
    using spsc.inv_run [OF Cached_simulates [OF inv st]] inv by (simp add: csp_inv_def)
  moreover have cur: "csp_cursors s" using inv by (simp add: csp_inv_def)
  have "csp_cursors s'"
  proof (cases a)
    case StepProd
    with st Cached_Enqueue_cursors [OF inv] show ?thesis by simp
  next
    case StepCons
    with st Cached_Dequeue_cursors [OF inv] show ?thesis by simp
  qed (use st Cached_call_cursors [OF cur] in
      \<open>auto split: if_splits cprod_pc.splits ccons_pc.splits\<close>)
  ultimately show ?thesis by (simp add: csp_inv_def)
qed

interpretation cached_spsc: machine "\<lambda>s. s = NewCachedSPSCQueue" Cached_step csp_inv
proof unfold_locales
  show "s = NewCachedSPSCQueue \<Longrightarrow> csp_inv s" for s :: "'a CachedSPSCQueue"
  proof -
    assume s: "s = NewCachedSPSCQueue"
    then have "csp_view s = NewSPSCQueue"
      by (simp add: csp_view_def NewCachedSPSCQueue_def NewSPSCQueue_def)
    moreover have "sp_inv (NewSPSCQueue :: 'a SPSCQueue)" by (rule spsc.inv_init) (rule refl)
    ultimately show "csp_inv s"
      by (simp add: csp_inv_def csp_cursors_def s)
        (simp add: NewCachedSPSCQueue_def NewSPSCQueue_def sp_size_def)
  qed
  show "csp_inv s \<Longrightarrow> Cached_step a s = Some s' \<Longrightarrow> csp_inv s'" for s :: "'a CachedSPSCQueue" and a s'
    by (rule csp_inv_step)
qed

text \<open>The plain schedule a cached schedule stands for.\<close>

fun plain_schedule :: "'a::zero spsc_act list \<Rightarrow> 'a CachedSPSCQueue \<Rightarrow> 'a spsc_act list" where
  "plain_schedule [] s = []"
| "plain_schedule (a # as) s =
     plain_acts a s @ (case Cached_step a s of None \<Rightarrow> [] | Some s' \<Rightarrow> plain_schedule as s')"

lemma Cached_run_simulates:
  "csp_inv s \<Longrightarrow> run Cached_step as s = Some s' \<Longrightarrow>
     run SPSC_step (plain_schedule as s) (csp_view s) = Some (csp_view s')"
proof (induction as arbitrary: s)
  case (Cons a as)
  then obtain s1 where st: "Cached_step a s = Some s1" by (auto split: option.splits)
  with Cons csp_inv_step [OF Cons.prems(1) st] Cached_simulates [OF Cons.prems(1) st]
  show ?case by (simp add: run_append)
qed simp

text \<open>C36: The cached ring refines the plain ring: every interleaving of the cached ring is, access
  by access, an interleaving of the plain one with the same calls, the same content and the same
  results, so a stale cached cursor is never wrong, only early: the cached head reserves at most
  the free slots, the cached tail at most the filled ones.\<close>

theorem cached_spsc_refines:
  assumes "run Cached_step as NewCachedSPSCQueue = Some s"
  shows "run SPSC_step (plain_schedule as NewCachedSPSCQueue) NewSPSCQueue = Some (csp_view s)
    \<and> unat (publishedTail s - publishedHead s) \<le> unat (publishedTail s - cachedHead s)
    \<and> unat (publishedTail s - cachedHead s) \<le> BoundedQueueSize
    \<and> unat (cachedTail s - publishedHead s) \<le> unat (publishedTail s - publishedHead s)
    \<and> exec_ops (spec_queue BoundedQueueSize) (map fst (csp_log s)) []
        = (sp_abs (csp_view s), map snd (csp_log s))"
proof -
  have v: "csp_view NewCachedSPSCQueue = (NewSPSCQueue :: 'a SPSCQueue)"
    by (simp add: csp_view_def NewCachedSPSCQueue_def NewSPSCQueue_def)
  have r: "run SPSC_step (plain_schedule as NewCachedSPSCQueue) NewSPSCQueue = Some (csp_view s)"
    using Cached_run_simulates [OF cached_spsc.inv_init [OF refl] assms] v by simp
  have "csp_inv s" by (rule cached_spsc.invariant [OF refl assms])
  moreover have "sp_log (csp_view s) = csp_log s" by (simp add: csp_view_def)
  ultimately show ?thesis using r
    by (simp add: csp_inv_def csp_cursors_def csp_size sp_inv_def logged_def)
qed

lemma cached_spsc_refines_witness:
  "\<exists>s. run Cached_step [CallEnqueue (7::nat), StepProd, StepProd, StepProd, CallDequeue, StepCons,
      StepCons, StepCons, StepCons] NewCachedSPSCQueue = Some s
    \<and> csp_cons s = CCDone 7 True
    \<and> exec_ops (spec_queue BoundedQueueSize) (map fst (csp_log s)) []
        = (sp_abs (csp_view s), map snd (csp_log s))"
proof -
  have l: "length (replicate BoundedQueueSize (0::nat)) = BoundedQueueSize" "0 < BoundedQueueSize"
    "of_nat BoundedQueueSize \<noteq> (0::u64)"
    by (simp_all add: BoundedQueueSize_def)
  obtain s where r: "run Cached_step [CallEnqueue (7::nat), StepProd, StepProd, StepProd,
      CallDequeue, StepCons, StepCons, StepCons, StepCons] NewCachedSPSCQueue = Some s"
    and c: "csp_cons s = CCDone 7 True"
    using l slot_of_less [of 0]
    by (simp add: NewCachedSPSCQueue_def Cached_Enqueue_step_def Cached_Dequeue_step_def Let_def)
  show ?thesis using r c cached_spsc_refines [OF r] by blast
qed

end
