(* ===== verification/Queue_LockFree.thy ===== *)
theory Queue_LockFree
  imports Queue_Spec
begin

text \<open>
  The sequence-number ring \<^verbatim>\<open>LockFreeMPMC\<close> (\<^verbatim>\<open>queue/lockfree_mpmc.go\<close>) with any number
  of producers and consumers: one step is one access to a shared field. Indices are masked, so
  the array of slots is a pair of functions of the index.

  Auxiliary fields, read by no step: \<open>lf_enqs\<close> lists the values by ticket (the order of the
  successful tail CASes), \<open>lf_deqs\<close> counts the successful head CASes, \<open>lf_phase\<close> follows the
  life of each ticket, and \<open>lf_log\<close> records each successful operation at its CAS, with the
  goroutine that makes it.
\<close>

section \<open>The machine\<close>

datatype 'a lf_pc =
    LfIdle
  | ELoadTail 'a          \<comment> \<open>\<open>tail = b.tail.Load()\<close>\<close>
  | ELoadSeq 'a u64       \<comment> \<open>\<open>seq = slot.seq.Load()\<close> and the tests on \<open>diff\<close>\<close>
  | ECas 'a u64           \<comment> \<open>\<open>b.tail.CompareAndSwap(tail, tail+1)\<close>\<close>
  | EWrite 'a u64         \<comment> \<open>\<open>slot.val = v\<close>\<close>
  | EStore 'a u64         \<comment> \<open>\<open>slot.seq.Store(tail + 1)\<close>\<close>
  | EDone 'a bool
  | DLoadHead             \<comment> \<open>\<open>head = b.head.Load()\<close>\<close>
  | DLoadSeq u64          \<comment> \<open>\<open>seq = slot.seq.Load()\<close> and the tests on \<open>diff\<close>\<close>
  | DCas u64              \<comment> \<open>\<open>b.head.CompareAndSwap(head, head+1)\<close>\<close>
  | DRead u64             \<comment> \<open>\<open>val := slot.val\<close>\<close>
  | DClear u64 'a         \<comment> \<open>\<open>slot.val = zero\<close>\<close>
  | DStore u64 'a         \<comment> \<open>\<open>slot.seq.Store(head + BoundedQueueSize)\<close>\<close>
  | DDone 'a bool

datatype lf_phase = Free | Writing tid | Full | Reading tid | Done

record 'a LockFreeMPMC =
  lf_seq :: "nat \<Rightarrow> u64"
  lf_val :: "nat \<Rightarrow> 'a"
  lf_head :: u64
  lf_tail :: u64
  lf_pc :: "tid \<Rightarrow> 'a lf_pc"
  lf_enqs :: "'a list"
  lf_deqs :: nat
  lf_phase :: "nat \<Rightarrow> lf_phase"
  lf_log :: "(tid \<times> 'a queue_op \<times> 'a queue_result) list"

definition NewLockFreeMPMC :: "'a::zero LockFreeMPMC" where
  "NewLockFreeMPMC = \<lparr>lf_seq = (\<lambda>i. of_nat i), lf_val = (\<lambda>_. 0), lf_head = 0, lf_tail = 0,
     lf_pc = (\<lambda>_. LfIdle), lf_enqs = [], lf_deqs = 0, lf_phase = (\<lambda>_. Free), lf_log = []\<rparr>"

abbreviation lf_goto :: "tid \<Rightarrow> 'a lf_pc \<Rightarrow> 'a LockFreeMPMC \<Rightarrow> 'a LockFreeMPMC" where
  "lf_goto t p s \<equiv> s\<lparr>lf_pc := (lf_pc s)(t := p)\<rparr>"

definition LFMPMC_Enqueue_step :: "tid \<Rightarrow> 'a LockFreeMPMC \<Rightarrow> 'a LockFreeMPMC option" where
  "LFMPMC_Enqueue_step t b =
     (case lf_pc b t of
        ELoadTail v \<Rightarrow> Some (lf_goto t (ELoadSeq v (lf_tail b)) b)
      | ELoadSeq v tail \<Rightarrow>
          (let diff = lf_seq b (slot_of tail) - tail
           in if diff <s 0 then Some (lf_goto t (EDone v False) b)
              else if diff = 0 then Some (lf_goto t (ECas v tail) b)
              else Some (lf_goto t (ELoadTail v) b))
      | ECas v tail \<Rightarrow>
          (if lf_tail b = tail
           then Some (b\<lparr>lf_tail := tail + 1, lf_pc := (lf_pc b)(t := EWrite v tail),
                        lf_enqs := lf_enqs b @ [v],
                        lf_phase := (lf_phase b)(length (lf_enqs b) := Writing t),
                        lf_log := lf_log b @ [(t, Enq v, EnqRes True)]\<rparr>)
           else Some (lf_goto t (ELoadTail v) b))
      | EWrite v tail \<Rightarrow> Some (b\<lparr>lf_val := (lf_val b)(slot_of tail := v),
                                lf_pc := (lf_pc b)(t := EStore v tail)\<rparr>)
      | EStore v tail \<Rightarrow> Some (b\<lparr>lf_seq := (lf_seq b)(slot_of tail := tail + 1),
                                lf_pc := (lf_pc b)(t := EDone v True),
                                lf_phase := (lf_phase b)(unat tail := Full)\<rparr>)
      | _ \<Rightarrow> None)"

definition LFMPMC_Dequeue_step :: "tid \<Rightarrow> 'a::zero LockFreeMPMC \<Rightarrow> 'a LockFreeMPMC option" where
  "LFMPMC_Dequeue_step t b =
     (case lf_pc b t of
        DLoadHead \<Rightarrow> Some (lf_goto t (DLoadSeq (lf_head b)) b)
      | DLoadSeq head \<Rightarrow>
          (let diff = lf_seq b (slot_of head) - (head + 1)
           in if diff <s 0 then Some (lf_goto t (DDone 0 False) b)
              else if diff = 0 then Some (lf_goto t (DCas head) b)
              else Some (lf_goto t DLoadHead b))
      | DCas head \<Rightarrow>
          (if lf_head b = head
           then Some (b\<lparr>lf_head := head + 1, lf_pc := (lf_pc b)(t := DRead head),
                        lf_deqs := lf_deqs b + 1,
                        lf_phase := (lf_phase b)(lf_deqs b := Reading t),
                        lf_log := lf_log b @ [(t, Deq, DeqRes (lf_val b (slot_of head)) True)]\<rparr>)
           else Some (lf_goto t DLoadHead b))
      | DRead head \<Rightarrow> Some (lf_goto t (DClear head (lf_val b (slot_of head))) b)
      | DClear head v \<Rightarrow> Some (b\<lparr>lf_val := (lf_val b)(slot_of head := 0),
                                lf_pc := (lf_pc b)(t := DStore head v)\<rparr>)
      | DStore head v \<Rightarrow> Some (b\<lparr>lf_seq := (lf_seq b)(slot_of head := head + of_nat BoundedQueueSize),
                                lf_pc := (lf_pc b)(t := DDone v True),
                                lf_phase := (lf_phase b)(unat head := Done)\<rparr>)
      | _ \<Rightarrow> None)"

datatype 'a lf_act = LfEnqueue tid 'a | LfDequeue tid | LfStep tid | LfReturn tid

definition lf_finished :: "'a lf_pc \<Rightarrow> bool" where
  "lf_finished p = (case p of EDone _ _ \<Rightarrow> True | DDone _ _ \<Rightarrow> True | _ \<Rightarrow> False)"

fun LFMPMC_step :: "'a::zero lf_act \<Rightarrow> 'a LockFreeMPMC \<Rightarrow> 'a LockFreeMPMC option" where
  "LFMPMC_step (LfEnqueue t v) b =
     (if lf_pc b t = LfIdle then Some (lf_goto t (ELoadTail v) b) else None)"
| "LFMPMC_step (LfDequeue t) b =
     (if lf_pc b t = LfIdle then Some (lf_goto t DLoadHead b) else None)"
| "LFMPMC_step (LfStep t) b =
     (case LFMPMC_Enqueue_step t b of Some b' \<Rightarrow> Some b' | None \<Rightarrow> LFMPMC_Dequeue_step t b)"
| "LFMPMC_step (LfReturn t) b =
     (if lf_finished (lf_pc b t) then Some (lf_goto t LfIdle b) else None)"

section \<open>The invariant\<close>

abbreviation lf_N :: "'a LockFreeMPMC \<Rightarrow> nat" where
  "lf_N s \<equiv> length (lf_enqs s)"

fun lf_taken :: "lf_phase \<Rightarrow> bool" where
  "lf_taken (Reading _) = True" | "lf_taken Done = True" | "lf_taken _ = False"

text \<open>The tickets: claimed by producers below \<open>lf_N\<close>, by consumers below \<open>lf_deqs\<close>, and finished
  when their slot has been claimed again.\<close>

definition lf_tickets :: "'a LockFreeMPMC \<Rightarrow> bool" where
  "lf_tickets s \<longleftrightarrow> lf_head s = of_nat (lf_deqs s) \<and> lf_tail s = of_nat (lf_N s)
     \<and> (\<forall>p. lf_phase s p = Free \<longleftrightarrow> lf_N s \<le> p)
     \<and> (\<forall>p. lf_taken (lf_phase s p) \<longleftrightarrow> p < lf_deqs s)
     \<and> (\<forall>p. p + BoundedQueueSize < lf_N s \<longrightarrow> lf_phase s p = Done)"

text \<open>The sequence number of a slot in terms of the last ticket that claimed it.\<close>

fun seq_at :: "nat \<Rightarrow> lf_phase \<Rightarrow> nat" where
  "seq_at p (Writing t) = p"
| "seq_at p Full = p + 1"
| "seq_at p (Reading t) = p + 1"
| "seq_at p Done = p + BoundedQueueSize"
| "seq_at p Free = p"

definition lf_current :: "'a LockFreeMPMC \<Rightarrow> nat \<Rightarrow> bool" where
  "lf_current s p \<longleftrightarrow> p < lf_N s \<and> lf_N s \<le> p + BoundedQueueSize"

definition lf_slots :: "'a LockFreeMPMC \<Rightarrow> bool" where
  "lf_slots s \<longleftrightarrow>
     (\<forall>p. lf_current s p \<longrightarrow> lf_seq s (p mod BoundedQueueSize) = of_nat (seq_at p (lf_phase s p)))
     \<and> (\<forall>q. lf_N s \<le> q \<longrightarrow> q < BoundedQueueSize \<longrightarrow> lf_seq s q = of_nat q)
     \<and> (\<forall>p. lf_phase s p = Full \<longrightarrow> lf_val s (p mod BoundedQueueSize) = lf_enqs s ! p)"

definition lf_last :: "'a LockFreeMPMC \<Rightarrow> tid \<Rightarrow> 'a queue_op \<Rightarrow> 'a queue_result \<Rightarrow> bool" where
  "lf_last s t a r \<longleftrightarrow> filter (\<lambda>e. fst e = t) (lf_log s) \<noteq> []
     \<and> last (filter (\<lambda>e. fst e = t) (lf_log s)) = (t, a, r)"

definition lf_reusable :: "'a LockFreeMPMC \<Rightarrow> bool" where
  "lf_reusable s \<longleftrightarrow> lf_N s < BoundedQueueSize \<or> lf_phase s (lf_N s - BoundedQueueSize) = Done"

fun lf_pc_ok :: "'a LockFreeMPMC \<Rightarrow> tid \<Rightarrow> 'a lf_pc \<Rightarrow> bool" where
  "lf_pc_ok s t (ELoadSeq v w) = (\<exists>p \<le> lf_N s. w = of_nat p)"
| "lf_pc_ok s t (ECas v w) = (\<exists>p \<le> lf_N s. w = of_nat p \<and> (p = lf_N s \<longrightarrow> lf_reusable s))"
| "lf_pc_ok s t (EWrite v w) =
     (lf_last s t (Enq v) (EnqRes True)
      \<and> (\<exists>p. w = of_nat p \<and> lf_phase s p = Writing t \<and> lf_enqs s ! p = v))"
| "lf_pc_ok s t (EStore v w) =
     (lf_last s t (Enq v) (EnqRes True)
      \<and> (\<exists>p. w = of_nat p \<and> lf_phase s p = Writing t \<and> lf_enqs s ! p = v
            \<and> lf_val s (p mod BoundedQueueSize) = v))"
| "lf_pc_ok s t (EDone v b) = (b \<longrightarrow> lf_last s t (Enq v) (EnqRes True))"
| "lf_pc_ok s t (DLoadSeq w) = (\<exists>p \<le> lf_deqs s. w = of_nat p)"
| "lf_pc_ok s t (DCas w) = (\<exists>p \<le> lf_deqs s. w = of_nat p \<and> (p = lf_deqs s \<longrightarrow> lf_phase s p = Full))"
| "lf_pc_ok s t (DRead w) =
     (\<exists>p. w = of_nat p \<and> lf_phase s p = Reading t
        \<and> lf_last s t Deq (DeqRes (lf_enqs s ! p) True)
        \<and> lf_val s (p mod BoundedQueueSize) = lf_enqs s ! p)"
| "lf_pc_ok s t (DClear w v) =
     (\<exists>p. w = of_nat p \<and> lf_phase s p = Reading t \<and> lf_last s t Deq (DeqRes v True))"
| "lf_pc_ok s t (DStore w v) =
     (\<exists>p. w = of_nat p \<and> lf_phase s p = Reading t \<and> lf_last s t Deq (DeqRes v True))"
| "lf_pc_ok s t (DDone v b) = (b \<longrightarrow> lf_last s t Deq (DeqRes v True))"
| "lf_pc_ok s t _ = True"

definition lf_abs :: "'a LockFreeMPMC \<Rightarrow> 'a list" where
  "lf_abs s = drop (lf_deqs s) (lf_enqs s)"

definition lf_ok :: "'a::zero LockFreeMPMC \<Rightarrow> bool" where
  "lf_ok s \<longleftrightarrow> lf_tickets s \<and> lf_slots s \<and> (\<forall>t. lf_pc_ok s t (lf_pc s t))
     \<and> logged (spec_queue BoundedQueueSize) [] (map snd (lf_log s)) (lf_abs s)"

text \<open>The counters have not come near the sign bit.\<close>

definition lf_small :: "'a LockFreeMPMC \<Rightarrow> bool" where
  "lf_small s \<longleftrightarrow> lf_N s < 2 ^ 62"

section \<open>Positions\<close>

lemma slot_of_nat: "slot_of (of_nat p) = p mod BoundedQueueSize"
  using slot_of_add [of 0 p] by (simp add: slot_of_mod)

lemma u64_nat_eq: "p < 2 ^ 64 \<Longrightarrow> q < 2 ^ 64 \<Longrightarrow> (of_nat p :: u64) = of_nat q \<longleftrightarrow> p = q"
  using of_nat_u64_eq by blast

lemma slots_window:
  assumes "p mod BoundedQueueSize = q mod BoundedQueueSize"
    and "p < n" "n \<le> p + BoundedQueueSize" "q < n" "n \<le> q + BoundedQueueSize"
  shows "p = q"
proof (rule ccontr)
  have aux: "BoundedQueueSize \<le> b - a"
    if "a < b" "a mod BoundedQueueSize = b mod BoundedQueueSize" for a b :: nat
  proof -
    have "BoundedQueueSize dvd b - a" using that by (metis less_imp_le_nat mod_eq_dvd_iff_nat)
    then show ?thesis using that(1) by (simp add: dvd_imp_le)
  qed
  assume "p \<noteq> q"
  then consider "p < q" | "q < p" by linarith
  then show False using aux [of p q] aux [of q p] assms by cases linarith+
qed

lemma lf_current_slots:
  "lf_current s p \<Longrightarrow> lf_current s q \<Longrightarrow> p mod BoundedQueueSize = q mod BoundedQueueSize \<Longrightarrow> p = q"
  unfolding lf_current_def by (blast intro: slots_window)

lemma u64_nat_diff_sign:
  assumes "m < 2 ^ 63" "p < 2 ^ 63"
  shows "(of_nat m - of_nat p :: u64) <s 0 \<longleftrightarrow> m < p"
proof -
  have "(of_nat m - of_nat p :: u64) = word_of_int (int m - int p)" by simp
  moreover have "sint (word_of_int (int m - int p) :: u64) = int m - int p"
    using assms by (simp only: sint_sbintrunc') (simp add: signed_take_bit_int_eq_self)
  ultimately show ?thesis by (simp add: word_sless_alt)
qed

section \<open>What the invariant says\<close>

lemma lf_ok_parts:
  assumes "lf_ok s"
  shows lf_ok_tickets: "lf_tickets s" and lf_ok_slots: "lf_slots s"
    and lf_ok_pc: "lf_pc_ok s t (lf_pc s t)"
    and lf_ok_log: "logged (spec_queue BoundedQueueSize) [] (map snd (lf_log s)) (lf_abs s)"
  using assms unfolding lf_ok_def by blast+

lemma lf_tickets_parts:
  assumes "lf_tickets s"
  shows lf_head_eq: "lf_head s = of_nat (lf_deqs s)" and lf_tail_eq: "lf_tail s = of_nat (lf_N s)"
    and lf_free_iff: "lf_phase s p = Free \<longleftrightarrow> lf_N s \<le> p"
    and lf_taken_iff: "lf_taken (lf_phase s p) \<longleftrightarrow> p < lf_deqs s"
    and lf_old_done: "p + BoundedQueueSize < lf_N s \<Longrightarrow> lf_phase s p = Done"
  using assms unfolding lf_tickets_def by blast+

lemma lf_slots_parts:
  assumes "lf_slots s"
  shows lf_seq_current: "lf_current s p \<Longrightarrow>
      lf_seq s (p mod BoundedQueueSize) = of_nat (seq_at p (lf_phase s p))"
    and lf_seq_fresh: "lf_N s \<le> q \<Longrightarrow> q < BoundedQueueSize \<Longrightarrow> lf_seq s q = of_nat q"
    and lf_val_full: "lf_phase s p = Full \<Longrightarrow> lf_val s (p mod BoundedQueueSize) = lf_enqs s ! p"
  using assms unfolding lf_slots_def by blast+

lemma lf_active_current:
  "lf_tickets s \<Longrightarrow> lf_phase s p \<noteq> Free \<Longrightarrow> lf_phase s p \<noteq> Done \<Longrightarrow> lf_current s p"
  unfolding lf_current_def using lf_free_iff lf_old_done by (metis not_le)

lemma lf_deqs_le:
  assumes "lf_tickets s"
  shows "lf_deqs s \<le> lf_N s"
proof (rule ccontr)
  assume "\<not> lf_deqs s \<le> lf_N s"
  then have "lf_taken (lf_phase s (lf_N s))" using lf_taken_iff [OF assms] by simp
  moreover have "lf_phase s (lf_N s) = Free" using lf_free_iff [OF assms] by simp
  ultimately show False by simp
qed

lemma lf_N_le:
  assumes "lf_tickets s"
  shows "lf_N s \<le> lf_deqs s + BoundedQueueSize"
proof (rule ccontr)
  assume "\<not> ?thesis"
  then have "lf_phase s (lf_deqs s) = Done" using lf_old_done [OF assms] by simp
  then show False using lf_taken_iff [OF assms, of "lf_deqs s"] by simp
qed

lemma lf_front_phase:
  assumes "lf_tickets s" and "lf_deqs s < lf_N s"
  obtains (writing) t where "lf_phase s (lf_deqs s) = Writing t" | (full) "lf_phase s (lf_deqs s) = Full"
  using lf_free_iff [OF assms(1), of "lf_deqs s"] lf_taken_iff [OF assms(1), of "lf_deqs s"] assms(2)
  by (cases "lf_phase s (lf_deqs s)") auto

text \<open>The slot of a ticket that is not yet claimed again holds the sequence number of its last
  claim; the producer's and the consumer's test read it.\<close>

lemma lf_next_seq:
  assumes ok: "lf_ok s"
  obtains m where "lf_seq s (lf_N s mod BoundedQueueSize) = of_nat m" "m \<le> lf_N s"
    "m = lf_N s \<longleftrightarrow> lf_reusable s"
proof (cases "lf_N s < BoundedQueueSize")
  case True
  then have "lf_seq s (lf_N s mod BoundedQueueSize) = of_nat (lf_N s)" "lf_reusable s"
    using lf_seq_fresh [OF lf_ok_slots [OF ok], of "lf_N s"] by (simp_all add: lf_reusable_def)
  then show thesis using that [of "lf_N s"] by simp
next
  case False
  let ?p = "lf_N s - BoundedQueueSize"
  have p: "?p + BoundedQueueSize = lf_N s" using False by simp
  then have cur: "lf_current s ?p" unfolding lf_current_def BoundedQueueSize_def by linarith
  have "?p mod BoundedQueueSize = lf_N s mod BoundedQueueSize" using p by (metis mod_add_self2)
  then have sq: "lf_seq s (lf_N s mod BoundedQueueSize) = of_nat (seq_at ?p (lf_phase s ?p))"
    using lf_seq_current [OF lf_ok_slots [OF ok] cur] by simp
  have le: "seq_at ?p (lf_phase s ?p) \<le> lf_N s"
    and "seq_at ?p (lf_phase s ?p) = lf_N s \<longleftrightarrow> lf_phase s ?p = Done"
    using p by (cases "lf_phase s ?p"; auto simp: BoundedQueueSize_def)+
  then have "seq_at ?p (lf_phase s ?p) = lf_N s \<longleftrightarrow> lf_reusable s"
    using False by (simp add: lf_reusable_def)
  then show thesis by (rule that [OF sq le])
qed

lemma lf_reusable_iff:
  assumes ok: "lf_ok s" and small: "lf_small s"
  shows "lf_seq s (lf_N s mod BoundedQueueSize) = of_nat (lf_N s) \<longleftrightarrow> lf_reusable s"
    and "lf_seq s (lf_N s mod BoundedQueueSize) - of_nat (lf_N s) <s 0 \<longleftrightarrow> \<not> lf_reusable s"
proof -
  note small' = small [unfolded lf_small_def]
  obtain m where m: "lf_seq s (lf_N s mod BoundedQueueSize) = of_nat m" "m \<le> lf_N s"
    "m = lf_N s \<longleftrightarrow> lf_reusable s" using lf_next_seq [OF ok] .
  have "(of_nat m :: u64) = of_nat (lf_N s) \<longleftrightarrow> m = lf_N s"
    using m(2) small' by (intro u64_nat_eq) simp_all
  with m show "lf_seq s (lf_N s mod BoundedQueueSize) = of_nat (lf_N s) \<longleftrightarrow> lf_reusable s" by simp
  have "(of_nat m - of_nat (lf_N s) :: u64) <s 0 \<longleftrightarrow> m < lf_N s"
    using m(2) small' by (intro u64_nat_diff_sign) simp_all
  with m show "lf_seq s (lf_N s mod BoundedQueueSize) - of_nat (lf_N s) <s 0 \<longleftrightarrow> \<not> lf_reusable s"
    by auto
qed

lemma lf_front_seq:
  assumes ok: "lf_ok s"
  obtains m where "lf_seq s (lf_deqs s mod BoundedQueueSize) = of_nat m" "m \<le> lf_deqs s + 1"
    "m = lf_deqs s + 1 \<longleftrightarrow> lf_phase s (lf_deqs s) = Full"
proof (cases "lf_deqs s = lf_N s")
  case True
  obtain m where "lf_seq s (lf_N s mod BoundedQueueSize) = of_nat m" "m \<le> lf_N s"
    using lf_next_seq [OF ok] by blast
  moreover have "lf_phase s (lf_deqs s) = Free"
    using True lf_free_iff [OF lf_ok_tickets [OF ok]] by simp
  ultimately show thesis using that [of m] True by simp
next
  case False
  note tk = lf_ok_tickets [OF ok]
  have lt: "lf_deqs s < lf_N s" using False lf_deqs_le [OF tk] by simp
  have "lf_current s (lf_deqs s)" using lt lf_N_le [OF tk] by (simp add: lf_current_def)
  from lf_seq_current [OF lf_ok_slots [OF ok] this]
  have sq: "lf_seq s (lf_deqs s mod BoundedQueueSize)
      = of_nat (seq_at (lf_deqs s) (lf_phase s (lf_deqs s)))" .
  from tk lt show thesis
  proof (cases rule: lf_front_phase)
    case (writing t)
    with sq show thesis using that [of "lf_deqs s"] by simp
  next
    case full
    with sq show thesis using that [of "lf_deqs s + 1"] by simp
  qed
qed

lemma lf_front_iff:
  assumes ok: "lf_ok s" and small: "lf_small s"
  shows "lf_seq s (lf_deqs s mod BoundedQueueSize) = of_nat (lf_deqs s) + 1
           \<longleftrightarrow> lf_phase s (lf_deqs s) = Full"
    and "lf_seq s (lf_deqs s mod BoundedQueueSize) - (of_nat (lf_deqs s) + 1) <s 0
           \<longleftrightarrow> lf_phase s (lf_deqs s) \<noteq> Full"
proof -
  have small': "lf_deqs s < 2 ^ 62"
    using small lf_deqs_le [OF lf_ok_tickets [OF ok]] by (simp add: lf_small_def)
  obtain m where m: "lf_seq s (lf_deqs s mod BoundedQueueSize) = of_nat m" "m \<le> lf_deqs s + 1"
    "m = lf_deqs s + 1 \<longleftrightarrow> lf_phase s (lf_deqs s) = Full" using lf_front_seq [OF ok] .
  have e: "(of_nat (lf_deqs s) + 1 :: u64) = of_nat (lf_deqs s + 1)" by simp
  have "(of_nat m :: u64) = of_nat (lf_deqs s + 1) \<longleftrightarrow> m = lf_deqs s + 1"
    using m(2) small' by (intro u64_nat_eq) simp_all
  with m e show "lf_seq s (lf_deqs s mod BoundedQueueSize) = of_nat (lf_deqs s) + 1
      \<longleftrightarrow> lf_phase s (lf_deqs s) = Full" by (simp add: add.commute)
  have "(of_nat m - of_nat (lf_deqs s + 1) :: u64) <s 0 \<longleftrightarrow> m < lf_deqs s + 1"
    using m(2) small' by (intro u64_nat_diff_sign) simp_all
  with m e show "lf_seq s (lf_deqs s mod BoundedQueueSize) - (of_nat (lf_deqs s) + 1) <s 0
      \<longleftrightarrow> lf_phase s (lf_deqs s) \<noteq> Full" by (auto simp: add.commute)
qed

text \<open>A producer whose ticket was claimed meanwhile is never told that the ring is full.\<close>

lemma lf_last_ticket:
  assumes "p < lf_N s"
  obtains q where "lf_current s q" "q mod BoundedQueueSize = p mod BoundedQueueSize" "p \<le> q"
proof
  let ?q = "p + (lf_N s - 1 - p) div BoundedQueueSize * BoundedQueueSize"
  have b: "0 < BoundedQueueSize" by (simp add: BoundedQueueSize_def)
  have d: "(lf_N s - 1 - p) div BoundedQueueSize * BoundedQueueSize \<le> lf_N s - 1 - p"
    "lf_N s - 1 - p < (lf_N s - 1 - p) div BoundedQueueSize * BoundedQueueSize + BoundedQueueSize"
    using dividend_less_div_times [OF b, of "lf_N s - 1 - p"] by (simp_all add: add.commute)
  show "lf_current s ?q" using d assms unfolding lf_current_def by linarith
qed simp_all

lemma seq_at_ge: "p \<le> seq_at p ph" "seq_at p ph \<le> p + BoundedQueueSize"
  by (cases ph; simp add: BoundedQueueSize_def)+

lemma lf_stale_not_full:
  assumes ok: "lf_ok s" and small: "lf_small s" and p: "p < lf_N s"
  shows "\<not> lf_seq s (p mod BoundedQueueSize) - of_nat p <s 0"
proof -
  obtain q where q: "lf_current s q" "q mod BoundedQueueSize = p mod BoundedQueueSize" "p \<le> q"
    using lf_last_ticket [OF p] .
  let ?m = "seq_at q (lf_phase s q)"
  have "q < lf_N s" "p \<le> ?m" "?m \<le> q + BoundedQueueSize"
    using q seq_at_ge [of q "lf_phase s q"] by (simp_all add: lf_current_def)
  then have "(of_nat ?m - of_nat p :: u64) <s 0 \<longleftrightarrow> ?m < p" using small p
    by (intro u64_nat_diff_sign) (simp_all add: lf_small_def BoundedQueueSize_def)
  then show ?thesis
    using lf_seq_current [OF lf_ok_slots [OF ok] q(1)] q(2) \<open>p \<le> ?m\<close> by simp
qed

lemma lf_stale_not_empty:
  assumes ok: "lf_ok s" and small: "lf_small s" and p: "p < lf_deqs s"
  shows "\<not> lf_seq s (p mod BoundedQueueSize) - (of_nat p + 1) <s 0"
proof -
  note tk = lf_ok_tickets [OF ok]
  have pN: "p < lf_N s" using p lf_deqs_le [OF tk] by simp
  obtain q where q: "lf_current s q" "q mod BoundedQueueSize = p mod BoundedQueueSize" "p \<le> q"
    using lf_last_ticket [OF pN] .
  let ?m = "seq_at q (lf_phase s q)"
  have "p + 1 \<le> ?m"
  proof (cases "p = q")
    case True
    then have "lf_taken (lf_phase s q)" using p lf_taken_iff [OF tk] by simp
    then show ?thesis using True by (cases "lf_phase s q") (simp_all add: BoundedQueueSize_def)
  next
    case False
    then show ?thesis using q(3) seq_at_ge(1) [of q "lf_phase s q"] by linarith
  qed
  moreover have "q < lf_N s" "?m \<le> q + BoundedQueueSize"
    using q seq_at_ge [of q "lf_phase s q"] by (simp_all add: lf_current_def)
  then have "(of_nat ?m - of_nat (p + 1) :: u64) <s 0 \<longleftrightarrow> ?m < p + 1" using small pN
    by (intro u64_nat_diff_sign) (simp_all add: lf_small_def BoundedQueueSize_def)
  ultimately show ?thesis
    using lf_seq_current [OF lf_ok_slots [OF ok] q(1)] q(2) by (simp add: add.commute)
qed

section \<open>Every step keeps the invariant\<close>

lemma lf_last_frame [simp]:
  "lf_last (s\<lparr>lf_pc := pc\<rparr>) = lf_last s" "lf_last (s\<lparr>lf_seq := sq\<rparr>) = lf_last s"
  "lf_last (s\<lparr>lf_val := vl\<rparr>) = lf_last s" "lf_last (s\<lparr>lf_phase := ph\<rparr>) = lf_last s"
  "lf_last (s\<lparr>lf_head := h\<rparr>) = lf_last s" "lf_last (s\<lparr>lf_tail := u\<rparr>) = lf_last s"
  "lf_last (s\<lparr>lf_enqs := es\<rparr>) = lf_last s" "lf_last (s\<lparr>lf_deqs := d\<rparr>) = lf_last s"
  by (simp_all add: fun_eq_iff lf_last_def)

lemma lf_last_log:
  "lf_last (s\<lparr>lf_log := lf_log s @ [(t, a, r)]\<rparr>) u b r' \<longleftrightarrow>
     (if u = t then b = a \<and> r' = r else lf_last s u b r')"
  by (auto simp: lf_last_def)

lemma lf_pc_ok_goto [simp]: "lf_pc_ok (s\<lparr>lf_pc := pc\<rparr>) t p = lf_pc_ok s t p"
  by (cases p) (simp_all add: lf_reusable_def)

lemma lf_ok_goto:
  assumes "lf_ok s" and "lf_pc_ok s t p"
  shows "lf_ok (lf_goto t p s)"
  using assms by (simp add: lf_ok_def lf_tickets_def lf_slots_def lf_current_def lf_abs_def)

text \<open>The producer claims a ticket.\<close>

definition lf_claim :: "tid \<Rightarrow> 'a \<Rightarrow> 'a LockFreeMPMC \<Rightarrow> 'a LockFreeMPMC" where
  "lf_claim t v s = s\<lparr>lf_tail := lf_tail s + 1, lf_pc := (lf_pc s)(t := EWrite v (lf_tail s)),
     lf_enqs := lf_enqs s @ [v], lf_phase := (lf_phase s)(lf_N s := Writing t),
     lf_log := lf_log s @ [(t, Enq v, EnqRes True)]\<rparr>"

lemma lf_claim_tickets:
  assumes "lf_tickets s" and "lf_reusable s"
  shows "lf_tickets (lf_claim t v s)"
proof -
  have "lf_phase s p = Done" if "p + BoundedQueueSize = lf_N s" for p
    using assms(2) that unfolding lf_reusable_def by (metis add_diff_cancel_right' not_add_less2)
  moreover have "p < Suc (lf_N s) - BoundedQueueSize \<Longrightarrow> p \<noteq> lf_N s" for p
    by (simp add: BoundedQueueSize_def)
  ultimately show ?thesis using assms(1) lf_deqs_le [OF assms(1)]
    by (auto simp: lf_tickets_def lf_claim_def less_Suc_eq)
qed

lemma lf_claim_slots:
  assumes ok: "lf_ok s" and small: "lf_small s" and re: "lf_reusable s"
  shows "lf_slots (lf_claim t v s)"
proof -
  note tk = lf_ok_tickets [OF ok] and sl = lf_ok_slots [OF ok]
  have cur: "lf_current (lf_claim t v s) p \<Longrightarrow> p = lf_N s \<or> lf_current s p" for p
    by (auto simp: lf_current_def lf_claim_def)
  have "lf_seq s (lf_N s mod BoundedQueueSize) = of_nat (lf_N s)"
    using lf_reusable_iff [OF ok small] re by blast
  moreover have "lf_phase s p \<noteq> Full" if "lf_N s \<le> p" for p using lf_free_iff [OF tk, of p] that by simp
  moreover have "lf_current s p \<Longrightarrow> p \<noteq> lf_N s" for p by (simp add: lf_current_def)
  ultimately show ?thesis using sl cur
    by (auto simp: lf_slots_def lf_claim_def nth_append)
qed

lemma lf_claim_pc:
  assumes ok: "lf_ok s" and u: "lf_pc_ok s u p" and ut: "u \<noteq> t"
  shows "lf_pc_ok (lf_claim t v s) u p"
proof -
  note tk = lf_ok_tickets [OF ok]
  have old: "lf_phase s q \<noteq> Free \<Longrightarrow> q < lf_N s" for q using lf_free_iff [OF tk, of q] by simp
  have new: "lf_phase (lf_claim t v s) q = lf_phase s q" "lf_enqs (lf_claim t v s) ! q = lf_enqs s ! q"
    if "lf_phase s q \<noteq> Free" for q
    using old [OF that] by (simp_all add: lf_claim_def nth_append)
  have st: "lf_N (lf_claim t v s) = Suc (lf_N s)" "lf_deqs (lf_claim t v s) = lf_deqs s"
    "lf_val (lf_claim t v s) = lf_val s" "lf_last (lf_claim t v s) u = lf_last s u"
    using ut by (simp_all add: lf_claim_def fun_eq_iff lf_last_def)
  show ?thesis
  proof (cases p)
    case (ECas x w)
    with u st show ?thesis by (auto intro: le_SucI)
  next
    case (DCas w)
    with u st new show ?thesis by auto
  qed (use u st new in \<open>auto intro: le_SucI\<close>)
qed

lemma lf_reusable_room:
  assumes tk: "lf_tickets s" and re: "lf_reusable s"
  shows "length (lf_abs s) < BoundedQueueSize"
proof (cases "lf_N s < BoundedQueueSize")
  case True
  then show ?thesis by (simp add: lf_abs_def)
next
  case False
  then have "lf_N s - BoundedQueueSize < lf_deqs s"
    using re lf_taken_iff [OF tk, of "lf_N s - BoundedQueueSize"] by (simp add: lf_reusable_def)
  then have "lf_N s - lf_deqs s < BoundedQueueSize" using False lf_deqs_le [OF tk] by linarith
  then show ?thesis by (simp add: lf_abs_def)
qed

lemma lf_ok_claim:
  assumes ok: "lf_ok s" and small: "lf_small s" and re: "lf_reusable s"
  shows "lf_ok (lf_claim t v s)"
proof -
  note tk = lf_ok_tickets [OF ok]
  have "lf_pc_ok (lf_claim t v s) u (lf_pc (lf_claim t v s) u)" for u
  proof (cases "u = t")
    case True
    then show ?thesis using lf_tail_eq [OF tk]
      by (auto simp: lf_claim_def lf_last_def)
  next
    case False
    then show ?thesis using lf_claim_pc [OF ok lf_ok_pc [OF ok] False, of v]
      by (simp add: lf_claim_def)
  qed
  moreover have "logged (spec_queue BoundedQueueSize) [] (map snd (lf_log (lf_claim t v s)))
      (lf_abs (lf_claim t v s))"
    using lf_ok_log [OF ok] lf_deqs_le [OF tk] lf_reusable_room [OF tk re]
    by (auto simp: lf_claim_def lf_abs_def intro: logged_snoc)
  ultimately show ?thesis using lf_claim_tickets [OF tk re] lf_claim_slots [OF ok small re]
    by (simp add: lf_ok_def)
qed

text \<open>The producer writes the slot of its ticket, then publishes it.\<close>

lemma lf_writer:
  assumes ok: "lf_ok s" and small: "lf_small s"
    and pc: "lf_pc s t = EWrite v w \<or> lf_pc s t = EStore v w"
  obtains p where "w = of_nat p" "slot_of w = p mod BoundedQueueSize" "unat w = p"
    "lf_phase s p = Writing t" "lf_enqs s ! p = v" "lf_current s p"
    "lf_last s t (Enq v) (EnqRes True)"
    "lf_pc s t = EStore v w \<Longrightarrow> lf_val s (p mod BoundedQueueSize) = v"
proof -
  obtain p where p: "w = of_nat p" "lf_phase s p = Writing t" "lf_enqs s ! p = v"
    "lf_last s t (Enq v) (EnqRes True)"
    "lf_pc s t = EStore v w \<Longrightarrow> lf_val s (p mod BoundedQueueSize) = v"
    using lf_ok_pc [OF ok, of t] pc by auto
  then have cur: "lf_current s p" using lf_active_current [OF lf_ok_tickets [OF ok], of p] by simp
  then have "p < 2 ^ 64" using small by (simp add: lf_current_def lf_small_def)
  then have "unat w = p" using p(1) by (simp add: unat_of_nat)
  with p cur show thesis using that [of p] by (simp add: slot_of_nat)
qed

lemma lf_val_other:
  assumes ok: "lf_ok s" and cur: "lf_current s p" and ne: "q \<noteq> p"
    and act: "lf_phase s q \<noteq> Free" "lf_phase s q \<noteq> Done"
  shows "((lf_val s)(p mod BoundedQueueSize := x)) (q mod BoundedQueueSize)
      = lf_val s (q mod BoundedQueueSize)"
proof -
  have "lf_current s q" using lf_active_current [OF lf_ok_tickets [OF ok]] act by blast
  then have "q mod BoundedQueueSize \<noteq> p mod BoundedQueueSize"
    using lf_current_slots [OF _ cur] ne by blast
  then show ?thesis by simp
qed

text \<open>A plain write to the slot of a ticket is invisible to every other ticket.\<close>

lemma lf_pc_ok_val:
  assumes "lf_pc_ok s u p"
    and "\<And>q. lf_phase s q = Writing u \<or> lf_phase s q = Reading u \<Longrightarrow>
      vl (q mod BoundedQueueSize) = lf_val s (q mod BoundedQueueSize)"
  shows "lf_pc_ok (s\<lparr>lf_val := vl\<rparr>) u p"
proof (cases p)
  case (EStore v w)
  then obtain q where "w = of_nat q" "lf_phase s q = Writing u" "lf_enqs s ! q = v"
    "lf_val s (q mod BoundedQueueSize) = v" "lf_last s u (Enq v) (EnqRes True)"
    using assms(1) by auto
  with EStore assms(2) [of q] show ?thesis by auto
next
  case (DRead w)
  then obtain q where "w = of_nat q" "lf_phase s q = Reading u"
    "lf_last s u Deq (DeqRes (lf_enqs s ! q) True)"
    "lf_val s (q mod BoundedQueueSize) = lf_enqs s ! q"
    using assms(1) by auto
  with DRead assms(2) [of q] show ?thesis by auto
qed (use assms(1) in \<open>simp_all add: lf_reusable_def\<close>)

lemma lf_ok_write:
  assumes ok: "lf_ok s" and cur: "lf_current s p"
    and own: "lf_phase s p = Writing t \<or> lf_phase s p = Reading t"
    and pc: "lf_pc_ok (s\<lparr>lf_val := (lf_val s)(p mod BoundedQueueSize := x)\<rparr>) t pc'"
  shows "lf_ok (s\<lparr>lf_val := (lf_val s)(p mod BoundedQueueSize := x), lf_pc := (lf_pc s)(t := pc')\<rparr>)"
proof -
  let ?vl = "(lf_val s)(p mod BoundedQueueSize := x)"
  have keep: "?vl (q mod BoundedQueueSize) = lf_val s (q mod BoundedQueueSize)"
    if "lf_phase s q = Full \<or> (\<exists>u. u \<noteq> t \<and> (lf_phase s q = Writing u \<or> lf_phase s q = Reading u))"
    for q
    using own that lf_val_other [OF ok cur, of q x] by (cases "q = p") auto
  have "lf_pc_ok (s\<lparr>lf_val := ?vl\<rparr>) u (((lf_pc s)(t := pc')) u)" for u
    using pc lf_pc_ok_val [OF lf_ok_pc [OF ok, of u], of ?vl] keep by (cases "u = t") auto
  moreover have "lf_slots (s\<lparr>lf_val := ?vl\<rparr>)"
    using lf_ok_slots [OF ok] keep by (auto simp: lf_slots_def lf_current_def)
  ultimately show ?thesis using ok
    by (simp add: lf_ok_def lf_tickets_def lf_abs_def lf_slots_def lf_current_def)
qed

text \<open>A publication: the owner of a ticket moves its phase on and stores the new sequence number.\<close>

lemma lf_pc_ok_phase:
  assumes "lf_pc_ok s u p" and "u \<noteq> t"
    and "lf_phase s q = Writing t \<or> lf_phase s q = Reading t"
  shows "lf_pc_ok (s\<lparr>lf_seq := sq, lf_phase := (lf_phase s)(q := ph)\<rparr>) u p"
proof (cases p)
  case (ECas v w)
  with assms show ?thesis by (auto simp: lf_reusable_def)
next
  case (DCas w)
  with assms show ?thesis by auto
qed (use assms in \<open>auto simp: lf_last_def\<close>)

lemma lf_finished_ok:
  "lf_finished p \<Longrightarrow> lf_pc_ok s t p \<Longrightarrow> lf_last s' t = lf_last s t \<Longrightarrow> lf_pc_ok s' t p"
  by (cases p) (simp_all add: lf_finished_def)

lemma lf_ok_publish:
  assumes ok: "lf_ok s" and cur: "lf_current s p"
    and own: "lf_phase s p = Writing t \<and> ph = Full \<and> lf_val s (p mod BoundedQueueSize) = lf_enqs s ! p
      \<or> lf_phase s p = Reading t \<and> ph = Done"
    and pc: "lf_finished pc'" "lf_pc_ok s t pc'"
  shows "lf_ok (s\<lparr>lf_seq := (lf_seq s)(p mod BoundedQueueSize := of_nat (seq_at p ph)),
      lf_pc := (lf_pc s)(t := pc'), lf_phase := (lf_phase s)(p := ph)\<rparr>)"
proof -
  let ?s = "s\<lparr>lf_seq := (lf_seq s)(p mod BoundedQueueSize := of_nat (seq_at p ph)),
      lf_pc := (lf_pc s)(t := pc'), lf_phase := (lf_phase s)(p := ph)\<rparr>"
  have own': "lf_phase s p = Writing t \<or> lf_phase s p = Reading t" using own by blast
  have not_taken: "\<not> p < lf_deqs s" if "lf_phase s p = Writing t"
    using that lf_taken_iff [OF lf_ok_tickets [OF ok], of p] by simp
  have "lf_pc_ok (s\<lparr>lf_seq := (lf_seq s)(p mod BoundedQueueSize := of_nat (seq_at p ph)),
      lf_phase := (lf_phase s)(p := ph)\<rparr>) u (((lf_pc s)(t := pc')) u)" for u
    using lf_finished_ok [OF pc] lf_pc_ok_phase [OF lf_ok_pc [OF ok, of u] _ own']
    by (cases "u = t") simp_all
  moreover have "lf_pc_ok ?s u q = lf_pc_ok
      (s\<lparr>lf_seq := (lf_seq s)(p mod BoundedQueueSize := of_nat (seq_at p ph)),
         lf_phase := (lf_phase s)(p := ph)\<rparr>) u q" for u q
    by (cases q) (simp_all add: lf_reusable_def)
  ultimately have "lf_pc_ok ?s u (lf_pc ?s u)" for u by simp
  moreover have "lf_tickets ?s"
    using lf_ok_tickets [OF ok] not_taken own cur unfolding lf_tickets_def lf_current_def
    by (auto simp: split: if_splits)
  moreover have "lf_slots ?s"
  proof -
    note sl = lf_ok_slots [OF ok]
    have "p mod BoundedQueueSize \<noteq> q" if "lf_N s \<le> q" "q < BoundedQueueSize" for q
      using cur that by (auto simp: lf_current_def)
    moreover have "q = p" if "lf_current s q" "q mod BoundedQueueSize = p mod BoundedQueueSize" for q
      using lf_current_slots [OF that(1) cur that(2)] .
    ultimately show ?thesis using sl own
      by (auto simp: lf_slots_def lf_current_def split: if_splits)
  qed
  ultimately show ?thesis using ok by (simp add: lf_ok_def lf_abs_def)
qed

text \<open>The consumer claims the oldest ticket.\<close>

definition lf_take :: "tid \<Rightarrow> 'a LockFreeMPMC \<Rightarrow> 'a LockFreeMPMC" where
  "lf_take t s = s\<lparr>lf_head := lf_head s + 1, lf_pc := (lf_pc s)(t := DRead (lf_head s)),
     lf_deqs := lf_deqs s + 1, lf_phase := (lf_phase s)(lf_deqs s := Reading t),
     lf_log := lf_log s @ [(t, Deq, DeqRes (lf_val s (slot_of (lf_head s))) True)]\<rparr>"

lemma lf_take_pc:
  assumes "lf_pc_ok s u p" and "u \<noteq> t" and "lf_phase s (lf_deqs s) = Full"
  shows "lf_pc_ok (lf_take t s) u p"
proof -
  have keep: "lf_phase (lf_take t s) q = lf_phase s q" if "lf_phase s q \<noteq> Full" for q
    using that assms(3) by (auto simp: lf_take_def)
  have full: "lf_phase (lf_take t s) q = Full" if "lf_phase s q = Full" "q < lf_deqs s" for q
    using that by (simp add: lf_take_def)
  have st: "lf_last (lf_take t s) u = lf_last s u" "lf_enqs (lf_take t s) = lf_enqs s"
    "lf_val (lf_take t s) = lf_val s" "lf_deqs (lf_take t s) = Suc (lf_deqs s)"
    using assms(2) by (simp_all add: lf_take_def fun_eq_iff lf_last_def)
  show ?thesis
  proof (cases p)
    case (DCas w)
    with assms(1) st show ?thesis by (auto intro: le_SucI)
  next
    case (ECas v w)
    with assms(1) st keep show ?thesis by (auto simp: lf_reusable_def)
  qed (use assms(1) st keep in \<open>auto intro: le_SucI\<close>)
qed

lemma lf_ok_take:
  assumes ok: "lf_ok s" and full: "lf_phase s (lf_deqs s) = Full"
  shows "lf_ok (lf_take t s)"
proof -
  note tk = lf_ok_tickets [OF ok] and sl = lf_ok_slots [OF ok]
  have lt: "lf_deqs s < lf_N s" using lf_free_iff [OF tk, of "lf_deqs s"] full by simp
  have val: "lf_val s (lf_deqs s mod BoundedQueueSize) = lf_enqs s ! lf_deqs s"
    using lf_val_full [OF sl full] .
  have "lf_pc_ok (lf_take t s) u (lf_pc (lf_take t s) u)" for u
  proof (cases "u = t")
    case True
    have "lf_last (lf_take t s) t Deq (DeqRes (lf_enqs s ! lf_deqs s) True)"
      using val lf_head_eq [OF tk] by (simp add: lf_take_def lf_last_def slot_of_nat)
    then show ?thesis using True val lf_head_eq [OF tk] by (auto simp: lf_take_def)
  next
    case False
    then show ?thesis using lf_take_pc [OF lf_ok_pc [OF ok] False full] by (simp add: lf_take_def)
  qed
  moreover have "lf_tickets (lf_take t s)"
    using tk full lt unfolding lf_tickets_def lf_take_def by (auto simp: less_Suc_eq split: if_splits)
  moreover have "lf_slots (lf_take t s)"
    using sl full unfolding lf_slots_def lf_take_def lf_current_def by auto
  moreover have "lf_abs s = lf_enqs s ! lf_deqs s # lf_abs (lf_take t s)"
    using lt by (simp add: lf_abs_def lf_take_def Cons_nth_drop_Suc)
  then have "logged (spec_queue BoundedQueueSize) [] (map snd (lf_log (lf_take t s)))
      (lf_abs (lf_take t s))"
    using lf_ok_log [OF ok] val lf_head_eq [OF tk]
    by (auto simp: lf_take_def slot_of_nat intro!: logged_snoc)
  ultimately show ?thesis by (simp add: lf_ok_def)
qed

text \<open>The two methods.\<close>

lemma lf_reader:
  assumes ok: "lf_ok s" and small: "lf_small s"
    and pc: "lf_pc s t = DRead w \<or> lf_pc s t = DClear w v \<or> lf_pc s t = DStore w v"
  obtains p where "w = of_nat p" "slot_of w = p mod BoundedQueueSize" "unat w = p"
    "lf_phase s p = Reading t" "lf_current s p"
proof -
  obtain p where p: "w = of_nat p" "lf_phase s p = Reading t"
    using lf_ok_pc [OF ok, of t] pc by auto
  then have cur: "lf_current s p" using lf_active_current [OF lf_ok_tickets [OF ok], of p] by simp
  then have "p < 2 ^ 64" using small by (simp add: lf_current_def lf_small_def)
  then have "unat w = p" using p(1) by (simp add: unat_of_nat)
  with p cur show thesis using that [of p] by (simp add: slot_of_nat)
qed

lemma lf_Enqueue_keeps:
  assumes ok: "lf_ok s" and small: "lf_small s" and st: "LFMPMC_Enqueue_step t s = Some s'"
  shows "lf_ok s'"
proof (cases "lf_pc s t")
  case (ELoadTail v)
  with st lf_tail_eq [OF lf_ok_tickets [OF ok]]
    lf_ok_goto [OF ok, of t "ELoadSeq v (lf_tail s)"] show ?thesis
    by (auto simp: LFMPMC_Enqueue_step_def)
next
  case (ELoadSeq v w)
  then obtain p where p: "p \<le> lf_N s" "w = of_nat p" using lf_ok_pc [OF ok, of t] by auto
  have "lf_pc_ok s t (ECas v w)" if "lf_seq s (slot_of w) = w"
    using p that lf_reusable_iff [OF ok small] by (auto simp: slot_of_nat)
  with st ELoadSeq show ?thesis
    by (auto simp: LFMPMC_Enqueue_step_def Let_def intro!: lf_ok_goto [OF ok] split: if_splits
        simp del: lf_pc_ok.simps(2))
next
  case (ECas v w)
  then obtain p where p: "p \<le> lf_N s" "w = of_nat p" "p = lf_N s \<longrightarrow> lf_reusable s"
    using lf_ok_pc [OF ok, of t] by auto
  show ?thesis
  proof (cases "lf_tail s = w")
    case True
    then have "p = lf_N s"
      using p small lf_tail_eq [OF lf_ok_tickets [OF ok]] by (auto simp: lf_small_def u64_nat_eq)
    with p st ECas True lf_ok_claim [OF ok small, of t v] show ?thesis
      by (auto simp: LFMPMC_Enqueue_step_def lf_claim_def)
  next
    case False
    with st ECas lf_ok_goto [OF ok, of t "ELoadTail v"] show ?thesis
      by (auto simp: LFMPMC_Enqueue_step_def)
  qed
next
  case (EWrite v w)
  then obtain p where p: "w = of_nat p" "slot_of w = p mod BoundedQueueSize" "unat w = p"
    "lf_phase s p = Writing t" "lf_enqs s ! p = v" "lf_current s p" "lf_last s t (Enq v) (EnqRes True)"
    using lf_writer [OF ok small] by metis
  then have "lf_pc_ok (s\<lparr>lf_val := (lf_val s)(p mod BoundedQueueSize := v)\<rparr>) t (EStore v w)"
    by (simp add: exI [of _ p])
  with p lf_ok_write [OF ok p(6), of t v "EStore v w"] st EWrite show ?thesis
    by (auto simp: LFMPMC_Enqueue_step_def)
next
  case (EStore v w)
  then obtain p where p: "w = of_nat p" "slot_of w = p mod BoundedQueueSize" "unat w = p"
    "lf_phase s p = Writing t" "lf_enqs s ! p = v" "lf_current s p" "lf_last s t (Enq v) (EnqRes True)"
    "lf_val s (p mod BoundedQueueSize) = v"
    using lf_writer [OF ok small] by metis
  with lf_ok_publish [OF ok p(6), of t Full "EDone v True"] st EStore show ?thesis
    by (auto simp: LFMPMC_Enqueue_step_def lf_finished_def add.commute)
qed (use st in \<open>auto simp: LFMPMC_Enqueue_step_def\<close>)

lemma lf_Dequeue_keeps:
  assumes ok: "lf_ok s" and small: "lf_small s" and st: "LFMPMC_Dequeue_step t s = Some s'"
  shows "lf_ok s'"
proof (cases "lf_pc s t")
  case DLoadHead
  with st lf_head_eq [OF lf_ok_tickets [OF ok]]
    lf_ok_goto [OF ok, of t "DLoadSeq (lf_head s)"] show ?thesis
    by (auto simp: LFMPMC_Dequeue_step_def)
next
  case (DLoadSeq w)
  then obtain p where p: "p \<le> lf_deqs s" "w = of_nat p" using lf_ok_pc [OF ok, of t] by auto
  have "lf_pc_ok s t (DCas w)" if "lf_seq s (slot_of w) = w + 1"
    using p that lf_front_iff [OF ok small] by (auto simp: slot_of_nat)
  with st DLoadSeq show ?thesis
    by (auto simp: LFMPMC_Dequeue_step_def Let_def intro!: lf_ok_goto [OF ok] split: if_splits
        simp del: lf_pc_ok.simps(7))
next
  case (DCas w)
  then obtain p where p: "p \<le> lf_deqs s" "w = of_nat p" "p = lf_deqs s \<longrightarrow> lf_phase s p = Full"
    using lf_ok_pc [OF ok, of t] by auto
  show ?thesis
  proof (cases "lf_head s = w")
    case True
    then have "p = lf_deqs s"
      using p small lf_head_eq [OF lf_ok_tickets [OF ok]] lf_deqs_le [OF lf_ok_tickets [OF ok]]
      by (auto simp: lf_small_def u64_nat_eq)
    with p st DCas True lf_ok_take [OF ok, of t] show ?thesis
      by (auto simp: LFMPMC_Dequeue_step_def lf_take_def)
  next
    case False
    with st DCas lf_ok_goto [OF ok, of t DLoadHead] show ?thesis
      by (auto simp: LFMPMC_Dequeue_step_def)
  qed
next
  case (DRead w)
  then obtain p where p: "w = of_nat p" "lf_phase s p = Reading t"
    "lf_last s t Deq (DeqRes (lf_enqs s ! p) True)" "lf_val s (p mod BoundedQueueSize) = lf_enqs s ! p"
    using lf_ok_pc [OF ok, of t] by auto
  then have "lf_pc_ok s t (DClear w (lf_val s (slot_of w)))" by (auto simp: slot_of_nat)
  with st DRead lf_ok_goto [OF ok this] show ?thesis by (auto simp: LFMPMC_Dequeue_step_def)
next
  case (DClear w v)
  then obtain p where p: "w = of_nat p" "slot_of w = p mod BoundedQueueSize" "unat w = p"
    "lf_phase s p = Reading t" "lf_current s p"
    using lf_reader [OF ok small] by metis
  moreover have "lf_last s t Deq (DeqRes v True)" using lf_ok_pc [OF ok, of t] DClear by auto
  ultimately show ?thesis using lf_ok_write [OF ok p(5), of t 0 "DStore w v"] st DClear
    by (auto simp: LFMPMC_Dequeue_step_def)
next
  case (DStore w v)
  then obtain p where p: "w = of_nat p" "slot_of w = p mod BoundedQueueSize" "unat w = p"
    "lf_phase s p = Reading t" "lf_current s p"
    using lf_reader [OF ok small] by metis
  moreover have "lf_last s t Deq (DeqRes v True)" using lf_ok_pc [OF ok, of t] DStore by auto
  ultimately show ?thesis using lf_ok_publish [OF ok p(5), of t Done "DDone v True"] st DStore
    by (auto simp: LFMPMC_Dequeue_step_def lf_finished_def)
qed (use st in \<open>auto simp: LFMPMC_Dequeue_step_def\<close>)

lemma lf_N_mono:
  assumes "LFMPMC_step a s = Some s'"
  shows "lf_N s \<le> lf_N s'"
proof (cases a)
  case (LfStep t)
  with assms show ?thesis
    by (cases "lf_pc s t") (auto simp: LFMPMC_Enqueue_step_def LFMPMC_Dequeue_step_def Let_def
        split: if_splits)
qed (use assms in \<open>auto split: if_splits\<close>)

lemma lf_keeps:
  assumes ok: "lf_ok s" and small: "lf_small s" and st: "LFMPMC_step a s = Some s'"
  shows "lf_ok s'"
proof (cases a)
  case (LfStep t)
  with st lf_Enqueue_keeps [OF ok small] lf_Dequeue_keeps [OF ok small] show ?thesis
    by (auto split: option.splits)
qed (use st in \<open>auto intro!: lf_ok_goto [OF ok] split: if_splits\<close>)

text \<open>A ticket in progress is in the hands of the goroutine its phase names.\<close>

fun lf_writes :: "'a lf_pc \<Rightarrow> u64 option" where
  "lf_writes (EWrite v w) = Some w"
| "lf_writes (EStore v w) = Some w"
| "lf_writes _ = None"

fun lf_reads :: "'a lf_pc \<Rightarrow> u64 option" where
  "lf_reads (DRead w) = Some w"
| "lf_reads (DClear w v) = Some w"
| "lf_reads (DStore w v) = Some w"
| "lf_reads _ = None"

definition lf_owned :: "'a LockFreeMPMC \<Rightarrow> bool" where
  "lf_owned s \<longleftrightarrow>
     (\<forall>p t. lf_phase s p = Writing t \<longrightarrow> lf_writes (lf_pc s t) = Some (of_nat p))
     \<and> (\<forall>p t. lf_phase s p = Reading t \<longrightarrow> lf_reads (lf_pc s t) = Some (of_nat p))"

lemma lf_owned_goto:
  assumes "lf_owned s"
    and "lf_writes (lf_pc s t) = None \<or> lf_writes q = lf_writes (lf_pc s t)"
    and "lf_reads (lf_pc s t) = None \<or> lf_reads q = lf_reads (lf_pc s t)"
  shows "lf_owned (lf_goto t q s)" "lf_owned (s\<lparr>lf_val := vl, lf_pc := (lf_pc s)(t := q)\<rparr>)"
  using assms by (auto simp: lf_owned_def)

lemma lf_owned_finish:
  assumes ok: "lf_ok s" and small: "lf_small s" and own: "lf_owned s" and cur: "lf_current s p"
    and "lf_writes (lf_pc s t) = Some (of_nat p) \<or> lf_reads (lf_pc s t) = Some (of_nat p)"
    and "ph = Full \<or> ph = Done"
  shows "lf_owned (s\<lparr>lf_seq := sq, lf_pc := (lf_pc s)(t := q), lf_phase := (lf_phase s)(p := ph)\<rparr>)"
proof -
  have "r = p" if "lf_phase s r = Writing t \<or> lf_phase s r = Reading t" for r
  proof -
    have "lf_current s r" using that lf_active_current [OF lf_ok_tickets [OF ok], of r] by auto
    moreover have "(of_nat r :: u64) = of_nat p"
      using that own assms(5) unfolding lf_owned_def
      by (cases "lf_pc s t") fastforce+
    ultimately show ?thesis using cur small by (simp add: lf_current_def lf_small_def u64_nat_eq)
  qed
  then show ?thesis using own assms(6) by (auto simp: lf_owned_def)
qed

lemma lf_owned_step:
  assumes ok: "lf_ok s" and small: "lf_small s" and own: "lf_owned s"
    and st: "LFMPMC_step (LfStep t) s = Some s'"
  shows "lf_owned s'"
proof (cases "lf_pc s t")
  case (ECas v w)
  with st own lf_owned_goto(1) [OF own, of t "ELoadTail v"] lf_tail_eq [OF lf_ok_tickets [OF ok]]
  show ?thesis by (auto simp: LFMPMC_Enqueue_step_def lf_owned_def split: if_splits)
next
  case (DCas w)
  with st own lf_owned_goto(1) [OF own, of t DLoadHead] lf_head_eq [OF lf_ok_tickets [OF ok]]
  show ?thesis
    by (auto simp: LFMPMC_Enqueue_step_def LFMPMC_Dequeue_step_def lf_owned_def split: if_splits)
next
  case (EStore v w)
  then obtain p where "w = of_nat p" "unat w = p" "lf_current s p"
    using lf_writer [OF ok small, of t v w] by metis
  with st EStore lf_owned_finish [OF ok small own, of p t Full] show ?thesis
    by (auto simp: LFMPMC_Enqueue_step_def)
next
  case (DStore w v)
  then obtain p where "w = of_nat p" "unat w = p" "lf_current s p"
    using lf_reader [OF ok small, of t w v] by metis
  with st DStore lf_owned_finish [OF ok small own, of p t Done] show ?thesis
    by (auto simp: LFMPMC_Enqueue_step_def LFMPMC_Dequeue_step_def)
qed (use st lf_owned_goto [OF own, of t] in
    \<open>auto simp: LFMPMC_Enqueue_step_def LFMPMC_Dequeue_step_def Let_def split: if_splits\<close>)

lemma lf_owned_keeps:
  assumes ok: "lf_ok s" and small: "lf_small s" and own: "lf_owned s"
    and st: "LFMPMC_step a s = Some s'"
  shows "lf_owned s'"
proof (cases a)
  case (LfStep t)
  with lf_owned_step [OF ok small own] st show ?thesis by blast
next
  case (LfReturn t)
  with st lf_owned_goto(1) [OF own, of t LfIdle] show ?thesis
    by (cases "lf_pc s t") (auto simp: lf_finished_def)
qed (use st lf_owned_goto(1) [OF own] in \<open>auto split: if_splits\<close>)

definition lf_inv :: "'a::zero LockFreeMPMC \<Rightarrow> bool" where
  "lf_inv s \<longleftrightarrow> (lf_small s \<longrightarrow> lf_ok s \<and> lf_owned s)"

interpretation lockfree_mpmc: machine "\<lambda>s. s = NewLockFreeMPMC" LFMPMC_step lf_inv
proof unfold_locales
  show "s = NewLockFreeMPMC \<Longrightarrow> lf_inv s" for s :: "'a LockFreeMPMC"
    by (simp add: lf_inv_def lf_ok_def NewLockFreeMPMC_def lf_tickets_def lf_slots_def
        lf_current_def lf_abs_def lf_owned_def logged_Nil)
  show "lf_inv s \<Longrightarrow> LFMPMC_step a s = Some s' \<Longrightarrow> lf_inv s'" for s :: "'a LockFreeMPMC" and a s'
    using lf_keeps lf_owned_keeps lf_N_mono unfolding lf_inv_def lf_small_def by (metis le_less_trans)
qed

text \<open>The plain accesses of the slots.\<close>

fun lf_plain :: "'a lf_pc \<Rightarrow> u64 option" where
  "lf_plain (EWrite v w) = Some w"
| "lf_plain (DRead w) = Some w"
| "lf_plain (DClear w v) = Some w"
| "lf_plain _ = None"

lemma lf_plain_owner:
  assumes ok: "lf_ok s" and small: "lf_small s" and pl: "lf_plain (lf_pc s t) = Some w"
  obtains p where "slot_of w = p mod BoundedQueueSize" "lf_current s p"
    "lf_phase s p = Writing t \<or> lf_phase s p = Reading t"
proof (cases "lf_pc s t")
  case (EWrite v x)
  then show thesis using that lf_writer [OF ok small, of t v x] pl by auto
next
  case (DRead x)
  then show thesis using that lf_reader [OF ok small, of t x] pl by auto
next
  case (DClear x v)
  then show thesis using that lf_reader [OF ok small, of t x v] pl by auto
qed (use pl in auto)

lemma lf_no_race:
  assumes ok: "lf_ok s" and small: "lf_small s" and "t \<noteq> u"
    and "lf_plain (lf_pc s t) = Some w" and "lf_plain (lf_pc s u) = Some x"
  shows "slot_of w \<noteq> slot_of x"
proof
  assume eq: "slot_of w = slot_of x"
  obtain p where p: "slot_of w = p mod BoundedQueueSize" "lf_current s p"
    "lf_phase s p = Writing t \<or> lf_phase s p = Reading t"
    by (rule lf_plain_owner [OF ok small assms(4)])
  obtain q where q: "slot_of x = q mod BoundedQueueSize" "lf_current s q"
    "lf_phase s q = Writing u \<or> lf_phase s q = Reading u"
    by (rule lf_plain_owner [OF ok small assms(5)])
  have "p = q" using lf_current_slots [OF p(2) q(2)] p(1) q(1) eq by simp
  then show False using p(3) q(3) assms(3) by auto
qed

lemma lf_linearizable:
  assumes ok: "lf_ok s" and small: "lf_small s"
  shows "exec_ops (spec_queue BoundedQueueSize) (map (fst \<circ> snd) (lf_log s)) []
        = (lf_abs s, map (snd \<circ> snd) (lf_log s))
    \<and> accepted (map (fst \<circ> snd) (lf_log s)) (map (snd \<circ> snd) (lf_log s))
        = delivered (map (snd \<circ> snd) (lf_log s)) @ lf_abs s
    \<and> length (lf_abs s) \<le> BoundedQueueSize
    \<and> (\<forall>t v. lf_pc s t = EDone v True \<longrightarrow> lf_last s t (Enq v) (EnqRes True))
    \<and> (\<forall>t v. lf_pc s t = DDone v True \<longrightarrow> lf_last s t Deq (DeqRes v True))
    \<and> (\<forall>t u w x. t \<noteq> u \<longrightarrow> lf_plain (lf_pc s t) = Some w \<longrightarrow> lf_plain (lf_pc s u) = Some x
          \<longrightarrow> slot_of w \<noteq> slot_of x)"
proof -
  have log: "exec_ops (spec_queue BoundedQueueSize) (map (fst \<circ> snd) (lf_log s)) []
      = (lf_abs s, map (snd \<circ> snd) (lf_log s))"
    using lf_ok_log [OF ok] by (simp add: logged_def)
  have e: "lf_last s t (Enq v) (EnqRes True)" if "lf_pc s t = EDone v True" for t v
    using lf_ok_pc [OF ok, of t] that by simp
  have d: "lf_last s t Deq (DeqRes v True)" if "lf_pc s t = DDone v True" for t v
    using lf_ok_pc [OF ok, of t] that by simp
  have f: "accepted (map (fst \<circ> snd) (lf_log s)) (map (snd \<circ> snd) (lf_log s))
      = delivered (map (snd \<circ> snd) (lf_log s)) @ lf_abs s"
    using spec_queue_fifo [OF log] by (simp only: append_Nil)
  have b: "length (lf_abs s) \<le> BoundedQueueSize" using spec_queue_bounded [OF log] by simp
  show ?thesis
    by (intro conjI allI impI log f b e d lf_no_race [OF ok small]) assumption+
qed



section \<open>What a refusal means\<close>

definition lf_returns :: "'a LockFreeMPMC \<Rightarrow> tid \<Rightarrow> 'a::zero LockFreeMPMC \<Rightarrow> 'a lf_pc \<Rightarrow> bool" where
  "lf_returns s t s' p \<longleftrightarrow> LFMPMC_step (LfStep t) s = Some s' \<and> lf_pc s' t = p"

lemma lf_returns_EFalse:
  assumes "lf_returns s t s' (EDone v False)"
  shows "\<exists>w. lf_pc s t = ELoadSeq v w \<and> lf_seq s (slot_of w) - w <s 0 \<and> s' = lf_goto t (EDone v False) s"
  using assms by (cases "lf_pc s t")
    (auto simp: lf_returns_def LFMPMC_Enqueue_step_def LFMPMC_Dequeue_step_def Let_def split: if_splits)

lemma lf_returns_DFalse:
  assumes "lf_returns s t s' (DDone v False)"
  shows "\<exists>w. lf_pc s t = DLoadSeq w \<and> lf_seq s (slot_of w) - (w + 1) <s 0 \<and> v = 0
    \<and> s' = lf_goto t (DDone 0 False) s"
  using assms by (cases "lf_pc s t")
    (auto simp: lf_returns_def LFMPMC_Enqueue_step_def LFMPMC_Dequeue_step_def Let_def split: if_splits)

lemma lf_ownedD:
  "lf_owned s \<Longrightarrow> lf_phase s p = Writing t \<Longrightarrow> lf_writes (lf_pc s t) = Some (of_nat p)"
  "lf_owned s \<Longrightarrow> lf_phase s p = Reading t \<Longrightarrow> lf_reads (lf_pc s t) = Some (of_nat p)"
  unfolding lf_owned_def by blast+

lemma lf_full_cause:
  assumes ok: "lf_ok s" and own: "lf_owned s" and "\<not> lf_reusable s"
  shows "length (lf_abs s) = BoundedQueueSize
    \<or> (\<exists>u. lf_reads (lf_pc s u) = Some (of_nat (lf_N s - BoundedQueueSize)))"
proof -
  note tk = lf_ok_tickets [OF ok]
  let ?q = "lf_N s - BoundedQueueSize"
  have ge: "BoundedQueueSize \<le> lf_N s" and nd: "lf_phase s ?q \<noteq> Done"
    using assms(3) by (auto simp: lf_reusable_def)
  show ?thesis
  proof (cases "lf_taken (lf_phase s ?q)")
    case True
    with nd obtain u where "lf_phase s ?q = Reading u" by (cases "lf_phase s ?q") auto
    then show ?thesis using lf_ownedD(2) [OF own] by blast
  next
    case False
    then have "lf_deqs s \<le> ?q" using lf_taken_iff [OF tk, of ?q] by simp
    then have "lf_N s - lf_deqs s = BoundedQueueSize" using lf_N_le [OF tk] ge by linarith
    then show ?thesis by (simp add: lf_abs_def)
  qed
qed

lemma lf_empty_cause:
  assumes ok: "lf_ok s" and own: "lf_owned s" and nf: "lf_phase s (lf_deqs s) \<noteq> Full"
  shows "lf_abs s = [] \<or> (\<exists>u. lf_writes (lf_pc s u) = Some (of_nat (lf_deqs s)))"
proof (cases "lf_deqs s < lf_N s")
  case True
  with lf_front_phase [OF lf_ok_tickets [OF ok]] nf
  obtain u where "lf_phase s (lf_deqs s) = Writing u" by metis
  then show ?thesis using lf_ownedD(1) [OF own] by blast
qed (simp add: lf_abs_def)

lemma lf_refusal_cause:
  assumes ok: "lf_ok s" and small: "lf_small s"
  shows "lf_pc s t = ELoadSeq v w \<Longrightarrow> lf_seq s (slot_of w) - w <s 0 \<Longrightarrow> \<not> lf_reusable s"
    and "lf_pc s t = DLoadSeq w \<Longrightarrow> lf_seq s (slot_of w) - (w + 1) <s 0 \<Longrightarrow>
      lf_phase s (lf_deqs s) \<noteq> Full"
proof -
  assume pc: "lf_pc s t = ELoadSeq v w" and neg: "lf_seq s (slot_of w) - w <s 0"
  then obtain p where p: "p \<le> lf_N s" "w = of_nat p" using lf_ok_pc [OF ok, of t] by auto
  then have "p = lf_N s"
    using lf_stale_not_full [OF ok small, of p] neg by (auto simp: slot_of_nat order_le_less)
  then show "\<not> lf_reusable s" using lf_reusable_iff(2) [OF ok small] neg p by (simp add: slot_of_nat)
next
  assume pc: "lf_pc s t = DLoadSeq w" and neg: "lf_seq s (slot_of w) - (w + 1) <s 0"
  then obtain p where p: "p \<le> lf_deqs s" "w = of_nat p" using lf_ok_pc [OF ok, of t] by auto
  then have "p = lf_deqs s"
    using lf_stale_not_empty [OF ok small, of p] neg by (auto simp: slot_of_nat order_le_less)
  then show "lf_phase s (lf_deqs s) \<noteq> Full"
    using lf_front_iff(2) [OF ok small] neg p by (simp add: slot_of_nat)
qed

text \<open>C39: What a refusal of \<^verbatim>\<open>LockFreeMPMC\<close> means, exactly. The step at which a call decides to
  report a full ring finds the ring full, or a consumer still emptying the very slot the next
  producer needs; the step at which a call decides to report an empty ring finds it empty, or a
  producer that has claimed the oldest value's slot and not yet published it. (The queue is
  therefore not linearizable for refusals: a value enqueued later and completely can already be
  waiting behind that slot.) The ring itself is unchanged.\<close>

theorem lockfree_mpmc_refusals:
  assumes "run LFMPMC_step as NewLockFreeMPMC = Some s" and "length (lf_enqs s) < 2 ^ 62"
  shows "(\<forall>t s' v. lf_returns s t s' (EDone v False) \<longrightarrow> lf_abs s' = lf_abs s \<and>
           (length (lf_abs s) = BoundedQueueSize
            \<or> (\<exists>u. lf_reads (lf_pc s u) = Some (of_nat (length (lf_enqs s) - BoundedQueueSize)))))
       \<and> (\<forall>t s' v. lf_returns s t s' (DDone v False) \<longrightarrow> lf_abs s' = lf_abs s \<and> v = 0 \<and>
           (lf_abs s = [] \<or> (\<exists>u. lf_writes (lf_pc s u) = Some (of_nat (lf_deqs s)))))"
proof -
  have small: "lf_small s" using assms(2) by (simp add: lf_small_def)
  have ok: "lf_ok s" and own: "lf_owned s"
    using lockfree_mpmc.invariant [OF refl assms(1)] small by (simp_all add: lf_inv_def)
  have "lf_abs s' = lf_abs s \<and> (length (lf_abs s) = BoundedQueueSize
      \<or> (\<exists>u. lf_reads (lf_pc s u) = Some (of_nat (length (lf_enqs s) - BoundedQueueSize))))"
    if "lf_returns s t s' (EDone v False)" for t s' v
    using lf_returns_EFalse [OF that] lf_refusal_cause(1) [OF ok small] lf_full_cause [OF ok own]
    by (auto simp: lf_abs_def)
  moreover have "lf_abs s' = lf_abs s \<and> v = 0 \<and>
      (lf_abs s = [] \<or> (\<exists>u. lf_writes (lf_pc s u) = Some (of_nat (lf_deqs s))))"
    if "lf_returns s t s' (DDone v False)" for t s' v
    using lf_returns_DFalse [OF that] lf_refusal_cause(2) [OF ok small] lf_empty_cause [OF ok own]
    by (auto simp: lf_abs_def)
  ultimately show ?thesis by blast
qed

lemma lockfree_mpmc_refusals_witness:
  "\<exists>s s'. run LFMPMC_step [LfEnqueue 1 (7::nat), LfStep 1, LfStep 1, LfStep 1,
       LfEnqueue 2 8, LfStep 2, LfStep 2, LfStep 2, LfStep 2, LfStep 2, LfDequeue 3, LfStep 3]
       NewLockFreeMPMC = Some s
     \<and> lf_pc s 2 = EDone 8 True \<and> lf_abs s = [7, 8]
     \<and> lf_returns s 3 s' (DDone 0 False) \<and> (\<exists>u. lf_writes (lf_pc s u) = Some (of_nat (lf_deqs s)))"
proof -
  have sl: "slot_of 0 = 0" "slot_of 1 = 1" "1 mod BoundedQueueSize = 1"
    using slot_of_nat [of 0] slot_of_nat [of 1] by (simp_all add: BoundedQueueSize_def)
  obtain s where r: "run LFMPMC_step [LfEnqueue 1 (7::nat), LfStep 1, LfStep 1, LfStep 1,
       LfEnqueue 2 8, LfStep 2, LfStep 2, LfStep 2, LfStep 2, LfStep 2, LfDequeue 3, LfStep 3]
       NewLockFreeMPMC = Some s"
    and n: "length (lf_enqs s) = 2" and c: "lf_pc s 2 = EDone 8 True" "lf_abs s = [7, 8]"
    and pc: "lf_pc s 3 = DLoadSeq 0" "lf_seq s 0 = 0"
    by (simp add: NewLockFreeMPMC_def LFMPMC_Enqueue_step_def LFMPMC_Dequeue_step_def Let_def sl
        word_sless_alt lf_abs_def del: One_nat_def)
  have d: "lf_returns s 3 (lf_goto 3 (DDone 0 False) s) (DDone 0 False)"
    using pc by (simp add: lf_returns_def LFMPMC_Enqueue_step_def LFMPMC_Dequeue_step_def Let_def sl
        word_sless_alt)
  have "length (lf_enqs s) < 2 ^ 62" using n by simp
  from lockfree_mpmc_refusals [OF r this] d c
  have "\<exists>u. lf_writes (lf_pc s u) = Some (of_nat (lf_deqs s))" by auto
  with r c d show ?thesis by blast
qed

section \<open>Calls that run alone\<close>

lemma lf_alone_Enqueue_ok:
  assumes "lf_pc s t = LfIdle" and "lf_seq s (slot_of (lf_tail s)) = lf_tail s"
  shows "\<exists>s'. run LFMPMC_step (LfEnqueue t v # replicate 5 (LfStep t)) s = Some s'
    \<and> lf_pc s' t = EDone v True \<and> lf_enqs s' = lf_enqs s @ [v] \<and> lf_deqs s' = lf_deqs s"
  using assms by (simp add: LFMPMC_Enqueue_step_def Let_def numeral_eq_Suc word_sless_alt)

lemma lf_alone_Enqueue_full:
  assumes "lf_pc s t = LfIdle" and "lf_seq s (slot_of (lf_tail s)) - lf_tail s <s 0"
  shows "\<exists>s'. run LFMPMC_step (LfEnqueue t v # replicate 2 (LfStep t)) s = Some s'
    \<and> lf_pc s' t = EDone v False \<and> lf_enqs s' = lf_enqs s \<and> lf_deqs s' = lf_deqs s"
  using assms by (simp add: LFMPMC_Enqueue_step_def Let_def numeral_eq_Suc)

lemma lf_alone_Dequeue_ok:
  assumes "lf_pc s t = LfIdle" and "lf_seq s (slot_of (lf_head s)) = lf_head s + 1"
  shows "\<exists>s'. run LFMPMC_step (LfDequeue t # replicate 6 (LfStep t)) s = Some s'
    \<and> lf_pc s' t = DDone (lf_val s (slot_of (lf_head s))) True
    \<and> lf_enqs s' = lf_enqs s \<and> lf_deqs s' = Suc (lf_deqs s)"
  using assms
  by (simp add: LFMPMC_Enqueue_step_def LFMPMC_Dequeue_step_def Let_def numeral_eq_Suc word_sless_alt)

lemma lf_alone_Dequeue_empty:
  assumes "lf_pc s t = LfIdle" and "lf_seq s (slot_of (lf_head s)) - (lf_head s + 1) <s 0"
  shows "\<exists>s'. run LFMPMC_step (LfDequeue t # replicate 2 (LfStep t)) s = Some s'
    \<and> lf_pc s' t = DDone 0 False \<and> lf_enqs s' = lf_enqs s \<and> lf_deqs s' = lf_deqs s"
  using assms by (simp add: LFMPMC_Enqueue_step_def LFMPMC_Dequeue_step_def Let_def numeral_eq_Suc)

text \<open>A call of \<^verbatim>\<open>LockFreeMPMC\<close> that runs alone ends, in at most six accesses, with exactly
  the result of the bounded FIFO queue. It may start in any reachable state in which no other
  goroutine is between its CAS and its publication; goroutines stopped elsewhere in their loops
  do not disturb it.\<close>

theorem lockfree_mpmc_alone:
  assumes "run LFMPMC_step as NewLockFreeMPMC = Some s" and "length (lf_enqs s) < 2 ^ 62"
    and "\<forall>u. lf_writes (lf_pc s u) = None \<and> lf_reads (lf_pc s u) = None"
    and "lf_pc s t = LfIdle"
  shows "(\<exists>k s'. k \<le> 5 \<and> run LFMPMC_step (LfEnqueue t v # replicate k (LfStep t)) s = Some s'
          \<and> (\<exists>b. lf_pc s' t = EDone v b
               \<and> spec_queue BoundedQueueSize (Enq v) (lf_abs s) = (lf_abs s', EnqRes b)))
       \<and> (\<exists>k s'. k \<le> 6 \<and> run LFMPMC_step (LfDequeue t # replicate k (LfStep t)) s = Some s'
          \<and> (\<exists>x b. lf_pc s' t = DDone x b
               \<and> spec_queue BoundedQueueSize Deq (lf_abs s) = (lf_abs s', DeqRes x b)))"
proof -
  have small: "lf_small s" using assms(2) by (simp add: lf_small_def)
  have ok: "lf_ok s" and own: "lf_owned s"
    using lockfree_mpmc.invariant [OF refl assms(1)] small by (simp_all add: lf_inv_def)
  note tk = lf_ok_tickets [OF ok]
  have full: "length (lf_abs s) = BoundedQueueSize" if "\<not> lf_reusable s"
    using lf_full_cause [OF ok own that] assms(3) by simp
  have empty: "lf_abs s = []" if "lf_phase s (lf_deqs s) \<noteq> Full"
    using lf_empty_cause [OF ok own that] assms(3) by simp
  have "\<exists>k s'. k \<le> 5 \<and> run LFMPMC_step (LfEnqueue t v # replicate k (LfStep t)) s = Some s'
      \<and> (\<exists>b. lf_pc s' t = EDone v b
           \<and> spec_queue BoundedQueueSize (Enq v) (lf_abs s) = (lf_abs s', EnqRes b))"
  proof (cases "lf_reusable s")
    case True
    then have "lf_seq s (slot_of (lf_tail s)) = lf_tail s"
      using lf_reusable_iff(1) [OF ok small] lf_tail_eq [OF tk] by (simp add: slot_of_nat)
    from lf_alone_Enqueue_ok [OF assms(4) this, of v] show ?thesis
      using lf_reusable_room [OF tk True] lf_deqs_le [OF tk]
      by (intro exI [of _ 5]) (auto simp: lf_abs_def simp del: run.simps)
  next
    case False
    then have "lf_seq s (slot_of (lf_tail s)) - lf_tail s <s 0"
      using lf_reusable_iff(2) [OF ok small] lf_tail_eq [OF tk] by (simp add: slot_of_nat)
    from lf_alone_Enqueue_full [OF assms(4) this, of v] show ?thesis
      using full [OF False] by (intro exI [of _ 2]) (auto simp: lf_abs_def simp del: run.simps)
  qed
  moreover have "\<exists>k s'. k \<le> 6 \<and> run LFMPMC_step (LfDequeue t # replicate k (LfStep t)) s = Some s'
      \<and> (\<exists>x b. lf_pc s' t = DDone x b
           \<and> spec_queue BoundedQueueSize Deq (lf_abs s) = (lf_abs s', DeqRes x b))"
  proof (cases "lf_phase s (lf_deqs s) = Full")
    case True
    then have "lf_seq s (slot_of (lf_head s)) = lf_head s + 1"
      using lf_front_iff(1) [OF ok small] lf_head_eq [OF tk] by (simp add: slot_of_nat)
    moreover have "lf_deqs s < lf_N s" using lf_free_iff [OF tk, of "lf_deqs s"] True by simp
    then have "lf_abs s = lf_val s (slot_of (lf_head s)) # drop (Suc (lf_deqs s)) (lf_enqs s)"
      using lf_val_full [OF lf_ok_slots [OF ok] True] lf_head_eq [OF tk]
      by (simp add: lf_abs_def slot_of_nat Cons_nth_drop_Suc)
    ultimately show ?thesis using lf_alone_Dequeue_ok [OF assms(4)]
      by (intro exI [of _ 6]) (auto simp: lf_abs_def simp del: run.simps)
  next
    case False
    then have "lf_seq s (slot_of (lf_head s)) - (lf_head s + 1) <s 0"
      using lf_front_iff(2) [OF ok small] lf_head_eq [OF tk] by (simp add: slot_of_nat)
    from lf_alone_Dequeue_empty [OF assms(4) this] show ?thesis
      using empty [OF False] by (intro exI [of _ 2]) (auto simp: lf_abs_def simp del: run.simps)
  qed
  ultimately show ?thesis by blast
qed

lemma lockfree_mpmc_alone_witness:
  "\<exists>k s'. k \<le> 5
     \<and> run LFMPMC_step (LfEnqueue 1 (7::nat) # replicate k (LfStep 1)) NewLockFreeMPMC = Some s'
     \<and> lf_pc s' 1 = EDone 7 True"
proof -
  have z: "run LFMPMC_step [] NewLockFreeMPMC = Some (NewLockFreeMPMC :: nat LockFreeMPMC)"
    "length (lf_enqs (NewLockFreeMPMC :: nat LockFreeMPMC)) < 2 ^ 62"
    "\<forall>u. lf_writes (lf_pc (NewLockFreeMPMC :: nat LockFreeMPMC) u) = None
      \<and> lf_reads (lf_pc (NewLockFreeMPMC :: nat LockFreeMPMC) u) = None"
    "lf_pc (NewLockFreeMPMC :: nat LockFreeMPMC) 1 = LfIdle"
    "lf_abs (NewLockFreeMPMC :: nat LockFreeMPMC) = []"
    by (simp_all add: NewLockFreeMPMC_def lf_abs_def)
  have "0 < BoundedQueueSize" by (simp add: BoundedQueueSize_def)
  with lockfree_mpmc_alone [OF z(1-4), of 7] z(5) show ?thesis by (auto simp del: run.simps)
qed

end
