(* ===== verification/Queue_LockFree_Variants.thy ===== *)
theory Queue_LockFree_Variants
  imports Queue_LockFree
begin

text \<open>
  Two siblings of \<^verbatim>\<open>LockFreeMPMC\<close>. \<^verbatim>\<open>LockFreePaddedMPMC\<close>
  (\<^verbatim>\<open>queue/lockfree_padded_mpmc.go\<close>) has the same fields and code with cache-line padding in
  between, which no method reads. \<^verbatim>\<open>LockFreeMPSC\<close> (\<^verbatim>\<open>queue/lockfree_mpsc.go\<close>) has the
  same producers and one consumer that keeps \<^verbatim>\<open>head\<close> as a plain field and needs no CAS: it
  refines \<^verbatim>\<open>LockFreeMPMC\<close>, its consumer being one whose CAS never fails.
\<close>

section \<open>LockFreePaddedMPMC\<close>

type_synonym 'a LockFreePaddedMPMC = "'a LockFreeMPMC"

definition NewLockFreePaddedMPMC :: "'a::zero LockFreePaddedMPMC" where
  "NewLockFreePaddedMPMC = \<lparr>lf_seq = (\<lambda>i. of_nat i), lf_val = (\<lambda>_. 0), lf_head = 0, lf_tail = 0,
     lf_pc = (\<lambda>_. LfIdle), lf_enqs = [], lf_deqs = 0, lf_phase = (\<lambda>_. Free), lf_log = []\<rparr>"

definition Padded_Enqueue_step :: "tid \<Rightarrow> 'a LockFreePaddedMPMC \<Rightarrow> 'a LockFreePaddedMPMC option" where
  "Padded_Enqueue_step t b =
     (case lf_pc b t of
        ELoadTail v \<Rightarrow> Some (lf_goto t (ELoadSeq v (lf_tail b)) b)
      | ELoadSeq v tail \<Rightarrow>
          (let diff = lf_seq b (slot_of tail) - tail
           in if diff <s 0 then Some (lf_goto t (EDone v False) b)
              else if diff = 0 then Some (lf_goto t (ECas v tail) b)
              else Some (lf_goto t (ELoadTail v) b))
      | ECas v tail \<Rightarrow>
          (if lf_tail b = tail
           then Some (b\<lparr>lf_tail := tail + 1, lf_pc := (lf_pc b)(t := EWrite v tail),
                        lf_enqs := lf_enqs b @ [v],
                        lf_phase := (lf_phase b)(length (lf_enqs b) := Writing t),
                        lf_log := lf_log b @ [(t, Enq v, EnqRes True)]\<rparr>)
           else Some (lf_goto t (ELoadTail v) b))
      | EWrite v tail \<Rightarrow> Some (b\<lparr>lf_val := (lf_val b)(slot_of tail := v),
                                lf_pc := (lf_pc b)(t := EStore v tail)\<rparr>)
      | EStore v tail \<Rightarrow> Some (b\<lparr>lf_seq := (lf_seq b)(slot_of tail := tail + 1),
                                lf_pc := (lf_pc b)(t := EDone v True),
                                lf_phase := (lf_phase b)(unat tail := Full)\<rparr>)
      | _ \<Rightarrow> None)"

definition Padded_Dequeue_step :: "tid \<Rightarrow> 'a::zero LockFreePaddedMPMC \<Rightarrow> 'a LockFreePaddedMPMC option" where
  "Padded_Dequeue_step t b =
     (case lf_pc b t of
        DLoadHead \<Rightarrow> Some (lf_goto t (DLoadSeq (lf_head b)) b)
      | DLoadSeq head \<Rightarrow>
          (let diff = lf_seq b (slot_of head) - (head + 1)
           in if diff <s 0 then Some (lf_goto t (DDone 0 False) b)
              else if diff = 0 then Some (lf_goto t (DCas head) b)
              else Some (lf_goto t DLoadHead b))
      | DCas head \<Rightarrow>
          (if lf_head b = head
           then Some (b\<lparr>lf_head := head + 1, lf_pc := (lf_pc b)(t := DRead head),
                        lf_deqs := lf_deqs b + 1,
                        lf_phase := (lf_phase b)(lf_deqs b := Reading t),
                        lf_log := lf_log b @ [(t, Deq, DeqRes (lf_val b (slot_of head)) True)]\<rparr>)
           else Some (lf_goto t DLoadHead b))
      | DRead head \<Rightarrow> Some (lf_goto t (DClear head (lf_val b (slot_of head))) b)
      | DClear head v \<Rightarrow> Some (b\<lparr>lf_val := (lf_val b)(slot_of head := 0),
                                lf_pc := (lf_pc b)(t := DStore head v)\<rparr>)
      | DStore head v \<Rightarrow> Some (b\<lparr>lf_seq := (lf_seq b)(slot_of head := head + of_nat BoundedQueueSize),
                                lf_pc := (lf_pc b)(t := DDone v True),
                                lf_phase := (lf_phase b)(unat head := Done)\<rparr>)
      | _ \<Rightarrow> None)"

fun Padded_step :: "'a::zero lf_act \<Rightarrow> 'a LockFreePaddedMPMC \<Rightarrow> 'a LockFreePaddedMPMC option" where
  "Padded_step (LfEnqueue t v) b =
     (if lf_pc b t = LfIdle then Some (lf_goto t (ELoadTail v) b) else None)"
| "Padded_step (LfDequeue t) b =
     (if lf_pc b t = LfIdle then Some (lf_goto t DLoadHead b) else None)"
| "Padded_step (LfStep t) b =
     (case Padded_Enqueue_step t b of Some b' \<Rightarrow> Some b' | None \<Rightarrow> Padded_Dequeue_step t b)"
| "Padded_step (LfReturn t) b =
     (if lf_finished (lf_pc b t) then Some (lf_goto t LfIdle b) else None)"

lemma padded_same:
  "NewLockFreePaddedMPMC = NewLockFreeMPMC"
  "Padded_Enqueue_step t b = LFMPMC_Enqueue_step t b"
  "Padded_Dequeue_step t c = LFMPMC_Dequeue_step t c"
  "Padded_step a c = LFMPMC_step a c"
proof -
  show e: "Padded_Enqueue_step t b = LFMPMC_Enqueue_step t b" for t and b :: "'b LockFreeMPMC"
    by (simp only: Padded_Enqueue_step_def LFMPMC_Enqueue_step_def)
  show d: "Padded_Dequeue_step t c = LFMPMC_Dequeue_step t c" for t and c :: "'c LockFreeMPMC"
    by (simp only: Padded_Dequeue_step_def LFMPMC_Dequeue_step_def)
  show "NewLockFreePaddedMPMC = NewLockFreeMPMC"
    by (simp only: NewLockFreePaddedMPMC_def NewLockFreeMPMC_def)
  have "Padded_Enqueue_step t c = LFMPMC_Enqueue_step t c" for t
    by (simp only: Padded_Enqueue_step_def LFMPMC_Enqueue_step_def)
  then show "Padded_step a c = LFMPMC_step a c"
    by (cases a) (simp_all only: d Padded_step.simps LFMPMC_step.simps)
qed

interpretation padded_mpmc: machine "\<lambda>s. s = NewLockFreePaddedMPMC" Padded_step lf_inv
  by unfold_locales
    (simp_all only: padded_same lockfree_mpmc.inv_init lockfree_mpmc.inv_step)

text \<open>\<^verbatim>\<open>LockFreePaddedMPMC\<close> is linearizable on its successful operations to the bounded
  FIFO queue of capacity 1024, under every interleaving of fewer than \<open>2 ^ 62\<close> enqueues, every
  finished call returns its recorded result, and no two goroutines access the value of the same
  slot.\<close>

theorem padded_mpmc_linearizable:
  assumes "run Padded_step as NewLockFreePaddedMPMC = Some s" and "length (lf_enqs s) < 2 ^ 62"
  shows "exec_ops (spec_queue BoundedQueueSize) (map (fst \<circ> snd) (lf_log s)) []
        = (lf_abs s, map (snd \<circ> snd) (lf_log s))
    \<and> accepted (map (fst \<circ> snd) (lf_log s)) (map (snd \<circ> snd) (lf_log s))
        = delivered (map (snd \<circ> snd) (lf_log s)) @ lf_abs s
    \<and> length (lf_abs s) \<le> BoundedQueueSize
    \<and> (\<forall>t v. lf_pc s t = EDone v True \<longrightarrow> lf_last s t (Enq v) (EnqRes True))
    \<and> (\<forall>t v. lf_pc s t = DDone v True \<longrightarrow> lf_last s t Deq (DeqRes v True))
    \<and> (\<forall>t u w x. t \<noteq> u \<longrightarrow> lf_plain (lf_pc s t) = Some w \<longrightarrow> lf_plain (lf_pc s u) = Some x
          \<longrightarrow> slot_of w \<noteq> slot_of x)"
  using lf_linearizable padded_mpmc.invariant [OF refl assms(1)] assms(2)
  unfolding lf_inv_def lf_small_def by blast

lemma padded_mpmc_linearizable_witness:
  "\<exists>s. run Padded_step [LfEnqueue 1 (7::nat), LfStep 1, LfStep 1, LfStep 1, LfStep 1, LfStep 1]
      NewLockFreePaddedMPMC = Some s
    \<and> lf_pc s 1 = EDone 7 True \<and> lf_last s 1 (Enq 7) (EnqRes True)"
proof -
  have sl: "slot_of 0 = 0" using slot_of_nat [of 0] by simp
  obtain s where r: "run Padded_step [LfEnqueue 1 (7::nat), LfStep 1, LfStep 1, LfStep 1, LfStep 1,
      LfStep 1] NewLockFreePaddedMPMC = Some s"
    and n: "length (lf_enqs s) = 1" and c: "lf_pc s 1 = EDone 7 True"
    by (simp add: NewLockFreePaddedMPMC_def Padded_Enqueue_step_def Let_def sl word_sless_alt
        del: One_nat_def)
  have "length (lf_enqs s) < 2 ^ 62" using n by simp
  from r c padded_mpmc_linearizable [OF r this] show ?thesis by blast
qed

section \<open>LockFreeMPSC\<close>

datatype 'a mpsc_cons =
    McIdle
  | McTest                \<comment> \<open>\<open>seq := slot.seq.Load()\<close> and \<open>seq != b.head+1\<close>\<close>
  | McRead                \<comment> \<open>\<open>v := slot.val\<close>\<close>
  | McClear 'a            \<comment> \<open>\<open>slot.val = zero\<close>\<close>
  | McStore 'a            \<comment> \<open>\<open>slot.seq.Store(b.head + BoundedQueueSize); b.head++\<close>\<close>
  | McDone 'a bool

record 'a LockFreeMPSC =
  mp_seq :: "nat \<Rightarrow> u64"
  mp_val :: "nat \<Rightarrow> 'a"
  mp_head :: u64
  mp_tail :: u64
  mp_prod :: "tid \<Rightarrow> 'a lf_pc"
  mp_cons :: "'a mpsc_cons"
  mp_enqs :: "'a list"
  mp_deqs :: nat
  mp_phase :: "nat \<Rightarrow> lf_phase"
  mp_log :: "(tid \<times> 'a queue_op \<times> 'a queue_result) list"

text \<open>In the auxiliary fields the consumer is goroutine \<open>0\<close> and the producer \<open>t\<close> is \<open>Suc t\<close>.\<close>

definition NewLockFreeMPSC :: "'a::zero LockFreeMPSC" where
  "NewLockFreeMPSC = \<lparr>mp_seq = (\<lambda>i. of_nat i), mp_val = (\<lambda>_. 0), mp_head = 0, mp_tail = 0,
     mp_prod = (\<lambda>_. LfIdle), mp_cons = McIdle, mp_enqs = [], mp_deqs = 0,
     mp_phase = (\<lambda>_. Free), mp_log = []\<rparr>"

abbreviation mp_goto :: "tid \<Rightarrow> 'a lf_pc \<Rightarrow> 'a LockFreeMPSC \<Rightarrow> 'a LockFreeMPSC" where
  "mp_goto t p s \<equiv> s\<lparr>mp_prod := (mp_prod s)(t := p)\<rparr>"

definition MPSC_Enqueue_step :: "tid \<Rightarrow> 'a LockFreeMPSC \<Rightarrow> 'a LockFreeMPSC option" where
  "MPSC_Enqueue_step t b =
     (case mp_prod b t of
        ELoadTail v \<Rightarrow> Some (mp_goto t (ELoadSeq v (mp_tail b)) b)
      | ELoadSeq v tail \<Rightarrow>
          (let diff = mp_seq b (slot_of tail) - tail
           in if diff <s 0 then Some (mp_goto t (EDone v False) b)
              else if diff = 0 then Some (mp_goto t (ECas v tail) b)
              else Some (mp_goto t (ELoadTail v) b))
      | ECas v tail \<Rightarrow>
          (if mp_tail b = tail
           then Some (b\<lparr>mp_tail := tail + 1, mp_prod := (mp_prod b)(t := EWrite v tail),
                        mp_enqs := mp_enqs b @ [v],
                        mp_phase := (mp_phase b)(length (mp_enqs b) := Writing (Suc t)),
                        mp_log := mp_log b @ [(Suc t, Enq v, EnqRes True)]\<rparr>)
           else Some (mp_goto t (ELoadTail v) b))
      | EWrite v tail \<Rightarrow> Some (b\<lparr>mp_val := (mp_val b)(slot_of tail := v),
                                mp_prod := (mp_prod b)(t := EStore v tail)\<rparr>)
      | EStore v tail \<Rightarrow> Some (b\<lparr>mp_seq := (mp_seq b)(slot_of tail := tail + 1),
                                mp_prod := (mp_prod b)(t := EDone v True),
                                mp_phase := (mp_phase b)(unat tail := Full)\<rparr>)
      | _ \<Rightarrow> None)"

definition MPSC_Dequeue_step :: "'a::zero LockFreeMPSC \<Rightarrow> 'a LockFreeMPSC option" where
  "MPSC_Dequeue_step b =
     (case mp_cons b of
        McTest \<Rightarrow>
          (let seq = mp_seq b (slot_of (mp_head b))
           in if seq \<noteq> mp_head b + 1 then Some (b\<lparr>mp_cons := McDone 0 False\<rparr>)
              else Some (b\<lparr>mp_cons := McRead, mp_deqs := mp_deqs b + 1,
                           mp_phase := (mp_phase b)(mp_deqs b := Reading 0),
                           mp_log := mp_log b
                             @ [(0, Deq, DeqRes (mp_val b (slot_of (mp_head b))) True)]\<rparr>))
      | McRead \<Rightarrow> Some (b\<lparr>mp_cons := McClear (mp_val b (slot_of (mp_head b)))\<rparr>)
      | McClear v \<Rightarrow> Some (b\<lparr>mp_val := (mp_val b)(slot_of (mp_head b) := 0), mp_cons := McStore v\<rparr>)
      | McStore v \<Rightarrow> Some (b\<lparr>mp_seq := (mp_seq b)(slot_of (mp_head b) := mp_head b + of_nat BoundedQueueSize),
                            mp_head := mp_head b + 1, mp_cons := McDone v True,
                            mp_phase := (mp_phase b)(unat (mp_head b) := Done)\<rparr>)
      | _ \<Rightarrow> None)"

datatype 'a mpsc_act = MpEnqueue tid 'a | MpDequeue | MpStepProd tid | MpStepCons
  | MpReturnProd tid | MpReturnCons

fun MPSC_step :: "'a::zero mpsc_act \<Rightarrow> 'a LockFreeMPSC \<Rightarrow> 'a LockFreeMPSC option" where
  "MPSC_step (MpEnqueue t v) b =
     (if mp_prod b t = LfIdle then Some (mp_goto t (ELoadTail v) b) else None)"
| "MPSC_step MpDequeue b = (if mp_cons b = McIdle then Some (b\<lparr>mp_cons := McTest\<rparr>) else None)"
| "MPSC_step (MpStepProd t) b = MPSC_Enqueue_step t b"
| "MPSC_step MpStepCons b = MPSC_Dequeue_step b"
| "MPSC_step (MpReturnProd t) b =
     (if lf_finished (mp_prod b t) then Some (mp_goto t LfIdle b) else None)"
| "MPSC_step MpReturnCons b =
     (case mp_cons b of McDone v r \<Rightarrow> Some (b\<lparr>mp_cons := McIdle\<rparr>) | _ \<Rightarrow> None)"

text \<open>The \<^verbatim>\<open>LockFreeMPMC\<close> it stands for: its head has moved once the consumer has passed its
  test.\<close>

fun mc_claimed :: "'a mpsc_cons \<Rightarrow> bool" where
  "mc_claimed McRead = True" | "mc_claimed (McClear v) = True" | "mc_claimed (McStore v) = True"
| "mc_claimed _ = False"

fun mc_view :: "u64 \<Rightarrow> 'a mpsc_cons \<Rightarrow> 'a lf_pc" where
  "mc_view h McIdle = LfIdle"
| "mc_view h McTest = DLoadHead"
| "mc_view h McRead = DRead h"
| "mc_view h (McClear v) = DClear h v"
| "mc_view h (McStore v) = DStore h v"
| "mc_view h (McDone v b) = DDone v b"

definition mp_pcs :: "'a lf_pc \<Rightarrow> (tid \<Rightarrow> 'a lf_pc) \<Rightarrow> tid \<Rightarrow> 'a lf_pc" where
  "mp_pcs c ps u = (case u of 0 \<Rightarrow> c | Suc t \<Rightarrow> ps t)"

definition mp_view :: "'a LockFreeMPSC \<Rightarrow> 'a LockFreeMPMC" where
  "mp_view s = \<lparr>lf_seq = mp_seq s, lf_val = mp_val s,
     lf_head = mp_head s + (if mc_claimed (mp_cons s) then 1 else 0), lf_tail = mp_tail s,
     lf_pc = mp_pcs (mc_view (mp_head s) (mp_cons s)) (mp_prod s), lf_enqs = mp_enqs s, lf_deqs = mp_deqs s, lf_phase = mp_phase s,
     lf_log = mp_log s\<rparr>"

lemma mp_pcs_simps [simp]:
  "mp_pcs c ps 0 = c" "mp_pcs c ps (Suc t) = ps t"
  "(mp_pcs c ps)(0 := d) = mp_pcs d ps"
  "(mp_pcs c ps)(Suc t := p) = mp_pcs c (ps(t := p))"
  by (auto simp: mp_pcs_def fun_eq_iff split: nat.splits)

text \<open>The producers take the steps of their siblings.\<close>

lemma MPSC_Enqueue_simulates:
  assumes "MPSC_Enqueue_step t s = Some s'"
  shows "LFMPMC_step (LfStep (Suc t)) (mp_view s) = Some (mp_view s')"
  using assms
  by (cases "mp_prod s t")
    (auto simp: MPSC_Enqueue_step_def LFMPMC_Enqueue_step_def mp_view_def Let_def split: if_splits)

text \<open>The consumer's test is a load of the head, a load of the sequence number and, when it
  passes, a CAS.\<close>

lemma MPSC_test_simulates:
  assumes ok: "lf_ok (mp_view s)" and small: "lf_small (mp_view s)" and pc: "mp_cons s = McTest"
    and st: "MPSC_Dequeue_step s = Some s'"
  shows "\<exists>k. run LFMPMC_step (replicate k (LfStep 0)) (mp_view s) = Some (mp_view s')"
proof -
  have h: "mp_head s = of_nat (mp_deqs s)"
    using lf_head_eq [OF lf_ok_tickets [OF ok]] pc by (simp add: mp_view_def)
  note fr = lf_front_iff [OF ok small]
  show ?thesis
  proof (cases "mp_seq s (slot_of (mp_head s)) = mp_head s + 1")
    case True
    have "run LFMPMC_step (replicate 3 (LfStep 0)) (mp_view s) = Some (mp_view s')"
      using st pc True
      by (auto simp: MPSC_Dequeue_step_def LFMPMC_Enqueue_step_def LFMPMC_Dequeue_step_def mp_view_def
          numeral_3_eq_3 word_sless_alt Let_def)
    then show ?thesis by blast
  next
    case False
    then have "mp_seq s (slot_of (mp_head s)) - (mp_head s + 1) <s 0"
      using fr h by (simp add: mp_view_def slot_of_nat)
    then have "run LFMPMC_step (replicate 2 (LfStep 0)) (mp_view s) = Some (mp_view s')"
      using st pc False
      by (auto simp: MPSC_Dequeue_step_def LFMPMC_Enqueue_step_def LFMPMC_Dequeue_step_def mp_view_def
          numeral_2_eq_2 Let_def)
    then show ?thesis by blast
  qed
qed

lemma MPSC_Dequeue_simulates:
  assumes ok: "lf_ok (mp_view s)" and small: "lf_small (mp_view s)"
    and st: "MPSC_Dequeue_step s = Some s'"
  shows "\<exists>as. run LFMPMC_step as (mp_view s) = Some (mp_view s')"
proof (cases "mp_cons s = McTest")
  case True
  with MPSC_test_simulates [OF ok small True st] show ?thesis by blast
next
  case False
  then have "LFMPMC_step (LfStep 0) (mp_view s) = Some (mp_view s')"
    using st by (cases "mp_cons s")
      (auto simp: MPSC_Dequeue_step_def LFMPMC_Enqueue_step_def LFMPMC_Dequeue_step_def mp_view_def
       )
  then have "run LFMPMC_step [LfStep 0] (mp_view s) = Some (mp_view s')" by simp
  then show ?thesis by blast
qed

lemma MPSC_simulates:
  assumes ok: "lf_ok (mp_view s)" and small: "lf_small (mp_view s)"
    and st: "MPSC_step a s = Some s'"
  shows "\<exists>as. run LFMPMC_step as (mp_view s) = Some (mp_view s')"
proof -
  have one: ?thesis if "LFMPMC_step b (mp_view s) = Some (mp_view s')" for b
  proof -
    have "run LFMPMC_step [b] (mp_view s) = Some (mp_view s')" using that by simp
    then show ?thesis by blast
  qed
  show ?thesis
  proof (cases a)
    case (MpEnqueue t v)
    then show ?thesis using st
      by (intro one [of "LfEnqueue (Suc t) v"])
        (auto simp: mp_view_def split: if_splits)
  next
    case MpDequeue
    then show ?thesis using st
      by (intro one [of "LfDequeue 0"]) (auto simp: mp_view_def split: if_splits)
  next
    case (MpStepProd t)
    then show ?thesis using st one MPSC_Enqueue_simulates by (metis MPSC_step.simps(3))
  next
    case MpStepCons
    then show ?thesis using st MPSC_Dequeue_simulates [OF ok small] by simp
  next
    case (MpReturnProd t)
    then show ?thesis using st
      by (intro one [of "LfReturn (Suc t)"])
        (auto simp: mp_view_def split: if_splits)
  next
    case MpReturnCons
    then show ?thesis using st
      by (intro one [of "LfReturn 0"])
        (auto simp: mp_view_def lf_finished_def split: mpsc_cons.splits)
  qed
qed

definition mp_reach :: "'a::zero LockFreeMPSC \<Rightarrow> bool" where
  "mp_reach s \<longleftrightarrow> (lf_small (mp_view s)
     \<longrightarrow> (\<exists>as. run LFMPMC_step as NewLockFreeMPMC = Some (mp_view s)))"

lemma mp_enqs_mono: "MPSC_step a s = Some s' \<Longrightarrow> length (mp_enqs s) \<le> length (mp_enqs s')"
  by (cases a) (auto simp: MPSC_Enqueue_step_def MPSC_Dequeue_step_def Let_def
      split: if_splits lf_pc.splits mpsc_cons.splits)

lemma mp_reach_ok:
  assumes "mp_reach s" and "lf_small (mp_view s)"
  shows "lf_ok (mp_view s)"
  using assms lockfree_mpmc.invariant [OF refl] unfolding mp_reach_def lf_inv_def by blast

interpretation lockfree_mpsc: machine "\<lambda>s. s = NewLockFreeMPSC" MPSC_step mp_reach
proof unfold_locales
  show "s = NewLockFreeMPSC \<Longrightarrow> mp_reach s" for s :: "'a LockFreeMPSC"
  proof -
    assume "s = NewLockFreeMPSC"
    then have "mp_view s = NewLockFreeMPMC"
      by (auto simp: mp_view_def NewLockFreeMPSC_def NewLockFreeMPMC_def mp_pcs_def fun_eq_iff
          split: nat.splits)
    then have "run LFMPMC_step [] NewLockFreeMPMC = Some (mp_view s)" by simp
    then show "mp_reach s" unfolding mp_reach_def by blast
  qed
  show "mp_reach s'" if r: "mp_reach s" and st: "MPSC_step a s = Some s'"
    for s :: "'a LockFreeMPSC" and a s'
    unfolding mp_reach_def
  proof
    assume "lf_small (mp_view s')"
    then have small: "lf_small (mp_view s)"
      using mp_enqs_mono [OF st] by (simp add: lf_small_def mp_view_def)
    obtain as where "run LFMPMC_step as NewLockFreeMPMC = Some (mp_view s)"
      using r small unfolding mp_reach_def by blast
    moreover obtain bs where "run LFMPMC_step bs (mp_view s) = Some (mp_view s')"
      using MPSC_simulates [OF mp_reach_ok [OF r small] small st] by blast
    ultimately have "run LFMPMC_step (as @ bs) NewLockFreeMPMC = Some (mp_view s')"
      by (simp add: run_append)
    then show "\<exists>as. run LFMPMC_step as NewLockFreeMPMC = Some (mp_view s')" by blast
  qed
qed

text \<open>\<^verbatim>\<open>LockFreeMPSC\<close> refines \<^verbatim>\<open>LockFreeMPMC\<close>: with one consumer, every interleaving
  (fewer than \<open>2 ^ 62\<close> values) is an interleaving of the multi-consumer ring with the same
  content, log and results, so its successful operations are a run of the bounded FIFO queue of
  capacity 1024, and a finished \<^verbatim>\<open>Dequeue\<close> returns the value recorded for it.\<close>

theorem mpsc_refines_mpmc:
  assumes "run MPSC_step as NewLockFreeMPSC = Some s" and "length (mp_enqs s) < 2 ^ 62"
  shows "(\<exists>bs. run LFMPMC_step bs NewLockFreeMPMC = Some (mp_view s))
    \<and> exec_ops (spec_queue BoundedQueueSize) (map (fst \<circ> snd) (mp_log s)) []
        = (drop (mp_deqs s) (mp_enqs s), map (snd \<circ> snd) (mp_log s))
    \<and> length (mp_enqs s) \<le> mp_deqs s + BoundedQueueSize
    \<and> (\<forall>v. mp_cons s = McDone v True \<longrightarrow> lf_last (mp_view s) 0 Deq (DeqRes v True))"
proof -
  have small: "lf_small (mp_view s)" using assms(2) by (simp add: lf_small_def mp_view_def)
  have r: "mp_reach s" by (rule lockfree_mpsc.invariant [OF refl assms(1)])
  have ok: "lf_ok (mp_view s)" by (rule mp_reach_ok [OF r small])
  have "exec_ops (spec_queue BoundedQueueSize) (map (fst \<circ> snd) (mp_log s)) []
      = (drop (mp_deqs s) (mp_enqs s), map (snd \<circ> snd) (mp_log s))"
    using lf_ok_log [OF ok] by (simp add: logged_def mp_view_def lf_abs_def)
  moreover have "length (mp_enqs s) \<le> mp_deqs s + BoundedQueueSize"
    using lf_N_le [OF lf_ok_tickets [OF ok]] by (simp add: mp_view_def)
  moreover have "lf_last (mp_view s) 0 Deq (DeqRes v True)" if "mp_cons s = McDone v True" for v
    using lf_ok_pc [OF ok, of 0] that by (simp add: mp_view_def)
  ultimately show ?thesis using r small unfolding mp_reach_def by blast
qed

lemma mpsc_refines_mpmc_witness:
  "\<exists>s. run MPSC_step [MpEnqueue 1 (7::nat), MpStepProd 1, MpStepProd 1, MpStepProd 1, MpStepProd 1,
      MpStepProd 1, MpDequeue, MpStepCons, MpStepCons, MpStepCons, MpStepCons]
      NewLockFreeMPSC = Some s
    \<and> mp_cons s = McDone 7 True \<and> lf_last (mp_view s) 0 Deq (DeqRes 7 True)"
proof -
  have sl: "slot_of 0 = 0" using slot_of_nat [of 0] by simp
  obtain s where r: "run MPSC_step [MpEnqueue 1 (7::nat), MpStepProd 1, MpStepProd 1, MpStepProd 1,
      MpStepProd 1, MpStepProd 1, MpDequeue, MpStepCons, MpStepCons, MpStepCons, MpStepCons]
      NewLockFreeMPSC = Some s" and n: "length (mp_enqs s) = 1" and c: "mp_cons s = McDone 7 True"
    by (simp add: NewLockFreeMPSC_def MPSC_Enqueue_step_def MPSC_Dequeue_step_def Let_def sl
        word_sless_alt del: One_nat_def)
  have "length (mp_enqs s) < 2 ^ 62" using n by simp
  from r c mpsc_refines_mpmc [OF r this] show ?thesis by blast
qed

end
