(* ===== verification/Stack_Spec.thy ===== *)
theory Stack_Spec
  imports Monitor
begin

text \<open>
  The interface \<^verbatim>\<open>Stack[T]\<close> of \<^verbatim>\<open>stack/stack.go\<close> as a contract, its abstract
  specification, and the linked nodes three of its implementations share: a store of nodes that
  are written only while their allocator holds them and never reused (Go's garbage collector
  frees a node only when no goroutine can reach it).
\<close>

section \<open>The abstract stack\<close>

datatype 'a stack_op = Push 'a | Pop

datatype 'a stack_result = PushRes | PopRes 'a bool

fun spec_stack :: "'a::zero stack_op \<Rightarrow> 'a list \<Rightarrow> 'a list \<times> 'a stack_result" where
  "spec_stack (Push v) xs = (v # xs, PushRes)"
| "spec_stack Pop xs = (case xs of [] \<Rightarrow> ([], PopRes 0 False) | x # xs' \<Rightarrow> (xs', PopRes x True))"

section \<open>The contract\<close>

locale stack =
  fixes new :: 's and push :: "'a::zero \<Rightarrow> 's \<Rightarrow> 's" and pop :: "'s \<Rightarrow> 's \<times> ('a \<times> bool)"
    and inv :: "'s \<Rightarrow> bool" and abs :: "'s \<Rightarrow> 'a list"
  assumes inv_new: "inv new" and abs_new: "abs new = []"
    and inv_push: "inv s \<Longrightarrow> inv (push v s)"
    and inv_pop: "inv s \<Longrightarrow> inv (fst (pop s))"
    and push_spec: "inv s \<Longrightarrow> abs (push v s) = v # abs s"
    and pop_spec: "inv s \<Longrightarrow>
      (abs (fst (pop s)), PopRes (fst (snd (pop s))) (snd (snd (pop s)))) = spec_stack Pop (abs s)"

fun stack_impl :: "('a \<Rightarrow> 's \<Rightarrow> 's) \<Rightarrow> ('s \<Rightarrow> 's \<times> ('a \<times> bool))
    \<Rightarrow> 'a stack_op \<Rightarrow> 's \<Rightarrow> 's \<times> 'a stack_result" where
  "stack_impl push pop (Push v) s = (push v s, PushRes)"
| "stack_impl push pop Pop s = (case pop s of (s', x, b) \<Rightarrow> (s', PopRes x b))"

context stack
begin

lemma step_refines:
  assumes "inv s"
  shows "inv (fst (stack_impl push pop a s)) \<and>
    spec_stack a (abs s) = (abs (fst (stack_impl push pop a s)), snd (stack_impl push pop a s))"
proof (cases a)
  case (Push v)
  with assms push_spec inv_push show ?thesis by simp
next
  case Pop
  with assms pop_spec [of s] inv_pop [of s] show ?thesis by (simp add: case_prod_beta)
qed

lemma run_refines:
  "inv s \<Longrightarrow> exec_ops (stack_impl push pop) as s = (s', rs) \<Longrightarrow>
     inv s' \<and> exec_ops spec_stack as (abs s) = (abs s', rs)"
proof (induction as arbitrary: s s' rs)
  case (Cons a as)
  obtain s1 r where f: "stack_impl push pop a s = (s1, r)" by force
  obtain s2 rs' where e: "exec_ops (stack_impl push pop) as s1 = (s2, rs')" by force
  from step_refines [OF Cons.prems(1), of a] f have i: "inv s1"
    and sp: "spec_stack a (abs s) = (abs s1, r)" by simp_all
  from Cons.IH [OF i e] Cons.prems(2) f e sp show ?case by auto
qed simp

lemma refines_from_new:
  "exec_ops (stack_impl push pop) as new = (s, rs) \<Longrightarrow> inv s \<and> exec_ops spec_stack as [] = (abs s, rs)"
  using run_refines [OF inv_new] abs_new by metis

end

text \<open>The same operations called concurrently, each under the stack's mutex.\<close>

abbreviation stack_body :: "('a \<Rightarrow> 's \<Rightarrow> 's) \<Rightarrow> ('s \<Rightarrow> 's \<times> ('a \<times> bool))
    \<Rightarrow> 'a stack_op \<Rightarrow> 's \<Rightarrow> ('s \<times> 'a stack_result) option" where
  "stack_body push pop b s \<equiv> Some (stack_impl push pop b s)"

sublocale stack \<subseteq> guarded: monitor "stack_body push pop" spec_stack "\<lambda>s xs. inv s \<and> abs s = xs" new "[]"
proof (unfold_locales, goal_cases)
  case (2 s xs b xs' r)
  then show ?case using step_refines [of s b] by (cases "stack_impl push pop b s") auto
qed (simp add: inv_new abs_new)

section \<open>Linked nodes\<close>

record 'a nodes =
  nd_head :: "nat option"
  nd_val :: "nat \<Rightarrow> 'a"
  nd_next :: "nat \<Rightarrow> nat option"
  nd_fresh :: nat

primrec chain :: "(nat \<Rightarrow> nat option) \<Rightarrow> nat option \<Rightarrow> nat list \<Rightarrow> bool" where
  "chain nx h [] \<longleftrightarrow> h = None"
| "chain nx h (n # ns) \<longleftrightarrow> h = Some n \<and> chain nx (nx n) ns"

lemma chain_upd: "n \<notin> set ns \<Longrightarrow> chain (nx(n := x)) h ns = chain nx h ns"
  by (induction ns arbitrary: h) auto

lemma chain_unique: "chain nx h ns \<Longrightarrow> chain nx h ms \<Longrightarrow> ns = ms"
proof (induction ns arbitrary: h ms)
  case Nil
  then show ?case by (cases ms) auto
next
  case (Cons n ns)
  then show ?case by (cases ms) auto
qed

lemma chain_append: "chain nx h (xs @ n # ys) \<Longrightarrow> chain nx (Some n) (n # ys)"
  by (induction xs arbitrary: h) auto

lemma chain_distinct: "chain nx h ns \<Longrightarrow> distinct ns"
proof (induction ns arbitrary: h)
  case (Cons n ns)
  have "n \<notin> set ns"
  proof
    assume "n \<in> set ns"
    then obtain xs ys where ns: "ns = xs @ n # ys" by (meson split_list)
    with Cons.prems have "chain nx (nx n) (xs @ n # ys)" by simp
    then have a: "chain nx (Some n) (n # ys)" by (rule chain_append)
    have b: "chain nx (Some n) (n # ns)" using Cons.prems by simp
    have "length ys = length ns" using chain_unique [OF a b] by simp
    then show False by (simp add: ns)
  qed
  with Cons show ?case by auto
qed simp

text \<open>Reading the chain off the store; the number of allocated nodes is fuel enough.\<close>

primrec walk :: "nat \<Rightarrow> (nat \<Rightarrow> nat option) \<Rightarrow> nat option \<Rightarrow> nat list" where
  "walk 0 nx h = []"
| "walk (Suc k) nx h = (case h of None \<Rightarrow> [] | Some n \<Rightarrow> n # walk k nx (nx n))"

lemma walk_chain: "chain nx h ns \<Longrightarrow> length ns \<le> k \<Longrightarrow> walk k nx h = ns"
proof (induction k arbitrary: h ns)
  case (Suc k)
  then show ?case by (cases ns) auto
qed simp

definition stacked :: "('a, 'b) nodes_scheme \<Rightarrow> 'a list" where
  "stacked h = map (nd_val h) (walk (nd_fresh h) (nd_next h) (nd_head h))"

text \<open>The nodes \<open>ns\<close> hang below the head; a goroutine \<open>t\<close> holds the node \<open>priv t\<close>, which
  nobody else knows.\<close>

definition nodes_ok :: "('a, 'b) nodes_scheme \<Rightarrow> nat list \<Rightarrow> (tid \<Rightarrow> nat option) \<Rightarrow> bool" where
  "nodes_ok h ns priv \<longleftrightarrow> chain (nd_next h) (nd_head h) ns
     \<and> (\<forall>n \<in> set ns. n < nd_fresh h)
     \<and> (\<forall>t n. priv t = Some n \<longrightarrow> n < nd_fresh h \<and> n \<notin> set ns)
     \<and> (\<forall>t u n. priv t = Some n \<longrightarrow> priv u = Some n \<longrightarrow> t = u)"

definition published :: "('a, 'b) nodes_scheme \<Rightarrow> (tid \<Rightarrow> nat option) \<Rightarrow> nat \<Rightarrow> bool" where
  "published h priv n \<longleftrightarrow> n < nd_fresh h \<and> (\<forall>t. priv t \<noteq> Some n)"

lemma nodes_ok_parts:
  assumes "nodes_ok h ns priv"
  shows nodes_chain: "chain (nd_next h) (nd_head h) ns"
    and nodes_below: "n \<in> set ns \<Longrightarrow> n < nd_fresh h"
    and nodes_private: "priv t = Some n \<Longrightarrow> n < nd_fresh h \<and> n \<notin> set ns"
    and nodes_owner: "priv t = Some n \<Longrightarrow> priv u = Some n \<Longrightarrow> t = u"
  using assms unfolding nodes_ok_def by blast+

lemma nodes_head_published:
  assumes "nodes_ok h ns priv" and "nd_head h = Some n"
  shows "published h priv n"
proof -
  obtain ms where "ns = n # ms" using nodes_chain [OF assms(1)] assms(2) by (cases ns) auto
  then show ?thesis using nodes_below [OF assms(1), of n] nodes_private [OF assms(1)]
    by (auto simp: published_def)
qed

text \<open>Allocation, the private write of \<^verbatim>\<open>next\<close>, and the two CASes.\<close>

lemma nodes_alloc:
  assumes "nodes_ok h ns priv" and "priv t = None"
  shows "nodes_ok (h\<lparr>nd_val := (nd_val h)(nd_fresh h := v), nd_next := (nd_next h)(nd_fresh h := x),
      nd_fresh := Suc (nd_fresh h)\<rparr>) ns (priv(t := Some (nd_fresh h)))"
    and "map ((nd_val h)(nd_fresh h := v)) ns = map (nd_val h) ns"
    and "published h priv n \<Longrightarrow> published (h\<lparr>nd_val := vl, nd_next := nx, nd_fresh := Suc (nd_fresh h)\<rparr>)
      (priv(t := Some (nd_fresh h))) n"
proof -
  have f: "nd_fresh h \<notin> set ns" using nodes_below [OF assms(1)] by blast
  have p: "priv u \<noteq> Some (nd_fresh h)" for u using nodes_private [OF assms(1), of u] by blast
  show "nodes_ok (h\<lparr>nd_val := (nd_val h)(nd_fresh h := v), nd_next := (nd_next h)(nd_fresh h := x),
      nd_fresh := Suc (nd_fresh h)\<rparr>) ns (priv(t := Some (nd_fresh h)))"
    using assms f p unfolding nodes_ok_def by (auto simp: chain_upd less_Suc_eq)
  show "map ((nd_val h)(nd_fresh h := v)) ns = map (nd_val h) ns" using f by auto
  show "published h priv n \<Longrightarrow> published (h\<lparr>nd_val := vl, nd_next := nx, nd_fresh := Suc (nd_fresh h)\<rparr>)
      (priv(t := Some (nd_fresh h))) n"
    by (auto simp: published_def)
qed

lemma nodes_set_next:
  assumes "nodes_ok h ns priv" and "priv t = Some n"
  shows "nodes_ok (h\<lparr>nd_next := (nd_next h)(n := x)\<rparr>) ns priv"
  using assms unfolding nodes_ok_def by (auto simp: chain_upd)

lemma nodes_push:
  assumes ok: "nodes_ok h ns priv" and p: "priv t = Some n" and nx: "nd_next h n = nd_head h"
  shows "nodes_ok (h\<lparr>nd_head := Some n\<rparr>) (n # ns) (priv(t := None))"
    and "published h priv m \<Longrightarrow> published (h\<lparr>nd_head := x\<rparr>) (priv(t := None)) m"
proof -
  show "nodes_ok (h\<lparr>nd_head := Some n\<rparr>) (n # ns) (priv(t := None))"
    using nodes_chain [OF ok] nodes_below [OF ok] nodes_private [OF ok] nodes_owner [OF ok] p nx
    unfolding nodes_ok_def by auto
  show "published h priv m \<Longrightarrow> published (h\<lparr>nd_head := x\<rparr>) (priv(t := None)) m"
    by (auto simp: published_def)
qed

text \<open>A private node may be dropped.\<close>

lemma nodes_forget:
  assumes "nodes_ok h ns priv"
  shows "nodes_ok h ns (priv(t := None))"
  using assms unfolding nodes_ok_def by auto

lemma published_forget: "published h priv n \<Longrightarrow> published h (priv(t := None)) n"
  by (auto simp: published_def)

lemma nodes_pop:
  assumes ok: "nodes_ok h ns priv" and hd: "nd_head h = Some n"
  obtains ms where "ns = n # ms" "nodes_ok (h\<lparr>nd_head := nd_next h n\<rparr>) ms priv"
proof -
  obtain ms where "ns = n # ms" using nodes_chain [OF ok] hd by (cases ns) auto
  moreover from this have "nodes_ok (h\<lparr>nd_head := nd_next h n\<rparr>) ms priv"
    using ok hd unfolding nodes_ok_def by auto
  ultimately show thesis by (rule that)
qed

lemma nodes_empty: "nodes_ok h ns priv \<Longrightarrow> nd_head h = None \<Longrightarrow> ns = []"
  using nodes_chain by (cases ns) fastforce+

lemma nodes_stacked:
  assumes "nodes_ok h ns priv"
  shows "stacked h = map (nd_val h) ns"
proof -
  have "card (set ns) \<le> card {..<nd_fresh h}"
    using nodes_below [OF assms] by (intro card_mono) auto
  then have "length ns \<le> nd_fresh h"
    using distinct_card [OF chain_distinct [OF nodes_chain [OF assms]]] by simp
  then show ?thesis using walk_chain [OF nodes_chain [OF assms]] by (simp add: stacked_def)
qed

end
