(* ===== verification/Stack_Mutex.thy ===== *)
theory Stack_Mutex
  imports Stack_Spec
begin

text \<open>
  \<^verbatim>\<open>MutexSliceMPMC\<close> and \<^verbatim>\<open>MutexLinkedMPMC\<close> of the \<^verbatim>\<open>stack\<close> package. Each operation
  holds \<^verbatim>\<open>mu\<close> from its first to its last access to the stack, so it is one function of the
  state.
\<close>

section \<open>MutexSliceMPMC\<close>

record 'a MutexSliceMPMC =
  sl_arr :: "'a list"

definition NewMutexSliceMPMC :: "'a MutexSliceMPMC" where
  "NewMutexSliceMPMC = \<lparr>sl_arr = []\<rparr>"

definition MutexSlice_Pop :: "'a::zero MutexSliceMPMC \<Rightarrow> 'a MutexSliceMPMC \<times> ('a \<times> bool)" where
  "MutexSlice_Pop b =
     (if length (sl_arr b) = 0 then (b, (0, False))
      else
        let last = length (sl_arr b) - 1;
            val = sl_arr b ! last;
            arr = (sl_arr b)[last := 0]
        in (b\<lparr>sl_arr := take last arr\<rparr>, (val, True)))"

definition MutexSlice_Push :: "'a \<Rightarrow> 'a MutexSliceMPMC \<Rightarrow> 'a MutexSliceMPMC" where
  "MutexSlice_Push v b = b\<lparr>sl_arr := sl_arr b @ [v]\<rparr>"

lemma MutexSlice_Pop_snoc:
  "sl_arr b = xs @ [x] \<Longrightarrow> MutexSlice_Pop b = (b\<lparr>sl_arr := xs\<rparr>, (x, True))"
  by (simp add: MutexSlice_Pop_def)

interpretation mutex_slice: stack NewMutexSliceMPMC MutexSlice_Push MutexSlice_Pop
  "\<lambda>_. True" "\<lambda>b. rev (sl_arr b)"
proof (unfold_locales, goal_cases)
  case (6 s)
  show ?case
  proof (cases "sl_arr s" rule: rev_cases)
    case Nil
    then show ?thesis by (simp add: MutexSlice_Pop_def)
  next
    case (snoc xs x)
    then show ?thesis by (simp add: MutexSlice_Pop_snoc)
  qed
qed (simp_all add: NewMutexSliceMPMC_def MutexSlice_Push_def)

section \<open>MutexLinkedMPMC\<close>

type_synonym 'a MutexLinkedMPMC = "'a nodes"

definition NewMutexLinkedMPMC :: "'a::zero MutexLinkedMPMC" where
  "NewMutexLinkedMPMC = \<lparr>nd_head = None, nd_val = (\<lambda>_. 0), nd_next = (\<lambda>_. None), nd_fresh = 0\<rparr>"

definition MutexLinked_Pop :: "'a::zero MutexLinkedMPMC \<Rightarrow> 'a MutexLinkedMPMC \<times> ('a \<times> bool)" where
  "MutexLinked_Pop b =
     (case nd_head b of
        None \<Rightarrow> (b, (0, False))
      | Some h \<Rightarrow> (b\<lparr>nd_head := nd_next b h\<rparr>, (nd_val b h, True)))"

text \<open>\<open>n := &node[T]{v: v}\<close>\<close>

definition new_node :: "'a \<Rightarrow> ('a, 'b) nodes_scheme \<Rightarrow> ('a, 'b) nodes_scheme" where
  "new_node v b = b\<lparr>nd_val := (nd_val b)(nd_fresh b := v), nd_next := (nd_next b)(nd_fresh b := None),
     nd_fresh := Suc (nd_fresh b)\<rparr>"

definition MutexLinked_Push :: "'a \<Rightarrow> 'a MutexLinkedMPMC \<Rightarrow> 'a MutexLinkedMPMC" where
  "MutexLinked_Push v b =
     (let n = nd_fresh b;
          b1 = new_node v b
      in if nd_head b1 = None then b1\<lparr>nd_head := Some n\<rparr>
         else let b2 = b1\<lparr>nd_next := (nd_next b1)(n := nd_head b1)\<rparr>
              in b2\<lparr>nd_head := Some n\<rparr>)"

definition linked_ok :: "'a nodes \<Rightarrow> bool" where
  "linked_ok b \<longleftrightarrow> (\<exists>ns. nodes_ok b ns (\<lambda>_. None))"

lemma MutexLinked_Push_eq:
  "MutexLinked_Push v b = b\<lparr>nd_val := (nd_val b)(nd_fresh b := v),
     nd_next := (nd_next b)(nd_fresh b := nd_head b), nd_fresh := Suc (nd_fresh b),
     nd_head := Some (nd_fresh b)\<rparr>"
  by (simp add: MutexLinked_Push_def new_node_def Let_def)

lemma linked_push:
  assumes "nodes_ok b ns (\<lambda>_. None)"
  shows "nodes_ok (MutexLinked_Push v b) (nd_fresh b # ns) (\<lambda>_. None)"
    and "stacked (MutexLinked_Push v b) = v # stacked b"
proof -
  let ?b = "b\<lparr>nd_val := (nd_val b)(nd_fresh b := v), nd_next := (nd_next b)(nd_fresh b := nd_head b),
     nd_fresh := Suc (nd_fresh b)\<rparr>"
  have "nodes_ok ?b ns ((\<lambda>_. None)(0 := Some (nd_fresh b)))"
    using nodes_alloc(1) [OF assms, where t = 0 and v = v and x = "nd_head b"] by simp
  from nodes_push(1) [OF this, where t = 0 and n = "nd_fresh b"]
  moreover have "((\<lambda>_::tid. None)(0 := Some m))(0 := None) = (\<lambda>_. None)" for m :: nat by auto
  ultimately show ok: "nodes_ok (MutexLinked_Push v b) (nd_fresh b # ns) (\<lambda>_. None)"
    by (simp only: MutexLinked_Push_eq) simp
  have "nd_val (MutexLinked_Push v b) = (nd_val b)(nd_fresh b := v)"
    by (simp add: MutexLinked_Push_eq)
  then show "stacked (MutexLinked_Push v b) = v # stacked b"
    using nodes_alloc(2) [OF assms, where v = v] by (simp add: nodes_stacked [OF ok] nodes_stacked [OF assms])
qed

lemma linked_pop:
  assumes ok: "nodes_ok b ns (\<lambda>_. None)"
  shows "linked_ok (fst (MutexLinked_Pop b))
    \<and> (stacked (fst (MutexLinked_Pop b)), PopRes (fst (snd (MutexLinked_Pop b))) (snd (snd (MutexLinked_Pop b))))
      = spec_stack Pop (stacked b)"
proof (cases "nd_head b")
  case None
  then have "stacked b = []" using nodes_empty [OF ok] nodes_stacked [OF ok] by simp
  then show ?thesis using ok None by (auto simp: MutexLinked_Pop_def linked_ok_def)
next
  case (Some n)
  obtain ms where ms: "ns = n # ms" "nodes_ok (b\<lparr>nd_head := nd_next b n\<rparr>) ms (\<lambda>_. None)"
    using nodes_pop [OF ok Some] .
  then show ?thesis
    using Some nodes_stacked [OF ok] nodes_stacked [OF ms(2)]
    by (auto simp: MutexLinked_Pop_def linked_ok_def)
qed

interpretation mutex_linked: stack NewMutexLinkedMPMC MutexLinked_Push MutexLinked_Pop
  linked_ok stacked
proof (unfold_locales, goal_cases)
  case 1
  have "nodes_ok (NewMutexLinkedMPMC :: 'a nodes) [] (\<lambda>_. None)"
    by (simp add: NewMutexLinkedMPMC_def nodes_ok_def)
  then show ?case unfolding linked_ok_def by blast
next
  case 2
  then show ?case by (simp add: NewMutexLinkedMPMC_def stacked_def)
next
  case (3 s v)
  then show ?case using linked_push(1) unfolding linked_ok_def by metis
next
  case (4 s)
  then show ?case using linked_pop unfolding linked_ok_def by metis
next
  case (5 s v)
  then show ?case using linked_push(2) unfolding linked_ok_def by metis
next
  case (6 s)
  then show ?case using linked_pop unfolding linked_ok_def by metis
qed

text \<open>For every sequence of operations on a new \<^verbatim>\<open>MutexSliceMPMC\<close>, and on a new
  \<^verbatim>\<open>MutexLinkedMPMC\<close>, every result is the one the abstract stack gives and the structure
  holds the abstract stack's content; so the two implementations are interchangeable. The linked
  nodes never form a cycle.\<close>

theorem mutex_stacks_refine:
  "case exec_ops (stack_impl MutexSlice_Push MutexSlice_Pop) as NewMutexSliceMPMC of (s, rs) \<Rightarrow>
   case exec_ops (stack_impl MutexLinked_Push MutexLinked_Pop) as NewMutexLinkedMPMC of (l, qs) \<Rightarrow>
     exec_ops spec_stack as [] = (rev (sl_arr s), rs) \<and> rs = qs \<and> stacked l = rev (sl_arr s)
     \<and> (\<exists>ns. chain (nd_next l) (nd_head l) ns \<and> distinct ns)"
proof -
  obtain s rs where a: "exec_ops (stack_impl MutexSlice_Push MutexSlice_Pop) as NewMutexSliceMPMC = (s, rs)"
    by force
  obtain l qs where b: "exec_ops (stack_impl MutexLinked_Push MutexLinked_Pop) as NewMutexLinkedMPMC = (l, qs)"
    by force
  obtain ns where "chain (nd_next l) (nd_head l) ns"
    using mutex_linked.refines_from_new [OF b] nodes_chain unfolding linked_ok_def by blast
  with mutex_slice.refines_from_new [OF a] mutex_linked.refines_from_new [OF b] chain_distinct
  show ?thesis by (auto simp: a b)
qed

section \<open>Called concurrently\<close>

definition MutexSlice_step :: "'a::zero stack_op mon_act \<Rightarrow> ('a stack_op, 'a MutexSliceMPMC, 'a stack_result) monitor
    \<Rightarrow> ('a stack_op, 'a MutexSliceMPMC, 'a stack_result) monitor option" where
  "MutexSlice_step = mon_step (stack_body MutexSlice_Push MutexSlice_Pop)"

definition MutexLinked_step :: "'a::zero stack_op mon_act \<Rightarrow> ('a stack_op, 'a MutexLinkedMPMC, 'a stack_result) monitor
    \<Rightarrow> ('a stack_op, 'a MutexLinkedMPMC, 'a stack_result) monitor option" where
  "MutexLinked_step = mon_step (stack_body MutexLinked_Push MutexLinked_Pop)"

text \<open>\<^verbatim>\<open>MutexSliceMPMC\<close> and \<^verbatim>\<open>MutexLinkedMPMC\<close>, called by any number of
  goroutines in any interleaving: no body ever starts while another is at work, every call that has
  returned is answered by one step of the abstract stack taken between its call and its return, in one
  order that explains all results, and between the methods the slice, or the chain of nodes from
  \<^verbatim>\<open>head\<close>, which never has a cycle, holds that stack's content.\<close>

theorem mutex_stacks_linearizable:
  "(run MutexSlice_step as (mon_new NewMutexSliceMPMC) = Some m \<longrightarrow>
      mon_linearized (stack_body MutexSlice_Push MutexSlice_Pop) spec_stack [] (\<lambda>s xs. sl_arr s = rev xs) m)
   \<and> (run MutexLinked_step bs (mon_new NewMutexLinkedMPMC) = Some k \<longrightarrow>
      mon_linearized (stack_body MutexLinked_Push MutexLinked_Pop) spec_stack []
        (\<lambda>s xs. stacked s = xs \<and> (\<exists>ns. chain (nd_next s) (nd_head s) ns \<and> distinct ns \<and> map (nd_val s) ns = xs)) k)"
proof -
  have v: "stacked s = xs \<and> (\<exists>ns. chain (nd_next s) (nd_head s) ns \<and> distinct ns \<and> map (nd_val s) ns = xs)"
    if l: "linked_ok s \<and> stacked s = xs" for s :: "'b nodes" and xs
  proof -
    obtain ns where ok: "nodes_ok s ns (\<lambda>_. None)" using l unfolding linked_ok_def by blast
    show ?thesis using l nodes_chain [OF ok] chain_distinct [OF nodes_chain [OF ok]] nodes_stacked [OF ok] by auto
  qed
  show ?thesis
    unfolding MutexSlice_step_def MutexLinked_step_def
    by (intro conjI impI; elim mon_linearized_mono [OF mutex_slice.guarded.linearizable]
        mon_linearized_mono [OF mutex_linked.guarded.linearizable]) (use v in auto)
qed

lemma mutex_stacks_linearizable_witness:
  "\<exists>m k. run MutexSlice_step (mon_meeting (Push (7 :: nat)) Pop) (mon_new NewMutexSliceMPMC) = Some m
     \<and> run MutexLinked_step (mon_meeting (Push (7 :: nat)) Pop) (mon_new NewMutexLinkedMPMC) = Some k
     \<and> mon_mine m 2 = [(2, Pop, PopRes 7 True)] \<and> mon_mine k 2 = [(2, Pop, PopRes 7 True)]"
proof -
  obtain m where m: "run MutexSlice_step (mon_meeting (Push (7 :: nat)) Pop) (mon_new NewMutexSliceMPMC) = Some m"
    "mon_pc m 2 = MonOut Pop (PopRes 7 True)"
    using mon_meeting_runs [of "stack_body MutexSlice_Push MutexSlice_Pop" "Push 7" NewMutexSliceMPMC _ PushRes Pop]
    unfolding MutexSlice_step_def by (fastforce simp: MutexSlice_Push_def MutexSlice_Pop_def NewMutexSliceMPMC_def)
  obtain k where k: "run MutexLinked_step (mon_meeting (Push (7 :: nat)) Pop) (mon_new NewMutexLinkedMPMC) = Some k"
    "mon_pc k 2 = MonOut Pop (PopRes 7 True)"
    using mon_meeting_runs [of "stack_body MutexLinked_Push MutexLinked_Pop" "Push 7" NewMutexLinkedMPMC _ PushRes Pop]
    unfolding MutexLinked_step_def by (fastforce simp: MutexLinked_Push_eq MutexLinked_Pop_def NewMutexLinkedMPMC_def)
  show ?thesis
    using m k mutex_stacks_linearizable [of "mon_meeting (Push 7) Pop" m "mon_meeting (Push 7) Pop" k]
    unfolding mon_linearized_def by blast
qed

end
