(* ===== verification/Stack_LockFree.thy ===== *)
theory Stack_LockFree
  imports Stack_Spec
begin

text \<open>
  The lock-free stack \<^verbatim>\<open>LockFreeMPMC\<close> of \<^verbatim>\<open>stack/lockfree_mpmc.go\<close> (Treiber's stack):
  one step is one access to shared memory, except that \<open>val, next := prev.v, prev.next\<close>, which
  reads two fields nobody writes any more, is one step. The auxiliary \<open>tr_log\<close> records each
  operation with its result at the access that decides it; no step reads it.
\<close>

section \<open>The machine\<close>

datatype 'a tr_pc =
    TrIdle
  | TrNew 'a                          \<comment> \<open>\<open>n := &node[T]{v: v}\<close>\<close>
  | TrLoad 'a nat                     \<comment> \<open>\<open>prev := l.head.Load()\<close>\<close>
  | TrNext 'a nat "nat option"        \<comment> \<open>\<open>n.next = prev\<close>\<close>
  | TrPushCas 'a nat "nat option"     \<comment> \<open>\<open>l.head.CompareAndSwap(prev, n)\<close>\<close>
  | TrPushed 'a
  | TrPopLoad                         \<comment> \<open>\<open>prev := l.head.Load()\<close> and the test for nil\<close>
  | TrRead nat                        \<comment> \<open>\<open>val, next := prev.v, prev.next\<close>\<close>
  | TrPopCas nat 'a "nat option"      \<comment> \<open>\<open>l.head.CompareAndSwap(prev, next)\<close>\<close>
  | TrPopped 'a bool

record 'a LockFreeStack = "'a nodes" +
  tr_pc :: "tid \<Rightarrow> 'a tr_pc"
  tr_log :: "(tid \<times> 'a stack_op \<times> 'a stack_result) list"

definition NewLockFreeStack :: "'a::zero LockFreeStack" where
  "NewLockFreeStack = \<lparr>nd_head = None, nd_val = (\<lambda>_. 0), nd_next = (\<lambda>_. None), nd_fresh = 0,
     tr_pc = (\<lambda>_. TrIdle), tr_log = []\<rparr>"

abbreviation tr_goto :: "tid \<Rightarrow> 'a tr_pc \<Rightarrow> 'a LockFreeStack \<Rightarrow> 'a LockFreeStack" where
  "tr_goto t p s \<equiv> s\<lparr>tr_pc := (tr_pc s)(t := p)\<rparr>"

definition Treiber_Push_step :: "tid \<Rightarrow> 'a LockFreeStack \<Rightarrow> 'a LockFreeStack option" where
  "Treiber_Push_step t s =
     (case tr_pc s t of
        TrNew v \<Rightarrow> Some (s\<lparr>nd_val := (nd_val s)(nd_fresh s := v), nd_next := (nd_next s)(nd_fresh s := None),
                          nd_fresh := Suc (nd_fresh s), tr_pc := (tr_pc s)(t := TrLoad v (nd_fresh s))\<rparr>)
      | TrLoad v n \<Rightarrow> Some (tr_goto t (TrNext v n (nd_head s)) s)
      | TrNext v n prev \<Rightarrow> Some (s\<lparr>nd_next := (nd_next s)(n := prev), tr_pc := (tr_pc s)(t := TrPushCas v n prev)\<rparr>)
      | TrPushCas v n prev \<Rightarrow>
          (if nd_head s = prev
           then Some (s\<lparr>nd_head := Some n, tr_pc := (tr_pc s)(t := TrPushed v),
                        tr_log := tr_log s @ [(t, Push v, PushRes)]\<rparr>)
           else Some (tr_goto t (TrLoad v n) s))
      | _ \<Rightarrow> None)"

definition Treiber_Pop_step :: "tid \<Rightarrow> 'a::zero LockFreeStack \<Rightarrow> 'a LockFreeStack option" where
  "Treiber_Pop_step t s =
     (case tr_pc s t of
        TrPopLoad \<Rightarrow>
          (case nd_head s of
             None \<Rightarrow> Some (s\<lparr>tr_pc := (tr_pc s)(t := TrPopped 0 False),
                             tr_log := tr_log s @ [(t, Pop, PopRes 0 False)]\<rparr>)
           | Some prev \<Rightarrow> Some (tr_goto t (TrRead prev) s))
      | TrRead prev \<Rightarrow> Some (tr_goto t (TrPopCas prev (nd_val s prev) (nd_next s prev)) s)
      | TrPopCas prev val next \<Rightarrow>
          (if nd_head s = Some prev
           then Some (s\<lparr>nd_head := next, tr_pc := (tr_pc s)(t := TrPopped val True),
                        tr_log := tr_log s @ [(t, Pop, PopRes val True)]\<rparr>)
           else Some (tr_goto t TrPopLoad s))
      | _ \<Rightarrow> None)"

datatype 'a tr_act = TrPush tid 'a | TrPop tid | TrStep tid | TrReturn tid

fun tr_finished :: "'a tr_pc \<Rightarrow> bool" where
  "tr_finished (TrPushed v) = True" | "tr_finished (TrPopped v b) = True" | "tr_finished _ = False"

fun Treiber_step :: "'a::zero tr_act \<Rightarrow> 'a LockFreeStack \<Rightarrow> 'a LockFreeStack option" where
  "Treiber_step (TrPush t v) s = (if tr_pc s t = TrIdle then Some (tr_goto t (TrNew v) s) else None)"
| "Treiber_step (TrPop t) s = (if tr_pc s t = TrIdle then Some (tr_goto t TrPopLoad s) else None)"
| "Treiber_step (TrStep t) s =
     (case Treiber_Push_step t s of Some s' \<Rightarrow> Some s' | None \<Rightarrow> Treiber_Pop_step t s)"
| "Treiber_step (TrReturn t) s =
     (if tr_finished (tr_pc s t) then Some (tr_goto t TrIdle s) else None)"

section \<open>The invariant\<close>

text \<open>The node a pusher holds before its CAS.\<close>

fun tr_node :: "'a tr_pc \<Rightarrow> nat option" where
  "tr_node (TrLoad v n) = Some n"
| "tr_node (TrNext v n p) = Some n"
| "tr_node (TrPushCas v n p) = Some n"
| "tr_node _ = None"

definition tr_priv :: "(tid \<Rightarrow> 'a tr_pc) \<Rightarrow> tid \<Rightarrow> nat option" where
  "tr_priv pcs t = tr_node (pcs t)"

fun tr_pc_ok :: "'a LockFreeStack \<Rightarrow> tid \<Rightarrow> 'a tr_pc \<Rightarrow> bool" where
  "tr_pc_ok s t (TrLoad v n) = (nd_val s n = v)"
| "tr_pc_ok s t (TrNext v n p) = (nd_val s n = v)"
| "tr_pc_ok s t (TrPushCas v n p) = (nd_val s n = v \<and> nd_next s n = p)"
| "tr_pc_ok s t (TrPushed v) = last_entry (tr_log s) t (Push v, PushRes)"
| "tr_pc_ok s t (TrRead p) = published s (tr_priv (tr_pc s)) p"
| "tr_pc_ok s t (TrPopCas p v nx) = (published s (tr_priv (tr_pc s)) p \<and> nd_val s p = v \<and> nd_next s p = nx)"
| "tr_pc_ok s t (TrPopped v b) = last_entry (tr_log s) t (Pop, PopRes v b)"
| "tr_pc_ok s t _ = True"

definition tr_inv :: "'a::zero LockFreeStack \<Rightarrow> bool" where
  "tr_inv s \<longleftrightarrow> (\<exists>ns. nodes_ok s ns (tr_priv (tr_pc s))) \<and> (\<forall>t. tr_pc_ok s t (tr_pc s t))
     \<and> logged spec_stack [] (map snd (tr_log s)) (stacked s)"

lemma tr_inv_parts:
  assumes "tr_inv s"
  shows tr_inv_nodes: "\<exists>ns. nodes_ok s ns (tr_priv (tr_pc s))"
    and tr_inv_pc: "tr_pc_ok s t (tr_pc s t)"
    and tr_inv_log: "logged spec_stack [] (map snd (tr_log s)) (stacked s)"
  using assms unfolding tr_inv_def by blast+

lemma stacked_frame [simp]:
  "stacked (s\<lparr>tr_pc := p\<rparr>) = stacked s" "stacked (s\<lparr>tr_log := l\<rparr>) = stacked s"
  by (simp_all add: stacked_def)

lemma nodes_frame [simp]:
  "nodes_ok (s\<lparr>tr_pc := p\<rparr>) = nodes_ok s" "nodes_ok (s\<lparr>tr_log := l\<rparr>) = nodes_ok s"
  "published (s\<lparr>tr_pc := p\<rparr>) = published s" "published (s\<lparr>tr_log := l\<rparr>) = published s"
  by (simp_all add: fun_eq_iff nodes_ok_def published_def)

lemma tr_priv_upd [simp]:
  "tr_priv (pcs(t := p)) = (tr_priv pcs)(t := tr_node p)"
  by (auto simp: tr_priv_def)

lemma tr_priv_same: "tr_node (pcs t) = x \<Longrightarrow> (tr_priv pcs)(t := x) = tr_priv pcs"
  by (auto simp: tr_priv_def)

text \<open>The assertion of a goroutine survives whatever leaves its own node, the published nodes and
  its own log entries alone.\<close>

lemma tr_pc_ok_mono:
  assumes "tr_pc_ok s t p" and "\<And>n. tr_node p = Some n \<Longrightarrow> nd_val s' n = nd_val s n \<and> nd_next s' n = nd_next s n"
    and "\<And>n. published s (tr_priv (tr_pc s)) n \<Longrightarrow>
      published s' (tr_priv (tr_pc s')) n \<and> nd_val s' n = nd_val s n \<and> nd_next s' n = nd_next s n"
    and "\<And>e. last_entry (tr_log s') t e = last_entry (tr_log s) t e"
  shows "tr_pc_ok s' t p"
  using assms by (cases p) auto

lemma tr_inv_update:
  assumes inv: "tr_inv s"
    and pcs: "\<And>u. u \<noteq> t \<Longrightarrow> tr_pc s' u = tr_pc s u"
    and own: "\<And>u n. u \<noteq> t \<Longrightarrow> tr_priv (tr_pc s) u = Some n \<Longrightarrow>
      nd_val s' n = nd_val s n \<and> nd_next s' n = nd_next s n"
    and pub: "\<And>n. published s (tr_priv (tr_pc s)) n \<Longrightarrow>
      published s' (tr_priv (tr_pc s')) n \<and> nd_val s' n = nd_val s n \<and> nd_next s' n = nd_next s n"
    and log: "\<And>u e. u \<noteq> t \<Longrightarrow> last_entry (tr_log s') u e = last_entry (tr_log s) u e"
    and new: "tr_pc_ok s' t (tr_pc s' t)" "nodes_ok s' ns (tr_priv (tr_pc s'))"
      "logged spec_stack [] (map snd (tr_log s')) (stacked s')"
  shows "tr_inv s'"
proof -
  have "tr_pc_ok s' u (tr_pc s' u)" for u
  proof (cases "u = t")
    case False
    have "tr_pc_ok s' u (tr_pc s u)"
      by (rule tr_pc_ok_mono [OF tr_inv_pc [OF inv, of u]])
        (use own [OF False] pub log [OF False] in \<open>auto simp: tr_priv_def\<close>)
    then show ?thesis using pcs [OF False] by simp
  qed (use new in simp)
  then show ?thesis using new unfolding tr_inv_def by blast
qed

lemma tr_inv_goto:
  assumes inv: "tr_inv s" and ok: "tr_pc_ok s t p" and node: "tr_node p = tr_node (tr_pc s t)"
  shows "tr_inv (tr_goto t p s)"
proof -
  obtain ns where ns: "nodes_ok s ns (tr_priv (tr_pc s))" using tr_inv_nodes [OF inv] by blast
  have pr: "(tr_priv (tr_pc s))(t := tr_node p) = tr_priv (tr_pc s)"
    using node by (simp add: tr_priv_same)
  have "tr_pc_ok (tr_goto t p s) t p" using ok
    by (rule tr_pc_ok_mono) (simp_all add: pr)
  then show ?thesis
    by (intro tr_inv_update [OF inv, of t _ ns]) (use ns tr_inv_log [OF inv] in \<open>simp_all add: pr\<close>)
qed

lemma tr_inv_alloc:
  assumes inv: "tr_inv s" and pc: "tr_pc s t = TrNew v"
  shows "tr_inv (s\<lparr>nd_val := (nd_val s)(nd_fresh s := v), nd_next := (nd_next s)(nd_fresh s := None),
      nd_fresh := Suc (nd_fresh s), tr_pc := (tr_pc s)(t := TrLoad v (nd_fresh s))\<rparr>)" (is "tr_inv ?s")
proof -
  obtain ns where ns: "nodes_ok s ns (tr_priv (tr_pc s))" using tr_inv_nodes [OF inv] by blast
  have free: "tr_priv (tr_pc s) t = None" using pc by (simp add: tr_priv_def)
  have pr: "tr_priv (tr_pc ?s) = (tr_priv (tr_pc s))(t := Some (nd_fresh s))"
    by simp
  have ok: "nodes_ok ?s ns (tr_priv (tr_pc ?s))"
    using nodes_alloc(1) [OF ns free, where v = v and x = None] by (simp add: pr)
  have old: "n \<noteq> nd_fresh s" if "published s (tr_priv (tr_pc s)) n \<or> tr_priv (tr_pc s) u = Some n" for n u
    using that nodes_private [OF ns] by (auto simp: published_def)
  have "stacked ?s = stacked s"
    using nodes_alloc(2) [OF ns free, where v = v] nodes_stacked [OF ok] nodes_stacked [OF ns] by simp
  moreover have "published ?s (tr_priv (tr_pc ?s)) n" if "published s (tr_priv (tr_pc s)) n" for n
    using that by (auto simp: pr published_def)
  ultimately show ?thesis using ok tr_inv_log [OF inv] old
    by (intro tr_inv_update [OF inv, of t _ ns]) auto
qed

lemma tr_inv_set_next:
  assumes inv: "tr_inv s" and pc: "tr_pc s t = TrNext v n p"
  shows "tr_inv (s\<lparr>nd_next := (nd_next s)(n := p), tr_pc := (tr_pc s)(t := TrPushCas v n p)\<rparr>)"
    (is "tr_inv ?s")
proof -
  obtain ns where ns: "nodes_ok s ns (tr_priv (tr_pc s))" using tr_inv_nodes [OF inv] by blast
  have mine: "tr_priv (tr_pc s) t = Some n" using pc by (simp add: tr_priv_def)
  have pr: "(tr_priv (tr_pc s))(t := Some n) = tr_priv (tr_pc s)" using pc by (simp add: tr_priv_same)
  have ok: "nodes_ok ?s ns (tr_priv (tr_pc ?s))" using nodes_set_next [OF ns mine] by (simp add: pr)
  have other: "m \<noteq> n" if "u \<noteq> t" "tr_priv (tr_pc s) u = Some m" for m u
    using that nodes_owner [OF ns mine, of u] by blast
  have pub: "m \<noteq> n" if "published s (tr_priv (tr_pc s)) m" for m
    using that mine unfolding published_def by blast
  have "published ?s (tr_priv (tr_pc ?s)) m" if "published s (tr_priv (tr_pc s)) m" for m
    using that by (simp add: pr published_def)
  moreover have "stacked ?s = stacked s" using nodes_stacked [OF ok] nodes_stacked [OF ns] by simp
  ultimately show ?thesis using ok tr_inv_log [OF inv] tr_inv_pc [OF inv, of t] pc
    by (intro tr_inv_update [OF inv, of t _ ns]) (simp_all add: other pub pr)
qed

lemma tr_inv_push:
  assumes inv: "tr_inv s" and pc: "tr_pc s t = TrPushCas v n (nd_head s)"
  shows "tr_inv (s\<lparr>nd_head := Some n, tr_pc := (tr_pc s)(t := TrPushed v),
      tr_log := tr_log s @ [(t, Push v, PushRes)]\<rparr>)" (is "tr_inv ?s")
proof -
  obtain ns where ns: "nodes_ok s ns (tr_priv (tr_pc s))" using tr_inv_nodes [OF inv] by blast
  have mine: "tr_priv (tr_pc s) t = Some n" and nx: "nd_next s n = nd_head s" and val: "nd_val s n = v"
    using pc tr_inv_pc [OF inv, of t] by (simp_all add: tr_priv_def)
  have pr: "tr_priv (tr_pc ?s) = (tr_priv (tr_pc s))(t := None)" by simp
  have ok: "nodes_ok ?s (n # ns) (tr_priv (tr_pc ?s))" using nodes_push(1) [OF ns mine nx] by (simp add: pr)
  have "published ?s (tr_priv (tr_pc ?s)) m" if "published s (tr_priv (tr_pc s)) m" for m
    using that by (auto simp: pr published_def)
  moreover have "stacked ?s = v # stacked s"
    using nodes_stacked [OF ok] nodes_stacked [OF ns] val by simp
  then have "logged spec_stack [] (map snd (tr_log ?s)) (stacked ?s)"
    using tr_inv_log [OF inv] by (auto intro: logged_snoc)
  ultimately show ?thesis using ok
    by (intro tr_inv_update [OF inv, of t _ "n # ns"]) simp_all
qed

lemma tr_inv_pop:
  assumes inv: "tr_inv s" and pc: "tr_pc s t = TrPopCas p v nx" and hd: "nd_head s = Some p"
  shows "tr_inv (s\<lparr>nd_head := nx, tr_pc := (tr_pc s)(t := TrPopped v True),
      tr_log := tr_log s @ [(t, Pop, PopRes v True)]\<rparr>)" (is "tr_inv ?s")
proof -
  obtain ns where ns: "nodes_ok s ns (tr_priv (tr_pc s))" using tr_inv_nodes [OF inv] by blast
  have nx: "nx = nd_next s p" and val: "nd_val s p = v"
    using pc tr_inv_pc [OF inv, of t] by simp_all
  obtain ms where ms: "ns = p # ms" "nodes_ok (s\<lparr>nd_head := nd_next s p\<rparr>) ms (tr_priv (tr_pc s))"
    using nodes_pop [OF ns hd] .
  have pr: "(tr_priv (tr_pc s))(t := None) = tr_priv (tr_pc s)" using pc by (simp add: tr_priv_same)
  have ok: "nodes_ok ?s ms (tr_priv (tr_pc ?s))" using ms(2) by (simp add: pr nx)
  have "stacked s = v # stacked ?s"
    using nodes_stacked [OF ok] nodes_stacked [OF ns] ms(1) val by simp
  then have "logged spec_stack [] (map snd (tr_log ?s)) (stacked ?s)"
    using tr_inv_log [OF inv] by (auto intro!: logged_snoc)
  moreover have "published ?s (tr_priv (tr_pc ?s)) m" if "published s (tr_priv (tr_pc s)) m" for m
    using that by (simp add: pr published_def)
  ultimately show ?thesis using ok by (intro tr_inv_update [OF inv, of t _ ms]) simp_all
qed

lemma tr_inv_empty:
  assumes inv: "tr_inv s" and pc: "tr_pc s t = TrPopLoad" and hd: "nd_head s = None"
  shows "tr_inv (s\<lparr>tr_pc := (tr_pc s)(t := TrPopped 0 False),
      tr_log := tr_log s @ [(t, Pop, PopRes 0 False)]\<rparr>)" (is "tr_inv ?s")
proof -
  obtain ns where ns: "nodes_ok s ns (tr_priv (tr_pc s))" using tr_inv_nodes [OF inv] by blast
  have pr: "(tr_priv (tr_pc s))(t := None) = tr_priv (tr_pc s)" using pc by (simp add: tr_priv_same)
  have "stacked s = []" using nodes_empty [OF ns hd] by (simp add: nodes_stacked [OF ns])
  then have "logged spec_stack [] (map snd (tr_log ?s)) (stacked ?s)"
    using tr_inv_log [OF inv] by (auto intro: logged_snoc)
  then show ?thesis using ns by (intro tr_inv_update [OF inv, of t _ ns]) (simp_all add: pr)
qed

lemma tr_Push_keeps:
  assumes inv: "tr_inv s" and st: "Treiber_Push_step t s = Some s'"
  shows "tr_inv s'"
proof (cases "tr_pc s t")
  case (TrNew v)
  with st tr_inv_alloc [OF inv TrNew] show ?thesis by (simp add: Treiber_Push_step_def)
next
  case (TrLoad v n)
  with st tr_inv_pc [OF inv, of t] tr_inv_goto [OF inv, of t "TrNext v n (nd_head s)"] show ?thesis
    by (auto simp: Treiber_Push_step_def)
next
  case (TrNext v n p)
  with st tr_inv_set_next [OF inv TrNext] show ?thesis by (simp add: Treiber_Push_step_def)
next
  case (TrPushCas v n p)
  with st tr_inv_pc [OF inv, of t] tr_inv_push [OF inv, of t v n] tr_inv_goto [OF inv, of t "TrLoad v n"]
  show ?thesis by (auto simp: Treiber_Push_step_def split: if_splits)
qed (use st in \<open>simp_all add: Treiber_Push_step_def\<close>)

lemma tr_Pop_keeps:
  assumes inv: "tr_inv s" and st: "Treiber_Pop_step t s = Some s'"
  shows "tr_inv s'"
proof (cases "tr_pc s t")
  case TrPopLoad
  obtain ns where ns: "nodes_ok s ns (tr_priv (tr_pc s))" using tr_inv_nodes [OF inv] by blast
  show ?thesis
  proof (cases "nd_head s")
    case None
    with st TrPopLoad tr_inv_empty [OF inv TrPopLoad] show ?thesis by (simp add: Treiber_Pop_step_def)
  next
    case (Some p)
    with st TrPopLoad nodes_head_published [OF ns Some] tr_inv_goto [OF inv, of t "TrRead p"]
    show ?thesis by (auto simp: Treiber_Pop_step_def)
  qed
next
  case (TrRead p)
  with st tr_inv_pc [OF inv, of t]
    tr_inv_goto [OF inv, of t "TrPopCas p (nd_val s p) (nd_next s p)"] show ?thesis
    by (auto simp: Treiber_Pop_step_def)
next
  case (TrPopCas p v nx)
  with st tr_inv_pop [OF inv TrPopCas] tr_inv_goto [OF inv, of t TrPopLoad] show ?thesis
    by (auto simp: Treiber_Pop_step_def split: if_splits)
qed (use st in \<open>simp_all add: Treiber_Pop_step_def\<close>)

lemma tr_inv_step:
  assumes inv: "tr_inv s" and st: "Treiber_step a s = Some s'"
  shows "tr_inv s'"
proof (cases a)
  case (TrStep t)
  with st tr_Push_keeps [OF inv] tr_Pop_keeps [OF inv] show ?thesis by (auto split: option.splits)
next
  case (TrReturn t)
  with st tr_inv_goto [OF inv, of t TrIdle] show ?thesis
    by (cases "tr_pc s t") (auto split: if_splits)
qed (use st tr_inv_goto [OF inv] in \<open>auto split: if_splits\<close>)

interpretation treiber: machine "\<lambda>s. s = NewLockFreeStack" Treiber_step tr_inv
proof unfold_locales
  show "s = NewLockFreeStack \<Longrightarrow> tr_inv s" for s :: "'a LockFreeStack"
  proof -
    assume s: "s = NewLockFreeStack"
    then have "nodes_ok s [] (tr_priv (tr_pc s))"
      by (simp add: NewLockFreeStack_def nodes_ok_def tr_priv_def)
    then show "tr_inv s" using s unfolding tr_inv_def
      by (intro conjI exI) (auto simp: NewLockFreeStack_def stacked_def logged_Nil)
  qed
  show "tr_inv s \<Longrightarrow> Treiber_step a s = Some s' \<Longrightarrow> tr_inv s'" for s :: "'a LockFreeStack" and a s'
    by (rule tr_inv_step)
qed



end
