(* ===== verification/Stack_Elimination.thy ===== *)
theory Stack_Elimination
  imports Stack_Spec
begin

text \<open>
  The elimination-backoff stack of \<^verbatim>\<open>stack/elimination_backoff_mpmc.go\<close>: a lock-free stack
  whose losing pushers and poppers meet in 64 slots and exchange a value without touching the
  head. One step is one access to shared memory (the reads of immutable fields join the step that
  uses them).

  Auxiliary fields, read by no step: \<open>el_log\<close> records each operation at the access that decides
  it (an exchange is a push and a pop, recorded together at the CAS that takes the waiting
  operation out of its slot), \<open>op_owner\<close> and \<open>op_got\<close> hold the goroutine that made an
  operation record and the value it was matched with, and \<open>el_early\<close> marks a \<^verbatim>\<open>Pop\<close> that
  read \<^verbatim>\<open>op.value\<close> before its partner set \<^verbatim>\<open>op.done\<close>.
\<close>

section \<open>Constants and the choice of a slot\<close>

datatype eliminationKind = eliminationPush | eliminationPop

definition eliminationArraySize :: nat where "eliminationArraySize = 64"
definition eliminationAttempts :: nat where "eliminationAttempts = 2"
definition eliminationWaitSpins :: nat where "eliminationWaitSpins = 2048"

definition elimination_mix :: "u64 \<Rightarrow> u64" where
  "elimination_mix x0 =
     (let x1 = x0 XOR drop_bit 30 x0;
          x2 = x1 * 0xbf58476d1ce4e5b9;
          x3 = x2 XOR drop_bit 27 x2;
          x4 = x3 * 0x94d049bb133111eb
      in x4 XOR drop_bit 31 x4)"

text \<open>\<^verbatim>\<open>randomSlot\<close>: the new ticket and the index it gives.\<close>

definition randomSlot :: "u64 \<Rightarrow> u64 \<times> nat" where
  "randomSlot ticket =
     (let x = ticket + 0x9e3779b97f4a7c15
      in (x, unat (elimination_mix x mod of_nat eliminationArraySize)))"

lemma randomSlot_less: "snd (randomSlot ticket) < eliminationArraySize"
  by (simp add: randomSlot_def eliminationArraySize_def Let_def unat_mod_distrib)

section \<open>The machine\<close>

text \<open>Who called the elimination: a \<^verbatim>\<open>Push\<close> with its value and node, or a \<^verbatim>\<open>Pop\<close>, which
  found the stack empty or lost a CAS.\<close>

datatype 'a el_caller = ByPush 'a nat | ByPop bool

datatype 'a el_pc =
    ElIdle
  | ElNew 'a                            \<comment> \<open>\<^verbatim>\<open>Push\<close>: \<open>n := &node[T]{v: v}\<close>\<close>
  | ElHead 'a nat                       \<comment> \<open>\<open>prev := e.head.Load()\<close>\<close>
  | ElNext 'a nat "nat option"          \<comment> \<open>\<open>n.next = prev\<close>\<close>
  | ElPushCas 'a nat "nat option"       \<comment> \<open>\<open>e.head.CompareAndSwap(prev, n)\<close>\<close>
  | ElPushed 'a
  | ElPopHead                           \<comment> \<open>\<^verbatim>\<open>Pop\<close>: \<open>prev := e.head.Load()\<close>\<close>
  | ElRead nat                          \<comment> \<open>\<open>val, next := prev.v, prev.next\<close>\<close>
  | ElPopCas nat 'a "nat option"        \<comment> \<open>\<open>e.head.CompareAndSwap(prev, next)\<close>\<close>
  | ElPopAgain                          \<comment> \<open>\<open>e.head.Load() == nil\<close> after a failed exchange\<close>
  | ElPopped 'a bool
  | ElChoose "'a el_caller" nat         \<comment> \<open>attempts left; \<open>e.ticket.Add\<close>\<close>
  | ElAlloc "'a el_caller" nat nat      \<comment> \<open>\<open>mine := &eliminationOp[T]{...}\<close>\<close>
  | ElLoadOp "'a el_caller" nat nat nat \<comment> \<open>\<open>curr := s.op.Load()\<close> and the switch\<close>
  | ElInstall "'a el_caller" nat nat nat     \<comment> \<open>\<open>s.op.CompareAndSwap(nil, mine)\<close>\<close>
  | ElTake "'a el_caller" nat nat nat nat    \<comment> \<open>\<open>s.op.CompareAndSwap(curr, nil)\<close>\<close>
  | ElPut 'a nat                        \<comment> \<open>\<^verbatim>\<open>visitPush\<close>: \<open>curr.value = v\<close>\<close>
  | ElGet nat                           \<comment> \<open>\<^verbatim>\<open>visitPop\<close>: \<open>v := curr.value\<close>\<close>
  | ElPutDone 'a nat                    \<comment> \<open>\<^verbatim>\<open>visitPush\<close>: \<open>curr.done.Store(true)\<close>\<close>
  | ElGetDone 'a nat                    \<comment> \<open>\<^verbatim>\<open>visitPop\<close>: \<open>curr.done.Store(true)\<close>\<close>
  | ElWait "'a el_caller" nat nat nat bool nat \<comment> \<open>\<open>op.done.Load()\<close>; second wait?; loads left\<close>
  | ElWithdraw "'a el_caller" nat nat nat    \<comment> \<open>\<open>s.op.CompareAndSwap(op, nil)\<close>\<close>
  | ElResult nat                        \<comment> \<open>\<open>return op.value, true\<close>\<close>

record 'a EliminationBackoffMPMC = "'a nodes" +
  el_ticket :: u64
  el_slot :: "nat \<Rightarrow> nat option"
  op_kind :: "nat \<Rightarrow> eliminationKind"
  op_value :: "nat \<Rightarrow> 'a"
  op_done :: "nat \<Rightarrow> bool"
  op_fresh :: nat
  el_pc :: "tid \<Rightarrow> 'a el_pc"
  el_log :: "(tid \<times> 'a stack_op \<times> 'a stack_result) list"
  op_owner :: "nat \<Rightarrow> tid"
  op_got :: "nat \<Rightarrow> 'a option"
  el_early :: "tid \<Rightarrow> bool"

definition NewEliminationBackoffMPMC :: "'a::zero EliminationBackoffMPMC" where
  "NewEliminationBackoffMPMC = \<lparr>nd_head = None, nd_val = (\<lambda>_. 0), nd_next = (\<lambda>_. None), nd_fresh = 0,
     el_ticket = 0, el_slot = (\<lambda>_. None), op_kind = (\<lambda>_. eliminationPush), op_value = (\<lambda>_. 0),
     op_done = (\<lambda>_. False), op_fresh = 0, el_pc = (\<lambda>_. ElIdle), el_log = [],
     op_owner = (\<lambda>_. 0), op_got = (\<lambda>_. None), el_early = (\<lambda>_. False)\<rparr>"

abbreviation el_goto :: "tid \<Rightarrow> 'a el_pc \<Rightarrow> 'a EliminationBackoffMPMC \<Rightarrow> 'a EliminationBackoffMPMC" where
  "el_goto t p s \<equiv> s\<lparr>el_pc := (el_pc s)(t := p)\<rparr>"

definition EB_Push_step :: "tid \<Rightarrow> 'a EliminationBackoffMPMC \<Rightarrow> 'a EliminationBackoffMPMC option" where
  "EB_Push_step t s =
     (case el_pc s t of
        ElNew v \<Rightarrow> Some (s\<lparr>nd_val := (nd_val s)(nd_fresh s := v), nd_next := (nd_next s)(nd_fresh s := None),
                          nd_fresh := Suc (nd_fresh s), el_pc := (el_pc s)(t := ElHead v (nd_fresh s))\<rparr>)
      | ElHead v n \<Rightarrow> Some (el_goto t (ElNext v n (nd_head s)) s)
      | ElNext v n prev \<Rightarrow> Some (s\<lparr>nd_next := (nd_next s)(n := prev), el_pc := (el_pc s)(t := ElPushCas v n prev)\<rparr>)
      | ElPushCas v n prev \<Rightarrow>
          (if nd_head s = prev
           then Some (s\<lparr>nd_head := Some n, el_pc := (el_pc s)(t := ElPushed v),
                        el_log := el_log s @ [(t, Push v, PushRes)]\<rparr>)
           else Some (el_goto t (ElChoose (ByPush v n) eliminationAttempts) s))
      | _ \<Rightarrow> None)"

definition EB_Pop_step :: "tid \<Rightarrow> 'a::zero EliminationBackoffMPMC \<Rightarrow> 'a EliminationBackoffMPMC option" where
  "EB_Pop_step t s =
     (case el_pc s t of
        ElPopHead \<Rightarrow>
          (case nd_head s of
             None \<Rightarrow> Some (el_goto t (ElChoose (ByPop True) eliminationAttempts) s)
           | Some prev \<Rightarrow> Some (el_goto t (ElRead prev) s))
      | ElPopAgain \<Rightarrow>
          (if nd_head s = None
           then Some (s\<lparr>el_pc := (el_pc s)(t := ElPopped 0 False),
                        el_log := el_log s @ [(t, Pop, PopRes 0 False)]\<rparr>)
           else Some (el_goto t ElPopHead s))
      | ElRead prev \<Rightarrow> Some (el_goto t (ElPopCas prev (nd_val s prev) (nd_next s prev)) s)
      | ElPopCas prev val next \<Rightarrow>
          (if nd_head s = Some prev
           then Some (s\<lparr>nd_head := next, el_pc := (el_pc s)(t := ElPopped val True),
                        el_log := el_log s @ [(t, Pop, PopRes val True)]\<rparr>)
           else Some (el_goto t (ElChoose (ByPop False) eliminationAttempts) s))
      | _ \<Rightarrow> None)"

text \<open>Where \<^verbatim>\<open>tryEliminatePush\<close> and \<^verbatim>\<open>tryEliminatePop\<close> return to when every attempt has
  failed; the kind and value of the caller's own operation record.\<close>

fun el_failed :: "'a el_caller \<Rightarrow> 'a el_pc" where
  "el_failed (ByPush v n) = ElHead v n"
| "el_failed (ByPop True) = ElPopAgain"
| "el_failed (ByPop False) = ElPopHead"

fun caller_kind :: "'a el_caller \<Rightarrow> eliminationKind" where
  "caller_kind (ByPush v n) = eliminationPush" | "caller_kind (ByPop b) = eliminationPop"

fun caller_value :: "'a::zero el_caller \<Rightarrow> 'a" where
  "caller_value (ByPush v n) = v" | "caller_value (ByPop b) = 0"

definition EB_visit_step :: "tid \<Rightarrow> 'a::zero EliminationBackoffMPMC \<Rightarrow> 'a EliminationBackoffMPMC option" where
  "EB_visit_step t s =
     (case el_pc s t of
        ElChoose c k \<Rightarrow>
          (case k of
             0 \<Rightarrow> Some (el_goto t (el_failed c) s)
           | Suc k' \<Rightarrow> (case randomSlot (el_ticket s) of (x, i) \<Rightarrow>
               Some (s\<lparr>el_ticket := x, el_pc := (el_pc s)(t := ElAlloc c k' i)\<rparr>)))
      | ElAlloc c k i \<Rightarrow>
          Some (s\<lparr>op_kind := (op_kind s)(op_fresh s := caller_kind c),
                  op_value := (op_value s)(op_fresh s := caller_value c),
                  op_done := (op_done s)(op_fresh s := False), op_fresh := Suc (op_fresh s),
                  el_pc := (el_pc s)(t := ElLoadOp c k i (op_fresh s)),
                  op_owner := (op_owner s)(op_fresh s := t)\<rparr>)
      | ElLoadOp c k i mine \<Rightarrow>
          (case el_slot s i of
             None \<Rightarrow> Some (el_goto t (ElInstall c k i mine) s)
           | Some cur \<Rightarrow>
               if op_kind s cur \<noteq> caller_kind c
               then Some (el_goto t (ElTake c k i mine cur) s)
               else Some (el_goto t (ElChoose c k) s))
      | ElInstall c k i mine \<Rightarrow>
          (if el_slot s i = None
           then Some (s\<lparr>el_slot := (el_slot s)(i := Some mine),
                        el_pc := (el_pc s)(t := ElWait c k i mine False (Suc eliminationWaitSpins))\<rparr>)
           else Some (el_goto t (ElLoadOp c k i mine) s))
      | ElTake c k i mine cur \<Rightarrow>
          (if el_slot s i = Some cur
           then (case c of
               ByPush v n \<Rightarrow>
                 Some (s\<lparr>el_slot := (el_slot s)(i := None), el_pc := (el_pc s)(t := ElPut v cur),
                         el_log := el_log s @ [(t, Push v, PushRes), (op_owner s cur, Pop, PopRes v True)],
                         op_got := (op_got s)(cur := Some v)\<rparr>)
             | ByPop b \<Rightarrow>
                 Some (s\<lparr>el_slot := (el_slot s)(i := None), el_pc := (el_pc s)(t := ElGet cur),
                         el_log := el_log s @ [(op_owner s cur, Push (op_value s cur), PushRes),
                                               (t, Pop, PopRes (op_value s cur) True)],
                         op_got := (op_got s)(cur := Some (op_value s cur))\<rparr>))
           else Some (el_goto t (ElLoadOp c k i mine) s))
      | ElPut v cur \<Rightarrow> Some (s\<lparr>op_value := (op_value s)(cur := v), el_pc := (el_pc s)(t := ElPutDone v cur)\<rparr>)
      | ElGet cur \<Rightarrow> Some (el_goto t (ElGetDone (op_value s cur) cur) s)
      | ElPutDone v cur \<Rightarrow> Some (s\<lparr>op_done := (op_done s)(cur := True), el_pc := (el_pc s)(t := ElPushed v)\<rparr>)
      | ElGetDone v cur \<Rightarrow> Some (s\<lparr>op_done := (op_done s)(cur := True), el_pc := (el_pc s)(t := ElPopped v True)\<rparr>)
      | _ \<Rightarrow> None)"

text \<open>\<^verbatim>\<open>waitForPushMatch\<close> and \<^verbatim>\<open>waitForPopMatch\<close>: what follows a wait that saw
  \<^verbatim>\<open>done\<close>, or the second wait whatever it saw.\<close>

fun el_matched :: "'a el_caller \<Rightarrow> nat \<Rightarrow> 'a el_pc" where
  "el_matched (ByPush v n) mine = ElPushed v"
| "el_matched (ByPop b) mine = ElResult mine"

definition EB_wait_step :: "tid \<Rightarrow> 'a EliminationBackoffMPMC \<Rightarrow> 'a EliminationBackoffMPMC option" where
  "EB_wait_step t s =
     (case el_pc s t of
        ElWait c k i mine second j \<Rightarrow>
          (if op_done s mine then Some (el_goto t (el_matched c mine) s)
           else if 1 < j then Some (el_goto t (ElWait c k i mine second (j - 1)) s)
           else if second then Some (el_goto t (el_matched c mine) s)
           else Some (el_goto t (ElWithdraw c k i mine) s))
      | ElWithdraw c k i mine \<Rightarrow>
          (if el_slot s i = Some mine
           then Some (s\<lparr>el_slot := (el_slot s)(i := None), el_pc := (el_pc s)(t := ElChoose c k)\<rparr>)
           else Some (el_goto t (ElWait c k i mine True (Suc eliminationWaitSpins)) s))
      | ElResult mine \<Rightarrow>
          Some (s\<lparr>el_pc := (el_pc s)(t := ElPopped (op_value s mine) True),
                  el_early := (el_early s)(t := \<not> op_done s mine)\<rparr>)
      | _ \<Rightarrow> None)"

datatype 'a el_act = ElPush tid 'a | ElPop tid | ElStep tid | ElReturn tid

fun el_finished :: "'a el_pc \<Rightarrow> bool" where
  "el_finished (ElPushed v) = True" | "el_finished (ElPopped v b) = True" | "el_finished _ = False"

definition EB_step_of :: "tid \<Rightarrow> 'a::zero EliminationBackoffMPMC \<Rightarrow> 'a EliminationBackoffMPMC option" where
  "EB_step_of t s =
     (case EB_Push_step t s of Some s' \<Rightarrow> Some s' | None \<Rightarrow>
      case EB_Pop_step t s of Some s' \<Rightarrow> Some s' | None \<Rightarrow>
      case EB_visit_step t s of Some s' \<Rightarrow> Some s' | None \<Rightarrow> EB_wait_step t s)"

fun EB_step :: "'a::zero el_act \<Rightarrow> 'a EliminationBackoffMPMC \<Rightarrow> 'a EliminationBackoffMPMC option" where
  "EB_step (ElPush t v) s =
     (if el_pc s t = ElIdle then Some (s\<lparr>el_pc := (el_pc s)(t := ElNew v), el_early := (el_early s)(t := False)\<rparr>) else None)"
| "EB_step (ElPop t) s =
     (if el_pc s t = ElIdle then Some (s\<lparr>el_pc := (el_pc s)(t := ElPopHead), el_early := (el_early s)(t := False)\<rparr>) else None)"
| "EB_step (ElStep t) s = EB_step_of t s"
| "EB_step (ElReturn t) s =
     (if el_finished (el_pc s t) then Some (el_goto t ElIdle s) else None)"

section \<open>The invariant\<close>

fun caller_node :: "'a el_caller \<Rightarrow> nat option" where
  "caller_node (ByPush v n) = Some n" | "caller_node (ByPop b) = None"

fun el_node :: "'a el_pc \<Rightarrow> nat option" where
  "el_node (ElHead v n) = Some n"
| "el_node (ElNext v n p) = Some n"
| "el_node (ElPushCas v n p) = Some n"
| "el_node (ElChoose c k) = caller_node c"
| "el_node (ElAlloc c k i) = caller_node c"
| "el_node (ElLoadOp c k i m) = caller_node c"
| "el_node (ElInstall c k i m) = caller_node c"
| "el_node (ElTake c k i m x) = caller_node c"
| "el_node (ElWait c k i m b j) = caller_node c"
| "el_node (ElWithdraw c k i m) = caller_node c"
| "el_node _ = None"

definition el_priv :: "(tid \<Rightarrow> 'a el_pc) \<Rightarrow> tid \<Rightarrow> nat option" where
  "el_priv pcs t = el_node (pcs t)"

lemma el_priv_upd [simp]: "el_priv (pcs(t := p)) = (el_priv pcs)(t := el_node p)"
  by (auto simp: el_priv_def)

lemma el_priv_same: "el_node (pcs t) = x \<Longrightarrow> (el_priv pcs)(t := x) = el_priv pcs"
  by (auto simp: el_priv_def)

text \<open>A goroutine whose record waits in a slot.\<close>

fun el_waits :: "'a el_pc \<Rightarrow> (nat \<times> nat) option" where
  "el_waits (ElWait c k i m False j) = Some (i, m)"
| "el_waits (ElWithdraw c k i m) = Some (i, m)"
| "el_waits _ = None"

text \<open>The log entry of a call that is matched with the value \<open>w\<close>.\<close>

fun el_entry :: "'a el_caller \<Rightarrow> 'a \<Rightarrow> 'a stack_op \<times> 'a stack_result" where
  "el_entry (ByPush v n) w = (Push v, PushRes)"
| "el_entry (ByPop b) w = (Pop, PopRes w True)"

fun caller_ok :: "('a, 'b) nodes_scheme \<Rightarrow> 'a el_caller \<Rightarrow> bool" where
  "caller_ok s (ByPush v n) = (nd_val s n = v)" | "caller_ok s (ByPop b) = True"

definition mine_ok :: "'a::zero EliminationBackoffMPMC \<Rightarrow> tid \<Rightarrow> 'a el_caller \<Rightarrow> nat \<Rightarrow> bool" where
  "mine_ok s t c m \<longleftrightarrow> m < op_fresh s \<and> op_owner s m = t \<and> op_kind s m = caller_kind c
     \<and> (caller_kind c = eliminationPush \<longrightarrow> op_value s m = caller_value c)"

definition wait_ok :: "'a EliminationBackoffMPMC \<Rightarrow> tid \<Rightarrow> 'a el_caller \<Rightarrow> nat \<Rightarrow> nat \<Rightarrow> bool \<Rightarrow> bool" where
  "wait_ok s t c i m second \<longleftrightarrow>
     (case op_got s m of
        None \<Rightarrow> el_slot s i = Some m \<and> \<not> second
      | Some w \<Rightarrow> last_entry (el_log s) t (el_entry c w))"

fun el_pc_ok :: "'a::zero EliminationBackoffMPMC \<Rightarrow> tid \<Rightarrow> 'a el_pc \<Rightarrow> bool" where
  "el_pc_ok s t (ElHead v n) = (nd_val s n = v)"
| "el_pc_ok s t (ElNext v n p) = (nd_val s n = v)"
| "el_pc_ok s t (ElPushCas v n p) = (nd_val s n = v \<and> nd_next s n = p)"
| "el_pc_ok s t (ElPushed v) = last_entry (el_log s) t (Push v, PushRes)"
| "el_pc_ok s t (ElRead p) = published s (el_priv (el_pc s)) p"
| "el_pc_ok s t (ElPopCas p v nx) =
     (published s (el_priv (el_pc s)) p \<and> nd_val s p = v \<and> nd_next s p = nx)"
| "el_pc_ok s t (ElPopped v b) =
     (\<exists>w. last_entry (el_log s) t (Pop, PopRes w b) \<and> (v = w \<or> el_early s t \<and> b \<and> v = 0))"
| "el_pc_ok s t (ElChoose c k) = caller_ok s c"
| "el_pc_ok s t (ElAlloc c k i) = caller_ok s c"
| "el_pc_ok s t (ElLoadOp c k i m) = (caller_ok s c \<and> mine_ok s t c m \<and> op_got s m = None)"
| "el_pc_ok s t (ElInstall c k i m) = (caller_ok s c \<and> mine_ok s t c m \<and> op_got s m = None)"
| "el_pc_ok s t (ElTake c k i m x) =
     (caller_ok s c \<and> mine_ok s t c m \<and> op_got s m = None
      \<and> x < op_fresh s \<and> op_kind s x \<noteq> caller_kind c)"
| "el_pc_ok s t (ElPut v x) =
     (last_entry (el_log s) t (Push v, PushRes) \<and> op_got s x = Some v
      \<and> x < op_fresh s \<and> op_kind s x = eliminationPop)"
| "el_pc_ok s t (ElPutDone v x) =
     (last_entry (el_log s) t (Push v, PushRes) \<and> op_got s x = Some v \<and> op_value s x = v)"
| "el_pc_ok s t (ElGet x) =
     (\<exists>w. last_entry (el_log s) t (Pop, PopRes w True) \<and> op_got s x = Some w \<and> op_value s x = w)"
| "el_pc_ok s t (ElGetDone v x) =
     (last_entry (el_log s) t (Pop, PopRes v True) \<and> op_got s x = Some v \<and> op_value s x = v)"
| "el_pc_ok s t (ElWait c k i m b j) = (caller_ok s c \<and> mine_ok s t c m \<and> wait_ok s t c i m b)"
| "el_pc_ok s t (ElWithdraw c k i m) = (caller_ok s c \<and> mine_ok s t c m \<and> wait_ok s t c i m False)"
| "el_pc_ok s t (ElResult m) =
     (\<exists>w. op_got s m = Some w \<and> last_entry (el_log s) t (Pop, PopRes w True))"
| "el_pc_ok s t _ = True"

definition el_ops :: "'a::zero EliminationBackoffMPMC \<Rightarrow> bool" where
  "el_ops s \<longleftrightarrow>
     (\<forall>i x. el_slot s i = Some x \<longrightarrow> x < op_fresh s \<and> op_got s x = None
        \<and> el_waits (el_pc s (op_owner s x)) = Some (i, x))
     \<and> (\<forall>x. op_done s x \<longrightarrow> op_got s x = Some (op_value s x))
     \<and> (\<forall>x. op_fresh s \<le> x \<longrightarrow> op_got s x = None)
     \<and> (\<forall>x. op_kind s x = eliminationPop \<longrightarrow> x < op_fresh s \<longrightarrow> op_got s x = None \<longrightarrow> op_value s x = 0)
     \<and> (\<forall>x w. op_got s x = Some w \<longrightarrow> op_value s x = w \<or> op_value s x = 0)"

definition el_inv :: "'a::zero EliminationBackoffMPMC \<Rightarrow> bool" where
  "el_inv s \<longleftrightarrow> (\<exists>ns. nodes_ok s ns (el_priv (el_pc s))) \<and> (\<forall>t. el_pc_ok s t (el_pc s t))
     \<and> el_ops s \<and> logged spec_stack [] (map snd (el_log s)) (stacked s)"

lemma el_inv_parts:
  assumes "el_inv s"
  shows el_inv_nodes: "\<exists>ns. nodes_ok s ns (el_priv (el_pc s))"
    and el_inv_pc: "el_pc_ok s t (el_pc s t)"
    and el_inv_ops: "el_ops s"
    and el_inv_log: "logged spec_stack [] (map snd (el_log s)) (stacked s)"
  using assms unfolding el_inv_def by blast+

lemma el_ops_parts:
  assumes "el_ops s"
  shows el_slot_op: "el_slot s i = Some x \<Longrightarrow> x < op_fresh s \<and> op_got s x = None
      \<and> el_waits (el_pc s (op_owner s x)) = Some (i, x)"
    and el_done_got: "op_done s x \<Longrightarrow> op_got s x = Some (op_value s x)"
    and el_fresh_got: "op_fresh s \<le> x \<Longrightarrow> op_got s x = None"
    and el_value_zero: "op_kind s x = eliminationPop \<Longrightarrow> x < op_fresh s \<Longrightarrow> op_got s x = None \<Longrightarrow> op_value s x = 0"
    and el_value_got: "op_got s x = Some w \<Longrightarrow> op_value s x = w \<or> op_value s x = 0"
  using assms unfolding el_ops_def by blast+

section \<open>What a step of another goroutine leaves alone\<close>

definition ops_kept :: "'a EliminationBackoffMPMC \<Rightarrow> 'a EliminationBackoffMPMC \<Rightarrow> bool" where
  "ops_kept s s' \<longleftrightarrow>
     (\<forall>x < op_fresh s. x < op_fresh s' \<and> op_owner s' x = op_owner s x \<and> op_kind s' x = op_kind s x
        \<and> (op_kind s x = eliminationPush \<longrightarrow> op_value s' x = op_value s x))
     \<and> (\<forall>x w. op_got s x = Some w \<longrightarrow> op_got s' x = Some w
        \<and> (op_value s x = w \<longrightarrow> op_value s' x = w))"

definition wait_kept :: "'a EliminationBackoffMPMC \<Rightarrow> 'a EliminationBackoffMPMC \<Rightarrow> tid \<Rightarrow> bool" where
  "wait_kept s s' u \<longleftrightarrow>
     (\<forall>m < op_fresh s. op_owner s m = u \<longrightarrow> op_got s m = None \<longrightarrow>
        op_got s' m = None \<and> (\<forall>i. el_slot s i = Some m \<longrightarrow> el_slot s' i = Some m))"

definition stack_kept :: "'a EliminationBackoffMPMC \<Rightarrow> 'a EliminationBackoffMPMC \<Rightarrow> tid \<Rightarrow> bool" where
  "stack_kept s s' u \<longleftrightarrow>
     (\<forall>n. el_priv (el_pc s) u = Some n \<longrightarrow> nd_val s' n = nd_val s n \<and> nd_next s' n = nd_next s n)
     \<and> (\<forall>n. published s (el_priv (el_pc s)) n \<longrightarrow> published s' (el_priv (el_pc s')) n
          \<and> nd_val s' n = nd_val s n \<and> nd_next s' n = nd_next s n)"

lemma caller_ok_mono:
  "caller_ok s c \<Longrightarrow> (\<And>n. caller_node c = Some n \<Longrightarrow> nd_val s' n = nd_val s n) \<Longrightarrow> caller_ok s' c"
  by (cases c) auto

lemma mine_ok_mono: "mine_ok s t c m \<Longrightarrow> ops_kept s s' \<Longrightarrow> mine_ok s' t c m"
  by (cases c) (auto simp: mine_ok_def ops_kept_def)

lemma wait_ok_mono:
  assumes "wait_ok s u c i m b" and "mine_ok s u c m" and "ops_kept s s'" and "wait_kept s s' u"
    and "\<And>e. last_entry (el_log s') u e = last_entry (el_log s) u e"
  shows "wait_ok s' u c i m b"
proof (cases "op_got s m")
  case None
  moreover have "m < op_fresh s" "op_owner s m = u" using assms(2) by (simp_all add: mine_ok_def)
  ultimately have "op_got s' m = None" "el_slot s i = Some m \<longrightarrow> el_slot s' i = Some m"
    using assms(4) by (simp_all add: wait_kept_def)
  with None assms(1) show ?thesis by (simp add: wait_ok_def)
next
  case (Some w)
  then have "op_got s' m = Some w" using assms(3) by (simp add: ops_kept_def)
  with Some assms(1,5) show ?thesis by (simp add: wait_ok_def)
qed

lemma el_pc_ok_mono:
  assumes ok: "el_pc_ok s u p" and p: "el_pc s u = p"
    and st: "stack_kept s s' u" and ops: "ops_kept s s'" and wt: "wait_kept s s' u"
    and log: "\<And>e. last_entry (el_log s') u e = last_entry (el_log s) u e"
    and early: "el_early s' u = el_early s u"
  shows "el_pc_ok s' u p"
proof -
  have nd: "nd_val s' n = nd_val s n \<and> nd_next s' n = nd_next s n" if "el_node p = Some n" for n
    using st that p by (simp add: stack_kept_def el_priv_def)
  have pub: "published s' (el_priv (el_pc s')) n \<and> nd_val s' n = nd_val s n \<and> nd_next s' n = nd_next s n"
    if "published s (el_priv (el_pc s)) n" for n
    using st that by (simp add: stack_kept_def)
  have call: "caller_ok s c \<Longrightarrow> el_node p = caller_node c \<Longrightarrow> caller_ok s' c" for c
    using nd caller_ok_mono [of s c s'] by auto
  have got: "op_got s x = Some w \<Longrightarrow> op_got s' x = Some w"
    "op_got s x = Some w \<Longrightarrow> op_value s x = w \<Longrightarrow> op_value s' x = w"
    "x < op_fresh s \<Longrightarrow> x < op_fresh s' \<and> op_kind s' x = op_kind s x" for x w
    using ops by (simp_all add: ops_kept_def)
  have none: "mine_ok s u c m \<Longrightarrow> op_got s m = None \<Longrightarrow> op_got s' m = None" for c m
    using wt by (simp add: wait_kept_def mine_ok_def)
  note mono = mine_ok_mono [OF _ ops] wait_ok_mono [OF _ _ ops wt log]
  show ?thesis
    using ok nd pub call got none mono log early
    by (cases p) (simp_all, (blast+)?)
qed

section \<open>Every step keeps the invariant\<close>

lemma el_stacked_frame [simp]:
  "stacked (s\<lparr>el_ticket := a0\<rparr>) = stacked s"
  "stacked (s\<lparr>el_slot := a1\<rparr>) = stacked s"
  "stacked (s\<lparr>op_kind := a2\<rparr>) = stacked s"
  "stacked (s\<lparr>op_value := a3\<rparr>) = stacked s"
  "stacked (s\<lparr>op_done := a4\<rparr>) = stacked s"
  "stacked (s\<lparr>op_fresh := a5\<rparr>) = stacked s"
  "stacked (s\<lparr>el_pc := a6\<rparr>) = stacked s"
  "stacked (s\<lparr>el_log := a7\<rparr>) = stacked s"
  "stacked (s\<lparr>op_owner := a8\<rparr>) = stacked s"
  "stacked (s\<lparr>op_got := a9\<rparr>) = stacked s"
  "stacked (s\<lparr>el_early := a10\<rparr>) = stacked s"
  by (simp_all add: stacked_def)

lemma el_nodes_frame [simp]:
  "nodes_ok (s\<lparr>el_ticket := a0\<rparr>) = nodes_ok s" "published (s\<lparr>el_ticket := a0\<rparr>) = published s"
  "nodes_ok (s\<lparr>el_slot := a1\<rparr>) = nodes_ok s" "published (s\<lparr>el_slot := a1\<rparr>) = published s"
  "nodes_ok (s\<lparr>op_kind := a2\<rparr>) = nodes_ok s" "published (s\<lparr>op_kind := a2\<rparr>) = published s"
  "nodes_ok (s\<lparr>op_value := a3\<rparr>) = nodes_ok s" "published (s\<lparr>op_value := a3\<rparr>) = published s"
  "nodes_ok (s\<lparr>op_done := a4\<rparr>) = nodes_ok s" "published (s\<lparr>op_done := a4\<rparr>) = published s"
  "nodes_ok (s\<lparr>op_fresh := a5\<rparr>) = nodes_ok s" "published (s\<lparr>op_fresh := a5\<rparr>) = published s"
  "nodes_ok (s\<lparr>el_pc := a6\<rparr>) = nodes_ok s" "published (s\<lparr>el_pc := a6\<rparr>) = published s"
  "nodes_ok (s\<lparr>el_log := a7\<rparr>) = nodes_ok s" "published (s\<lparr>el_log := a7\<rparr>) = published s"
  "nodes_ok (s\<lparr>op_owner := a8\<rparr>) = nodes_ok s" "published (s\<lparr>op_owner := a8\<rparr>) = published s"
  "nodes_ok (s\<lparr>op_got := a9\<rparr>) = nodes_ok s" "published (s\<lparr>op_got := a9\<rparr>) = published s"
  "nodes_ok (s\<lparr>el_early := a10\<rparr>) = nodes_ok s" "published (s\<lparr>el_early := a10\<rparr>) = published s"
  by (simp_all add: fun_eq_iff nodes_ok_def published_def)

lemma el_inv_update:
  assumes inv: "el_inv s"
    and pcs: "\<And>u. u \<noteq> t \<Longrightarrow> el_pc s' u = el_pc s u"
    and st: "\<And>u. u \<noteq> t \<Longrightarrow> stack_kept s s' u" and ops: "ops_kept s s'"
    and wt: "\<And>u. u \<noteq> t \<Longrightarrow> wait_kept s s' u"
    and log: "\<And>u e. u \<noteq> t \<Longrightarrow> last_entry (el_log s') u e = last_entry (el_log s) u e"
    and early: "\<And>u. u \<noteq> t \<Longrightarrow> el_early s' u = el_early s u"
    and new: "el_pc_ok s' t (el_pc s' t)" "nodes_ok s' ns (el_priv (el_pc s'))" "el_ops s'"
      "logged spec_stack [] (map snd (el_log s')) (stacked s')"
  shows "el_inv s'"
proof -
  have "el_pc_ok s' u (el_pc s' u)" for u
  proof (cases "u = t")
    case False
    have "el_pc_ok s' u (el_pc s u)"
      by (rule el_pc_ok_mono [OF el_inv_pc [OF inv, of u] refl st [OF False] ops wt [OF False]
            log [OF False] early [OF False]])
    then show ?thesis using pcs [OF False] by simp
  qed (use new in simp)
  then show ?thesis using new unfolding el_inv_def by blast
qed

lemma el_kept_refl:
  "ops_kept s (s\<lparr>el_pc := pcs\<rparr>)" "wait_kept s (s\<lparr>el_pc := pcs\<rparr>) u"
  by (simp_all add: ops_kept_def wait_kept_def)

lemma el_pc_ok_pcs:
  assumes "el_pc_ok s t p"
    and "\<And>n. published s (el_priv (el_pc s)) n \<Longrightarrow> published s (el_priv pcs) n"
  shows "el_pc_ok (s\<lparr>el_pc := pcs\<rparr>) t p"
proof -
  have "caller_ok (s\<lparr>el_pc := pcs\<rparr>) c = caller_ok s c" for c by (cases c) simp_all
  with assms show ?thesis
    by (cases p) (simp_all add: mine_ok_def wait_ok_def split: option.splits)
qed

text \<open>A step that only moves a program counter; it may drop the goroutine's node.\<close>

lemma el_inv_goto:
  assumes inv: "el_inv s" and ok: "el_pc_ok s t p"
    and node: "el_node p = el_node (el_pc s t) \<or> el_node p = None"
    and wt: "\<And>i m. el_waits (el_pc s t) = Some (i, m) \<Longrightarrow>
      el_waits p = Some (i, m) \<or> op_got s m \<noteq> None"
  shows "el_inv (el_goto t p s)"
proof -
  obtain ns where ns: "nodes_ok s ns (el_priv (el_pc s))" using el_inv_nodes [OF inv] by blast
  have pr: "(el_priv (el_pc s))(t := el_node p) = el_priv (el_pc s)
      \<or> (el_priv (el_pc s))(t := el_node p) = (el_priv (el_pc s))(t := None)"
    using node by (auto simp: el_priv_same)
  then have ns': "nodes_ok s ns ((el_priv (el_pc s))(t := el_node p))"
    using ns nodes_forget [OF ns, of t] by auto
  have pub: "published s ((el_priv (el_pc s))(t := el_node p)) n"
    if "published s (el_priv (el_pc s)) n" for n
    using pr that published_forget [OF that, of t] by auto
  have "el_ops (el_goto t p s)"
    using el_inv_ops [OF inv] wt unfolding el_ops_def by (auto simp del: not_None_eq)
  moreover have "el_pc_ok (el_goto t p s) t p" using ok by (rule el_pc_ok_pcs) (simp add: pub)
  ultimately show ?thesis
    using ns' pub el_inv_log [OF inv]
    by (intro el_inv_update [OF inv, of t _ ns]) (simp_all add: el_kept_refl stack_kept_def)
qed

lemma el_ops_move:
  assumes ops: "el_ops s" and "el_waits (el_pc s t) = None" and "el_pc s' = (el_pc s)(t := p)"
    and "el_slot s' = el_slot s" "op_got s' = op_got s" "op_done s' = op_done s"
      "op_value s' = op_value s" "op_owner s' = op_owner s" "op_fresh s' = op_fresh s" "op_kind s' = op_kind s"
  shows "el_ops s'"
proof -
  have "op_owner s x \<noteq> t" if "el_slot s i = Some x" for i x
    using el_slot_op [OF ops that] assms(2) by auto
  with ops assms(3-) show ?thesis by (simp add: el_ops_def)
qed

text \<open>The stack's own steps, as for the plain lock-free stack.\<close>

lemma el_inv_alloc:
  assumes inv: "el_inv s" and pc: "el_pc s t = ElNew v"
  shows "el_inv (s\<lparr>nd_val := (nd_val s)(nd_fresh s := v), nd_next := (nd_next s)(nd_fresh s := None),
      nd_fresh := Suc (nd_fresh s), el_pc := (el_pc s)(t := ElHead v (nd_fresh s))\<rparr>)" (is "el_inv ?s")
proof -
  obtain ns where ns: "nodes_ok s ns (el_priv (el_pc s))" using el_inv_nodes [OF inv] by blast
  have free: "el_priv (el_pc s) t = None" using pc by (simp add: el_priv_def)
  have ok: "nodes_ok ?s ns (el_priv (el_pc ?s))"
    using nodes_alloc(1) [OF ns free, where v = v and x = None] by simp
  have old1: "n \<noteq> nd_fresh s" if "published s (el_priv (el_pc s)) n" for n
    using that by (auto simp: published_def)
  have old2: "n \<noteq> nd_fresh s" if "el_priv (el_pc s) u = Some n" for n u
    using that nodes_private [OF ns] by blast
  have "stacked ?s = stacked s"
    using nodes_alloc(2) [OF ns free, where v = v] nodes_stacked [OF ok] nodes_stacked [OF ns] by simp
  moreover have "published ?s ((el_priv (el_pc s))(t := Some (nd_fresh s))) n"
    if "published s (el_priv (el_pc s)) n" for n
    using that by (auto simp: published_def)
  moreover have "el_ops ?s"
    by (rule el_ops_move [OF el_inv_ops [OF inv], of t]) (use pc in simp_all)
  ultimately show ?thesis using ok el_inv_log [OF inv]
    by (intro el_inv_update [OF inv, of t _ ns])
      (simp_all add: old1 old2 stack_kept_def ops_kept_def wait_kept_def)
qed

lemma el_inv_set_next:
  assumes inv: "el_inv s" and pc: "el_pc s t = ElNext v n p"
  shows "el_inv (s\<lparr>nd_next := (nd_next s)(n := p), el_pc := (el_pc s)(t := ElPushCas v n p)\<rparr>)"
    (is "el_inv ?s")
proof -
  obtain ns where ns: "nodes_ok s ns (el_priv (el_pc s))" using el_inv_nodes [OF inv] by blast
  have mine: "el_priv (el_pc s) t = Some n" using pc by (simp add: el_priv_def)
  have pr: "(el_priv (el_pc s))(t := Some n) = el_priv (el_pc s)" using pc by (simp add: el_priv_same)
  have ok: "nodes_ok ?s ns (el_priv (el_pc ?s))" using nodes_set_next [OF ns mine] by (simp add: pr)
  have other: "m \<noteq> n" if "u \<noteq> t" "el_priv (el_pc s) u = Some m" for m u
    using that nodes_owner [OF ns mine, of u] by blast
  have pub: "m \<noteq> n" if "published s (el_priv (el_pc s)) m" for m
    using that mine unfolding published_def by blast
  have "published ?s (el_priv (el_pc s)) m" if "published s (el_priv (el_pc s)) m" for m
    using that by (simp add: published_def)
  moreover have "stacked ?s = stacked s" using nodes_stacked [OF ok] nodes_stacked [OF ns] by simp
  moreover have "el_ops ?s"
    by (rule el_ops_move [OF el_inv_ops [OF inv], of t]) (use pc in simp_all)
  ultimately show ?thesis using ok el_inv_log [OF inv] el_inv_pc [OF inv, of t] pc
    by (intro el_inv_update [OF inv, of t _ ns])
      (simp_all add: other pub pr stack_kept_def ops_kept_def wait_kept_def)
qed

lemma el_inv_push:
  assumes inv: "el_inv s" and pc: "el_pc s t = ElPushCas v n (nd_head s)"
  shows "el_inv (s\<lparr>nd_head := Some n, el_pc := (el_pc s)(t := ElPushed v),
      el_log := el_log s @ [(t, Push v, PushRes)]\<rparr>)" (is "el_inv ?s")
proof -
  obtain ns where ns: "nodes_ok s ns (el_priv (el_pc s))" using el_inv_nodes [OF inv] by blast
  have mine: "el_priv (el_pc s) t = Some n" and nx: "nd_next s n = nd_head s" and val: "nd_val s n = v"
    using pc el_inv_pc [OF inv, of t] by (simp_all add: el_priv_def)
  have ok: "nodes_ok ?s (n # ns) (el_priv (el_pc ?s))" using nodes_push(1) [OF ns mine nx] by simp
  have "published ?s ((el_priv (el_pc s))(t := None)) m" if "published s (el_priv (el_pc s)) m" for m
    using that by (auto simp: published_def)
  moreover have "stacked ?s = v # stacked s"
    using nodes_stacked [OF ok] nodes_stacked [OF ns] val by simp
  then have "logged spec_stack [] (map snd (el_log ?s)) (stacked ?s)"
    using el_inv_log [OF inv] by (auto intro: logged_snoc)
  moreover have "el_ops ?s"
    by (rule el_ops_move [OF el_inv_ops [OF inv], of t]) (use pc in simp_all)
  ultimately show ?thesis using ok
    by (intro el_inv_update [OF inv, of t _ "n # ns"])
      (simp_all add: stack_kept_def ops_kept_def wait_kept_def)
qed

lemma el_inv_pop:
  assumes inv: "el_inv s" and pc: "el_pc s t = ElPopCas p v nx" and hd: "nd_head s = Some p"
  shows "el_inv (s\<lparr>nd_head := nx, el_pc := (el_pc s)(t := ElPopped v True),
      el_log := el_log s @ [(t, Pop, PopRes v True)]\<rparr>)" (is "el_inv ?s")
proof -
  obtain ns where ns: "nodes_ok s ns (el_priv (el_pc s))" using el_inv_nodes [OF inv] by blast
  have nx: "nx = nd_next s p" and val: "nd_val s p = v"
    using pc el_inv_pc [OF inv, of t] by simp_all
  obtain ms where ms: "ns = p # ms" "nodes_ok (s\<lparr>nd_head := nd_next s p\<rparr>) ms (el_priv (el_pc s))"
    using nodes_pop [OF ns hd] .
  have pr: "(el_priv (el_pc s))(t := None) = el_priv (el_pc s)" using pc by (simp add: el_priv_same)
  have ok: "nodes_ok ?s ms (el_priv (el_pc ?s))" using ms(2) by (simp add: pr nx)
  have "stacked s = v # stacked ?s"
    using nodes_stacked [OF ok] nodes_stacked [OF ns] ms(1) val by simp
  then have "logged spec_stack [] (map snd (el_log ?s)) (stacked ?s)"
    using el_inv_log [OF inv] by (auto intro!: logged_snoc)
  moreover have "published ?s (el_priv (el_pc s)) m" if "published s (el_priv (el_pc s)) m" for m
    using that by (simp add: published_def)
  moreover have "el_ops ?s"
    by (rule el_ops_move [OF el_inv_ops [OF inv], of t]) (use pc in simp_all)
  ultimately show ?thesis using ok
    by (intro el_inv_update [OF inv, of t _ ms])
      (simp_all add: pr stack_kept_def ops_kept_def wait_kept_def)
qed

lemma el_inv_empty:
  assumes inv: "el_inv s" and pc: "el_pc s t = ElPopAgain" and hd: "nd_head s = None"
  shows "el_inv (s\<lparr>el_pc := (el_pc s)(t := ElPopped 0 False),
      el_log := el_log s @ [(t, Pop, PopRes 0 False)]\<rparr>)" (is "el_inv ?s")
proof -
  obtain ns where ns: "nodes_ok s ns (el_priv (el_pc s))" using el_inv_nodes [OF inv] by blast
  have pr: "(el_priv (el_pc s))(t := None) = el_priv (el_pc s)" using pc by (simp add: el_priv_same)
  have "stacked s = []" using nodes_empty [OF ns hd] by (simp add: nodes_stacked [OF ns])
  then have "logged spec_stack [] (map snd (el_log ?s)) (stacked ?s)"
    using el_inv_log [OF inv] by (auto intro: logged_snoc)
  moreover have "el_ops ?s"
    by (rule el_ops_move [OF el_inv_ops [OF inv], of t]) (use pc in simp_all)
  ultimately show ?thesis using ns
    by (intro el_inv_update [OF inv, of t _ ns])
      (simp_all add: pr stack_kept_def ops_kept_def wait_kept_def)
qed

lemma EB_Push_keeps:
  assumes inv: "el_inv s" and st: "EB_Push_step t s = Some s'"
  shows "el_inv s'"
proof (cases "el_pc s t")
  case (ElNew v)
  with st el_inv_alloc [OF inv ElNew] show ?thesis by (simp add: EB_Push_step_def)
next
  case (ElHead v n)
  with st el_inv_pc [OF inv, of t] el_inv_goto [OF inv, of t "ElNext v n (nd_head s)"] show ?thesis
    by (auto simp: EB_Push_step_def)
next
  case (ElNext v n p)
  with st el_inv_set_next [OF inv ElNext] show ?thesis by (simp add: EB_Push_step_def)
next
  case (ElPushCas v n p)
  with st el_inv_pc [OF inv, of t] el_inv_push [OF inv, of t v n]
    el_inv_goto [OF inv, of t "ElChoose (ByPush v n) eliminationAttempts"]
  show ?thesis by (auto simp: EB_Push_step_def split: if_splits)
qed (use st in \<open>simp_all add: EB_Push_step_def\<close>)

lemma EB_Pop_keeps:
  assumes inv: "el_inv s" and st: "EB_Pop_step t s = Some s'"
  shows "el_inv s'"
proof (cases "el_pc s t")
  case ElPopHead
  obtain ns where ns: "nodes_ok s ns (el_priv (el_pc s))" using el_inv_nodes [OF inv] by blast
  show ?thesis
  proof (cases "nd_head s")
    case None
    with st ElPopHead el_inv_goto [OF inv, of t "ElChoose (ByPop True) eliminationAttempts"]
    show ?thesis by (auto simp: EB_Pop_step_def)
  next
    case (Some p)
    with st ElPopHead nodes_head_published [OF ns Some] el_inv_goto [OF inv, of t "ElRead p"]
    show ?thesis by (auto simp: EB_Pop_step_def)
  qed
next
  case ElPopAgain
  with st el_inv_empty [OF inv ElPopAgain] el_inv_goto [OF inv, of t ElPopHead] show ?thesis
    by (auto simp: EB_Pop_step_def split: if_splits)
next
  case (ElRead p)
  with st el_inv_pc [OF inv, of t]
    el_inv_goto [OF inv, of t "ElPopCas p (nd_val s p) (nd_next s p)"] show ?thesis
    by (auto simp: EB_Pop_step_def)
next
  case (ElPopCas p v nx)
  with st el_inv_pop [OF inv ElPopCas]
    el_inv_goto [OF inv, of t "ElChoose (ByPop False) eliminationAttempts"] show ?thesis
    by (auto simp: EB_Pop_step_def split: if_splits)
qed (use st in \<open>simp_all add: EB_Pop_step_def\<close>)

text \<open>The steps at a slot.\<close>

lemma el_slot_owner:
  assumes "el_ops s" and "el_waits (el_pc s t) = None" and "el_slot s i = Some x"
  shows "op_owner s x \<noteq> t"
  using el_slot_op [OF assms(1,3)] assms(2) by auto

lemma el_inv_choose:
  assumes inv: "el_inv s" and pc: "el_pc s t = ElChoose c k"
  shows "el_inv (s\<lparr>el_ticket := x, el_pc := (el_pc s)(t := ElAlloc c k' i)\<rparr>)" (is "el_inv ?s")
proof -
  obtain ns where ns: "nodes_ok s ns (el_priv (el_pc s))" using el_inv_nodes [OF inv] by blast
  have pr: "(el_priv (el_pc s))(t := caller_node c) = el_priv (el_pc s)" using pc by (simp add: el_priv_same)
  have "caller_ok ?s c" using el_inv_pc [OF inv, of t] pc by (cases c) simp_all
  moreover have "el_ops ?s"
    by (rule el_ops_move [OF el_inv_ops [OF inv], of t]) (use pc in simp_all)
  ultimately show ?thesis using ns el_inv_log [OF inv]
    by (intro el_inv_update [OF inv, of t _ ns])
      (simp_all add: pr stack_kept_def ops_kept_def wait_kept_def)
qed

lemma caller_value_pop: "caller_kind c = eliminationPop \<Longrightarrow> caller_value c = 0"
  by (cases c) simp_all

lemma el_inv_record:
  assumes inv: "el_inv s" and pc: "el_pc s t = ElAlloc c k i"
  shows "el_inv (s\<lparr>op_kind := (op_kind s)(op_fresh s := caller_kind c),
      op_value := (op_value s)(op_fresh s := caller_value c),
      op_done := (op_done s)(op_fresh s := False), op_fresh := Suc (op_fresh s),
      el_pc := (el_pc s)(t := ElLoadOp c k i (op_fresh s)),
      op_owner := (op_owner s)(op_fresh s := t)\<rparr>)" (is "el_inv ?s")
proof -
  obtain ns where ns: "nodes_ok s ns (el_priv (el_pc s))" using el_inv_nodes [OF inv] by blast
  have pr: "(el_priv (el_pc s))(t := caller_node c) = el_priv (el_pc s)" using pc by (simp add: el_priv_same)
  note ops = el_inv_ops [OF inv]
  have fresh: "op_got s (op_fresh s) = None" using el_fresh_got [OF ops] by simp
  have "caller_ok ?s c" using el_inv_pc [OF inv, of t] pc by (cases c) simp_all
  then have new: "el_pc_ok ?s t (ElLoadOp c k i (op_fresh s))"
    using fresh by (simp add: mine_ok_def)
  have below: "x < op_fresh s" if "el_slot s j = Some x" for j x using el_slot_op [OF ops that] by simp
  have "op_owner s x \<noteq> t" if "el_slot s j = Some x" for j x
    using el_slot_owner [OF ops _ that] pc by simp
  then have "el_ops ?s"
    using ops fresh below caller_value_pop [of c] unfolding el_ops_def by (auto simp: less_Suc_eq)
  moreover have "x \<noteq> op_fresh s" if "op_got s x = Some w" for x w using that fresh by auto
  then have "ops_kept s ?s" by (simp add: ops_kept_def)
  ultimately show ?thesis using ns el_inv_log [OF inv] new
    by (intro el_inv_update [OF inv, of t _ ns])
      (simp_all add: pr stack_kept_def wait_kept_def)
qed

lemma el_inv_install:
  assumes inv: "el_inv s" and pc: "el_pc s t = ElInstall c k i m" and free: "el_slot s i = None"
  shows "el_inv (s\<lparr>el_slot := (el_slot s)(i := Some m), el_pc := (el_pc s)(t := ElWait c k i m False j)\<rparr>)"
    (is "el_inv ?s")
proof -
  obtain ns where ns: "nodes_ok s ns (el_priv (el_pc s))" using el_inv_nodes [OF inv] by blast
  have pr: "(el_priv (el_pc s))(t := caller_node c) = el_priv (el_pc s)" using pc by (simp add: el_priv_same)
  note ops = el_inv_ops [OF inv]
  have mine: "caller_ok s c" "mine_ok s t c m" "op_got s m = None"
    using el_inv_pc [OF inv, of t] pc by simp_all
  have kept: "ops_kept s ?s" by (simp add: ops_kept_def)
  have "caller_ok ?s c" using mine(1) by (cases c) simp_all
  then have new: "el_pc_ok ?s t (ElWait c k i m False j)"
    using mine_ok_mono [OF mine(2) kept] mine(3) by (simp add: wait_ok_def)
  have "op_owner s x \<noteq> t" if "el_slot s j = Some x" for j x
    using el_slot_owner [OF ops _ that] pc by simp
  then have "el_ops ?s" using ops mine unfolding el_ops_def mine_ok_def by auto
  then show ?thesis using ns el_inv_log [OF inv] new kept free
    by (intro el_inv_update [OF inv, of t _ ns]) (auto simp: pr stack_kept_def wait_kept_def)
qed

lemma el_inv_withdraw:
  assumes inv: "el_inv s" and pc: "el_pc s t = ElWithdraw c k i m" and slot: "el_slot s i = Some m"
  shows "el_inv (s\<lparr>el_slot := (el_slot s)(i := None), el_pc := (el_pc s)(t := ElChoose c k)\<rparr>)"
    (is "el_inv ?s")
proof -
  obtain ns where ns: "nodes_ok s ns (el_priv (el_pc s))" using el_inv_nodes [OF inv] by blast
  have pr: "(el_priv (el_pc s))(t := caller_node c) = el_priv (el_pc s)" using pc by (simp add: el_priv_same)
  note ops = el_inv_ops [OF inv]
  have mine: "caller_ok s c" "mine_ok s t c m" using el_inv_pc [OF inv, of t] pc by simp_all
  have new: "caller_ok ?s c" using mine(1) by (cases c) simp_all
  have other: "op_owner s x \<noteq> t" if "el_slot s j = Some x" "j \<noteq> i" for j x
    using el_slot_op [OF ops that(1)] that(2) pc by auto
  then have "el_ops ?s" using ops unfolding el_ops_def by auto
  moreover have "wait_kept s ?s u" if "u \<noteq> t" for u
    using mine(2) that slot by (auto simp: wait_kept_def mine_ok_def)
  ultimately show ?thesis using ns el_inv_log [OF inv] new
    by (intro el_inv_update [OF inv, of t _ ns]) (simp_all add: pr stack_kept_def ops_kept_def)
qed

lemma el_inv_value:
  assumes inv: "el_inv s" and pc: "el_pc s t = ElPut v x"
  shows "el_inv (s\<lparr>op_value := (op_value s)(x := v), el_pc := (el_pc s)(t := ElPutDone v x)\<rparr>)"
    (is "el_inv ?s")
proof -
  obtain ns where ns: "nodes_ok s ns (el_priv (el_pc s))" using el_inv_nodes [OF inv] by blast
  have pr: "(el_priv (el_pc s))(t := None) = el_priv (el_pc s)" using pc by (simp add: el_priv_same)
  note ops = el_inv_ops [OF inv]
  have x: "last_entry (el_log s) t (Push v, PushRes)" "op_got s x = Some v" "op_kind s x = eliminationPop"
    using el_inv_pc [OF inv, of t] pc by simp_all
  have "op_owner s y \<noteq> t" if "el_slot s j = Some y" for j y
    using el_slot_owner [OF ops _ that] pc by simp
  then have "el_ops ?s" using ops x unfolding el_ops_def by auto
  then show ?thesis using ns el_inv_log [OF inv] x
    by (intro el_inv_update [OF inv, of t _ ns])
      (auto simp: pr stack_kept_def wait_kept_def ops_kept_def)
qed

lemma el_inv_done:
  assumes inv: "el_inv s"
    and pc: "el_pc s t = ElPutDone v x \<and> q = ElPushed v \<or> el_pc s t = ElGetDone v x \<and> q = ElPopped v True"
  shows "el_inv (s\<lparr>op_done := (op_done s)(x := True), el_pc := (el_pc s)(t := q)\<rparr>)"
    (is "el_inv ?s")
proof -
  obtain ns where ns: "nodes_ok s ns (el_priv (el_pc s))" using el_inv_nodes [OF inv] by blast
  have pr: "(el_priv (el_pc s))(t := None) = el_priv (el_pc s)" using pc by (auto simp: el_priv_same)
  note ops = el_inv_ops [OF inv]
  have x: "op_got s x = Some v" "op_value s x = v"
    using el_inv_pc [OF inv, of t] pc by auto
  have wt: "el_waits (el_pc s t) = None" using pc by auto
  have "op_owner s y \<noteq> t" if "el_slot s j = Some y" for j y
    by (rule el_slot_owner [OF ops wt that])
  then have "el_ops ?s" using ops x unfolding el_ops_def by auto
  moreover have "el_pc_ok ?s t q" using el_inv_pc [OF inv, of t] pc by auto
  moreover have "el_node q = None" using pc by auto
  ultimately show ?thesis using ns el_inv_log [OF inv]
    by (intro el_inv_update [OF inv, of t _ ns])
      (simp_all add: pr stack_kept_def wait_kept_def ops_kept_def)
qed

lemma el_inv_result:
  assumes inv: "el_inv s" and pc: "el_pc s t = ElResult m"
  shows "el_inv (s\<lparr>el_pc := (el_pc s)(t := ElPopped (op_value s m) True),
      el_early := (el_early s)(t := \<not> op_done s m)\<rparr>)" (is "el_inv ?s")
proof -
  obtain ns where ns: "nodes_ok s ns (el_priv (el_pc s))" using el_inv_nodes [OF inv] by blast
  have pr: "(el_priv (el_pc s))(t := None) = el_priv (el_pc s)" using pc by (simp add: el_priv_same)
  obtain w where w: "op_got s m = Some w" "last_entry (el_log s) t (Pop, PopRes w True)"
    using el_inv_pc [OF inv, of t] pc by auto
  have "w = op_value s m" if "op_done s m" using el_done_got [OF el_inv_ops [OF inv] that] w by simp
  moreover have "op_value s m = w \<or> op_value s m = 0" using el_value_got [OF el_inv_ops [OF inv] w(1)] .
  ultimately have new: "el_pc_ok ?s t (ElPopped (op_value s m) True)" using w(2) by auto
  have "el_ops ?s"
    by (rule el_ops_move [OF el_inv_ops [OF inv], of t]) (use pc in simp_all)
  then show ?thesis using ns el_inv_log [OF inv] new
    by (intro el_inv_update [OF inv, of t _ ns])
      (simp_all add: pr stack_kept_def wait_kept_def ops_kept_def)
qed

text \<open>The match. The waiting goroutine's call is decided together with the taker's.\<close>

definition el_take :: "tid \<Rightarrow> nat \<Rightarrow> nat \<Rightarrow> 'a el_pc \<Rightarrow> 'a
    \<Rightarrow> (tid \<times> 'a stack_op \<times> 'a stack_result) list \<Rightarrow> 'a EliminationBackoffMPMC \<Rightarrow> 'a EliminationBackoffMPMC" where
  "el_take t i x q v es s = s\<lparr>el_slot := (el_slot s)(i := None), el_pc := (el_pc s)(t := q),
     el_log := el_log s @ es, op_got := (op_got s)(x := Some v)\<rparr>"

lemma el_take_kept:
  assumes "op_got s x = None"
  shows "ops_kept s (el_take t i x q v es s)"
  using assms by (auto simp: ops_kept_def el_take_def)

lemma el_take_owner:
  assumes inv: "el_inv s" and slot: "el_slot s i = Some x" and q: "el_node q = None"
    and pc: "el_waits (el_pc s t) = None"
    and ent: "\<And>c. mine_ok s (op_owner s x) c x \<Longrightarrow>
      last_entry (el_log s @ es) (op_owner s x) (el_entry c v)"
  shows "el_pc_ok (el_take t i x q v es s) (op_owner s x) (el_pc s (op_owner s x))"
proof -
  let ?s = "el_take t i x q v es s" and ?o = "op_owner s x"
  note sl = el_slot_op [OF el_inv_ops [OF inv] slot]
  have kept: "ops_kept s ?s" using sl by (intro el_take_kept) simp
  obtain c k where p: "(\<exists>j. el_pc s ?o = ElWait c k i x False j) \<or> el_pc s ?o = ElWithdraw c k i x"
    using sl by (cases "el_pc s ?o") (auto split: bool.splits elim: el_waits.elims)
  then have mine: "caller_ok s c" "mine_ok s ?o c x" using el_inv_pc [OF inv, of ?o] by auto
  have "caller_ok ?s c" using mine(1) by (cases c) (simp_all add: el_take_def)
  moreover have "mine_ok ?s ?o c x" by (rule mine_ok_mono [OF mine(2) kept])
  moreover have "wait_ok ?s ?o c i x False"
    using ent [OF mine(2)] by (simp add: wait_ok_def el_take_def)
  ultimately show ?thesis using p by auto
qed

lemma el_inv_take:
  assumes inv: "el_inv s" and slot: "el_slot s i = Some x" and q: "el_node q = None"
    and pc: "el_waits (el_pc s t) = None"
    and ent: "\<And>c. mine_ok s (op_owner s x) c x \<Longrightarrow>
      last_entry (el_log s @ es) (op_owner s x) (el_entry c v)"
    and other: "\<And>u e. u \<noteq> t \<Longrightarrow> u \<noteq> op_owner s x \<Longrightarrow>
      last_entry (el_log s @ es) u e = last_entry (el_log s) u e"
    and new: "el_pc_ok (el_take t i x q v es s) t q"
    and log: "logged spec_stack [] (map snd (el_log s @ es)) (stacked s)"
    and qw: "el_waits q = None" and val: "op_value s x = v \<or> op_value s x = 0"
  shows "el_inv (el_take t i x q v es s)"
proof -
  let ?s = "el_take t i x q v es s" and ?o = "op_owner s x"
  obtain ns where ns: "nodes_ok s ns (el_priv (el_pc s))" using el_inv_nodes [OF inv] by blast
  note ops = el_inv_ops [OF inv]
  note sl = el_slot_op [OF ops slot]
  have kept: "ops_kept s ?s" using sl by (intro el_take_kept) simp
  have ot: "?o \<noteq> t" by (rule el_slot_owner [OF ops pc slot])
  have "el_pc_ok ?s u (el_pc ?s u)" for u
  proof -
    consider "u = t" | "u = ?o" | "u \<noteq> t" "u \<noteq> ?o" by blast
    then show ?thesis
    proof cases
      case 1
      then show ?thesis using new by (simp add: el_take_def)
    next
      case 2
      then show ?thesis using el_take_owner [OF inv slot q pc ent] ot by (simp add: el_take_def)
    next
      case 3
      have "stack_kept s ?s u" using published_forget [of s "el_priv (el_pc s)" _ t] q
        by (simp add: stack_kept_def el_take_def)
      moreover have "wait_kept s ?s u" using 3 sl slot
        by (auto simp: wait_kept_def el_take_def)
      ultimately have "el_pc_ok ?s u (el_pc s u)"
        by (rule el_pc_ok_mono [OF el_inv_pc [OF inv, of u] refl _ kept])
          (use other [OF 3] in \<open>simp_all add: el_take_def\<close>)
      then show ?thesis using 3 by (simp add: el_take_def)
    qed
  qed
  moreover have "el_ops ?s"
  proof -
    have "y \<noteq> x" if "el_slot s j = Some y" "j \<noteq> i" for j y
      using el_slot_op [OF ops that(1)] that(2) sl by auto
    moreover have "op_owner s y \<noteq> t" if "el_slot s j = Some y" for j y
      by (rule el_slot_owner [OF ops pc that])
    ultimately show ?thesis using ops sl val unfolding el_ops_def el_take_def by auto
  qed
  moreover have "nodes_ok ?s ns (el_priv (el_pc ?s))"
    using nodes_forget [OF ns, of t] q by (simp add: el_take_def)
  moreover have "stacked ?s = stacked s" by (simp add: el_take_def)
  ultimately show ?thesis using log unfolding el_inv_def by (auto simp: el_take_def)
qed

lemma el_inv_take_pop:
  assumes inv: "el_inv s" and pc: "el_pc s t = ElTake (ByPush v n) k i m x" and slot: "el_slot s i = Some x"
  shows "el_inv (el_take t i x (ElPut v x) v [(t, Push v, PushRes), (op_owner s x, Pop, PopRes v True)] s)"
proof (rule el_inv_take [OF inv slot])
  have x: "x < op_fresh s" "op_kind s x = eliminationPop"
    using el_inv_pc [OF inv, of t] pc by (cases "op_kind s x"; simp)+
  have ot: "op_owner s x \<noteq> t" using el_slot_owner [OF el_inv_ops [OF inv] _ slot] pc by simp
  show "last_entry (el_log s @ [(t, Push v, PushRes), (op_owner s x, Pop, PopRes v True)])
      (op_owner s x) (el_entry c v)" if "mine_ok s (op_owner s x) c x" for c
    using that x ot by (cases c) (auto simp: mine_ok_def last_entry_def)
  show "last_entry (el_log s @ [(t, Push v, PushRes), (op_owner s x, Pop, PopRes v True)]) u e
      = last_entry (el_log s) u e" if "u \<noteq> t" "u \<noteq> op_owner s x" for u e
    using that by (auto simp: last_entry_def)
  show "el_pc_ok (el_take t i x (ElPut v x) v [(t, Push v, PushRes), (op_owner s x, Pop, PopRes v True)] s)
      t (ElPut v x)"
    using x ot by (auto simp: el_take_def last_entry_def)
  have "logged spec_stack [] (map snd (el_log s) @ [(Push v, PushRes)]) (v # stacked s)"
    using el_inv_log [OF inv] by (auto intro: logged_snoc)
  then have "logged spec_stack [] ((map snd (el_log s) @ [(Push v, PushRes)]) @ [(Pop, PopRes v True)])
      (stacked s)"
    by (rule logged_snoc) simp
  then show "logged spec_stack [] (map snd (el_log s @ [(t, Push v, PushRes),
      (op_owner s x, Pop, PopRes v True)])) (stacked s)" by simp
  show "op_value s x = v \<or> op_value s x = 0"
    using el_value_zero [OF el_inv_ops [OF inv] x(2,1)] el_slot_op [OF el_inv_ops [OF inv] slot] by simp
qed (use pc in simp_all)

lemma el_inv_take_push:
  assumes inv: "el_inv s" and pc: "el_pc s t = ElTake (ByPop b) k i m x" and slot: "el_slot s i = Some x"
    and v: "op_value s x = v"
  shows "el_inv (el_take t i x (ElGet x) v [(op_owner s x, Push v, PushRes), (t, Pop, PopRes v True)] s)"
proof (rule el_inv_take [OF inv slot])
  have x: "x < op_fresh s" "op_kind s x = eliminationPush"
    using el_inv_pc [OF inv, of t] pc by (cases "op_kind s x"; simp)+
  have ot: "op_owner s x \<noteq> t" using el_slot_owner [OF el_inv_ops [OF inv] _ slot] pc by simp
  show "last_entry (el_log s @ [(op_owner s x, Push v, PushRes), (t, Pop, PopRes v True)])
      (op_owner s x) (el_entry c v)" if "mine_ok s (op_owner s x) c x" for c
    using that x ot v by (cases c) (auto simp: mine_ok_def last_entry_def)
  show "last_entry (el_log s @ [(op_owner s x, Push v, PushRes), (t, Pop, PopRes v True)]) u e
      = last_entry (el_log s) u e" if "u \<noteq> t" "u \<noteq> op_owner s x" for u e
    using that by (auto simp: last_entry_def)
  show "el_pc_ok (el_take t i x (ElGet x) v [(op_owner s x, Push v, PushRes), (t, Pop, PopRes v True)] s)
      t (ElGet x)"
    using v ot by (auto simp: el_take_def last_entry_def)
  have "logged spec_stack [] (map snd (el_log s) @ [(Push v, PushRes)]) (v # stacked s)"
    using el_inv_log [OF inv] by (auto intro: logged_snoc)
  then have "logged spec_stack [] ((map snd (el_log s) @ [(Push v, PushRes)]) @ [(Pop, PopRes v True)])
      (stacked s)"
    by (rule logged_snoc) simp
  then show "logged spec_stack [] (map snd (el_log s @ [(op_owner s x, Push v, PushRes),
      (t, Pop, PopRes v True)])) (stacked s)" by simp
qed (use pc v in simp_all)

lemma EB_take_keeps:
  assumes inv: "el_inv s" and ElTake: "el_pc s t = ElTake c k i m x" and st: "EB_visit_step t s = Some s'"
  shows "el_inv s'"
proof (cases "el_slot s i = Some x")
  case True
  then show ?thesis
  proof (cases c)
    case (ByPush v n)
    with st True ElTake el_inv_take_pop [OF inv, of t v n k i m x] show ?thesis
      by (auto simp: EB_visit_step_def el_take_def)
  next
    case (ByPop b)
    with st True ElTake el_inv_take_push [OF inv, of t b k i m x] show ?thesis
      by (auto simp: EB_visit_step_def el_take_def)
  qed
next
  case False
  with st ElTake el_inv_pc [OF inv, of t] el_inv_goto [OF inv, of t "ElLoadOp c k i m"]
  show ?thesis by (auto simp: EB_visit_step_def)
qed

lemma EB_visit_keeps:
  assumes inv: "el_inv s" and st: "EB_visit_step t s = Some s'"
  shows "el_inv s'"
proof (cases "el_pc s t")
  case (ElChoose c k)
  show ?thesis
  proof (cases k)
    case 0
    have "el_pc_ok s t (el_failed c)" "el_node (el_failed c) = caller_node c"
      using el_inv_pc [OF inv, of t] ElChoose by (cases c rule: el_failed.cases; simp)+
    then have "el_inv (el_goto t (el_failed c) s)" using ElChoose by (intro el_inv_goto [OF inv]) auto
    with st ElChoose 0 show ?thesis by (auto simp: EB_visit_step_def)
  next
    case (Suc k')
    with st ElChoose el_inv_choose [OF inv ElChoose] show ?thesis
      by (auto simp: EB_visit_step_def split: prod.splits)
  qed
next
  case (ElAlloc c k i)
  with st el_inv_record [OF inv ElAlloc] show ?thesis by (simp add: EB_visit_step_def)
next
  case (ElLoadOp c k i m)
  with st el_inv_pc [OF inv, of t] el_slot_op [OF el_inv_ops [OF inv], of i]
    el_inv_goto [OF inv, of t "ElInstall c k i m"] el_inv_goto [OF inv, of t "ElChoose c k"]
    el_inv_goto [OF inv, of t "ElTake c k i m x" for x]
  show ?thesis by (auto simp: EB_visit_step_def split: option.splits if_splits)
next
  case (ElInstall c k i m)
  with st el_inv_pc [OF inv, of t] el_inv_install [OF inv ElInstall]
    el_inv_goto [OF inv, of t "ElLoadOp c k i m"]
  show ?thesis by (auto simp: EB_visit_step_def split: if_splits)
next
  case (ElTake c k i m x)
  show ?thesis by (rule EB_take_keeps [OF inv ElTake st])
next
  case (ElPut v x)
  with st el_inv_value [OF inv ElPut] show ?thesis by (simp add: EB_visit_step_def)
next
  case (ElGet x)
  with st el_inv_pc [OF inv, of t] el_inv_goto [OF inv, of t "ElGetDone (op_value s x) x"]
  show ?thesis by (auto simp: EB_visit_step_def)
next
  case (ElPutDone v x)
  with st el_inv_done [OF inv, of t v x] show ?thesis by (auto simp: EB_visit_step_def)
next
  case (ElGetDone v x)
  with st el_inv_done [OF inv, of t v x] show ?thesis by (auto simp: EB_visit_step_def)
qed (use st in \<open>simp_all add: EB_visit_step_def\<close>)

lemma el_inv_matched:
  assumes inv: "el_inv s" and pc: "el_pc s t = ElWait c k i m b j" and got: "op_got s m \<noteq> None"
  shows "el_inv (el_goto t (el_matched c m) s)"
proof (rule el_inv_goto [OF inv])
  obtain w where "op_got s m = Some w" using got by auto
  then have "last_entry (el_log s) t (el_entry c w)" "op_got s m = Some w"
    using el_inv_pc [OF inv, of t] pc by (simp_all add: wait_ok_def)
  then show "el_pc_ok s t (el_matched c m)" by (cases c) auto
  show "el_node (el_matched c m) = el_node (el_pc s t) \<or> el_node (el_matched c m) = None"
    by (cases c) simp_all
  show "el_waits (el_matched c m) = Some (i', m') \<or> op_got s m' \<noteq> None"
    if "el_waits (el_pc s t) = Some (i', m')" for i' m'
    using that got pc by (cases b) auto
qed

lemma EB_wait_keeps:
  assumes inv: "el_inv s" and st: "EB_wait_step t s = Some s'"
  shows "el_inv s'"
proof (cases "el_pc s t")
  case (ElWait c k i m b j)
  have ok: "caller_ok s c" "mine_ok s t c m" "wait_ok s t c i m b"
    using el_inv_pc [OF inv, of t] ElWait by simp_all
  consider "op_done s m" | "\<not> op_done s m" "1 < j" | "\<not> op_done s m" "\<not> 1 < j" "b"
    | "\<not> op_done s m" "\<not> 1 < j" "\<not> b" by blast
  then show ?thesis
  proof cases
    case 1
    then have "op_got s m \<noteq> None" using el_done_got [OF el_inv_ops [OF inv]] by simp
    with st ElWait 1 el_inv_matched [OF inv ElWait] show ?thesis by (auto simp: EB_wait_step_def)
  next
    case 2
    have "el_inv (el_goto t (ElWait c k i m b (j - 1)) s)"
      using ok ElWait by (intro el_inv_goto [OF inv]) (cases b; auto)+
    with st ElWait 2 show ?thesis by (auto simp: EB_wait_step_def)
  next
    case 3
    then have "op_got s m \<noteq> None" using ok(3) by (auto simp: wait_ok_def split: option.splits)
    with st ElWait 3 el_inv_matched [OF inv ElWait] show ?thesis by (auto simp: EB_wait_step_def)
  next
    case 4
    have "el_inv (el_goto t (ElWithdraw c k i m) s)"
      using ok ElWait 4 by (intro el_inv_goto [OF inv]) auto
    with st ElWait 4 show ?thesis by (auto simp: EB_wait_step_def)
  qed
next
  case (ElWithdraw c k i m)
  have ok: "caller_ok s c" "mine_ok s t c m" "wait_ok s t c i m False"
    using el_inv_pc [OF inv, of t] ElWithdraw by simp_all
  show ?thesis
  proof (cases "el_slot s i = Some m")
    case True
    with st ElWithdraw el_inv_withdraw [OF inv ElWithdraw] show ?thesis by (auto simp: EB_wait_step_def)
  next
    case False
    then obtain w where w: "op_got s m = Some w" "last_entry (el_log s) t (el_entry c w)"
      using ok(3) by (auto simp: wait_ok_def split: option.splits)
    have "el_inv (el_goto t (ElWait c k i m True (Suc eliminationWaitSpins)) s)"
      using ok w ElWithdraw by (intro el_inv_goto [OF inv]) (auto simp: wait_ok_def)
    with st ElWithdraw False show ?thesis by (auto simp: EB_wait_step_def)
  qed
next
  case (ElResult m)
  with st el_inv_result [OF inv ElResult] show ?thesis by (simp add: EB_wait_step_def)
qed (use st in \<open>simp_all add: EB_wait_step_def\<close>)

lemma el_inv_early:
  assumes inv: "el_inv s" and pc: "el_pc s t = ElIdle" and q: "q = ElNew v \<or> q = ElPopHead"
  shows "el_inv (s\<lparr>el_pc := (el_pc s)(t := q), el_early := (el_early s)(t := b)\<rparr>)" (is "el_inv ?s")
proof -
  obtain ns where ns: "nodes_ok s ns (el_priv (el_pc s))" using el_inv_nodes [OF inv] by blast
  have pr: "(el_priv (el_pc s))(t := el_node q) = el_priv (el_pc s)" using pc q by (auto simp: el_priv_same)
  have "el_ops ?s"
    by (rule el_ops_move [OF el_inv_ops [OF inv], of t]) (use pc in simp_all)
  moreover have "el_pc_ok ?s t q" using q by auto
  ultimately show ?thesis using ns el_inv_log [OF inv]
    by (intro el_inv_update [OF inv, of t _ ns])
      (simp_all add: pr stack_kept_def wait_kept_def ops_kept_def)
qed

lemma el_inv_step:
  assumes inv: "el_inv s" and st: "EB_step a s = Some s'"
  shows "el_inv s'"
proof (cases a)
  case (ElStep t)
  with st EB_Push_keeps [OF inv] EB_Pop_keeps [OF inv] EB_visit_keeps [OF inv] EB_wait_keeps [OF inv]
  show ?thesis by (auto simp: EB_step_of_def split: option.splits)
next
  case (ElReturn t)
  with st el_inv_goto [OF inv, of t ElIdle] show ?thesis
    by (cases "el_pc s t") (auto split: if_splits)
qed (use st el_inv_early [OF inv] in \<open>auto split: if_splits\<close>)

interpretation elimination: machine "\<lambda>s. s = NewEliminationBackoffMPMC" EB_step el_inv
proof unfold_locales
  show "s = NewEliminationBackoffMPMC \<Longrightarrow> el_inv s" for s :: "'a EliminationBackoffMPMC"
  proof -
    assume s: "s = NewEliminationBackoffMPMC"
    then have "nodes_ok s [] (el_priv (el_pc s))"
      by (simp add: NewEliminationBackoffMPMC_def nodes_ok_def el_priv_def)
    then show "el_inv s" using s unfolding el_inv_def
      by (intro conjI exI) (auto simp: NewEliminationBackoffMPMC_def stacked_def logged_Nil el_ops_def)
  qed
  show "el_inv s \<Longrightarrow> EB_step a s = Some s' \<Longrightarrow> el_inv s'" for s :: "'a EliminationBackoffMPMC" and a s'
    by (rule el_inv_step)
qed



section \<open>A lost value\<close>

text \<open>A goroutine that waits without being served uses up its loads of \<^verbatim>\<open>done\<close>.\<close>

lemma el_spin:
  "el_pc s t = ElWait c k i m b (Suc j) \<Longrightarrow> \<not> op_done s m \<Longrightarrow>
     run EB_step (replicate j (ElStep t)) s = Some (el_goto t (ElWait c k i m b 1) s)"
proof (induction j arbitrary: s)
  case 0
  then show ?case by (simp add: fun_upd_idem)
next
  case (Suc j)
  let ?s = "el_goto t (ElWait c k i m b (Suc j)) s"
  have "EB_step (ElStep t) s = Some ?s"
    using Suc.prems by (simp add: EB_step_of_def EB_Push_step_def EB_Pop_step_def EB_visit_step_def
        EB_wait_step_def)
  moreover have "run EB_step (replicate j (ElStep t)) ?s = Some (el_goto t (ElWait c k i m b 1) ?s)"
    using Suc.prems by (intro Suc.IH) simp_all
  moreover have "el_goto t q ?s = el_goto t q s" for q by simp
  ultimately show ?case by (simp only: replicate_Suc run.simps option.case)
qed

lemma randomSlot_samples:
  "randomSlot 0 = (0x9e3779b97f4a7c15, 47)"
  "snd (randomSlot (0x9e3779b97f4a7c15 * 13)) = 47"
  by (simp_all add: randomSlot_def elimination_mix_def eliminationArraySize_def Let_def)

text \<open>Goroutines that reach the elimination of an empty stack and stop there: each has drawn a
  ticket.\<close>

definition el_drawn :: "tid list \<Rightarrow> 'a::zero el_act list" where
  "el_drawn ts = concat (map (\<lambda>t. [ElPop t, ElStep t, ElStep t]) ts)"

lemma el_drawn_run:
  "nd_head s = None \<Longrightarrow> distinct ts \<Longrightarrow> (\<forall>t \<in> set ts. el_pc s t = ElIdle) \<Longrightarrow>
     \<exists>pcs er. run EB_step (el_drawn ts) s = Some (s\<lparr>el_ticket := el_ticket s + of_nat (length ts) * 0x9e3779b97f4a7c15,
         el_pc := pcs, el_early := er\<rparr>)
       \<and> (\<forall>u. u \<notin> set ts \<longrightarrow> pcs u = el_pc s u \<and> er u = el_early s u)"
proof (induction ts arbitrary: s)
  case Nil
  then show ?case by (intro exI [of _ "el_pc s"] exI [of _ "el_early s"]) (simp add: el_drawn_def)
next
  case (Cons t ts)
  let ?x = "el_ticket s + 0x9e3779b97f4a7c15"
  let ?s = "s\<lparr>el_ticket := ?x,
     el_pc := (el_pc s)(t := ElAlloc (ByPop True) 1 (snd (randomSlot (el_ticket s)))),
     el_early := (el_early s)(t := False)\<rparr>"
  have run: "run EB_step [ElPop t, ElStep t, ElStep t] s = Some ?s"
    using Cons.prems by (simp add: EB_step_of_def EB_Push_step_def EB_Pop_step_def EB_visit_step_def
        eliminationAttempts_def numeral_2_eq_2 randomSlot_def Let_def)
  have "\<exists>pcs er. run EB_step (el_drawn ts) ?s = Some (?s\<lparr>el_ticket := el_ticket ?s
         + of_nat (length ts) * 0x9e3779b97f4a7c15, el_pc := pcs, el_early := er\<rparr>)
       \<and> (\<forall>u. u \<notin> set ts \<longrightarrow> pcs u = el_pc ?s u \<and> er u = el_early ?s u)"
    using Cons.prems by (intro Cons.IH) auto
  then obtain pcs er where ih: "run EB_step (el_drawn ts) ?s = Some (?s\<lparr>el_ticket := ?x
         + of_nat (length ts) * 0x9e3779b97f4a7c15, el_pc := pcs, el_early := er\<rparr>)"
    and keep: "\<forall>u. u \<notin> set ts \<longrightarrow> pcs u = el_pc ?s u \<and> er u = el_early ?s u"
    by auto
  have "(el_drawn (t # ts) :: 'a el_act list) = [ElPop t, ElStep t, ElStep t] @ el_drawn ts" by (simp add: el_drawn_def)
  then have "run EB_step (el_drawn (t # ts)) s = run EB_step (el_drawn ts) ?s"
    by (simp only: run_append run option.case)
  moreover have "\<forall>u. u \<notin> set (t # ts) \<longrightarrow> pcs u = el_pc s u \<and> er u = el_early s u"
    using keep by simp
  ultimately show ?case using ih
    by (intro exI [of _ pcs] exI [of _ er]) (simp add: algebra_simps)
qed

definition el_lost :: "nat el_act list" where
  "el_lost = [ElPop 2, ElStep 2, ElStep 2, ElStep 2, ElStep 2, ElStep 2]
     @ el_drawn [10..<22]
     @ [ElPush 1 7, ElStep 1, ElStep 1, ElStep 1, ElPush 3 9, ElStep 3, ElStep 3, ElStep 3, ElStep 3,
        ElStep 1, ElStep 1, ElStep 1, ElStep 1, ElStep 1]
     @ replicate eliminationWaitSpins (ElStep 2) @ [ElStep 2, ElStep 2]
     @ replicate eliminationWaitSpins (ElStep 2) @ [ElStep 2, ElStep 2, ElStep 1, ElStep 1]"

text \<open>The state when goroutine 1 has taken the waiting record of goroutine 2 and is about to write
  the value into it.\<close>

lemma el_lost_taken:
  "\<exists>s. run EB_step ([ElPop 2, ElStep 2, ElStep 2, ElStep 2, ElStep 2, ElStep 2] @ el_drawn [10..<22]
      @ [ElPush 1 (7::nat), ElStep 1, ElStep 1, ElStep 1, ElPush 3 9, ElStep 3, ElStep 3, ElStep 3,
         ElStep 3, ElStep 1, ElStep 1, ElStep 1, ElStep 1, ElStep 1]) NewEliminationBackoffMPMC = Some s
    \<and> el_pc s 1 = ElPut 7 0 \<and> el_pc s 2 = ElWait (ByPop True) 1 47 0 False (Suc eliminationWaitSpins)
    \<and> \<not> op_done s 0 \<and> el_slot s 47 = None \<and> op_value s 0 = 0 \<and> stacked s = [9]
    \<and> el_log s = [(3, Push 9, PushRes), (1, Push 7, PushRes), (2, Pop, PopRes 7 True)]"
proof -
  let ?a = "[ElPop 2, ElStep 2, ElStep 2, ElStep 2, ElStep 2, ElStep 2] :: nat el_act list"
  obtain a where a: "run EB_step ?a NewEliminationBackoffMPMC = Some a"
    and nd: "nd_head a = None" "nd_fresh a = 0" "el_log a = []" and tk: "el_ticket a = 0x9e3779b97f4a7c15"
    and ops: "el_slot a 47 = Some 0" "op_kind a 0 = eliminationPop" "op_fresh a = 1"
      "op_done a 0 = False" "op_value a 0 = 0" "op_owner a 0 = 2"
    and pc: "el_pc a 2 = ElWait (ByPop True) 1 47 0 False (Suc eliminationWaitSpins)"
    and idle: "\<forall>t. t \<noteq> 2 \<longrightarrow> el_pc a t = ElIdle"
    by (simp add: NewEliminationBackoffMPMC_def EB_step_of_def EB_Push_step_def EB_Pop_step_def
        EB_visit_step_def eliminationAttempts_def Let_def randomSlot_samples)
  obtain pcs er where b: "run EB_step (el_drawn [10..<22]) a = Some (a\<lparr>el_ticket := el_ticket a
       + of_nat (length [10..<22::nat]) * 0x9e3779b97f4a7c15, el_pc := pcs, el_early := er\<rparr>)"
    and keep: "\<forall>u. u \<notin> set [10..<22] \<longrightarrow> pcs u = el_pc a u \<and> er u = el_early a u"
    using el_drawn_run [OF nd(1), of "[10..<22]"] idle by auto
  have pcs: "pcs 1 = ElIdle" "pcs 3 = ElIdle"
    "pcs 2 = ElWait (ByPop True) 1 47 0 False (Suc eliminationWaitSpins)"
    using keep idle pc by simp_all
  have tk': "el_ticket a + of_nat (length [10..<22::nat]) * 0x9e3779b97f4a7c15 = 0x9e3779b97f4a7c15 * 13"
    by (simp add: tk)
  have "\<exists>s. run EB_step [ElPush 1 (7::nat), ElStep 1, ElStep 1, ElStep 1, ElPush 3 9, ElStep 3, ElStep 3,
       ElStep 3, ElStep 3, ElStep 1, ElStep 1, ElStep 1, ElStep 1, ElStep 1]
       (a\<lparr>el_ticket := 0x9e3779b97f4a7c15 * 13, el_pc := pcs, el_early := er\<rparr>) = Some s
    \<and> el_pc s 1 = ElPut 7 0 \<and> el_pc s 2 = ElWait (ByPop True) 1 47 0 False (Suc eliminationWaitSpins)
    \<and> \<not> op_done s 0 \<and> el_slot s 47 = None \<and> op_value s 0 = 0 \<and> stacked s = [9]
    \<and> el_log s = [(3, Push 9, PushRes), (1, Push 7, PushRes), (2, Pop, PopRes 7 True)]"
    using nd ops pcs randomSlot_samples(2)
    by (simp add: EB_step_of_def EB_Push_step_def EB_Pop_step_def EB_visit_step_def
        eliminationAttempts_def Let_def case_prod_beta stacked_def del: One_nat_def)
  with a b show ?thesis by (simp only: run_append option.case tk')
qed

lemma el_wait_end:
  assumes "el_pc s t = ElWait c k i m b (Suc eliminationWaitSpins)" and "\<not> op_done s m"
  shows "run EB_step (replicate eliminationWaitSpins (ElStep t)) s = Some (el_goto t (ElWait c k i m b 1) s)"
  by (rule el_spin [OF assms])

text \<open>C37: The elimination-backoff stack can lose a value. Goroutine 2 pops, waits in slot 47 and is
  matched with goroutine 1, which pushes 7 and is descheduled before it writes the value; both
  waits of goroutine 2 end (2049 loads each), and \<^verbatim>\<open>waitForPopMatch\<close>, which ignores the
  result of its second wait, returns the zero value with \<^verbatim>\<open>true\<close>. Both calls have succeeded,
  0 was never pushed, and 7 is neither returned nor left in the stack.\<close>

theorem elimination_can_lose_value:
  "\<exists>s. run EB_step el_lost NewEliminationBackoffMPMC = Some s
    \<and> el_pc s 1 = ElPushed 7 \<and> el_pc s 2 = ElPopped 0 True \<and> stacked s = [9]
    \<and> el_log s = [(3, Push 9, PushRes), (1, Push 7, PushRes), (2, Pop, PopRes 7 True)]"
proof -
  obtain a where a: "run EB_step ([ElPop 2, ElStep 2, ElStep 2, ElStep 2, ElStep 2, ElStep 2]
      @ el_drawn [10..<22]
      @ [ElPush 1 (7::nat), ElStep 1, ElStep 1, ElStep 1, ElPush 3 9, ElStep 3, ElStep 3, ElStep 3,
         ElStep 3, ElStep 1, ElStep 1, ElStep 1, ElStep 1, ElStep 1]) NewEliminationBackoffMPMC = Some a"
    and a': "el_pc a 1 = ElPut 7 0" "el_pc a 2 = ElWait (ByPop True) 1 47 0 False (Suc eliminationWaitSpins)"
      "\<not> op_done a 0" "el_slot a 47 = None" "op_value a 0 = 0" "stacked a = [9]"
      "el_log a = [(3, Push 9, PushRes), (1, Push 7, PushRes), (2, Pop, PopRes 7 True)]"
    using el_lost_taken by blast
  have w1: "run EB_step (replicate eliminationWaitSpins (ElStep 2)) a
      = Some (el_goto 2 (ElWait (ByPop True) 1 47 0 False 1) a)"
    using a' by (intro el_wait_end)
  let ?b = "el_goto 2 (ElWait (ByPop True) 1 47 0 True (Suc eliminationWaitSpins)) a"
  have w2: "run EB_step [ElStep 2, ElStep 2] (el_goto 2 (ElWait (ByPop True) 1 47 0 False 1) a) = Some ?b"
    using a' by (simp add: EB_step_of_def EB_Push_step_def EB_Pop_step_def EB_visit_step_def
        EB_wait_step_def)
  have w3: "run EB_step (replicate eliminationWaitSpins (ElStep 2)) ?b
      = Some (el_goto 2 (ElWait (ByPop True) 1 47 0 True 1) ?b)"
    using a' by (intro el_wait_end) simp_all
  have "\<exists>s. run EB_step [ElStep 2, ElStep 2, ElStep 1, ElStep 1]
      (el_goto 2 (ElWait (ByPop True) 1 47 0 True 1) ?b) = Some s
    \<and> el_pc s 1 = ElPushed 7 \<and> el_pc s 2 = ElPopped 0 True \<and> stacked s = [9]
    \<and> el_log s = [(3, Push 9, PushRes), (1, Push 7, PushRes), (2, Pop, PopRes 7 True)]"
    using a' by (simp add: EB_step_of_def EB_Push_step_def EB_Pop_step_def EB_visit_step_def
        EB_wait_step_def del: One_nat_def)
  with a w1 w2 w3 show ?thesis
    by (simp only: el_lost_def append_assoc [symmetric] run_append option.case)
qed

end
