(* ===== verification/Channel.thy ===== *)
theory Channel
  imports Prelude
begin

text \<open>
  \<^verbatim>\<open>syncx/channel.go\<close>: the growing ring \<^verbatim>\<open>RingQueue\<close> and the two channel adapters built
  by a goroutine between an input and an output channel. The ring's integer fields are
  non-negative and below the array's length, so they are naturals; the adapters are step
  relations whose labels are the channel communications.
\<close>

section \<open>RingQueue\<close>

definition DefaultBuffSize :: nat where
  "DefaultBuffSize = 1024"

record 'a RingQueue =
  rq_arr :: "'a list"
  rq_head :: nat
  rq_tail :: nat
  rq_size :: nat
  rq_mask :: nat

definition NewRingQueue :: "'a::zero RingQueue" where
  "NewRingQueue = \<lparr>rq_arr = replicate DefaultBuffSize 0, rq_head = 0, rq_tail = 0, rq_size = 0,
     rq_mask = DefaultBuffSize - 1\<rparr>"

definition Ring_Len :: "'a RingQueue \<Rightarrow> nat" where
  "Ring_Len q = rq_size q"

text \<open>Go's \<^verbatim>\<open>copy(dst, src)\<close>: the destination afterwards, and the number of elements copied.\<close>

definition go_copy :: "'a list \<Rightarrow> 'a list \<Rightarrow> 'a list \<times> nat" where
  "go_copy dst src =
     (let n = min (length dst) (length src) in (take n src @ drop n dst, n))"

definition Ring_grow :: "'a::zero RingQueue \<Rightarrow> 'a RingQueue" where
  "Ring_grow q =
     (let newCap = length (rq_arr q) * 2;
          newData = replicate newCap 0;
          (newData1, n) = go_copy newData (drop (rq_head q) (rq_arr q));
          newData2 = take n newData1 @ fst (go_copy (drop n newData1) (take (rq_tail q) (rq_arr q)))
      in q\<lparr>rq_arr := newData2, rq_head := 0, rq_tail := rq_size q, rq_mask := newCap - 1\<rparr>)"

definition Ring_Push :: "'a::zero \<Rightarrow> 'a RingQueue \<Rightarrow> 'a RingQueue" where
  "Ring_Push v q0 =
     (let q = (if rq_size q0 = length (rq_arr q0) then Ring_grow q0 else q0)
      in q\<lparr>rq_arr := (rq_arr q)[rq_tail q := v],
           rq_tail := (rq_tail q + 1) AND rq_mask q, rq_size := rq_size q + 1\<rparr>)"

definition Ring_Peek :: "'a::zero RingQueue \<Rightarrow> 'a \<times> bool" where
  "Ring_Peek q = (if rq_size q = 0 then (0, False) else (rq_arr q ! rq_head q, True))"

definition Ring_Pop :: "'a::zero RingQueue \<Rightarrow> 'a RingQueue \<times> ('a \<times> bool)" where
  "Ring_Pop q =
     (if rq_size q = 0 then (q, (0, False))
      else
        let v = rq_arr q ! rq_head q
        in (q\<lparr>rq_arr := (rq_arr q)[rq_head q := 0],
              rq_head := (rq_head q + 1) AND rq_mask q, rq_size := rq_size q - 1\<rparr>, (v, True)))"

text \<open>The capacity is a power of two, which the mask relies on.\<close>

definition rq_inv :: "'a RingQueue \<Rightarrow> bool" where
  "rq_inv q \<longleftrightarrow> (\<exists>k. length (rq_arr q) = 2 ^ k) \<and> rq_mask q = length (rq_arr q) - 1
     \<and> rq_head q < length (rq_arr q) \<and> rq_size q \<le> length (rq_arr q)
     \<and> rq_tail q = (rq_head q + rq_size q) mod length (rq_arr q)"

definition rq_abs :: "'a RingQueue \<Rightarrow> 'a list" where
  "rq_abs q = map (\<lambda>i. rq_arr q ! ((rq_head q + i) mod length (rq_arr q))) [0..<rq_size q]"

lemma and_pow2: "(n::nat) AND (2 ^ k - 1) = n mod 2 ^ k"
  by (simp add: take_bit_eq_mod [symmetric] take_bit_eq_mask mask_eq_exp_minus_1)

lemma rq_mask_mod: "rq_inv q \<Longrightarrow> n AND rq_mask q = n mod length (rq_arr q)"
  by (auto simp: rq_inv_def and_pow2 simp del: One_nat_def)

lemma rq_new: "rq_inv NewRingQueue" "rq_abs NewRingQueue = []"
proof -
  have "\<exists>k. DefaultBuffSize = 2 ^ k" by (intro exI [of _ 10]) (simp add: DefaultBuffSize_def)
  moreover have "0 < DefaultBuffSize" by (simp add: DefaultBuffSize_def)
  ultimately show "rq_inv NewRingQueue" by (simp add: rq_inv_def NewRingQueue_def)
  show "rq_abs NewRingQueue = []" by (simp add: rq_abs_def NewRingQueue_def)
qed

lemma go_copy_fits:
  "length src \<le> length dst \<Longrightarrow> go_copy dst src = (src @ drop (length src) dst, length src)"
  by (simp add: go_copy_def Let_def min_def)

lemma rq_grow_eq:
  assumes inv: "rq_inv q" and full: "rq_size q = length (rq_arr q)"
  shows "Ring_grow q = q\<lparr>rq_arr := drop (rq_head q) (rq_arr q) @ take (rq_head q) (rq_arr q)
      @ replicate (length (rq_arr q)) 0, rq_head := 0, rq_tail := rq_size q,
      rq_mask := length (rq_arr q) * 2 - 1\<rparr>"
proof -
  have h: "rq_head q < length (rq_arr q)" and t: "rq_tail q = rq_head q"
    using inv full by (simp_all add: rq_inv_def)
  then show ?thesis by (simp add: Ring_grow_def go_copy_fits Let_def t)
qed

lemma rq_full_abs:
  assumes h: "rq_head q < length (rq_arr q)" and full: "rq_size q = length (rq_arr q)"
  shows "rq_abs q = drop (rq_head q) (rq_arr q) @ take (rq_head q) (rq_arr q)"
proof (rule nth_equalityI)
  fix i assume "i < length (rq_abs q)"
  then have i: "i < length (rq_arr q)" by (simp add: rq_abs_def full)
  show "rq_abs q ! i = (drop (rq_head q) (rq_arr q) @ take (rq_head q) (rq_arr q)) ! i"
  proof (cases "rq_head q + i < length (rq_arr q)")
    case True
    then have "i < length (rq_arr q) - rq_head q" by linarith
    then show ?thesis using i True by (simp add: rq_abs_def full nth_append)
  next
    case False
    then have "(rq_head q + i) mod length (rq_arr q) = rq_head q + i - length (rq_arr q)"
      using h i by (simp add: mod_if)
    moreover have "\<not> i < length (rq_arr q) - rq_head q" using False by linarith
    ultimately show ?thesis using i h by (simp add: rq_abs_def full nth_append add.commute)
  qed
qed (use assms in \<open>simp add: rq_abs_def\<close>)

lemma rq_grow:
  assumes inv: "rq_inv q" and full: "rq_size q = length (rq_arr q)"
  shows "rq_inv (Ring_grow q)" and "rq_abs (Ring_grow q) = rq_abs q"
    and "rq_size (Ring_grow q) < length (rq_arr (Ring_grow q))"
proof -
  have h: "rq_head q < length (rq_arr q)" using inv by (simp add: rq_inv_def)
  obtain k where k: "length (rq_arr q) = 2 ^ k" using inv by (auto simp: rq_inv_def)
  have len: "length (rq_arr (Ring_grow q)) = 2 ^ Suc k"
    using h k by (simp add: rq_grow_eq [OF inv full])
  show "rq_size (Ring_grow q) < length (rq_arr (Ring_grow q))"
    using full k len by (simp add: rq_grow_eq [OF inv full])
  have "\<exists>j. length (rq_arr (Ring_grow q)) = 2 ^ j" using len by blast
  then show "rq_inv (Ring_grow q)"
    using h k full len unfolding rq_inv_def by (simp add: rq_grow_eq [OF inv full])
  show "rq_abs (Ring_grow q) = rq_abs q"
  proof (rule nth_equalityI)
    show "length (rq_abs (Ring_grow q)) = length (rq_abs q)"
      by (simp add: rq_abs_def rq_grow_eq [OF inv full])
    fix i assume "i < length (rq_abs (Ring_grow q))"
    then have i: "i < length (rq_arr q)" by (simp add: rq_abs_def rq_grow_eq [OF inv full] full)
    then have "\<not> i < length (rq_arr q) - rq_head q \<Longrightarrow> i + rq_head q - length (rq_arr q) < rq_head q"
      using h by linarith
    then show "rq_abs (Ring_grow q) ! i = rq_abs q ! i"
      using h full i unfolding rq_full_abs [OF h full]
      by (simp add: rq_abs_def rq_grow_eq [OF inv full] nth_append)
  qed
qed

lemma rq_Push_room:
  assumes inv: "rq_inv q" and room: "rq_size q < length (rq_arr q)"
  shows "rq_inv (Ring_Push v q) \<and> rq_abs (Ring_Push v q) = rq_abs q @ [v]"
proof -
  let ?n = "length (rq_arr q)"
  have e: "Ring_Push v q = q\<lparr>rq_arr := (rq_arr q)[rq_tail q := v],
      rq_tail := (rq_tail q + 1) mod ?n, rq_size := rq_size q + 1\<rparr>"
    using room by (simp add: Ring_Push_def Let_def rq_mask_mod [OF inv])
  have h: "rq_head q < ?n" and t: "rq_tail q = (rq_head q + rq_size q) mod ?n"
    using inv by (simp_all add: rq_inv_def)
  have "Suc (rq_tail q) mod ?n = (rq_head q + Suc (rq_size q)) mod ?n"
    by (simp add: t mod_Suc_eq)
  then have i: "rq_inv (Ring_Push v q)" using inv room unfolding rq_inv_def e by simp
  have ne: "(rq_head q + i) mod ?n \<noteq> rq_tail q" if "i < rq_size q" for i
  proof
    assume "(rq_head q + i) mod ?n = rq_tail q"
    then have "?n dvd (rq_head q + rq_size q) - (rq_head q + i)"
      using that t by (metis mod_eq_dvd_iff_nat nat_add_left_cancel_le less_imp_le)
    then show False using that room by (simp add: nat_dvd_not_less)
  qed
  have "rq_tail q < ?n" unfolding t using h by (intro mod_less_divisor) linarith
  then have "rq_abs (Ring_Push v q) = rq_abs q @ [v]"
    using ne [THEN not_sym] t by (auto simp: rq_abs_def e)
  with i show ?thesis by blast
qed

lemma rq_Push:
  assumes inv: "rq_inv q"
  shows "rq_inv (Ring_Push v q) \<and> rq_abs (Ring_Push v q) = rq_abs q @ [v]"
proof (cases "rq_size q = length (rq_arr q)")
  case True
  have "Ring_Push v q = Ring_Push v (Ring_grow q)"
    using True rq_grow(3) [OF inv True] by (simp add: Ring_Push_def)
  then show ?thesis
    using rq_Push_room [OF rq_grow(1) [OF inv True] rq_grow(3) [OF inv True], of v]
    by (simp add: rq_grow(2) [OF inv True])
next
  case False
  then show ?thesis using rq_Push_room [OF inv] inv by (simp add: rq_inv_def)
qed

lemma rq_Pop:
  assumes inv: "rq_inv q" and ne: "rq_size q \<noteq> 0"
  shows "\<exists>q' x. Ring_Pop q = (q', (x, True)) \<and> rq_inv q' \<and> rq_abs q = x # rq_abs q'"
proof -
  let ?n = "length (rq_arr q)"
  let ?q = "q\<lparr>rq_arr := (rq_arr q)[rq_head q := 0],
      rq_head := (rq_head q + 1) mod ?n, rq_size := rq_size q - 1\<rparr>"
  have e: "Ring_Pop q = (?q, (rq_arr q ! rq_head q, True))"
    using ne by (simp add: Ring_Pop_def Let_def rq_mask_mod [OF inv])
  have h: "rq_head q < ?n" and t: "rq_tail q = (rq_head q + rq_size q) mod ?n"
    and le: "rq_size q \<le> ?n"
    using inv by (simp_all add: rq_inv_def)
  obtain m where m: "rq_size q = Suc m" using ne by (cases "rq_size q") auto
  have step: "(Suc (rq_head q) mod ?n + i) mod ?n = (rq_head q + Suc i) mod ?n" for i
    by (simp add: mod_add_left_eq)
  have "rq_inv ?q" using inv h m t step [of m] unfolding rq_inv_def by auto
  moreover have "rq_head q \<noteq> (rq_head q + Suc i) mod ?n" if "i < m" for i
  proof
    assume "rq_head q = (rq_head q + Suc i) mod ?n"
    then have "(rq_head q + Suc i) mod ?n = rq_head q mod ?n" using h by simp
    then have "?n dvd (rq_head q + Suc i) - rq_head q" by (metis mod_eq_dvd_iff_nat le_add1)
    then show False using that le m by (simp add: nat_dvd_not_less)
  qed
  then have "map (\<lambda>i. rq_arr q ! ((rq_head q + Suc i) mod ?n)) [0..<m] = rq_abs ?q"
    by (simp add: rq_abs_def m step [unfolded One_nat_def add_Suc_right])
  then have "rq_abs q = rq_arr q ! rq_head q # rq_abs ?q"
    using h unfolding rq_abs_def m map_upt_Suc by simp
  ultimately show ?thesis using e by blast
qed

lemma rq_Pop_empty: "rq_size q = 0 \<Longrightarrow> Ring_Pop q = (q, (0, False))"
  by (simp add: Ring_Pop_def)

lemma rq_Peek:
  "rq_inv q \<Longrightarrow> Ring_Peek q = (case rq_abs q of [] \<Rightarrow> (0, False) | x # xs \<Rightarrow> (x, True))"
  by (auto simp: Ring_Peek_def rq_abs_def rq_inv_def upt_rec [of 0] split: list.splits)

text \<open>The \<^verbatim>\<open>Queue\<close> interface of this file: its operations, and the abstract queue, a list
  without bound.\<close>

datatype 'a ring_op = RPush 'a | RPop | RPeek | RLen

datatype 'a ring_result = RUnit | RVal 'a bool | RNat nat

fun ring_impl :: "'a::zero ring_op \<Rightarrow> 'a RingQueue \<Rightarrow> 'a RingQueue \<times> 'a ring_result" where
  "ring_impl (RPush v) q = (Ring_Push v q, RUnit)"
| "ring_impl RPop q = (case Ring_Pop q of (q', x, b) \<Rightarrow> (q', RVal x b))"
| "ring_impl RPeek q = (case Ring_Peek q of (x, b) \<Rightarrow> (q, RVal x b))"
| "ring_impl RLen q = (q, RNat (Ring_Len q))"

fun spec_ring :: "'a::zero ring_op \<Rightarrow> 'a list \<Rightarrow> 'a list \<times> 'a ring_result" where
  "spec_ring (RPush v) xs = (xs @ [v], RUnit)"
| "spec_ring RPop xs = (case xs of [] \<Rightarrow> ([], RVal 0 False) | x # xs' \<Rightarrow> (xs', RVal x True))"
| "spec_ring RPeek xs = (xs, case xs of [] \<Rightarrow> RVal 0 False | x # _ \<Rightarrow> RVal x True)"
| "spec_ring RLen xs = (xs, RNat (length xs))"

lemma ring_step_refines:
  assumes inv: "rq_inv q"
  shows "rq_inv (fst (ring_impl a q)) \<and>
    spec_ring a (rq_abs q) = (rq_abs (fst (ring_impl a q)), snd (ring_impl a q))"
proof (cases a)
  case (RPush v)
  then show ?thesis using rq_Push [OF inv] by simp
next
  case RPop
  show ?thesis
  proof (cases "rq_size q = 0")
    case True
    then show ?thesis using RPop inv by (simp add: rq_Pop_empty rq_abs_def)
  next
    case False
    then show ?thesis using RPop rq_Pop [OF inv] by fastforce
  qed
next
  case RPeek
  then show ?thesis using inv rq_Peek [OF inv] by (auto split: list.splits)
next
  case RLen
  then show ?thesis using inv by (simp add: Ring_Len_def rq_abs_def)
qed

lemma ring_run_refines:
  "rq_inv q \<Longrightarrow> exec_ops ring_impl as q = (q', rs) \<Longrightarrow>
     rq_inv q' \<and> exec_ops spec_ring as (rq_abs q) = (rq_abs q', rs)"
proof (induction as arbitrary: q q' rs)
  case (Cons a as)
  obtain q1 r where f: "ring_impl a q = (q1, r)" by force
  obtain q2 rs' where e: "exec_ops ring_impl as q1 = (q2, rs')" by force
  from ring_step_refines [OF Cons.prems(1), of a] f have i: "rq_inv q1"
    and sp: "spec_ring a (rq_abs q) = (rq_abs q1, r)" by simp_all
  from Cons.IH [OF i e] Cons.prems(2) f e sp show ?case by auto
qed simp

text \<open>The ring refines the unbounded queue: for every sequence of pushes, pops, peeks and
  length queries on a new ring, through any number of growths and with its content wrapped around
  the end of the array or not, every result is the abstract queue's; the capacity stays a power
  of two, which the index mask relies on, and the cursors stay within the array.\<close>

theorem ring_refines_queue:
  "case exec_ops ring_impl as NewRingQueue of (q, rs) \<Rightarrow>
     exec_ops spec_ring as [] = (rq_abs q, rs)
     \<and> (\<exists>k. length (rq_arr q) = 2 ^ k) \<and> rq_mask q = length (rq_arr q) - 1
     \<and> rq_head q < length (rq_arr q) \<and> rq_tail q < length (rq_arr q)
     \<and> rq_size q \<le> length (rq_arr q)"
proof -
  obtain q rs where e: "exec_ops ring_impl as NewRingQueue = (q, rs)" by force
  have i: "rq_inv q" and r: "exec_ops spec_ring as [] = (rq_abs q, rs)"
    using ring_run_refines [OF rq_new(1) e, unfolded rq_new(2)] by blast+
  have "rq_tail q < length (rq_arr q)"
    using i unfolding rq_inv_def by (metis less_nat_zero_code mod_less_divisor neq0_conv)
  with i r show ?thesis by (simp add: e rq_inv_def)
qed

section \<open>The channel adapters\<close>

text \<open>What the goroutine of an adapter does with its two channels: receive a value or the end of
  the input, hand a value to the consumer of the output, or close the output.\<close>

datatype 'a chan_label = Recv 'a | RecvClosed | Emit 'a | CloseOut | Tau

fun received :: "'a chan_label list \<Rightarrow> 'a list" where
  "received [] = []"
| "received (Recv v # ls) = v # received ls"
| "received (_ # ls) = received ls"

fun emitted :: "'a chan_label list \<Rightarrow> 'a list" where
  "emitted [] = []"
| "emitted (Emit v # ls) = v # emitted ls"
| "emitted (_ # ls) = emitted ls"

lemma received_append [simp]: "received (ls @ ms) = received ls @ received ms"
  by (induction ls rule: received.induct) auto

lemma emitted_append [simp]: "emitted (ls @ ms) = emitted ls @ emitted ms"
  by (induction ls rule: emitted.induct) auto

inductive trace :: "('s \<Rightarrow> 'l \<Rightarrow> 's \<Rightarrow> bool) \<Rightarrow> 's \<Rightarrow> 'l list \<Rightarrow> 's \<Rightarrow> bool"
  for step :: "'s \<Rightarrow> 'l \<Rightarrow> 's \<Rightarrow> bool" where
  trace_Nil: "trace step s [] s"
| trace_snoc: "trace step s ls s1 \<Longrightarrow> step s1 l s2 \<Longrightarrow> trace step s (ls @ [l]) s2"

lemma trace_append:
  "trace step s1 ms s2 \<Longrightarrow> trace step s ls s1 \<Longrightarrow> trace step s (ls @ ms) s2"
  by (induction rule: trace.induct) (auto simp: append_assoc [symmetric] intro: trace.intros
      simp del: append_assoc)

text \<open>An adapter forwards what it received, as far as its goroutine has not handed it over: the
  pending values, in an order that \<open>norm\<close> keeps or forgets.\<close>

locale adapter =
  fixes init :: 's and step :: "'s \<Rightarrow> 'a chan_label \<Rightarrow> 's \<Rightarrow> bool"
    and inv :: "'s \<Rightarrow> bool" and pending :: "'s \<Rightarrow> 'a list" and norm :: "'a list \<Rightarrow> 'n"
  assumes init: "inv init" "pending init = []"
    and inv_step: "inv s \<Longrightarrow> step s l s' \<Longrightarrow> inv s'"
    and forward: "inv s \<Longrightarrow> step s l s' \<Longrightarrow> norm xs = norm (ys @ pending s) \<Longrightarrow>
      norm (xs @ received [l]) = norm ((ys @ emitted [l]) @ pending s')"
    and closing: "inv s \<Longrightarrow> step s CloseOut s' \<Longrightarrow> pending s' = []"
begin

lemma forwards_from:
  "trace step s0 ls s \<Longrightarrow> inv s0 \<Longrightarrow> pending s0 = [] \<Longrightarrow>
     inv s \<and> norm (received ls) = norm (emitted ls @ pending s)"
proof (induction rule: trace.induct)
  case (trace_snoc s ls s1 l s2)
  then have "inv s2" using inv_step by blast
  with trace_snoc show ?case using forward [of s1 l s2 "received ls" "emitted ls"] by simp
qed simp

lemma forwards:
  "trace step init ls s \<Longrightarrow> inv s \<and> norm (received ls) = norm (emitted ls @ pending s)"
  using forwards_from init by blast

lemma complete:
  assumes "trace step init ls s" and "step s CloseOut s'"
  shows "norm (received ls) = norm (emitted ls)"
  using forwards [OF assms(1)] forwards [OF trace_snoc [OF assms]] closing [OF _ assms(2)] by simp

end

subsection \<open>OrderedChannel\<close>

datatype 'a oc_pc =
    OcLoop                \<comment> \<open>top of the outer loop: \<open>buff.Peek()\<close>\<close>
  | OcSelect "'a option"  \<comment> \<open>the select, \<open>sendCh\<close> being nil or offering the value\<close>
  | OcDrain               \<comment> \<open>\<open>buff.Pop()\<close> of the second loop\<close>
  | OcSend 'a             \<comment> \<open>\<open>out <- v\<close>\<close>
  | OcClosed

record 'a OrderedChannel =
  oc_buff :: "'a RingQueue"
  oc_pc :: "'a oc_pc"

definition oc_new :: "'a::zero OrderedChannel" where
  "oc_new = \<lparr>oc_buff = NewRingQueue, oc_pc = OcLoop\<rparr>"

inductive oc_step :: "'a::zero OrderedChannel \<Rightarrow> 'a chan_label \<Rightarrow> 'a OrderedChannel \<Rightarrow> bool" where
  oc_peek: "oc_pc s = OcLoop \<Longrightarrow>
    oc_step s Tau (s\<lparr>oc_pc := OcSelect (case Ring_Peek (oc_buff s) of (f, ok) \<Rightarrow>
      if ok then Some f else None)\<rparr>)"
| oc_recv: "oc_pc s = OcSelect x \<Longrightarrow>
    oc_step s (Recv v) (s\<lparr>oc_buff := Ring_Push v (oc_buff s), oc_pc := OcLoop\<rparr>)"
| oc_recv_closed: "oc_pc s = OcSelect x \<Longrightarrow> oc_step s RecvClosed (s\<lparr>oc_pc := OcDrain\<rparr>)"
| oc_emit: "oc_pc s = OcSelect (Some first) \<Longrightarrow>
    oc_step s (Emit first) (s\<lparr>oc_buff := fst (Ring_Pop (oc_buff s)), oc_pc := OcLoop\<rparr>)"
| oc_pop: "oc_pc s = OcDrain \<Longrightarrow> Ring_Pop (oc_buff s) = (q, (v, True)) \<Longrightarrow>
    oc_step s Tau (s\<lparr>oc_buff := q, oc_pc := OcSend v\<rparr>)"
| oc_send: "oc_pc s = OcSend v \<Longrightarrow> oc_step s (Emit v) (s\<lparr>oc_pc := OcDrain\<rparr>)"
| oc_end: "oc_pc s = OcDrain \<Longrightarrow> Ring_Pop (oc_buff s) = (q, (v, False)) \<Longrightarrow>
    oc_step s CloseOut (s\<lparr>oc_pc := OcClosed\<rparr>)"

inductive_cases oc_stepE: "oc_step s l s'"
inductive_cases oc_closeE: "oc_step s CloseOut s'"

definition oc_pending :: "'a OrderedChannel \<Rightarrow> 'a list" where
  "oc_pending s = (case oc_pc s of OcSend v \<Rightarrow> v # rq_abs (oc_buff s) | _ \<Rightarrow> rq_abs (oc_buff s))"

definition oc_inv :: "'a::zero OrderedChannel \<Rightarrow> bool" where
  "oc_inv s \<longleftrightarrow> rq_inv (oc_buff s)
     \<and> (\<forall>f. oc_pc s = OcSelect (Some f) \<longrightarrow> (\<exists>xs. rq_abs (oc_buff s) = f # xs))"

lemma rq_Pop_abs:
  assumes "rq_inv q"
  shows "rq_inv (fst (Ring_Pop q)) \<and> (case rq_abs q of
      [] \<Rightarrow> Ring_Pop q = (q, (0, False))
    | x # xs \<Rightarrow> snd (Ring_Pop q) = (x, True) \<and> rq_abs (fst (Ring_Pop q)) = xs)"
proof (cases "rq_size q = 0")
  case True
  then show ?thesis using assms by (simp add: rq_Pop_empty rq_abs_def)
next
  case False
  then show ?thesis using rq_Pop [OF assms] by fastforce
qed

interpretation ordered: adapter oc_new oc_step oc_inv oc_pending "\<lambda>xs. xs"
proof unfold_locales
  show "oc_inv oc_new" "oc_pending oc_new = []"
    by (simp_all add: oc_inv_def oc_pending_def oc_new_def rq_new)
  show "oc_inv s'" if "oc_inv s" "oc_step s l s'" for s s' :: "'a OrderedChannel" and l
    using that(2,1) rq_Peek [of "oc_buff s"] rq_Push [of "oc_buff s"] rq_Pop_abs [of "oc_buff s"]
    by (cases rule: oc_step.cases) (auto simp: oc_inv_def split: list.splits if_splits)
  show "xs @ received [l] = (ys @ emitted [l]) @ oc_pending s'"
    if "oc_inv s" "oc_step s l s'" "xs = ys @ oc_pending s" for s s' :: "'a OrderedChannel" and l xs ys
    using that(2,1,3) rq_Push [of "oc_buff s"] rq_Pop_abs [of "oc_buff s"]
    by (cases rule: oc_step.cases) (auto simp: oc_inv_def oc_pending_def split: list.splits)
  show "oc_pending s' = []" if "oc_inv s" "oc_step s CloseOut s'" for s s' :: "'a OrderedChannel"
    using that(2,1) rq_Pop_abs [of "oc_buff s"]
    by (cases rule: oc_closeE) (auto simp: oc_inv_def oc_pending_def split: list.splits)
qed

text \<open>The drain loop ends, and emits everything that is left.\<close>

lemma oc_drains:
  assumes "rq_inv (oc_buff s)" and "oc_pc s = OcDrain"
  shows "\<exists>ls s1 s2. trace oc_step s ls s1 \<and> emitted ls = rq_abs (oc_buff s)
    \<and> oc_step s1 CloseOut s2 \<and> oc_pc s2 = OcClosed"
  using assms
proof (induction "rq_abs (oc_buff s)" arbitrary: s)
  case Nil
  then have "Ring_Pop (oc_buff s) = (oc_buff s, (0, False))" using rq_Pop_abs [of "oc_buff s"] by simp
  then have "oc_step s CloseOut (s\<lparr>oc_pc := OcClosed\<rparr>)" using Nil.prems by (intro oc_end)
  moreover have "trace oc_step s [] s" by (rule trace_Nil)
  ultimately show ?case using Nil(1) by force
next
  case (Cons x xs)
  let ?q = "fst (Ring_Pop (oc_buff s))"
  have pop: "Ring_Pop (oc_buff s) = (?q, (x, True))" "rq_abs ?q = xs" "rq_inv ?q"
    using rq_Pop_abs [OF Cons.prems(1)] Cons(2) by (auto split: list.splits simp: prod_eq_iff)
  let ?s1 = "s\<lparr>oc_buff := ?q, oc_pc := OcSend x\<rparr>" and ?s2 = "s\<lparr>oc_buff := ?q, oc_pc := OcDrain\<rparr>"
  have "oc_step s Tau ?s1" using Cons.prems pop(1) by (intro oc_pop)
  moreover have "oc_step ?s1 (Emit x) (?s1\<lparr>oc_pc := OcDrain\<rparr>)" by (intro oc_send) simp
  ultimately have tr: "trace oc_step s ([Tau] @ [Emit x]) ?s2"
    using trace_snoc [of oc_step s "[Tau]" ?s1] trace_snoc [OF trace_Nil, of oc_step s Tau ?s1] by simp
  obtain ls t1 t2 where ih: "trace oc_step ?s2 ls t1" "emitted ls = xs" "oc_step t1 CloseOut t2"
    "oc_pc t2 = OcClosed"
    using Cons(1) [of ?s2] pop by auto
  have "trace oc_step s (([Tau] @ [Emit x]) @ ls) t1" by (rule trace_append [OF ih(1) tr])
  moreover have "emitted (([Tau] @ [Emit x]) @ ls) = rq_abs (oc_buff s)" using ih(2) Cons(2) by simp
  ultimately show ?case using ih(3,4) by blast
qed

text \<open>C34: \<^verbatim>\<open>OrderedChannel\<close> preserves order and loses nothing: at every moment the values
  received are the values handed on, in the same order, followed by the values its goroutine
  still holds; when it closes the output it has handed on exactly what it received. Once the
  input is closed, the goroutine needs only a willing consumer to empty its buffer and close the
  output.\<close>

theorem ordered_channel_forwards:
  assumes "trace oc_step oc_new ls s"
  shows "received ls = emitted ls @ oc_pending s
    \<and> (\<forall>s'. oc_step s CloseOut s' \<longrightarrow> received ls = emitted ls)
    \<and> (oc_pc s = OcDrain \<longrightarrow> (\<exists>ms s1 s2. trace oc_step s ms s1 \<and> oc_step s1 CloseOut s2
          \<and> oc_pc s2 = OcClosed \<and> emitted (ls @ ms) = received ls))"
proof -
  have f: "oc_inv s" "received ls = emitted ls @ oc_pending s"
    using ordered.forwards [OF assms] by blast+
  moreover have "received ls = emitted ls" if "oc_step s CloseOut s'" for s'
    using ordered.complete [OF assms that] .
  moreover have "\<exists>ms s1 s2. trace oc_step s ms s1 \<and> oc_step s1 CloseOut s2 \<and> oc_pc s2 = OcClosed
      \<and> emitted (ls @ ms) = received ls" if "oc_pc s = OcDrain"
  proof -
    have "rq_inv (oc_buff s)" using f(1) by (simp add: oc_inv_def)
    from oc_drains [OF this that] obtain ms s1 s2 where "trace oc_step s ms s1"
      "emitted ms = rq_abs (oc_buff s)" "oc_step s1 CloseOut s2" "oc_pc s2 = OcClosed" by blast
    moreover have "oc_pending s = rq_abs (oc_buff s)" using that by (simp add: oc_pending_def)
    ultimately show ?thesis using f(2) by (intro exI [of _ ms] exI [of _ s1] exI [of _ s2]) simp
  qed
  ultimately show ?thesis by blast
qed

text \<open>A value goes through the buffer.\<close>

lemma ordered_channel_forwards_witness:
  "\<exists>s. trace oc_step oc_new [Tau, Recv (7::nat), Tau, Emit 7] s
    \<and> received [Tau, Recv (7::nat), Tau, Emit 7] = emitted [Tau, Recv (7::nat), Tau, Emit 7] @ oc_pending s"
proof -
  let ?s1 = "oc_new\<lparr>oc_pc := OcSelect None\<rparr> :: nat OrderedChannel"
  let ?s2 = "?s1\<lparr>oc_buff := Ring_Push 7 (oc_buff ?s1), oc_pc := OcLoop\<rparr>"
  let ?s3 = "?s2\<lparr>oc_pc := OcSelect (Some 7)\<rparr>"
  let ?s4 = "?s3\<lparr>oc_buff := fst (Ring_Pop (oc_buff ?s3)), oc_pc := OcLoop\<rparr>"
  have pk: "Ring_Peek (NewRingQueue :: nat RingQueue) = (0, False)"
    by (simp add: Ring_Peek_def NewRingQueue_def)
  have z: "rq_abs (NewRingQueue :: nat RingQueue) = []" by (rule rq_new(2))
  have "rq_abs (Ring_Push 7 (NewRingQueue :: nat RingQueue)) = [7]"
    "rq_inv (Ring_Push 7 (NewRingQueue :: nat RingQueue))"
    using rq_Push [OF rq_new(1), of "7::nat"] z by simp_all
  then have pk2: "Ring_Peek (Ring_Push 7 (NewRingQueue :: nat RingQueue)) = (7, True)"
    by (simp add: rq_Peek)
  have a: "oc_step oc_new Tau ?s1" using oc_peek [of "oc_new :: nat OrderedChannel"] pk
    by (simp add: oc_new_def)
  have b: "oc_step ?s1 (Recv 7) ?s2" by (intro oc_recv) simp
  have c: "oc_step ?s2 Tau ?s3" using oc_peek [of ?s2] pk2 by (simp add: oc_new_def)
  have d: "oc_step ?s3 (Emit 7) ?s4" by (intro oc_emit) simp
  have "trace oc_step oc_new (((([] @ [Tau]) @ [Recv 7]) @ [Tau]) @ [Emit 7]) ?s4"
    by (intro trace_snoc [where step = oc_step, OF _ d] trace_snoc [where step = oc_step, OF _ c] trace_snoc [where step = oc_step, OF _ b] trace_snoc [where step = oc_step, OF _ a] trace_Nil)
  then have t: "trace oc_step oc_new [Tau, Recv 7, Tau, Emit 7] ?s4" by simp
  show ?thesis using ordered_channel_forwards [OF t] t by blast
qed

subsection \<open>UnorderedChannel\<close>

datatype 'a uc_pc =
    UcRange               \<comment> \<open>\<open>for v := range in\<close>\<close>
  | UcOffer 'a            \<comment> \<open>the select: hand over or fall to \<open>default\<close>\<close>
  | UcDrain "'a list"     \<comment> \<open>\<open>for _, v := range buf\<close>: what is left of it\<close>
  | UcClosed

record 'a UnorderedChannel =
  uc_buf :: "'a list"
  uc_pc :: "'a uc_pc"

definition uc_new :: "'a UnorderedChannel" where
  "uc_new = \<lparr>uc_buf = [], uc_pc = UcRange\<rparr>"

inductive uc_step :: "'a UnorderedChannel \<Rightarrow> 'a chan_label \<Rightarrow> 'a UnorderedChannel \<Rightarrow> bool" where
  uc_recv: "uc_pc s = UcRange \<Longrightarrow> uc_step s (Recv v) (s\<lparr>uc_pc := UcOffer v\<rparr>)"
| uc_emit: "uc_pc s = UcOffer v \<Longrightarrow> uc_step s (Emit v) (s\<lparr>uc_pc := UcRange\<rparr>)"
| uc_default: "uc_pc s = UcOffer v \<Longrightarrow>
    uc_step s Tau (s\<lparr>uc_buf := uc_buf s @ [v], uc_pc := UcRange\<rparr>)"
| uc_recv_closed: "uc_pc s = UcRange \<Longrightarrow> uc_step s RecvClosed (s\<lparr>uc_pc := UcDrain (uc_buf s)\<rparr>)"
| uc_drain: "uc_pc s = UcDrain (v # vs) \<Longrightarrow> uc_step s (Emit v) (s\<lparr>uc_pc := UcDrain vs\<rparr>)"
| uc_end: "uc_pc s = UcDrain [] \<Longrightarrow> uc_step s CloseOut (s\<lparr>uc_pc := UcClosed\<rparr>)"

inductive_cases uc_closeE: "uc_step s CloseOut s'"

definition uc_pending :: "'a UnorderedChannel \<Rightarrow> 'a list" where
  "uc_pending s = (case uc_pc s of
     UcRange \<Rightarrow> uc_buf s | UcOffer v \<Rightarrow> v # uc_buf s | UcDrain vs \<Rightarrow> vs | UcClosed \<Rightarrow> [])"

interpretation unordered: adapter uc_new uc_step "\<lambda>_. True" uc_pending mset
proof unfold_locales
  show "uc_pending uc_new = []" by (simp add: uc_pending_def uc_new_def)
  show "mset (xs @ received [l]) = mset ((ys @ emitted [l]) @ uc_pending s')"
    if "uc_step s l s'" "mset xs = mset (ys @ uc_pending s)" for s s' :: "'a UnorderedChannel" and l xs ys
    using that by (cases rule: uc_step.cases) (auto simp: uc_pending_def)
  show "uc_pending s' = []" if "uc_step s CloseOut s'" for s s' :: "'a UnorderedChannel"
    using that by (cases rule: uc_closeE) (auto simp: uc_pending_def)
qed simp_all

text \<open>\<^verbatim>\<open>UnorderedChannel\<close> loses and duplicates nothing, in any order of communications:
  the values received are, as a multiset, those handed on and those its goroutine still holds,
  and when it closes the output it has handed on exactly what it received. The order may differ:
  a value offered while no consumer is ready is overtaken by every later value that finds one.\<close>

theorem unordered_channel_forwards:
  assumes "trace uc_step uc_new ls s"
  shows "mset (received ls) = mset (emitted ls) + mset (uc_pending s)
    \<and> (\<forall>s'. uc_step s CloseOut s' \<longrightarrow> mset (received ls) = mset (emitted ls))"
  using unordered.forwards [OF assms] unordered.complete [OF assms] by simp

lemma unordered_channel_forwards_witness:
  "\<exists>s s'. trace uc_step uc_new [Recv (1::nat), Tau, Recv 2, Emit 2, RecvClosed, Emit 1] s
    \<and> uc_step s CloseOut s'
    \<and> mset (received [Recv (1::nat), Tau, Recv 2, Emit 2, RecvClosed, Emit 1])
        = mset (emitted [Recv (1::nat), Tau, Recv 2, Emit 2, RecvClosed, Emit 1])"
proof -
  let ?c = "\<lambda>b p. \<lparr>uc_buf = b, uc_pc = p\<rparr> :: nat UnorderedChannel"
  have s: "uc_step (?c [] UcRange) (Recv 1) (?c [] (UcOffer 1))"
    "uc_step (?c [] (UcOffer 1)) Tau (?c [1] UcRange)"
    "uc_step (?c [1] UcRange) (Recv 2) (?c [1] (UcOffer 2))"
    "uc_step (?c [1] (UcOffer 2)) (Emit 2) (?c [1] UcRange)"
    "uc_step (?c [1] UcRange) RecvClosed (?c [1] (UcDrain [1]))"
    "uc_step (?c [1] (UcDrain [1])) (Emit 1) (?c [1] (UcDrain []))"
    and e: "uc_step (?c [1] (UcDrain [])) CloseOut (?c [1] UcClosed)"
    using uc_recv [of "?c [] UcRange" 1] uc_default [of "?c [] (UcOffer 1)" 1]
      uc_recv [of "?c [1] UcRange" 2] uc_emit [of "?c [1] (UcOffer 2)" 2]
      uc_recv_closed [of "?c [1] UcRange"] uc_drain [of "?c [1] (UcDrain [1])" 1 "[]"]
      uc_end [of "?c [1] (UcDrain [])"] by simp_all
  have "trace uc_step (?c [] UcRange) (((((([] @ [Recv 1]) @ [Tau]) @ [Recv 2]) @ [Emit 2])
      @ [RecvClosed]) @ [Emit 1]) (?c [1] (UcDrain []))"
    by (intro trace_snoc [where step = uc_step, OF _ s(6)] trace_snoc [where step = uc_step, OF _ s(5)] trace_snoc [where step = uc_step, OF _ s(4)]
        trace_snoc [where step = uc_step, OF _ s(3)] trace_snoc [where step = uc_step, OF _ s(2)] trace_snoc [where step = uc_step, OF _ s(1)] trace_Nil)
  then have t: "trace uc_step uc_new [Recv 1, Tau, Recv 2, Emit 2, RecvClosed, Emit 1] (?c [1] (UcDrain []))"
    by (simp add: uc_new_def)
  show ?thesis using unordered_channel_forwards [OF t] t e by blast
qed

end
