(* ===== verification/Doubly_Linked.thy ===== *)
theory Doubly_Linked
  imports Prelude
begin

text \<open>
  Doubly linked lists in a store of nodes, as \<^verbatim>\<open>SyncLRU\<close> of \<^verbatim>\<open>mapx/lru.go\<close> and
  \<^verbatim>\<open>orderedMap\<close> of \<^verbatim>\<open>syncx/future.go\<close> keep them between two sentinels: \<open>nx\<close> and
  \<open>pv\<close> are the \<^verbatim>\<open>next\<close> and \<^verbatim>\<open>prev\<close> fields, addresses are naturals, the nil
  pointer is \<open>None\<close>.
\<close>

section \<open>Doubly linked segments\<close>

text \<open>The nodes \<open>ns\<close> lie between \<open>a\<close> and \<open>b\<close>, linked in both directions.\<close>

primrec linked :: "(nat \<Rightarrow> nat option) \<Rightarrow> (nat \<Rightarrow> nat option) \<Rightarrow> nat \<Rightarrow> nat list \<Rightarrow> nat \<Rightarrow> bool" where
  "linked nx pv a [] b \<longleftrightarrow> nx a = Some b \<and> pv b = Some a"
| "linked nx pv a (n # ns) b \<longleftrightarrow> nx a = Some n \<and> pv n = Some a \<and> linked nx pv n ns b"

lemma linked_cong:
  "(\<And>x. x \<in> set (a # ns) \<Longrightarrow> nx' x = nx x) \<Longrightarrow> (\<And>x. x \<in> set (ns @ [b]) \<Longrightarrow> pv' x = pv x) \<Longrightarrow>
     linked nx' pv' a ns b = linked nx pv a ns b"
  by (induction ns arbitrary: a) auto

lemma linked_append:
  "linked nx pv a (xs @ n # ys) b \<longleftrightarrow> linked nx pv a xs n \<and> linked nx pv n ys b"
  by (induction xs arbitrary: a) auto

lemma linked_ends:
  "linked nx pv a ns b \<Longrightarrow> nx a = Some (hd (ns @ [b])) \<and> pv b = Some (last (a # ns))"
  by (induction ns arbitrary: a) auto

lemma linked_splice:
  assumes "linked nx pv a xs n" and "linked nx pv n ys b" and "distinct (a # xs @ n # ys @ [b])"
    and nx': "\<And>x. x \<noteq> n \<Longrightarrow> nx' x = (if x = last (a # xs) then Some (hd (ys @ [b])) else nx x)"
    and pv': "\<And>x. x \<noteq> n \<Longrightarrow> pv' x = (if x = hd (ys @ [b]) then Some (last (a # xs)) else pv x)"
  shows "linked nx' pv' a (xs @ ys) b"
  using assms
proof (induction xs arbitrary: a)
  case Nil
  show ?case
  proof (cases ys)
    case (Cons y zs)
    have neq: "x \<noteq> n" "x \<noteq> a" if "x \<in> set (y # zs @ [b])" for x using that Nil.prems(3) Cons by auto
    have yzs: "x \<noteq> y" if "x \<in> set (zs @ [b])" for x using that Nil.prems(3) Cons by auto
    have "linked nx' pv' y zs b = linked nx pv y zs b"
    proof (rule linked_cong)
      show "nx' x = nx x" if "x \<in> set (y # zs)" for x using neq [of x] that Nil.prems(4) [of x] by auto
      show "pv' x = pv x" if "x \<in> set (zs @ [b])" for x using neq [of x] yzs [of x] that Nil.prems(5) [of x] Cons by auto
    qed
    moreover have "nx' a = Some y" "pv' y = Some a" "linked nx pv y zs b"
      using Nil.prems Cons by auto
    ultimately show ?thesis using Cons by simp
  qed (use Nil in auto)
next
  case (Cons x xs)
  have h: "hd (ys @ [b]) \<noteq> x" using Cons.prems(3) by (cases ys) auto
  have l: "last (x # xs) \<noteq> a" using Cons.prems(3) last_in_set [of "x # xs"] by auto
  have "linked nx' pv' x (xs @ ys) b" using Cons.prems by (intro Cons.IH) auto
  moreover have "nx' a = Some x" "pv' x = Some a" using Cons.prems h l by auto
  ultimately show ?case by simp
qed

lemma linked_extend:
  assumes "linked nx pv a ns b" and "distinct (a # ns @ [b])" and "n \<notin> set (a # ns @ [b])"
    and nx': "\<And>x. nx' x = (if x = n then Some b else if x = last (a # ns) then Some n else nx x)"
    and pv': "\<And>x. pv' x = (if x = b then Some n else if x = n then Some (last (a # ns)) else pv x)"
  shows "linked nx' pv' a (ns @ [n]) b"
  using assms
proof (induction ns arbitrary: a)
  case Nil
  then show ?case by auto
next
  case (Cons x ns)
  have l: "last (x # ns) \<noteq> a" using Cons.prems(2) last_in_set [of "x # ns"] by auto
  have "linked nx' pv' x (ns @ [n]) b" using Cons.prems by (intro Cons.IH) auto
  moreover have "nx' a = Some x" "pv' x = Some a" using Cons.prems l by auto
  ultimately show ?case by simp
qed

text \<open>The nodes from \<open>a\<close> to \<open>b\<close>, followed along \<open>next\<close>; the number of allocated nodes is fuel enough.\<close>

primrec nodes_from :: "nat \<Rightarrow> (nat \<Rightarrow> nat option) \<Rightarrow> nat \<Rightarrow> nat \<Rightarrow> nat list" where
  "nodes_from 0 nx a b = []"
| "nodes_from (Suc k) nx a b =
     (case nx a of None \<Rightarrow> [] | Some n \<Rightarrow> if n = b then [] else n # nodes_from k nx n b)"

lemma nodes_from_linked:
  "linked nx pv a ns b \<Longrightarrow> b \<notin> set ns \<Longrightarrow> length ns < k \<Longrightarrow> nodes_from k nx a b = ns"
proof (induction k arbitrary: a ns)
  case (Suc k)
  then show ?case by (cases ns) auto
qed simp

lemma nodes_from_all:
  assumes "linked nx pv a ns b \<and> distinct (a # ns @ [b]) \<and> (\<forall>x \<in> set (a # ns @ [b]). x < fresh)"
  shows "nodes_from fresh nx a b = ns"
proof -
  have "distinct (a # ns)" "set (a # ns) \<subseteq> {..<fresh}" using assms by auto
  then have "length (a # ns) \<le> fresh" by (metis card_lessThan card_mono distinct_card finite_lessThan)
  then show ?thesis using assms nodes_from_linked [of nx pv a ns b fresh] by auto
qed

end
