(* ===== verification/LRU.thy ===== *)
theory LRU
  imports Doubly_Linked "HOL-Library.AList"
begin

text \<open>
  \<^verbatim>\<open>SyncLRU\<close> of \<^verbatim>\<open>mapx/lru.go\<close>: a map from keys to nodes and a doubly linked list of nodes
  between two sentinels, kept in a store of nodes (addresses are naturals, the nil pointer is
  \<open>None\<close>). A nil dereference is the result \<open>None\<close> of an operation. Every operation holds
  \<^verbatim>\<open>mu\<close> throughout, so it is one function of the state. The Go map is an association list
  with distinct keys, of which only lookup, update, deletion and length are used.
\<close>

section \<open>The code\<close>

record ('k, 'v) SyncLRU =
  lru_cap :: u64
  lru_cache :: "('k \<times> nat) list"
  lru_head :: nat
  lru_tail :: nat
  ln_key :: "nat \<Rightarrow> 'k"
  ln_val :: "nat \<Rightarrow> 'v"
  ln_prev :: "nat \<Rightarrow> nat option"
  ln_next :: "nat \<Rightarrow> nat option"
  ln_fresh :: nat

definition NewSyncLRU :: "u64 \<Rightarrow> ('k::zero, 'v::zero) SyncLRU" where
  "NewSyncLRU n = \<lparr>lru_cap = n, lru_cache = [], lru_head = 0, lru_tail = 1,
     ln_key = (\<lambda>_. 0), ln_val = (\<lambda>_. 0), ln_prev = (\<lambda>_. None)(1 := Some 0),
     ln_next = (\<lambda>_. None)(0 := Some 1), ln_fresh = 2\<rparr>"

definition removeNode :: "nat option \<Rightarrow> ('k, 'v) SyncLRU \<Rightarrow> ('k, 'v) SyncLRU option" where
  "removeNode ptr l =
     (case ptr of
        None \<Rightarrow> Some l
      | Some n \<Rightarrow>
          (case ln_prev l n of
             None \<Rightarrow> None
           | Some p \<Rightarrow>
               let l1 = l\<lparr>ln_next := (ln_next l)(p := ln_next l n)\<rparr>
               in case ln_next l1 n of
                    None \<Rightarrow> None
                  | Some q \<Rightarrow>
                      let l2 = l1\<lparr>ln_prev := (ln_prev l1)(q := ln_prev l1 n)\<rparr>;
                          l3 = l2\<lparr>ln_next := (ln_next l2)(n := None)\<rparr>
                      in Some (l3\<lparr>ln_prev := (ln_prev l3)(n := None)\<rparr>)))"

definition appendTail :: "nat \<Rightarrow> ('k, 'v) SyncLRU \<Rightarrow> ('k, 'v) SyncLRU option" where
  "appendTail n l =
     (case ln_prev l (lru_tail l) of
        None \<Rightarrow> None
      | Some lst \<Rightarrow>
          let l1 = l\<lparr>ln_next := (ln_next l)(lst := Some n)\<rparr>;
              l2 = l1\<lparr>ln_prev := (ln_prev l1)(n := Some lst)\<rparr>;
              l3 = l2\<lparr>ln_next := (ln_next l2)(n := Some (lru_tail l2))\<rparr>
          in Some (l3\<lparr>ln_prev := (ln_prev l3)(lru_tail l3 := Some n)\<rparr>))"

text \<open>Evicting the least recently used node, \<open>head.next\<close>.\<close>

definition LRU_evict :: "('k, 'v) SyncLRU \<Rightarrow> ('k, 'v) SyncLRU option" where
  "LRU_evict l =
     (case ln_next l (lru_head l) of
        None \<Rightarrow> None
      | Some evict \<Rightarrow>
          (case removeNode (Some evict) l of
             None \<Rightarrow> None
           | Some l1 \<Rightarrow> Some (l1\<lparr>lru_cache := AList.delete (ln_key l1 evict) (lru_cache l1)\<rparr>)))"

definition LRU_Put :: "'k \<Rightarrow> 'v \<Rightarrow> ('k, 'v) SyncLRU \<Rightarrow> ('k, 'v) SyncLRU option" where
  "LRU_Put key value l =
     (if lru_cap l = 0 then Some l
      else case map_of (lru_cache l) key of
        Some n \<Rightarrow>
          (case removeNode (Some n) (l\<lparr>ln_val := (ln_val l)(n := value)\<rparr>) of
             None \<Rightarrow> None
           | Some l1 \<Rightarrow> appendTail n l1)
      | None \<Rightarrow>
          (case (if lru_cap l \<le> of_nat (length (lru_cache l)) then LRU_evict l else Some l) of
             None \<Rightarrow> None
           | Some l1 \<Rightarrow>
               let node = ln_fresh l1;
                   l2 = l1\<lparr>ln_key := (ln_key l1)(node := key), ln_val := (ln_val l1)(node := value),
                           ln_prev := (ln_prev l1)(node := None), ln_next := (ln_next l1)(node := None),
                           ln_fresh := Suc node\<rparr>
               in case appendTail node l2 of
                    None \<Rightarrow> None
                  | Some l3 \<Rightarrow> Some (l3\<lparr>lru_cache := AList.update key node (lru_cache l3)\<rparr>)))"

definition LRU_Get :: "'k \<Rightarrow> ('k, 'v::zero) SyncLRU \<Rightarrow> (('k, 'v) SyncLRU \<times> 'v \<times> bool) option" where
  "LRU_Get key l =
     (if length (lru_cache l) = 0 then Some (l, 0, False)
      else case map_of (lru_cache l) key of
        Some node \<Rightarrow>
          (case removeNode (Some node) l of
             None \<Rightarrow> None
           | Some l1 \<Rightarrow>
               (case appendTail node l1 of
                  None \<Rightarrow> None
                | Some l2 \<Rightarrow> Some (l2, ln_val l2 node, True)))
      | None \<Rightarrow> Some (l, 0, False))"

section \<open>The abstract cache\<close>

text \<open>Entries from the least to the most recently used.\<close>

definition touch :: "'k \<Rightarrow> ('k \<times> 'v) list \<Rightarrow> ('k \<times> 'v) list" where
  "touch k xs = filter (\<lambda>e. fst e \<noteq> k) xs"

definition spec_put :: "nat \<Rightarrow> 'k \<Rightarrow> 'v \<Rightarrow> ('k \<times> 'v) list \<Rightarrow> ('k \<times> 'v) list" where
  "spec_put cap k v xs =
     (if cap = 0 then xs
      else if k \<in> fst ` set xs then touch k xs @ [(k, v)]
      else (if cap \<le> length xs then tl xs else xs) @ [(k, v)])"

definition spec_get :: "'k \<Rightarrow> ('k \<times> 'v::zero) list \<Rightarrow> ('k \<times> 'v) list \<times> 'v \<times> bool" where
  "spec_get k xs =
     (case map_of xs k of
        None \<Rightarrow> (xs, 0, False)
      | Some v \<Rightarrow> (touch k xs @ [(k, v)], v, True))"

section \<open>The invariant\<close>

definition lru_list :: "('k, 'v) SyncLRU \<Rightarrow> nat list \<Rightarrow> bool" where
  "lru_list l ns \<longleftrightarrow> linked (ln_next l) (ln_prev l) (lru_head l) ns (lru_tail l)
     \<and> distinct (lru_head l # ns @ [lru_tail l])
     \<and> (\<forall>x \<in> set (lru_head l # ns @ [lru_tail l]). x < ln_fresh l)"

text \<open>The list operations, on a list in good shape.\<close>

lemma removeNode_ok:
  assumes "lru_list l (xs @ n # ys)"
  shows "\<exists>nx pv. removeNode (Some n) l = Some (l\<lparr>ln_next := nx, ln_prev := pv\<rparr>)
    \<and> lru_list (l\<lparr>ln_next := nx, ln_prev := pv\<rparr>) (xs @ ys)"
proof -
  let ?h = "lru_head l" and ?t = "lru_tail l"
  have lk: "linked (ln_next l) (ln_prev l) ?h xs n" "linked (ln_next l) (ln_prev l) n ys ?t"
    and d: "distinct (?h # xs @ n # ys @ [?t])"
    using assms by (auto simp: lru_list_def linked_append)
  let ?p = "last (?h # xs)" and ?q = "hd (ys @ [?t])"
  have pv: "ln_prev l n = Some ?p" and nx: "ln_next l n = Some ?q"
    using linked_ends [OF lk(1)] linked_ends [OF lk(2)] by blast+
  have pn: "?p \<noteq> n" using d last_in_set [of "?h # xs"] by auto
  have qn: "?q \<noteq> n" using d hd_in_set [of "ys @ [?t]"] by auto
  let ?nx = "(ln_next l)(?p := Some ?q, n := None)" and ?pv = "(ln_prev l)(?q := Some ?p, n := None)"
  have "removeNode (Some n) l = Some (l\<lparr>ln_next := ?nx, ln_prev := ?pv\<rparr>)"
    using pv nx pn qn unfolding removeNode_def by (simp add: Let_def)
  moreover have "linked ?nx ?pv ?h (xs @ ys) ?t"
    by (rule linked_splice [OF lk d]) (use pn qn in auto)
  moreover have "distinct (?h # (xs @ ys) @ [?t])" using d by auto
  moreover have "\<forall>x \<in> set (?h # (xs @ ys) @ [?t]). x < ln_fresh l" using assms by (auto simp: lru_list_def)
  ultimately show ?thesis
    by (intro exI [of _ ?nx] exI [of _ ?pv]) (simp add: lru_list_def)
qed

lemma appendTail_ok:
  assumes "lru_list l ns" and "n \<notin> set (lru_head l # ns @ [lru_tail l])" and "n < ln_fresh l"
  shows "\<exists>nx pv. appendTail n l = Some (l\<lparr>ln_next := nx, ln_prev := pv\<rparr>)
    \<and> lru_list (l\<lparr>ln_next := nx, ln_prev := pv\<rparr>) (ns @ [n])"
proof -
  let ?h = "lru_head l" and ?t = "lru_tail l"
  have lk: "linked (ln_next l) (ln_prev l) ?h ns ?t" and d: "distinct (?h # ns @ [?t])"
    using assms(1) by (auto simp: lru_list_def)
  let ?p = "last (?h # ns)"
  have pv: "ln_prev l ?t = Some ?p" using linked_ends [OF lk] by blast
  let ?nx = "(ln_next l)(?p := Some n, n := Some ?t)" and ?pv = "(ln_prev l)(n := Some ?p, ?t := Some n)"
  have "appendTail n l = Some (l\<lparr>ln_next := ?nx, ln_prev := ?pv\<rparr>)"
    using pv unfolding appendTail_def by (simp add: Let_def)
  moreover have "linked ?nx ?pv ?h (ns @ [n]) ?t"
    by (rule linked_extend [OF lk d assms(2)]) (use assms(2) in auto)
  moreover have "distinct (?h # (ns @ [n]) @ [?t])" using d assms(2) by auto
  moreover have "\<forall>x \<in> set (?h # (ns @ [n]) @ [?t]). x < ln_fresh l"
    using assms by (auto simp: lru_list_def)
  ultimately show ?thesis
    by (intro exI [of _ ?nx] exI [of _ ?pv]) (simp add: lru_list_def)
qed

text \<open>The cache holds the list's nodes under their keys, and not more than its capacity.\<close>

definition lru_rep :: "('k, 'v) SyncLRU \<Rightarrow> nat list \<Rightarrow> bool" where
  "lru_rep l ns \<longleftrightarrow> lru_list l ns \<and> distinct (map (ln_key l) ns) \<and> distinct (map fst (lru_cache l))
     \<and> (\<forall>k n. map_of (lru_cache l) k = Some n \<longleftrightarrow> n \<in> set ns \<and> ln_key l n = k)
     \<and> length ns \<le> unat (lru_cap l)"

lemma lru_rep_parts:
  assumes "lru_rep l ns"
  shows rep_list: "lru_list l ns" and rep_keys: "distinct (map (ln_key l) ns)"
    and rep_map: "map_of (lru_cache l) k = Some n \<longleftrightarrow> n \<in> set ns \<and> ln_key l n = k"
    and rep_dist: "distinct (map fst (lru_cache l))"
    and rep_cap: "length ns \<le> unat (lru_cap l)"
  using assms unfolding lru_rep_def by blast+

lemma rep_length:
  assumes "lru_rep l ns"
  shows "length (lru_cache l) = length ns"
proof -
  have "k \<in> fst ` set (lru_cache l) \<longleftrightarrow> k \<in> ln_key l ` set ns" for k
  proof -
    have "k \<in> fst ` set (lru_cache l) \<longleftrightarrow> (\<exists>n. map_of (lru_cache l) k = Some n)"
      using map_of_eq_None_iff [of "lru_cache l" k] by (cases "map_of (lru_cache l) k") auto
    also have "\<dots> \<longleftrightarrow> k \<in> ln_key l ` set ns" using rep_map [OF assms, of k] by auto
    finally show ?thesis .
  qed
  then have "fst ` set (lru_cache l) = ln_key l ` set ns" by blast
  moreover have "length (lru_cache l) = card (fst ` set (lru_cache l))"
    using distinct_card [OF rep_dist [OF assms]] by simp
  moreover have "length ns = card (ln_key l ` set ns)"
    using distinct_card [OF rep_keys [OF assms]] by simp
  ultimately show ?thesis by simp
qed

text \<open>The entries read off the list, from \<open>head.next\<close> to \<open>tail\<close>.\<close>

definition lru_entries :: "('k, 'v) SyncLRU \<Rightarrow> ('k \<times> 'v) list" where
  "lru_entries l = map (\<lambda>n. (ln_key l n, ln_val l n))
     (nodes_from (ln_fresh l) (ln_next l) (lru_head l) (lru_tail l))"

lemma rep_entries: "lru_list l ns \<Longrightarrow> lru_entries l = map (\<lambda>n. (ln_key l n, ln_val l n)) ns"
  unfolding lru_list_def lru_entries_def using nodes_from_all by metis

section \<open>The operations\<close>

text \<open>Moving a node to the most recent end.\<close>

lemma lru_move:
  assumes rep: "lru_rep l (xs @ n # ys)"
  obtains l1 l2 nx pv where "removeNode (Some n) l = Some l1" "appendTail n l1 = Some l2"
    "l2 = l\<lparr>ln_next := nx, ln_prev := pv\<rparr>" "lru_rep l2 (xs @ ys @ [n])"
proof -
  note li = rep_list [OF rep]
  obtain nx pv where r: "removeNode (Some n) l = Some (l\<lparr>ln_next := nx, ln_prev := pv\<rparr>)"
    and l1: "lru_list (l\<lparr>ln_next := nx, ln_prev := pv\<rparr>) (xs @ ys)"
    using removeNode_ok [OF li] by blast
  have fresh: "n \<notin> set (lru_head l # (xs @ ys) @ [lru_tail l])" "n < ln_fresh l"
    using li by (auto simp: lru_list_def)
  obtain nx' pv' where a: "appendTail n (l\<lparr>ln_next := nx, ln_prev := pv\<rparr>)
      = Some (l\<lparr>ln_next := nx', ln_prev := pv'\<rparr>)"
    and l2: "lru_list (l\<lparr>ln_next := nx', ln_prev := pv'\<rparr>) ((xs @ ys) @ [n])"
    using appendTail_ok [OF l1, of n] fresh by auto
  have "lru_rep (l\<lparr>ln_next := nx', ln_prev := pv'\<rparr>) (xs @ ys @ [n])"
    using rep l2 by (auto simp: lru_rep_def)
  then show thesis using that [OF r a refl] by blast
qed

lemma touch_middle:
  assumes "distinct (map f (xs @ n # ys))"
  shows "touch (f n) (map (\<lambda>m. (f m, g m)) (xs @ n # ys)) = map (\<lambda>m. (f m, g m)) (xs @ ys)"
proof -
  have k: "filter (\<lambda>e. fst e \<noteq> f n) (map (\<lambda>m. (f m, g m)) zs) = map (\<lambda>m. (f m, g m)) zs"
    if "f n \<notin> f ` set zs" for zs
    using that by (intro filter_True) (auto simp: image_iff)
  show ?thesis using assms k [of xs] k [of ys] by (auto simp: touch_def)
qed

lemma rep_absent:
  assumes "lru_rep l ns"
  shows "map_of (lru_entries l) key = None \<longleftrightarrow> map_of (lru_cache l) key = None"
proof -
  have "map_of (lru_entries l) key = None \<longleftrightarrow> key \<notin> ln_key l ` set ns"
    by (simp add: rep_entries [OF rep_list [OF assms]] map_of_eq_None_iff image_image)
  also have "\<dots> \<longleftrightarrow> map_of (lru_cache l) key = None"
  proof (cases "map_of (lru_cache l) key")
    case None
    then show ?thesis using rep_map [OF assms, of key] by auto
  next
    case (Some n)
    then show ?thesis using rep_map [OF assms, of key n] by auto
  qed
  finally show ?thesis .
qed

lemma LRU_Get_ok:
  assumes rep: "lru_rep l ns"
  shows "\<exists>l' ns' v b. LRU_Get key l = Some (l', v, b) \<and> lru_rep l' ns' \<and> lru_cap l' = lru_cap l
    \<and> spec_get key (lru_entries l) = (lru_entries l', v, b)"
proof (cases "map_of (lru_cache l) key")
  case None
  have "map_of (lru_entries l) key = None" using rep_absent [OF rep] None by simp
  then have "spec_get key (lru_entries l) = (lru_entries l, 0, False)" by (simp add: spec_get_def)
  moreover have "LRU_Get key l = Some (l, 0, False)" using None by (simp add: LRU_Get_def)
  ultimately show ?thesis using rep by blast
next
  case (Some n)
  then have n: "n \<in> set ns" "ln_key l n = key" using rep_map [OF rep] by blast+
  then obtain xs ys where ns: "ns = xs @ n # ys" by (meson split_list)
  obtain l1 l2 nx pv where m: "removeNode (Some n) l = Some l1" "appendTail n l1 = Some l2"
    "l2 = l\<lparr>ln_next := nx, ln_prev := pv\<rparr>" "lru_rep l2 (xs @ ys @ [n])"
    using lru_move rep ns by metis
  have "length (lru_cache l) \<noteq> 0" using Some by auto
  then have g: "LRU_Get key l = Some (l2, ln_val l n, True)"
    using Some m by (simp add: LRU_Get_def)
  let ?e = "map (\<lambda>m. (ln_key l m, ln_val l m))"
  have e: "lru_entries l = ?e ns" "lru_entries l2 = ?e (xs @ ys @ [n])"
    using rep_entries [OF rep_list [OF rep]] rep_entries [OF rep_list [OF m(4)]] m(3) by simp_all
  have "map_of (?e ns) key = Some (ln_val l n)"
    using n rep_keys [OF rep] by (intro map_of_is_SomeI) (auto simp: comp_def image_iff)
  moreover have "touch key (?e ns) = ?e (xs @ ys)"
    using touch_middle [of "ln_key l" xs n ys "ln_val l"] rep_keys [OF rep] n(2) unfolding ns by simp
  ultimately have "spec_get key (lru_entries l) = (lru_entries l2, ln_val l n, True)"
    using n(2) by (simp add: spec_get_def e)
  with g m show ?thesis by force
qed


text \<open>Eviction drops the first entry.\<close>

lemma LRU_evict_ok:
  assumes rep: "lru_rep l (m # ys)"
  shows "\<exists>l1. LRU_evict l = Some l1 \<and> lru_rep l1 ys \<and> lru_cap l1 = lru_cap l
    \<and> lru_entries l1 = tl (lru_entries l)
    \<and> map_of (lru_cache l1) = (map_of (lru_cache l))(ln_key l m := None)"
proof -
  note li = rep_list [OF rep]
  have hd: "ln_next l (lru_head l) = Some m" using li by (simp add: lru_list_def)
  obtain nx pv where r: "removeNode (Some m) l = Some (l\<lparr>ln_next := nx, ln_prev := pv\<rparr>)"
    and l1: "lru_list (l\<lparr>ln_next := nx, ln_prev := pv\<rparr>) ys"
    using removeNode_ok [of l "[]" m ys] li by auto
  let ?c = "AList.delete (ln_key l m) (lru_cache l)"
  let ?l1 = "l\<lparr>ln_next := nx, ln_prev := pv, lru_cache := ?c\<rparr>"
  have e: "LRU_evict l = Some ?l1" using hd r by (simp add: LRU_evict_def)
  have li1: "lru_list ?l1 ys" using l1 by (simp add: lru_list_def)
  have dk: "ln_key l m \<notin> ln_key l ` set ys" "distinct (map (ln_key l) ys)"
    using rep_keys [OF rep] by auto
  have mp: "map_of ?c k = Some n \<longleftrightarrow> n \<in> set ys \<and> ln_key l n = k" for k n
    using rep_map [OF rep, of k n] dk(1) by (auto simp: delete_conv' image_iff)
  have "length ys \<le> unat (lru_cap l)" using rep_cap [OF rep] by simp
  with li1 mp dk(2) rep_dist [OF rep] have "lru_rep ?l1 ys"
    by (simp add: lru_rep_def distinct_delete)
  moreover have "lru_entries ?l1 = tl (lru_entries l)"
    by (simp add: rep_entries [OF li] rep_entries [OF li1])
  ultimately show ?thesis using e by (intro exI [of _ ?l1]) (simp add: delete_conv')
qed

text \<open>A fresh node is appended.\<close>

definition LRU_insert :: "'k \<Rightarrow> 'v \<Rightarrow> ('k, 'v) SyncLRU \<Rightarrow> ('k, 'v) SyncLRU option" where
  "LRU_insert key value l1 =
     (let node = ln_fresh l1;
          l2 = l1\<lparr>ln_key := (ln_key l1)(node := key), ln_val := (ln_val l1)(node := value),
                  ln_prev := (ln_prev l1)(node := None), ln_next := (ln_next l1)(node := None),
                  ln_fresh := Suc node\<rparr>
      in case appendTail node l2 of
           None \<Rightarrow> None
         | Some l3 \<Rightarrow> Some (l3\<lparr>lru_cache := AList.update key node (lru_cache l3)\<rparr>))"

lemma LRU_insert_ok:
  assumes rep: "lru_rep l ns" and new: "map_of (lru_cache l) key = None"
    and room: "length ns < unat (lru_cap l)"
  shows "\<exists>l3. LRU_insert key value l = Some l3 \<and> lru_rep l3 (ns @ [ln_fresh l])
    \<and> lru_cap l3 = lru_cap l \<and> lru_entries l3 = lru_entries l @ [(key, value)]"
proof -
  let ?n = "ln_fresh l"
  note li = rep_list [OF rep]
  have old: "\<forall>x \<in> set (lru_head l # ns @ [lru_tail l]). x < ?n" using li by (simp add: lru_list_def)
  let ?l2 = "l\<lparr>ln_key := (ln_key l)(?n := key), ln_val := (ln_val l)(?n := value),
     ln_prev := (ln_prev l)(?n := None), ln_next := (ln_next l)(?n := None), ln_fresh := Suc ?n\<rparr>"
  have "linked ((ln_next l)(?n := None)) ((ln_prev l)(?n := None)) (lru_head l) ns (lru_tail l)
      = linked (ln_next l) (ln_prev l) (lru_head l) ns (lru_tail l)"
    using old by (intro linked_cong) auto
  then have li2: "lru_list ?l2 ns" using li old by (auto simp: lru_list_def)
  have fr: "?n \<notin> set (lru_head ?l2 # ns @ [lru_tail ?l2])" "?n < ln_fresh ?l2" using old by auto
  obtain nx pv where a: "appendTail ?n ?l2 = Some (?l2\<lparr>ln_next := nx, ln_prev := pv\<rparr>)"
    and l3: "lru_list (?l2\<lparr>ln_next := nx, ln_prev := pv\<rparr>) (ns @ [?n])"
    using appendTail_ok [OF li2 fr] by blast
  let ?c = "AList.update key ?n (lru_cache l)"
  let ?l3 = "?l2\<lparr>ln_next := nx, ln_prev := pv, lru_cache := ?c\<rparr>"
  have i: "LRU_insert key value l = Some ?l3" using a by (simp add: LRU_insert_def Let_def)
  have li3: "lru_list ?l3 (ns @ [?n])" using l3 by (simp add: lru_list_def)
  have nn: "?n \<notin> set ns" using old by auto
  have kn: "key \<notin> ln_key l ` set ns" using new rep_map [OF rep, of key] by auto
  have keys: "map (ln_key ?l3) (ns @ [?n]) = map (ln_key l) ns @ [key]" using nn by auto
  have mp: "map_of ?c k = Some n \<longleftrightarrow> n \<in> set (ns @ [?n]) \<and> ln_key ?l3 n = k" for k n
    using rep_map [OF rep, of k n] kn nn by (auto simp: update_conv')
  have "lru_rep ?l3 (ns @ [?n])"
    unfolding lru_rep_def keys
    using li3 mp rep_keys [OF rep] kn rep_dist [OF rep] room by (simp add: distinct_update)
  moreover have "lru_entries ?l3 = lru_entries l @ [(key, value)]"
    unfolding rep_entries [OF li] rep_entries [OF li3] using nn by auto
  ultimately show ?thesis using i by (intro exI [of _ ?l3]) simp
qed


lemma LRU_Put_insert:
  assumes "map_of (lru_cache l) key = None" and "lru_cap l \<noteq> 0"
  shows "LRU_Put key value l =
     (case (if lru_cap l \<le> of_nat (length (lru_cache l)) then LRU_evict l else Some l) of
        None \<Rightarrow> None | Some l1 \<Rightarrow> LRU_insert key value l1)"
  using assms unfolding LRU_Put_def LRU_insert_def by simp

lemma LRU_Put_new:
  assumes rep: "lru_rep l ns" and cap: "lru_cap l \<noteq> 0" and None: "map_of (lru_cache l) key = None"
  shows "\<exists>l' ns'. LRU_Put key value l = Some l' \<and> lru_rep l' ns' \<and> lru_cap l' = lru_cap l
    \<and> lru_entries l' = spec_put (unat (lru_cap l)) key value (lru_entries l)"
proof -
  have c0: "unat (lru_cap l) \<noteq> 0" using cap by (simp add: unat_eq_zero)
  have le: "length (lru_entries l) = length ns" by (simp add: rep_entries [OF rep_list [OF rep]])
  have absent: "key \<notin> fst ` set (lru_entries l)"
    using rep_absent [OF rep] None by (simp add: map_of_eq_None_iff)
  have "length ns < 2 ^ 64" using rep_cap [OF rep] unsigned_less [of "lru_cap l", where 'a = nat] by simp
  then have full: "lru_cap l \<le> of_nat (length (lru_cache l)) \<longleftrightarrow> unat (lru_cap l) \<le> length ns"
    by (simp add: rep_length [OF rep] word_le_nat_alt unat_of_nat take_bit_nat_eq_self)
  show ?thesis
  proof (cases "unat (lru_cap l) \<le> length ns")
    case True
    then obtain m ys where ns: "ns = m # ys" using c0 by (cases ns) auto
    obtain l1 where e: "LRU_evict l = Some l1" "lru_rep l1 ys" "lru_cap l1 = lru_cap l"
      "lru_entries l1 = tl (lru_entries l)" "map_of (lru_cache l1) key = None"
      using LRU_evict_ok rep None unfolding ns by (metis fun_upd_apply)
    have room: "length ys < unat (lru_cap l1)" using rep_cap [OF rep] ns e(3) by simp
    obtain l3 where "LRU_insert key value l1 = Some l3" "lru_rep l3 (ys @ [ln_fresh l1])"
      "lru_cap l3 = lru_cap l1" "lru_entries l3 = lru_entries l1 @ [(key, value)]"
      using LRU_insert_ok [OF e(2,5) room] by blast
    then show ?thesis
      using True full absent c0 e le
      by (intro exI [of _ l3] exI [of _ "ys @ [ln_fresh l1]"])
         (simp add: LRU_Put_insert [OF None cap] spec_put_def)
  next
    case False
    then have room: "length ns < unat (lru_cap l)" by simp
    obtain l3 where "LRU_insert key value l = Some l3" "lru_rep l3 (ns @ [ln_fresh l])"
      "lru_cap l3 = lru_cap l" "lru_entries l3 = lru_entries l @ [(key, value)]"
      using LRU_insert_ok [OF rep None room] by blast
    then show ?thesis
      using False full absent c0 le
      by (intro exI [of _ l3] exI [of _ "ns @ [ln_fresh l]"])
         (simp add: LRU_Put_insert [OF None cap] spec_put_def)
  qed
qed

lemma LRU_Put_old:
  assumes rep: "lru_rep l ns" and cap: "lru_cap l \<noteq> 0" and Some: "map_of (lru_cache l) key = Some n"
  shows "\<exists>l' ns'. LRU_Put key value l = Some l' \<and> lru_rep l' ns' \<and> lru_cap l' = lru_cap l
    \<and> lru_entries l' = spec_put (unat (lru_cap l)) key value (lru_entries l)"
proof -
  have c0: "unat (lru_cap l) \<noteq> 0" using cap by (simp add: unat_eq_zero)
  have n: "n \<in> set ns" "ln_key l n = key" using rep_map [OF rep] Some by blast+
  then obtain xs ys where ns: "ns = xs @ n # ys" by (meson split_list)
  let ?l0 = "l\<lparr>ln_val := (ln_val l)(n := value)\<rparr>"
  have rep0: "lru_rep ?l0 (xs @ n # ys)" using rep unfolding ns by (simp add: lru_rep_def lru_list_def)
  obtain l1 l2 nx pv where m: "removeNode (Some n) ?l0 = Some l1" "appendTail n l1 = Some l2"
    "l2 = ?l0\<lparr>ln_next := nx, ln_prev := pv\<rparr>" "lru_rep l2 (xs @ ys @ [n])"
    using lru_move rep0 by metis
  have p: "LRU_Put key value l = Some l2" using Some cap m by (simp add: LRU_Put_def)
  let ?e = "map (\<lambda>m. (ln_key l m, ln_val l m))"
  have nn: "n \<notin> set xs" "n \<notin> set ys" using rep_list [OF rep] by (auto simp: ns lru_list_def)
  have e: "lru_entries l = ?e ns" "lru_entries l2 = ?e (xs @ ys) @ [(key, value)]"
    using rep_entries [OF rep_list [OF rep]] rep_entries [OF rep_list [OF m(4)]] m(3) nn n(2) by auto
  have "touch key (?e ns) = ?e (xs @ ys)"
    using touch_middle [of "ln_key l" xs n ys "ln_val l"] rep_keys [OF rep] n(2) unfolding ns by simp
  moreover have "key \<in> fst ` set (?e ns)" using n by (auto simp: image_iff)
  ultimately have "lru_entries l2 = spec_put (unat (lru_cap l)) key value (lru_entries l)"
    using c0 unfolding e spec_put_def by simp
  with p m(3,4) show ?thesis by (intro exI [of _ l2] exI [of _ "xs @ ys @ [n]"]) simp
qed

lemma LRU_Put_ok:
  assumes rep: "lru_rep l ns"
  shows "\<exists>l' ns'. LRU_Put key value l = Some l' \<and> lru_rep l' ns' \<and> lru_cap l' = lru_cap l
    \<and> lru_entries l' = spec_put (unat (lru_cap l)) key value (lru_entries l)"
proof (cases "lru_cap l = 0")
  case True
  then show ?thesis using rep by (auto simp: LRU_Put_def spec_put_def)
next
  case False
  then show ?thesis using LRU_Put_new [OF rep] LRU_Put_old [OF rep] by (cases "map_of (lru_cache l) key") blast+
qed

section \<open>Sequences of operations\<close>

datatype ('k, 'v) lru_op = Put 'k 'v | Get 'k

fun lru_run :: "('k, 'v::zero) lru_op list \<Rightarrow> ('k, 'v) SyncLRU \<Rightarrow> (('k, 'v) SyncLRU \<times> ('v \<times> bool) list) option" where
  "lru_run [] l = Some (l, [])"
| "lru_run (Put k v # ops) l = (case LRU_Put k v l of None \<Rightarrow> None | Some l' \<Rightarrow> lru_run ops l')"
| "lru_run (Get k # ops) l =
     (case LRU_Get k l of
        None \<Rightarrow> None
      | Some (l', r) \<Rightarrow> map_option (\<lambda>(l'', rs). (l'', r # rs)) (lru_run ops l'))"

fun spec_run :: "nat \<Rightarrow> ('k, 'v::zero) lru_op list \<Rightarrow> ('k \<times> 'v) list \<Rightarrow> ('k \<times> 'v) list \<times> ('v \<times> bool) list" where
  "spec_run cap [] xs = (xs, [])"
| "spec_run cap (Put k v # ops) xs = spec_run cap ops (spec_put cap k v xs)"
| "spec_run cap (Get k # ops) xs =
     (let (xs', r) = spec_get k xs; (xs'', rs) = spec_run cap ops xs' in (xs'', r # rs))"

lemma lru_run_ok:
  "lru_rep l ns \<Longrightarrow> \<exists>l' ns' rs. lru_run ops l = Some (l', rs) \<and> lru_rep l' ns' \<and> lru_cap l' = lru_cap l
     \<and> spec_run (unat (lru_cap l)) ops (lru_entries l) = (lru_entries l', rs)"
proof (induction ops arbitrary: l ns)
  case Nil
  then show ?case by auto
next
  case (Cons op ops)
  show ?case
  proof (cases op)
    case (Put k v)
    then show ?thesis using LRU_Put_ok [OF Cons.prems, of k v] Cons.IH by fastforce
  next
    case (Get k)
    obtain l1 ns1 v b where g: "LRU_Get k l = Some (l1, v, b)" "lru_rep l1 ns1" "lru_cap l1 = lru_cap l"
      "spec_get k (lru_entries l) = (lru_entries l1, v, b)"
      using LRU_Get_ok [OF Cons.prems, of k] by blast
    show ?thesis using Cons.IH [OF g(2)] g Get by (fastforce split: prod.splits)
  qed
qed

lemma NewSyncLRU_rep: "lru_rep (NewSyncLRU n) []"
  by (simp add: lru_rep_def lru_list_def NewSyncLRU_def)

lemma NewSyncLRU_cap: "lru_cap (NewSyncLRU n) = n"
  by (simp add: NewSyncLRU_def)

lemma NewSyncLRU_entries: "lru_entries (NewSyncLRU n) = []"
  using rep_entries [OF rep_list [OF NewSyncLRU_rep]] by simp

text \<open>From \<^verbatim>\<open>NewSyncLRU(n)\<close>, every sequence of \<^verbatim>\<open>Put\<close> and \<^verbatim>\<open>Get\<close> runs without
  a nil dereference, and the pointer program implements the abstract least-recently-used cache:
  the entries read off the linked list and the results of every \<^verbatim>\<open>Get\<close> are those of the list
  specification, and never more than \<open>n\<close> entries are held. The map's keys are the list's.\<close>

theorem lru_refines:
  "\<exists>l rs. lru_run ops (NewSyncLRU n) = Some (l, rs)
     \<and> spec_run (unat n) ops [] = (lru_entries l, rs)
     \<and> length (lru_entries l) \<le> unat n
     \<and> fst ` set (lru_cache l) = fst ` set (lru_entries l)
     \<and> distinct (map fst (lru_entries l))"
proof -
  obtain l ns rs where r: "lru_run ops (NewSyncLRU n) = Some (l, rs)" and rep: "lru_rep l ns"
    and c: "lru_cap l = n" and s: "spec_run (unat n) ops [] = (lru_entries l, rs)"
    using lru_run_ok [OF NewSyncLRU_rep [of n], of ops] by (auto simp: NewSyncLRU_entries NewSyncLRU_cap)
  note e = rep_entries [OF rep_list [OF rep]]
  have "k \<in> fst ` set (lru_cache l) \<longleftrightarrow> k \<in> fst ` set (lru_entries l)" for k
    using rep_absent [OF rep, of k] unfolding map_of_eq_None_iff by blast
  moreover have "distinct (map fst (lru_entries l))" using rep_keys [OF rep] by (simp add: e comp_def)
  moreover have "length (lru_entries l) \<le> unat n" using rep_cap [OF rep] by (simp add: e c)
  ultimately show ?thesis using r s by blast
qed


section \<open>What the cache retains\<close>

text \<open>Every entry more recent than that of \<open>k\<close> has a key in \<open>T\<close>.\<close>

definition recent :: "'k \<Rightarrow> 'v \<Rightarrow> 'k set \<Rightarrow> ('k \<times> 'v) list \<Rightarrow> bool" where
  "recent k v T xs \<longleftrightarrow> (\<exists>as bs. xs = as @ (k, v) # bs \<and> fst ` set bs \<subseteq> T)
     \<and> distinct (map fst xs)"

lemma recentI:
  "xs = as @ (k, v) # bs \<Longrightarrow> fst ` set bs \<subseteq> T \<Longrightarrow> distinct (map fst xs) \<Longrightarrow> recent k v T xs"
  unfolding recent_def by blast

lemma recent_mono: "recent k v S xs \<Longrightarrow> S \<subseteq> T \<Longrightarrow> recent k v T xs"
  unfolding recent_def by blast

primrec op_key :: "('k, 'v) lru_op \<Rightarrow> 'k" where
  "op_key (Put k v) = k"
| "op_key (Get k) = k"

primrec puts :: "'k \<Rightarrow> ('k, 'v) lru_op \<Rightarrow> bool" where
  "puts j (Put k v) \<longleftrightarrow> j = k"
| "puts j (Get k) \<longleftrightarrow> False"

lemma touch_append: "touch j (xs @ ys) = touch j xs @ touch j ys"
  by (simp add: touch_def)

lemma touch_keys: "fst ` set (touch j xs) = fst ` set xs - {j}"
  by (auto simp: touch_def)

lemma touch_distinct: "distinct (map fst xs) \<Longrightarrow> distinct (map fst (touch j xs))"
  by (simp add: touch_def distinct_map_filter)

lemma recent_touch_other:
  assumes "recent k v T xs" and "j \<noteq> k" and "j \<in> T"
  shows "recent k v T (touch j xs @ [(j, w)])"
proof -
  obtain as bs where xs: "xs = as @ (k, v) # bs" "fst ` set bs \<subseteq> T" and d: "distinct (map fst xs)"
    using assms(1) unfolding recent_def by blast
  have "touch j xs @ [(j, w)] = touch j as @ (k, v) # (touch j bs @ [(j, w)])"
    using assms(2) xs(1) by (simp add: touch_append) (simp add: touch_def)
  moreover have "fst ` set (touch j bs @ [(j, w)]) \<subseteq> T"
    using xs(2) assms(3) touch_keys [of j bs] by auto
  moreover have "distinct (map fst (touch j xs @ [(j, w)]))"
    using touch_distinct [OF d, of j] touch_keys [of j xs] by (simp add: image_iff)
  ultimately show ?thesis unfolding recent_def by blast
qed

lemma recent_get:
  assumes "recent k v T xs" and "j \<noteq> k \<longrightarrow> j \<in> T"
  shows "recent k v T (fst (spec_get j xs))"
proof (cases "j = k")
  case True
  have "map_of xs k = Some v"
    using assms(1) unfolding recent_def by (auto intro: map_of_is_SomeI)
  moreover have "recent k v T (touch k xs @ [(k, v)])"
    by (rule recentI [of _ "touch k xs" k v "[]"])
       (use assms(1) touch_distinct [of xs k] touch_keys [of k xs] in \<open>auto simp: recent_def image_iff\<close>)
  ultimately show ?thesis using True by (simp add: spec_get_def)
next
  case False
  then show ?thesis using assms recent_touch_other [OF assms(1) False]
    by (simp add: spec_get_def split: option.split)
qed

lemma recent_put:
  assumes r: "recent k v T xs" and j: "j \<noteq> k" "j \<in> T" and T: "finite T" "k \<notin> T" "card T < cap"
  shows "recent k v T (spec_put cap j w xs)"
proof (cases "j \<in> fst ` set xs")
  case True
  then show ?thesis using recent_touch_other [OF r j] r by (simp add: spec_put_def)
next
  case False
  obtain as bs where xs: "xs = as @ (k, v) # bs" "fst ` set bs \<subseteq> T" and d: "distinct (map fst xs)"
    using r unfolding recent_def by blast
  have bs: "length bs < cap - 1"
  proof -
    have "length bs = card (fst ` set bs)" using d xs(1) distinct_card [of "map fst bs"] by simp
    also have "\<dots> \<le> card (T - {j})"
      using False xs T(1) by (intro card_mono) auto
    also have "\<dots> < cap - 1" using T(3) card_Diff_singleton [OF j(2)] card_gt_0_iff [of T] T(1) j(2) by auto
    finally show ?thesis .
  qed
  have "recent k v T (xs @ [(j, w)])"
    by (rule recentI [of _ as k v "bs @ [(j, w)]"]) (use xs d False j(2) in \<open>auto simp: image_iff\<close>)
  moreover have "recent k v T (tl xs @ [(j, w)])" if "cap \<le> length xs"
  proof -
    have "as \<noteq> []" using that bs xs(1) by (cases as) auto
    then obtain a as' where "as = a # as'" by (cases as) auto
    then show ?thesis
      by (intro recentI [of _ as' k v "bs @ [(j, w)]"]) (use xs d False j(2) in \<open>auto simp: image_iff\<close>)
  qed
  ultimately show ?thesis using False T(3) by (simp add: spec_put_def)
qed


lemma recent_run:
  assumes "recent k v T xs" and "finite T" "k \<notin> T" "card T < cap"
    and "op_key ` set ops \<subseteq> insert k T" and "\<not> list_ex (puts k) ops"
  shows "recent k v T (fst (spec_run cap ops xs))"
  using assms
proof (induction ops arbitrary: xs)
  case Nil
  then show ?case by simp
next
  case (Cons op ops)
  show ?case
  proof (cases op)
    case (Put j w)
    then show ?thesis using Cons.prems by (auto intro!: Cons.IH recent_put)
  next
    case (Get j)
    have "recent k v T (fst (spec_get j xs))" using Cons.prems Get by (auto intro: recent_get)
    then show ?thesis using Cons.IH [of "fst (spec_get j xs)"] Cons.prems Get
      by (auto simp: Let_def split: prod.splits)
  qed
qed

lemma spec_run_append:
  "spec_run cap (xs @ ys) s =
     (let (s', rs) = spec_run cap xs s; (s'', rs') = spec_run cap ys s' in (s'', rs @ rs'))"
proof (induction xs arbitrary: s)
  case Nil
  then show ?case by (simp split: prod.splits)
next
  case (Cons op xs)
  then show ?case by (cases op) (auto simp: Let_def split: prod.splits)
qed

lemma spec_run_distinct:
  "distinct (map fst xs) \<Longrightarrow> distinct (map fst (fst (spec_run cap ops xs)))"
proof (induction cap ops xs rule: spec_run.induct)
  case (2 cap k v ops xs)
  have "distinct (map fst (spec_put cap k v xs))"
    using 2(2) touch_distinct [of xs k] touch_keys [of k xs]
    by (cases xs) (auto simp: spec_put_def image_iff)
  then show ?case using 2 by simp
next
  case (3 cap k ops xs)
  have "distinct (map fst (fst (spec_get k xs)))"
    using 3(2) touch_distinct [of xs k] touch_keys [of k xs]
    by (auto simp: spec_get_def image_iff split: option.split)
  then show ?case using 3 by (auto simp: Let_def split: prod.splits)
qed simp

lemma recent_put_self:
  assumes "distinct (map fst xs)" and "cap \<noteq> 0"
  shows "recent k v {} (spec_put cap k v xs)"
proof -
  have "\<exists>ys. spec_put cap k v xs = ys @ [(k, v)] \<and> k \<notin> fst ` set ys \<and> distinct (map fst ys)"
    using assms touch_distinct [of xs k] touch_keys [of k xs]
    by (cases xs) (auto simp: spec_put_def)
  then show ?thesis by (auto intro: recentI)
qed

text \<open>Recency: a key that was put stays in a cache of capacity \<open>n\<close>, with that value, through any
  further operations that mention fewer than \<open>n\<close> other keys and do not put it again.\<close>

theorem lru_retains:
  assumes "card (op_key ` set later - {k}) < unat n" and "\<not> list_ex (puts k) later"
  shows "\<exists>l rs. lru_run (earlier @ Put k v # later @ [Get k]) (NewSyncLRU n) = Some (l, rs @ [(v, True)])"
proof -
  let ?T = "op_key ` set later - {k}" and ?c = "unat n"
  obtain xs rs where e: "spec_run ?c earlier [] = (xs, rs)" by force
  have d: "distinct (map fst xs)" using spec_run_distinct [of "[]" ?c earlier] e by simp
  have c: "?c \<noteq> 0" using assms(1) by simp
  have "recent k v ?T (spec_put ?c k v xs)"
    using recent_put_self [OF d c, of k v] by (rule recent_mono) simp
  then have r: "recent k v ?T (fst (spec_run ?c later (spec_put ?c k v xs)))"
    using assms by (intro recent_run) auto
  obtain ys rs' where y: "spec_run ?c later (spec_put ?c k v xs) = (ys, rs')" by force
  have "map_of ys k = Some v" using r y by (auto simp: recent_def intro: map_of_is_SomeI)
  then have "snd (spec_run ?c (earlier @ Put k v # later @ [Get k]) []) = (rs @ rs') @ [(v, True)]"
    by (simp add: spec_run_append e y spec_get_def)
  then show ?thesis
    using lru_run_ok [OF NewSyncLRU_rep [of n], of "earlier @ Put k v # later @ [Get k]"]
    by (fastforce simp: NewSyncLRU_entries NewSyncLRU_cap)
qed

lemma lru_retains_witness:
  "\<exists>l rs. lru_run ([Put 7 1] @ Put (5 :: int) (50 :: int) # [Put 6 60, Get 9, Get 6] @ [Get 5])
     (NewSyncLRU 3) = Some (l, rs @ [(50, True)])"
proof -
  have s: "op_key ` set [Put (6 :: int) (60 :: int), Get 9, Get 6] - {5} = {6, 9}" by auto
  show ?thesis by (rule lru_retains) (simp_all only: s, simp_all)
qed

end
