(* ===== verification/Token_Bucket.thy ===== *)
theory Token_Bucket
  imports Prelude "HOL-Library.Signed_Division"
begin

text \<open>
  \<^verbatim>\<open>TokenBucket\<close> of \<^verbatim>\<open>ratelimit/token_bucket.go\<close>. A \<^verbatim>\<open>time.Duration\<close> is a
  64-bit signed count of nanoseconds. A \<^verbatim>\<open>time.Time\<close> is the integer of nanoseconds it
  stands for; the clock is an argument of every operation that reads it. Each method holds
  \<^verbatim>\<open>mu\<close>, so it is one function of the state.
\<close>

section \<open>Durations\<close>

type_synonym duration = i64

definition time_Second :: duration where
  "time_Second = 1000000000"

text \<open>Go's division of signed integers truncates towards zero and wraps. The code never divides by
  the duration zero.\<close>

definition go_div :: "i64 \<Rightarrow> i64 \<Rightarrow> i64" where
  "go_div a b = word_of_int (sint a sdiv sint b)"

text \<open>\<^verbatim>\<open>time.Since\<close>, saturating at the largest and the smallest duration, and \<^verbatim>\<open>Time.Add\<close>.\<close>

definition time_Since :: "int \<Rightarrow> int \<Rightarrow> duration" where
  "time_Since now t = word_of_int (max (- (2 ^ 63)) (min (2 ^ 63 - 1) (now - t)))"

definition time_Add :: "int \<Rightarrow> duration \<Rightarrow> int" where
  "time_Add t d = t + sint d"

section \<open>The code\<close>

record TokenBucket =
  tb_capacity :: u64
  tb_interval :: duration
  tb_last :: int
  tb_tokens :: u64

definition NewTokenBucket :: "u64 \<Rightarrow> u64 \<Rightarrow> int \<Rightarrow> TokenBucket" where
  "NewTokenBucket capacity ratePerSec now =
     \<lparr>tb_capacity = capacity,
      tb_interval = (if 0 < ratePerSec then go_div time_Second ratePerSec else 0),
      tb_last = now, tb_tokens = capacity\<rparr>"

definition refillLocked :: "int \<Rightarrow> TokenBucket \<Rightarrow> TokenBucket" where
  "refillLocked now t =
     (if tb_interval t = 0 then t
      else
        let elapsed = time_Since now (tb_last t);
            added = go_div elapsed (tb_interval t)
        in t\<lparr>tb_tokens := min (tb_capacity t) (tb_tokens t + added),
             tb_last := time_Add (tb_last t) (added * tb_interval t)\<rparr>)"

definition AllowN :: "u64 \<Rightarrow> int \<Rightarrow> TokenBucket \<Rightarrow> TokenBucket \<times> bool" where
  "AllowN n now t =
     (if tb_capacity t < n then (t, False)
      else
        let t1 = refillLocked now t
        in if tb_tokens t1 < n then (t1, False)
           else (t1\<lparr>tb_tokens := tb_tokens t1 - n\<rparr>, True))"

definition Allow :: "int \<Rightarrow> TokenBucket \<Rightarrow> TokenBucket \<times> bool" where
  "Allow now t = AllowN 1 now t"

text \<open>
  \<^verbatim>\<open>WaitN\<close>: one round of its loop under \<^verbatim>\<open>mu\<close> either takes the tokens, or tells how long
  to sleep, or waits for the context only.
\<close>

datatype wait_round = Granted | SleepFor duration | UntilDone

definition WaitN_round :: "u64 \<Rightarrow> int \<Rightarrow> TokenBucket \<Rightarrow> TokenBucket \<times> wait_round" where
  "WaitN_round n now t =
     (let t1 = refillLocked now t
      in if n \<le> tb_tokens t1 then (t1\<lparr>tb_tokens := tb_tokens t1 - n\<rparr>, Granted)
         else if tb_interval t1 = 0 then (t1, UntilDone)
         else let needed = n - tb_tokens t1 in (t1, SleepFor (needed * tb_interval t1)))"

text \<open>
  The goroutines that share a bucket, and the clock. \<open>time.After(d)\<close> fires when the clock has
  passed \<open>d\<close> more nanoseconds; whether and when a context is done is up to its caller. The
  auxiliary \<open>tm_granted\<close> counts the tokens given out.
\<close>

datatype wait_error = ErrExceedsCapacity | CtxErr

datatype wait_pc =
    WIdle
  | WRound u64             \<comment> \<open>before \<open>t.mu.Lock()\<close> in the loop of \<open>WaitN\<close>\<close>
  | WAfter u64 duration    \<comment> \<open>before \<open>time.After(waitFor)\<close>\<close>
  | WSelect u64 int        \<comment> \<open>in \<open>select\<close>, with the time the timer fires\<close>
  | WCtx                   \<comment> \<open>in \<open><-ctx.Done()\<close>\<close>
  | WDone "wait_error option"

record bucket_sys =
  tm_bucket :: TokenBucket
  tm_clock :: int
  tm_pc :: "tid \<Rightarrow> wait_pc"
  tm_granted :: nat

definition bucket_init :: "u64 \<Rightarrow> u64 \<Rightarrow> int \<Rightarrow> bucket_sys" where
  "bucket_init capacity ratePerSec now =
     \<lparr>tm_bucket = NewTokenBucket capacity ratePerSec now, tm_clock = now, tm_pc = (\<lambda>_. WIdle), tm_granted = 0\<rparr>"

datatype bucket_act = Tick nat | CallAllowN u64 | CallWaitN tid u64 | WStep tid | CtxDone tid | WReturn tid

fun bucket_step :: "bucket_act \<Rightarrow> bucket_sys \<Rightarrow> bucket_sys option" where
  "bucket_step (Tick d) s = Some (s\<lparr>tm_clock := tm_clock s + int d\<rparr>)"
| "bucket_step (CallAllowN n) s =
     (case AllowN n (tm_clock s) (tm_bucket s) of
        (b, ok) \<Rightarrow> Some (s\<lparr>tm_bucket := b, tm_granted := tm_granted s + (if ok then unat n else 0)\<rparr>))"
| "bucket_step (CallWaitN t n) s =
     (if tm_pc s t = WIdle
      then Some (s\<lparr>tm_pc := (tm_pc s)(t :=
             if tb_capacity (tm_bucket s) < n then WDone (Some ErrExceedsCapacity) else WRound n)\<rparr>)
      else None)"
| "bucket_step (WStep t) s =
     (case tm_pc s t of
        WRound n \<Rightarrow>
          (case WaitN_round n (tm_clock s) (tm_bucket s) of
             (b, Granted) \<Rightarrow> Some (s\<lparr>tm_bucket := b, tm_granted := tm_granted s + unat n,
                                     tm_pc := (tm_pc s)(t := WDone None)\<rparr>)
           | (b, SleepFor d) \<Rightarrow> Some (s\<lparr>tm_bucket := b, tm_pc := (tm_pc s)(t := WAfter n d)\<rparr>)
           | (b, UntilDone) \<Rightarrow> Some (s\<lparr>tm_bucket := b, tm_pc := (tm_pc s)(t := WCtx)\<rparr>))
      | WAfter n d \<Rightarrow> Some (s\<lparr>tm_pc := (tm_pc s)(t := WSelect n (tm_clock s + sint d))\<rparr>)
      | WSelect n at \<Rightarrow>
          (if at \<le> tm_clock s then Some (s\<lparr>tm_pc := (tm_pc s)(t := WRound n)\<rparr>) else None)
      | _ \<Rightarrow> None)"
| "bucket_step (CtxDone t) s =
     (case tm_pc s t of
        WSelect n at \<Rightarrow> Some (s\<lparr>tm_pc := (tm_pc s)(t := WDone (Some CtxErr))\<rparr>)
      | WCtx \<Rightarrow> Some (s\<lparr>tm_pc := (tm_pc s)(t := WDone (Some CtxErr))\<rparr>)
      | _ \<Rightarrow> None)"
| "bucket_step (WReturn t) s =
     (case tm_pc s t of WDone r \<Rightarrow> Some (s\<lparr>tm_pc := (tm_pc s)(t := WIdle)\<rparr>) | _ \<Rightarrow> None)"

text \<open>\<^verbatim>\<open>Wait(ctx)\<close> is \<^verbatim>\<open>WaitN(ctx, 1)\<close>.\<close>

definition TokenBucket_Wait :: "tid \<Rightarrow> bucket_act" where
  "TokenBucket_Wait t = CallWaitN t 1"

section \<open>The refill\<close>

text \<open>How many whole intervals lie between \<open>c0\<close> and a time.\<close>

definition drips :: "TokenBucket \<Rightarrow> int \<Rightarrow> int \<Rightarrow> int" where
  "drips t c0 now = (now - c0) div sint (tb_interval t)"

text \<open>The bucket on the grid that starts at \<open>c0\<close>.\<close>

definition tb_ok :: "int \<Rightarrow> int \<Rightarrow> TokenBucket \<Rightarrow> bool" where
  "tb_ok c0 now t \<longleftrightarrow> 0 < sint (tb_interval t) \<and> tb_tokens t \<le> tb_capacity t
     \<and> c0 \<le> tb_last t \<and> tb_last t \<le> now \<and> sint (tb_interval t) dvd tb_last t - c0"

text \<open>What the bucket could give out now.\<close>

definition available :: "int \<Rightarrow> TokenBucket \<Rightarrow> int" where
  "available now t = min (uint (tb_capacity t))
     (uint (tb_tokens t) + (now - tb_last t) div sint (tb_interval t))"

text \<open>The whole intervals a refill counts: a duration holds no more than \<open>2 ^ 63 - 1\<close> nanoseconds.\<close>

definition refill_count :: "int \<Rightarrow> TokenBucket \<Rightarrow> int" where
  "refill_count now t = min (2 ^ 63 - 1) (now - tb_last t) div sint (tb_interval t)"

lemma refill_count_bounds:
  assumes "tb_ok c0 now t"
  shows "0 \<le> refill_count now t" and "refill_count now t * sint (tb_interval t) < 2 ^ 63"
    and "refill_count now t * sint (tb_interval t) \<le> now - tb_last t"
    and "refill_count now t < 2 ^ 63"
proof -
  let ?I = "sint (tb_interval t)" and ?m = "min (2 ^ 63 - 1) (now - tb_last t)"
  have I: "0 < ?I" and m: "0 \<le> ?m" using assms by (auto simp: tb_ok_def)
  show "0 \<le> refill_count now t" using I m by (simp add: refill_count_def pos_imp_zdiv_nonneg_iff)
  have "?m div ?I * ?I \<le> ?m"
    using div_mult_mod_eq [of ?m ?I] pos_mod_sign [OF I, of ?m] by linarith
  then show "refill_count now t * ?I < 2 ^ 63" "refill_count now t * ?I \<le> now - tb_last t"
    by (auto simp: refill_count_def)
  have "?m div ?I * 1 \<le> ?m div ?I * ?I"
    using I m by (intro mult_left_mono) (auto simp: pos_imp_zdiv_nonneg_iff)
  with \<open>?m div ?I * ?I \<le> ?m\<close> have "?m div ?I \<le> ?m" by linarith
  then show "refill_count now t < 2 ^ 63" by (simp add: refill_count_def)
qed

lemma sdiv_nonneg: "0 \<le> a \<Longrightarrow> 0 < b \<Longrightarrow> a sdiv b = a div (b :: int)"
  by (cases "a = 0") (simp_all add: signed_divide_int_def)

lemma refill_eq:
  assumes ok: "tb_ok c0 now t"
  shows "refillLocked now t =
     t\<lparr>tb_tokens := min (tb_capacity t) (tb_tokens t + word_of_int (refill_count now t)),
       tb_last := tb_last t + refill_count now t * sint (tb_interval t)\<rparr>"
proof -
  let ?I = "sint (tb_interval t)" and ?a = "refill_count now t"
  note b = refill_count_bounds [OF ok]
  have I: "0 < ?I" using ok by (simp add: tb_ok_def)
  have le: "tb_last t \<le> now" using ok by (simp add: tb_ok_def)
  then have s: "sint (time_Since now (tb_last t)) = min (2 ^ 63 - 1) (now - tb_last t)"
    unfolding time_Since_def by (subst sint_word_of_int_i64) auto
  have "go_div (time_Since now (tb_last t)) (tb_interval t) = word_of_int ?a"
    using I le by (simp add: go_div_def s refill_count_def sdiv_nonneg)
  moreover have "sint (word_of_int ?a * tb_interval t) = ?a * ?I"
  proof -
    have "word_of_int ?a * tb_interval t = word_of_int (?a * ?I)"
      by simp
    moreover have "sint (word_of_int (?a * ?I) :: i64) = ?a * ?I"
      using b I by (intro sint_word_of_int_i64) (auto intro: order_trans [OF _ mult_nonneg_nonneg])
    ultimately show ?thesis by simp
  qed
  moreover have "tb_interval t \<noteq> 0" using I by auto
  ultimately show ?thesis by (simp add: refillLocked_def time_Add_def)
qed

lemma uint_min: "uint (min x (y :: u64)) = min (uint x) (uint y)"
  by (simp add: min_def word_le_def)

lemma uint_refilled:
  assumes "tb_ok c0 now t"
  shows "uint (tb_tokens t + word_of_int (refill_count now t))
    = (uint (tb_tokens t) + refill_count now t) mod 2 ^ 64"
  using refill_count_bounds [OF assms]
  by (simp add: uint_word_ariths unsigned_of_int take_bit_eq_mod mod_simps)

lemma refill_ok:
  assumes "tb_ok c0 now t"
  shows "tb_ok c0 now (refillLocked now t)" and "tb_capacity (refillLocked now t) = tb_capacity t"
    and "tb_interval (refillLocked now t) = tb_interval t"
  using assms refill_count_bounds [OF assms] unfolding refill_eq [OF assms]
  by (auto simp: tb_ok_def dvd_add_right_iff diff_add_eq algebra_simps)

lemma available_refill_le:
  assumes "tb_ok c0 now t" and "now \<le> later"
  shows "available later (refillLocked now t) \<le> available later t"
proof -
  let ?I = "sint (tb_interval t)" and ?a = "refill_count now t"
  have I: "?I \<noteq> 0" using assms by (auto simp: tb_ok_def)
  have "(uint (tb_tokens t) + ?a) mod 2 ^ 64 \<le> uint (tb_tokens t) + ?a"
    using refill_count_bounds(1) [OF assms(1)] by (intro zmod_le_nonneg_dividend) simp
  moreover have "(later - (tb_last t + ?a * ?I)) div ?I = (later - tb_last t) div ?I - ?a"
  proof -
    have "(later - tb_last t + (- ?a) * ?I) div ?I = - ?a + (later - tb_last t) div ?I"
      using I by (rule div_mult_self1)
    then show ?thesis by (simp add: algebra_simps)
  qed
  ultimately show ?thesis
    unfolding refill_eq [OF assms(1)] by (simp add: available_def uint_min uint_refilled [OF assms(1)])
qed

lemma tokens_le_available:
  assumes "tb_ok c0 now t"
  shows "uint (tb_tokens t) \<le> available now t"
  using assms by (simp add: available_def tb_ok_def word_le_def pos_imp_zdiv_nonneg_iff)

text \<open>Less than \<open>2 ^ 63\<close> nanoseconds after the last refill, no interval is left behind; and if the
  sum cannot overflow, everything available is in the bucket.\<close>

lemma refill_fresh:
  assumes ok: "tb_ok c0 now t" and now: "now - tb_last t < 2 ^ 63"
  shows "now - tb_last (refillLocked now t) < sint (tb_interval t)"
proof -
  have "now - tb_last (refillLocked now t) = (now - tb_last t) mod sint (tb_interval t)"
    using now unfolding refill_eq [OF ok]
    by (simp add: refill_count_def minus_div_mult_eq_mod diff_diff_eq [symmetric])
  then show ?thesis using ok by (simp add: tb_ok_def)
qed

lemma refill_exact:
  assumes ok: "tb_ok c0 now t" and cap: "uint (tb_capacity t) < 2 ^ 63" and now: "now - tb_last t < 2 ^ 63"
  shows "uint (tb_tokens (refillLocked now t)) = available now t"
    and "available now (refillLocked now t) = available now t"
proof -
  let ?I = "sint (tb_interval t)" and ?a = "refill_count now t"
  note b = refill_count_bounds [OF ok]
  have tc: "uint (tb_tokens t) \<le> uint (tb_capacity t)" using ok by (auto simp: tb_ok_def word_le_def)
  have a: "?a = (now - tb_last t) div ?I" using now by (simp add: refill_count_def)
  have "uint (tb_tokens t) + ?a < 2 ^ 64" using b(4) tc cap by simp
  then have m: "(uint (tb_tokens t) + ?a) mod 2 ^ 64 = uint (tb_tokens t) + ?a"
    using b(1) by (simp add: mod_pos_pos_trivial)
  show t: "uint (tb_tokens (refillLocked now t)) = available now t"
    unfolding refill_eq [OF ok] using uint_refilled [OF ok] m by (simp add: available_def uint_min a)
  have "available now (refillLocked now t) = min (uint (tb_capacity t)) (available now t)"
    using refill_fresh [OF ok now] refill_ok [OF ok] t by (simp add: available_def tb_ok_def)
  then show "available now (refillLocked now t) = available now t" by (simp add: available_def)
qed

section \<open>The admission bound\<close>

text \<open>Against the grid of intervals since \<open>c0\<close>, what a bucket could give out rises by at most the
  intervals that pass.\<close>

lemma tb_ok_later: "tb_ok c0 now t \<Longrightarrow> now \<le> later \<Longrightarrow> tb_ok c0 later t"
  by (auto simp: tb_ok_def)

lemma available_later:
  assumes "tb_ok c0 now t" and "now \<le> later"
  shows "available later t - drips t c0 later \<le> available now t - drips t c0 now"
proof -
  let ?I = "sint (tb_interval t)"
  obtain m where m: "tb_last t - c0 = ?I * m" using assms(1) by (auto simp: tb_ok_def dvd_def)
  have I: "?I \<noteq> 0" using assms(1) by (auto simp: tb_ok_def)
  have d: "(x - c0) div ?I = (x - tb_last t) div ?I + m" for x
  proof -
    have "x - c0 = (x - tb_last t) + m * ?I" using m by (simp add: algebra_simps)
    then show ?thesis using div_mult_self1 [OF I, of "x - tb_last t" m] by (simp only: add.commute)
  qed
  have "(now - tb_last t) div ?I \<le> (later - tb_last t) div ?I"
    using assms by (intro zdiv_mono1) (auto simp: tb_ok_def)
  then show ?thesis by (simp add: available_def drips_def d)
qed

lemma available_spend:
  assumes "n \<le> tb_tokens t" and "tb_ok c0 now t"
  shows "tb_ok c0 now (t\<lparr>tb_tokens := tb_tokens t - n\<rparr>)"
    and "now - tb_last t < sint (tb_interval t) \<Longrightarrow>
      available now (t\<lparr>tb_tokens := tb_tokens t - n\<rparr>) = available now t - uint n"
proof -
  have u: "uint (tb_tokens t - n) = uint (tb_tokens t) - uint n"
    using assms(1) by (simp add: uint_minus_simple_alt word_le_def)
  have le: "uint (tb_tokens t) \<le> uint (tb_capacity t)" using assms(2) by (simp add: tb_ok_def word_le_def)
  moreover have "0 \<le> uint n" by simp
  ultimately have c: "uint (tb_tokens t) - uint n \<le> uint (tb_capacity t)" by linarith
  show "tb_ok c0 now (t\<lparr>tb_tokens := tb_tokens t - n\<rparr>)"
    using assms(2) u c by (simp add: tb_ok_def word_le_def)
  show "available now (t\<lparr>tb_tokens := tb_tokens t - n\<rparr>) = available now t - uint n"
    if "now - tb_last t < sint (tb_interval t)"
    using that u c le assms(2) by (simp add: available_def tb_ok_def)
qed

text \<open>Taking tokens after a refill: both \<^verbatim>\<open>AllowN\<close> and a round of \<^verbatim>\<open>WaitN\<close> do it.\<close>

definition take_tokens :: "u64 \<Rightarrow> TokenBucket \<Rightarrow> TokenBucket" where
  "take_tokens n t = t\<lparr>tb_tokens := tb_tokens t - n\<rparr>"

lemma AllowN_eq:
  "AllowN n now t =
     (if tb_capacity t < n then (t, False)
      else if n \<le> tb_tokens (refillLocked now t) then (take_tokens n (refillLocked now t), True)
      else (refillLocked now t, False))"
  by (auto simp: AllowN_def take_tokens_def Let_def)

lemma WaitN_round_eq:
  "WaitN_round n now t =
     (if n \<le> tb_tokens (refillLocked now t) then (take_tokens n (refillLocked now t), Granted)
      else (refillLocked now t,
        if tb_interval (refillLocked now t) = 0 then UntilDone
        else SleepFor ((n - tb_tokens (refillLocked now t)) * tb_interval (refillLocked now t))))"
  by (simp add: WaitN_round_def take_tokens_def Let_def)

text \<open>What a step may do to the bucket: keep it on the grid, and pay for every token given out.\<close>

definition paid :: "int \<Rightarrow> bucket_sys \<Rightarrow> int" where
  "paid c0 s = int (tm_granted s) + available (tm_clock s) (tm_bucket s) - drips (tm_bucket s) c0 (tm_clock s)"

definition bucket_kept :: "int \<Rightarrow> bucket_sys \<Rightarrow> bucket_sys \<Rightarrow> bool" where
  "bucket_kept c0 s s' \<longleftrightarrow> tb_ok c0 (tm_clock s') (tm_bucket s')
     \<and> tb_capacity (tm_bucket s') = tb_capacity (tm_bucket s)
     \<and> tb_interval (tm_bucket s') = tb_interval (tm_bucket s)
     \<and> tm_clock s \<le> tm_clock s'
     \<and> (tm_clock s' - c0 < 2 ^ 63 \<longrightarrow> paid c0 s' \<le> paid c0 s)"

lemma kept_refl:
  assumes "tb_ok c0 (tm_clock s) (tm_bucket s)" and "tm_bucket s' = tm_bucket s"
    and "tm_clock s' = tm_clock s" and "tm_granted s' = tm_granted s"
  shows "bucket_kept c0 s s'"
  using assms by (simp add: bucket_kept_def paid_def)

lemma kept_tick:
  assumes ok: "tb_ok c0 (tm_clock s) (tm_bucket s)"
  shows "bucket_kept c0 s (s\<lparr>tm_clock := tm_clock s + int d\<rparr>)"
  using tb_ok_later [OF ok] available_later [OF ok, of "tm_clock s + int d"]
  by (simp add: bucket_kept_def paid_def)

lemma kept_refill:
  assumes ok: "tb_ok c0 (tm_clock s) (tm_bucket s)"
    and "tm_bucket s' = refillLocked (tm_clock s) (tm_bucket s)"
    and "tm_clock s' = tm_clock s" and "tm_granted s' = tm_granted s"
  shows "bucket_kept c0 s s'"
  using assms(2-4) refill_ok [OF ok] available_refill_le [OF ok order_refl]
  by (simp add: bucket_kept_def paid_def drips_def)

lemma kept_take:
  assumes ok: "tb_ok c0 (tm_clock s) (tm_bucket s)"
    and n: "n \<le> tb_tokens (refillLocked (tm_clock s) (tm_bucket s))"
    and s': "tm_bucket s' = take_tokens n (refillLocked (tm_clock s) (tm_bucket s))"
      "tm_clock s' = tm_clock s" "tm_granted s' = tm_granted s + unat n"
  shows "bucket_kept c0 s s'"
proof -
  let ?r = "refillLocked (tm_clock s) (tm_bucket s)"
  note r = refill_ok [OF ok] and a = available_refill_le [OF ok order_refl]
  note sp = available_spend [OF n r(1), folded take_tokens_def]
  have "paid c0 s' \<le> paid c0 s" if "tm_clock s' - c0 < 2 ^ 63"
  proof -
    have "tm_clock s - tb_last (tm_bucket s) < 2 ^ 63" using that s'(2) ok by (simp add: tb_ok_def)
    then have "available (tm_clock s) (take_tokens n ?r) = available (tm_clock s) ?r - uint n"
      using sp(2) refill_fresh [OF ok] r(3) by simp
    then show ?thesis using s' a r(3) by (simp add: paid_def drips_def take_tokens_def)
  qed
  then show ?thesis using sp(1) r s' by (simp add: bucket_kept_def take_tokens_def)
qed

lemma kept_trans: "bucket_kept c0 s t \<Longrightarrow> bucket_kept c0 t u \<Longrightarrow> bucket_kept c0 s u"
  by (auto simp: bucket_kept_def)

lemma kept_step:
  assumes ok: "tb_ok c0 (tm_clock s) (tm_bucket s)" and st: "bucket_step a s = Some s'"
  shows "bucket_kept c0 s s'"
proof (cases a)
  case (Tick d)
  then show ?thesis using st kept_tick [OF ok, of d] by auto
next
  case (CallAllowN n)
  then show ?thesis using st ok
    by (auto simp: AllowN_eq split: if_splits intro: kept_take kept_refill kept_refl)
next
  case (WStep t)
  then show ?thesis using st ok
    by (auto simp: WaitN_round_eq split: if_splits wait_pc.splits intro: kept_take kept_refill kept_refl)
qed (use st ok in \<open>auto split: if_splits wait_pc.splits intro: kept_refl\<close>)

lemma kept_run:
  "run bucket_step as s = Some s' \<Longrightarrow> tb_ok c0 (tm_clock s) (tm_bucket s) \<Longrightarrow> bucket_kept c0 s s'"
proof (induction as arbitrary: s)
  case Nil
  then show ?case by (simp add: kept_refl)
next
  case (Cons a as)
  then obtain t where t: "bucket_step a s = Some t" "run bucket_step as t = Some s'"
    by (auto split: option.splits)
  have k: "bucket_kept c0 s t" using kept_step [OF Cons.prems(2) t(1)] .
  then have "bucket_kept c0 t s'" using Cons.IH [OF t(2)] by (simp add: bucket_kept_def)
  with k show ?case by (rule kept_trans)
qed

text \<open>The bucket of a rate of at least one per second and at most one per nanosecond.\<close>

lemma interval_of_rate:
  assumes "0 < uint rate" and "uint rate \<le> 10 ^ 9"
  shows "sint (tb_interval (NewTokenBucket capacity rate now)) = 10 ^ 9 div uint rate"
    and "0 < 10 ^ 9 div uint rate"
proof -
  have s: "sint rate = uint rate" using assms
    by (simp add: sint_uint signed_take_bit_int_eq_self)
  show pos: "0 < 10 ^ 9 div uint rate" using assms by (simp add: pos_imp_zdiv_pos_iff)
  have "10 ^ 9 div uint rate \<le> 10 ^ 9"
  proof -
    have "10 ^ 9 div uint rate \<le> 10 ^ 9 div 1" using assms by (intro zdiv_mono2) auto
    then show ?thesis by simp
  qed
  then have "sint (word_of_int (10 ^ 9 div uint rate) :: i64) = 10 ^ 9 div uint rate"
    using pos by (intro sint_word_of_int_i64) auto
  moreover have "0 < rate" using assms(1) by (simp add: word_less_def)
  moreover have "sint time_Second = 10 ^ 9" by (simp add: time_Second_def)
  ultimately show "sint (tb_interval (NewTokenBucket capacity rate now)) = 10 ^ 9 div uint rate"
    using assms s by (simp add: NewTokenBucket_def go_div_def sdiv_nonneg)
qed

lemma init_ok:
  assumes "0 < uint rate" and "uint rate \<le> 10 ^ 9"
  shows "tb_ok now now (NewTokenBucket capacity rate now)"
  using interval_of_rate(1) [OF assms, where capacity = capacity and now = now] interval_of_rate(2) [OF assms]
  by (simp add: tb_ok_def) (simp add: NewTokenBucket_def)

lemma run_kept:
  assumes "0 < uint rate" and "uint rate \<le> 10 ^ 9"
    and "run bucket_step as (bucket_init capacity rate c0) = Some s"
  shows "bucket_kept c0 (bucket_init capacity rate c0) s" and "tb_ok c0 (tm_clock s) (tm_bucket s)"
    and "tb_capacity (tm_bucket s) = capacity"
    and "sint (tb_interval (tm_bucket s)) = 10 ^ 9 div uint rate"
proof -
  have ok: "tb_ok c0 (tm_clock (bucket_init capacity rate c0)) (tm_bucket (bucket_init capacity rate c0))"
    using init_ok [OF assms(1,2)] by (simp add: bucket_init_def)
  show k: "bucket_kept c0 (bucket_init capacity rate c0) s" using kept_run [OF assms(3) ok] .
  then show "tb_ok c0 (tm_clock s) (tm_bucket s)" by (simp add: bucket_kept_def)
  show "tb_capacity (tm_bucket s) = capacity" using k by (simp add: bucket_kept_def bucket_init_def NewTokenBucket_def)
  show "sint (tb_interval (tm_bucket s)) = 10 ^ 9 div uint rate"
    using k interval_of_rate [OF assms(1,2)] by (simp add: bucket_kept_def bucket_init_def)
qed

lemma available_bounds:
  assumes "tb_ok c0 now t"
  shows "0 \<le> available now t" and "available now t \<le> uint (tb_capacity t)"
  using order_trans [OF _ tokens_le_available [OF assms], of 0] by (simp_all add: available_def)

text \<open>C11: The rate limit: whatever \<^verbatim>\<open>AllowN\<close> and \<^verbatim>\<open>WaitN\<close> calls any goroutines make, and
  however they interleave with each other and the clock, between any two moments of a run of less
  than \<open>2 ^ 63\<close> nanoseconds a bucket gives out at most its capacity and one token for each
  whole interval that ends between them. This holds for every capacity, also where
  \<^verbatim>\<open>tokens+added\<close> overflows.\<close>

theorem token_bucket_admission:
  assumes "0 < uint rate" and "uint rate \<le> 10 ^ 9"
    and "run bucket_step as (bucket_init capacity rate c0) = Some s" and "run bucket_step bs s = Some s'"
    and "tm_clock s' - c0 < 2 ^ 63"
  shows "int (tm_granted s') - int (tm_granted s) \<le> uint capacity
     + ((tm_clock s' - c0) div (10 ^ 9 div uint rate) - (tm_clock s - c0) div (10 ^ 9 div uint rate))"
proof -
  note r = run_kept [OF assms(1-3)]
  have k: "bucket_kept c0 s s'" by (rule kept_run [OF assms(4) r(2)])
  then have "paid c0 s' \<le> paid c0 s" and ok': "tb_ok c0 (tm_clock s') (tm_bucket s')"
    and "tb_interval (tm_bucket s') = tb_interval (tm_bucket s)"
    using assms(5) by (simp_all add: bucket_kept_def)
  then show ?thesis
    using available_bounds(1) [OF ok'] available_bounds(2) [OF r(2)] r(3,4)
    by (simp add: paid_def drips_def)
qed

lemma token_bucket_admission_witness:
  "int 5 - int 3 \<le> uint (3 :: u64) + ((2100000000 - 0) div (10 ^ 9 div uint (1 :: u64))
     - (0 - 0) div (10 ^ 9 div uint (1 :: u64)))"
proof -
  let ?as = "[CallAllowN 3, CallAllowN 1, CallWaitN 4 2, WStep 4, WStep 4]"
  let ?bs = "[Tick 2100000000, WStep 4, WStep 4, WReturn 4]"
  obtain s where s: "run bucket_step ?as (bucket_init 3 1 0) = Some s"
    and "run bucket_step ?bs s \<noteq> None" "tm_clock s = 0" "tm_granted s = 3"
    and g: "map_option tm_granted (run bucket_step ?bs s) = Some 5"
      "map_option tm_clock (run bucket_step ?bs s) = Some 2100000000"
    by (simp add: bucket_init_def NewTokenBucket_def AllowN_def WaitN_round_def refillLocked_def
        time_Since_def time_Add_def go_div_def time_Second_def Let_def signed_divide_int_def)
  then obtain s' where s': "run bucket_step ?bs s = Some s'" by auto
  show ?thesis
    using token_bucket_admission [OF _ _ s s'] \<open>tm_clock s = 0\<close> \<open>tm_granted s = 3\<close> g s' by simp
qed

section \<open>The lazy bucket is the eager bucket\<close>

text \<open>
  The reference: a bucket that really gains a token at every multiple of the interval after \<open>c0\<close>,
  unless it is full, nanosecond by nanosecond.
\<close>

primrec eager_wait :: "nat \<Rightarrow> int \<Rightarrow> int \<Rightarrow> int \<Rightarrow> int \<Rightarrow> int" where
  "eager_wait 0 since I cap level = level"
| "eager_wait (Suc d) since I cap level =
     (let level' = eager_wait d since I cap level
      in if (since + int d + 1) mod I = 0 then min cap (level' + 1) else level')"

text \<open>Calls of \<^verbatim>\<open>AllowN\<close>, each after a pause, on both buckets.\<close>

fun lazy_calls :: "(nat \<times> u64) list \<Rightarrow> int \<Rightarrow> TokenBucket \<Rightarrow> bool list" where
  "lazy_calls [] now t = []"
| "lazy_calls ((d, n) # calls) now t =
     (case AllowN n (now + int d) t of (t', ok) \<Rightarrow> ok # lazy_calls calls (now + int d) t')"

fun eager_calls :: "(nat \<times> u64) list \<Rightarrow> int \<Rightarrow> int \<Rightarrow> int \<Rightarrow> int \<Rightarrow> bool list" where
  "eager_calls [] since I cap level = []"
| "eager_calls ((d, n) # calls) since I cap level =
     (let level' = eager_wait d since I cap level; ok = (uint n \<le> level')
      in ok # eager_calls calls (since + int d) I cap (if ok then level' - uint n else level'))"

lemma div_Suc_grid:
  assumes "0 < (I :: int)"
  shows "(x + 1) div I = x div I + (if (x + 1) mod I = 0 then 1 else 0)"
proof (cases "(x + 1) mod I = 0")
  case True
  then obtain k where k: "x + 1 = I * k" by (auto simp: mod_eq_0_iff_dvd dvd_def)
  have "x div I = k - 1" using k assms by (intro int_div_pos_eq [where r = "I - 1"]) (auto simp: algebra_simps)
  then show ?thesis using k assms by simp
next
  case False
  have m: "0 < (x + 1) mod I" "(x + 1) mod I < I"
    using assms False pos_mod_sign [OF assms, of "x + 1"] pos_mod_bound [OF assms] by (simp_all add: order_less_le)
  have "x = I * ((x + 1) div I) + ((x + 1) mod I - 1)"
    using mult_div_mod_eq [of I "x + 1"] by linarith
  from int_div_pos_eq [OF this] have "x div I = (x + 1) div I" using m by simp
  then show ?thesis using False by simp
qed

lemma eager_wait_eq:
  assumes "0 < I" and "level \<le> cap"
  shows "eager_wait d since I cap level = min cap (level + ((since + int d) div I - since div I))"
proof (induction d)
  case (Suc d)
  have s: "since + int (Suc d) = since + int d + 1" by simp
  have "min cap (min cap x + 1) = min cap (x + 1)" for x by auto
  then show ?case
    using Suc div_Suc_grid [OF assms(1), of "since + int d"] unfolding s
    by (simp add: Let_def add.assoc diff_add_eq)
qed (use assms in simp)

text \<open>Waiting raises what the lazy bucket could give out as it raises the eager level.\<close>

lemma available_wait:
  assumes ok: "tb_ok c0 now t"
  shows "available (now + int d) t
    = eager_wait d (now - c0) (sint (tb_interval t)) (uint (tb_capacity t)) (available now t)"
proof -
  let ?I = "sint (tb_interval t)"
  have I: "0 < ?I" using ok by (simp add: tb_ok_def)
  obtain m where m: "tb_last t - c0 = ?I * m" using ok by (auto simp: tb_ok_def dvd_def)
  have d: "(x - c0) div ?I = (x - tb_last t) div ?I + m" for x
  proof -
    have "x - c0 = (x - tb_last t) + m * ?I" using m by (simp add: algebra_simps)
    then show ?thesis using I div_mult_self1 [of ?I "x - tb_last t" m] by (simp only: add.commute)
  qed
  have "(now - tb_last t) div ?I \<le> (now + int d - tb_last t) div ?I"
    using I by (intro zdiv_mono1) auto
  then show ?thesis
    using eager_wait_eq [OF I available_bounds(2) [OF ok], of d "now - c0"]
      d [of now] d [of "now + int d"]
    by (simp add: available_def diff_add_eq)
qed

lemma lazy_is_eager:
  assumes "tb_ok c0 now t" and "uint (tb_capacity t) < 2 ^ 63"
    and "now + int (sum_list (map fst calls)) - c0 < 2 ^ 63"
  shows "lazy_calls calls now t
    = eager_calls calls (now - c0) (sint (tb_interval t)) (uint (tb_capacity t)) (available now t)"
  using assms
proof (induction calls arbitrary: now t)
  case (Cons c calls)
  obtain d n where c: "c = (d, n)" by force
  let ?now = "now + int d" and ?r = "refillLocked (now + int d) t"
  have ok: "tb_ok c0 ?now t" using tb_ok_later [OF Cons.prems(1)] by simp
  have fresh: "?now - tb_last t < 2 ^ 63" using Cons.prems(1,3) c by (simp add: tb_ok_def)
  note ex = refill_exact [OF ok Cons.prems(2) fresh] and r = refill_ok [OF ok]
  have w: "available ?now t = eager_wait d (now - c0) (sint (tb_interval t)) (uint (tb_capacity t)) (available now t)"
    by (rule available_wait [OF Cons.prems(1)])
  have lim: "?now + int (sum_list (map fst calls)) - c0 < 2 ^ 63" using Cons.prems(3) c by simp
  have keep: "lazy_calls calls ?now ?r = eager_calls calls (?now - c0) (sint (tb_interval t))
      (uint (tb_capacity t)) (available ?now t)"
    using Cons.IH [OF r(1)] r(2,3) Cons.prems(2) lim ex(2) by simp
  have stop: "lazy_calls calls ?now t = eager_calls calls (?now - c0) (sint (tb_interval t))
      (uint (tb_capacity t)) (available ?now t)"
    using Cons.IH [OF ok] Cons.prems(2) lim by simp
  have le: "n \<le> tb_tokens ?r \<longleftrightarrow> uint n \<le> available ?now t" using ex(1) by (simp add: word_le_def)
  have spend: "lazy_calls calls ?now (take_tokens n ?r) = eager_calls calls (?now - c0) (sint (tb_interval t))
      (uint (tb_capacity t)) (available ?now t - uint n)" if "n \<le> tb_tokens ?r"
    using Cons.IH [of ?now "take_tokens n ?r"] available_spend [OF that r(1), folded take_tokens_def]
      refill_fresh [OF ok fresh] r(2,3) Cons.prems(2) lim ex(2) by (simp add: take_tokens_def)
  have cap: "\<not> uint n \<le> available ?now t" if "tb_capacity t < n"
    using that available_bounds(2) [OF ok] by (simp add: word_less_def)
  have since: "now - c0 + int d = ?now - c0" by simp
  show ?case
    using keep stop spend le cap
    by (simp add: c AllowN_eq Let_def w [symmetric] since del: eager_wait.simps)
qed simp

text \<open>C32: The lazy refill is exact: \<^verbatim>\<open>AllowN\<close>, which brings the bucket up to date only when it
  is called, answers every sequence of calls exactly as the reference bucket that gains its
  tokens one by one as time passes, for capacities below \<open>2 ^ 63\<close> and runs below \<open>2 ^ 63\<close>
  nanoseconds. How often a bucket is polled does not matter.\<close>

theorem token_bucket_lazy_is_eager:
  assumes "0 < uint rate" and "uint rate \<le> 10 ^ 9" and "uint capacity < 2 ^ 63"
    and "sum_list (map fst calls) < 2 ^ 63"
  shows "lazy_calls calls c0 (NewTokenBucket capacity rate c0)
    = eager_calls calls 0 (10 ^ 9 div uint rate) (uint capacity) (uint capacity)"
proof -
  let ?t = "NewTokenBucket capacity rate c0"
  note ok = init_ok [OF assms(1,2), of c0 capacity]
  have cap: "tb_capacity ?t = capacity" "tb_tokens ?t = capacity" "tb_last ?t = c0"
    by (simp_all add: NewTokenBucket_def)
  have "int (sum_list (map fst calls)) < 2 ^ 63" using assms(4) by (simp flip: of_nat_less_iff)
  then show ?thesis
    using lazy_is_eager [OF ok, of calls] assms(3) interval_of_rate(1) [OF assms(1,2)] cap
    by (simp add: available_def)
qed

lemma token_bucket_lazy_is_eager_witness:
  "lazy_calls [(5, 2), (0, 1), (333333328, 1), (1, 1), (333333332, 1)] 77 (NewTokenBucket 2 3 77)
     = eager_calls [(5, 2), (0, 1), (333333328, 1), (1, 1), (333333332, 1)] 0 333333333 2 2"
proof -
  have "(10 :: int) ^ 9 div uint (3 :: u64) = 333333333" by simp
  then show ?thesis
    using token_bucket_lazy_is_eager [of 3 2 "[(5, 2), (0, 1), (333333328, 1), (1, 1), (333333332, 1)]" 77]
    by simp
qed

section \<open>Waiting\<close>

text \<open>Goroutines in \<^verbatim>\<open>WaitN\<close> ask for no more than the capacity.\<close>

fun wait_pc_small :: "u64 \<Rightarrow> wait_pc \<Rightarrow> bool" where
  "wait_pc_small cap (WRound n) \<longleftrightarrow> n \<le> cap"
| "wait_pc_small cap (WAfter n d) \<longleftrightarrow> n \<le> cap"
| "wait_pc_small cap (WSelect n w) \<longleftrightarrow> n \<le> cap"
| "wait_pc_small cap _ \<longleftrightarrow> True"

definition wait_small :: "bucket_sys \<Rightarrow> bool" where
  "wait_small s \<longleftrightarrow> (\<forall>t. wait_pc_small (tb_capacity (tm_bucket s)) (tm_pc s t))"

lemma wait_smallD: "wait_small s \<Longrightarrow> wait_pc_small (tb_capacity (tm_bucket s)) (tm_pc s t)"
  by (simp add: wait_small_def)

lemma wait_small_goto:
  "wait_small s \<Longrightarrow> tb_capacity (tm_bucket s') = tb_capacity (tm_bucket s) \<Longrightarrow>
     tm_pc s' = (tm_pc s)(t := p) \<Longrightarrow> wait_pc_small (tb_capacity (tm_bucket s)) p \<Longrightarrow> wait_small s'"
  by (simp add: wait_small_def)

lemma refill_capacity [simp]: "tb_capacity (refillLocked now t) = tb_capacity t"
  by (simp add: refillLocked_def Let_def)

lemma take_capacity [simp]: "tb_capacity (take_tokens n t) = tb_capacity t"
  by (simp add: take_tokens_def)

lemma wait_small_step:
  assumes "wait_small s" and "bucket_step a s = Some s'"
  shows "wait_small s'"
proof (cases a)
  case (WStep t)
  then show ?thesis using assms(2) wait_smallD [OF assms(1), of t]
    by (auto simp: WaitN_round_eq split: if_splits wait_pc.splits intro!: wait_small_goto [OF assms(1)])
qed (use assms in \<open>auto simp: wait_small_def AllowN_eq not_less split: if_splits wait_pc.splits\<close>)

interpretation bucket: machine "\<lambda>s. s = bucket_init capacity rate c0" bucket_step wait_small
  by unfold_locales (simp add: bucket_init_def wait_small_def, rule wait_small_step)

text \<open>How long a waiter sleeps: the intervals of the tokens it lacks, and after them it has the tokens.\<close>

lemma sleep_length:
  fixes n tokens :: u64 and interval :: i64
  assumes "\<not> n \<le> tokens" and "sint interval = I" and "0 < I" and "uint n * I < 2 ^ 63"
  shows "sint ((n - tokens) * interval) = (uint n - uint tokens) * I"
    and "0 \<le> (uint n - uint tokens) * I" and "(uint n - uint tokens) * I \<le> uint n * I"
proof -
  let ?need = "uint n - uint tokens"
  have need: "0 \<le> ?need" "?need \<le> uint n" using assms(1) by (simp_all add: word_le_def)
  have "tokens \<le> n" using assms(1) by simp
  then have "uint (n - tokens) = ?need" by (simp add: uint_minus_simple_alt)
  then have "n - tokens = word_of_int ?need" by (metis word_of_int_uint)
  moreover have "interval = word_of_int I" unfolding assms(2) [symmetric] by simp
  ultimately have eq: "(n - tokens) * interval = word_of_int (?need * I)" by simp
  show le: "?need * I \<le> uint n * I" using need assms(3) by (intro mult_right_mono) auto
  show pos: "0 \<le> ?need * I" using need assms(3) by simp
  show "sint ((n - tokens) * interval) = ?need * I"
    unfolding eq by (rule sint_word_of_int_i64) (use le pos assms(4) in linarith)+
qed

lemma slept_enough:
  assumes ok: "tb_ok c0 c b" and cap: "uint (tb_capacity b) < 2 ^ 63" and n: "uint n \<le> uint (tb_capacity b)"
    and d: "(uint n - uint (tb_tokens b)) * sint (tb_interval b) \<le> int d" and lim: "c + int d - c0 < 2 ^ 63"
  shows "n \<le> tb_tokens (refillLocked (c + int d) b)"
proof -
  let ?need = "uint n - uint (tb_tokens b)" and ?I = "sint (tb_interval b)"
  have I: "0 < ?I" using ok by (simp add: tb_ok_def)
  have later: "tb_ok c0 (c + int d) b" using tb_ok_later [OF ok] by simp
  have fresh: "c + int d - tb_last b < 2 ^ 63" using lim ok by (simp add: tb_ok_def)
  have "?need = ?need * ?I div ?I" using I by simp
  also have "\<dots> \<le> (c + int d - tb_last b) div ?I"
    using d ok I by (intro zdiv_mono1) (auto simp: tb_ok_def)
  finally have "uint n \<le> available (c + int d) b" using n by (simp add: available_def)
  then show ?thesis using refill_exact(1) [OF later cap fresh] by (simp add: word_le_def)
qed



section \<open>Where the numbers overflow\<close>

text \<open>A rate above one per nanosecond makes the interval zero: the bucket is never refilled.\<close>

theorem token_bucket_fast_rate_starves:
  assumes "10 ^ 9 < uint rate" and "uint rate < 2 ^ 63"
  shows "refillLocked later (NewTokenBucket capacity rate now) = NewTokenBucket capacity rate now"
proof -
  have s: "sint rate = uint rate" using assms
    by (simp add: sint_uint signed_take_bit_int_eq_self)
  have "go_div time_Second rate = 0"
    using assms by (simp add: go_div_def s time_Second_def signed_divide_int_def)
  then show ?thesis by (simp add: refillLocked_def NewTokenBucket_def)
qed

text \<open>With the largest capacity one token taken from a full bucket empties it a second later: the sum
  of the tokens and the added ones overflows.\<close>

lemma token_bucket_overflow_empties:
  "let t = NewTokenBucket (2 ^ 64 - 1) 1 0; (t1, ok1) = AllowN 1 1 t; (t2, ok2) = AllowN 1 2000000000 t1
   in ok1 \<and> tb_tokens t1 = 2 ^ 64 - 2 \<and> \<not> ok2 \<and> tb_tokens t2 = 0"
  by (simp add: NewTokenBucket_def AllowN_def refillLocked_def time_Since_def time_Add_def go_div_def
      time_Second_def Let_def signed_divide_int_def)

end
