(* ===== verification/Sem_Spec.thy ===== *)
theory Sem_Spec
  imports Counting
begin

text \<open>
  The \<^verbatim>\<open>Semaphore\<close> interface of \<^verbatim>\<open>syncx/semaphore.go\<close> and its contract. Goroutines call
  \<^verbatim>\<open>Acquire\<close> and \<^verbatim>\<open>Release\<close>; permits are interchangeable, so what counts is how
  many calls of \<^verbatim>\<open>Acquire\<close> have returned and not been matched by a \<^verbatim>\<open>Release\<close> call.
  The abstract semaphore is that number: it goes up while it is below the limit, and down.
\<close>

datatype sem_act = CallAcquire tid | CallRelease tid | SemStep tid

datatype sem_spec_act = SpecAcquire | SpecRelease

fun spec_sem :: "nat \<Rightarrow> sem_spec_act \<Rightarrow> nat \<Rightarrow> nat option" where
  "spec_sem limit SpecAcquire held = (if held < limit then Some (Suc held) else None)"
| "spec_sem limit SpecRelease held = (if 0 < held then Some (held - 1) else None)"

lemma spec_sem_bounded: "run (spec_sem limit) as held = Some held' \<Longrightarrow> held \<le> limit \<Longrightarrow> held' \<le> limit"
proof (induction as arbitrary: held)
  case (Cons a as)
  then show ?case by (cases a) (auto split: if_splits)
qed simp

text \<open>
  The contract: the invariant is inductive, and every step leaves the number of held permits or
  moves it as the abstract semaphore does.
\<close>

locale semaphore = machine init step inv
  for init :: "'s \<Rightarrow> bool" and step :: "'a \<Rightarrow> 's \<Rightarrow> 's option" and inv :: "'s \<Rightarrow> bool" +
  fixes limit :: nat and held :: "'s \<Rightarrow> nat"
  assumes held_init: "init s \<Longrightarrow> held s = 0"
    and held_step: "inv s \<Longrightarrow> step a s = Some s' \<Longrightarrow>
      held s' = held s \<or> (\<exists>b. spec_sem limit b (held s) = Some (held s'))"
begin

lemma refines_run:
  "run step as s = Some s' \<Longrightarrow> inv s \<Longrightarrow> \<exists>bs. run (spec_sem limit) bs (held s) = Some (held s')"
proof (induction as arbitrary: s)
  case Nil
  then show ?case by (auto intro: exI [of _ "[]"])
next
  case (Cons a as)
  then obtain t where t: "step a s = Some t" "run step as t = Some s'" by (auto split: option.splits)
  obtain bs where bs: "run (spec_sem limit) bs (held t) = Some (held s')"
    using Cons.IH [OF t(2) inv_step [OF Cons.prems(2) t(1)]] by blast
  from held_step [OF Cons.prems(2) t(1)] show ?case
  proof
    assume "held t = held s"
    then show ?thesis using bs by auto
  next
    assume "\<exists>b. spec_sem limit b (held s) = Some (held t)"
    then obtain b where "spec_sem limit b (held s) = Some (held t)" by blast
    then have "run (spec_sem limit) (b # bs) (held s) = Some (held s')" using bs by simp
    then show ?thesis by blast
  qed
qed

lemma refines:
  "init s \<Longrightarrow> run step as s = Some s' \<Longrightarrow> \<exists>bs. run (spec_sem limit) bs 0 = Some (held s')"
  using refines_run [OF _ inv_init] held_init by metis

lemma bounded: "init s \<Longrightarrow> run step as s = Some s' \<Longrightarrow> held s' \<le> limit"
  using refines spec_sem_bounded by blast

end

text \<open>
  What a semaphore owes to its clients besides: no permit is ever lost. When nobody who is inside a call can
  change anything any more and yet somebody waits in \<^verbatim>\<open>Acquire\<close>, all permits are held.
\<close>

definition semaphore_contract ::
  "('s \<Rightarrow> bool) \<Rightarrow> ('a \<Rightarrow> 's \<Rightarrow> 's option) \<Rightarrow> 'a set \<Rightarrow> ('s \<Rightarrow> nat) \<Rightarrow> ('s \<Rightarrow> tid \<Rightarrow> bool) \<Rightarrow> nat \<Rightarrow> bool" where
  "semaphore_contract init step inside held waits limit \<longleftrightarrow>
     (\<forall>s as s'. init s \<longrightarrow> run step as s = Some s' \<longrightarrow>
        held s = 0 \<and> held s' \<le> limit
        \<and> (\<forall>a s''. step a s' = Some s'' \<longrightarrow>
             held s'' = held s' \<or> (\<exists>b. spec_sem limit b (held s') = Some (held s'')))
        \<and> (\<forall>t. waits s' t \<longrightarrow> quiet step inside s' \<longrightarrow> held s' = limit))"

lemma semaphore_contract_lossless:
  "semaphore_contract init step inside held waits limit \<Longrightarrow> init s \<Longrightarrow> run step as s = Some s' \<Longrightarrow>
     waits s' t \<Longrightarrow> quiet step inside s' \<Longrightarrow> held s' = limit"
  unfolding semaphore_contract_def by blast

locale lossless_semaphore = semaphore init step inv limit held
  for init :: "'s \<Rightarrow> bool" and step :: "'a \<Rightarrow> 's \<Rightarrow> 's option" and inv :: "'s \<Rightarrow> bool"
    and limit :: nat and held :: "'s \<Rightarrow> nat" +
  fixes inside :: "'a set" and waits :: "'s \<Rightarrow> tid \<Rightarrow> bool"
  assumes all_held: "inv s \<Longrightarrow> waits s t \<Longrightarrow> quiet step inside s \<Longrightarrow> held s = limit"
begin

lemma contract: "semaphore_contract init step inside held waits limit"
  unfolding semaphore_contract_def using held_init bounded held_step invariant all_held by blast

end

definition sem_inside :: "sem_act set" where
  "sem_inside = range SemStep"

end
