(* ===== verification/Sem_Channel.thy ===== *)
theory Sem_Channel
  imports Sem_Spec
begin

text \<open>
  \<^verbatim>\<open>ChannelSemaphore\<close> of \<^verbatim>\<open>syncx/semaphore.go\<close>. A channel of empty structs is the
  number of its buffered elements, its capacity, and the queues of goroutines that wait to send and to
  receive, as the language specifies them: a receive from a full buffer lets the first waiting
  sender in, a send to a channel with a waiting receiver hands over directly. \<open>cc_held\<close> is auxiliary.
\<close>

datatype cc_pc =
    CcIdle
  | CcSend         \<comment> \<open>\<open>Acquire\<close>: before \<open>c.sem <- struct{}{}\<close>\<close>
  | CcSendWait     \<comment> \<open>blocked in the send\<close>
  | CcRecv         \<comment> \<open>\<open>Release\<close>: before \<open><-c.sem\<close>\<close>
  | CcRecvWait     \<comment> \<open>blocked in the receive\<close>

record ChannelSemaphore =
  cc_buf :: nat
  cc_cap :: nat
  cc_sendq :: "tid list"
  cc_recvq :: "tid list"
  cc_pc :: "tid \<Rightarrow> cc_pc"
  cc_held :: nat

text \<open>\<^verbatim>\<open>make(chan struct{}, init)\<close> panics for a negative size.\<close>

definition NewChannelSemaphore :: "int \<Rightarrow> ChannelSemaphore option" where
  "NewChannelSemaphore init =
     (if init < 0 then None
      else Some \<lparr>cc_buf = 0, cc_cap = nat init, cc_sendq = [], cc_recvq = [], cc_pc = (\<lambda>_. CcIdle), cc_held = 0\<rparr>)"

definition Channel_Acquire_step :: "tid \<Rightarrow> ChannelSemaphore \<Rightarrow> ChannelSemaphore option" where
  "Channel_Acquire_step t c =
     (if cc_pc c t = CcSend
      then (case cc_recvq c of
              r # rs \<Rightarrow> Some (c\<lparr>cc_recvq := rs, cc_pc := (cc_pc c)(r := CcIdle, t := CcIdle), cc_held := Suc (cc_held c)\<rparr>)
            | [] \<Rightarrow>
                if cc_buf c < cc_cap c
                then Some (c\<lparr>cc_buf := Suc (cc_buf c), cc_pc := (cc_pc c)(t := CcIdle), cc_held := Suc (cc_held c)\<rparr>)
                else Some (c\<lparr>cc_sendq := cc_sendq c @ [t], cc_pc := (cc_pc c)(t := CcSendWait)\<rparr>))
      else None)"

definition Channel_Release_step :: "tid \<Rightarrow> ChannelSemaphore \<Rightarrow> ChannelSemaphore option" where
  "Channel_Release_step t c =
     (if cc_pc c t = CcRecv
      then (case cc_sendq c of
              w # ws \<Rightarrow> Some (c\<lparr>cc_sendq := ws, cc_pc := (cc_pc c)(w := CcIdle, t := CcIdle), cc_held := Suc (cc_held c)\<rparr>)
            | [] \<Rightarrow>
                if 0 < cc_buf c
                then Some (c\<lparr>cc_buf := cc_buf c - 1, cc_pc := (cc_pc c)(t := CcIdle)\<rparr>)
                else Some (c\<lparr>cc_recvq := cc_recvq c @ [t], cc_pc := (cc_pc c)(t := CcRecvWait)\<rparr>))
      else None)"

fun Channel_step :: "sem_act \<Rightarrow> ChannelSemaphore \<Rightarrow> ChannelSemaphore option" where
  "Channel_step (CallAcquire t) c =
     (if cc_pc c t = CcIdle \<and> t < max_goroutines then Some (c\<lparr>cc_pc := (cc_pc c)(t := CcSend)\<rparr>) else None)"
| "Channel_step (CallRelease t) c =
     (if cc_pc c t = CcIdle \<and> t < max_goroutines \<and> 0 < cc_held c
      then Some (c\<lparr>cc_held := cc_held c - 1, cc_pc := (cc_pc c)(t := CcRecv)\<rparr>) else None)"
| "Channel_step (SemStep t) c =
     (case Channel_Acquire_step t c of Some c' \<Rightarrow> Some c' | None \<Rightarrow> Channel_Release_step t c)"

text \<open>The buffered elements are the permits held or on their way back, so a receive finds one; and
  senders wait only while the buffer is full.\<close>

definition cc_inv :: "nat \<Rightarrow> ChannelSemaphore \<Rightarrow> bool" where
  "cc_inv n c \<longleftrightarrow> active CcIdle (cc_pc c) \<and> cc_cap c = n \<and> cc_buf c \<le> n \<and> cc_recvq c = []
     \<and> int (cc_buf c) = int (cc_held c) + num (\<lambda>p. p = CcRecv) (cc_pc c)
     \<and> distinct (cc_sendq c) \<and> (\<forall>t. t \<in> set (cc_sendq c) \<longleftrightarrow> cc_pc c t = CcSendWait)
     \<and> (\<forall>t. cc_pc c t \<noteq> CcRecvWait) \<and> (cc_sendq c \<noteq> [] \<longrightarrow> cc_buf c = n)"

lemmas cc_num = num_upd [where idle = CcIdle and P = "\<lambda>p. p = CcRecv", simplified]

lemma cc_inv_call:
  assumes "cc_inv n c" and "cc_pc c t = CcIdle" and "t < max_goroutines"
  shows "cc_inv n (c\<lparr>cc_pc := (cc_pc c)(t := CcSend)\<rparr>)"
    and "0 < cc_held c \<Longrightarrow> cc_inv n (c\<lparr>cc_held := cc_held c - Suc 0, cc_pc := (cc_pc c)(t := CcRecv)\<rparr>)"
  using assms by (auto simp: cc_inv_def active_call cc_num of_nat_diff)

lemma cc_inv_acquire:
  assumes inv: "cc_inv n c" and st: "Channel_Acquire_step t c = Some c'"
  shows "cc_inv n c'"
  using assms
  by (auto simp: Channel_Acquire_step_def cc_inv_def cc_num active_move split: if_splits)

lemma cc_inv_release:
  assumes inv: "cc_inv n c" and st: "Channel_Release_step t c = Some c'"
  shows "cc_inv n c'"
proof -
  have t: "cc_pc c t = CcRecv" and a: "active CcIdle (cc_pc c)"
    using st inv by (auto simp: Channel_Release_step_def cc_inv_def split: if_splits)
  have "0 < num (\<lambda>p. p = CcRecv) (cc_pc c)"
    using num_pos [where idle = CcIdle and P = "\<lambda>p. p = CcRecv"] a t by simp
  then have "0 < int (cc_buf c)" using inv unfolding cc_inv_def by linarith
  then have buf: "0 < cc_buf c" by simp
  show ?thesis
  proof (cases "cc_sendq c")
    case Nil
    then show ?thesis using st inv t a buf
      by (auto simp: Channel_Release_step_def cc_inv_def cc_num active_move of_nat_diff split: if_splits)
  next
    case (Cons w ws)
    have w: "cc_pc c w = CcSendWait" "w \<noteq> t" using inv t Cons unfolding cc_inv_def by force+
    have a1: "active CcIdle ((cc_pc c)(w := CcIdle))" using a w by (intro active_move) simp_all
    then have a2: "active CcIdle ((cc_pc c)(w := CcIdle, t := CcIdle))" using t w(2) active_move [OF a1, of t] by simp
    have n: "num (\<lambda>p. p = CcRecv) ((cc_pc c)(w := CcIdle, t := CcIdle)) = num (\<lambda>p. p = CcRecv) (cc_pc c) - 1"
      using w t a a1 by (simp add: cc_num)
    have c': "c' = c\<lparr>cc_sendq := ws, cc_pc := (cc_pc c)(w := CcIdle, t := CcIdle), cc_held := Suc (cc_held c)\<rparr>"
      using st t Cons by (simp add: Channel_Release_step_def)
    have q: "\<forall>u. u \<in> set ws \<longleftrightarrow> ((cc_pc c)(w := CcIdle, t := CcIdle)) u = CcSendWait" and d: "distinct ws"
      using inv Cons t unfolding cc_inv_def by force+
    have r: "\<forall>u. ((cc_pc c)(w := CcIdle, t := CcIdle)) u \<noteq> CcRecvWait" using inv unfolding cc_inv_def by simp
    show ?thesis unfolding c' cc_inv_def using inv Cons a2 n q d r by (simp add: cc_inv_def)
  qed
qed

interpretation channel_semaphore:
  semaphore "\<lambda>c. NewChannelSemaphore (int n) = Some c" Channel_step "cc_inv n" n cc_held
proof
  show "cc_inv n c" if "NewChannelSemaphore (int n) = Some c" for c
    using that by (auto simp: cc_inv_def NewChannelSemaphore_def)
  show "cc_held c = 0" if "NewChannelSemaphore (int n) = Some c" for c
    using that by (auto simp: NewChannelSemaphore_def)
  show step: "cc_inv n c'" if "cc_inv n c" and "Channel_step a c = Some c'" for c a c'
    using that by (cases a) (auto split: if_splits option.splits intro: cc_inv_call cc_inv_acquire cc_inv_release)
  show "cc_held c' = cc_held c \<or> (\<exists>b. spec_sem n b (cc_held c) = Some (cc_held c'))"
    if inv: "cc_inv n c" and st: "Channel_step a c = Some c'" for c a c'
  proof -
    have "cc_held c' = cc_held c \<or> cc_held c' = Suc (cc_held c) \<or> 0 < cc_held c \<and> cc_held c' = cc_held c - 1"
      using st by (cases a)
        (auto simp: Channel_Acquire_step_def Channel_Release_step_def split: if_splits list.splits option.splits)
    moreover have "int (cc_held c') \<le> int n"
    proof -
      have "int (cc_buf c') = int (cc_held c') + num (\<lambda>p. p = CcRecv) (cc_pc c')" "cc_buf c' \<le> n"
        using step [OF inv st] unfolding cc_inv_def by blast+
      then show ?thesis using num_nonneg [of "\<lambda>p. p = CcRecv" "cc_pc c'"] by linarith
    qed
    ultimately show ?thesis
      by (elim disjE conjE) (auto intro: exI [of _ SpecAcquire] exI [of _ SpecRelease])
  qed
qed

definition cc_waits :: "ChannelSemaphore \<Rightarrow> tid \<Rightarrow> bool" where
  "cc_waits c t \<longleftrightarrow> cc_pc c t = CcSend \<or> cc_pc c t = CcSendWait"

lemma cc_moves:
  assumes "cc_pc c u = CcSend \<or> cc_pc c u = CcRecv"
  shows "\<exists>c'. Channel_step (SemStep u) c = Some c' \<and> cc_pc c' u \<noteq> cc_pc c u"
  using assms by (auto simp: Channel_Acquire_step_def Channel_Release_step_def split: list.split)

lemma cc_quiet:
  assumes "quiet Channel_step sem_inside c"
  shows "cc_pc c u \<noteq> CcSend" and "cc_pc c u \<noteq> CcRecv"
  using cc_moves [of c u] quietD [OF assms, of "SemStep u"] by (auto simp: sem_inside_def)

interpretation channel_semaphore: lossless_semaphore "\<lambda>c. NewChannelSemaphore (int n) = Some c" Channel_step "cc_inv n" n
  cc_held sem_inside cc_waits
proof
  show "cc_held c = n" if inv: "cc_inv n c" and w: "cc_waits c t" and q: "quiet Channel_step sem_inside c" for c t
  proof -
    have "cc_pc c t = CcSendWait" using w cc_quiet(1) [OF q] by (simp add: cc_waits_def)
    then have "cc_buf c = n" using inv unfolding cc_inv_def by (metis empty_iff empty_set)
    moreover have "num (\<lambda>p. p = CcRecv) (cc_pc c) = 0" using cc_quiet(2) [OF q] by (simp add: num_def)
    ultimately show ?thesis using inv by (simp add: cc_inv_def)
  qed
qed

text \<open>\<^verbatim>\<open>ChannelSemaphore\<close> with \<open>n\<close> permits refines the counting semaphore with limit \<open>n\<close>,
  also for \<open>n = 0\<close>, where the channel is unbuffered; \<^verbatim>\<open>Release\<close> never blocks a client
  that gives back an acquired permit; an \<^verbatim>\<open>Acquire\<close> waits only while all permits are held or
  on their way back; and a \<^verbatim>\<open>Release\<close> lets the goroutine in that has waited longest.\<close>

theorem channel_semaphore_correct:
  assumes "NewChannelSemaphore (int n) = Some c0" and "run Channel_step as c0 = Some c"
  shows "(\<exists>bs. run (spec_sem n) bs 0 = Some (cc_held c)) \<and> cc_held c \<le> n \<and> cc_pc c t \<noteq> CcRecvWait
    \<and> (cc_pc c t = CcSendWait \<longrightarrow> t \<in> set (cc_sendq c)
         \<and> int (cc_held c) + num (\<lambda>p. p = CcRecv) (cc_pc c) = int n)
    \<and> (cc_pc c t = CcRecv \<longrightarrow> (\<exists>c'. Channel_step (SemStep t) c = Some c' \<and> cc_pc c' t = CcIdle
         \<and> (cc_sendq c \<noteq> [] \<longrightarrow> cc_pc c' (hd (cc_sendq c)) = CcIdle \<and> cc_sendq c' = tl (cc_sendq c))))"
proof -
  note inv = channel_semaphore.invariant [OF assms]
  have "t \<in> set (cc_sendq c) \<and> int (cc_held c) + num (\<lambda>p. p = CcRecv) (cc_pc c) = int n"
    if "cc_pc c t = CcSendWait"
    using inv that unfolding cc_inv_def by (metis empty_iff empty_set)
  moreover have "\<exists>c'. Channel_step (SemStep t) c = Some c' \<and> cc_pc c' t = CcIdle
      \<and> (cc_sendq c \<noteq> [] \<longrightarrow> cc_pc c' (hd (cc_sendq c)) = CcIdle \<and> cc_sendq c' = tl (cc_sendq c))"
    if t: "cc_pc c t = CcRecv"
  proof -
    have "0 < num (\<lambda>p. p = CcRecv) (cc_pc c)"
      using num_pos [where idle = CcIdle and P = "\<lambda>p. p = CcRecv"] t inv by (simp add: cc_inv_def)
    then have "0 < int (cc_buf c)" using inv unfolding cc_inv_def by linarith
    then show ?thesis using t
      by (cases "cc_sendq c") (simp_all add: Channel_Acquire_step_def Channel_Release_step_def)
  qed
  moreover have "cc_pc c t \<noteq> CcRecvWait" using inv by (simp add: cc_inv_def)
  ultimately show ?thesis
    using channel_semaphore.refines [OF assms] channel_semaphore.bounded [OF assms] by blast
qed

lemma channel_semaphore_witness:
  "\<exists>c0 c c'. NewChannelSemaphore (int 1) = Some c0
     \<and> run Channel_step [CallAcquire 1, SemStep 1, CallAcquire 2, SemStep 2, CallRelease 1] c0 = Some c
     \<and> Channel_step (SemStep 1) c = Some c' \<and> cc_pc c' 1 = CcIdle \<and> cc_pc c' 2 = CcIdle"
proof -
  obtain c0 where c0: "NewChannelSemaphore (int 1) = Some c0" by (simp add: NewChannelSemaphore_def)
  then obtain c where r: "run Channel_step [CallAcquire 1, SemStep 1, CallAcquire 2, SemStep 2, CallRelease 1] c0 = Some c"
    and p: "cc_pc c 1 = CcRecv" "cc_sendq c = [2]"
    by (auto simp: NewChannelSemaphore_def Channel_Acquire_step_def Channel_Release_step_def max_goroutines_def)
  show ?thesis using channel_semaphore_correct [OF c0 r, of 1] c0 r p by auto
qed

end
