(* ===== verification/Sem_Mutex.thy ===== *)
theory Sem_Mutex
  imports Sem_Spec
begin

text \<open>
  \<^verbatim>\<open>MutexSemaphore\<close> of \<^verbatim>\<open>syncx/semaphore.go\<close>. A critical section under \<^verbatim>\<open>m.mu\<close> is
  one step. A gate is the address of a \<^verbatim>\<open>sync.Mutex\<close> that is locked or not; locking a
  locked gate blocks, and unlocking an unlocked one is a fatal error (\<open>MsFatal\<close>). Gates are numbered
  in the order in which goroutines queue up. \<open>ms_held\<close> is auxiliary.
\<close>

datatype ms_pc =
    MsIdle
  | MsAcq         \<comment> \<open>\<open>Acquire\<close>: before \<open>m.mu.Lock()\<close>\<close>
  | MsGate nat    \<comment> \<open>before or in the second \<open>gate.Lock()\<close>\<close>
  | MsRel         \<comment> \<open>\<open>Release\<close>: before \<open>m.mu.Lock()\<close>\<close>
  | MsPanic       \<comment> \<open>\<open>panic("syncx: release without acquire")\<close>\<close>
  | MsFatal       \<comment> \<open>fatal error: unlock of unlocked mutex\<close>

record MutexSemaphore =
  ms_waiters :: "nat list"
  ms_count :: int
  ms_max :: int
  ms_locked :: "nat \<Rightarrow> bool"
  ms_fresh :: nat
  ms_pc :: "tid \<Rightarrow> ms_pc"
  ms_held :: nat

definition NewMutexSemaphore :: "int \<Rightarrow> MutexSemaphore" where
  "NewMutexSemaphore init = \<lparr>ms_waiters = [], ms_count = 0, ms_max = init, ms_locked = (\<lambda>_. False),
     ms_fresh = 0, ms_pc = (\<lambda>_. MsIdle), ms_held = 0\<rparr>"

definition MutexSem_Acquire_step :: "tid \<Rightarrow> MutexSemaphore \<Rightarrow> MutexSemaphore option" where
  "MutexSem_Acquire_step t m =
     (case ms_pc m t of
        MsAcq \<Rightarrow>
          (if ms_count m < ms_max m
           then Some (m\<lparr>ms_count := ms_count m + 1, ms_held := Suc (ms_held m), ms_pc := (ms_pc m)(t := MsIdle)\<rparr>)
           else (let gate = ms_fresh m
                 in Some (m\<lparr>ms_fresh := Suc gate, ms_locked := (ms_locked m)(gate := True),
                            ms_waiters := ms_waiters m @ [gate], ms_pc := (ms_pc m)(t := MsGate gate)\<rparr>)))
      | MsGate gate \<Rightarrow>
          (if ms_locked m gate then None
           else Some (m\<lparr>ms_locked := (ms_locked m)(gate := True), ms_held := Suc (ms_held m),
                        ms_pc := (ms_pc m)(t := MsIdle)\<rparr>))
      | _ \<Rightarrow> None)"

definition MutexSem_Release_step :: "tid \<Rightarrow> MutexSemaphore \<Rightarrow> MutexSemaphore option" where
  "MutexSem_Release_step t m =
     (if ms_pc m t = MsRel
      then (if ms_count m = 0 then Some (m\<lparr>ms_pc := (ms_pc m)(t := MsPanic)\<rparr>)
            else case ms_waiters m of
              gate # rest \<Rightarrow>
                if ms_locked m gate
                then Some (m\<lparr>ms_waiters := rest, ms_locked := (ms_locked m)(gate := False),
                             ms_pc := (ms_pc m)(t := MsIdle)\<rparr>)
                else Some (m\<lparr>ms_pc := (ms_pc m)(t := MsFatal)\<rparr>)
            | [] \<Rightarrow> Some (m\<lparr>ms_count := ms_count m - 1, ms_pc := (ms_pc m)(t := MsIdle)\<rparr>))
      else None)"

fun MutexSem_step :: "sem_act \<Rightarrow> MutexSemaphore \<Rightarrow> MutexSemaphore option" where
  "MutexSem_step (CallAcquire t) m =
     (if ms_pc m t = MsIdle \<and> t < max_goroutines then Some (m\<lparr>ms_pc := (ms_pc m)(t := MsAcq)\<rparr>) else None)"
| "MutexSem_step (CallRelease t) m =
     (if ms_pc m t = MsIdle \<and> t < max_goroutines \<and> 0 < ms_held m
      then Some (m\<lparr>ms_held := ms_held m - 1, ms_pc := (ms_pc m)(t := MsRel)\<rparr>) else None)"
| "MutexSem_step (SemStep t) m =
     (case MutexSem_Acquire_step t m of Some m' \<Rightarrow> Some m' | None \<Rightarrow> MutexSem_Release_step t m)"

section \<open>The invariant\<close>

definition at_gate :: "ms_pc \<Rightarrow> bool" where
  "at_gate p \<longleftrightarrow> (\<exists>g. p = MsGate g)"

text \<open>Each gate has one goroutine; the queue holds the locked gates of waiting goroutines in the order
  they came, and every gate already opened is older.\<close>

definition ms_gates :: "MutexSemaphore \<Rightarrow> bool" where
  "ms_gates m \<longleftrightarrow> sorted_wrt (<) (ms_waiters m)
     \<and> (\<forall>t g. ms_pc m t = MsGate g \<longrightarrow> g < ms_fresh m \<and> ms_locked m g = (g \<in> set (ms_waiters m)))
     \<and> (\<forall>t u g. ms_pc m t = MsGate g \<longrightarrow> ms_pc m u = MsGate g \<longrightarrow> t = u)
     \<and> (\<forall>g \<in> set (ms_waiters m). \<exists>t. ms_pc m t = MsGate g)
     \<and> (\<forall>t g h. ms_pc m t = MsGate g \<longrightarrow> \<not> ms_locked m g \<longrightarrow> h \<in> set (ms_waiters m) \<longrightarrow> g < h)"

text \<open>Direct hand-off: the count covers the permits held, on their way back, and handed to goroutines at an
  open gate; and it is at its maximum while anybody waits.\<close>

definition ms_inv :: "nat \<Rightarrow> MutexSemaphore \<Rightarrow> bool" where
  "ms_inv n m \<longleftrightarrow> active MsIdle (ms_pc m) \<and> ms_gates m \<and> ms_max m = int n \<and> ms_count m \<le> int n
     \<and> int (ms_held m) + num (\<lambda>p. p = MsRel) (ms_pc m) + num at_gate (ms_pc m)
         = ms_count m + int (length (ms_waiters m))
     \<and> (ms_waiters m \<noteq> [] \<longrightarrow> ms_count m = int n)
     \<and> (\<forall>t. ms_pc m t \<noteq> MsPanic \<and> ms_pc m t \<noteq> MsFatal)"

lemma at_gate_simps [simp]:
  "at_gate (MsGate g)" "\<not> at_gate MsIdle" "\<not> at_gate MsAcq" "\<not> at_gate MsRel" "\<not> at_gate MsPanic" "\<not> at_gate MsFatal"
  by (auto simp: at_gate_def)

lemmas ms_num =
  num_upd [where idle = MsIdle and P = "\<lambda>p. p = MsRel", simplified]
  num_upd [where idle = MsIdle and P = at_gate, simplified]

text \<open>No more gates are queued than goroutines stand at one.\<close>

lemma ms_waiters_le:
  assumes "ms_gates m" and "active MsIdle (ms_pc m)"
  shows "int (length (ms_waiters m)) \<le> num at_gate (ms_pc m)"
proof -
  let ?T = "{t. at_gate (ms_pc m t)}"
  let ?g = "\<lambda>t. case ms_pc m t of MsGate g \<Rightarrow> g | _ \<Rightarrow> 0"
  have fin: "finite ?T" using active_finite [where P = at_gate, OF assms(2)] by simp
  have "set (ms_waiters m) \<subseteq> ?g ` ?T"
  proof
    fix g assume "g \<in> set (ms_waiters m)"
    then obtain t where "ms_pc m t = MsGate g" using assms(1) unfolding ms_gates_def by blast
    then show "g \<in> ?g ` ?T" by (intro image_eqI [of _ _ t]) simp_all
  qed
  then have "card (set (ms_waiters m)) \<le> card ?T" using fin by (meson card_image_le card_mono finite_imageI order_trans)
  moreover have "distinct (ms_waiters m)"
    using assms(1) by (auto simp: ms_gates_def strict_sorted_iff)
  ultimately show ?thesis by (simp add: num_def distinct_card)
qed

lemma ms_gates_parts:
  assumes "ms_gates m"
  shows gates_sorted: "sorted_wrt (<) (ms_waiters m)"
    and gates_owned: "\<And>t g. ms_pc m t = MsGate g \<Longrightarrow> g < ms_fresh m"
    and gates_locked: "\<And>t g. ms_pc m t = MsGate g \<Longrightarrow> ms_locked m g = (g \<in> set (ms_waiters m))"
    and gates_unique: "\<And>t u g. ms_pc m t = MsGate g \<Longrightarrow> ms_pc m u = MsGate g \<Longrightarrow> t = u"
    and gates_wanted: "\<And>g. g \<in> set (ms_waiters m) \<Longrightarrow> \<exists>t. ms_pc m t = MsGate g"
    and gates_older: "\<And>t g h. ms_pc m t = MsGate g \<Longrightarrow> \<not> ms_locked m g \<Longrightarrow> h \<in> set (ms_waiters m) \<Longrightarrow> g < h"
  using assms unfolding ms_gates_def by blast+

lemma ms_gatesI:
  assumes "sorted_wrt (<) (ms_waiters m)" "\<And>t g. ms_pc m t = MsGate g \<Longrightarrow> g < ms_fresh m"
    "\<And>t g. ms_pc m t = MsGate g \<Longrightarrow> ms_locked m g = (g \<in> set (ms_waiters m))"
    "\<And>t u g. ms_pc m t = MsGate g \<Longrightarrow> ms_pc m u = MsGate g \<Longrightarrow> t = u"
    "\<And>g. g \<in> set (ms_waiters m) \<Longrightarrow> \<exists>t. ms_pc m t = MsGate g"
    "\<And>t g h. ms_pc m t = MsGate g \<Longrightarrow> \<not> ms_locked m g \<Longrightarrow> h \<in> set (ms_waiters m) \<Longrightarrow> g < h"
  shows "ms_gates m"
  using assms unfolding ms_gates_def by blast

lemma ms_gates_frame:
  assumes ok: "ms_gates m" and "ms_waiters m' = ms_waiters m" "ms_locked m' = ms_locked m" "ms_fresh m' = ms_fresh m"
    "ms_pc m' = (ms_pc m)(t := p)" "\<not> at_gate (ms_pc m t)" "\<not> at_gate p"
  shows "ms_gates m'"
proof -
  have "(ms_pc m' u = MsGate g) = (ms_pc m u = MsGate g)" for u g using assms(5-7) by (auto simp: at_gate_def)
  then show ?thesis using assms(1-4) by (simp add: ms_gates_def)
qed

text \<open>A goroutine queues up; the first waiter's gate is opened; a goroutine passes its open gate.\<close>

lemma ms_gates_queue:
  assumes ok: "ms_gates m" and t: "ms_pc m t = MsAcq"
  shows "ms_gates (m\<lparr>ms_fresh := Suc (ms_fresh m), ms_locked := (ms_locked m)(ms_fresh m := True),
     ms_waiters := ms_waiters m @ [ms_fresh m], ms_pc := (ms_pc m)(t := MsGate (ms_fresh m))\<rparr>)"
proof -
  have q: "g < ms_fresh m" if "g \<in> set (ms_waiters m)" for g
    using gates_wanted [OF ok that] gates_owned [OF ok] by blast
  show ?thesis
  proof (rule ms_gatesI, goal_cases)
    case 1
    then show ?case using gates_sorted [OF ok] q by (simp add: sorted_wrt_append)
  next
    case (2 u g)
    then show ?case using gates_owned [OF ok, of u g] by (auto split: if_splits)
  next
    case (3 u g)
    then show ?case using gates_owned [OF ok, of u g] gates_locked [OF ok, of u g] by (auto split: if_splits)
  next
    case (4 u v g)
    then show ?case using gates_unique [OF ok, of u g v] gates_owned [OF ok, of u] gates_owned [OF ok, of v]
      by (auto split: if_splits)
  next
    case (5 g)
    show ?case
    proof (cases "g = ms_fresh m")
      case False
      then obtain u where u: "ms_pc m u = MsGate g" using 5 gates_wanted [OF ok, of g] by auto
      then have "u \<noteq> t" using t by auto
      then show ?thesis using u by (intro exI [of _ u]) simp
    qed auto
  next
    case (6 u g h)
    then show ?case using gates_older [OF ok, of u g h] gates_owned [OF ok, of u g] by (auto split: if_splits)
  qed
qed

lemma ms_gates_open:
  assumes ok: "ms_gates m" and t: "ms_pc m t = MsRel" and w: "ms_waiters m = gate # rest"
  shows "ms_gates (m\<lparr>ms_waiters := rest, ms_locked := (ms_locked m)(gate := False), ms_pc := (ms_pc m)(t := MsIdle)\<rparr>)"
    (is "ms_gates ?m")
proof -
  have pc: "(ms_pc ?m u = MsGate g) = (ms_pc m u = MsGate g)" for u g using t by auto
  have s: "\<forall>g \<in> set rest. gate < g" "sorted_wrt (<) rest" using gates_sorted [OF ok] w by auto
  show ?thesis
  proof (rule ms_gatesI, unfold pc, goal_cases)
    case (2 u g)
    then show ?case using gates_owned [OF ok, of u g] by simp
  next
    case (3 u g)
    then show ?case using gates_locked [OF ok, of u g] s w by auto
  next
    case (4 u v g)
    then show ?case using gates_unique [OF ok] by blast
  next
    case (5 g)
    then show ?case using gates_wanted [OF ok, of g] w by auto
  next
    case (6 u g h)
    then show ?case using gates_older [OF ok, of u g h] s w by (cases "g = gate") auto
  qed (use s in simp)
qed

lemma ms_gates_pass:
  assumes ok: "ms_gates m" and t: "ms_pc m t = MsGate gate" and g: "\<not> ms_locked m gate"
  shows "ms_gates (m\<lparr>ms_locked := (ms_locked m)(gate := True), ms_held := h, ms_pc := (ms_pc m)(t := MsIdle)\<rparr>)"
    (is "ms_gates ?m")
proof -
  have pc: "(ms_pc ?m u = MsGate g) = (u \<noteq> t \<and> ms_pc m u = MsGate g)" for u g by auto
  have other: "g \<noteq> gate" if "u \<noteq> t" "ms_pc m u = MsGate g" for u g
    using gates_unique [OF ok t, of u] that by blast
  show ?thesis
  proof (rule ms_gatesI, unfold pc, goal_cases)
    case 1
    then show ?case using gates_sorted [OF ok] by simp
  next
    case (2 u g)
    then show ?case using gates_owned [OF ok, of u g] by simp
  next
    case (3 u g)
    then show ?case using gates_locked [OF ok, of u g] other [of u g] by simp
  next
    case (4 u v g)
    then show ?case using gates_unique [OF ok] by blast
  next
    case (5 g)
    then obtain u where u: "ms_pc m u = MsGate g" using gates_wanted [OF ok, of g] by auto
    moreover have "u \<noteq> t" using 5 u t g gates_locked [OF ok t] by auto
    ultimately show ?case by blast
  next
    case (6 u x y)
    then show ?case using gates_older [OF ok, of u x y] by (auto split: if_splits)
  qed
qed

section \<open>Preservation\<close>

lemma ms_inv_parts:
  assumes "ms_inv n m"
  shows ms_active: "active MsIdle (ms_pc m)" and ms_inv_gates: "ms_gates m"
    and ms_max_n: "ms_max m = int n" and ms_count_le: "ms_count m \<le> int n"
    and ms_sum: "int (ms_held m) + num (\<lambda>p. p = MsRel) (ms_pc m) + num at_gate (ms_pc m)
         = ms_count m + int (length (ms_waiters m))"
    and ms_full: "ms_waiters m \<noteq> [] \<Longrightarrow> ms_count m = int n"
    and ms_no_panic: "ms_pc m t \<noteq> MsPanic" "ms_pc m t \<noteq> MsFatal"
  using assms unfolding ms_inv_def by blast+

lemma ms_inv_call:
  assumes inv: "ms_inv n m" and t: "ms_pc m t = MsIdle" "t < max_goroutines"
  shows "ms_inv n (m\<lparr>ms_pc := (ms_pc m)(t := MsAcq)\<rparr>)"
    and "0 < ms_held m \<Longrightarrow> ms_inv n (m\<lparr>ms_held := ms_held m - Suc 0, ms_pc := (ms_pc m)(t := MsRel)\<rparr>)"
proof -
  have g: "ms_gates (m\<lparr>ms_held := h, ms_pc := (ms_pc m)(t := p)\<rparr>)" if "\<not> at_gate p" for h p
    by (rule ms_gates_frame [OF ms_inv_gates [OF inv], where t = t and p = p]) (use t that in auto)
  show "ms_inv n (m\<lparr>ms_pc := (ms_pc m)(t := MsAcq)\<rparr>)"
    using inv t ms_active [OF inv] g [where h = "ms_held m" and p = MsAcq] by (simp add: ms_inv_def active_call ms_num)
  show "ms_inv n (m\<lparr>ms_held := ms_held m - Suc 0, ms_pc := (ms_pc m)(t := MsRel)\<rparr>)" if "0 < ms_held m"
    using inv t ms_active [OF inv] that g [where h = "ms_held m - Suc 0" and p = MsRel]
    by (simp add: ms_inv_def active_call ms_num of_nat_diff)
qed

lemma ms_inv_take:
  assumes inv: "ms_inv n m" and t: "ms_pc m t = MsAcq" and c: "ms_count m < ms_max m"
  shows "ms_inv n (m\<lparr>ms_count := ms_count m + 1, ms_held := Suc (ms_held m), ms_pc := (ms_pc m)(t := MsIdle)\<rparr>)"
proof -
  have "ms_gates (m\<lparr>ms_count := ms_count m + 1, ms_held := Suc (ms_held m), ms_pc := (ms_pc m)(t := MsIdle)\<rparr>)"
    by (rule ms_gates_frame [OF ms_inv_gates [OF inv], where t = t and p = MsIdle]) (use t in auto)
  then show ?thesis using inv t c ms_active [OF inv] ms_full [OF inv]
    by (auto simp: ms_inv_def active_move ms_num)
qed

lemma ms_inv_queue:
  assumes inv: "ms_inv n m" and t: "ms_pc m t = MsAcq" and c: "\<not> ms_count m < ms_max m"
  shows "ms_inv n (m\<lparr>ms_fresh := Suc (ms_fresh m), ms_locked := (ms_locked m)(ms_fresh m := True),
     ms_waiters := ms_waiters m @ [ms_fresh m], ms_pc := (ms_pc m)(t := MsGate (ms_fresh m))\<rparr>)"
  using inv t c ms_active [OF inv] ms_gates_queue [OF ms_inv_gates [OF inv] t]
  by (auto simp: ms_inv_def active_move ms_num)

lemma ms_inv_pass:
  assumes inv: "ms_inv n m" and t: "ms_pc m t = MsGate gate" and g: "\<not> ms_locked m gate"
  shows "ms_inv n (m\<lparr>ms_locked := (ms_locked m)(gate := True), ms_held := Suc (ms_held m), ms_pc := (ms_pc m)(t := MsIdle)\<rparr>)"
  using inv t ms_active [OF inv] ms_gates_pass [OF ms_inv_gates [OF inv] t g]
  by (auto simp: ms_inv_def active_move ms_num)

text \<open>A \<^verbatim>\<open>Release\<close> of an acquired permit never panics, nor unlocks an unlocked gate.\<close>

lemma ms_release_count:
  assumes inv: "ms_inv n m" and t: "ms_pc m t = MsRel"
  shows "0 < ms_count m"
proof -
  have "0 < num (\<lambda>p. p = MsRel) (ms_pc m)"
    using num_pos [where idle = MsIdle and P = "\<lambda>p. p = MsRel"] ms_active [OF inv] t by simp
  then show ?thesis using ms_sum [OF inv] ms_waiters_le [OF ms_inv_gates [OF inv] ms_active [OF inv]] by linarith
qed

lemma ms_release_cases:
  assumes inv: "ms_inv n m" and t: "ms_pc m t = MsRel"
  shows "MutexSem_Release_step t m = Some
     (case ms_waiters m of
        [] \<Rightarrow> m\<lparr>ms_count := ms_count m - 1, ms_pc := (ms_pc m)(t := MsIdle)\<rparr>
      | gate # rest \<Rightarrow> m\<lparr>ms_waiters := rest, ms_locked := (ms_locked m)(gate := False), ms_pc := (ms_pc m)(t := MsIdle)\<rparr>)"
proof -
  have "ms_locked m gate" if "ms_waiters m = gate # rest" for gate rest
  proof -
    obtain u where "ms_pc m u = MsGate gate" using gates_wanted [OF ms_inv_gates [OF inv], of gate] \<open>ms_waiters m = _\<close> by auto
    then show ?thesis using gates_locked [OF ms_inv_gates [OF inv]] \<open>ms_waiters m = _\<close> by simp
  qed
  then show ?thesis using ms_release_count [OF assms] t
    by (auto simp: MutexSem_Release_step_def split: list.split)
qed

lemma ms_inv_release:
  assumes inv: "ms_inv n m" and st: "MutexSem_Release_step t m = Some m'"
  shows "ms_inv n m'"
proof -
  have t: "ms_pc m t = MsRel" using st by (simp add: MutexSem_Release_step_def split: if_splits)
  show ?thesis
  proof (cases "ms_waiters m")
    case Nil
    have "ms_gates (m\<lparr>ms_count := ms_count m - 1, ms_pc := (ms_pc m)(t := MsIdle)\<rparr>)"
      by (rule ms_gates_frame [OF ms_inv_gates [OF inv], where t = t and p = MsIdle]) (use t in auto)
    then show ?thesis using inv t Nil ms_active [OF inv] st ms_release_cases [OF inv t]
      by (auto simp: ms_inv_def active_move ms_num split: if_splits)
  next
    case (Cons gate rest)
    then show ?thesis using inv t ms_active [OF inv] st ms_release_cases [OF inv t]
        ms_gates_open [OF ms_inv_gates [OF inv] t Cons]
      by (auto simp: ms_inv_def active_move ms_num split: if_splits)
  qed
qed

lemma ms_inv_step:
  assumes inv: "ms_inv n m" and st: "MutexSem_step a m = Some m'"
  shows "ms_inv n m'"
proof (cases a)
  case (SemStep t)
  then show ?thesis using st inv
    by (auto simp: MutexSem_Acquire_step_def Let_def split: ms_pc.splits if_splits option.splits
        intro: ms_inv_take ms_inv_queue ms_inv_pass ms_inv_release)
qed (use st inv in \<open>auto split: if_splits intro: ms_inv_call\<close>)

interpretation mutex_semaphore:
  semaphore "\<lambda>m. m = NewMutexSemaphore (int n)" MutexSem_step "ms_inv n" n ms_held
proof
  show "ms_inv n m" if "m = NewMutexSemaphore (int n)" for m
    using that by (simp add: ms_inv_def ms_gates_def NewMutexSemaphore_def)
  show "ms_held m = 0" if "m = NewMutexSemaphore (int n)" for m
    using that by (simp add: NewMutexSemaphore_def)
  show "ms_inv n m'" if "ms_inv n m" and "MutexSem_step a m = Some m'" for m a m'
    using ms_inv_step that .
  show "ms_held m' = ms_held m \<or> (\<exists>b. spec_sem n b (ms_held m) = Some (ms_held m'))"
    if inv: "ms_inv n m" and st: "MutexSem_step a m = Some m'" for m a m'
  proof -
    note inv' = ms_inv_step [OF inv st]
    have "ms_held m' = ms_held m \<or> ms_held m' = Suc (ms_held m) \<or> 0 < ms_held m \<and> ms_held m' = ms_held m - 1"
      using st by (cases a) (auto simp: MutexSem_Acquire_step_def MutexSem_Release_step_def Let_def
        split: ms_pc.splits if_splits list.splits option.splits)
    moreover have "int (ms_held m') \<le> int n"
      using ms_sum [OF inv'] ms_count_le [OF inv'] ms_waiters_le [OF ms_inv_gates [OF inv'] ms_active [OF inv']]
        num_nonneg [of "\<lambda>p. p = MsRel" "ms_pc m'"] by linarith
    ultimately show ?thesis
      by (elim disjE conjE) (auto intro: exI [of _ SpecAcquire] exI [of _ SpecRelease])
  qed
qed

definition ms_waits :: "MutexSemaphore \<Rightarrow> tid \<Rightarrow> bool" where
  "ms_waits m t \<longleftrightarrow> ms_pc m t = MsAcq \<or> at_gate (ms_pc m t)"

lemma ms_moves:
  assumes inv: "ms_inv n m" and u: "ms_pc m u = MsAcq \<or> ms_pc m u = MsRel \<or> ms_pc m u = MsGate g \<and> \<not> ms_locked m g"
  shows "\<exists>m'. MutexSem_step (SemStep u) m = Some m' \<and> ms_pc m' u \<noteq> ms_pc m u"
proof (cases "ms_pc m u = MsRel")
  case True
  then show ?thesis using ms_release_cases [OF inv True] by (auto simp: MutexSem_Acquire_step_def split: list.split)
qed (use u in \<open>auto simp: MutexSem_Acquire_step_def Let_def\<close>)

lemma ms_quiet:
  assumes "quiet MutexSem_step sem_inside m" and "ms_inv n m"
  shows "ms_pc m u \<noteq> MsAcq" and "ms_pc m u \<noteq> MsRel" and "ms_pc m u = MsGate g \<Longrightarrow> ms_locked m g"
  using ms_moves [OF assms(2), of u] quietD [OF assms(1), of "SemStep u"] by (auto simp: sem_inside_def)

text \<open>As many goroutines stand at shut gates as gates are queued.\<close>

lemma ms_all_queued:
  assumes ok: "ms_gates m" and lk: "\<And>u g. ms_pc m u = MsGate g \<Longrightarrow> ms_locked m g"
  shows "num at_gate (ms_pc m) \<le> int (length (ms_waiters m))"
proof -
  let ?T = "{t. at_gate (ms_pc m t)}" and ?g = "\<lambda>t. case ms_pc m t of MsGate g \<Rightarrow> g | _ \<Rightarrow> 0"
  have "inj_on ?g ?T" using gates_unique [OF ok] by (auto simp: inj_on_def at_gate_def)
  moreover have "?g ` ?T \<subseteq> set (ms_waiters m)" using gates_locked [OF ok] lk by (auto simp: at_gate_def)
  ultimately have "card ?T \<le> card (set (ms_waiters m))" by (intro card_inj_on_le) auto
  then show ?thesis using card_length [of "ms_waiters m"] by (simp add: num_def)
qed

interpretation mutex_semaphore: lossless_semaphore "\<lambda>m. m = NewMutexSemaphore (int n)" MutexSem_step "ms_inv n" n ms_held
  sem_inside ms_waits
proof
  show "ms_held m = n" if inv: "ms_inv n m" and w: "ms_waits m t" and q: "quiet MutexSem_step sem_inside m" for m t
  proof -
    note no = ms_quiet [OF q inv]
    obtain g where "ms_pc m t = MsGate g" using w no(1) by (auto simp: ms_waits_def at_gate_def)
    then have "g \<in> set (ms_waiters m)" using no(3) gates_locked [OF ms_inv_gates [OF inv]] by blast
    then have "ms_count m = int n" using ms_full [OF inv] by force
    moreover have "num (\<lambda>p. p = MsRel) (ms_pc m) = 0" using no(2) by (simp add: num_def)
    moreover have all: "num at_gate (ms_pc m) \<le> int (length (ms_waiters m))"
      by (rule ms_all_queued [OF ms_inv_gates [OF inv]]) (rule no(3))
    ultimately show ?thesis
      using ms_sum [OF inv] ms_waiters_le [OF ms_inv_gates [OF inv] ms_active [OF inv]] all by linarith
  qed
qed

text \<open>C13: \<^verbatim>\<open>MutexSemaphore\<close> with \<open>n\<close> permits refines the counting semaphore with limit \<open>n\<close>;
  a \<^verbatim>\<open>Release\<close> of an acquired permit neither panics nor unlocks an unlocked gate; and the
  hand-off is strictly first come, first served: while anybody waits the count stays at \<open>n\<close>, so a
  newcomer has to queue; every \<^verbatim>\<open>Release\<close> opens the gate of the goroutine that has waited longest;
  and whoever stands at an open gate came before everybody at a shut one.\<close>

theorem mutex_semaphore_fifo:
  assumes "run MutexSem_step as (NewMutexSemaphore (int n)) = Some m"
  shows "(\<exists>bs. run (spec_sem n) bs 0 = Some (ms_held m)) \<and> ms_held m \<le> n
    \<and> ms_pc m t \<noteq> MsPanic \<and> ms_pc m t \<noteq> MsFatal
    \<and> (ms_waiters m \<noteq> [] \<longrightarrow> ms_count m = int n)
    \<and> (ms_pc m t = MsRel \<longrightarrow> (\<exists>m'. MutexSem_step (SemStep t) m = Some m' \<and> ms_pc m' t = MsIdle
         \<and> (ms_waiters m \<noteq> [] \<longrightarrow> ms_waiters m' = tl (ms_waiters m)
              \<and> (\<exists>w. ms_pc m' w = MsGate (hd (ms_waiters m)) \<and> MutexSem_step (SemStep w) m' \<noteq> None))))
    \<and> (ms_pc m t = MsGate g \<longrightarrow> ms_pc m u = MsGate h \<longrightarrow>
         MutexSem_step (SemStep t) m \<noteq> None \<longrightarrow> MutexSem_step (SemStep u) m = None \<longrightarrow> g < h)"
proof -
  note inv = mutex_semaphore.invariant [OF refl assms]
  note ok = ms_inv_gates [OF inv]
  have "\<exists>m'. MutexSem_step (SemStep t) m = Some m' \<and> ms_pc m' t = MsIdle
      \<and> (ms_waiters m \<noteq> [] \<longrightarrow> ms_waiters m' = tl (ms_waiters m)
           \<and> (\<exists>w. ms_pc m' w = MsGate (hd (ms_waiters m)) \<and> MutexSem_step (SemStep w) m' \<noteq> None))"
    if t: "ms_pc m t = MsRel"
  proof (cases "ms_waiters m")
    case Nil
    then show ?thesis using t ms_release_cases [OF inv t] by (simp add: MutexSem_Acquire_step_def)
  next
    case (Cons gate rest)
    then obtain w where w: "ms_pc m w = MsGate gate" using gates_wanted [OF ok, of gate] by auto
    then have "w \<noteq> t" using t by auto
    then show ?thesis using t w Cons ms_release_cases [OF inv t]
      by (auto simp: MutexSem_Acquire_step_def intro!: exI [of _ w])
  qed
  moreover have "g < h"
    if "ms_pc m t = MsGate g" "ms_pc m u = MsGate h"
      "MutexSem_step (SemStep t) m \<noteq> None" "MutexSem_step (SemStep u) m = None"
  proof -
    have "\<not> ms_locked m g" "ms_locked m h"
      using that by (auto simp: MutexSem_Acquire_step_def MutexSem_Release_step_def split: if_splits)
    then show ?thesis using gates_older [OF ok that(1)] gates_locked [OF ok that(2)] by simp
  qed
  ultimately show ?thesis
    using mutex_semaphore.refines [OF refl assms] mutex_semaphore.bounded [OF refl assms]
      ms_no_panic [OF inv] ms_full [OF inv] by blast
qed

lemma mutex_semaphore_fifo_witness:
  "\<exists>m m'. run MutexSem_step [CallAcquire 1, SemStep 1, CallAcquire 2, SemStep 2, CallAcquire 3, SemStep 3,
         CallRelease 1] (NewMutexSemaphore (int 1)) = Some m
     \<and> MutexSem_step (SemStep 1) m = Some m' \<and> ms_pc m' 1 = MsIdle \<and> ms_waiters m' = [1]
     \<and> (\<exists>w. ms_pc m' w = MsGate 0 \<and> MutexSem_step (SemStep w) m' \<noteq> None)"
proof -
  obtain m where r: "run MutexSem_step [CallAcquire 1, SemStep 1, CallAcquire 2, SemStep 2, CallAcquire 3, SemStep 3,
      CallRelease 1] (NewMutexSemaphore (int 1)) = Some m"
    and p: "ms_pc m 1 = MsRel" "ms_waiters m = [0, 1]"
    by (simp add: NewMutexSemaphore_def MutexSem_Acquire_step_def MutexSem_Release_step_def Let_def max_goroutines_def)
  show ?thesis using mutex_semaphore_fifo [OF r, of 1] r p by auto
qed

text \<open>Without the discipline, the first \<^verbatim>\<open>Release\<close> of an unused semaphore panics.\<close>

lemma mutex_semaphore_panics:
  "MutexSem_Release_step t ((NewMutexSemaphore n)\<lparr>ms_pc := (\<lambda>_. MsIdle)(t := MsRel)\<rparr>)
     = Some ((NewMutexSemaphore n)\<lparr>ms_pc := (\<lambda>_. MsIdle)(t := MsPanic)\<rparr>)"
  by (simp add: MutexSem_Release_step_def NewMutexSemaphore_def)

end
