(* ===== verification/Sem_Cond.thy ===== *)
theory Sem_Cond
  imports Sem_Spec
begin

text \<open>
  \<^verbatim>\<open>CondSemaphore\<close> of \<^verbatim>\<open>syncx/semaphore.go\<close>. A critical section under \<^verbatim>\<open>c.mu\<close> is
  one step. \<^verbatim>\<open>cond.Wait\<close> unlocks and suspends in one step and locks again before it
  returns; \<^verbatim>\<open>cond.Signal\<close> wakes one of the goroutines that wait, any of them, if there is one:
  the action says which. A woken goroutine goes back to the test of its loop. \<open>cs_held\<close>
  is auxiliary.
\<close>

datatype cs_pc =
    CsIdle
  | CsLock      \<comment> \<open>\<open>Acquire\<close>: before \<open>c.mu.Lock()\<close>, or woken and before the next test\<close>
  | CsWait      \<comment> \<open>in \<open>c.cond.Wait()\<close>\<close>
  | CsRel       \<comment> \<open>\<open>Release\<close>: before \<open>c.mu.Lock()\<close>\<close>

record CondSemaphore =
  cs_count :: int
  cs_max :: int
  cs_notify :: "tid list"
  cs_pc :: "tid \<Rightarrow> cs_pc"
  cs_held :: nat

definition NewCondSemaphore :: "int \<Rightarrow> CondSemaphore" where
  "NewCondSemaphore init = \<lparr>cs_count = 0, cs_max = init, cs_notify = [], cs_pc = (\<lambda>_. CsIdle), cs_held = 0\<rparr>"

definition Cond_Acquire_step :: "tid \<Rightarrow> CondSemaphore \<Rightarrow> CondSemaphore option" where
  "Cond_Acquire_step t c =
     (if cs_pc c t = CsLock
      then (if cs_max c \<le> cs_count c
            then Some (c\<lparr>cs_notify := cs_notify c @ [t], cs_pc := (cs_pc c)(t := CsWait)\<rparr>)
            else Some (c\<lparr>cs_count := cs_count c + 1, cs_held := Suc (cs_held c), cs_pc := (cs_pc c)(t := CsIdle)\<rparr>))
      else None)"

text \<open>The \<open>k\<close>-th waiter is woken.\<close>

definition Cond_Release_step :: "tid \<Rightarrow> nat \<Rightarrow> CondSemaphore \<Rightarrow> CondSemaphore option" where
  "Cond_Release_step t k c =
     (if cs_pc c t = CsRel
      then (let c1 = c\<lparr>cs_count := cs_count c - 1, cs_pc := (cs_pc c)(t := CsIdle)\<rparr>
            in if cs_notify c = [] then Some c1
               else if k < length (cs_notify c)
               then (let w = cs_notify c ! k
                     in Some (c1\<lparr>cs_notify := filter (\<lambda>u. u \<noteq> w) (cs_notify c),
                                 cs_pc := (cs_pc c1)(w := CsLock)\<rparr>))
               else None)
      else None)"

datatype cs_act = CsCall sem_act | CsSignal tid nat

fun Cond_step :: "cs_act \<Rightarrow> CondSemaphore \<Rightarrow> CondSemaphore option" where
  "Cond_step (CsCall (CallAcquire t)) c =
     (if cs_pc c t = CsIdle \<and> t < max_goroutines then Some (c\<lparr>cs_pc := (cs_pc c)(t := CsLock)\<rparr>) else None)"
| "Cond_step (CsCall (CallRelease t)) c =
     (if cs_pc c t = CsIdle \<and> t < max_goroutines \<and> 0 < cs_held c
      then Some (c\<lparr>cs_held := cs_held c - 1, cs_pc := (cs_pc c)(t := CsRel)\<rparr>) else None)"
| "Cond_step (CsCall (SemStep t)) c = Cond_Acquire_step t c"
| "Cond_step (CsSignal t k) c = Cond_Release_step t k c"

text \<open>
  The count is the permits held or on their way back; the notify list holds the waiting goroutines;
  and if anybody waits, as many goroutines are at the test as there are free permits.
\<close>

definition cs_inv :: "nat \<Rightarrow> CondSemaphore \<Rightarrow> bool" where
  "cs_inv n c \<longleftrightarrow> active CsIdle (cs_pc c) \<and> cs_max c = int n
     \<and> cs_count c = int (cs_held c) + num (\<lambda>p. p = CsRel) (cs_pc c) \<and> cs_count c \<le> int n
     \<and> distinct (cs_notify c) \<and> (\<forall>t. t \<in> set (cs_notify c) \<longleftrightarrow> cs_pc c t = CsWait)
     \<and> (cs_notify c \<noteq> [] \<longrightarrow> int n - cs_count c \<le> num (\<lambda>p. p = CsLock) (cs_pc c))"

lemmas cs_num =
  num_upd [where idle = CsIdle and P = "\<lambda>p. p = CsRel", simplified]
  num_upd [where idle = CsIdle and P = "\<lambda>p. p = CsLock", simplified]

lemma cs_inv_call:
  assumes "cs_inv n c" and "cs_pc c t = CsIdle" and "t < max_goroutines"
  shows "cs_inv n (c\<lparr>cs_pc := (cs_pc c)(t := CsLock)\<rparr>)"
    and "0 < cs_held c \<Longrightarrow> cs_inv n (c\<lparr>cs_held := cs_held c - Suc 0, cs_pc := (cs_pc c)(t := CsRel)\<rparr>)"
  using assms by (auto simp: cs_inv_def active_call cs_num of_nat_diff)

lemma cs_inv_acquire:
  assumes inv: "cs_inv n c" and st: "Cond_Acquire_step t c = Some c'"
  shows "cs_inv n c'"
proof -
  have t: "cs_pc c t = CsLock" "active CsIdle ((cs_pc c)(t := p))" for p
    using st inv by (auto simp: Cond_Acquire_step_def cs_inv_def active_move split: if_splits)
  then have nt: "t \<notin> set (cs_notify c)" using inv by (auto simp: cs_inv_def)
  have "0 < num (\<lambda>p. p = CsLock) (cs_pc c)"
    using num_pos [where idle = CsIdle and P = "\<lambda>p. p = CsLock"] inv t by (simp add: cs_inv_def)
  then show ?thesis using st inv t nt
    by (auto simp: Cond_Acquire_step_def cs_inv_def cs_num split: if_splits)
qed

lemma cs_inv_release:
  assumes inv: "cs_inv n c" and st: "Cond_Release_step t k c = Some c'"
  shows "cs_inv n c'"
proof -
  let ?pc = "(cs_pc c)(t := CsIdle)"
  have t: "cs_pc c t = CsRel" and a: "active CsIdle (cs_pc c)"
    using st inv by (auto simp: Cond_Release_step_def cs_inv_def split: if_splits)
  have a1: "active CsIdle ?pc" using a t by (intro active_move) simp_all
  show ?thesis
  proof (cases "cs_notify c = []")
    case True
    then show ?thesis using st inv t a1 a by (auto simp: Cond_Release_step_def cs_inv_def cs_num split: if_splits)
  next
    case False
    then have k: "k < length (cs_notify c)" using st t by (auto simp: Cond_Release_step_def Let_def split: if_splits)
    let ?w = "cs_notify c ! k"
    have w: "?w \<in> set (cs_notify c)" "cs_pc c ?w = CsWait"
      using k inv nth_mem [OF k] unfolding cs_inv_def by blast+
    have c': "c' = c\<lparr>cs_count := cs_count c - 1, cs_notify := filter (\<lambda>u. u \<noteq> ?w) (cs_notify c),
        cs_pc := ?pc(?w := CsLock)\<rparr>"
      using st t False k by (simp add: Cond_Release_step_def Let_def)
    have wt: "?w \<noteq> t" using w t by auto
    have a2: "active CsIdle (?pc(?w := CsLock))" by (rule active_move [OF a1]) (use w wt in simp)
    have n: "num (\<lambda>p. p = CsRel) (?pc(?w := CsLock)) = num (\<lambda>p. p = CsRel) (cs_pc c) - 1"
      "num (\<lambda>p. p = CsLock) (?pc(?w := CsLock)) = num (\<lambda>p. p = CsLock) (cs_pc c) + 1"
      using w wt t a a1 by (simp_all add: cs_num)
    show ?thesis
      using inv a2 n t w wt False unfolding cs_inv_def c' by (auto split: if_splits)
  qed
qed

interpretation cond_semaphore:
  semaphore "\<lambda>c. c = NewCondSemaphore (int n)" Cond_step "cs_inv n" n cs_held
proof
  show "cs_inv n c" if "c = NewCondSemaphore (int n)" for c
    using that by (simp add: cs_inv_def NewCondSemaphore_def)
  show "cs_held c = 0" if "c = NewCondSemaphore (int n)" for c
    using that by (simp add: NewCondSemaphore_def)
  show step: "cs_inv n c'" if "cs_inv n c" and "Cond_step a c = Some c'" for c a c'
  proof -
    consider t where "a = CsCall (CallAcquire t)" | t where "a = CsCall (CallRelease t)"
      | t where "a = CsCall (SemStep t)" | t k where "a = CsSignal t k"
      by (metis cs_act.exhaust sem_act.exhaust)
    then show ?thesis using that
      by cases (auto split: if_splits intro: cs_inv_call cs_inv_acquire cs_inv_release)
  qed
  show "cs_held c' = cs_held c \<or> (\<exists>b. spec_sem n b (cs_held c) = Some (cs_held c'))"
    if inv: "cs_inv n c" and st: "Cond_step a c = Some c'" for c a c'
  proof -
    have "cs_held c' = cs_held c \<or> cs_held c' = Suc (cs_held c) \<or> 0 < cs_held c \<and> cs_held c' = cs_held c - 1"
      using st by (induction a c rule: Cond_step.induct)
        (auto simp: Cond_Acquire_step_def Cond_Release_step_def Let_def split: if_splits)
    moreover have "int (cs_held c') \<le> int n"
      using step [OF inv st] num_nonneg [of "\<lambda>p. p = CsRel" "cs_pc c'"] unfolding cs_inv_def by linarith
    ultimately show ?thesis
      by (elim disjE conjE) (auto intro: exI [of _ SpecAcquire] exI [of _ SpecRelease])
  qed
qed

definition cs_inside :: "cs_act set" where
  "cs_inside = {a. \<exists>t k. a = CsCall (SemStep t) \<or> a = CsSignal t k}"

definition cs_waits :: "CondSemaphore \<Rightarrow> tid \<Rightarrow> bool" where
  "cs_waits c t \<longleftrightarrow> cs_pc c t = CsLock \<or> cs_pc c t = CsWait"

lemma cs_moves:
  "cs_pc c u = CsLock \<Longrightarrow> \<exists>c'. Cond_step (CsCall (SemStep u)) c = Some c' \<and> cs_pc c' u \<noteq> cs_pc c u"
  "cs_pc c u = CsRel \<Longrightarrow> \<exists>c'. Cond_step (CsSignal u 0) c = Some c' \<and> cs_count c' \<noteq> cs_count c"
  by (auto simp: Cond_Acquire_step_def Cond_Release_step_def Let_def)

lemma cs_quiet:
  assumes "quiet Cond_step cs_inside c"
  shows "cs_pc c u \<noteq> CsLock" and "cs_pc c u \<noteq> CsRel"
  using cs_moves(1) [of c u] cs_moves(2) [of c u] quietD [OF assms, of "CsCall (SemStep u)"] quietD [OF assms, of "CsSignal u 0"]
  by (auto simp: cs_inside_def)

interpretation cond_semaphore: lossless_semaphore "\<lambda>c. c = NewCondSemaphore (int n)" Cond_step "cs_inv n" n cs_held
  cs_inside cs_waits
proof
  show "cs_held c = n" if inv: "cs_inv n c" and w: "cs_waits c t" and q: "quiet Cond_step cs_inside c" for c t
  proof -
    have "cs_pc c t = CsWait" using w cs_quiet(1) [OF q] by (simp add: cs_waits_def)
    then have "int n - cs_count c \<le> num (\<lambda>p. p = CsLock) (cs_pc c)"
      using inv unfolding cs_inv_def by (metis empty_iff empty_set)
    moreover have "num (\<lambda>p. p = CsLock) (cs_pc c) = 0" "num (\<lambda>p. p = CsRel) (cs_pc c) = 0"
      using cs_quiet [OF q] by (simp_all add: num_def)
    ultimately show ?thesis using inv by (simp add: cs_inv_def)
  qed
qed

text \<open>\<^verbatim>\<open>CondSemaphore\<close> with \<open>n\<close> permits refines the counting semaphore with limit \<open>n\<close>,
  whichever waiters the signals wake, and loses no wake-up: while a goroutine waits, there are at least as
  many goroutines at the test as free permits, so a permit stays unused only as long as
  nobody who is awake takes his next step.\<close>

theorem cond_semaphore_correct:
  assumes "run Cond_step as (NewCondSemaphore (int n)) = Some c"
  shows "(\<exists>bs. run (spec_sem n) bs 0 = Some (cs_held c)) \<and> cs_held c \<le> n
    \<and> (cs_pc c t = CsWait \<longrightarrow> int n - cs_count c \<le> num (\<lambda>p. p = CsLock) (cs_pc c)
         \<and> (cs_count c < int n \<longrightarrow> (\<exists>u c'. Cond_step (CsCall (SemStep u)) c = Some c' \<and> cs_held c' = Suc (cs_held c))))"
proof -
  note inv = cond_semaphore.invariant [OF refl assms]
  have "int n - cs_count c \<le> num (\<lambda>p. p = CsLock) (cs_pc c)" if "cs_pc c t = CsWait"
    using inv that unfolding cs_inv_def by (metis empty_iff empty_set)
  moreover have "\<exists>u c'. Cond_step (CsCall (SemStep u)) c = Some c' \<and> cs_held c' = Suc (cs_held c)"
    if few: "int n - cs_count c \<le> num (\<lambda>p. p = CsLock) (cs_pc c)" and room: "cs_count c < int n"
  proof -
    have "0 < num (\<lambda>p. p = CsLock) (cs_pc c)" using few room by linarith
    then obtain u where "cs_pc c u = CsLock" using num_posD [of "\<lambda>p. p = CsLock" "cs_pc c"] by blast
    moreover have "cs_max c = int n" using inv by (simp add: cs_inv_def)
    ultimately show ?thesis using room by (intro exI [of _ u]) (simp add: Cond_Acquire_step_def)
  qed
  ultimately show ?thesis
    using cond_semaphore.refines [OF refl assms] cond_semaphore.bounded [OF refl assms] by blast
qed

lemma cond_semaphore_witness:
  "\<exists>c. run Cond_step [CsCall (CallAcquire 1), CsCall (SemStep 1), CsCall (CallAcquire 2), CsCall (SemStep 2),
         CsCall (CallAcquire 3), CsCall (SemStep 3), CsCall (CallRelease 1), CsSignal 1 1] (NewCondSemaphore (int 1)) = Some c
     \<and> cs_pc c 2 = CsWait
     \<and> (\<exists>u c'. Cond_step (CsCall (SemStep u)) c = Some c' \<and> cs_held c' = Suc (cs_held c))"
proof -
  obtain c where r: "run Cond_step [CsCall (CallAcquire 1), CsCall (SemStep 1), CsCall (CallAcquire 2),
      CsCall (SemStep 2), CsCall (CallAcquire 3), CsCall (SemStep 3), CsCall (CallRelease 1), CsSignal 1 1]
      (NewCondSemaphore (int 1)) = Some c"
    and p: "cs_pc c 2 = CsWait" "cs_count c = 0"
    by (simp add: NewCondSemaphore_def Cond_Acquire_step_def Cond_Release_step_def Let_def max_goroutines_def)
  show ?thesis using cond_semaphore_correct [OF r, of 2] r p by auto
qed

end
