(* ===== verification/Sem_Runtime.thy ===== *)
theory Sem_Runtime
  imports Sem_Spec Park
begin

text \<open>
  \<^verbatim>\<open>RuntimeSemaphore\<close> of \<^verbatim>\<open>syncx/semaphore.go\<close>: an atomic count of permits that may
  go negative, and the runtime's semaphore to park on. The auxiliary \<open>rs_held\<close> counts the
  permits held. Before that, the arithmetic it shares with \<^verbatim>\<open>LockfreeSemaphore\<close>.
\<close>

section \<open>Counts with a deficit\<close>

text \<open>
  Of \<open>n\<close> permits, with the counter at \<open>p\<close>: \<open>h\<close> are held, \<open>a\<close> are on their way back in
  \<^verbatim>\<open>Release\<close>, \<open>w\<close> goroutines have decremented and wait, and \<open>g\<close> grants are under way to them.
\<close>

definition deficit :: "int \<Rightarrow> int \<Rightarrow> int \<Rightarrow> int \<Rightarrow> int \<Rightarrow> int \<Rightarrow> bool" where
  "deficit n p h a w g \<longleftrightarrow> p + h + a + w = n \<and> w = g + max 0 (- p)"

lemma deficit_held: "deficit n p h a w g \<Longrightarrow> 0 \<le> g \<Longrightarrow> h + a \<le> n"
  by (auto simp: deficit_def max_def split: if_splits)

lemma deficit_range:
  "deficit n p h a w g \<Longrightarrow> 0 \<le> g \<Longrightarrow> 0 \<le> w \<Longrightarrow> 0 \<le> h \<Longrightarrow> 0 \<le> a \<Longrightarrow> - w \<le> p \<and> p \<le> n"
  by (auto simp: deficit_def max_def split: if_splits)

lemma deficit_take: "deficit n p h a w g \<Longrightarrow> 0 < p \<Longrightarrow> deficit n (p - 1) (h + 1) a w g"
  by (auto simp: deficit_def max_def split: if_splits)

lemma deficit_wait: "deficit n p h a w g \<Longrightarrow> p \<le> 0 \<Longrightarrow> deficit n (p - 1) h a (w + 1) g"
  by (auto simp: deficit_def max_def split: if_splits)

lemma deficit_call: "deficit n p h a w g \<Longrightarrow> deficit n p (h - 1) (a + 1) w g"
  by (auto simp: deficit_def)

lemma deficit_return: "deficit n p h a w g \<Longrightarrow> 0 \<le> p \<Longrightarrow> deficit n (p + 1) h (a - 1) w g"
  by (auto simp: deficit_def max_def split: if_splits)

lemma deficit_grant: "deficit n p h a w g \<Longrightarrow> p < 0 \<Longrightarrow> deficit n (p + 1) h (a - 1) w (g + 1)"
  by (auto simp: deficit_def max_def split: if_splits)

lemma deficit_wake: "deficit n p h a w g \<Longrightarrow> deficit n p (h + 1) a (w - 1) (g - 1)"
  by (auto simp: deficit_def)

lemma deficit_below: "deficit n p h a w g \<Longrightarrow> 0 < a \<Longrightarrow> 0 \<le> g \<Longrightarrow> 0 \<le> h \<Longrightarrow> p < n"
  by (auto simp: deficit_def max_def split: if_splits)

text \<open>When somebody waits and no grant is under way, every permit is out.\<close>

lemma deficit_no_grant: "deficit n p h a w 0 \<Longrightarrow> 0 < w \<Longrightarrow> h + a = n"
  by (auto simp: deficit_def max_def split: if_splits)

lemma deficit_spare: "deficit n p h a w g \<Longrightarrow> 0 < p \<Longrightarrow> 0 \<le> g \<Longrightarrow> 0 \<le> a \<Longrightarrow> h < n"
  by (auto simp: deficit_def max_def split: if_splits)

lemma deficit_owed: "deficit n p h a w g \<Longrightarrow> 0 < g \<Longrightarrow> 0 \<le> a \<Longrightarrow> h < n"
  by (auto simp: deficit_def max_def split: if_splits)

section \<open>RuntimeSemaphore\<close>

datatype rs_pc =
    RsIdle
  | RsLoad         \<comment> \<open>\<open>Acquire\<close>: \<open>val := r.permits.Load()\<close>\<close>
  | RsCas i64      \<comment> \<open>\<open>r.permits.CompareAndSwap(val, val-1)\<close>\<close>
  | RsPark         \<comment> \<open>\<open>runtime_Semacquire(&r.sema)\<close>\<close>
  | RsAdd          \<comment> \<open>\<open>Release\<close>: \<open>r.permits.Add(1)\<close>\<close>
  | RsWake         \<comment> \<open>\<open>runtime_Semrelease(&r.sema, false, 0)\<close>\<close>

record RuntimeSemaphore =
  rs_permits :: i64
  rs_sema :: u32
  rs_pc :: "tid \<Rightarrow> rs_pc"
  rs_held :: nat

definition NewRuntimeSemaphore :: "i64 \<Rightarrow> RuntimeSemaphore" where
  "NewRuntimeSemaphore init = \<lparr>rs_permits = init, rs_sema = 0, rs_pc = (\<lambda>_. RsIdle), rs_held = 0\<rparr>"

abbreviation rs_goto :: "tid \<Rightarrow> rs_pc \<Rightarrow> RuntimeSemaphore \<Rightarrow> RuntimeSemaphore" where
  "rs_goto t p s \<equiv> s\<lparr>rs_pc := (rs_pc s)(t := p)\<rparr>"

definition Runtime_Acquire_step :: "tid \<Rightarrow> RuntimeSemaphore \<Rightarrow> RuntimeSemaphore option" where
  "Runtime_Acquire_step t r =
     (case rs_pc r t of
        RsLoad \<Rightarrow> Some (rs_goto t (RsCas (rs_permits r)) r)
      | RsCas val \<Rightarrow>
          (if rs_permits r = val
           then (let r1 = r\<lparr>rs_permits := val - 1\<rparr>
                 in if val \<le>s 0 then Some (rs_goto t RsPark r1)
                    else Some (rs_goto t RsIdle (r1\<lparr>rs_held := Suc (rs_held r)\<rparr>)))
           else Some (rs_goto t RsLoad r))
      | RsPark \<Rightarrow>
          (case runtime_Semacquire (rs_sema r) of
             None \<Rightarrow> None
           | Some n \<Rightarrow> Some (rs_goto t RsIdle (r\<lparr>rs_sema := n, rs_held := Suc (rs_held r)\<rparr>)))
      | _ \<Rightarrow> None)"

definition Runtime_Release_step :: "tid \<Rightarrow> RuntimeSemaphore \<Rightarrow> RuntimeSemaphore option" where
  "Runtime_Release_step t r =
     (case rs_pc r t of
        RsAdd \<Rightarrow>
          (let after = rs_permits r + 1; r1 = r\<lparr>rs_permits := after\<rparr>
           in Some (rs_goto t (if after \<le>s 0 then RsWake else RsIdle) r1))
      | RsWake \<Rightarrow> Some (rs_goto t RsIdle (r\<lparr>rs_sema := runtime_Semrelease (rs_sema r)\<rparr>))
      | _ \<Rightarrow> None)"

text \<open>A client releases a permit only when one is held.\<close>

fun Runtime_step :: "sem_act \<Rightarrow> RuntimeSemaphore \<Rightarrow> RuntimeSemaphore option" where
  "Runtime_step (CallAcquire t) r =
     (if rs_pc r t = RsIdle \<and> t < max_goroutines then Some (rs_goto t RsLoad r) else None)"
| "Runtime_step (CallRelease t) r =
     (if rs_pc r t = RsIdle \<and> t < max_goroutines \<and> 0 < rs_held r
      then Some (rs_goto t RsAdd (r\<lparr>rs_held := rs_held r - 1\<rparr>)) else None)"
| "Runtime_step (SemStep t) r =
     (case Runtime_Acquire_step t r of Some r' \<Rightarrow> Some r' | None \<Rightarrow> Runtime_Release_step t r)"

definition rs_grants :: "RuntimeSemaphore \<Rightarrow> int" where
  "rs_grants r = num (\<lambda>p. p = RsWake) (rs_pc r) + uint (rs_sema r)"

definition rs_inv :: "nat \<Rightarrow> RuntimeSemaphore \<Rightarrow> bool" where
  "rs_inv n r \<longleftrightarrow> active RsIdle (rs_pc r) \<and> n < 2 ^ 63
     \<and> deficit (int n) (sint (rs_permits r)) (int (rs_held r)) (num (\<lambda>p. p = RsAdd) (rs_pc r))
         (num (\<lambda>p. p = RsPark) (rs_pc r)) (rs_grants r)"

lemmas rs_num =
  num_upd [where idle = RsIdle and P = "\<lambda>p. p = RsAdd", simplified]
  num_upd [where idle = RsIdle and P = "\<lambda>p. p = RsPark", simplified]
  num_upd [where idle = RsIdle and P = "\<lambda>p. p = RsWake", simplified]

lemma rs_inv_parts:
  assumes "rs_inv n r"
  shows rs_active: "active RsIdle (rs_pc r)" and rs_n: "n < 2 ^ 63"
    and rs_deficit: "deficit (int n) (sint (rs_permits r)) (int (rs_held r)) (num (\<lambda>p. p = RsAdd) (rs_pc r))
         (num (\<lambda>p. p = RsPark) (rs_pc r)) (rs_grants r)"
  using assms unfolding rs_inv_def by blast+

lemma rs_grants_nonneg: "0 \<le> rs_grants r"
  by (simp add: rs_grants_def)

lemma rs_range:
  assumes "rs_inv n r"
  shows "- (2 ^ 31) \<le> sint (rs_permits r)" and "sint (rs_permits r) \<le> int n"
    and "rs_grants r \<le> 2 ^ 31"
proof -
  note d = rs_deficit [OF assms]
  have w: "num (\<lambda>p. p = RsPark) (rs_pc r) \<le> 2 ^ 31"
    using num_le [where idle = RsIdle and P = "\<lambda>p. p = RsPark"] rs_active [OF assms] by simp
  have "- num (\<lambda>p. p = RsPark) (rs_pc r) \<le> sint (rs_permits r) \<and> sint (rs_permits r) \<le> int n"
    by (rule deficit_range [OF d rs_grants_nonneg]) simp_all
  with w show "- (2 ^ 31) \<le> sint (rs_permits r)" "sint (rs_permits r) \<le> int n" by linarith+
  show "rs_grants r \<le> 2 ^ 31" using d w by (auto simp: deficit_def max_def split: if_splits)
qed

lemma rs_inv_call:
  assumes inv: "rs_inv n r" and t: "t < max_goroutines" "rs_pc r t = RsIdle"
  shows "rs_inv n (rs_goto t RsLoad r)"
    and "0 < rs_held r \<Longrightarrow> rs_inv n (r\<lparr>rs_held := rs_held r - Suc 0, rs_pc := (rs_pc r)(t := RsAdd)\<rparr>)"
  using inv t deficit_call [OF rs_deficit [OF inv]]
  by (simp_all add: rs_inv_def active_call rs_num rs_grants_def of_nat_diff)

lemma rs_inv_load:
  assumes inv: "rs_inv n r" and t: "rs_pc r t = RsLoad \<or> rs_pc r t = RsCas v" and p: "p = RsLoad \<or> p = RsCas v'"
  shows "rs_inv n (rs_goto t p r)"
  using inv t p by (auto simp: rs_inv_def active_move rs_num rs_grants_def)

lemma rs_inv_cas:
  assumes inv: "rs_inv n r" and t: "rs_pc r t = RsCas (rs_permits r)"
  shows "rs_permits r \<le>s 0 \<Longrightarrow> rs_inv n (r\<lparr>rs_permits := rs_permits r - 1, rs_pc := (rs_pc r)(t := RsPark)\<rparr>)"
    and "\<not> rs_permits r \<le>s 0 \<Longrightarrow>
      rs_inv n (r\<lparr>rs_permits := rs_permits r - 1, rs_held := Suc (rs_held r), rs_pc := (rs_pc r)(t := RsIdle)\<rparr>)"
proof -
  note d = rs_deficit [OF inv] and a = rs_active [OF inv]
  have m: "sint (rs_permits r - 1) = sint (rs_permits r) - 1"
    using rs_range(1) [OF inv] by (intro sint_i64_sub_1) simp
  have ac: "active RsIdle ((rs_pc r)(t := p))" for p using a t by (intro active_move) simp_all
  show "rs_inv n (r\<lparr>rs_permits := rs_permits r - 1, rs_pc := (rs_pc r)(t := RsPark)\<rparr>)" if "rs_permits r \<le>s 0"
    using deficit_wait [OF d] that rs_n [OF inv] m a ac t
    by (simp add: rs_inv_def rs_num rs_grants_def word_sle_eq)
  show "rs_inv n (r\<lparr>rs_permits := rs_permits r - 1, rs_held := Suc (rs_held r), rs_pc := (rs_pc r)(t := RsIdle)\<rparr>)"
    if "\<not> rs_permits r \<le>s 0"
    using deficit_take [OF d] that rs_n [OF inv] m a ac t
    by (simp add: rs_inv_def rs_num rs_grants_def word_sle_eq add.commute)
qed

lemma rs_inv_wake:
  assumes inv: "rs_inv n r" and t: "rs_pc r t = RsPark" and s: "runtime_Semacquire (rs_sema r) = Some m"
  shows "rs_inv n (r\<lparr>rs_sema := m, rs_held := Suc (rs_held r), rs_pc := (rs_pc r)(t := RsIdle)\<rparr>)"
proof -
  have nz: "rs_sema r \<noteq> 0" and m: "m = rs_sema r - 1"
    using s by (auto simp: runtime_Semacquire_def split: if_splits)
  let ?r = "r\<lparr>rs_sema := m, rs_held := Suc (rs_held r), rs_pc := (rs_pc r)(t := RsIdle)\<rparr>"
  have "rs_grants ?r = rs_grants r - 1"
    using nz t rs_active [OF inv] by (simp add: rs_grants_def rs_num m uint_pred)
  then show ?thesis
    using deficit_wake [OF rs_deficit [OF inv]] inv t rs_active [OF inv]
    by (simp add: rs_inv_def active_move rs_num add.commute)
qed

lemma rs_inv_add:
  assumes inv: "rs_inv n r" and t: "rs_pc r t = RsAdd"
  shows "rs_permits r + 1 \<le>s 0 \<Longrightarrow>
      rs_inv n (r\<lparr>rs_permits := rs_permits r + 1, rs_pc := (rs_pc r)(t := RsWake)\<rparr>)"
    and "\<not> rs_permits r + 1 \<le>s 0 \<Longrightarrow>
      rs_inv n (r\<lparr>rs_permits := rs_permits r + 1, rs_pc := (rs_pc r)(t := RsIdle)\<rparr>)"
proof -
  note d = rs_deficit [OF inv] and a = rs_active [OF inv]
  have "0 < num (\<lambda>p. p = RsAdd) (rs_pc r)"
    using num_pos [where idle = RsIdle and P = "\<lambda>p. p = RsAdd"] a t by simp
  then have "sint (rs_permits r) < int n"
    using deficit_below [OF d _ rs_grants_nonneg] by simp
  then have m: "sint (rs_permits r + 1) = sint (rs_permits r) + 1"
    using rs_n [OF inv] by (intro sint_i64_add_1) simp
  show "rs_inv n (r\<lparr>rs_permits := rs_permits r + 1, rs_pc := (rs_pc r)(t := RsWake)\<rparr>)"
    if "rs_permits r + 1 \<le>s 0"
    using that deficit_grant [OF d] m inv t a
    by (simp add: rs_inv_def active_move rs_num rs_grants_def word_sle_eq algebra_simps)
  show "rs_inv n (r\<lparr>rs_permits := rs_permits r + 1, rs_pc := (rs_pc r)(t := RsIdle)\<rparr>)"
    if "\<not> rs_permits r + 1 \<le>s 0"
    using that deficit_return [OF d] m inv t a
    by (simp add: rs_inv_def active_move rs_num rs_grants_def word_sle_eq algebra_simps)
qed

lemma rs_inv_release:
  assumes inv: "rs_inv n r" and t: "rs_pc r t = RsWake"
  shows "rs_inv n (r\<lparr>rs_sema := runtime_Semrelease (rs_sema r), rs_pc := (rs_pc r)(t := RsIdle)\<rparr>)"
proof -
  have "uint (rs_sema r) < 2 ^ 32 - 1"
  proof -
    have "uint (rs_sema r) \<le> rs_grants r" by (simp add: rs_grants_def)
    then show ?thesis using rs_range(3) [OF inv] by simp
  qed
  then have "uint (rs_sema r + 1) = uint (rs_sema r) + 1"
    by (simp add: uint_word_ariths mod_pos_pos_trivial)
  then show ?thesis
    using inv t by (simp add: rs_inv_def active_move rs_num rs_grants_def runtime_Semrelease_def)
qed

lemma rs_inv_step:
  assumes inv: "rs_inv n r" and st: "Runtime_step a r = Some r'"
  shows "rs_inv n r'"
proof (cases a)
  case (SemStep t)
  then show ?thesis using st inv
    by (auto simp: Runtime_Acquire_step_def Runtime_Release_step_def Let_def
        split: rs_pc.splits if_splits option.splits
        intro: rs_inv_load rs_inv_cas rs_inv_wake rs_inv_add rs_inv_release)
qed (use st inv in \<open>auto intro: rs_inv_call split: if_splits\<close>)

text \<open>The contract of a semaphore.\<close>

interpretation runtime_semaphore:
  semaphore "\<lambda>r. r = NewRuntimeSemaphore (of_nat n) \<and> n < 2 ^ 63" Runtime_step "rs_inv n" n rs_held
proof
  show "rs_inv n r" if "r = NewRuntimeSemaphore (of_nat n) \<and> n < 2 ^ 63" for r
  proof -
    have "sint (word_of_int (int n) :: i64) = int n" using that by (intro sint_word_of_int_i64) auto
    then show ?thesis using that by (simp add: rs_inv_def NewRuntimeSemaphore_def rs_grants_def deficit_def)
  qed
  show "rs_held r = 0" if "r = NewRuntimeSemaphore (of_nat n) \<and> n < 2 ^ 63" for r
    using that by (simp add: NewRuntimeSemaphore_def)
  show "rs_inv n r'" if "rs_inv n r" and "Runtime_step a r = Some r'" for r a r'
    using rs_inv_step that .
  show "rs_held r' = rs_held r \<or> (\<exists>b. spec_sem n b (rs_held r) = Some (rs_held r'))"
    if inv: "rs_inv n r" and st: "Runtime_step a r = Some r'" for r a r'
  proof -
    have "rs_held r' = rs_held r \<or> rs_held r' = Suc (rs_held r) \<or> 0 < rs_held r \<and> rs_held r' = rs_held r - 1"
      using st by (cases a) (auto simp: Runtime_Acquire_step_def Runtime_Release_step_def Let_def
        split: rs_pc.splits if_splits option.splits)
    moreover have "int (rs_held r') \<le> int n"
      using deficit_held [OF rs_deficit [OF rs_inv_step [OF inv st]] rs_grants_nonneg]
        num_nonneg [of "\<lambda>p. p = RsAdd" "rs_pc r'"] by linarith
    ultimately show ?thesis
      by (elim disjE conjE) (auto intro: exI [of _ SpecAcquire] exI [of _ SpecRelease])
  qed
qed

definition rs_waits :: "RuntimeSemaphore \<Rightarrow> tid \<Rightarrow> bool" where
  "rs_waits r t \<longleftrightarrow> rs_pc r t = RsLoad \<or> (\<exists>v. rs_pc r t = RsCas v) \<or> rs_pc r t = RsPark"

lemma rs_moves:
  assumes "rs_pc r u \<noteq> RsIdle" and "rs_pc r u = RsPark \<Longrightarrow> rs_sema r \<noteq> 0"
  shows "\<exists>r'. Runtime_step (SemStep u) r = Some r' \<and> rs_pc r' u \<noteq> rs_pc r u"
  using assms by (cases "rs_pc r u")
    (auto simp: Runtime_Acquire_step_def Runtime_Release_step_def runtime_Semacquire_def Let_def)

lemma rs_quiet:
  assumes "quiet Runtime_step sem_inside r" and "rs_pc r u \<noteq> RsIdle"
  shows "rs_pc r u = RsPark \<and> rs_sema r = 0"
  using rs_moves [OF assms(2)] quietD [OF assms(1), of "SemStep u"] by (fastforce simp: sem_inside_def)

interpretation runtime_semaphore: lossless_semaphore "\<lambda>r. r = NewRuntimeSemaphore (of_nat n) \<and> n < 2 ^ 63" Runtime_step
  "rs_inv n" n rs_held sem_inside rs_waits
proof
  show "rs_held r = n" if inv: "rs_inv n r" and w: "rs_waits r t" and q: "quiet Runtime_step sem_inside r" for r t
  proof -
    have t: "rs_pc r t = RsPark" "rs_sema r = 0" using w rs_quiet [OF q, of t] by (auto simp: rs_waits_def)
    have "rs_pc r u \<noteq> RsAdd" "rs_pc r u \<noteq> RsWake" for u using rs_quiet [OF q, of u] by auto
    then have z: "num (\<lambda>p. p = RsAdd) (rs_pc r) = 0" "num (\<lambda>p. p = RsWake) (rs_pc r) = 0" by (simp_all add: num_def)
    then have "rs_grants r = 0" using t(2) by (simp add: rs_grants_def)
    moreover have "0 < num (\<lambda>p. p = RsPark) (rs_pc r)"
      using num_pos [where idle = RsIdle and P = "\<lambda>p. p = RsPark"] t(1) rs_active [OF inv] by simp
    ultimately show ?thesis using deficit_no_grant [of "int n"] rs_deficit [OF inv] z(1) by (metis add.right_neutral of_nat_eq_iff)
  qed
qed

text \<open>\<^verbatim>\<open>RuntimeSemaphore\<close> with \<open>n\<close> permits, under every interleaving of disciplined clients:
  it refines the counting semaphore with limit \<open>n\<close>, so at most \<open>n\<close> permits are held at any
  time, and no wake-up is lost: while a goroutine is parked and cannot go on, some goroutine is about to
  wake one up, or all \<open>n\<close> permits are held or still on their way back.\<close>

theorem runtime_semaphore_correct:
  assumes "run Runtime_step as (NewRuntimeSemaphore (of_nat n)) = Some r" and "n < 2 ^ 63"
  shows "(\<exists>bs. run (spec_sem n) bs 0 = Some (rs_held r)) \<and> rs_held r \<le> n
    \<and> (rs_pc r t = RsPark \<longrightarrow> Runtime_step (SemStep t) r = None \<longrightarrow>
         (\<exists>u. rs_pc r u = RsWake) \<or> int (rs_held r) + num (\<lambda>p. p = RsAdd) (rs_pc r) = int n)"
proof -
  let ?init = "NewRuntimeSemaphore (of_nat n)"
  have i: "?init = NewRuntimeSemaphore (of_nat n) \<and> n < 2 ^ 63" using assms(2) by simp
  note inv = runtime_semaphore.invariant [OF i assms(1)]
  have "(\<exists>u. rs_pc r u = RsWake) \<or> int (rs_held r) + num (\<lambda>p. p = RsAdd) (rs_pc r) = int n"
    if p: "rs_pc r t = RsPark" and b: "Runtime_step (SemStep t) r = None"
  proof (cases "0 < num (\<lambda>p. p = RsWake) (rs_pc r)")
    case True
    then show ?thesis using num_posD by blast
  next
    case False
    then have "num (\<lambda>p. p = RsWake) (rs_pc r) = 0"
      using num_nonneg [of "\<lambda>p. p = RsWake" "rs_pc r"] by linarith
    moreover have "rs_sema r = 0"
      using b p by (auto simp: Runtime_Acquire_step_def Runtime_Release_step_def runtime_Semacquire_def split: if_splits)
    ultimately have "rs_grants r = 0" by (simp add: rs_grants_def)
    moreover have "0 < num (\<lambda>p. p = RsPark) (rs_pc r)"
      using num_pos [where idle = RsIdle and P = "\<lambda>p. p = RsPark"] p rs_active [OF inv] by simp
    ultimately show ?thesis using deficit_no_grant rs_deficit [OF inv] by metis
  qed
  then show ?thesis
    using runtime_semaphore.refines [OF i assms(1)] runtime_semaphore.bounded [OF i assms(1)] by blast
qed

lemma runtime_semaphore_witness:
  "\<exists>r. run Runtime_step [CallAcquire 1, SemStep 1, SemStep 1, CallAcquire 2, SemStep 2, SemStep 2]
         (NewRuntimeSemaphore (of_nat 1)) = Some r
     \<and> rs_pc r 2 = RsPark \<and> ((\<exists>u. rs_pc r u = RsWake)
        \<or> int (rs_held r) + num (\<lambda>p. p = RsAdd) (rs_pc r) = int 1)"
proof -
  obtain r where r: "run Runtime_step [CallAcquire 1, SemStep 1, SemStep 1, CallAcquire 2, SemStep 2, SemStep 2]
      (NewRuntimeSemaphore (of_nat 1)) = Some r"
    and p: "rs_pc r 2 = RsPark" "Runtime_step (SemStep 2) r = None"
    by (simp add: NewRuntimeSemaphore_def Runtime_Acquire_step_def Runtime_Release_step_def
        runtime_Semacquire_def Let_def max_goroutines_def word_sle_eq)
  show ?thesis using runtime_semaphore_correct [OF r, of 2] r p by auto
qed

end
