(* ===== verification/Sem_Lockfree.thy ===== *)
theory Sem_Lockfree
  imports Sem_Runtime Queue_Spec
begin

text \<open>
  \<^verbatim>\<open>LockfreeSemaphore\<close> of \<^verbatim>\<open>syncx/semaphore.go\<close>, composed with the queue contract of
  \<^verbatim>\<open>queue.LockFreeMPMC\<close>: an operation that succeeds is one atomic step on the FIFO of
  capacity \<^verbatim>\<open>BoundedQueueSize\<close>; a refused \<^verbatim>\<open>Enqueue\<close> changes nothing and happens
  only to a full ring or while a \<^verbatim>\<open>Dequeue\<close> is still emptying its slot (theory
  \<open>Queue_LockFree\<close>). The code ignores the refusal. Gates are addresses of boolean cells.
  Auxiliary fields: \<open>ls_held\<close>, the permits held; \<open>ls_lost\<close>, the refused enqueues;
  \<open>ls_inflight\<close>, the dequeues that have taken a gate and not finished.
\<close>

section \<open>The code\<close>

datatype ls_pc =
    LsIdle
  | LsLoad          \<comment> \<open>\<open>Acquire\<close>: \<open>val = l.permits.Load()\<close>\<close>
  | LsCas i64       \<comment> \<open>\<open>l.permits.CompareAndSwap(val, val-1)\<close>\<close>
  | LsGate          \<comment> \<open>\<open>gate := &atomic.Bool{}\<close>\<close>
  | LsEnq nat       \<comment> \<open>\<open>l.waiters.Enqueue(gate)\<close>\<close>
  | LsSpin nat      \<comment> \<open>\<open>for !gate.Load()\<close>\<close>
  | LsAdd           \<comment> \<open>\<open>Release\<close>: \<open>after := l.permits.Add(1)\<close>\<close>
  | LsDeq           \<comment> \<open>\<open>l.waiters.Dequeue()\<close>\<close>
  | LsSet nat       \<comment> \<open>\<open>gate.Store(true)\<close>\<close>

record LockfreeSemaphore =
  ls_permits :: i64
  ls_waiters :: "nat list"
  ls_gate :: "nat \<Rightarrow> bool"
  ls_fresh :: nat
  ls_pc :: "tid \<Rightarrow> ls_pc"
  ls_held :: nat
  ls_lost :: nat
  ls_inflight :: nat

definition NewLockfreeSemaphore :: "i64 \<Rightarrow> LockfreeSemaphore" where
  "NewLockfreeSemaphore init = \<lparr>ls_permits = init, ls_waiters = [], ls_gate = (\<lambda>_. False), ls_fresh = 0,
     ls_pc = (\<lambda>_. LsIdle), ls_held = 0, ls_lost = 0, ls_inflight = 0\<rparr>"

abbreviation ls_goto :: "tid \<Rightarrow> ls_pc \<Rightarrow> LockfreeSemaphore \<Rightarrow> LockfreeSemaphore" where
  "ls_goto t p s \<equiv> s\<lparr>ls_pc := (ls_pc s)(t := p)\<rparr>"

definition Lockfree_Acquire_step :: "tid \<Rightarrow> LockfreeSemaphore \<Rightarrow> LockfreeSemaphore option" where
  "Lockfree_Acquire_step t l =
     (case ls_pc l t of
        LsLoad \<Rightarrow> Some (ls_goto t (LsCas (ls_permits l)) l)
      | LsCas val \<Rightarrow>
          (if ls_permits l = val
           then (if val \<le>s 0 then Some (l\<lparr>ls_permits := val - 1, ls_pc := (ls_pc l)(t := LsGate)\<rparr>)
                 else Some (l\<lparr>ls_permits := val - 1, ls_held := Suc (ls_held l),
                              ls_pc := (ls_pc l)(t := LsIdle)\<rparr>))
           else Some (ls_goto t LsLoad l))
      | LsGate \<Rightarrow>
          Some (l\<lparr>ls_fresh := Suc (ls_fresh l), ls_gate := (ls_gate l)(ls_fresh l := False),
                  ls_pc := (ls_pc l)(t := LsEnq (ls_fresh l))\<rparr>)
      | LsEnq gate \<Rightarrow>
          (case spec_queue BoundedQueueSize (Enq gate) (ls_waiters l) of
             (q, EnqRes True) \<Rightarrow> Some (l\<lparr>ls_waiters := q, ls_pc := (ls_pc l)(t := LsSpin gate)\<rparr>)
           | _ \<Rightarrow> None)
      | LsSpin gate \<Rightarrow>
          (if ls_gate l gate then Some (l\<lparr>ls_held := Suc (ls_held l), ls_pc := (ls_pc l)(t := LsIdle)\<rparr>)
           else Some l)
      | _ \<Rightarrow> None)"

text \<open>The refused \<^verbatim>\<open>Enqueue\<close>, whose result the code drops.\<close>

definition Lockfree_refused_step :: "tid \<Rightarrow> LockfreeSemaphore \<Rightarrow> LockfreeSemaphore option" where
  "Lockfree_refused_step t l =
     (case ls_pc l t of
        LsEnq gate \<Rightarrow>
          (if length (ls_waiters l) = BoundedQueueSize \<or> 0 < ls_inflight l
           then Some (l\<lparr>ls_lost := Suc (ls_lost l), ls_pc := (ls_pc l)(t := LsSpin gate)\<rparr>)
           else None)
      | _ \<Rightarrow> None)"

definition Lockfree_Release_step :: "tid \<Rightarrow> LockfreeSemaphore \<Rightarrow> LockfreeSemaphore option" where
  "Lockfree_Release_step t l =
     (case ls_pc l t of
        LsAdd \<Rightarrow>
          (let after = ls_permits l + 1
           in if after \<le>s 0 then Some (l\<lparr>ls_permits := after, ls_pc := (ls_pc l)(t := LsDeq)\<rparr>)
              else Some (l\<lparr>ls_permits := after, ls_pc := (ls_pc l)(t := LsIdle)\<rparr>))
      | LsDeq \<Rightarrow>
          (case spec_queue BoundedQueueSize Deq (ls_waiters l) of
             (q, DeqRes gate True) \<Rightarrow>
               Some (l\<lparr>ls_waiters := q, ls_inflight := Suc (ls_inflight l), ls_pc := (ls_pc l)(t := LsSet gate)\<rparr>)
           | _ \<Rightarrow> Some l)
      | LsSet gate \<Rightarrow>
          Some (l\<lparr>ls_gate := (ls_gate l)(gate := True), ls_inflight := ls_inflight l - 1,
                  ls_pc := (ls_pc l)(t := LsIdle)\<rparr>)
      | _ \<Rightarrow> None)"

datatype ls_act = LsCall sem_act | LsRefuse tid

fun Lockfree_step :: "ls_act \<Rightarrow> LockfreeSemaphore \<Rightarrow> LockfreeSemaphore option" where
  "Lockfree_step (LsCall (CallAcquire t)) l =
     (if ls_pc l t = LsIdle \<and> t < max_goroutines then Some (ls_goto t LsLoad l) else None)"
| "Lockfree_step (LsCall (CallRelease t)) l =
     (if ls_pc l t = LsIdle \<and> t < max_goroutines \<and> 0 < ls_held l
      then Some (l\<lparr>ls_held := ls_held l - 1, ls_pc := (ls_pc l)(t := LsAdd)\<rparr>) else None)"
| "Lockfree_step (LsCall (SemStep t)) l =
     (case Lockfree_Acquire_step t l of Some l' \<Rightarrow> Some l' | None \<Rightarrow> Lockfree_Release_step t l)"
| "Lockfree_step (LsRefuse t) l = Lockfree_refused_step t l"

section \<open>The invariant\<close>

text \<open>Goroutines that wait, and the grants under way to them.\<close>

definition ls_waits :: "ls_pc \<Rightarrow> bool" where
  "ls_waits p \<longleftrightarrow> p = LsGate \<or> (\<exists>g. p = LsEnq g \<or> p = LsSpin g)"

definition ls_due :: "ls_pc \<Rightarrow> bool" where
  "ls_due p \<longleftrightarrow> p = LsGate \<or> (\<exists>g. p = LsEnq g)"

definition ls_sets :: "ls_pc \<Rightarrow> bool" where
  "ls_sets p \<longleftrightarrow> (\<exists>g. p = LsSet g)"

text \<open>The gate a goroutine has made for itself.\<close>

definition ls_at :: "ls_pc \<Rightarrow> nat \<Rightarrow> bool" where
  "ls_at p g \<longleftrightarrow> p = LsEnq g \<or> p = LsSpin g"

definition ls_granted :: "(nat \<Rightarrow> bool) \<Rightarrow> ls_pc \<Rightarrow> bool" where
  "ls_granted gate p \<longleftrightarrow> p = LsDeq \<or> (\<exists>g. p = LsSet g) \<or> (\<exists>g. p = LsSpin g \<and> gate g)"

definition ls_pending :: "LockfreeSemaphore \<Rightarrow> nat \<Rightarrow> bool" where
  "ls_pending l g \<longleftrightarrow> g \<in> set (ls_waiters l) \<or> (\<exists>u. ls_pc l u = LsSet g)"

definition ls_gates :: "LockfreeSemaphore \<Rightarrow> bool" where
  "ls_gates l \<longleftrightarrow> distinct (ls_waiters l)
     \<and> (\<forall>t g. ls_at (ls_pc l t) g \<longrightarrow> g < ls_fresh l)
     \<and> (\<forall>t u g. ls_at (ls_pc l t) g \<longrightarrow> ls_at (ls_pc l u) g \<longrightarrow> t = u)
     \<and> (\<forall>t g. ls_pc l t = LsEnq g \<longrightarrow> \<not> ls_gate l g)
     \<and> (\<forall>t u g. ls_pc l t = LsSet g \<longrightarrow> ls_pc l u = LsSet g \<longrightarrow> t = u)
     \<and> (\<forall>t g. ls_pc l t = LsSet g \<longrightarrow> g \<notin> set (ls_waiters l))
     \<and> (\<forall>g. ls_pending l g \<longrightarrow> \<not> ls_gate l g \<and> (\<exists>t. ls_pc l t = LsSpin g))
     \<and> (ls_lost l = 0 \<longrightarrow> (\<forall>t g. ls_pc l t = LsSpin g \<longrightarrow> ls_gate l g \<or> ls_pending l g))"

definition ls_inv :: "nat \<Rightarrow> LockfreeSemaphore \<Rightarrow> bool" where
  "ls_inv n l \<longleftrightarrow> active LsIdle (ls_pc l) \<and> n < 2 ^ 63 \<and> ls_gates l
     \<and> deficit (int n) (sint (ls_permits l)) (int (ls_held l)) (num (\<lambda>p. p = LsAdd) (ls_pc l))
         (num ls_waits (ls_pc l)) (num (ls_granted (ls_gate l)) (ls_pc l))
     \<and> num ls_due (ls_pc l) + int (length (ls_waiters l)) + int (ls_lost l)
         = num (\<lambda>p. p = LsDeq) (ls_pc l) + max 0 (- sint (ls_permits l))
     \<and> int (ls_inflight l) = num ls_sets (ls_pc l)"

lemma ls_inv_parts:
  assumes "ls_inv n l"
  shows ls_active: "active LsIdle (ls_pc l)" and ls_n: "n < 2 ^ 63" and ls_inv_gates: "ls_gates l"
    and ls_deficit: "deficit (int n) (sint (ls_permits l)) (int (ls_held l)) (num (\<lambda>p. p = LsAdd) (ls_pc l))
         (num ls_waits (ls_pc l)) (num (ls_granted (ls_gate l)) (ls_pc l))"
    and ls_queue: "num ls_due (ls_pc l) + int (length (ls_waiters l)) + int (ls_lost l)
         = num (\<lambda>p. p = LsDeq) (ls_pc l) + max 0 (- sint (ls_permits l))"
    and ls_flight: "int (ls_inflight l) = num ls_sets (ls_pc l)"
  using assms unfolding ls_inv_def by blast+

lemma ls_preds [simp]:
  "\<not> ls_waits LsIdle" "\<not> ls_waits LsLoad" "\<not> ls_waits (LsCas v)" "ls_waits LsGate" "ls_waits (LsEnq g)" "ls_waits (LsSpin g)"
  "\<not> ls_waits LsAdd" "\<not> ls_waits LsDeq" "\<not> ls_waits (LsSet g)"
  "\<not> ls_granted G LsIdle" "\<not> ls_granted G LsLoad" "\<not> ls_granted G (LsCas v)" "\<not> ls_granted G LsGate" "\<not> ls_granted G (LsEnq g)"
  "ls_granted G (LsSpin g) = G g" "\<not> ls_granted G LsAdd" "ls_granted G LsDeq" "ls_granted G (LsSet g)"
  "\<not> ls_due LsIdle" "\<not> ls_due LsLoad" "\<not> ls_due (LsCas v)" "ls_due LsGate" "ls_due (LsEnq g)" "\<not> ls_due (LsSpin g)"
  "\<not> ls_due LsAdd" "\<not> ls_due LsDeq" "\<not> ls_due (LsSet g)"
  "\<not> ls_sets LsIdle" "\<not> ls_sets LsLoad" "\<not> ls_sets (LsCas v)" "\<not> ls_sets LsGate" "\<not> ls_sets (LsEnq g)"
  "\<not> ls_sets (LsSpin g)" "\<not> ls_sets LsAdd" "\<not> ls_sets LsDeq" "ls_sets (LsSet g)"
  "\<not> ls_at LsIdle h" "\<not> ls_at LsLoad h" "\<not> ls_at (LsCas v) h" "\<not> ls_at LsGate h" "ls_at (LsEnq g) h = (h = g)"
  "ls_at (LsSpin g) h = (h = g)" "\<not> ls_at LsAdd h" "\<not> ls_at LsDeq h" "\<not> ls_at (LsSet g) h"
  by (auto simp: ls_waits_def ls_granted_def ls_due_def ls_sets_def ls_at_def)

lemmas ls_num =
  num_upd [where idle = LsIdle and P = "\<lambda>p. p = LsAdd", simplified]
  num_upd [where idle = LsIdle and P = ls_due, simplified]
  num_upd [where idle = LsIdle and P = ls_sets, simplified]
  num_upd [where idle = LsIdle and P = "\<lambda>p. p = LsDeq", simplified]
  num_upd [where idle = LsIdle and P = ls_waits, simplified]
  num_upd [where idle = LsIdle and P = "ls_granted G" for G, simplified]

text \<open>A gate opened, or a fresh gate shut, while one goroutine waits at it, or none.\<close>

lemma ls_granted_fresh:
  assumes "\<And>t. pc t \<noteq> LsSpin g"
  shows "num (ls_granted (G(g := b))) pc = num (ls_granted G) pc"
proof (rule num_cong)
  fix t show "ls_granted (G(g := b)) (pc t) = ls_granted G (pc t)" using assms [of t] by (cases "pc t") auto
qed

lemma ls_granted_open:
  assumes a: "active LsIdle pc" and t: "pc t = LsSpin g" and u: "\<And>u. pc u = LsSpin g \<Longrightarrow> u = t"
    and g: "\<not> G g"
  shows "num (ls_granted (G(g := True))) pc = num (ls_granted G) pc + 1"
proof -
  have "num (ls_granted (G(g := True))) pc = num (\<lambda>p. ls_granted G p \<or> p = LsSpin g) pc"
  proof (rule num_cong)
    fix v show "ls_granted (G(g := True)) (pc v) = (ls_granted G (pc v) \<or> pc v = LsSpin g)"
      by (cases "pc v") auto
  qed
  also have "\<dots> = num (ls_granted G) pc + num (\<lambda>p. p = LsSpin g) pc"
    by (rule num_disj [where idle = LsIdle]) (use a g in auto)
  finally have "num (ls_granted (G(g := True))) pc = num (ls_granted G) pc + num (\<lambda>p. p = LsSpin g) pc" .
  moreover have "{x. pc x = LsSpin g} = {t}" using t u by blast
  ultimately show ?thesis by (simp add: num_def)
qed

section \<open>Preservation\<close>

text \<open>Moves between points that hold no gate.\<close>

fun ls_gateless :: "ls_pc \<Rightarrow> bool" where
  "ls_gateless (LsEnq g) = False" | "ls_gateless (LsSpin g) = False" | "ls_gateless (LsSet g) = False" | "ls_gateless _ = True"

lemma ls_gates_frame:
  assumes "ls_gates l" and "ls_waiters l' = ls_waiters l" "ls_gate l' = ls_gate l" "ls_fresh l' = ls_fresh l"
    "ls_lost l' = ls_lost l" "ls_pc l' = (ls_pc l)(t := p)" "ls_gateless (ls_pc l t)" "ls_gateless p"
  shows "ls_gates l'"
proof -
  have "(ls_pc l' u = LsSpin g) = (ls_pc l u = LsSpin g)" "(ls_pc l' u = LsSet g) = (ls_pc l u = LsSet g)"
    "(ls_pc l' u = LsEnq g) = (ls_pc l u = LsEnq g)" for u g
    using assms(6-8) by auto
  then show ?thesis using assms(1-5) by (simp add: ls_gates_def ls_pending_def ls_at_def)
qed

lemma ls_gates_parts:
  assumes "ls_gates l"
  shows gates_distinct: "distinct (ls_waiters l)"
    and gates_fresh: "\<And>t g. ls_at (ls_pc l t) g \<Longrightarrow> g < ls_fresh l"
    and gates_at: "\<And>t u g. ls_at (ls_pc l t) g \<Longrightarrow> ls_at (ls_pc l u) g \<Longrightarrow> t = u"
    and gates_new: "\<And>t g. ls_pc l t = LsEnq g \<Longrightarrow> \<not> ls_gate l g"
    and gates_set: "\<And>t u g. ls_pc l t = LsSet g \<Longrightarrow> ls_pc l u = LsSet g \<Longrightarrow> t = u"
    and gates_taken: "\<And>t g. ls_pc l t = LsSet g \<Longrightarrow> g \<notin> set (ls_waiters l)"
    and gates_shut: "\<And>g. ls_pending l g \<Longrightarrow> \<not> ls_gate l g"
    and gates_awaited: "\<And>g. ls_pending l g \<Longrightarrow> \<exists>t. ls_pc l t = LsSpin g"
    and gates_kept: "\<And>t g. ls_lost l = 0 \<Longrightarrow> ls_pc l t = LsSpin g \<Longrightarrow> ls_gate l g \<or> ls_pending l g"
  using assms unfolding ls_gates_def by blast+

lemma ls_gatesI:
  assumes "distinct (ls_waiters l)" "\<And>t g. ls_at (ls_pc l t) g \<Longrightarrow> g < ls_fresh l"
    "\<And>t u g. ls_at (ls_pc l t) g \<Longrightarrow> ls_at (ls_pc l u) g \<Longrightarrow> t = u"
    "\<And>t g. ls_pc l t = LsEnq g \<Longrightarrow> \<not> ls_gate l g"
    "\<And>t u g. ls_pc l t = LsSet g \<Longrightarrow> ls_pc l u = LsSet g \<Longrightarrow> t = u"
    "\<And>t g. ls_pc l t = LsSet g \<Longrightarrow> g \<notin> set (ls_waiters l)"
    "\<And>g. ls_pending l g \<Longrightarrow> \<not> ls_gate l g" "\<And>g. ls_pending l g \<Longrightarrow> \<exists>t. ls_pc l t = LsSpin g"
    "\<And>t g. ls_lost l = 0 \<Longrightarrow> ls_pc l t = LsSpin g \<Longrightarrow> ls_gate l g \<or> ls_pending l g"
  shows "ls_gates l"
  using assms unfolding ls_gates_def by blast

lemma gates_spin: "ls_gates l \<Longrightarrow> ls_pc l t = LsSpin g \<Longrightarrow> ls_pc l u = LsSpin g \<Longrightarrow> t = u"
  using gates_at [of l t g u] by simp

text \<open>A gate that is not queued yet has only its maker.\<close>

lemma ls_unqueued:
  assumes ok: "ls_gates l" and sp: "\<And>u. ls_pc l u \<noteq> LsSpin g"
  shows "g \<notin> set (ls_waiters l)" and "ls_pc l u \<noteq> LsSet g" and "\<not> ls_pending l g"
proof -
  show p: "\<not> ls_pending l g" using gates_awaited [OF ok] sp by blast
  then show "g \<notin> set (ls_waiters l)" "ls_pc l u \<noteq> LsSet g" unfolding ls_pending_def by blast+
qed

lemma ls_fresh_gate: "ls_gates l \<Longrightarrow> \<not> ls_at (ls_pc l u) (ls_fresh l)"
  using gates_fresh by blast

lemma ls_gates_alloc:
  assumes ok: "ls_gates l" and t: "ls_pc l t = LsGate"
  shows "ls_gates (l\<lparr>ls_fresh := Suc (ls_fresh l), ls_gate := (ls_gate l)(ls_fresh l := False),
    ls_pc := (ls_pc l)(t := LsEnq (ls_fresh l))\<rparr>)"
proof -
  let ?l = "l\<lparr>ls_fresh := Suc (ls_fresh l), ls_gate := (ls_gate l)(ls_fresh l := False),
    ls_pc := (ls_pc l)(t := LsEnq (ls_fresh l))\<rparr>"
  have nf: "\<not> ls_at (ls_pc l u) (ls_fresh l)" for u using ls_fresh_gate [OF ok] .
  then have ns: "ls_pc l u \<noteq> LsSpin (ls_fresh l)" for u by (auto simp: ls_at_def)
  have spin: "(ls_pc ?l u = LsSpin x) = (ls_pc l u = LsSpin x)" "(ls_pc ?l u = LsSet x) = (ls_pc l u = LsSet x)"
    for u x using t by auto
  have at: "ls_at (ls_pc ?l u) x = (if u = t then x = ls_fresh l else ls_at (ls_pc l u) x)" for u x by simp
  have pend: "ls_pending ?l x = ls_pending l x" for x by (simp only: ls_pending_def spin) simp
  have fp: "x \<noteq> ls_fresh l" if "ls_pending l x" for x using ls_unqueued(3) [OF ok ns] that by blast
  show ?thesis
  proof (rule ls_gatesI)
    show "x < ls_fresh ?l" if "ls_at (ls_pc ?l u) x" for u x
      using that gates_fresh [OF ok, of u x] unfolding at by (auto simp: less_SucI split: if_splits)
    show "u = v" if "ls_at (ls_pc ?l u) x" "ls_at (ls_pc ?l v) x" for u v x
      using that gates_at [OF ok, of u x v] nf unfolding at by (auto split: if_splits)
    show "\<not> ls_gate ?l x" if "ls_pc ?l u = LsEnq x" for u x
      using that gates_new [OF ok, of u x] by (auto split: if_splits)
    show "u = v" if "ls_pc ?l u = LsSet x" "ls_pc ?l v = LsSet x" for u v x
      using gates_set [OF ok] that unfolding spin by blast
    show "x \<notin> set (ls_waiters ?l)" if "ls_pc ?l u = LsSet x" for u x
      using gates_taken [OF ok, of u x] that unfolding spin by simp
    show "\<not> ls_gate ?l x" if "ls_pending ?l x" for x
      using gates_shut [OF ok, of x] that unfolding pend by simp
    show "\<exists>u. ls_pc ?l u = LsSpin x" if "ls_pending ?l x" for x
      using that gates_awaited [OF ok] unfolding pend spin by blast
    show "ls_gate ?l x \<or> ls_pending ?l x" if "ls_lost ?l = 0" "ls_pc ?l u = LsSpin x" for u x
      using gates_kept [OF ok, of u x] that ns [of u] unfolding pend spin by auto
  qed (use gates_distinct [OF ok] in simp)
qed

text \<open>A new waiter, whose gate is queued or dropped.\<close>

lemma ls_gates_new:
  assumes ok: "ls_gates l" and t: "ls_pc l t = LsEnq g"
    and l': "ls_fresh l' = ls_fresh l" "ls_gate l' = ls_gate l" "ls_pc l' = (ls_pc l)(t := LsSpin g)"
    and q: "ls_waiters l' = ls_waiters l @ [g] \<and> ls_lost l' = ls_lost l
      \<or> ls_waiters l' = ls_waiters l \<and> ls_lost l' \<noteq> 0"
  shows "ls_gates l'"
proof -
  have ns: "ls_pc l u \<noteq> LsSpin g" for u using gates_at [OF ok, of t g u] t by auto
  note f = ls_unqueued [OF ok ns]
  have at: "ls_at (ls_pc l' u) x = ls_at (ls_pc l u) x" for u x using t by (simp add: l')
  have set_iff: "(ls_pc l' u = LsSet x) = (ls_pc l u = LsSet x)" for u x using t by (auto simp: l')
  have spin: "(ls_pc l' u = LsSpin x) = (if u = t then x = g else ls_pc l u = LsSpin x)" for u x by (auto simp: l')
  have pend: "ls_pending l' x = (ls_pending l x \<or> x = g \<and> ls_waiters l' = ls_waiters l @ [g])" for x
    unfolding ls_pending_def set_iff using q by auto
  show ?thesis
  proof (rule ls_gatesI)
    show "distinct (ls_waiters l')" using q gates_distinct [OF ok] f(1) by auto
    show "x < ls_fresh l'" if "ls_at (ls_pc l' u) x" for u x
      using that gates_fresh [OF ok] unfolding at l'(1) by blast
    show "u = v" if "ls_at (ls_pc l' u) x" "ls_at (ls_pc l' v) x" for u v x
      using that gates_at [OF ok] unfolding at by blast
    show "\<not> ls_gate l' x" if "ls_pc l' u = LsEnq x" for u x
      using that gates_new [OF ok, of u x] by (auto simp: l' split: if_splits)
    show "u = v" if "ls_pc l' u = LsSet x" "ls_pc l' v = LsSet x" for u v x
      using that gates_set [OF ok] unfolding set_iff by blast
    show "x \<notin> set (ls_waiters l')" if "ls_pc l' u = LsSet x" for u x
      using that gates_taken [OF ok, of u x] f(2) q unfolding set_iff by auto
    show "\<not> ls_gate l' x" if "ls_pending l' x" for x
      using that gates_shut [OF ok, of x] gates_new [OF ok t] unfolding pend l'(2) by blast
    show "\<exists>u. ls_pc l' u = LsSpin x" if "ls_pending l' x" for x
      using that gates_awaited [OF ok, of x] t unfolding pend spin by (metis ls_pc.distinct(39) ls_pc.simps)
    show "ls_gate l' x \<or> ls_pending l' x" if "ls_lost l' = 0" "ls_pc l' u = LsSpin x" for u x
      using that q gates_kept [OF ok, of u x] unfolding pend spin l'(2) by (auto split: if_splits)
  qed
qed

text \<open>A waiter leaves; a gate is taken from the queue; a gate is opened.\<close>

lemma ls_gates_leave:
  assumes ok: "ls_gates l" and t: "ls_pc l t = LsSpin g" and g: "ls_gate l g"
  shows "ls_gates (l\<lparr>ls_held := h, ls_pc := (ls_pc l)(t := LsIdle)\<rparr>)"
proof -
  let ?l = "l\<lparr>ls_held := h, ls_pc := (ls_pc l)(t := LsIdle)\<rparr>"
  have set_iff: "(ls_pc ?l u = LsSet x) = (ls_pc l u = LsSet x)" for u x using t by auto
  have spin: "ls_pc ?l u = LsSpin x \<Longrightarrow> ls_pc l u = LsSpin x" for u x by (auto split: if_splits)
  have pend: "ls_pending ?l x = ls_pending l x" for x by (simp only: ls_pending_def set_iff) simp
  show ?thesis
  proof (rule ls_gatesI)
    show "\<exists>u. ls_pc ?l u = LsSpin x" if p: "ls_pending ?l x" for x
    proof -
      obtain u where u: "ls_pc l u = LsSpin x" using p gates_awaited [OF ok] pend by blast
      moreover have "x \<noteq> g" using p pend gates_shut [OF ok] g by blast
      ultimately have "ls_pc ?l u = LsSpin x" using t by auto
      then show ?thesis by blast
    qed
    show "u = v" if "ls_at (ls_pc ?l u) x" "ls_at (ls_pc ?l v) x" for u v x
      using gates_at [OF ok, of u x v] that by (auto split: if_splits)
    show "\<not> ls_gate ?l x" if "ls_pc ?l u = LsEnq x" for u x
      using gates_new [OF ok, of u x] that by (auto split: if_splits)
    show "u = v" if "ls_pc ?l u = LsSet x" "ls_pc ?l v = LsSet x" for u v x
      using gates_set [OF ok] set_iff that by blast
    show "ls_gate ?l x \<or> ls_pending ?l x" if "ls_lost ?l = 0" "ls_pc ?l u = LsSpin x" for u x
      using gates_kept [OF ok _ spin [OF that(2)]] that(1) pend by simp
    show "x < ls_fresh ?l" if "ls_at (ls_pc ?l u) x" for u x
      using gates_fresh [OF ok, of u x] that by (auto split: if_splits)
    show "x \<notin> set (ls_waiters ?l)" if "ls_pc ?l u = LsSet x" for u x
      using gates_taken [OF ok, of u x] that set_iff by simp
    show "\<not> ls_gate ?l x" if "ls_pending ?l x" for x
      using gates_shut [OF ok, of x] that pend by simp
  qed (use gates_distinct [OF ok] in simp)
qed

lemma ls_gates_deq:
  assumes ok: "ls_gates l" and t: "ls_pc l t = LsDeq" and q: "ls_waiters l = g # q"
  shows "ls_gates (l\<lparr>ls_waiters := q, ls_inflight := k, ls_pc := (ls_pc l)(t := LsSet g)\<rparr>)"
proof -
  let ?l = "l\<lparr>ls_waiters := q, ls_inflight := k, ls_pc := (ls_pc l)(t := LsSet g)\<rparr>"
  have spin: "(ls_pc ?l u = LsSpin x) = (ls_pc l u = LsSpin x)" for u x using t by auto
  have set_iff: "(ls_pc ?l u = LsSet x) = (if u = t then x = g else ls_pc l u = LsSet x)" for u x by auto
  have pend: "ls_pending ?l x = ls_pending l x" for x
  proof -
    have "ls_pc l t \<noteq> LsSet x" using t by simp
    then have "(\<exists>u. if u = t then x = g else ls_pc l u = LsSet x) \<longleftrightarrow> x = g \<or> (\<exists>u. ls_pc l u = LsSet x)"
      by metis
    then show ?thesis unfolding ls_pending_def set_iff using q by (simp add: disj_left_commute)
  qed
  have d: "g \<notin> set q" "distinct q" using gates_distinct [OF ok] q by auto
  have og: "ls_pc l u \<noteq> LsSet g" for u using gates_taken [OF ok, of u g] q by auto
  show ?thesis
  proof (rule ls_gatesI)
    show "\<exists>u. ls_pc ?l u = LsSpin x" if "ls_pending ?l x" for x
      using that gates_awaited [OF ok] unfolding pend spin by blast
    show "u = v" if "ls_at (ls_pc ?l u) x" "ls_at (ls_pc ?l v) x" for u v x
      using gates_at [OF ok, of u x v] that by (auto split: if_splits)
    show "\<not> ls_gate ?l x" if "ls_pc ?l u = LsEnq x" for u x
      using gates_new [OF ok, of u x] that by (auto split: if_splits)
    show "u = v" if "ls_pc ?l u = LsSet x" "ls_pc ?l v = LsSet x" for u v x
      using gates_set [OF ok] that og unfolding set_iff by (auto split: if_splits)
    show "ls_gate ?l x \<or> ls_pending ?l x" if "ls_lost ?l = 0" "ls_pc ?l u = LsSpin x" for u x
      using gates_kept [OF ok, of u x] that unfolding pend spin by simp
    show "x < ls_fresh ?l" if "ls_at (ls_pc ?l u) x" for u x
      using gates_fresh [OF ok, of u x] that by (auto split: if_splits)
    show "x \<notin> set (ls_waiters ?l)" if "ls_pc ?l u = LsSet x" for u x
      using gates_taken [OF ok, of u x] that q d unfolding set_iff by (auto split: if_splits)
    show "\<not> ls_gate ?l x" if "ls_pending ?l x" for x
      using gates_shut [OF ok, of x] that unfolding pend by simp
  qed (use d in simp)
qed

lemma ls_gates_open:
  assumes ok: "ls_gates l" and t: "ls_pc l t = LsSet g"
  shows "ls_gates (l\<lparr>ls_gate := (ls_gate l)(g := True), ls_inflight := k, ls_pc := (ls_pc l)(t := LsIdle)\<rparr>)"
proof -
  let ?l = "l\<lparr>ls_gate := (ls_gate l)(g := True), ls_inflight := k, ls_pc := (ls_pc l)(t := LsIdle)\<rparr>"
  have pg: "ls_pending l g" using t unfolding ls_pending_def by blast
  have spin: "(ls_pc ?l u = LsSpin x) = (ls_pc l u = LsSpin x)" for u x using t by auto
  have set_iff: "(ls_pc ?l u = LsSet x) = (u \<noteq> t \<and> ls_pc l u = LsSet x)" for u x by auto
  have pend: "ls_pending ?l x = (x \<noteq> g \<and> ls_pending l x)" for x
  proof (cases "x = g")
    case True
    have "\<not> (\<exists>u. u \<noteq> t \<and> ls_pc l u = LsSet g)" using gates_set [OF ok t] by blast
    then show ?thesis unfolding ls_pending_def set_iff using True gates_taken [OF ok t] by simp
  next
    case False
    then have "ls_pc l t \<noteq> LsSet x" using t by simp
    then have "(\<exists>u. u \<noteq> t \<and> ls_pc l u = LsSet x) = (\<exists>u. ls_pc l u = LsSet x)" by metis
    then show ?thesis unfolding ls_pending_def set_iff using False by simp
  qed
  show ?thesis
  proof (rule ls_gatesI)
    show "\<exists>u. ls_pc ?l u = LsSpin x" if "ls_pending ?l x" for x
      using that gates_awaited [OF ok] unfolding pend spin by blast
    show "u = v" if "ls_at (ls_pc ?l u) x" "ls_at (ls_pc ?l v) x" for u v x
      using gates_at [OF ok, of u x v] that by (auto split: if_splits)
    show "\<not> ls_gate ?l x" if "ls_pc ?l u = LsEnq x" for u x
    proof -
      have pu: "ls_pc l u = LsEnq x" using that by (auto split: if_splits)
      obtain v where "ls_pc l v = LsSpin g" using gates_awaited [OF ok pg] by blast
      then have "x \<noteq> g" using gates_at [OF ok, of u x v] pu by auto
      then show ?thesis using gates_new [OF ok pu] by simp
    qed
    show "u = v" if "ls_pc ?l u = LsSet x" "ls_pc ?l v = LsSet x" for u v x
      using gates_set [OF ok] that unfolding set_iff by blast
    show "ls_gate ?l x \<or> ls_pending ?l x" if "ls_lost ?l = 0" "ls_pc ?l u = LsSpin x" for u x
      using gates_kept [OF ok, of u x] that unfolding pend spin by auto
    show "x < ls_fresh ?l" if "ls_at (ls_pc ?l u) x" for u x
      using gates_fresh [OF ok, of u x] that by (auto split: if_splits)
    show "x \<notin> set (ls_waiters ?l)" if "ls_pc ?l u = LsSet x" for u x
      using gates_taken [OF ok, of u x] that unfolding set_iff by simp
    show "\<not> ls_gate ?l x" if "ls_pending ?l x" for x
      using gates_shut [OF ok, of x] that unfolding pend by simp
  qed (use gates_distinct [OF ok] in simp)
qed

lemma ls_range:
  assumes "ls_inv n l"
  shows "- (2 ^ 31) \<le> sint (ls_permits l)" and "sint (ls_permits l) \<le> int n"
proof -
  note d = ls_deficit [OF assms]
  have w: "num ls_waits (ls_pc l) \<le> 2 ^ 31"
    using num_le [where idle = LsIdle and P = ls_waits] ls_active [OF assms] by simp
  have "- num ls_waits (ls_pc l) \<le> sint (ls_permits l) \<and> sint (ls_permits l) \<le> int n"
    by (rule deficit_range [OF d]) simp_all
  with w show "- (2 ^ 31) \<le> sint (ls_permits l)" "sint (ls_permits l) \<le> int n" by linarith+
qed

lemma ls_inv_goto:
  assumes inv: "ls_inv n l" and t: "ls_pc l t \<in> {LsIdle, LsLoad, LsCas v}" "t < max_goroutines \<or> ls_pc l t \<noteq> LsIdle"
    and p: "p = LsLoad \<or> p = LsCas v'"
  shows "ls_inv n (ls_goto t p l)"
proof -
  have "ls_gates (ls_goto t p l)"
    by (rule ls_gates_frame [where l = l and t = t and p = p]) (use t p ls_inv_gates [OF inv] in auto)
  moreover have "active LsIdle ((ls_pc l)(t := p))"
    using t(2) ls_active [OF inv] by (auto intro: active_call active_move)
  ultimately show ?thesis using inv t p ls_active [OF inv]
    by (elim disjE) (auto simp: ls_inv_def ls_num)
qed

lemma ls_inv_cas:
  assumes inv: "ls_inv n l" and t: "ls_pc l t = LsCas (ls_permits l)"
  shows "ls_permits l \<le>s 0 \<Longrightarrow>
      ls_inv n (l\<lparr>ls_permits := ls_permits l - 1, ls_pc := (ls_pc l)(t := LsGate)\<rparr>)"
    and "\<not> ls_permits l \<le>s 0 \<Longrightarrow> ls_inv n (l\<lparr>ls_permits := ls_permits l - 1,
      ls_held := Suc (ls_held l), ls_pc := (ls_pc l)(t := LsIdle)\<rparr>)"
proof -
  note d = ls_deficit [OF inv] and a = ls_active [OF inv] and q = ls_queue [OF inv] ls_flight [OF inv]
  have m: "sint (ls_permits l - 1) = sint (ls_permits l) - 1"
    using ls_range(1) [OF inv] by (intro sint_i64_sub_1) simp
  have ac: "active LsIdle ((ls_pc l)(t := p))" for p using a t by (intro active_move) simp_all
  have g: "ls_gates (l\<lparr>ls_permits := x, ls_held := h, ls_pc := (ls_pc l)(t := p)\<rparr>)" if "ls_gateless p" for x h p
    by (rule ls_gates_frame [OF ls_inv_gates [OF inv], where t = t and p = p]) (use t that in auto)
  show "ls_inv n (l\<lparr>ls_permits := ls_permits l - 1, ls_pc := (ls_pc l)(t := LsGate)\<rparr>)" if "ls_permits l \<le>s 0"
    using deficit_wait [OF d] that ls_n [OF inv] m a ac t q g [where p = LsGate and x = "ls_permits l - 1" and h = "ls_held l"]
    by (simp add: ls_inv_def ls_num word_sle_eq)
  show "ls_inv n (l\<lparr>ls_permits := ls_permits l - 1, ls_held := Suc (ls_held l), ls_pc := (ls_pc l)(t := LsIdle)\<rparr>)"
    if "\<not> ls_permits l \<le>s 0"
    using deficit_take [OF d] that ls_n [OF inv] m a ac t q g [where p = LsIdle and x = "ls_permits l - 1" and h = "Suc (ls_held l)"]
    by (simp add: ls_inv_def ls_num word_sle_eq add.commute)
qed

lemma ls_inv_alloc:
  assumes inv: "ls_inv n l" and t: "ls_pc l t = LsGate"
  shows "ls_inv n (l\<lparr>ls_fresh := Suc (ls_fresh l), ls_gate := (ls_gate l)(ls_fresh l := False),
      ls_pc := (ls_pc l)(t := LsEnq (ls_fresh l))\<rparr>)"
proof -
  note a = ls_active [OF inv] and ok = ls_inv_gates [OF inv]
  have "ls_pc l u \<noteq> LsSpin (ls_fresh l)" for u using ls_fresh_gate [OF ok, of u] by auto
  then have "num (ls_granted ((ls_gate l)(ls_fresh l := False))) (ls_pc l) = num (ls_granted (ls_gate l)) (ls_pc l)"
    by (intro ls_granted_fresh)
  then show ?thesis using inv t a ls_gates_alloc [OF ok t] by (simp add: ls_inv_def ls_num active_move)
qed

lemma ls_inv_new:
  assumes inv: "ls_inv n l" and t: "ls_pc l t = LsEnq g"
  shows "ls_inv n (l\<lparr>ls_waiters := ls_waiters l @ [g], ls_pc := (ls_pc l)(t := LsSpin g)\<rparr>)"
    and "ls_inv n (l\<lparr>ls_lost := Suc (ls_lost l), ls_pc := (ls_pc l)(t := LsSpin g)\<rparr>)"
  using inv t ls_active [OF inv] ls_gates_new [OF ls_inv_gates [OF inv] t] gates_new [OF ls_inv_gates [OF inv] t]
  by (simp_all add: ls_inv_def ls_num active_move)

lemma ls_inv_leave:
  assumes inv: "ls_inv n l" and t: "ls_pc l t = LsSpin g" and g: "ls_gate l g"
  shows "ls_inv n (l\<lparr>ls_held := Suc (ls_held l), ls_pc := (ls_pc l)(t := LsIdle)\<rparr>)"
  using inv t g deficit_wake [OF ls_deficit [OF inv]] ls_active [OF inv]
    ls_gates_leave [OF ls_inv_gates [OF inv] t g]
  by (simp add: ls_inv_def active_move ls_num add.commute)

lemma ls_inv_release:
  assumes inv: "ls_inv n l" and t: "ls_pc l t = LsIdle" "t < max_goroutines" and h: "0 < ls_held l"
  shows "ls_inv n (l\<lparr>ls_held := ls_held l - Suc 0, ls_pc := (ls_pc l)(t := LsAdd)\<rparr>)"
proof -
  have "ls_gates (l\<lparr>ls_held := ls_held l - Suc 0, ls_pc := (ls_pc l)(t := LsAdd)\<rparr>)"
    by (rule ls_gates_frame [OF ls_inv_gates [OF inv], where t = t and p = LsAdd]) (use t in auto)
  then show ?thesis using inv t h deficit_call [OF ls_deficit [OF inv]] ls_active [OF inv]
    by (simp add: ls_inv_def active_call ls_num of_nat_diff)
qed

lemma ls_inv_add:
  assumes inv: "ls_inv n l" and t: "ls_pc l t = LsAdd"
  shows "ls_permits l + 1 \<le>s 0 \<Longrightarrow>
      ls_inv n (l\<lparr>ls_permits := ls_permits l + 1, ls_pc := (ls_pc l)(t := LsDeq)\<rparr>)"
    and "\<not> ls_permits l + 1 \<le>s 0 \<Longrightarrow>
      ls_inv n (l\<lparr>ls_permits := ls_permits l + 1, ls_pc := (ls_pc l)(t := LsIdle)\<rparr>)"
proof -
  note d = ls_deficit [OF inv] and a = ls_active [OF inv]
  have "0 < num (\<lambda>p. p = LsAdd) (ls_pc l)"
    using num_pos [where idle = LsIdle and P = "\<lambda>p. p = LsAdd"] a t by simp
  then have "sint (ls_permits l) < int n"
    using deficit_below [OF d] by simp
  then have m: "sint (ls_permits l + 1) = sint (ls_permits l) + 1"
    using ls_n [OF inv] by (intro sint_i64_add_1) simp
  have g: "ls_gates (l\<lparr>ls_permits := x, ls_pc := (ls_pc l)(t := p)\<rparr>)" if "ls_gateless p" for x p
    by (rule ls_gates_frame [OF ls_inv_gates [OF inv], where t = t and p = p]) (use t that in auto)
  show "ls_inv n (l\<lparr>ls_permits := ls_permits l + 1, ls_pc := (ls_pc l)(t := LsDeq)\<rparr>)"
    if "ls_permits l + 1 \<le>s 0"
    using that deficit_grant [OF d] m inv t a g [where p = LsDeq and x = "ls_permits l + 1"]
    by (simp add: ls_inv_def active_move ls_num word_sle_eq algebra_simps)
  show "ls_inv n (l\<lparr>ls_permits := ls_permits l + 1, ls_pc := (ls_pc l)(t := LsIdle)\<rparr>)"
    if "\<not> ls_permits l + 1 \<le>s 0"
    using that deficit_return [OF d] m inv t a g [where p = LsIdle and x = "ls_permits l + 1"]
    by (simp add: ls_inv_def active_move ls_num word_sle_eq algebra_simps)
qed

lemma ls_inv_deq:
  assumes inv: "ls_inv n l" and t: "ls_pc l t = LsDeq" and q: "ls_waiters l = g # q"
  shows "ls_inv n (l\<lparr>ls_waiters := q, ls_inflight := Suc (ls_inflight l), ls_pc := (ls_pc l)(t := LsSet g)\<rparr>)"
  using inv t q ls_active [OF inv] ls_gates_deq [OF ls_inv_gates [OF inv] t q]
  by (simp add: ls_inv_def active_move ls_num)

lemma ls_inv_set:
  assumes inv: "ls_inv n l" and t: "ls_pc l t = LsSet g"
  shows "ls_inv n (l\<lparr>ls_gate := (ls_gate l)(g := True), ls_inflight := ls_inflight l - Suc 0, ls_pc := (ls_pc l)(t := LsIdle)\<rparr>)"
proof -
  note a = ls_active [OF inv] and ok = ls_inv_gates [OF inv]
  have p: "ls_pending l g" using t unfolding ls_pending_def by blast
  obtain u where u: "ls_pc l u = LsSpin g" using gates_awaited [OF ok p] by blast
  have "num (ls_granted ((ls_gate l)(g := True))) (ls_pc l) = num (ls_granted (ls_gate l)) (ls_pc l) + 1"
    using a u gates_spin [OF ok _ u] gates_shut [OF ok p] by (rule ls_granted_open)
  moreover have "int (ls_inflight l - Suc 0) = num ls_sets (ls_pc l) - 1"
    using ls_flight [OF inv] num_pos [where idle = LsIdle and P = ls_sets and pc = "ls_pc l" and t = t] a t by (simp add: of_nat_diff)
  ultimately show ?thesis using inv t a ls_gates_open [OF ok t]
    by (simp add: ls_inv_def active_move ls_num)
qed

lemma Lockfree_step_inv:
  assumes inv: "ls_inv n l" and st: "Lockfree_step a l = Some l'"
  shows "ls_inv n l'"
proof -
  consider t where "a = LsCall (CallAcquire t)" | t where "a = LsCall (CallRelease t)"
    | t where "a = LsCall (SemStep t)" | t where "a = LsRefuse t"
    by (metis ls_act.exhaust sem_act.exhaust)
  then show ?thesis
  proof cases
    case (1 t)
    then show ?thesis using st inv ls_inv_goto [OF inv, of t] by (auto split: if_splits)
  next
    case (2 t)
    then show ?thesis using st inv by (auto split: if_splits intro: ls_inv_release)
  next
    case (3 t)
    show ?thesis
    proof (cases "ls_pc l t")
      case (LsCas v)
      then show ?thesis using 3 st inv ls_inv_goto [OF inv, of t]
        by (auto simp: Lockfree_Acquire_step_def split: if_splits intro: ls_inv_cas)
    next
      case LsLoad
      then show ?thesis using 3 st inv ls_inv_goto [OF inv, of t] by (auto simp: Lockfree_Acquire_step_def)
    next
      case LsGate
      then show ?thesis using 3 st inv by (auto simp: Lockfree_Acquire_step_def intro: ls_inv_alloc)
    next
      case (LsEnq g)
      then show ?thesis using 3 st inv
        by (auto simp: Lockfree_Acquire_step_def Lockfree_Release_step_def split: if_splits intro: ls_inv_new)
    next
      case (LsSpin g)
      then show ?thesis using 3 st inv
        by (auto simp: Lockfree_Acquire_step_def split: if_splits intro: ls_inv_leave)
    next
      case LsAdd
      then show ?thesis using 3 st inv
        by (auto simp: Lockfree_Acquire_step_def Lockfree_Release_step_def Let_def split: if_splits intro: ls_inv_add)
    next
      case LsDeq
      then show ?thesis using 3 st inv
        by (auto simp: Lockfree_Acquire_step_def Lockfree_Release_step_def split: list.splits intro: ls_inv_deq)
    next
      case (LsSet g)
      then show ?thesis using 3 st inv
        by (auto simp: Lockfree_Acquire_step_def Lockfree_Release_step_def intro: ls_inv_set)
    qed (use 3 st in \<open>simp add: Lockfree_Acquire_step_def Lockfree_Release_step_def\<close>)
  next
    case (4 t)
    then show ?thesis using st inv
      by (auto simp: Lockfree_refused_step_def split: ls_pc.splits if_splits intro: ls_inv_new)
  qed
qed

section \<open>The contract\<close>

lemma Lockfree_held_step:
  assumes "Lockfree_step a l = Some l'"
  shows "ls_held l' = ls_held l \<or> ls_held l' = Suc (ls_held l) \<or> 0 < ls_held l \<and> ls_held l' = ls_held l - 1"
proof (cases a)
  case (LsCall c)
  then show ?thesis using assms
    by (cases c) (auto simp: Lockfree_Acquire_step_def Lockfree_Release_step_def Let_def
        split: ls_pc.splits if_splits list.splits)
next
  case (LsRefuse t)
  then show ?thesis using assms by (auto simp: Lockfree_refused_step_def split: ls_pc.splits if_splits)
qed

interpretation lockfree_semaphore:
  semaphore "\<lambda>l. l = NewLockfreeSemaphore (of_nat n) \<and> n < 2 ^ 63" Lockfree_step "ls_inv n" n ls_held
proof
  show "ls_inv n l" if "l = NewLockfreeSemaphore (of_nat n) \<and> n < 2 ^ 63" for l
  proof -
    have "sint (word_of_int (int n) :: i64) = int n" using that by (intro sint_word_of_int_i64) auto
    then show ?thesis using that
      by (simp add: ls_inv_def ls_gates_def ls_pending_def NewLockfreeSemaphore_def deficit_def)
  qed
  show "ls_held l = 0" if "l = NewLockfreeSemaphore (of_nat n) \<and> n < 2 ^ 63" for l
    using that by (simp add: NewLockfreeSemaphore_def)
  show "ls_inv n l'" if "ls_inv n l" and "Lockfree_step a l = Some l'" for l a l'
    using Lockfree_step_inv that .
  show "ls_held l' = ls_held l \<or> (\<exists>b. spec_sem n b (ls_held l) = Some (ls_held l'))"
    if inv: "ls_inv n l" and st: "Lockfree_step a l = Some l'" for l a l'
  proof -
    have "int (ls_held l') \<le> int n"
      using deficit_held [OF ls_deficit [OF Lockfree_step_inv [OF inv st]] num_nonneg]
        num_nonneg [of "\<lambda>p. p = LsAdd" "ls_pc l'"] by linarith
    then show ?thesis using Lockfree_held_step [OF st]
      by (elim disjE conjE) (auto intro: exI [of _ SpecAcquire] exI [of _ SpecRelease])
  qed
qed

definition ls_inside :: "ls_act set" where
  "ls_inside = {a. \<exists>t. a = LsCall (SemStep t) \<or> a = LsRefuse t}"

text \<open>Somebody waits in \<^verbatim>\<open>Acquire\<close>, and the queue has dropped nobody so far.\<close>

definition ls_blocked :: "LockfreeSemaphore \<Rightarrow> tid \<Rightarrow> bool" where
  "ls_blocked l t \<longleftrightarrow> ls_lost l = 0 \<and> (ls_pc l t = LsLoad \<or> (\<exists>v. ls_pc l t = LsCas v) \<or> ls_waits (ls_pc l t))"

lemma ls_moves:
  assumes "ls_pc l u \<noteq> LsIdle" and "ls_pc l u = LsDeq \<Longrightarrow> ls_waiters l \<noteq> []" and "\<And>g. ls_pc l u = LsSpin g \<Longrightarrow> ls_gate l g"
    and "length (ls_waiters l) \<le> BoundedQueueSize"
  shows "\<exists>a \<in> ls_inside. \<exists>l'. Lockfree_step a l = Some l' \<and> ls_pc l' u \<noteq> ls_pc l u"
proof (cases "\<exists>g. ls_pc l u = LsEnq g \<and> length (ls_waiters l) = BoundedQueueSize")
  case True
  then show ?thesis by (intro bexI [of _ "LsRefuse u"]) (auto simp: Lockfree_refused_step_def ls_inside_def)
next
  case False
  have "\<exists>l'. Lockfree_step (LsCall (SemStep u)) l = Some l' \<and> ls_pc l' u \<noteq> ls_pc l u"
    using assms False by (cases "ls_pc l u")
      (auto simp: Lockfree_Acquire_step_def Lockfree_Release_step_def Let_def neq_Nil_conv)
  then show ?thesis by (intro bexI [of _ "LsCall (SemStep u)"]) (simp_all add: ls_inside_def)
qed

lemma ls_cap_step:
  assumes "length (ls_waiters l) \<le> BoundedQueueSize" and "Lockfree_step a l = Some l'"
  shows "length (ls_waiters l') \<le> BoundedQueueSize"
proof (cases a)
  case (LsCall c)
  then show ?thesis using assms by (cases c)
      (auto simp: Lockfree_Acquire_step_def Lockfree_Release_step_def Let_def
        split: ls_pc.splits if_splits list.splits option.splits)
qed (use assms in \<open>auto simp: Lockfree_refused_step_def split: ls_pc.splits if_splits\<close>)

lemma ls_quiet_moves:
  assumes q: "quiet Lockfree_step ls_inside l" and "length (ls_waiters l) \<le> BoundedQueueSize" and "ls_pc l u \<noteq> LsIdle"
  shows "ls_pc l u = LsDeq \<and> ls_waiters l = [] \<or> (\<exists>g. ls_pc l u = LsSpin g \<and> \<not> ls_gate l g)"
  using ls_moves [OF assms(3)] assms(2) quietD [OF q] by blast

lemma ls_all_held:
  assumes inv: "ls_inv n l" and cap: "length (ls_waiters l) \<le> BoundedQueueSize"
    and w: "ls_blocked l t" and q: "quiet Lockfree_step ls_inside l"
  shows "ls_held l = n"
proof -
  note no = ls_quiet_moves [OF q cap]
  obtain g where g: "ls_pc l t = LsSpin g" "\<not> ls_gate l g" using w no [of t] by (cases "ls_pc l t") (auto simp: ls_blocked_def)
  have "ls_pc l u \<noteq> LsSet g" for u using no [of u] by auto
  then have "ls_waiters l \<noteq> []"
    using gates_kept [OF ls_inv_gates [OF inv] _ g(1)] g(2) w by (auto simp: ls_blocked_def ls_pending_def)
  then have spin: "\<exists>g. ls_pc l u = LsSpin g \<and> \<not> ls_gate l g" if "ls_pc l u \<noteq> LsIdle" for u using no [OF that] by blast
  have "\<not> ls_granted (ls_gate l) (ls_pc l u)" for u using spin [of u] by (cases "ls_pc l u") auto
  then have "num (ls_granted (ls_gate l)) (ls_pc l) = 0" by (simp add: num_def)
  moreover have "ls_pc l u \<noteq> LsAdd" for u using spin [of u] by auto
  then have "num (\<lambda>p. p = LsAdd) (ls_pc l) = 0" by (simp add: num_def)
  moreover have "0 < num ls_waits (ls_pc l)"
    using num_pos [where idle = LsIdle and P = ls_waits and pc = "ls_pc l" and t = t] g(1) ls_active [OF inv] by simp
  ultimately show ?thesis using deficit_no_grant [of "int n"] ls_deficit [OF inv] by (metis add.right_neutral of_nat_eq_iff)
qed

interpretation lockfree_semaphore_capped: lossless_semaphore "\<lambda>l. l = NewLockfreeSemaphore (of_nat n) \<and> n < 2 ^ 63"
  Lockfree_step "\<lambda>l. ls_inv n l \<and> length (ls_waiters l) \<le> BoundedQueueSize" n ls_held ls_inside ls_blocked
proof
  show "ls_inv n l \<and> length (ls_waiters l) \<le> BoundedQueueSize" "ls_held l = 0"
    if "l = NewLockfreeSemaphore (of_nat n) \<and> n < 2 ^ 63" for l
    using lockfree_semaphore.inv_init [OF that] lockfree_semaphore.held_init [OF that] that
    by (simp_all add: NewLockfreeSemaphore_def)
  show "ls_inv n l' \<and> length (ls_waiters l') \<le> BoundedQueueSize"
    if "ls_inv n l \<and> length (ls_waiters l) \<le> BoundedQueueSize" "Lockfree_step a l = Some l'" for l a l'
    using that Lockfree_step_inv ls_cap_step by blast
  show "ls_held l' = ls_held l \<or> (\<exists>b. spec_sem n b (ls_held l) = Some (ls_held l'))"
    if "ls_inv n l \<and> length (ls_waiters l) \<le> BoundedQueueSize" "Lockfree_step a l = Some l'" for l a l'
    using that lockfree_semaphore.held_step by blast
  show "ls_held l = n" if "ls_inv n l \<and> length (ls_waiters l) \<le> BoundedQueueSize" "ls_blocked l t"
    "quiet Lockfree_step ls_inside l" for l t
    using that ls_all_held by blast
qed

text \<open>\<^verbatim>\<open>LockfreeSemaphore\<close> with \<open>n\<close> permits refines the counting semaphore with limit
  \<open>n\<close> under every interleaving of disciplined clients, also when its bounded queue refuses a
  waiter. As long as it has refused none, no wake-up is lost: a \<^verbatim>\<open>Release\<close> that looks for a waiter
  finds one in the queue or one that is about to enqueue itself, and a goroutine that spins at a shut
  gate is in the queue or about to be let go.\<close>

theorem lockfree_semaphore_correct:
  assumes "run Lockfree_step as (NewLockfreeSemaphore (of_nat n)) = Some l" and "n < 2 ^ 63"
  shows "(\<exists>bs. run (spec_sem n) bs 0 = Some (ls_held l)) \<and> ls_held l \<le> n
    \<and> (ls_lost l = 0 \<longrightarrow>
        (ls_pc l t = LsDeq \<longrightarrow> ls_waiters l \<noteq> [] \<or> (\<exists>u. ls_due (ls_pc l u)))
        \<and> (ls_pc l t = LsSpin g \<longrightarrow> ls_gate l g \<or> g \<in> set (ls_waiters l) \<or> (\<exists>u. ls_pc l u = LsSet g)))"
proof -
  have i: "NewLockfreeSemaphore (of_nat n) = NewLockfreeSemaphore (of_nat n) \<and> n < 2 ^ 63" using assms(2) by simp
  note inv = lockfree_semaphore.invariant [OF i assms(1)]
  have "ls_waiters l \<noteq> [] \<or> (\<exists>u. ls_due (ls_pc l u))" if "ls_lost l = 0" and t: "ls_pc l t = LsDeq"
  proof (rule disjCI)
    assume none: "\<not> (\<exists>u. ls_due (ls_pc l u))"
    have "0 < num (\<lambda>p. p = LsDeq) (ls_pc l)"
      using num_pos [where idle = LsIdle and P = "\<lambda>p. p = LsDeq"] t ls_active [OF inv] by simp
    moreover have "num ls_due (ls_pc l) = 0" using none by (simp add: num_def)
    ultimately show "ls_waiters l \<noteq> []" using ls_queue [OF inv] that(1) by auto
  qed
  moreover have "ls_gate l g \<or> g \<in> set (ls_waiters l) \<or> (\<exists>u. ls_pc l u = LsSet g)"
    if "ls_lost l = 0" and "ls_pc l t = LsSpin g"
    using gates_kept [OF ls_inv_gates [OF inv] that] by (simp add: ls_pending_def)
  ultimately show ?thesis
    using lockfree_semaphore.refines [OF i assms(1)] lockfree_semaphore.bounded [OF i assms(1)] by blast
qed

lemma lockfree_semaphore_witness:
  "\<exists>l. run Lockfree_step (map LsCall [CallAcquire 1, SemStep 1, SemStep 1, CallAcquire 2, SemStep 2, SemStep 2,
         SemStep 2, CallRelease 3, SemStep 3]) (NewLockfreeSemaphore (of_nat 1)) = Some l
     \<and> ls_pc l 3 = LsDeq \<and> (ls_waiters l \<noteq> [] \<or> (\<exists>u. ls_due (ls_pc l u)))"
proof -
  obtain l where r: "run Lockfree_step (map LsCall [CallAcquire 1, SemStep 1, SemStep 1, CallAcquire 2, SemStep 2,
      SemStep 2, SemStep 2, CallRelease 3, SemStep 3]) (NewLockfreeSemaphore (of_nat 1)) = Some l"
    and p: "ls_pc l 3 = LsDeq" "ls_lost l = 0"
    by (simp add: NewLockfreeSemaphore_def Lockfree_Acquire_step_def Lockfree_Release_step_def
        Let_def max_goroutines_def word_sle_eq BoundedQueueSize_def)
  show ?thesis using lockfree_semaphore_correct [OF r, of 3] r p by auto
qed

section \<open>A refused waiter\<close>

text \<open>A waiter whose enqueue was refused is never let go, whatever the others do.\<close>

definition ls_stuck :: "tid \<Rightarrow> nat \<Rightarrow> LockfreeSemaphore \<Rightarrow> bool" where
  "ls_stuck t g l \<longleftrightarrow> ls_gates l \<and> ls_pc l t = LsSpin g \<and> \<not> ls_gate l g \<and> \<not> ls_pending l g"

lemma ls_stuck_step:
  assumes st: "ls_stuck t g l" and inv: "ls_inv n l" and a: "Lockfree_step a l = Some l'"
  shows "ls_stuck t g l'"
proof -
  have pc: "ls_pc l t = LsSpin g" "\<not> ls_gate l g" "g \<notin> set (ls_waiters l)" "\<And>u. ls_pc l u \<noteq> LsSet g"
    and gs: "ls_gates l"
    using st by (auto simp: ls_stuck_def ls_pending_def)
  have f: "g < ls_fresh l" using gates_fresh [OF gs, of t g] pc(1) by simp
  have e: "u = t" if "ls_pc l u = LsEnq g" for u using gates_at [OF gs, of u g t] pc(1) that by simp
  have ok: "ls_gates l'" using ls_inv_gates [OF Lockfree_step_inv [OF inv a]] .
  have "ls_pc l' t = LsSpin g \<and> \<not> ls_gate l' g \<and> \<not> ls_pending l' g"
  proof (cases a)
    case (LsCall c)
    then show ?thesis using a pc f e
      by (cases c) (fastforce simp: ls_pending_def Lockfree_Acquire_step_def Lockfree_Release_step_def Let_def
          split: ls_pc.splits if_splits list.splits)+
  next
    case (LsRefuse u)
    then show ?thesis using a pc f
      by (auto simp: ls_pending_def Lockfree_refused_step_def split: ls_pc.splits if_splits)
  qed
  then show ?thesis using ok by (simp add: ls_stuck_def)
qed

theorem lockfree_semaphore_drops_waiter:
  assumes "ls_inv n l" and "ls_pc l t = LsEnq g" and "Lockfree_step (LsRefuse t) l = Some l1"
    and "run Lockfree_step as l1 = Some l2"
  shows "ls_pc l2 t = LsSpin g"
proof -
  note ok = ls_inv_gates [OF assms(1)]
  have i1: "ls_inv n l1" using Lockfree_step_inv [OF assms(1,3)] .
  have "ls_pc l u \<noteq> LsSpin g" for u using gates_at [OF ok, of t g u] assms(2) by auto
  then have "\<not> ls_pending l g" using ls_unqueued(3) [OF ok] by blast
  then have "ls_stuck t g l1"
    using assms(2,3) ls_inv_gates [OF i1] gates_new [OF ok assms(2)]
    by (auto simp: ls_stuck_def ls_pending_def Lockfree_refused_step_def split: if_splits)
  with assms(4) i1 have "ls_stuck t g l2"
  proof (induction as arbitrary: l1)
    case (Cons a as)
    then obtain k where k: "Lockfree_step a l1 = Some k" "run Lockfree_step as k = Some l2"
      by (auto split: option.splits)
    show ?case
      by (rule Cons.IH [OF k(2)]) (use Cons.prems k(1) Lockfree_step_inv ls_stuck_step in blast)+
  qed simp
  then show ?thesis by (simp add: ls_stuck_def)
qed

end
