(* ===== verification/Barrier.thy ===== *)
theory Barrier
  imports Counting
begin

text \<open>
  \<^verbatim>\<open>CountingBarrier\<close> and \<^verbatim>\<open>SenseReversingBarrier\<close> of \<^verbatim>\<open>syncx/barriers.go\<close>, used by
  the \<open>n\<close> goroutines \<open>0, \<dots>, n - 1\<close> for which they were made. One step is one atomic operation.
\<close>

section \<open>SenseReversingBarrier\<close>

datatype sb_pc =
    SbIdle
  | SbLoad           \<comment> \<open>\<open>release := s.release.Load()\<close>\<close>
  | SbAdd u32        \<comment> \<open>\<open>s.seats.Add(-1)\<close>\<close>
  | SbReset          \<comment> \<open>\<open>s.seats.Store(s.count)\<close>\<close>
  | SbPublish        \<comment> \<open>\<open>s.release.Add(1)\<close>\<close>
  | SbSpin u32       \<comment> \<open>\<open>for s.release.Load() == release\<close>\<close>

text \<open>Auxiliary: \<open>sb_epoch\<close> counts the publications, \<open>sb_done\<close> the calls each goroutine has
  finished.\<close>

record SenseReversingBarrier =
  sb_release :: u32
  sb_seats :: i32
  sb_count :: i32
  sb_pc :: "tid \<Rightarrow> sb_pc"
  sb_epoch :: nat
  sb_done :: "tid \<Rightarrow> nat"

text \<open>The constructor panics unless \<open>n\<close> is positive.\<close>

definition NewSenseReversingBarrier :: "i32 \<Rightarrow> SenseReversingBarrier option" where
  "NewSenseReversingBarrier n =
     (if n \<le>s 0 then None
      else Some \<lparr>sb_release = 0, sb_seats = n, sb_count = n, sb_pc = (\<lambda>_. SbIdle), sb_epoch = 0, sb_done = (\<lambda>_. 0)\<rparr>)"

definition SenseReversing_Wait_step :: "tid \<Rightarrow> SenseReversingBarrier \<Rightarrow> SenseReversingBarrier option" where
  "SenseReversing_Wait_step t s =
     (case sb_pc s t of
        SbLoad \<Rightarrow> Some (s\<lparr>sb_pc := (sb_pc s)(t := SbAdd (sb_release s))\<rparr>)
      | SbAdd release \<Rightarrow>
          (let seats = sb_seats s - 1
           in if seats = 0 then Some (s\<lparr>sb_seats := seats, sb_pc := (sb_pc s)(t := SbReset)\<rparr>)
              else Some (s\<lparr>sb_seats := seats, sb_pc := (sb_pc s)(t := SbSpin release)\<rparr>))
      | SbReset \<Rightarrow> Some (s\<lparr>sb_seats := sb_count s, sb_pc := (sb_pc s)(t := SbPublish)\<rparr>)
      | SbPublish \<Rightarrow>
          Some (s\<lparr>sb_release := sb_release s + 1, sb_pc := (sb_pc s)(t := SbIdle),
                  sb_epoch := Suc (sb_epoch s), sb_done := (sb_done s)(t := Suc (sb_done s t))\<rparr>)
      | SbSpin release \<Rightarrow>
          (if sb_release s = release then Some s
           else Some (s\<lparr>sb_pc := (sb_pc s)(t := SbIdle), sb_done := (sb_done s)(t := Suc (sb_done s t))\<rparr>))
      | _ \<Rightarrow> None)"

datatype barrier_act = CallBarrier tid | BarrierStep tid

fun SenseReversing_step :: "barrier_act \<Rightarrow> SenseReversingBarrier \<Rightarrow> SenseReversingBarrier option" where
  "SenseReversing_step (CallBarrier t) s =
     (if sb_pc s t = SbIdle \<and> t < nat (sint (sb_count s)) then Some (s\<lparr>sb_pc := (sb_pc s)(t := SbLoad)\<rparr>) else None)"
| "SenseReversing_step (BarrierStep t) s = SenseReversing_Wait_step t s"

text \<open>The calls a goroutine has arrived in: it has decremented \<^verbatim>\<open>seats\<close>.\<close>

fun sb_inside :: "sb_pc \<Rightarrow> nat" where
  "sb_inside SbReset = 1" | "sb_inside SbPublish = 1" | "sb_inside (SbSpin r) = 1" | "sb_inside _ = 0"

definition sb_arrived :: "SenseReversingBarrier \<Rightarrow> tid \<Rightarrow> nat" where
  "sb_arrived s t = sb_done s t + sb_inside (sb_pc s t)"

subsection \<open>The invariant\<close>

definition sb_leads :: "sb_pc \<Rightarrow> bool" where
  "sb_leads p \<longleftrightarrow> p = SbReset \<or> p = SbPublish"

text \<open>
  In epoch \<open>e\<close>: goroutines that have not arrived have finished \<open>e\<close> calls; those that spin wait for
  the end of epoch \<open>e\<close>, or have yet to notice the end of epoch \<open>e - 1\<close>.
\<close>

fun sb_pc_ok :: "nat \<Rightarrow> nat \<Rightarrow> sb_pc \<Rightarrow> bool" where
  "sb_pc_ok e d (SbSpin r) \<longleftrightarrow> r = of_nat e \<and> d = e \<or> r = of_nat (e - 1) \<and> d = e - 1 \<and> 0 < e"
| "sb_pc_ok e d (SbAdd r) \<longleftrightarrow> r = of_nat e \<and> d = e"
| "sb_pc_ok e d _ \<longleftrightarrow> d = e"

text \<open>Who has arrived in the current epoch.\<close>

definition sb_here :: "nat \<Rightarrow> sb_pc \<Rightarrow> bool" where
  "sb_here e p \<longleftrightarrow> p = SbSpin (of_nat e) \<or> p = SbReset"

definition sb_inv :: "nat \<Rightarrow> SenseReversingBarrier \<Rightarrow> bool" where
  "sb_inv n s \<longleftrightarrow> 0 < n \<and> n < 2 ^ 31 \<and> sb_count s = of_nat n \<and> sb_release s = of_nat (sb_epoch s)
     \<and> (\<forall>t \<ge> n. sb_pc s t = SbIdle)
     \<and> (\<forall>t < n. sb_pc_ok (sb_epoch s) (sb_done s t) (sb_pc s t))
     \<and> (\<forall>t. sb_leads (sb_pc s t) \<longrightarrow> (\<forall>u < n. u \<noteq> t \<longrightarrow> sb_pc s u = SbSpin (of_nat (sb_epoch s))))
     \<and> (\<forall>t. sb_pc s t = SbPublish \<longrightarrow> sb_seats s = of_nat n)
     \<and> ((\<forall>t. sb_pc s t \<noteq> SbPublish) \<longrightarrow>
          sb_seats s = of_nat n - word_of_int (num (sb_here (sb_epoch s)) (sb_pc s)))
     \<and> (\<exists>t < n. sb_pc s t \<noteq> SbSpin (of_nat (sb_epoch s)))"

lemma sb_here_simps [simp]:
  "\<not> sb_here e SbIdle" "\<not> sb_here e SbLoad" "\<not> sb_here e (SbAdd r)" "sb_here e SbReset"
  "\<not> sb_here e SbPublish" "sb_here e (SbSpin r) = (r = of_nat e)"
  "\<not> sb_leads SbIdle" "\<not> sb_leads SbLoad" "\<not> sb_leads (SbAdd r)" "sb_leads SbReset"
  "sb_leads SbPublish" "\<not> sb_leads (SbSpin r)"
  by (auto simp: sb_here_def sb_leads_def)

lemma sb_inv_parts:
  assumes "sb_inv n s"
  shows sb_n: "0 < n" "n < 2 ^ 31" and sb_count_n: "sb_count s = of_nat n"
    and sb_release_epoch: "sb_release s = of_nat (sb_epoch s)"
    and sb_outside: "n \<le> t \<Longrightarrow> sb_pc s t = SbIdle"
    and sb_ok: "t < n \<Longrightarrow> sb_pc_ok (sb_epoch s) (sb_done s t) (sb_pc s t)"
    and sb_lead: "sb_leads (sb_pc s t) \<Longrightarrow> u < n \<Longrightarrow> u \<noteq> t \<Longrightarrow> sb_pc s u = SbSpin (of_nat (sb_epoch s))"
    and sb_seats_publish: "sb_pc s t = SbPublish \<Longrightarrow> sb_seats s = of_nat n"
    and sb_seats_here: "(\<And>t. sb_pc s t \<noteq> SbPublish) \<Longrightarrow>
      sb_seats s = of_nat n - word_of_int (num (sb_here (sb_epoch s)) (sb_pc s))"
    and sb_not_all: "\<exists>t < n. sb_pc s t \<noteq> SbSpin (of_nat (sb_epoch s))"
  using assms unfolding sb_inv_def by blast+

lemma sb_active: "sb_inv n s \<Longrightarrow> active SbIdle (sb_pc s)"
  unfolding active_def max_goroutines_def using sb_outside sb_n(2) by (metis linorder_not_le order.strict_trans)

lemma sb_moving: "sb_inv n s \<Longrightarrow> sb_pc s t \<noteq> SbIdle \<Longrightarrow> t < n"
  using sb_outside by (meson linorder_not_le)

lemmas sb_num = num_upd [where idle = SbIdle and P = "sb_here e" for e, simplified]

lemma sb_here_le:
  assumes inv: "sb_inv n s"
  shows "num (sb_here e) (sb_pc s) \<le> int n"
    and "t < n \<Longrightarrow> \<not> sb_here e (sb_pc s t) \<Longrightarrow> num (sb_here e) (sb_pc s) \<le> int n - 1"
    and "t < n \<Longrightarrow> \<not> sb_here e (sb_pc s t) \<Longrightarrow> num (sb_here e) (sb_pc s) = int n - 1 \<Longrightarrow>
      u < n \<Longrightarrow> u \<noteq> t \<Longrightarrow> sb_here e (sb_pc s u)"
proof -
  let ?H = "{u. sb_here e (sb_pc s u)}"
  have sub: "?H \<subseteq> {..<n}"
  proof
    fix u assume "u \<in> ?H"
    then have "sb_pc s u \<noteq> SbIdle" by auto
    then show "u \<in> {..<n}" using sb_moving [OF inv] by simp
  qed
  then show "num (sb_here e) (sb_pc s) \<le> int n" using card_mono [of "{..<n}" ?H] by (simp add: num_def)
  assume t: "t < n" "\<not> sb_here e (sb_pc s t)"
  then have sub': "?H \<subseteq> {..<n} - {t}" using sub by auto
  have c: "int (card ({..<n} - {t})) = int n - 1" using t(1) by simp
  have "card ?H \<le> card ({..<n} - {t})" using sub' by (intro card_mono) auto
  then show "num (sb_here e) (sb_pc s) \<le> int n - 1" using c unfolding num_def by linarith
  assume full: "num (sb_here e) (sb_pc s) = int n - 1" and u: "u < n" "u \<noteq> t"
  have "card ?H = card ({..<n} - {t})" using full c unfolding num_def by linarith
  then have "?H = {..<n} - {t}" using sub' by (intro card_subset_eq) auto
  then show "sb_here e (sb_pc s u)" using u by blast
qed

text \<open>The seat that comes to zero is the last one.\<close>

lemma sb_last_seat:
  assumes inv: "sb_inv n s" and t: "sb_pc s t = SbAdd r" and z: "sb_seats s - 1 = 0"
  shows "num (sb_here (sb_epoch s)) (sb_pc s) = int n - 1"
proof -
  let ?A = "num (sb_here (sb_epoch s)) (sb_pc s)"
  have tn: "t < n" using sb_moving [OF inv] t by simp
  have "sb_pc s v \<noteq> SbPublish" for v
    using sb_lead [OF inv, of v t] t tn by (cases "v = t") auto
  then have "of_nat n - word_of_int ?A = (1 :: i32)" using sb_seats_here [OF inv] z by simp
  then have w: "word_of_int (int n - ?A) = (1 :: i32)" by simp
  have "int n < 2147483648" using sb_n [OF inv] by simp
  then have "0 \<le> int n - ?A" "int n - ?A < 4294967296"
    using sb_here_le(1) [OF inv] num_nonneg [of "sb_here (sb_epoch s)" "sb_pc s"] by (simp, linarith)
  then have "uint (word_of_int (int n - ?A) :: i32) = int n - ?A"
    by (simp only: unsigned_of_int) (simp add: take_bit_int_eq_self)
  then have "int n - ?A = 1" unfolding w by simp
  then show ?thesis by simp
qed

subsection \<open>Preservation\<close>

lemma sb_invI:
  assumes "0 < n" "n < 2 ^ 31" "sb_count s = of_nat n" "sb_release s = of_nat (sb_epoch s)"
    "\<And>t. n \<le> t \<Longrightarrow> sb_pc s t = SbIdle"
    "\<And>t. t < n \<Longrightarrow> sb_pc_ok (sb_epoch s) (sb_done s t) (sb_pc s t)"
    "\<And>t u. sb_leads (sb_pc s t) \<Longrightarrow> u < n \<Longrightarrow> u \<noteq> t \<Longrightarrow> sb_pc s u = SbSpin (of_nat (sb_epoch s))"
    "\<And>t. sb_pc s t = SbPublish \<Longrightarrow> sb_seats s = of_nat n"
    "(\<And>t. sb_pc s t \<noteq> SbPublish) \<Longrightarrow> sb_seats s = of_nat n - word_of_int (num (sb_here (sb_epoch s)) (sb_pc s))"
    "\<exists>t < n. sb_pc s t \<noteq> SbSpin (of_nat (sb_epoch s))"
  shows "sb_inv n s"
  using assms unfolding sb_inv_def by blast

text \<open>Somebody who has not arrived excludes a leader.\<close>

lemma sb_no_leader:
  assumes inv: "sb_inv n s" and t: "t < n" "\<not> sb_here (sb_epoch s) (sb_pc s t)" "\<not> sb_leads (sb_pc s t)"
  shows "\<not> sb_leads (sb_pc s v)" and "sb_pc s v \<noteq> SbPublish"
proof -
  show nl: "\<not> sb_leads (sb_pc s v)" for v
    using sb_lead [OF inv, of v t] t by (cases "v = t") auto
  then show "sb_pc s v \<noteq> SbPublish" by (metis sb_here_simps(11))
qed

text \<open>A move of a goroutine that has not arrived, within the epoch.\<close>

lemma sb_inv_move:
  assumes inv: "sb_inv n s" and t: "t < n" "\<not> sb_here (sb_epoch s) (sb_pc s t)" "\<not> sb_leads (sb_pc s t)"
    and s': "sb_count s' = sb_count s" "sb_release s' = sb_release s" "sb_epoch s' = sb_epoch s"
      "sb_pc s' = (sb_pc s)(t := p)" "sb_done s' = (sb_done s)(t := d)"
      "sb_seats s' = sb_seats s - of_bool (sb_here (sb_epoch s) p)"
    and p: "sb_pc_ok (sb_epoch s) d p" "p \<noteq> SbPublish"
      "\<And>u. p = SbReset \<Longrightarrow> u < n \<Longrightarrow> u \<noteq> t \<Longrightarrow> sb_pc s u = SbSpin (of_nat (sb_epoch s))"
      "p = SbSpin (of_nat (sb_epoch s)) \<Longrightarrow> sb_seats s - 1 \<noteq> 0"
  shows "sb_inv n s'"
proof (rule sb_invI)
  note nl = sb_no_leader [OF inv t]
  show "\<exists>v < n. sb_pc s' v \<noteq> SbSpin (of_nat (sb_epoch s'))"
  proof (rule ccontr)
    assume "\<not> ?thesis"
    then have all: "((sb_pc s)(t := p)) v = SbSpin (of_nat (sb_epoch s))" if "v < n" for v
      using that by (auto simp: s')
    have "p = SbSpin (of_nat (sb_epoch s))" using all [OF t(1)] by simp
    moreover have "num (sb_here (sb_epoch s)) (sb_pc s) = int n - 1"
    proof -
      have "{v. sb_here (sb_epoch s) (sb_pc s v)} = {..<n} - {t}"
        using all sb_moving [OF inv] t(2) by (fastforce simp: fun_upd_apply sb_here_def split: if_splits)
      then show ?thesis using t(1) by (simp add: num_def)
    qed
    ultimately show False using p(4) sb_seats_here [OF inv nl(2)] by simp
  qed
  show "sb_pc s' u = SbSpin (of_nat (sb_epoch s'))" if "sb_leads (sb_pc s' v)" "u < n" "u \<noteq> v" for u v
  proof -
    have "v = t \<and> p = SbReset" using that(1) nl(1) [of v] p(2) by (auto simp: s' sb_leads_def split: if_splits)
    then show ?thesis using p(3) that by (simp add: s')
  qed
  show "sb_seats s' = of_nat n - word_of_int (num (sb_here (sb_epoch s')) (sb_pc s'))"
    using sb_seats_here [OF inv nl(2)] t(2) sb_active [OF inv] by (simp add: s' sb_num)
  show "sb_pc s' v = SbPublish \<Longrightarrow> sb_seats s' = of_nat n" for v
    using nl(2) [of v] p(2) by (simp add: s' split: if_splits)
  show "n \<le> v \<Longrightarrow> sb_pc s' v = SbIdle" for v using sb_outside [OF inv, of v] t(1) by (simp add: s')
  show "v < n \<Longrightarrow> sb_pc_ok (sb_epoch s') (sb_done s' v) (sb_pc s' v)" for v
    using sb_ok [OF inv, of v] p(1) by (simp add: s')
qed (use sb_n [OF inv] sb_count_n [OF inv] sb_release_epoch [OF inv] in \<open>simp_all add: s'\<close>)

lemma sb_inv_call:
  assumes inv: "sb_inv n s" and t: "sb_pc s t = SbIdle" "t < n"
  shows "sb_inv n (s\<lparr>sb_pc := (sb_pc s)(t := SbLoad)\<rparr>)"
  by (rule sb_inv_move [OF inv t(2), where p = SbLoad and d = "sb_done s t"])
     (use t sb_ok [OF inv t(2)] in auto)

lemma sb_inv_load:
  assumes inv: "sb_inv n s" and t: "sb_pc s t = SbLoad"
  shows "sb_inv n (s\<lparr>sb_pc := (sb_pc s)(t := SbAdd (sb_release s))\<rparr>)"
proof -
  have tn: "t < n" using sb_moving [OF inv] t by simp
  show ?thesis
    by (rule sb_inv_move [OF inv tn, where p = "SbAdd (sb_release s)" and d = "sb_done s t"])
       (use t sb_ok [OF inv tn] sb_release_epoch [OF inv] in auto)
qed

lemma sb_inv_arrive:
  assumes inv: "sb_inv n s" and t: "sb_pc s t = SbAdd r" and z: "sb_seats s - 1 \<noteq> 0"
  shows "sb_inv n (s\<lparr>sb_seats := sb_seats s - 1, sb_pc := (sb_pc s)(t := SbSpin r)\<rparr>)"
proof -
  have tn: "t < n" using sb_moving [OF inv] t by simp
  show ?thesis
    by (rule sb_inv_move [OF inv tn, where p = "SbSpin r" and d = "sb_done s t"])
       (use t z sb_ok [OF inv tn] in auto)
qed

lemma sb_inv_last:
  assumes inv: "sb_inv n s" and t: "sb_pc s t = SbAdd r" and z: "sb_seats s - 1 = 0"
  shows "sb_inv n (s\<lparr>sb_seats := 0, sb_pc := (sb_pc s)(t := SbReset)\<rparr>)"
proof -
  have tn: "t < n" using sb_moving [OF inv] t by simp
  note nl = sb_no_leader [OF inv tn]
  have others: "sb_pc s u = SbSpin (of_nat (sb_epoch s))" if "u < n" "u \<noteq> t" for u
    using sb_here_le(3) [OF inv tn _ sb_last_seat [OF inv t z] that] t nl(1) [of u] by (auto simp: sb_here_def)
  show ?thesis
    by (rule sb_inv_move [OF inv tn, where p = SbReset and d = "sb_done s t"])
       (use t z others sb_ok [OF inv tn] in auto)
qed

lemma sb_inv_reset:
  assumes inv: "sb_inv n s" and t: "sb_pc s t = SbReset"
  shows "sb_inv n (s\<lparr>sb_seats := sb_count s, sb_pc := (sb_pc s)(t := SbPublish)\<rparr>)" (is "sb_inv n ?s")
proof -
  have tn: "t < n" using sb_moving [OF inv] t by simp
  have others: "sb_pc s u = SbSpin (of_nat (sb_epoch s))" if "u < n" "u \<noteq> t" for u
    using sb_lead [OF inv _ that] t by simp
  have pcs: "sb_pc ?s u = (if u = t then SbPublish else if u < n then SbSpin (of_nat (sb_epoch s)) else SbIdle)" for u
    using others sb_outside [OF inv, of u] by auto
  show ?thesis
  proof (rule sb_invI, goal_cases)
    case (6 u)
    then show ?case using sb_ok [OF inv 6] others [OF 6] t by (cases "u = t") auto
  next
    case (7 u v)
    then show ?case unfolding pcs by (auto split: if_splits)
  next
    case 9
    from 9 [of t] show ?case by simp
  qed (use sb_n [OF inv] sb_count_n [OF inv] sb_release_epoch [OF inv] sb_outside [OF inv] tn in auto)
qed

lemma sb_epochs_differ: "(of_nat (Suc e) :: u32) \<noteq> of_nat e"
  by simp

lemma sb_pc_ok_current:
  assumes "sb_pc_ok e d (SbSpin (of_nat e))"
  shows "d = e"
proof (rule ccontr)
  assume "d \<noteq> e"
  then have "(of_nat e :: u32) = of_nat (e - 1)" "0 < e" using assms by (metis sb_pc_ok.simps(1))+
  then show False using sb_epochs_differ [of "e - 1"] by (metis Suc_diff_1)
qed

lemma sb_inv_publish:
  assumes inv: "sb_inv n s" and t: "sb_pc s t = SbPublish"
  shows "sb_inv n (s\<lparr>sb_release := sb_release s + 1, sb_pc := (sb_pc s)(t := SbIdle),
     sb_epoch := Suc (sb_epoch s), sb_done := (sb_done s)(t := Suc (sb_done s t))\<rparr>)" (is "sb_inv n ?s")
proof -
  let ?e = "sb_epoch s"
  have tn: "t < n" using sb_moving [OF inv] t by simp
  have others: "sb_pc s u = SbSpin (of_nat ?e)" if "u < n" "u \<noteq> t" for u
    using sb_lead [OF inv _ that] t by simp
  have pcs: "sb_pc ?s u = (if u < n \<and> u \<noteq> t then SbSpin (of_nat ?e) else SbIdle)" for u
    using others sb_outside [OF inv, of u] by auto
  have done_u: "sb_done s u = ?e" if "u < n" "u \<noteq> t" for u
    using sb_pc_ok_current sb_ok [OF inv that(1)] unfolding others [OF that] .
  have d: "\<not> sb_here (Suc ?e) (SbSpin (of_nat ?e))"
    unfolding sb_here_simps using sb_epochs_differ [of ?e] by metis
  have "\<not> sb_here (Suc ?e) (sb_pc ?s u)" for u
    unfolding pcs by (cases "u < n \<and> u \<noteq> t") (simp_all only: if_True if_False d sb_here_simps(1) simp_thms)
  then have "num (sb_here (Suc ?e)) (sb_pc ?s) = 0" by (simp only: num_def) simp
  then show ?thesis
  proof (intro sb_invI, goal_cases)
    case (6 u)
    show ?case
    proof (cases "u = t")
      case True
      then show ?thesis using sb_ok [OF inv tn] t by simp
    next
      case False
      then have "sb_pc ?s u = SbSpin (of_nat ?e)" "sb_done ?s u = ?e"
        using others [OF 6(2) False] done_u [OF 6(2) False] False by simp_all
      then show ?thesis by simp
    qed
  next
    case (7 u v)
    then show ?case unfolding pcs by (auto split: if_splits)
  next
    case (8 u)
    then show ?case unfolding pcs by (auto split: if_splits)
  next
    case 9
    then show ?case using sb_seats_publish [OF inv t] by simp
  next
    case 10
    then show ?case using tn by (intro exI [of _ t]) simp
  qed (use sb_n [OF inv] sb_count_n [OF inv] sb_release_epoch [OF inv] sb_outside [OF inv] tn
         in \<open>simp_all add: add.commute\<close>)
qed

lemma sb_inv_notice:
  assumes inv: "sb_inv n s" and t: "sb_pc s t = SbSpin r" and r: "sb_release s \<noteq> r"
  shows "sb_inv n (s\<lparr>sb_pc := (sb_pc s)(t := SbIdle), sb_done := (sb_done s)(t := Suc (sb_done s t))\<rparr>)"
proof -
  have tn: "t < n" using sb_moving [OF inv] t by simp
  have "Suc (sb_done s t) = sb_epoch s" and "r \<noteq> of_nat (sb_epoch s)"
    using sb_ok [OF inv tn] t r sb_release_epoch [OF inv] by auto
  then show ?thesis
    by (intro sb_inv_move [OF inv tn, where p = SbIdle and d = "Suc (sb_done s t)"]) (use t in auto)
qed

lemma sb_inv_step:
  assumes inv: "sb_inv n s" and st: "SenseReversing_step a s = Some s'"
  shows "sb_inv n s'"
proof (cases a)
  case (CallBarrier t)
  have "n < 2147483648" using sb_n [OF inv] by simp
  then have "nat (sint (sb_count s)) = n"
    unfolding sb_count_n [OF inv] by (simp add: signed_of_nat signed_take_bit_int_eq_self)
  then show ?thesis using CallBarrier st sb_inv_call [OF inv] by (auto split: if_splits)
next
  case (BarrierStep t)
  then show ?thesis using st inv
    by (auto simp: SenseReversing_Wait_step_def Let_def split: sb_pc.splits if_splits
        intro: sb_inv_load sb_inv_arrive sb_inv_last sb_inv_reset sb_inv_publish sb_inv_notice)
qed

text \<open>The contract of a barrier: nobody is ahead of anybody's arrival.\<close>

locale barrier = machine init step inv
  for init :: "'s \<Rightarrow> bool" and step :: "'a \<Rightarrow> 's \<Rightarrow> 's option" and inv :: "'s \<Rightarrow> bool" +
  fixes members :: "tid set" and finished :: "'s \<Rightarrow> tid \<Rightarrow> nat" and arrived :: "'s \<Rightarrow> tid \<Rightarrow> nat"
  assumes together: "inv s \<Longrightarrow> t \<in> members \<Longrightarrow> u \<in> members \<Longrightarrow> finished s t \<le> arrived s u"
begin

lemma nobody_early:
  "init s \<Longrightarrow> run step as s = Some s' \<Longrightarrow> t \<in> members \<Longrightarrow> u \<in> members \<Longrightarrow> finished s' t \<le> arrived s' u"
  using invariant together by blast

end

lemma sb_epoch_bounds:
  assumes inv: "sb_inv n s" and t: "t < n"
  shows "sb_done s t \<le> sb_epoch s" and "sb_epoch s \<le> sb_arrived s t"
  using sb_ok [OF inv t] by (cases "sb_pc s t"; auto simp: sb_arrived_def)+

interpretation sense_reversing:
  barrier "\<lambda>s. NewSenseReversingBarrier (of_nat n) = Some s \<and> n < 2 ^ 31" SenseReversing_step "sb_inv n"
    "{..<n}" sb_done sb_arrived
proof
  show "sb_inv n s" if "NewSenseReversingBarrier (of_nat n) = Some s \<and> n < 2 ^ 31" for s
  proof -
    have "n < 2147483648" using that by simp
    then have "sint (of_nat n :: i32) = int n" by (simp add: signed_of_nat signed_take_bit_int_eq_self)
    then show ?thesis using that
      by (auto simp: NewSenseReversingBarrier_def sb_inv_def word_sle_eq split: if_splits)
  qed
  show "sb_inv n s'" if "sb_inv n s" and "SenseReversing_step a s = Some s'" for s a s'
    using sb_inv_step that .
  show "sb_done s t \<le> sb_arrived s u" if "sb_inv n s" "t \<in> {..<n}" "u \<in> {..<n}" for s t u
    using sb_epoch_bounds [OF that(1)] that(2,3) by (meson lessThan_iff order_trans)
qed

text \<open>C23: \<^verbatim>\<open>SenseReversingBarrier\<close> for \<open>n\<close> goroutines that use it again and again, under every
  interleaving and for any number of phases, also when the 32-bit \<^verbatim>\<open>release\<close> counter wraps
  around: nobody returns from his \<open>k\<close>-th \<^verbatim>\<open>Wait\<close> before everybody has arrived at his \<open>k\<close>-th
  \<^verbatim>\<open>Wait\<close>, nobody is more than one phase ahead, and whenever all \<open>n\<close> goroutines are
  inside \<^verbatim>\<open>Wait\<close> one of them does not have to spin any longer.\<close>

theorem sense_reversing_barrier_correct:
  assumes "NewSenseReversingBarrier (of_nat n) = Some s0" and "n < 2 ^ 31"
    and "run SenseReversing_step as s0 = Some s" and "t < n" and "u < n"
  shows "sb_done s t \<le> sb_arrived s u \<and> sb_done s t \<le> Suc (sb_done s u)
    \<and> ((\<forall>v < n. sb_pc s v \<noteq> SbIdle) \<longrightarrow> (\<exists>v < n. \<exists>s'. SenseReversing_step (BarrierStep v) s = Some s' \<and> s' \<noteq> s))"
proof -
  have i: "NewSenseReversingBarrier (of_nat n) = Some s0 \<and> n < 2 ^ 31" using assms(1,2) by blast
  note inv = sense_reversing.invariant [OF i assms(3)]
  have "sb_done s t \<le> sb_arrived s u"
    using sense_reversing.nobody_early [OF i assms(3)] assms(4,5) by simp
  moreover have "sb_arrived s u \<le> Suc (sb_done s u)"
    by (cases "sb_pc s u") (simp_all add: sb_arrived_def)
  moreover have "\<exists>v < n. \<exists>s'. SenseReversing_step (BarrierStep v) s = Some s' \<and> s' \<noteq> s"
    if "\<forall>v < n. sb_pc s v \<noteq> SbIdle"
  proof -
    obtain v where v: "v < n" "sb_pc s v \<noteq> SbSpin (of_nat (sb_epoch s))" using sb_not_all [OF inv] by blast
    then have "sb_pc s v \<noteq> SbIdle" using that by blast
    then have "\<exists>s'. SenseReversing_step (BarrierStep v) s = Some s' \<and> sb_pc s' v \<noteq> sb_pc s v"
      using v(2) sb_release_epoch [OF inv]
      by (cases "sb_pc s v") (auto simp: SenseReversing_Wait_step_def Let_def)
    then show ?thesis using v(1) by auto
  qed
  ultimately show ?thesis by (meson order_trans)
qed

lemma sense_reversing_barrier_witness:
  "\<exists>s0 s. NewSenseReversingBarrier (of_nat 2) = Some s0
     \<and> run SenseReversing_step [CallBarrier 0, BarrierStep 0, BarrierStep 0, CallBarrier 1, BarrierStep 1, BarrierStep 1,
         BarrierStep 1, BarrierStep 1, CallBarrier 1, BarrierStep 1, BarrierStep 1] s0 = Some s
     \<and> sb_done s 1 = 1 \<and> sb_done s 0 = 0 \<and> sb_done s 1 \<le> sb_arrived s 0
     \<and> (\<exists>v < 2. \<exists>s'. SenseReversing_step (BarrierStep v) s = Some s' \<and> s' \<noteq> s)"
proof -
  obtain s0 where s0: "NewSenseReversingBarrier (of_nat 2) = Some s0" "s0 = \<lparr>sb_release = 0, sb_seats = 2,
      sb_count = 2, sb_pc = (\<lambda>_. SbIdle), sb_epoch = 0, sb_done = (\<lambda>_. 0)\<rparr>"
    by (simp add: NewSenseReversingBarrier_def word_sle_eq)
  then obtain s where r: "run SenseReversing_step [CallBarrier 0, BarrierStep 0, BarrierStep 0, CallBarrier 1,
      BarrierStep 1, BarrierStep 1, BarrierStep 1, BarrierStep 1, CallBarrier 1, BarrierStep 1, BarrierStep 1] s0 = Some s"
    and p: "sb_done s 1 = 1" "sb_done s 0 = 0" "sb_pc s 0 = SbSpin 0" "sb_pc s 1 = SbSpin 1"
    by (simp add: SenseReversing_Wait_step_def)
  have "\<forall>v < 2. sb_pc s v \<noteq> SbIdle" using p by (auto simp: less_2_cases_iff)
  then show ?thesis
    using sense_reversing_barrier_correct [OF s0(1) _ r, of 1 0] s0(1) r p by auto
qed

end
