(* ===== verification/Latch.thy ===== *)
theory Latch
  imports Counting
begin

text \<open>
  The count-down latches of \<^verbatim>\<open>syncx/latch.go\<close>, \<^verbatim>\<open>SpinLatch\<close> and \<^verbatim>\<open>ChanLatch\<close>, and the
  one-shot \<^verbatim>\<open>CountingBarrier\<close> of \<^verbatim>\<open>syncx/barriers.go\<close>, which counts the same way. The
  counters are 32-bit and wrap; the theorems hold for up to \<open>2 ^ 31\<close> decrements. The
  auxiliary fields \<open>sl_dones\<close>, \<open>cl_dones\<close> and \<open>cb_dones\<close> count the decrements.
\<close>

section \<open>The contract\<close>

text \<open>Who has left has seen \<open>limit\<close> decrements; after \<open>limit\<close> decrements somebody can move on.\<close>

locale latch = machine init step inv
  for init :: "'s \<Rightarrow> bool" and step :: "'a \<Rightarrow> 's \<Rightarrow> 's option" and inv :: "'s \<Rightarrow> bool" +
  fixes move :: "tid \<Rightarrow> 'a" and limit :: nat and dones :: "'s \<Rightarrow> nat"
    and waiting :: "'s \<Rightarrow> tid \<Rightarrow> bool" and out :: "'s \<Rightarrow> tid \<Rightarrow> bool"
  assumes shut: "inv s \<Longrightarrow> dones s \<le> 2 ^ 31 \<Longrightarrow> out s t \<Longrightarrow> limit \<le> dones s"
    and opens: "inv s \<Longrightarrow> dones s \<le> 2 ^ 31 \<Longrightarrow> limit \<le> dones s \<Longrightarrow> waiting s t \<Longrightarrow>
      \<exists>u s'. step (move u) s = Some s' \<and> s' \<noteq> s"
begin

lemma correct:
  assumes "init s0" and "run step as s0 = Some s" and "dones s \<le> 2 ^ 31"
  shows "(out s t \<longrightarrow> limit \<le> dones s)
    \<and> (limit \<le> dones s \<longrightarrow> waiting s t \<longrightarrow> (\<exists>u s'. step (move u) s = Some s' \<and> s' \<noteq> s))"
  using invariant [OF assms(1,2)] shut opens assms(3) by blast

end

datatype latch_act = LatchDone tid | LatchWait tid | LatchStep tid | LatchReturn tid

text \<open>The counter after \<open>d\<close> decrements.\<close>

definition counted :: "nat \<Rightarrow> nat \<Rightarrow> i32" where
  "counted n d = word_of_int (int n - int d)"

lemma counted_Suc: "counted n (Suc d) = counted n d - 1"
  by (simp add: counted_def)

lemma counted_0: "counted n 0 = of_nat n"
  by (simp add: counted_def)

lemma sint_counted: "n < 2 ^ 31 \<Longrightarrow> d \<le> 2 ^ 31 \<Longrightarrow> sint (counted n d) = int n - int d"
proof -
  assume "n < 2 ^ 31" "d \<le> 2 ^ 31"
  then have "int n < 2147483648" "int d \<le> 2147483648" by simp_all
  then show ?thesis
    unfolding counted_def by (simp only: sint_sbintrunc') (simp add: signed_take_bit_int_eq_self)
qed

lemma counted_pos: "n < 2 ^ 31 \<Longrightarrow> d \<le> 2 ^ 31 \<Longrightarrow> 0 <s counted n d \<longleftrightarrow> d < n"
  by (simp add: word_sless_alt sint_counted)

lemma counted_eq_0:
  assumes "n < 2 ^ 31" and "d \<le> 2 ^ 31"
  shows "counted n d = 0 \<longleftrightarrow> d = n"
proof
  assume "counted n d = 0"
  then have "int n - int d = 0" using sint_counted [OF assms] by simp
  then show "d = n" by simp
qed (simp add: counted_def)

section \<open>SpinLatch\<close>

datatype sl_pc =
    SlIdle
  | SlAdd     \<comment> \<open>\<open>Done\<close>: \<open>l.count.Add(-1)\<close>\<close>
  | SlSpin    \<comment> \<open>\<open>Wait\<close>: \<open>for l.count.Load() > 0\<close>\<close>
  | SlOut     \<comment> \<open>\<open>Wait\<close> returns\<close>

record SpinLatch =
  sl_count :: i32
  sl_pc :: "tid \<Rightarrow> sl_pc"
  sl_dones :: nat

definition NewSpinLatch :: "i32 \<Rightarrow> SpinLatch option" where
  "NewSpinLatch n = (if n \<le>s 0 then None else Some \<lparr>sl_count = n, sl_pc = (\<lambda>_. SlIdle), sl_dones = 0\<rparr>)"

fun SpinLatch_step :: "latch_act \<Rightarrow> SpinLatch \<Rightarrow> SpinLatch option" where
  "SpinLatch_step (LatchDone t) l =
     (if sl_pc l t = SlIdle then Some (l\<lparr>sl_pc := (sl_pc l)(t := SlAdd)\<rparr>) else None)"
| "SpinLatch_step (LatchWait t) l =
     (if sl_pc l t = SlIdle then Some (l\<lparr>sl_pc := (sl_pc l)(t := SlSpin)\<rparr>) else None)"
| "SpinLatch_step (LatchStep t) l =
     (case sl_pc l t of
        SlAdd \<Rightarrow> Some (l\<lparr>sl_count := sl_count l - 1, sl_dones := Suc (sl_dones l), sl_pc := (sl_pc l)(t := SlIdle)\<rparr>)
      | SlSpin \<Rightarrow> if 0 <s sl_count l then Some l else Some (l\<lparr>sl_pc := (sl_pc l)(t := SlOut)\<rparr>)
      | _ \<Rightarrow> None)"
| "SpinLatch_step (LatchReturn t) l =
     (if sl_pc l t = SlOut then Some (l\<lparr>sl_pc := (sl_pc l)(t := SlIdle)\<rparr>) else None)"

definition sl_inv :: "nat \<Rightarrow> SpinLatch \<Rightarrow> bool" where
  "sl_inv n l \<longleftrightarrow> n < 2 ^ 31 \<and> sl_count l = counted n (sl_dones l)
     \<and> (sl_dones l \<le> 2 ^ 31 \<longrightarrow> (\<forall>t. sl_pc l t = SlOut \<longrightarrow> n \<le> sl_dones l))"

lemma i32_of_nat_pos: "n < 2 ^ 31 \<Longrightarrow> \<not> (of_nat n :: i32) \<le>s 0 \<longleftrightarrow> 0 < n"
proof -
  assume "n < 2 ^ 31"
  then have "n < 2147483648" by simp
  then have "sint (of_nat n :: i32) = int n" by (simp add: signed_of_nat signed_take_bit_int_eq_self)
  then show ?thesis by (simp add: word_sle_eq)
qed

interpretation spin_latch:
  latch "\<lambda>l. NewSpinLatch (of_nat n) = Some l \<and> n < 2 ^ 31" SpinLatch_step "sl_inv n" LatchStep n sl_dones
    "\<lambda>l t. sl_pc l t = SlSpin" "\<lambda>l t. sl_pc l t = SlOut"
proof
  show "sl_inv n l" if "NewSpinLatch (of_nat n) = Some l \<and> n < 2 ^ 31" for l
    using that by (auto simp: NewSpinLatch_def sl_inv_def counted_0 split: if_splits)
  show "sl_inv n l'" if "sl_inv n l" and "SpinLatch_step a l = Some l'" for l a l'
    using that by (cases a) (auto simp: sl_inv_def counted_pos counted_Suc split: if_splits sl_pc.splits)
  show "n \<le> sl_dones l" if "sl_inv n l" "sl_dones l \<le> 2 ^ 31" "sl_pc l t = SlOut" for l t
    using that by (auto simp: sl_inv_def)
  show "\<exists>u l'. SpinLatch_step (LatchStep u) l = Some l' \<and> l' \<noteq> l"
    if "sl_inv n l" "sl_dones l \<le> 2 ^ 31" "n \<le> sl_dones l" "sl_pc l t = SlSpin" for l t
  proof -
    have "\<not> 0 <s sl_count l" using that by (simp add: sl_inv_def counted_pos)
    then have "\<exists>l'. SpinLatch_step (LatchStep t) l = Some l' \<and> sl_pc l' t \<noteq> sl_pc l t" using that(4) by simp
    then show ?thesis by metis
  qed
qed

section \<open>CountingBarrier\<close>

datatype cb_pc =
    CbIdle
  | CbAdd     \<comment> \<open>\<open>Wait\<close>: \<open>b.seats.Add(-1)\<close>\<close>
  | CbSpin    \<comment> \<open>\<open>for b.seats.Load() > 0\<close>\<close>
  | CbOut

record CountingBarrier =
  cb_seats :: i32
  cb_pc :: "tid \<Rightarrow> cb_pc"
  cb_dones :: nat

definition NewCountingBarrier :: "i32 \<Rightarrow> CountingBarrier option" where
  "NewCountingBarrier n = (if n \<le>s 0 then None else Some \<lparr>cb_seats = n, cb_pc = (\<lambda>_. CbIdle), cb_dones = 0\<rparr>)"

fun CountingBarrier_step :: "latch_act \<Rightarrow> CountingBarrier \<Rightarrow> CountingBarrier option" where
  "CountingBarrier_step (LatchWait t) b =
     (if cb_pc b t = CbIdle then Some (b\<lparr>cb_pc := (cb_pc b)(t := CbAdd)\<rparr>) else None)"
| "CountingBarrier_step (LatchStep t) b =
     (case cb_pc b t of
        CbAdd \<Rightarrow> Some (b\<lparr>cb_seats := cb_seats b - 1, cb_dones := Suc (cb_dones b), cb_pc := (cb_pc b)(t := CbSpin)\<rparr>)
      | CbSpin \<Rightarrow> if 0 <s cb_seats b then Some b else Some (b\<lparr>cb_pc := (cb_pc b)(t := CbOut)\<rparr>)
      | _ \<Rightarrow> None)"
| "CountingBarrier_step (LatchReturn t) b =
     (if cb_pc b t = CbOut then Some (b\<lparr>cb_pc := (cb_pc b)(t := CbIdle)\<rparr>) else None)"
| "CountingBarrier_step (LatchDone t) b = None"

definition cb_inv :: "nat \<Rightarrow> CountingBarrier \<Rightarrow> bool" where
  "cb_inv n b \<longleftrightarrow> n < 2 ^ 31 \<and> cb_seats b = counted n (cb_dones b)
     \<and> (cb_dones b \<le> 2 ^ 31 \<longrightarrow> (\<forall>t. cb_pc b t = CbOut \<longrightarrow> n \<le> cb_dones b))"

interpretation counting_barrier:
  latch "\<lambda>b. NewCountingBarrier (of_nat n) = Some b \<and> n < 2 ^ 31" CountingBarrier_step "cb_inv n" LatchStep n cb_dones
    "\<lambda>b t. cb_pc b t = CbSpin" "\<lambda>b t. cb_pc b t = CbOut"
proof
  show "cb_inv n b" if "NewCountingBarrier (of_nat n) = Some b \<and> n < 2 ^ 31" for b
    using that by (auto simp: NewCountingBarrier_def cb_inv_def counted_0 split: if_splits)
  show "cb_inv n b'" if "cb_inv n b" and "CountingBarrier_step a b = Some b'" for b a b'
    using that by (cases a) (auto simp: cb_inv_def counted_pos counted_Suc split: if_splits cb_pc.splits)
  show "n \<le> cb_dones b" if "cb_inv n b" "cb_dones b \<le> 2 ^ 31" "cb_pc b t = CbOut" for b t
    using that by (auto simp: cb_inv_def)
  show "\<exists>u b'. CountingBarrier_step (LatchStep u) b = Some b' \<and> b' \<noteq> b"
    if "cb_inv n b" "cb_dones b \<le> 2 ^ 31" "n \<le> cb_dones b" "cb_pc b t = CbSpin" for b t
  proof -
    have "\<not> 0 <s cb_seats b" using that by (simp add: cb_inv_def counted_pos)
    then have "\<exists>b'. CountingBarrier_step (LatchStep t) b = Some b' \<and> cb_pc b' t \<noteq> cb_pc b t" using that(4) by simp
    then show ?thesis by metis
  qed
qed

section \<open>ChanLatch\<close>

text \<open>The channel carries nothing; what counts is whether it is closed. Closing it twice panics.\<close>

datatype cl_pc =
    ClIdle
  | ClAdd      \<comment> \<open>\<open>Done\<close>: \<open>l.count.Add(-1) == 0\<close>\<close>
  | ClClose    \<comment> \<open>\<open>close(l.done)\<close>\<close>
  | ClRecv     \<comment> \<open>\<open>Wait\<close>: \<open><-l.done\<close>\<close>
  | ClOut
  | ClPanic    \<comment> \<open>panic: close of closed channel\<close>

record ChanLatch =
  cl_count :: i32
  cl_closed :: bool
  cl_pc :: "tid \<Rightarrow> cl_pc"
  cl_dones :: nat

definition NewChanLatch :: "i32 \<Rightarrow> ChanLatch option" where
  "NewChanLatch n =
     (if n \<le>s 0 then None else Some \<lparr>cl_count = n, cl_closed = False, cl_pc = (\<lambda>_. ClIdle), cl_dones = 0\<rparr>)"

fun ChanLatch_step :: "latch_act \<Rightarrow> ChanLatch \<Rightarrow> ChanLatch option" where
  "ChanLatch_step (LatchDone t) l =
     (if cl_pc l t = ClIdle then Some (l\<lparr>cl_pc := (cl_pc l)(t := ClAdd)\<rparr>) else None)"
| "ChanLatch_step (LatchWait t) l =
     (if cl_pc l t = ClIdle then Some (l\<lparr>cl_pc := (cl_pc l)(t := ClRecv)\<rparr>) else None)"
| "ChanLatch_step (LatchStep t) l =
     (case cl_pc l t of
        ClAdd \<Rightarrow>
          (let count = cl_count l - 1; l1 = l\<lparr>cl_count := count, cl_dones := Suc (cl_dones l)\<rparr>
           in if count = 0 then Some (l1\<lparr>cl_pc := (cl_pc l)(t := ClClose)\<rparr>)
              else Some (l1\<lparr>cl_pc := (cl_pc l)(t := ClIdle)\<rparr>))
      | ClClose \<Rightarrow>
          (if cl_closed l then Some (l\<lparr>cl_pc := (cl_pc l)(t := ClPanic)\<rparr>)
           else Some (l\<lparr>cl_closed := True, cl_pc := (cl_pc l)(t := ClIdle)\<rparr>))
      | ClRecv \<Rightarrow> if cl_closed l then Some (l\<lparr>cl_pc := (cl_pc l)(t := ClOut)\<rparr>) else None
      | _ \<Rightarrow> None)"
| "ChanLatch_step (LatchReturn t) l =
     (if cl_pc l t = ClOut then Some (l\<lparr>cl_pc := (cl_pc l)(t := ClIdle)\<rparr>) else None)"

text \<open>The channel is closed, or one goroutine is about to close it, exactly from the last decrement on.\<close>

definition cl_open_ok :: "nat \<Rightarrow> ChanLatch \<Rightarrow> bool" where
  "cl_open_ok n l \<longleftrightarrow> (n \<le> cl_dones l \<longleftrightarrow> cl_closed l \<or> (\<exists>t. cl_pc l t = ClClose))
     \<and> (\<forall>t. cl_pc l t = ClClose \<longrightarrow> \<not> cl_closed l \<and> (\<forall>u. cl_pc l u = ClClose \<longrightarrow> u = t))
     \<and> (\<forall>t. cl_pc l t = ClOut \<longrightarrow> cl_closed l) \<and> (\<forall>t. cl_pc l t \<noteq> ClPanic)"

definition cl_inv :: "nat \<Rightarrow> ChanLatch \<Rightarrow> bool" where
  "cl_inv n l \<longleftrightarrow> n < 2 ^ 31 \<and> cl_count l = counted n (cl_dones l)
     \<and> (cl_dones l \<le> 2 ^ 31 \<longrightarrow> cl_open_ok n l)"

lemma cl_open_goto:
  assumes "cl_open_ok n l" and "cl_pc l t \<noteq> ClClose" and "p \<noteq> ClClose" "p \<noteq> ClPanic" "p = ClOut \<longrightarrow> cl_closed l"
  shows "cl_open_ok n (l\<lparr>cl_pc := (cl_pc l)(t := p)\<rparr>)"
proof -
  have "(((cl_pc l)(t := p)) u = ClClose) = (cl_pc l u = ClClose)" for u using assms(2,3) by simp
  then show ?thesis using assms(1,4,5) unfolding cl_open_ok_def by (simp; blast)
qed

lemma cl_open_add:
  assumes ok: "cl_open_ok n l" and t: "cl_pc l t = ClAdd" and d: "Suc (cl_dones l) \<le> 2 ^ 31" and n: "n < 2 ^ 31"
    and c: "cl_count l = counted n (cl_dones l)"
  shows "cl_count l - 1 = 0 \<Longrightarrow>
      cl_open_ok n (l\<lparr>cl_count := x, cl_dones := Suc (cl_dones l), cl_pc := (cl_pc l)(t := ClClose)\<rparr>)"
    and "cl_count l - 1 \<noteq> 0 \<Longrightarrow>
      cl_open_ok n (l\<lparr>cl_count := x, cl_dones := Suc (cl_dones l), cl_pc := (cl_pc l)(t := ClIdle)\<rparr>)"
proof -
  have z: "cl_count l - 1 = 0 \<longleftrightarrow> Suc (cl_dones l) = n"
    using counted_eq_0 [OF n d] by (simp add: c counted_Suc)
  show "cl_open_ok n (l\<lparr>cl_count := x, cl_dones := Suc (cl_dones l), cl_pc := (cl_pc l)(t := ClClose)\<rparr>)"
    if "cl_count l - 1 = 0"
  proof -
    have "\<not> n \<le> cl_dones l" "n \<le> Suc (cl_dones l)" using that z by simp_all
    moreover from this have "\<not> cl_closed l" "\<And>u. cl_pc l u \<noteq> ClClose" using ok unfolding cl_open_ok_def by blast+
    ultimately show ?thesis using ok unfolding cl_open_ok_def by auto
  qed
  show "cl_open_ok n (l\<lparr>cl_count := x, cl_dones := Suc (cl_dones l), cl_pc := (cl_pc l)(t := ClIdle)\<rparr>)"
    if "cl_count l - 1 \<noteq> 0"
  proof -
    have "n \<le> Suc (cl_dones l) \<longleftrightarrow> n \<le> cl_dones l" using that z by auto
    moreover have "(((cl_pc l)(t := ClIdle)) u = ClClose) = (cl_pc l u = ClClose)" for u using t by simp
    ultimately show ?thesis using ok unfolding cl_open_ok_def by (simp; blast)
  qed
qed

lemma cl_open_close:
  assumes ok: "cl_open_ok n l" and t: "cl_pc l t = ClClose"
  shows "cl_open_ok n (l\<lparr>cl_closed := True, cl_pc := (cl_pc l)(t := ClIdle)\<rparr>)"
proof -
  have "((cl_pc l)(t := ClIdle)) u \<noteq> ClClose" for u using ok t unfolding cl_open_ok_def by (simp; metis)
  moreover have "n \<le> cl_dones l" using ok t unfolding cl_open_ok_def by blast
  ultimately show ?thesis using ok unfolding cl_open_ok_def by simp
qed

lemma cl_inv_step:
  assumes inv: "cl_inv n l" and st: "ChanLatch_step a l = Some l'"
  shows "cl_inv n l'"
proof (cases a)
  case (LatchStep t)
  show ?thesis
  proof (cases "cl_pc l t")
    case ClAdd
    then show ?thesis using LatchStep st inv
      by (auto simp: cl_inv_def counted_Suc Let_def split: if_splits intro: cl_open_add)
  next
    case ClClose
    then have "cl_dones l \<le> 2 ^ 31 \<Longrightarrow> \<not> cl_closed l" using inv unfolding cl_inv_def cl_open_ok_def by blast
    then show ?thesis using LatchStep st inv ClClose
      by (auto simp: cl_inv_def split: if_splits intro: cl_open_close)
  next
    case ClRecv
    then show ?thesis using LatchStep st inv
      by (auto simp: cl_inv_def split: if_splits intro: cl_open_goto)
  qed (use LatchStep st in simp_all)
qed (use st inv in \<open>auto simp: cl_inv_def split: if_splits intro: cl_open_goto\<close>)

interpretation chan_latch:
  latch "\<lambda>l. NewChanLatch (of_nat n) = Some l \<and> n < 2 ^ 31" ChanLatch_step "cl_inv n" LatchStep n cl_dones
    "\<lambda>l t. cl_pc l t = ClRecv" "\<lambda>l t. cl_pc l t = ClOut \<or> cl_pc l t = ClPanic"
proof
  show "cl_inv n l" if "NewChanLatch (of_nat n) = Some l \<and> n < 2 ^ 31" for l
  proof -
    have "0 < n" using that i32_of_nat_pos [of n] by (auto simp: NewChanLatch_def split: if_splits)
    then show ?thesis
      using that by (auto simp: NewChanLatch_def cl_inv_def cl_open_ok_def counted_0 split: if_splits)
  qed
  show "cl_inv n l'" if "cl_inv n l" and "ChanLatch_step a l = Some l'" for l a l'
    using cl_inv_step that .
  show "n \<le> cl_dones l" if "cl_inv n l" "cl_dones l \<le> 2 ^ 31" "cl_pc l t = ClOut \<or> cl_pc l t = ClPanic" for l t
    using that unfolding cl_inv_def cl_open_ok_def by blast
  show "\<exists>u l'. ChanLatch_step (LatchStep u) l = Some l' \<and> l' \<noteq> l"
    if "cl_inv n l" "cl_dones l \<le> 2 ^ 31" "n \<le> cl_dones l" "cl_pc l t = ClRecv" for l t
  proof -
    have "cl_closed l \<or> (\<exists>u. cl_pc l u = ClClose)" using that unfolding cl_inv_def cl_open_ok_def by blast
    then have "\<exists>u l'. ChanLatch_step (LatchStep u) l = Some l' \<and> cl_pc l' u \<noteq> cl_pc l u"
    proof
      assume "cl_closed l"
      then show ?thesis using that(4) by (intro exI [of _ t]) simp
    next
      assume "\<exists>u. cl_pc l u = ClClose"
      then obtain u where "cl_pc l u = ClClose" by blast
      then show ?thesis by (intro exI [of _ u]) simp
    qed
    then show ?thesis by metis
  qed
qed

section \<open>The theorem\<close>

text \<open>C35: The three count-down primitives for \<open>n\<close> decrements, under every interleaving with at most
  \<open>2 ^ 31\<close> of them: no \<^verbatim>\<open>Wait\<close> returns before the \<open>n\<close>-th \<^verbatim>\<open>Done\<close> (for the barrier,
  before \<open>n\<close> goroutines have arrived), afterwards some goroutine can always move on while one waits,
  and \<^verbatim>\<open>ChanLatch\<close> never closes its channel twice, however often \<^verbatim>\<open>Done\<close> is called.\<close>

theorem latches_correct:
  assumes n: "n < 2 ^ 31"
  shows "(\<forall>l0 as l t. NewSpinLatch (of_nat n) = Some l0 \<longrightarrow> run SpinLatch_step as l0 = Some l \<longrightarrow> sl_dones l \<le> 2 ^ 31 \<longrightarrow>
       (sl_pc l t = SlOut \<longrightarrow> n \<le> sl_dones l)
       \<and> (n \<le> sl_dones l \<longrightarrow> sl_pc l t = SlSpin \<longrightarrow> (\<exists>u l'. SpinLatch_step (LatchStep u) l = Some l' \<and> l' \<noteq> l)))
    \<and> (\<forall>b0 as b t. NewCountingBarrier (of_nat n) = Some b0 \<longrightarrow> run CountingBarrier_step as b0 = Some b \<longrightarrow> cb_dones b \<le> 2 ^ 31 \<longrightarrow>
       (cb_pc b t = CbOut \<longrightarrow> n \<le> cb_dones b)
       \<and> (n \<le> cb_dones b \<longrightarrow> cb_pc b t = CbSpin \<longrightarrow> (\<exists>u b'. CountingBarrier_step (LatchStep u) b = Some b' \<and> b' \<noteq> b)))
    \<and> (\<forall>c0 as c t. NewChanLatch (of_nat n) = Some c0 \<longrightarrow> run ChanLatch_step as c0 = Some c \<longrightarrow> cl_dones c \<le> 2 ^ 31 \<longrightarrow>
       (cl_pc c t = ClOut \<longrightarrow> n \<le> cl_dones c) \<and> cl_pc c t \<noteq> ClPanic
       \<and> (n \<le> cl_dones c \<longrightarrow> cl_pc c t = ClRecv \<longrightarrow> (\<exists>u c'. ChanLatch_step (LatchStep u) c = Some c' \<and> c' \<noteq> c)))"
proof (intro conjI allI impI, goal_cases)
  case (1 l0 as l t)
  then show ?case using spin_latch.correct [OF conjI [OF 1(1) n] 1(2,3)] by blast
next
  case (2 l0 as l t)
  then show ?case using spin_latch.correct [OF conjI [OF 2(1) n] 2(2,3)] by blast
next
  case (3 b0 as b t)
  then show ?case using counting_barrier.correct [OF conjI [OF 3(1) n] 3(2,3)] by blast
next
  case (4 b0 as b t)
  then show ?case using counting_barrier.correct [OF conjI [OF 4(1) n] 4(2,3)] by blast
next
  case (5 c0 as c t)
  then show ?case using chan_latch.correct [OF conjI [OF 5(1) n] 5(2,3)] by blast
next
  case (6 c0 as c t)
  have "cl_inv n c" using chan_latch.invariant [OF conjI [OF 6(1) n] 6(2)] .
  then show ?case using 6(3) by (simp add: cl_inv_def cl_open_ok_def)
next
  case (7 c0 as c t)
  then show ?case using chan_latch.correct [OF conjI [OF 7(1) n] 7(2,3)] by blast
qed

lemma latches_witness:
  "\<exists>c0 c l0 l. NewChanLatch (of_nat 2) = Some c0
     \<and> run ChanLatch_step [LatchWait 1, LatchDone 2, LatchStep 2, LatchDone 3, LatchStep 3] c0 = Some c
     \<and> cl_pc c 1 = ClRecv \<and> \<not> cl_closed c \<and> (\<exists>u c'. ChanLatch_step (LatchStep u) c = Some c' \<and> c' \<noteq> c)
     \<and> NewSpinLatch (of_nat 2) = Some l0
     \<and> run SpinLatch_step [LatchWait 1, LatchDone 2, LatchStep 2, LatchDone 2, LatchStep 2, LatchStep 1] l0 = Some l
     \<and> sl_pc l 1 = SlOut \<and> 2 \<le> sl_dones l"
proof -
  obtain c0 where c0: "NewChanLatch (of_nat 2) = Some c0" by (simp add: NewChanLatch_def word_sle_eq)
  then obtain c where r: "run ChanLatch_step [LatchWait 1, LatchDone 2, LatchStep 2, LatchDone 3, LatchStep 3] c0 = Some c"
    and p: "cl_pc c 1 = ClRecv" "\<not> cl_closed c" "cl_dones c = 2"
    by (auto simp: NewChanLatch_def word_sle_eq)
  obtain l0 where l0: "NewSpinLatch (of_nat 2) = Some l0" by (simp add: NewSpinLatch_def word_sle_eq)
  then obtain l where q: "run SpinLatch_step [LatchWait 1, LatchDone 2, LatchStep 2, LatchDone 2, LatchStep 2, LatchStep 1] l0 = Some l"
    and s: "sl_pc l 1 = SlOut" "sl_dones l = 2"
    by (auto simp: NewSpinLatch_def word_sle_eq word_sless_alt)
  have two: "(2 :: nat) < 2 ^ 31" by simp
  note both = latches_correct [OF two]
  have "cl_dones c \<le> 2 ^ 31" "2 \<le> cl_dones c" "sl_dones l \<le> 2 ^ 31" using p s by simp_all
  then have "\<exists>u c'. ChanLatch_step (LatchStep u) c = Some c' \<and> c' \<noteq> c" "2 \<le> sl_dones l"
    using conjunct2 [OF conjunct2 [OF both], rule_format, OF c0 r] conjunct1 [OF both, rule_format, OF l0 q] p s
    by blast+
  then show ?thesis using c0 r p l0 q s by blast
qed

end
