(* ===== verification/WaitGroup.thy ===== *)
theory WaitGroup
  imports Counting Park
begin

text \<open>
  \<^verbatim>\<open>WaitGroup\<close> of \<^verbatim>\<open>syncx/latch.go\<close>: a counter and a number of waiters packed into one
  64-bit word, and the runtime semaphore to park on. Clients follow the rules of the type: a goroutine
  that calls \<^verbatim>\<open>Done\<close>, or \<^verbatim>\<open>Add\<close> while the group is in use, owns a unit of the counter,
  and a new round starts when every call has returned. Auxiliary fields: \<open>wg_tokens\<close>, the units
  owned by nobody who is inside a call; \<open>wg_busy\<close>, the calls in progress; \<open>wg_peak\<close>, the
  largest value the counter has had, as a mathematical integer.
\<close>

section \<open>The code\<close>

datatype wg_panic = NegativeCounter | AddRacesWait | ReusedEarly

datatype wg_pc =
    WgIdle
  | WgAdd i64 bool        \<comment> \<open>\<open>Add(delta)\<close> before \<open>w.state.Add\<close>; whether its caller owns a unit\<close>
  | WgCheck u64 u32       \<comment> \<open>before \<open>w.state.Load() != state\<close>\<close>
  | WgReset u32           \<comment> \<open>before \<open>w.state.Store(0)\<close>\<close>
  | WgWake u32            \<comment> \<open>\<open>for ; waiters != 0; waiters--\<close>\<close>
  | WgLoad                \<comment> \<open>\<open>Wait\<close>: \<open>state := w.state.Load()\<close>\<close>
  | WgCas u64             \<comment> \<open>\<open>w.state.CompareAndSwap(state, state+1)\<close>\<close>
  | WgSleep               \<comment> \<open>\<open>runtime_Semacquire(&w.sema)\<close>\<close>
  | WgVerify              \<comment> \<open>\<open>w.state.Load() != 0\<close>\<close>
  | WgOut                 \<comment> \<open>return\<close>
  | WgPanic wg_panic

record WaitGroup =
  wg_state :: u64
  wg_sema :: u32
  wg_pc :: "tid \<Rightarrow> wg_pc"
  wg_tokens :: int
  wg_busy :: nat
  wg_peak :: int

definition WaitGroup_zero :: WaitGroup where
  "WaitGroup_zero = \<lparr>wg_state = 0, wg_sema = 0, wg_pc = (\<lambda>_. WgIdle), wg_tokens = 0, wg_busy = 0, wg_peak = 0\<rparr>"

definition wg_counter :: "u64 \<Rightarrow> i32" where
  "wg_counter state = ucast (drop_bit 32 state)"

definition wg_waiters :: "u64 \<Rightarrow> u32" where
  "wg_waiters state = ucast state"

abbreviation wg_goto :: "tid \<Rightarrow> wg_pc \<Rightarrow> WaitGroup \<Rightarrow> WaitGroup" where
  "wg_goto t p w \<equiv> w\<lparr>wg_pc := (wg_pc w)(t := p)\<rparr>"

text \<open>
  The exact value of the counter: the units nobody is about to change, and those of the goroutines
  that are inside \<^verbatim>\<open>Add\<close> and own one.
\<close>

definition wg_owns :: "wg_pc \<Rightarrow> bool" where
  "wg_owns p \<longleftrightarrow> (\<exists>d. p = WgAdd d True)"

definition wg_count :: "WaitGroup \<Rightarrow> int" where
  "wg_count w = wg_tokens w + num wg_owns (wg_pc w)"

definition WaitGroup_Add_step :: "tid \<Rightarrow> WaitGroup \<Rightarrow> WaitGroup option" where
  "WaitGroup_Add_step t w =
     (case wg_pc w t of
        WgAdd delta own \<Rightarrow>
          (let state = wg_state w + push_bit 32 delta; counter = wg_counter state; waiters = wg_waiters state;
               w1 = w\<lparr>wg_state := state, wg_tokens := wg_tokens w + of_bool own + sint delta,
                      wg_peak := max (wg_peak w) (wg_count w + sint delta)\<rparr>
           in if counter <s 0 then Some (wg_goto t (WgPanic NegativeCounter) w1)
              else if waiters \<noteq> 0 \<and> 0 <s delta \<and> counter = ucast delta
              then Some (wg_goto t (WgPanic AddRacesWait) w1)
              else if 0 <s counter \<or> waiters = 0 then Some (wg_goto t WgOut w1)
              else Some (wg_goto t (WgCheck state waiters) w1))
      | WgCheck state waiters \<Rightarrow>
          (if wg_state w \<noteq> state then Some (wg_goto t (WgPanic AddRacesWait) w)
           else Some (wg_goto t (WgReset waiters) w))
      | WgReset waiters \<Rightarrow> Some (w\<lparr>wg_state := 0, wg_pc := (wg_pc w)(t := WgWake waiters)\<rparr>)
      | WgWake waiters \<Rightarrow>
          (if waiters = 0 then Some (wg_goto t WgOut w)
           else Some (w\<lparr>wg_sema := runtime_Semrelease (wg_sema w), wg_pc := (wg_pc w)(t := WgWake (waiters - 1))\<rparr>))
      | _ \<Rightarrow> None)"

definition WaitGroup_Wait_step :: "tid \<Rightarrow> WaitGroup \<Rightarrow> WaitGroup option" where
  "WaitGroup_Wait_step t w =
     (case wg_pc w t of
        WgLoad \<Rightarrow>
          (if wg_counter (wg_state w) = 0 then Some (wg_goto t WgOut w)
           else Some (wg_goto t (WgCas (wg_state w)) w))
      | WgCas state \<Rightarrow>
          (if wg_state w = state
           then Some (w\<lparr>wg_state := state + 1, wg_pc := (wg_pc w)(t := WgSleep)\<rparr>)
           else Some (wg_goto t WgLoad w))
      | WgSleep \<Rightarrow>
          (case runtime_Semacquire (wg_sema w) of
             None \<Rightarrow> None
           | Some n \<Rightarrow> Some (w\<lparr>wg_sema := n, wg_pc := (wg_pc w)(t := WgVerify)\<rparr>))
      | WgVerify \<Rightarrow>
          (if wg_state w \<noteq> 0 then Some (wg_goto t (WgPanic ReusedEarly) w) else Some (wg_goto t WgOut w))
      | _ \<Rightarrow> None)"

datatype wg_act =
    WgCallFirst tid i64   \<comment> \<open>\<open>Add(delta)\<close> that starts a round\<close>
  | WgCallAdd tid i64     \<comment> \<open>\<open>Add(delta)\<close> by an owner of a unit\<close>
  | WgCallDone tid        \<comment> \<open>\<open>Done() = Add(-1)\<close>\<close>
  | WgCallWait tid
  | WgStep tid
  | WgReturn tid

abbreviation wg_call :: "tid \<Rightarrow> wg_pc \<Rightarrow> int \<Rightarrow> WaitGroup \<Rightarrow> WaitGroup" where
  "wg_call t p own w \<equiv> w\<lparr>wg_pc := (wg_pc w)(t := p), wg_tokens := wg_tokens w - own, wg_busy := Suc (wg_busy w)\<rparr>"

fun WaitGroup_step :: "wg_act \<Rightarrow> WaitGroup \<Rightarrow> WaitGroup option" where
  "WaitGroup_step (WgCallFirst t delta) w =
     (if wg_pc w t = WgIdle \<and> t < max_goroutines \<and> 0 <s delta \<and> wg_tokens w = 0 \<and> wg_busy w = 0
      then Some (wg_call t (WgAdd delta False) 0 w) else None)"
| "WaitGroup_step (WgCallAdd t delta) w =
     (if wg_pc w t = WgIdle \<and> t < max_goroutines \<and> 0 <s delta \<and> 0 < wg_tokens w
      then Some (wg_call t (WgAdd delta True) 1 w) else None)"
| "WaitGroup_step (WgCallDone t) w =
     (if wg_pc w t = WgIdle \<and> t < max_goroutines \<and> 0 < wg_tokens w
      then Some (wg_call t (WgAdd (- 1) True) 1 w) else None)"
| "WaitGroup_step (WgCallWait t) w =
     (if wg_pc w t = WgIdle \<and> t < max_goroutines then Some (wg_call t WgLoad 0 w) else None)"
| "WaitGroup_step (WgStep t) w =
     (case WaitGroup_Add_step t w of Some w' \<Rightarrow> Some w' | None \<Rightarrow> WaitGroup_Wait_step t w)"
| "WaitGroup_step (WgReturn t) w =
     (if wg_pc w t = WgOut then Some (w\<lparr>wg_pc := (wg_pc w)(t := WgIdle), wg_busy := wg_busy w - 1\<rparr>) else None)"

section \<open>The packed word\<close>

definition wg_pack :: "int \<Rightarrow> int \<Rightarrow> u64" where
  "wg_pack c s = word_of_int (c * 2 ^ 32 + s)"

lemma wg_pack_0 [simp]: "wg_pack 0 0 = 0"
  by (simp add: wg_pack_def)

lemma wg_pack_inc: "wg_pack c s + 1 = wg_pack c (s + 1)"
  by (simp add: wg_pack_def)

lemma wg_pack_add: "wg_pack c s + push_bit 32 d = wg_pack (c + sint d) s"
proof -
  have "push_bit 32 d = d * 2 ^ 32" by (rule push_bit_eq_mult)
  also have "\<dots> = word_of_int (sint d) * word_of_int (2 ^ 32)" by simp
  finally have "push_bit 32 d = (word_of_int (sint d * 2 ^ 32) :: u64)"
    by (simp only: wi_hom_mult)
  then show ?thesis unfolding wg_pack_def by (simp only: wi_hom_add) (simp add: algebra_simps)
qed

lemma wg_pack_uint:
  assumes "0 \<le> c" "c < 2 ^ 31" "0 \<le> s" "s < 2 ^ 32"
  shows "uint (wg_pack c s) = c * 2 ^ 32 + s"
proof -
  have "c * 4294967296 + s < 18446744073709551616" using assms by simp
  then show ?thesis using assms
    unfolding wg_pack_def by (simp only: uint_word_of_int) simp
qed

lemma wg_counter_pack:
  assumes "0 \<le> c" "c < 2 ^ 31" "0 \<le> s" "s < 2 ^ 32"
  shows "wg_counter (wg_pack c s) = word_of_int c"
proof -
  have "uint (drop_bit 32 (wg_pack c s)) = c"
    using wg_pack_uint [OF assms] assms by (simp add: uint_div drop_bit_eq_div del: uint_div_distrib)
  then show ?thesis unfolding wg_counter_def by (metis ucast_eq)
qed

lemma wg_waiters_pack:
  assumes "0 \<le> c" "c < 2 ^ 31" "0 \<le> s" "s < 2 ^ 32"
  shows "wg_waiters (wg_pack c s) = word_of_int s"
proof -
  have "(ucast (wg_pack c s) :: u32) = word_of_int (c * 2 ^ 32 + s)"
    using wg_pack_uint [OF assms] by (simp only: ucast_eq)
  also have "\<dots> = word_of_int c * 2 ^ 32 + word_of_int s"
    by (simp only: wi_hom_add [symmetric] wi_hom_mult [symmetric]) simp
  also have "(2 ^ 32 :: u32) = 0" by simp
  finally show ?thesis by (simp add: wg_waiters_def)
qed

lemma sint_i32_of_int: "- (2 ^ 31) \<le> c \<Longrightarrow> c < 2 ^ 31 \<Longrightarrow> sint (word_of_int c :: i32) = c"
  by (simp only: sint_sbintrunc') (simp add: signed_take_bit_int_eq_self)

lemma ucast_i64_i32: "(ucast (d :: i64) :: i32) = word_of_int (sint d)"
  by transfer (simp add: take_bit_signed_take_bit)

lemma sint_counter_pack:
  assumes "0 \<le> c" "c < 2 ^ 31" "0 \<le> s" "s < 2 ^ 32"
  shows "sint (wg_counter (wg_pack c s)) = c"
  using wg_counter_pack [OF assms] sint_i32_of_int [of c] assms by simp

section \<open>The invariant\<close>

text \<open>A round is open while the counter is positive. Its last decrement, by a goroutine that then
  closes it, wakes the registered waiters; a round is closed when nobody is waking any more, and a new
  one starts when all calls have returned.\<close>

datatype wg_phase = Open | Closed | Starting tid | Closing tid | Waking tid

definition wg_calm :: "wg_pc \<Rightarrow> bool" where
  "wg_calm p \<longleftrightarrow> p = WgIdle \<or> p = WgLoad \<or> p = WgOut \<or> (\<exists>st. p = WgCas st \<and> wg_counter st \<noteq> 0)"

definition wg_adding :: "wg_pc \<Rightarrow> bool" where
  "wg_adding p \<longleftrightarrow> (\<exists>d. p = WgAdd d True \<and> (d = - 1 \<or> 0 <s d))"

abbreviation wg_sleepers :: "(tid \<Rightarrow> wg_pc) \<Rightarrow> int" where
  "wg_sleepers pc \<equiv> num (\<lambda>p. p = WgSleep) pc"

fun wg_at :: "wg_phase \<Rightarrow> u64 \<Rightarrow> u32 \<Rightarrow> int \<Rightarrow> (tid \<Rightarrow> wg_pc) \<Rightarrow> bool" where
  "wg_at Open state g c pc \<longleftrightarrow>
     (\<forall>u. wg_calm (pc u) \<or> wg_adding (pc u) \<or> pc u = WgSleep) \<and> 0 \<le> c \<and> 0 < c + num wg_owns pc
     \<and> state = wg_pack (c + num wg_owns pc) (wg_sleepers pc) \<and> g = 0"
| "wg_at Closed state g c pc \<longleftrightarrow>
     (\<forall>u. wg_calm (pc u) \<or> pc u = WgSleep \<or> pc u = WgVerify) \<and> c = 0 \<and> state = 0 \<and> wg_sleepers pc = uint g"
| "wg_at (Starting t) state g c pc \<longleftrightarrow>
     (\<exists>d. pc t = WgAdd d False \<and> 0 <s d) \<and> (\<forall>u. u \<noteq> t \<longrightarrow> wg_calm (pc u)) \<and> c = 0 \<and> state = 0 \<and> g = 0"
| "wg_at (Closing t) state g c pc \<longleftrightarrow>
     (pc t = WgCheck state (wg_waiters state) \<or> pc t = WgReset (wg_waiters state))
     \<and> (\<forall>u. u \<noteq> t \<longrightarrow> wg_calm (pc u) \<or> pc u = WgSleep) \<and> c = 0 \<and> state = wg_pack 0 (wg_sleepers pc) \<and> g = 0"
| "wg_at (Waking t) state g c pc \<longleftrightarrow>
     (\<exists>k. pc t = WgWake k \<and> wg_sleepers pc = uint g + uint k)
     \<and> (\<forall>u. u \<noteq> t \<longrightarrow> wg_calm (pc u) \<or> pc u = WgSleep \<or> pc u = WgVerify) \<and> c = 0 \<and> state = 0"

definition wg_inv :: "WaitGroup \<Rightarrow> bool" where
  "wg_inv w \<longleftrightarrow> active WgIdle (wg_pc w) \<and> int (wg_busy w) = num (\<lambda>p. p \<noteq> WgIdle) (wg_pc w)
     \<and> wg_count w \<le> wg_peak w
     \<and> (wg_peak w < 2 ^ 31 \<longrightarrow> (\<exists>ph. wg_at ph (wg_state w) (wg_sema w) (wg_tokens w) (wg_pc w)))"

lemmas wg_num_sleep = num_upd [where idle = WgIdle and P = "\<lambda>p. p = WgSleep", simplified]
lemmas wg_num_owns = num_upd [where idle = WgIdle and P = wg_owns]
lemmas wg_num_busy = num_upd [where idle = WgIdle and P = "\<lambda>p. p \<noteq> WgIdle", simplified]

lemma wg_owns_simps [simp]:
  "wg_owns (WgAdd d n) \<longleftrightarrow> n" "\<not> wg_owns WgIdle" "\<not> wg_owns WgLoad" "\<not> wg_owns WgOut" "\<not> wg_owns WgSleep"
  "\<not> wg_owns WgVerify" "\<not> wg_owns (WgCas x)" "\<not> wg_owns (WgCheck x y)" "\<not> wg_owns (WgReset y)" "\<not> wg_owns (WgWake y)"
  "\<not> wg_owns (WgPanic e)"
  by (simp_all add: wg_owns_def)

lemma wg_calm_simps [simp]:
  "wg_calm WgIdle" "wg_calm WgLoad" "wg_calm WgOut" "wg_calm (WgCas x) \<longleftrightarrow> wg_counter x \<noteq> 0" "\<not> wg_calm WgSleep"
  "\<not> wg_calm WgVerify" "\<not> wg_calm (WgAdd d n)" "\<not> wg_calm (WgCheck x y)" "\<not> wg_calm (WgReset y)" "\<not> wg_calm (WgWake y)"
  "\<not> wg_calm (WgPanic e)"
  by (simp_all add: wg_calm_def)

lemma wg_adding_simps [simp]:
  "wg_adding (WgAdd d n) \<longleftrightarrow> n \<and> (d = - 1 \<or> 0 <s d)" "\<not> wg_adding (WgVerify)" "\<not> wg_adding (WgCas x)"
  "\<not> wg_adding (WgCheck x y)" "\<not> wg_adding (WgReset y)" "\<not> wg_adding (WgWake y)" "\<not> wg_adding (WgPanic e)"
  "\<not> wg_adding WgIdle" "\<not> wg_adding WgLoad" "\<not> wg_adding WgOut" "\<not> wg_adding WgSleep"
  by (auto simp: wg_adding_def)

lemma wg_calm_owns: "wg_calm p \<Longrightarrow> \<not> wg_owns p"
  by (cases p) simp_all

lemma num_no_owners: "(\<And>u. \<not> wg_owns (pc u)) \<Longrightarrow> num wg_owns pc = 0"
  by (simp add: num_def)

text \<open>Outside an open round the counter is 0.\<close>

lemma wg_at_owners: "wg_at ph state g c pc \<Longrightarrow> ph \<noteq> Open \<Longrightarrow> c = 0 \<and> num wg_owns pc = 0"
proof (cases ph)
  case (Starting t)
  assume a: "wg_at ph state g c pc"
  have "\<not> wg_owns (pc u)" for u using a Starting by (cases "u = t") (auto dest: wg_calm_owns)
  then show ?thesis using a Starting num_no_owners by simp
next
  case (Closing t)
  assume a: "wg_at ph state g c pc"
  have "\<not> wg_owns (pc u)" for u using a Closing by (cases "u = t") (auto dest: wg_calm_owns)
  then show ?thesis using a Closing num_no_owners by simp
next
  case (Waking t)
  assume a: "wg_at ph state g c pc"
  have "\<not> wg_owns (pc u)" for u using a Waking by (cases "u = t") (auto dest: wg_calm_owns)
  then show ?thesis using a Waking num_no_owners by simp
next
  case Closed
  assume a: "wg_at ph state g c pc"
  have "\<not> wg_owns (pc u)" for u using a Closed by (auto dest: wg_calm_owns)
  then show ?thesis using a Closed num_no_owners by simp
qed simp

text \<open>A goroutine that does nothing to the group leaves the phase as it is.\<close>

lemma wg_at_calm:
  assumes "wg_at ph state g c pc" and "active WgIdle pc" and "wg_calm (pc t)" and "wg_calm p"
  shows "wg_at ph state g c (pc(t := p))"
proof -
  have sl: "wg_sleepers (pc(t := p)) = wg_sleepers pc"
    using assms(2-4) wg_num_sleep [of pc t p] by (cases "pc t"; cases p) simp_all
  have ow: "num wg_owns (pc(t := p)) = num wg_owns pc"
    using assms(2-4) wg_num_owns [of pc t p] by (simp add: wg_calm_owns)
  show ?thesis
  proof (cases ph)
    case (Starting u)
    then have "u \<noteq> t" using assms by auto
    then show ?thesis using assms Starting by simp
  next
    case (Closing u)
    then have "u \<noteq> t" using assms by auto
    then show ?thesis using assms(1,4) Closing sl by auto
  next
    case (Waking u)
    then have "u \<noteq> t" using assms by auto
    then show ?thesis using assms(1,4) Waking sl by simp
  qed (use assms(1,4) sl ow in simp_all)
qed

lemma wg_sleepers_bound: "active WgIdle pc \<Longrightarrow> wg_sleepers pc < 2 ^ 32"
  using num_le [where idle = WgIdle and P = "\<lambda>p. p = WgSleep" and pc = pc] by simp

lemma wg_nobody_sleeps: "(\<And>u. pc u \<noteq> WgSleep) \<Longrightarrow> wg_sleepers pc = 0"
  by (simp add: num_def)

text \<open>Which phase a goroutine's place tells.\<close>

lemma wg_at_pc:
  assumes "wg_at ph state g c pc"
  shows "case pc t of WgAdd d own \<Rightarrow> ph = Open \<or> ph = Starting t
    | WgCheck x k \<Rightarrow> ph = Closing t | WgReset k \<Rightarrow> ph = Closing t | WgWake k \<Rightarrow> ph = Waking t
    | WgVerify \<Rightarrow> ph = Closed \<or> (\<exists>v. ph = Waking v \<and> v \<noteq> t)
    | WgCas x \<Rightarrow> wg_counter x \<noteq> 0 | WgPanic e \<Rightarrow> False | _ \<Rightarrow> True"
proof (cases ph)
  case Open
  then have "wg_calm (pc t) \<or> wg_adding (pc t) \<or> pc t = WgSleep" using assms by (auto dest!: spec [of _ t])
  then show ?thesis using Open by (cases "pc t") simp_all
next
  case Closed
  then have "wg_calm (pc t) \<or> pc t = WgSleep \<or> pc t = WgVerify" using assms by (auto dest!: spec [of _ t])
  then show ?thesis using Closed by (cases "pc t") simp_all
next
  case (Starting u)
  then have "wg_calm (pc t) \<or> u = t \<and> (\<exists>d. pc t = WgAdd d False)" using assms by (cases "u = t") auto
  then show ?thesis using Starting by (cases "pc t") auto
next
  case (Closing u)
  then have "wg_calm (pc t) \<or> pc t = WgSleep \<or> u = t \<and> (\<exists>k x. pc t = WgCheck x k \<or> pc t = WgReset k)"
    using assms by (cases "u = t") auto
  then show ?thesis using Closing by (cases "pc t") auto
next
  case (Waking u)
  then have "wg_calm (pc t) \<or> pc t = WgSleep \<or> u \<noteq> t \<and> pc t = WgVerify \<or> u = t \<and> (\<exists>k. pc t = WgWake k)"
    using assms by (cases "u = t") auto
  then show ?thesis using Waking by (cases "pc t") auto
qed

subsection \<open>Calls\<close>

lemma wg_at_call_add:
  assumes "wg_at ph state g c pc" and "active WgIdle pc" and "pc t = WgIdle" and "0 < c" and "d = - 1 \<or> 0 <s d"
  shows "wg_at Open state g (c - 1) (pc(t := WgAdd d True))"
proof -
  have "ph = Open" using wg_at_owners [OF assms(1)] assms(4) by auto
  moreover have "num wg_owns (pc(t := WgAdd d True)) = num wg_owns pc + 1"
    using assms(2,3) by (simp add: wg_num_owns)
  moreover have "wg_sleepers (pc(t := WgAdd d True)) = wg_sleepers pc"
    using assms(2,3) by (simp add: wg_num_sleep)
  ultimately show ?thesis using assms(1,4,5) by simp
qed

lemma wg_at_call_first:
  assumes "wg_at ph state g 0 pc" and "\<And>u. pc u = WgIdle" and "0 <s d"
  shows "wg_at (Starting t) state g 0 (pc(t := WgAdd d False))"
proof (cases ph)
  case Open
  then show ?thesis using assms(1,2) num_no_owners [of pc] by simp
next
  case Closed
  then have "uint g = 0" using assms(1,2) wg_nobody_sleeps [of pc] by simp
  then show ?thesis using assms Closed by (simp add: uint_0_iff)
qed (use assms(1) in \<open>simp_all add: assms(2)\<close>)

subsection \<open>Add\<close>

lemma wg_at_adder:
  assumes at: "wg_at ph state g c pc" and a: "active WgIdle pc" and t: "pc t = WgAdd d own"
  shows wg_adder_state: "state = wg_pack (c + num wg_owns pc) (wg_sleepers pc)" "g = 0"
    and wg_adder_others: "\<And>u. u \<noteq> t \<Longrightarrow> wg_calm (pc u) \<or> wg_adding (pc u) \<or> pc u = WgSleep"
    and wg_adder_delta: "d = - 1 \<and> own \<or> 0 <s d"
    and wg_adder_count: "0 \<le> c" "of_bool own \<le> num wg_owns pc" "0 < wg_sleepers pc \<Longrightarrow> own"
proof -
  have "ph = Open \<or> ph = Starting t" using wg_at_pc [OF at, of t] t by simp
  then have "state = wg_pack (c + num wg_owns pc) (wg_sleepers pc) \<and> g = 0
    \<and> (\<forall>u. u \<noteq> t \<longrightarrow> wg_calm (pc u) \<or> wg_adding (pc u) \<or> pc u = WgSleep)
    \<and> (d = - 1 \<and> own \<or> 0 <s d) \<and> 0 \<le> c \<and> of_bool own \<le> num wg_owns pc
    \<and> (0 < wg_sleepers pc \<longrightarrow> own)"
  proof
    assume o: "ph = Open"
    have all: "\<forall>u. wg_calm (pc u) \<or> wg_adding (pc u) \<or> pc u = WgSleep" using at o by simp
    then have "wg_calm (pc t) \<or> wg_adding (pc t) \<or> pc t = WgSleep" by blast
    then have ad: "own" "d = - 1 \<or> 0 <s d" using t by simp_all
    then have "0 < num wg_owns pc" using num_pos [where P = wg_owns and t = t, OF a] t by simp
    then show ?thesis using at o ad all by simp
  next
    assume s: "ph = Starting t"
    have o: "\<not> own" "0 <s d" and others: "\<forall>u. u \<noteq> t \<longrightarrow> wg_calm (pc u)" using at t s by simp_all
    have "pc u \<noteq> WgSleep" for u using others t by (cases "u = t") auto
    then have "wg_sleepers pc = 0" by (rule wg_nobody_sleeps)
    then show ?thesis using at s o others wg_at_owners [OF at] by simp
  qed
  then show "state = wg_pack (c + num wg_owns pc) (wg_sleepers pc)" "g = 0"
    "\<And>u. u \<noteq> t \<Longrightarrow> wg_calm (pc u) \<or> wg_adding (pc u) \<or> pc u = WgSleep"
    "d = - 1 \<and> own \<or> 0 <s d"
    "0 \<le> c" "of_bool own \<le> num wg_owns pc" "0 < wg_sleepers pc \<Longrightarrow> own" by blast+
qed

text \<open>What \<open>state.Add\<close> leaves behind, and that neither panic can happen.\<close>

lemma wg_at_add:
  assumes at: "wg_at ph state g c pc" and a: "active WgIdle pc" and t: "pc t = WgAdd d own"
    and small: "c + num wg_owns pc + sint d < 2 ^ 31"
  defines "st \<equiv> state + push_bit 32 d" and "n \<equiv> c + num wg_owns pc + sint d"
  shows wg_add_count: "sint (wg_counter st) = n" "0 \<le> n"
    and wg_add_waiters: "uint (wg_waiters st) = wg_sleepers pc"
    and wg_add_no_race: "wg_waiters st \<noteq> 0 \<Longrightarrow> 0 <s d \<Longrightarrow> wg_counter st \<noteq> ucast d"
    and wg_add_open: "0 < n \<Longrightarrow> wg_at Open st g (c + of_bool own + sint d) (pc(t := WgOut))"
    and wg_add_closed: "n = 0 \<Longrightarrow> wg_waiters st = 0 \<Longrightarrow> wg_at Closed st g (c + of_bool own + sint d) (pc(t := WgOut))"
    and wg_add_closing: "n = 0 \<Longrightarrow> wg_at (Closing t) st g (c + of_bool own + sint d) (pc(t := WgCheck st (wg_waiters st)))"
proof -
  note s = wg_adder_state [OF at a t] and others = wg_adder_others [OF at a t]
    and dl = wg_adder_delta [OF at a t] and ct = wg_adder_count [OF at a t]
  have S: "0 \<le> wg_sleepers pc" "wg_sleepers pc < 2 ^ 32" using wg_sleepers_bound [OF a] by simp_all
  have pos: "0 < sint d" if "0 <s d" using that by (simp add: word_sless_alt)
  have st: "st = wg_pack n (wg_sleepers pc)" using s by (simp add: st_def n_def wg_pack_add)
  have cd: "- of_bool own \<le> sint d" "0 < sint d \<or> sint d = - 1 \<and> own" using dl pos by auto
  then show n: "0 \<le> n" using ct by (simp add: n_def)
  have n31: "n < 2 ^ 31" using small by (simp add: n_def)
  show "sint (wg_counter st) = n" unfolding st using sint_counter_pack [OF n n31 S] .
  have w: "wg_waiters st = word_of_int (wg_sleepers pc)" unfolding st using wg_waiters_pack [OF n n31 S] .
  then show uw: "uint (wg_waiters st) = wg_sleepers pc" using S by (simp add: uint_word_of_int)
  show "wg_counter st \<noteq> ucast d" if "wg_waiters st \<noteq> 0" "0 <s d"
  proof -
    have "0 < wg_sleepers pc" using that(1) uw S(1) uint_0_iff [of "wg_waiters st"] by linarith
    then have "0 < num wg_owns pc" using ct(2,3) by simp
    then have "sint d < n" using ct(1) by (simp add: n_def)
    moreover have "(ucast d :: i32) = word_of_int (sint d)" using ucast_i64_i32 .
    ultimately show ?thesis using pos [OF that(2)] n31 sint_i32_of_int [of "sint d"] \<open>sint (wg_counter st) = n\<close> by force
  qed
  have ow: "num wg_owns (pc(t := p)) = num wg_owns pc - of_bool own" if "\<not> wg_owns p" for p
    using dl that by (auto simp: wg_num_owns [OF a] t)
  have sl: "wg_sleepers (pc(t := p)) = wg_sleepers pc" if "p \<noteq> WgSleep" for p
    using that by (simp add: wg_num_sleep [OF a] t)
  show "wg_at Open st g (c + of_bool own + sint d) (pc(t := WgOut))" if "0 < n"
  proof -
    have "c + of_bool own + sint d + num wg_owns (pc(t := WgOut)) = n" using ow [of WgOut] by (simp add: n_def)
    moreover have "0 \<le> c + of_bool own + sint d" using cd(1) ct(1) by linarith
    ultimately show ?thesis using others s(2) that sl [of WgOut] st by auto
  qed
  have zero: "c + of_bool own + sint d = 0" "num wg_owns (pc(t := WgOut)) = 0" if "n = 0"
    using that cd ct ow [of WgOut] num_nonneg [of wg_owns pc] by (auto simp: n_def)
  have nobody: "\<not> wg_adding (pc u)" if "n = 0" "u \<noteq> t" for u
    using num_zeroD [where P = wg_owns and idle = WgIdle, OF zero(2) [OF that(1)], of u] active_move [OF a, of t WgOut] that t
    by (auto simp: wg_adding_def)
  show "wg_at Closed st g (c + of_bool own + sint d) (pc(t := WgOut))" if "n = 0" "wg_waiters st = 0"
  proof -
    have "wg_sleepers pc = 0" using uw that(2) by simp
    then show ?thesis using st that zero nobody others s(2) sl [of WgOut] by auto
  qed
  show "wg_at (Closing t) st g (c + of_bool own + sint d) (pc(t := WgCheck st (wg_waiters st)))" if "n = 0"
    using st that zero nobody others s(2) sl by auto
qed

subsection \<open>Closing a round\<close>

lemma wg_sleepers_other:
  "active WgIdle pc \<Longrightarrow> pc t \<noteq> WgSleep \<Longrightarrow> p \<noteq> WgSleep \<Longrightarrow> wg_sleepers (pc(t := p)) = wg_sleepers pc"
  by (simp add: wg_num_sleep)

lemma wg_at_check:
  assumes "wg_at ph state g c pc" and "active WgIdle pc" and "pc t = WgCheck x k"
  shows "state = x" and "wg_at (Closing t) state g c (pc(t := WgReset k))"
proof -
  have "ph = Closing t" using wg_at_pc [OF assms(1), of t] assms(3) by simp
  then show "state = x" and "wg_at (Closing t) state g c (pc(t := WgReset k))"
    using assms(1,3) wg_sleepers_other [OF assms(2), of t "WgReset k"] by auto
qed

lemma wg_at_reset:
  assumes "wg_at ph state g c pc" and "active WgIdle pc" and "pc t = WgReset k"
  shows "wg_at (Waking t) 0 g c (pc(t := WgWake k))"
proof -
  have ph: "ph = Closing t" using wg_at_pc [OF assms(1), of t] assms(3) by simp
  then have k: "k = wg_waiters (wg_pack 0 (wg_sleepers pc))" using assms(1,3) by auto
  have "uint k = wg_sleepers pc"
    using wg_waiters_pack [of 0 "wg_sleepers pc"] wg_sleepers_bound [OF assms(2)]
    by (simp add: k uint_word_of_int)
  then show ?thesis
    using assms(1,3) ph wg_sleepers_other [OF assms(2), of t "WgWake k"] by auto
qed

lemma wg_at_wake:
  assumes "wg_at ph state g c pc" and a: "active WgIdle pc" and t: "pc t = WgWake k" and k: "k \<noteq> 0"
  shows "wg_at (Waking t) state (g + 1) c (pc(t := WgWake (k - 1)))"
proof -
  have ph: "ph = Waking t" using wg_at_pc [OF assms(1), of t] t by simp
  then have s: "wg_sleepers pc = uint g + uint k" using assms(1) t by simp
  moreover have "0 < uint k" using k uint_0_iff [of k] uint_ge_0 [of k] by linarith
  ultimately have "uint g + 1 < 2 ^ 32" using wg_sleepers_bound [OF a] by linarith
  then have "uint (g + 1) = uint g + 1" by (simp add: uint_word_ariths)
  moreover have "uint (k - 1) = uint k - 1" using k by (rule uint_pred)
  ultimately show ?thesis
    using assms(1) ph t s wg_sleepers_other [OF a, of t "WgWake (k - 1)"] by auto
qed

lemma wg_at_woken:
  assumes "wg_at ph state g c pc" and a: "active WgIdle pc" and t: "pc t = WgWake 0"
  shows "wg_at Closed state g c (pc(t := WgOut))"
proof -
  have ph: "ph = Waking t" using wg_at_pc [OF assms(1), of t] t by simp
  then show ?thesis using assms(1) t wg_sleepers_other [OF a, of t WgOut] by auto
qed

subsection \<open>Wait\<close>

lemma wg_counter_0 [simp]: "wg_counter 0 = 0"
  by (simp add: wg_counter_def)

text \<open>The 32-bit counter is the exact count in every phase.\<close>

lemma wg_at_counter:
  assumes at: "wg_at ph state g c pc" and a: "active WgIdle pc" and small: "c + num wg_owns pc < 2 ^ 31"
  shows "sint (wg_counter state) = c + num wg_owns pc"
proof (cases "ph = Open")
  case True
  then show ?thesis
    using at small wg_sleepers_bound [OF a] sint_counter_pack [of "c + num wg_owns pc" "wg_sleepers pc"] by simp
next
  case False
  then have z: "c = 0" "num wg_owns pc = 0" using wg_at_owners [OF at] by simp_all
  have "wg_counter (wg_pack 0 (wg_sleepers pc)) = 0"
    using wg_counter_pack [of 0 "wg_sleepers pc"] wg_sleepers_bound [OF a] by simp
  then show ?thesis using at False z by (cases ph) auto
qed

lemma wg_at_cas:
  assumes at: "wg_at ph state g c pc" and a: "active WgIdle pc" and t: "pc t = WgCas state"
    and small: "c + num wg_owns pc < 2 ^ 31"
  shows "wg_at Open (state + 1) g c (pc(t := WgSleep))"
proof -
  have "wg_counter state \<noteq> 0" using wg_at_pc [OF at, of t] t by simp
  then have "sint (wg_counter state) \<noteq> 0" by (simp add: signed_eq_0_iff)
  then have ph: "ph = Open" using wg_at_counter [OF at a small] wg_at_owners [OF at] by force
  moreover have "wg_sleepers (pc(t := WgSleep)) = wg_sleepers pc + 1"
    using a t by (simp add: wg_num_sleep)
  moreover have "num wg_owns (pc(t := WgSleep)) = num wg_owns pc"
    using a t by (simp add: wg_num_owns)
  ultimately show ?thesis using at wg_pack_inc [of "c + num wg_owns pc" "wg_sleepers pc"] by auto
qed

lemma wg_at_acquire:
  assumes at: "wg_at ph state g c pc" and a: "active WgIdle pc" and t: "pc t = WgSleep" and g: "g \<noteq> 0"
  shows "wg_at ph state (g - 1) c (pc(t := WgVerify))"
proof -
  have s: "wg_sleepers (pc(t := WgVerify)) = wg_sleepers pc - 1" using a t by (simp add: wg_num_sleep)
  have u: "uint (g - 1) = uint g - 1" using g by (rule uint_pred)
  show ?thesis
  proof (cases ph)
    case (Waking v)
    then have "v \<noteq> t" using at t by auto
    then show ?thesis using at Waking s u by auto
  qed (use at g s u in auto)
qed

lemma wg_at_verify:
  assumes at: "wg_at ph state g c pc" and a: "active WgIdle pc" and t: "pc t = WgVerify"
  shows "state = 0" and "wg_at ph state g c (pc(t := WgOut))"
proof -
  have s: "wg_sleepers (pc(t := WgOut)) = wg_sleepers pc" using a t by (simp add: wg_num_sleep)
  have "ph = Closed \<or> (\<exists>v. ph = Waking v \<and> v \<noteq> t)" using wg_at_pc [OF at, of t] t by simp
  then show "state = 0" and "wg_at ph state g c (pc(t := WgOut))" using at s by auto
qed

subsection \<open>Steps\<close>

declare wg_at.simps [simp del]

lemma wg_inv_active: "wg_inv w \<Longrightarrow> active WgIdle (wg_pc w)"
  by (simp add: wg_inv_def)

lemma wg_inv_peak: "wg_inv w \<Longrightarrow> wg_count w \<le> wg_peak w"
  by (simp add: wg_inv_def)

lemma wg_inv_phase:
  "wg_inv w \<Longrightarrow> wg_peak w < 2 ^ 31 \<Longrightarrow> \<exists>ph. wg_at ph (wg_state w) (wg_sema w) (wg_tokens w) (wg_pc w)"
  by (simp add: wg_inv_def)

lemma wg_inv_move:
  assumes inv: "wg_inv w" and p: "wg_pc w t \<noteq> WgIdle" "\<not> wg_owns (wg_pc w t)" "q \<noteq> WgIdle" "\<not> wg_owns q"
    and at: "\<And>ph. wg_count w < 2 ^ 31 \<Longrightarrow> wg_at ph (wg_state w) (wg_sema w) (wg_tokens w) (wg_pc w) \<Longrightarrow>
      \<exists>ph'. wg_at ph' st g (wg_tokens w) ((wg_pc w)(t := q))"
  shows "wg_inv (w\<lparr>wg_state := st, wg_sema := g, wg_pc := (wg_pc w)(t := q)\<rparr>)"
proof -
  note a = wg_inv_active [OF inv]
  have "num wg_owns ((wg_pc w)(t := q)) = num wg_owns (wg_pc w)" using p by (simp add: wg_num_owns [OF a])
  moreover have "num (\<lambda>p. p \<noteq> WgIdle) ((wg_pc w)(t := q)) = num (\<lambda>p. p \<noteq> WgIdle) (wg_pc w)"
    using p by (simp add: wg_num_busy [OF a])
  moreover have "\<exists>ph. wg_at ph st g (wg_tokens w) ((wg_pc w)(t := q))" if "wg_peak w < 2 ^ 31"
    using wg_inv_phase [OF inv that] wg_inv_peak [OF inv] that at by force
  ultimately show ?thesis using inv p(1) by (simp add: wg_inv_def wg_count_def active_move)
qed

lemma wg_inv_call:
  assumes inv: "wg_inv w" and p: "wg_pc w t = WgIdle" "t < max_goroutines" "q \<noteq> WgIdle" "own = of_bool (wg_owns q)"
    and at: "\<And>ph. wg_at ph (wg_state w) (wg_sema w) (wg_tokens w) (wg_pc w) \<Longrightarrow>
      \<exists>ph'. wg_at ph' (wg_state w) (wg_sema w) (wg_tokens w - own) ((wg_pc w)(t := q))"
  shows "wg_inv (wg_call t q own w)"
proof -
  note a = wg_inv_active [OF inv]
  have "num wg_owns ((wg_pc w)(t := q)) = num wg_owns (wg_pc w) + own" using p by (simp add: wg_num_owns [OF a])
  moreover have "num (\<lambda>p. p \<noteq> WgIdle) ((wg_pc w)(t := q)) = num (\<lambda>p. p \<noteq> WgIdle) (wg_pc w) + 1"
    using p by (simp add: wg_num_busy [OF a])
  moreover have "\<exists>ph. wg_at ph (wg_state w) (wg_sema w) (wg_tokens w - own) ((wg_pc w)(t := q))" if "wg_peak w < 2 ^ 31"
    using wg_inv_phase [OF inv that] at by force
  ultimately show ?thesis using inv p(2) by (simp add: wg_inv_def wg_count_def active_call)
qed

lemma wg_inv_Calls:
  assumes inv: "wg_inv w" and p: "wg_pc w t = WgIdle" "t < max_goroutines"
  shows "0 <s d \<Longrightarrow> wg_tokens w = 0 \<Longrightarrow> wg_busy w = 0 \<Longrightarrow> wg_inv (wg_call t (WgAdd d False) 0 w)"
    and "0 < wg_tokens w \<Longrightarrow> d = - 1 \<or> 0 <s d \<Longrightarrow> wg_inv (wg_call t (WgAdd d True) 1 w)"
    and "wg_inv (wg_call t WgLoad 0 w)"
proof -
  note a = wg_inv_active [OF inv]
  show "wg_inv (wg_call t (WgAdd d False) 0 w)" if d: "0 <s d" "wg_tokens w = 0" "wg_busy w = 0"
  proof (rule wg_inv_call [OF inv p])
    have "num (\<lambda>p. p \<noteq> WgIdle) (wg_pc w) = 0" using inv d by (simp add: wg_inv_def)
    then have idle: "wg_pc w u = WgIdle" for u
      using num_zeroD [where idle = WgIdle and P = "\<lambda>p. p \<noteq> WgIdle"] a by blast
    show "\<exists>ph'. wg_at ph' (wg_state w) (wg_sema w) (wg_tokens w - 0) ((wg_pc w)(t := WgAdd d False))"
      if "wg_at ph (wg_state w) (wg_sema w) (wg_tokens w) (wg_pc w)" for ph
    proof (intro exI)
      show "wg_at (Starting t) (wg_state w) (wg_sema w) (wg_tokens w - 0) ((wg_pc w)(t := WgAdd d False))"
        using wg_at_call_first [of ph "wg_state w" "wg_sema w" "wg_pc w" d t] that idle d by simp
    qed
  qed simp_all
  show "wg_inv (wg_call t (WgAdd d True) 1 w)" if "0 < wg_tokens w" "d = - 1 \<or> 0 <s d"
    using that p(1) by (intro wg_inv_call [OF inv p]) (auto dest: wg_at_call_add [OF _ a])
  show "wg_inv (wg_call t WgLoad 0 w)"
  proof (rule wg_inv_call [OF inv p])
    show "\<exists>ph'. wg_at ph' (wg_state w) (wg_sema w) (wg_tokens w - 0) ((wg_pc w)(t := WgLoad))"
      if "wg_at ph (wg_state w) (wg_sema w) (wg_tokens w) (wg_pc w)" for ph
      using wg_at_calm [OF that a, of t WgLoad] p(1) by auto
  qed simp_all
qed

lemma wg_inv_Return:
  assumes inv: "wg_inv w" and t: "wg_pc w t = WgOut"
  shows "wg_inv (w\<lparr>wg_pc := (wg_pc w)(t := WgIdle), wg_busy := wg_busy w - Suc 0\<rparr>)"
proof -
  note a = wg_inv_active [OF inv]
  have "0 < num (\<lambda>p. p \<noteq> WgIdle) (wg_pc w)"
    using num_pos [where P = "\<lambda>p. p \<noteq> WgIdle" and t = t, OF a] t by simp
  moreover have "num wg_owns ((wg_pc w)(t := WgIdle)) = num wg_owns (wg_pc w)" using t by (simp add: wg_num_owns [OF a])
  moreover have "num (\<lambda>p. p \<noteq> WgIdle) ((wg_pc w)(t := WgIdle)) = num (\<lambda>p. p \<noteq> WgIdle) (wg_pc w) - 1"
    using t by (simp add: wg_num_busy [OF a])
  moreover have "\<exists>ph. wg_at ph (wg_state w) (wg_sema w) (wg_tokens w) ((wg_pc w)(t := WgIdle))" if "wg_peak w < 2 ^ 31"
    using wg_inv_phase [OF inv that] wg_at_calm [OF _ a, of _ _ _ _ t WgIdle] t by (metis wg_calm_simps(1,3))
  ultimately show ?thesis using inv t by (simp add: wg_inv_def wg_count_def active_move of_nat_diff)
qed

text \<open>\<^verbatim>\<open>state.Add\<close>.\<close>

lemma wg_inv_Add:
  fixes w t d own
  defines "st \<equiv> wg_state w + push_bit 32 d"
  assumes inv: "wg_inv w" and t: "wg_pc w t = WgAdd d own"
    and q: "q = (if wg_counter st <s 0 then WgPanic NegativeCounter
      else if wg_waiters st \<noteq> 0 \<and> 0 <s d \<and> wg_counter st = ucast d then WgPanic AddRacesWait
      else if 0 <s wg_counter st \<or> wg_waiters st = 0 then WgOut else WgCheck st (wg_waiters st))"
  shows "wg_inv (w\<lparr>wg_state := st, wg_tokens := wg_tokens w + of_bool own + sint d,
    wg_peak := max (wg_peak w) (wg_count w + sint d), wg_pc := (wg_pc w)(t := q)\<rparr>)"
proof -
  note a = wg_inv_active [OF inv]
  have nq: "q \<noteq> WgIdle" "\<not> wg_owns q" unfolding q by simp_all
  have "num wg_owns ((wg_pc w)(t := q)) = num wg_owns (wg_pc w) - of_bool own" using nq t by (simp add: wg_num_owns [OF a])
  moreover have "num (\<lambda>p. p \<noteq> WgIdle) ((wg_pc w)(t := q)) = num (\<lambda>p. p \<noteq> WgIdle) (wg_pc w)"
    using nq t by (simp add: wg_num_busy [OF a])
  moreover have "\<exists>ph. wg_at ph st (wg_sema w) (wg_tokens w + of_bool own + sint d) ((wg_pc w)(t := q))"
    if peak: "wg_peak w < 2 ^ 31" and new: "wg_count w + sint d < 2 ^ 31"
  proof -
    obtain ph where at: "wg_at ph (wg_state w) (wg_sema w) (wg_tokens w) (wg_pc w)" using wg_inv_phase [OF inv peak] by blast
    let ?n = "wg_tokens w + num wg_owns (wg_pc w) + sint d"
    have small: "?n < 2 ^ 31" using new by (simp add: wg_count_def)
    note add = wg_add_count [OF at a t small, folded st_def] and race = wg_add_no_race [OF at a t small, folded st_def]
      and op = wg_add_open [OF at a t small, folded st_def] and cl = wg_add_closed [OF at a t small, folded st_def]
      and cg = wg_add_closing [OF at a t small, folded st_def]
    have n: "\<not> wg_counter st <s 0" "0 <s wg_counter st \<longleftrightarrow> 0 < ?n" using add by (simp_all add: word_sless_alt)
    have "q = (if 0 < ?n \<or> wg_waiters st = 0 then WgOut else WgCheck st (wg_waiters st))"
      using race n unfolding q by auto
    then show ?thesis using op cl cg add(2) by (cases "0 < ?n"; cases "wg_waiters st = 0") (auto simp: not_less)
  qed
  ultimately show ?thesis using inv t by (simp add: wg_inv_def wg_count_def active_move)
qed

text \<open>The other steps.\<close>

lemma wg_inv_Check:
  assumes inv: "wg_inv w" and t: "wg_pc w t = WgCheck x k" and q: "q = (if wg_state w \<noteq> x then WgPanic AddRacesWait else WgReset k)"
  shows "wg_inv (w\<lparr>wg_pc := (wg_pc w)(t := q)\<rparr>)"
proof -
  have "wg_inv (w\<lparr>wg_state := wg_state w, wg_sema := wg_sema w, wg_pc := (wg_pc w)(t := q)\<rparr>)"
  proof (rule wg_inv_move [OF inv])
    show "\<exists>ph'. wg_at ph' (wg_state w) (wg_sema w) (wg_tokens w) ((wg_pc w)(t := q))"
      if "wg_at ph (wg_state w) (wg_sema w) (wg_tokens w) (wg_pc w)" for ph
      using wg_at_check [OF that wg_inv_active [OF inv] t] q by auto
  qed (simp_all add: t q)
  then show ?thesis by simp
qed

lemma wg_inv_Reset:
  assumes inv: "wg_inv w" and t: "wg_pc w t = WgReset k"
  shows "wg_inv (w\<lparr>wg_state := 0, wg_pc := (wg_pc w)(t := WgWake k)\<rparr>)"
proof -
  have "wg_inv (w\<lparr>wg_state := 0, wg_sema := wg_sema w, wg_pc := (wg_pc w)(t := WgWake k)\<rparr>)"
  proof (rule wg_inv_move [OF inv])
    show "\<exists>ph'. wg_at ph' 0 (wg_sema w) (wg_tokens w) ((wg_pc w)(t := WgWake k))"
      if "wg_at ph (wg_state w) (wg_sema w) (wg_tokens w) (wg_pc w)" for ph
      using wg_at_reset [OF that wg_inv_active [OF inv] t] by auto
  qed (simp_all add: t)
  then show ?thesis by simp
qed

lemma wg_inv_Wake:
  assumes inv: "wg_inv w" and t: "wg_pc w t = WgWake k"
  shows "k = 0 \<Longrightarrow> wg_inv (w\<lparr>wg_pc := (wg_pc w)(t := WgOut)\<rparr>)"
    and "k \<noteq> 0 \<Longrightarrow> wg_inv (w\<lparr>wg_sema := wg_sema w + 1, wg_pc := (wg_pc w)(t := WgWake (k - 1))\<rparr>)"
proof -
  note a = wg_inv_active [OF inv]
  show "wg_inv (w\<lparr>wg_pc := (wg_pc w)(t := WgOut)\<rparr>)" if "k = 0"
    using that t wg_inv_move [OF inv, of t WgOut "wg_state w" "wg_sema w"] wg_at_woken [OF _ a, of _ _ _ _ t]
    by (simp, blast)
  show "wg_inv (w\<lparr>wg_sema := wg_sema w + 1, wg_pc := (wg_pc w)(t := WgWake (k - 1))\<rparr>)" if "k \<noteq> 0"
    using that t wg_inv_move [OF inv, of t "WgWake (k - 1)" "wg_state w" "wg_sema w + 1"] wg_at_wake [OF _ a t that]
    by (simp, blast)
qed

lemma wg_inv_Load:
  assumes inv: "wg_inv w" and t: "wg_pc w t = WgLoad"
    and q: "q = WgOut \<or> q = WgLoad \<or> (\<exists>x. q = WgCas x \<and> wg_counter x \<noteq> 0)"
  shows "wg_inv (w\<lparr>wg_pc := (wg_pc w)(t := q)\<rparr>)"
proof -
  have "wg_inv (w\<lparr>wg_state := wg_state w, wg_sema := wg_sema w, wg_pc := (wg_pc w)(t := q)\<rparr>)"
  proof (rule wg_inv_move [OF inv])
    show "\<exists>ph'. wg_at ph' (wg_state w) (wg_sema w) (wg_tokens w) ((wg_pc w)(t := q))"
      if "wg_at ph (wg_state w) (wg_sema w) (wg_tokens w) (wg_pc w)" for ph
      using wg_at_calm [OF that wg_inv_active [OF inv], of t q] t q by auto
  qed (use t q in auto)
  then show ?thesis by simp
qed

lemma wg_inv_Cas:
  assumes inv: "wg_inv w" and t: "wg_pc w t = WgCas x"
  shows "wg_state w = x \<Longrightarrow> wg_inv (w\<lparr>wg_state := x + 1, wg_pc := (wg_pc w)(t := WgSleep)\<rparr>)"
    and "wg_inv (w\<lparr>wg_pc := (wg_pc w)(t := WgLoad)\<rparr>)"
proof -
  note a = wg_inv_active [OF inv]
  show "wg_inv (w\<lparr>wg_state := x + 1, wg_pc := (wg_pc w)(t := WgSleep)\<rparr>)" if "wg_state w = x"
  proof -
    have "wg_inv (w\<lparr>wg_state := x + 1, wg_sema := wg_sema w, wg_pc := (wg_pc w)(t := WgSleep)\<rparr>)"
    proof (rule wg_inv_move [OF inv])
      show "\<exists>ph'. wg_at ph' (x + 1) (wg_sema w) (wg_tokens w) ((wg_pc w)(t := WgSleep))"
        if "wg_count w < 2 ^ 31" "wg_at ph (wg_state w) (wg_sema w) (wg_tokens w) (wg_pc w)" for ph
        using wg_at_cas [OF that(2) a, of t] that(1) t \<open>wg_state w = x\<close> by (auto simp: wg_count_def)
    qed (simp_all add: t)
    then show ?thesis by simp
  qed
  have "wg_inv (w\<lparr>wg_state := wg_state w, wg_sema := wg_sema w, wg_pc := (wg_pc w)(t := WgLoad)\<rparr>)"
  proof (rule wg_inv_move [OF inv])
    show "\<exists>ph'. wg_at ph' (wg_state w) (wg_sema w) (wg_tokens w) ((wg_pc w)(t := WgLoad))"
      if "wg_at ph (wg_state w) (wg_sema w) (wg_tokens w) (wg_pc w)" for ph
      using wg_at_calm [OF that a, of t WgLoad] wg_at_pc [OF that, of t] t by auto
  qed (simp_all add: t)
  then show "wg_inv (w\<lparr>wg_pc := (wg_pc w)(t := WgLoad)\<rparr>)" by simp
qed

lemma wg_inv_Sleep:
  assumes inv: "wg_inv w" and t: "wg_pc w t = WgSleep" and g: "wg_sema w \<noteq> 0"
  shows "wg_inv (w\<lparr>wg_sema := wg_sema w - 1, wg_pc := (wg_pc w)(t := WgVerify)\<rparr>)"
  using t g wg_inv_move [OF inv, of t WgVerify "wg_state w" "wg_sema w - 1"]
    wg_at_acquire [OF _ wg_inv_active [OF inv], of _ _ _ _ t] by (simp, blast)

lemma wg_inv_Verify:
  assumes inv: "wg_inv w" and t: "wg_pc w t = WgVerify" and q: "q = (if wg_state w \<noteq> 0 then WgPanic ReusedEarly else WgOut)"
  shows "wg_inv (w\<lparr>wg_pc := (wg_pc w)(t := q)\<rparr>)"
proof -
  have "wg_inv (w\<lparr>wg_state := wg_state w, wg_sema := wg_sema w, wg_pc := (wg_pc w)(t := q)\<rparr>)"
  proof (rule wg_inv_move [OF inv])
    show "\<exists>ph'. wg_at ph' (wg_state w) (wg_sema w) (wg_tokens w) ((wg_pc w)(t := q))"
      if "wg_at ph (wg_state w) (wg_sema w) (wg_tokens w) (wg_pc w)" for ph
      using wg_at_verify [OF that wg_inv_active [OF inv] t] q by auto
  qed (simp_all add: t q)
  then show ?thesis by simp
qed

lemma wg_inv_step:
  assumes inv: "wg_inv w" and st: "WaitGroup_step a w = Some w'"
  shows "wg_inv w'"
proof (cases a)
  case (WgStep t)
  show ?thesis
  proof (cases "wg_pc w t")
    case (WgAdd d own)
    then show ?thesis using st WgStep wg_inv_Add [OF inv WgAdd refl]
      by (simp add: WaitGroup_Add_step_def Let_def split: if_splits)
  next
    case (WgCheck x k)
    then show ?thesis using st WgStep wg_inv_Check [OF inv WgCheck refl]
      by (auto simp: WaitGroup_Add_step_def split: if_splits)
  next
    case (WgReset k)
    then show ?thesis using st WgStep wg_inv_Reset [OF inv WgReset] by (simp add: WaitGroup_Add_step_def)
  next
    case (WgWake k)
    then show ?thesis using st WgStep wg_inv_Wake [OF inv WgWake]
      by (auto simp: WaitGroup_Add_step_def runtime_Semrelease_def split: if_splits)
  next
    case WgLoad
    then show ?thesis using st WgStep wg_inv_Load [OF inv WgLoad]
      by (auto simp: WaitGroup_Add_step_def WaitGroup_Wait_step_def split: if_splits)
  next
    case (WgCas x)
    then show ?thesis using st WgStep wg_inv_Cas [OF inv WgCas]
      by (auto simp: WaitGroup_Add_step_def WaitGroup_Wait_step_def split: if_splits)
  next
    case WgSleep
    then show ?thesis using st WgStep wg_inv_Sleep [OF inv WgSleep]
      by (auto simp: WaitGroup_Add_step_def WaitGroup_Wait_step_def runtime_Semacquire_def split: if_splits)
  next
    case WgVerify
    then show ?thesis using st WgStep wg_inv_Verify [OF inv WgVerify refl]
      by (auto simp: WaitGroup_Add_step_def WaitGroup_Wait_step_def split: if_splits)
  qed (use st WgStep in \<open>simp_all add: WaitGroup_Add_step_def WaitGroup_Wait_step_def\<close>)
next
  case (WgReturn t)
  then show ?thesis using st wg_inv_Return [OF inv] by (auto split: if_splits)
qed (use st wg_inv_Calls [OF inv] in \<open>force split: if_splits\<close>)+

section \<open>The theorem\<close>

interpretation wait_group: machine "\<lambda>w. w = WaitGroup_zero" WaitGroup_step wg_inv
proof
  show "wg_inv w" if "w = WaitGroup_zero" for w
  proof -
    have "wg_at Closed 0 0 0 (\<lambda>_. WgIdle)" by (simp add: wg_at.simps)
    then show ?thesis unfolding that wg_inv_def WaitGroup_zero_def wg_count_def by auto
  qed
  show "wg_inv w'" if "wg_inv w" and "WaitGroup_step a w = Some w'" for w a w'
    using wg_inv_step that .
qed

definition wg_closes :: "wg_pc \<Rightarrow> bool" where
  "wg_closes p \<longleftrightarrow> (\<exists>x k. p = WgCheck x k \<or> p = WgReset k \<or> p = WgWake k)"

lemma wg_sleeper_served:
  assumes at: "wg_at ph (wg_state w) (wg_sema w) (wg_tokens w) (wg_pc w)" and a: "active WgIdle (wg_pc w)"
    and t: "wg_pc w t = WgSleep" and z: "wg_count w = 0"
  shows "(\<exists>u. wg_closes (wg_pc w u)) \<or> WaitGroup_step (WgStep t) w \<noteq> None"
proof (cases ph)
  case Open
  then show ?thesis using at z by (simp add: wg_at.simps wg_count_def)
next
  case Closed
  have "0 < wg_sleepers (wg_pc w)" using num_pos [where P = "\<lambda>p. p = WgSleep" and t = t, OF a] t by simp
  then have "wg_sema w \<noteq> 0" using at Closed by (auto simp: wg_at.simps)
  then show ?thesis
    using t by (simp add: WaitGroup_Add_step_def WaitGroup_Wait_step_def runtime_Semacquire_def)
next
  case (Starting u)
  then show ?thesis using at t by (cases "u = t") (auto simp: wg_at.simps)
next
  case (Closing u)
  then show ?thesis using at by (auto simp: wg_at.simps wg_closes_def)
next
  case (Waking u)
  then show ?thesis using at by (auto simp: wg_at.simps wg_closes_def)
qed


lemma push_bit_minus: "push_bit 32 (- 1 :: i64) = - 4294967296"
  by (simp add: push_bit_eq_mult del: push_bit_minus_one_eq_not_mask)


end
