(* ===== verification/Ordered_Map.thy ===== *)
theory Ordered_Map
  imports Doubly_Linked
begin

text \<open>
  \<^verbatim>\<open>orderedMap\<close> of \<^verbatim>\<open>syncx/future.go\<close>: the queue of a worker pool, a doubly linked list of
  nodes between two sentinels and a map from the signatures of the queued tasks to their nodes. The
  nodes live in a store; a dereference of nil is the result \<open>None\<close> of an operation. Every operation
  holds \<^verbatim>\<open>mu\<close> throughout, except that \<^verbatim>\<open>pollWait\<close> may release it to wait for
  \<^verbatim>\<open>notEmpty\<close>. What a \<^verbatim>\<open>runnable\<close> is does not matter here but for its signature.
\<close>

section \<open>The code\<close>

record 'r orderedMap =
  om_head :: nat
  om_tail :: nat
  om_size :: int
  om_taskMap :: "string \<rightharpoonup> nat"
  om_closed :: bool
  on_next :: "nat \<Rightarrow> nat option"
  on_prev :: "nat \<Rightarrow> nat option"
  on_t :: "nat \<Rightarrow> 'r option"
  om_fresh :: nat

definition newOrderedMap :: "'r orderedMap" where
  "newOrderedMap = \<lparr>om_head = 0, om_tail = 1, om_size = 0, om_taskMap = Map.empty, om_closed = False,
     on_next = (\<lambda>_. None)(0 := Some 1), on_prev = (\<lambda>_. None)(1 := Some 0), on_t = (\<lambda>_. None), om_fresh = 2\<rparr>"

definition om_put :: "('r \<Rightarrow> string) \<Rightarrow> 'r \<Rightarrow> 'r orderedMap \<Rightarrow> 'r orderedMap option" where
  "om_put Signature t o1 =
     (let n = om_fresh o1;
          o2 = o1\<lparr>on_t := (on_t o1)(n := Some t), on_next := (on_next o1)(n := None),
                  on_prev := (on_prev o1)(n := None), om_fresh := Suc n\<rparr>;
          o3 = o2\<lparr>om_taskMap := (om_taskMap o2)(Signature t \<mapsto> n)\<rparr>
      in case on_prev o3 (om_tail o3) of
           None \<Rightarrow> None
         | Some p \<Rightarrow>
             let o4 = o3\<lparr>on_next := (on_next o3)(p := Some n)\<rparr>;
                 o5 = o4\<lparr>on_prev := (on_prev o4)(n := on_prev o4 (om_tail o4))\<rparr>;
                 o6 = o5\<lparr>on_prev := (on_prev o5)(om_tail o5 := Some n)\<rparr>;
                 o7 = o6\<lparr>on_next := (on_next o6)(n := Some (om_tail o6))\<rparr>
             in Some (o7\<lparr>om_size := om_size o7 + 1\<rparr>))"

text \<open>What one round of the loop of \<^verbatim>\<open>pollWait\<close> and the code after it do.\<close>

datatype 'r polled = MustWait | Drained | Task 'r

definition om_pollWait :: "('r \<Rightarrow> string) \<Rightarrow> 'r orderedMap \<Rightarrow> ('r orderedMap \<times> 'r polled) option" where
  "om_pollWait Signature o1 =
     (if om_size o1 = 0 \<and> \<not> om_closed o1 then Some (o1, MustWait)
      else case on_next o1 (om_head o1) of
        None \<Rightarrow> None
      | Some n \<Rightarrow>
          if n = om_tail o1 then Some (o1, Drained)
          else
            let o2 = o1\<lparr>on_next := (on_next o1)(om_head o1 := on_next o1 n)\<rparr>
            in case on_next o2 (om_head o2) of
                 None \<Rightarrow> None
               | Some q \<Rightarrow>
                   let o3 = o2\<lparr>on_prev := (on_prev o2)(q := Some (om_head o2))\<rparr>
                   in case on_t o3 n of
                        None \<Rightarrow> None
                      | Some t \<Rightarrow>
                          Some (o3\<lparr>om_taskMap := (om_taskMap o3)(Signature t := None), om_size := om_size o3 - 1\<rparr>, Task t))"

definition om_close :: "'r orderedMap \<Rightarrow> 'r orderedMap" where
  "om_close o1 = o1\<lparr>om_closed := True\<rparr>"

definition om_delete :: "string \<Rightarrow> 'r orderedMap \<Rightarrow> 'r orderedMap option" where
  "om_delete key o1 =
     (case om_taskMap o1 key of
        None \<Rightarrow> Some o1
      | Some n \<Rightarrow>
          let o2 = o1\<lparr>om_taskMap := (om_taskMap o1)(key := None)\<rparr>
          in case on_prev o2 n of
               None \<Rightarrow> None
             | Some p \<Rightarrow>
                 let o3 = o2\<lparr>on_next := (on_next o2)(p := on_next o2 n)\<rparr>
                 in case on_next o3 n of
                      None \<Rightarrow> None
                    | Some q \<Rightarrow>
                        let o4 = o3\<lparr>on_prev := (on_prev o3)(q := on_prev o3 n)\<rparr>
                        in Some (o4\<lparr>om_size := om_size o4 - 1\<rparr>))"

section \<open>The abstract queue\<close>

datatype 'r om_op = OmPut 'r | OmPoll | OmClose | OmDelete string

fun om_impl :: "('r \<Rightarrow> string) \<Rightarrow> 'r om_op \<Rightarrow> 'r orderedMap \<Rightarrow> ('r orderedMap \<times> 'r polled) option" where
  "om_impl Signature (OmPut t) o1 = map_option (\<lambda>o2. (o2, MustWait)) (om_put Signature t o1)"
| "om_impl Signature OmPoll o1 = om_pollWait Signature o1"
| "om_impl Signature OmClose o1 = Some (om_close o1, MustWait)"
| "om_impl Signature (OmDelete key) o1 = map_option (\<lambda>o2. (o2, MustWait)) (om_delete key o1)"

text \<open>The tasks in the order they were put, and whether the queue is closed. A task is put with a
  signature no queued task has.\<close>

fun spec_om :: "('r \<Rightarrow> string) \<Rightarrow> 'r om_op \<Rightarrow> 'r list \<times> bool \<Rightarrow> (('r list \<times> bool) \<times> 'r polled) option" where
  "spec_om Signature (OmPut t) (xs, c) =
     (if Signature t \<in> Signature ` set xs then None else Some ((xs @ [t], c), MustWait))"
| "spec_om Signature OmPoll (xs, c) =
     Some (case xs of [] \<Rightarrow> (([], c), if c then Drained else MustWait) | t # ts \<Rightarrow> ((ts, c), Task t))"
| "spec_om Signature OmClose (xs, c) = Some ((xs, True), MustWait)"
| "spec_om Signature (OmDelete key) (xs, c) = Some ((filter (\<lambda>t. Signature t \<noteq> key) xs, c), MustWait)"

section \<open>The representation\<close>

text \<open>The nodes \<open>ns\<close> are the list; every map entry leads to a listed node with that signature. Where
  the signatures of the queued tasks differ, every node has its entry.\<close>

definition om_list :: "'r orderedMap \<Rightarrow> nat list \<Rightarrow> bool" where
  "om_list o1 ns \<longleftrightarrow> linked (on_next o1) (on_prev o1) (om_head o1) ns (om_tail o1)
     \<and> distinct (om_head o1 # ns @ [om_tail o1]) \<and> (\<forall>x \<in> set (om_head o1 # ns @ [om_tail o1]). x < om_fresh o1)"

definition om_rep :: "('r \<Rightarrow> string) \<Rightarrow> 'r orderedMap \<Rightarrow> nat list \<Rightarrow> bool" where
  "om_rep Signature o1 ns \<longleftrightarrow> om_list o1 ns \<and> om_size o1 = int (length ns) \<and> (\<forall>n \<in> set ns. on_t o1 n \<noteq> None)
     \<and> (\<forall>k n. om_taskMap o1 k = Some n \<longrightarrow> n \<in> set ns \<and> Signature (the (on_t o1 n)) = k)"

definition om_indexed :: "('r \<Rightarrow> string) \<Rightarrow> 'r orderedMap \<Rightarrow> nat list \<Rightarrow> bool" where
  "om_indexed Signature o1 ns \<longleftrightarrow> (\<forall>n \<in> set ns. om_taskMap o1 (Signature (the (on_t o1 n))) = Some n)"

definition om_tasks :: "'r orderedMap \<Rightarrow> nat list \<Rightarrow> 'r list" where
  "om_tasks o1 ns = map (\<lambda>n. the (on_t o1 n)) ns"

definition om_items :: "'r orderedMap \<Rightarrow> 'r list" where
  "om_items o1 = om_tasks o1 (nodes_from (om_fresh o1) (on_next o1) (om_head o1) (om_tail o1))"

lemma om_items_list: "om_list o1 ns \<Longrightarrow> om_items o1 = om_tasks o1 ns"
  unfolding om_list_def om_items_def using nodes_from_all by metis

lemma om_rep_parts:
  assumes "om_rep Signature o1 ns"
  shows om_rep_list: "om_list o1 ns" and om_rep_size: "om_size o1 = int (length ns)"
    and om_rep_task: "n \<in> set ns \<Longrightarrow> on_t o1 n \<noteq> None"
    and om_rep_entry: "om_taskMap o1 k = Some n \<Longrightarrow> n \<in> set ns \<and> Signature (the (on_t o1 n)) = k"
  using assms unfolding om_rep_def by blast+

lemma om_rep_new: "om_rep Signature newOrderedMap []"
  by (simp add: om_rep_def om_list_def newOrderedMap_def)

section \<open>The operations\<close>

lemma om_put_ok:
  assumes rep: "om_rep Signature o1 ns"
  shows "\<exists>o2. om_put Signature t o1 = Some o2 \<and> om_rep Signature o2 (ns @ [om_fresh o1])
    \<and> om_tasks o2 (ns @ [om_fresh o1]) = om_tasks o1 ns @ [t] \<and> om_closed o2 = om_closed o1
    \<and> (om_indexed Signature o1 ns \<longrightarrow> Signature t \<notin> Signature ` set (om_tasks o1 ns) \<longrightarrow>
         om_indexed Signature o2 (ns @ [om_fresh o1]))"
proof -
  let ?h = "om_head o1" and ?b = "om_tail o1" and ?n = "om_fresh o1"
  have lk: "linked (on_next o1) (on_prev o1) ?h ns ?b" and d: "distinct (?h # ns @ [?b])"
    and less: "\<forall>x \<in> set (?h # ns @ [?b]). x < ?n" using om_rep_list [OF rep] by (auto simp: om_list_def)
  have new: "?n \<notin> set (?h # ns @ [?b])" using less by blast
  let ?p = "last (?h # ns)"
  have pb: "on_prev o1 ?b = Some ?p" using linked_ends [OF lk] by blast
  have "?p \<in> set (?h # ns)" by (rule last_in_set) simp
  then have pn: "?p \<noteq> ?n" "?p \<noteq> ?b" using new d by auto
  let ?nx = "(on_next o1)(?n := None, ?p := Some ?n, ?n := Some ?b)"
    and ?pv = "(on_prev o1)(?n := None, ?n := Some ?p, ?b := Some ?n)"
  let ?o2 = "o1\<lparr>om_size := om_size o1 + 1, om_taskMap := (om_taskMap o1)(Signature t \<mapsto> ?n), on_next := ?nx, on_prev := ?pv,
     on_t := (on_t o1)(?n := Some t), om_fresh := Suc ?n\<rparr>"
  have put: "om_put Signature t o1 = Some ?o2"
    using pb new pn unfolding om_put_def by (simp add: Let_def)
  have "linked ?nx ?pv ?h (ns @ [?n]) ?b"
    by (rule linked_extend [OF lk d new]) (use new pn in auto)
  moreover have "distinct (?h # (ns @ [?n]) @ [?b])" using d new by auto
  moreover have "\<forall>x \<in> set (?h # (ns @ [?n]) @ [?b]). x < Suc ?n" using less by auto
  ultimately have "om_list ?o2 (ns @ [?n])" by (simp add: om_list_def)
  then have "om_rep Signature ?o2 (ns @ [?n])"
    using rep new unfolding om_rep_def by (auto split: if_splits)
  moreover have tasks: "om_tasks ?o2 (ns @ [?n]) = om_tasks o1 ns @ [t]"
    using new by (auto simp: om_tasks_def)
  moreover have "om_indexed Signature ?o2 (ns @ [?n])"
    if "om_indexed Signature o1 ns" "Signature t \<notin> Signature ` set (om_tasks o1 ns)"
  proof -
    have "Signature (the (on_t o1 m)) \<noteq> Signature t" if "m \<in> set ns" for m
      using that \<open>Signature t \<notin> Signature ` set (om_tasks o1 ns)\<close> unfolding om_tasks_def by (metis image_eqI list.set_map)
    then show ?thesis using that(1) new by (auto simp: om_indexed_def)
  qed
  ultimately show ?thesis using put by (intro exI [of _ ?o2]) simp
qed

text \<open>Unlinking a node, by \<^verbatim>\<open>pollWait\<close> or by \<^verbatim>\<open>delete\<close>, and forgetting its signature.\<close>

lemma om_unlink:
  assumes rep: "om_rep Signature o1 (xs @ n # ys)" and k: "om_taskMap o1 k = Some n \<or> Signature (the (on_t o1 n)) = k"
    and nx: "\<And>x. x \<noteq> n \<Longrightarrow> nx x = (if x = last (om_head o1 # xs) then Some (hd (ys @ [om_tail o1])) else on_next o1 x)"
    and pv: "\<And>x. x \<noteq> n \<Longrightarrow> pv x = (if x = hd (ys @ [om_tail o1]) then Some (last (om_head o1 # xs)) else on_prev o1 x)"
    and o2: "o2 = o1\<lparr>om_size := om_size o1 - 1, om_taskMap := (om_taskMap o1)(k := None), on_next := nx, on_prev := pv\<rparr>"
  shows "om_rep Signature o2 (xs @ ys)" and "om_indexed Signature o1 (xs @ n # ys) \<Longrightarrow> om_indexed Signature o2 (xs @ ys)"
    and "om_tasks o2 (xs @ ys) = om_tasks o1 (xs @ ys)"
    and "om_indexed Signature o1 (xs @ n # ys) \<Longrightarrow>
      om_tasks o2 (xs @ ys) = filter (\<lambda>t. Signature t \<noteq> k) (om_tasks o1 (xs @ n # ys))"
proof -
  let ?h = "om_head o1" and ?b = "om_tail o1"
  have lk: "linked (on_next o1) (on_prev o1) ?h xs n" "linked (on_next o1) (on_prev o1) n ys ?b"
    and d: "distinct (?h # xs @ n # ys @ [?b])" and less: "\<forall>x \<in> set (?h # xs @ n # ys @ [?b]). x < om_fresh o1"
    using om_rep_list [OF rep] by (auto simp: om_list_def linked_append)
  have sig: "Signature (the (on_t o1 n)) = k" using k om_rep_entry [OF rep] by blast
  have "linked nx pv ?h (xs @ ys) ?b" by (rule linked_splice [OF lk d nx pv])
  then have "om_list o2 (xs @ ys)" using d less by (auto simp: om_list_def o2)
  moreover have "om_size o2 = int (length (xs @ ys))" using om_rep_size [OF rep] by (simp add: o2)
  moreover have "\<forall>m \<in> set (xs @ ys). on_t o2 m \<noteq> None" using om_rep_task [OF rep] by (auto simp: o2)
  moreover have "m \<in> set (xs @ ys) \<and> Signature (the (on_t o2 m)) = j" if "om_taskMap o2 j = Some m" for j m
    using om_rep_entry [OF rep, of j m] that sig by (auto simp: o2 split: if_splits)
  ultimately show "om_rep Signature o2 (xs @ ys)" unfolding om_rep_def by blast
  have other: "Signature (the (on_t o1 m)) \<noteq> k" if ix: "om_indexed Signature o1 (xs @ n # ys)" and "m \<in> set (xs @ ys)" for m
  proof
    assume e: "Signature (the (on_t o1 m)) = k"
    have "om_taskMap o1 k = Some m" "om_taskMap o1 k = Some n"
      using ix that(2) e sig unfolding om_indexed_def by auto
    then show False using d that(2) by auto
  qed
  show "om_indexed Signature o2 (xs @ ys)" if ix: "om_indexed Signature o1 (xs @ n # ys)"
    using other [OF ix] ix unfolding om_indexed_def by (auto simp: o2)
  show tasks: "om_tasks o2 (xs @ ys) = om_tasks o1 (xs @ ys)" by (simp add: om_tasks_def o2)
  show "om_tasks o2 (xs @ ys) = filter (\<lambda>t. Signature t \<noteq> k) (om_tasks o1 (xs @ n # ys))"
    if ix: "om_indexed Signature o1 (xs @ n # ys)"
    unfolding tasks using other [OF ix] sig by (auto simp: om_tasks_def filter_map comp_def filter_id_conv intro!: filter_True [symmetric])
qed

lemma om_poll_ok:
  assumes rep: "om_rep Signature o1 ns"
  shows "ns = [] \<Longrightarrow> om_pollWait Signature o1 = Some (o1, if om_closed o1 then Drained else MustWait)"
    and "ns = n # ms \<Longrightarrow> \<exists>o2. om_pollWait Signature o1 = Some (o2, Task (the (on_t o1 n))) \<and> om_rep Signature o2 ms
      \<and> om_tasks o2 ms = om_tasks o1 ms \<and> om_closed o2 = om_closed o1
      \<and> (om_indexed Signature o1 ns \<longrightarrow> om_indexed Signature o2 ms)"
proof -
  let ?h = "om_head o1" and ?b = "om_tail o1"
  have lk: "linked (on_next o1) (on_prev o1) ?h ns ?b" and d: "distinct (?h # ns @ [?b])"
    using om_rep_list [OF rep] by (auto simp: om_list_def)
  note size = om_rep_size [OF rep]
  show "om_pollWait Signature o1 = Some (o1, if om_closed o1 then Drained else MustWait)" if "ns = []"
    using that lk size by (simp add: om_pollWait_def)
  show "\<exists>o2. om_pollWait Signature o1 = Some (o2, Task (the (on_t o1 n))) \<and> om_rep Signature o2 ms
      \<and> om_tasks o2 ms = om_tasks o1 ms \<and> om_closed o2 = om_closed o1
      \<and> (om_indexed Signature o1 ns \<longrightarrow> om_indexed Signature o2 ms)" if ns: "ns = n # ms"
  proof -
    have hn: "on_next o1 ?h = Some n" and lm: "linked (on_next o1) (on_prev o1) n ms ?b" using lk ns by auto
    let ?q = "hd (ms @ [?b])"
    have nq: "on_next o1 n = Some ?q" using linked_ends [OF lm] by blast
    obtain t where t: "on_t o1 n = Some t" using om_rep_task [OF rep, of n] ns by auto
    have ne: "n \<noteq> ?h" "n \<noteq> ?b" using d ns by auto
    let ?nx = "(on_next o1)(?h := Some ?q)" and ?pv = "(on_prev o1)(?q := Some ?h)"
    let ?o2 = "o1\<lparr>om_size := om_size o1 - 1, om_taskMap := (om_taskMap o1)(Signature t := None), on_next := ?nx, on_prev := ?pv\<rparr>"
    have p: "om_pollWait Signature o1 = Some (?o2, Task t)"
      using hn nq t ne size ns unfolding om_pollWait_def by (simp add: Let_def)
    have rep': "om_rep Signature o1 ([] @ n # ms)" using rep ns by simp
    note u = om_unlink [OF rep', of "Signature t" ?nx ?pv ?o2]
    show ?thesis using p t u ns by (intro exI [of _ ?o2]) simp
  qed
qed

lemma om_delete_ok:
  assumes rep: "om_rep Signature o1 ns"
  shows "\<exists>o2 ms. om_delete key o1 = Some o2 \<and> om_rep Signature o2 ms \<and> om_closed o2 = om_closed o1
    \<and> (om_indexed Signature o1 ns \<longrightarrow> om_indexed Signature o2 ms
        \<and> om_tasks o2 ms = filter (\<lambda>t. Signature t \<noteq> key) (om_tasks o1 ns))"
proof (cases "om_taskMap o1 key")
  case None
  have "filter (\<lambda>t. Signature t \<noteq> key) (om_tasks o1 ns) = om_tasks o1 ns" if "om_indexed Signature o1 ns"
    using that None by (force simp: om_tasks_def om_indexed_def filter_id_conv)
  then show ?thesis using None rep by (intro exI [of _ o1] exI [of _ ns]) (simp add: om_delete_def)
next
  case (Some n)
  obtain xs ys where ns: "ns = xs @ n # ys" using om_rep_entry [OF rep Some] split_list by metis
  let ?h = "om_head o1" and ?b = "om_tail o1"
  have lk: "linked (on_next o1) (on_prev o1) ?h xs n" "linked (on_next o1) (on_prev o1) n ys ?b"
    and d: "distinct (?h # xs @ n # ys @ [?b])"
    using om_rep_list [OF rep] ns by (auto simp: om_list_def linked_append)
  let ?p = "last (?h # xs)" and ?q = "hd (ys @ [?b])"
  have pn: "on_prev o1 n = Some ?p" and nq: "on_next o1 n = Some ?q"
    using linked_ends [OF lk(1)] linked_ends [OF lk(2)] by blast+
  have "?p \<in> set (?h # xs)" by (rule last_in_set) simp
  then have ne: "?p \<noteq> n" using d by auto
  let ?nx = "(on_next o1)(?p := Some ?q)" and ?pv = "(on_prev o1)(?q := Some ?p)"
  let ?o2 = "o1\<lparr>om_size := om_size o1 - 1, om_taskMap := (om_taskMap o1)(key := None), on_next := ?nx, on_prev := ?pv\<rparr>"
  have p: "om_delete key o1 = Some ?o2"
    using Some pn nq ne unfolding om_delete_def by (simp add: Let_def)
  have rep': "om_rep Signature o1 (xs @ n # ys)" using rep ns by simp
  note u = om_unlink [OF rep', of key ?nx ?pv ?o2]
  show ?thesis using p Some u ns by (intro exI [of _ ?o2] exI [of _ "xs @ ys"]) simp
qed

section \<open>The contract\<close>

text \<open>No operation dereferences nil, whatever the signatures.\<close>

lemma om_impl_total:
  assumes "om_rep Signature o1 ns"
  shows "\<exists>o2 r ms. om_impl Signature b o1 = Some (o2, r) \<and> om_rep Signature o2 ms"
proof (cases b)
  case (OmPut t)
  then show ?thesis using om_put_ok [OF assms, of t] by fastforce
next
  case OmPoll
  then show ?thesis using assms om_poll_ok [OF assms] by (cases ns) fastforce+
next
  case OmClose
  have "om_rep Signature (om_close o1) ns" using assms by (simp add: om_rep_def om_list_def om_close_def)
  then show ?thesis using OmClose by auto
next
  case (OmDelete key)
  then show ?thesis using om_delete_ok [OF assms, of key] by fastforce
qed

lemma om_run_total:
  "om_rep Signature o1 ns \<Longrightarrow> \<exists>o2 rs. exec_partial (om_impl Signature) bs o1 = Some (o2, rs)"
proof (induction bs arbitrary: o1 ns)
  case (Cons b bs)
  then show ?case using om_impl_total [OF Cons.prems, of b] by fastforce
qed simp

definition om_abs :: "('r \<Rightarrow> string) \<Rightarrow> 'r orderedMap \<Rightarrow> 'r list \<times> bool \<Rightarrow> bool" where
  "om_abs Signature o1 a \<longleftrightarrow>
     (\<exists>ns. om_rep Signature o1 ns \<and> om_indexed Signature o1 ns \<and> a = (om_tasks o1 ns, om_closed o1))"

interpretation ordered_map: data_refinement "om_impl Signature" "spec_om Signature" "om_abs Signature"
  for Signature :: "'r \<Rightarrow> string"
proof
  fix o1 :: "'r orderedMap" and a b a' r
  assume "om_abs Signature o1 a" and sp: "spec_om Signature b a = Some (a', r)"
  then obtain ns where rep: "om_rep Signature o1 ns" and ix: "om_indexed Signature o1 ns"
    and a: "a = (om_tasks o1 ns, om_closed o1)" unfolding om_abs_def by blast
  show "\<exists>o2. om_impl Signature b o1 = Some (o2, r) \<and> om_abs Signature o2 a'"
  proof (cases b)
    case (OmPut t)
    then show ?thesis using om_put_ok [OF rep, of t] ix sp a unfolding om_abs_def by (auto split: if_splits)
  next
    case OmPoll
    show ?thesis
    proof (cases ns)
      case Nil
      then show ?thesis using OmPoll om_poll_ok(1) [OF rep] rep ix sp a
        unfolding om_abs_def by (auto simp: om_tasks_def)
    next
      case (Cons n ms)
      have "a' = (om_tasks o1 ms, om_closed o1)" "r = Task (the (on_t o1 n))"
        using sp a Cons OmPoll by (simp_all add: om_tasks_def)
      then show ?thesis using OmPoll om_poll_ok(2) [OF rep Cons] ix unfolding om_abs_def by fastforce
    qed
  next
    case OmClose
    have "om_rep Signature (om_close o1) ns" "om_indexed Signature (om_close o1) ns"
      using rep ix by (simp_all add: om_rep_def om_list_def om_close_def om_indexed_def)
    then show ?thesis using OmClose sp a unfolding om_abs_def by (auto simp: om_close_def om_tasks_def)
  next
    case (OmDelete key)
    then show ?thesis using om_delete_ok [OF rep, of key] ix sp a unfolding om_abs_def by fastforce
  qed
qed

lemma om_abs_new: "om_abs Signature newOrderedMap ([], False)"
  unfolding om_abs_def using om_rep_new by (intro exI [of _ "[]"]) (simp add: om_tasks_def om_indexed_def newOrderedMap_def)

lemma om_abs_items: "om_abs Signature o1 (xs, c) \<Longrightarrow> om_items o1 = xs \<and> om_closed o1 = c \<and> om_size o1 = int (length xs)"
  unfolding om_abs_def using om_items_list om_rep_list om_rep_size by (fastforce simp: om_tasks_def)

section \<open>The interface of the worker pool's queue\<close>

text \<open>What a worker pool relies on: the queue takes tasks at one end and gives them out at the other, and
  never fails.\<close>

locale task_queue =
  fixes put :: "'r \<Rightarrow> 's \<Rightarrow> 's option" and poll :: "'s \<Rightarrow> ('s \<times> 'r polled) option" and close :: "'s \<Rightarrow> 's"
    and good :: "'s \<Rightarrow> bool" and items :: "'s \<Rightarrow> 'r list" and closed :: "'s \<Rightarrow> bool"
  assumes put_law: "good q \<Longrightarrow> \<exists>q'. put t q = Some q' \<and> good q' \<and> items q' = items q @ [t] \<and> closed q' = closed q"
    and poll_empty: "good q \<Longrightarrow> items q = [] \<Longrightarrow> poll q = Some (q, if closed q then Drained else MustWait)"
    and poll_task: "good q \<Longrightarrow> items q = t # ts \<Longrightarrow>
      \<exists>q'. poll q = Some (q', Task t) \<and> good q' \<and> items q' = ts \<and> closed q' = closed q"
    and close_law: "good q \<Longrightarrow> good (close q) \<and> items (close q) = items q \<and> closed (close q)"
begin

lemma poll_total:
  assumes "good q"
  obtains (wait) "poll q = Some (q, MustWait)" "items q = []" "\<not> closed q"
  | (drained) "poll q = Some (q, Drained)" "items q = []" "closed q"
  | (task) q' t where "poll q = Some (q', Task t)" "good q'" "items q = t # items q'" "closed q' = closed q"
  using poll_empty [OF assms] poll_task [OF assms] by (cases "items q") (auto split: if_splits)

end

definition om_good :: "('r \<Rightarrow> string) \<Rightarrow> 'r orderedMap \<Rightarrow> bool" where
  "om_good Signature o1 \<longleftrightarrow> (\<exists>ns. om_rep Signature o1 ns)"

lemma om_items_rep: "om_rep Signature o1 ns \<Longrightarrow> om_items o1 = om_tasks o1 ns"
  by (rule om_items_list [OF om_rep_list])

interpretation om_queue:
  task_queue "om_put Signature" "om_pollWait Signature" om_close "om_good Signature" om_items om_closed
  for Signature :: "'r \<Rightarrow> string"
proof
  fix q :: "'r orderedMap" and t ts
  assume "om_good Signature q"
  then obtain ns where rep: "om_rep Signature q ns" unfolding om_good_def by blast
  note it = om_items_rep [OF rep]
  show "\<exists>q'. om_put Signature t q = Some q' \<and> om_good Signature q' \<and> om_items q' = om_items q @ [t] \<and> om_closed q' = om_closed q"
    using om_put_ok [OF rep, of t] om_items_rep it unfolding om_good_def by metis
  show "om_pollWait Signature q = Some (q, if om_closed q then Drained else MustWait)" if "om_items q = []"
    using om_poll_ok(1) [OF rep] it that by (simp add: om_tasks_def)
  show "\<exists>q'. om_pollWait Signature q = Some (q', Task t) \<and> om_good Signature q' \<and> om_items q' = ts \<and> om_closed q' = om_closed q"
    if "om_items q = t # ts"
  proof -
    obtain n ms where ns: "ns = n # ms" "t = the (on_t q n)" "ts = om_tasks q ms"
      using it \<open>om_items q = t # ts\<close> by (cases ns) (auto simp: om_tasks_def)
    show ?thesis using om_poll_ok(2) [OF rep ns(1)] om_items_rep ns unfolding om_good_def by metis
  qed
  have "om_rep Signature (om_close q) ns" using rep by (simp add: om_rep_def om_list_def om_close_def)
  then show "om_good Signature (om_close q) \<and> om_items (om_close q) = om_items q \<and> om_closed (om_close q)"
    using om_items_rep [of Signature "om_close q" ns] it by (auto simp: om_good_def om_close_def om_tasks_def)
qed

lemma om_good_new: "om_good Signature newOrderedMap"
  using om_rep_new unfolding om_good_def by blast

lemma om_items_new: "om_items (newOrderedMap :: 'r orderedMap) = []"
  using om_items_rep [OF om_rep_new [of "\<lambda>_ :: 'r. []"]] by (simp add: om_tasks_def)

lemma om_closed_new: "\<not> om_closed newOrderedMap"
  by (simp add: newOrderedMap_def)

lemma om_good_cong:
  assumes "om_good S o1" and "\<And>t. t \<in> set (om_items o1) \<Longrightarrow> S' t = S t"
  shows "om_good S' o1"
proof -
  obtain ns where rep: "om_rep S o1 ns" using assms(1) unfolding om_good_def by blast
  then have "\<forall>n \<in> set ns. S' (the (on_t o1 n)) = S (the (on_t o1 n))"
    using assms(2) om_items_rep [OF rep] by (simp add: om_tasks_def)
  then have "om_rep S' o1 ns" using rep unfolding om_rep_def by metis
  then show ?thesis unfolding om_good_def by blast
qed

section \<open>The theorem\<close>

text \<open>C27: From \<^verbatim>\<open>newOrderedMap\<close>, no sequence of \<^verbatim>\<open>put\<close>, \<^verbatim>\<open>pollWait\<close>,
  \<^verbatim>\<open>close\<close> and \<^verbatim>\<open>delete\<close> dereferences nil, whatever the signatures; and when no task is put
  under a signature that is still queued, the pointer program is a first-in first-out queue from which
  \<^verbatim>\<open>delete\<close> takes the task with the given signature: \<^verbatim>\<open>pollWait\<close> returns the same tasks,
  waits on the same occasions and reports drained on the same occasions.\<close>

theorem ordered_map_refines:
  "(\<exists>o2 rs. exec_partial (om_impl Signature) ops newOrderedMap = Some (o2, rs))
   \<and> (\<forall>xs c rs. exec_partial (spec_om Signature) ops ([], False) = Some ((xs, c), rs) \<longrightarrow>
       (\<exists>o2. exec_partial (om_impl Signature) ops newOrderedMap = Some (o2, rs)
         \<and> om_items o2 = xs \<and> om_closed o2 = c \<and> om_size o2 = int (length xs)))"
  using om_run_total [OF om_rep_new] ordered_map.run_simulates [OF om_abs_new] om_abs_items by metis

lemma ordered_map_witness:
  "\<exists>o2. exec_partial (om_impl id) [OmPut ''a'', OmPut ''b'', OmPut ''c'', OmDelete ''b'', OmPoll, OmClose, OmPoll, OmPoll]
       newOrderedMap = Some (o2, [MustWait, MustWait, MustWait, MustWait, Task ''a'', MustWait, Task ''c'', Drained])
     \<and> om_items o2 = [] \<and> om_closed o2 \<and> om_size o2 = 0"
proof -
  let ?ops = "[OmPut ''a'', OmPut ''b'', OmPut ''c'', OmDelete ''b'', OmPoll, OmClose, OmPoll, OmPoll]"
  have "exec_partial (spec_om id) ?ops ([], False) = Some (([], True),
      [MustWait, MustWait, MustWait, MustWait, Task ''a'', MustWait, Task ''c'', Drained])" by simp
  then show ?thesis using ordered_map_refines [of id ?ops, THEN conjunct2, rule_format] by fastforce
qed

end
