(* ===== verification/Worker_Pool.thy ===== *)
theory Worker_Pool
  imports Counting Ordered_Map
begin

text \<open>
  \<^verbatim>\<open>WorkerPool\<close>, \<^verbatim>\<open>Promise\<close> and \<^verbatim>\<open>Future\<close> of \<^verbatim>\<open>syncx/future.go\<close>, with the
  pool's workers, the goroutine that closes its queue when the context is cancelled, and any number of
  clients. A task is a number, its fields are functions of it; a task's \<^verbatim>\<open>fn\<close> is the value it
  returns. The signatures come from a third-party package: they are arguments of the actions, and nothing
  is assumed about them. \<^verbatim>\<open>submit\<close> and \<^verbatim>\<open>get\<close> exclude each other by \<^verbatim>\<open>wpMu\<close> and the
  workers touch the queue only, so each is one step. A \<^verbatim>\<open>Signal\<close> wakes some goroutine that waits;
  the action says which.
\<close>

section \<open>The code\<close>

datatype pool_panic = NotInitialized | CannotFindTask | PoolCanceled

datatype worker_pc =
    WorkerOff        \<comment> \<open>not started\<close>
  | WorkerPoll       \<comment> \<open>in \<open>pollWait\<close>, about to look at the queue\<close>
  | WorkerWait       \<comment> \<open>in \<open>notEmpty.Wait()\<close>\<close>
  | WorkerRun nat    \<comment> \<open>\<open>t.v = t.fn()\<close>\<close>
  | WorkerClose nat  \<comment> \<open>\<open>close(t.doneCh)\<close>\<close>
  | WorkerExit
  | WorkerPanic      \<comment> \<open>nil dereference or close of a closed channel\<close>

datatype 'v client_pc =
    ClientIdle
  | InGet nat          \<comment> \<open>the select of \<open>Get\<close>\<close>
  | InPoll nat         \<comment> \<open>the select of \<open>Poll\<close>\<close>
  | Got nat 'v         \<comment> \<open>\<open>Get\<close> returns\<close>
  | Polled nat "'v option"
  | ClientPanic pool_panic

record 'v WorkerPool =
  wp_init :: bool                      \<comment> \<open>\<open>workerPool != nil\<close>\<close>
  wp_queue :: "nat orderedMap"
  wp_notEmpty :: "tid list"            \<comment> \<open>the workers that wait for \<open>notEmpty\<close>\<close>
  wp_taskMap :: "string \<rightharpoonup> nat"
  wp_cancelled :: bool                 \<comment> \<open>\<open>ctx.Done()\<close> is closed\<close>
  wp_closer :: bool                    \<comment> \<open>the closing goroutine has yet to close the queue\<close>
  wp_worker :: "tid \<Rightarrow> worker_pc"
  wp_client :: "tid \<Rightarrow> 'v client_pc"
  tk_fn :: "nat \<Rightarrow> 'v"
  tk_v :: "nat \<Rightarrow> 'v"
  tk_signature :: "nat \<Rightarrow> string"
  tk_done :: "nat \<Rightarrow> bool"              \<comment> \<open>\<open>doneCh\<close> is closed\<close>
  tk_fresh :: nat
  wp_taken :: "nat list"               \<comment> \<open>auxiliary: the tasks the workers have taken, in order\<close>

definition pool_nil :: "'v::zero WorkerPool" where
  "pool_nil = \<lparr>wp_init = False, wp_queue = newOrderedMap, wp_notEmpty = [], wp_taskMap = Map.empty, wp_cancelled = False,
     wp_closer = False, wp_worker = (\<lambda>_. WorkerOff), wp_client = (\<lambda>_. ClientIdle), tk_fn = (\<lambda>_. 0), tk_v = (\<lambda>_. 0),
     tk_signature = (\<lambda>_. []), tk_done = (\<lambda>_. False), tk_fresh = 0, wp_taken = []\<rparr>"

text \<open>\<^verbatim>\<open>NewWorkerPool\<close>: the first call makes the pool and starts its goroutines.\<close>

definition NewWorkerPool :: "nat \<Rightarrow> 'v::zero WorkerPool \<Rightarrow> 'v WorkerPool" where
  "NewWorkerPool workers p =
     (if wp_init p then p
      else p\<lparr>wp_init := True, wp_queue := newOrderedMap, wp_notEmpty := [], wp_taskMap := Map.empty, wp_closer := True,
             wp_worker := (\<lambda>w. if w < workers then WorkerPoll else WorkerOff)\<rparr>)"

text \<open>\<^verbatim>\<open>notEmpty.Signal()\<close> that wakes \<open>u\<close>, or nobody when nobody waits.\<close>

definition wp_signal :: "tid \<Rightarrow> 'v WorkerPool \<Rightarrow> 'v WorkerPool option" where
  "wp_signal u p =
     (if wp_notEmpty p = [] then Some p
      else if u \<in> set (wp_notEmpty p)
      then Some (p\<lparr>wp_notEmpty := remove1 u (wp_notEmpty p), wp_worker := (wp_worker p)(u := WorkerPoll)\<rparr>)
      else None)"

definition submit :: "nat \<Rightarrow> tid \<Rightarrow> 'v WorkerPool \<Rightarrow> 'v WorkerPool option" where
  "submit r u p =
     (let p1 = p\<lparr>wp_taskMap := (wp_taskMap p)(tk_signature p r \<mapsto> r)\<rparr>
      in case om_put (tk_signature p1) r (wp_queue p1) of
           None \<Rightarrow> None
         | Some q \<Rightarrow> wp_signal u (p1\<lparr>wp_queue := q\<rparr>))"

definition Promise_Resolve :: "tid \<Rightarrow> string \<Rightarrow> 'v \<Rightarrow> tid \<Rightarrow> 'v::zero WorkerPool \<Rightarrow> 'v WorkerPool option" where
  "Promise_Resolve c signature fn u p =
     (if \<not> wp_init p then Some (p\<lparr>wp_client := (wp_client p)(c := ClientPanic NotInitialized)\<rparr>)
      else let t = tk_fresh p
           in submit t u (p\<lparr>tk_fn := (tk_fn p)(t := fn), tk_v := (tk_v p)(t := 0), tk_signature := (tk_signature p)(t := signature),
                            tk_done := (tk_done p)(t := False), tk_fresh := Suc t\<rparr>))"

text \<open>\<^verbatim>\<open>NewPromise\<close> panics without a pool and otherwise hands out a signature twice.\<close>

definition NewPromise :: "string \<Rightarrow> 'v WorkerPool \<Rightarrow> (string \<times> string) option" where
  "NewPromise uid p = (if wp_init p then Some (uid, uid) else None)"

definition Future_lookup :: "tid \<Rightarrow> string \<Rightarrow> (nat \<Rightarrow> 'v client_pc) \<Rightarrow> 'v WorkerPool \<Rightarrow> 'v WorkerPool" where
  "Future_lookup c signature next p =
     (if \<not> wp_init p then p\<lparr>wp_client := (wp_client p)(c := ClientPanic NotInitialized)\<rparr>
      else case wp_taskMap p signature of
        None \<Rightarrow> p\<lparr>wp_client := (wp_client p)(c := ClientPanic CannotFindTask)\<rparr>
      | Some t \<Rightarrow> p\<lparr>wp_client := (wp_client p)(c := next t)\<rparr>)"

text \<open>The selects of \<^verbatim>\<open>Poll\<close> and \<^verbatim>\<open>Get\<close>; when both cases of \<^verbatim>\<open>Get\<close> are ready either may
  be taken.\<close>

definition Future_Poll_select :: "tid \<Rightarrow> 'v WorkerPool \<Rightarrow> 'v WorkerPool option" where
  "Future_Poll_select c p =
     (case wp_client p c of
        InPoll t \<Rightarrow> Some (p\<lparr>wp_client := (wp_client p)(c := Polled t (if tk_done p t then Some (tk_v p t) else None))\<rparr>)
      | _ \<Rightarrow> None)"

definition Future_Get_select :: "tid \<Rightarrow> bool \<Rightarrow> 'v WorkerPool \<Rightarrow> 'v WorkerPool option" where
  "Future_Get_select c ctxDone p =
     (case wp_client p c of
        InGet t \<Rightarrow>
          (if ctxDone
           then (if wp_cancelled p then Some (p\<lparr>wp_client := (wp_client p)(c := ClientPanic PoolCanceled)\<rparr>) else None)
           else (if tk_done p t then Some (p\<lparr>wp_client := (wp_client p)(c := Got t (tk_v p t))\<rparr>) else None))
      | _ \<Rightarrow> None)"

text \<open>The goroutines \<^verbatim>\<open>start\<close> starts.\<close>

definition worker_step :: "tid \<Rightarrow> 'v WorkerPool \<Rightarrow> 'v WorkerPool option" where
  "worker_step w p =
     (case wp_worker p w of
        WorkerPoll \<Rightarrow>
          (case om_pollWait (tk_signature p) (wp_queue p) of
             None \<Rightarrow> Some (p\<lparr>wp_worker := (wp_worker p)(w := WorkerPanic)\<rparr>)
           | Some (q, MustWait) \<Rightarrow> Some (p\<lparr>wp_queue := q, wp_notEmpty := wp_notEmpty p @ [w], wp_worker := (wp_worker p)(w := WorkerWait)\<rparr>)
           | Some (q, Drained) \<Rightarrow> Some (p\<lparr>wp_queue := q, wp_worker := (wp_worker p)(w := WorkerExit)\<rparr>)
           | Some (q, Task t) \<Rightarrow>
               Some (p\<lparr>wp_queue := q, wp_worker := (wp_worker p)(w := WorkerRun t), wp_taken := wp_taken p @ [t]\<rparr>))
      | WorkerRun t \<Rightarrow> Some (p\<lparr>tk_v := (tk_v p)(t := tk_fn p t), wp_worker := (wp_worker p)(w := WorkerClose t)\<rparr>)
      | WorkerClose t \<Rightarrow>
          (if tk_done p t then Some (p\<lparr>wp_worker := (wp_worker p)(w := WorkerPanic)\<rparr>)
           else Some (p\<lparr>tk_done := (tk_done p)(t := True), wp_worker := (wp_worker p)(w := WorkerPoll)\<rparr>))
      | _ \<Rightarrow> None)"

definition closer_step :: "'v WorkerPool \<Rightarrow> 'v WorkerPool option" where
  "closer_step p =
     (if wp_closer p \<and> wp_cancelled p
      then Some (p\<lparr>wp_queue := om_close (wp_queue p), wp_closer := False, wp_notEmpty := [],
                   wp_worker := (\<lambda>w. if w \<in> set (wp_notEmpty p) then WorkerPoll else wp_worker p w)\<rparr>)
      else None)"

datatype 'v pool_act =
    CallNewWorkerPool nat
  | CallResolve tid string 'v tid
  | CallGet tid string
  | CallPoll tid string
  | GetSelect tid bool
  | PollSelect tid
  | ClientReturn tid
  | Cancel
  | Closer
  | Worker tid

fun pool_step :: "'v pool_act \<Rightarrow> 'v::zero WorkerPool \<Rightarrow> 'v WorkerPool option" where
  "pool_step (CallNewWorkerPool n) p = (if n \<le> max_goroutines then Some (NewWorkerPool n p) else None)"
| "pool_step (CallResolve c s fn u) p = (if wp_client p c = ClientIdle then Promise_Resolve c s fn u p else None)"
| "pool_step (CallGet c s) p = (if wp_client p c = ClientIdle then Some (Future_lookup c s InGet p) else None)"
| "pool_step (CallPoll c s) p = (if wp_client p c = ClientIdle then Some (Future_lookup c s InPoll p) else None)"
| "pool_step (GetSelect c b) p = Future_Get_select c b p"
| "pool_step (PollSelect c) p = Future_Poll_select c p"
| "pool_step (ClientReturn c) p =
     (case wp_client p c of
        Got t v \<Rightarrow> Some (p\<lparr>wp_client := (wp_client p)(c := ClientIdle)\<rparr>)
      | Polled t r \<Rightarrow> Some (p\<lparr>wp_client := (wp_client p)(c := ClientIdle)\<rparr>)
      | _ \<Rightarrow> None)"
| "pool_step Cancel p = Some (p\<lparr>wp_cancelled := True\<rparr>)"
| "pool_step Closer p = closer_step p"
| "pool_step (Worker w) p = worker_step w p"

section \<open>The invariant\<close>

definition at_task :: "worker_pc \<Rightarrow> nat \<Rightarrow> bool" where
  "at_task pc t \<longleftrightarrow> pc = WorkerRun t \<or> pc = WorkerClose t"

lemma at_task_simps [simp]:
  "at_task (WorkerRun r) t \<longleftrightarrow> r = t" "at_task (WorkerClose r) t \<longleftrightarrow> r = t" "\<not> at_task WorkerOff t"
  "\<not> at_task WorkerPoll t" "\<not> at_task WorkerWait t" "\<not> at_task WorkerExit t" "\<not> at_task WorkerPanic t"
  by (auto simp: at_task_def)

text \<open>The queue holds, in the order of their submission, the tasks not yet taken.\<close>

definition queue_ok :: "'v WorkerPool \<Rightarrow> bool" where
  "queue_ok p \<longleftrightarrow> om_good (tk_signature p) (wp_queue p) \<and> wp_taken p @ om_items (wp_queue p) = [0..<tk_fresh p]"

text \<open>A task that was taken is at one worker, or done with its value stored.\<close>

definition tasks_ok :: "'v WorkerPool \<Rightarrow> bool" where
  "tasks_ok p \<longleftrightarrow>
     (\<forall>t. t \<in> set (wp_taken p) \<longleftrightarrow> tk_done p t \<or> (\<exists>w. at_task (wp_worker p w) t))
     \<and> (\<forall>w t. at_task (wp_worker p w) t \<longrightarrow> \<not> tk_done p t)
     \<and> (\<forall>v w t. at_task (wp_worker p v) t \<longrightarrow> at_task (wp_worker p w) t \<longrightarrow> v = w)
     \<and> (\<forall>t. tk_done p t \<or> (\<exists>w. wp_worker p w = WorkerClose t) \<longrightarrow> tk_v p t = tk_fn p t)
     \<and> (\<forall>w. wp_worker p w \<noteq> WorkerPanic)"

lemma tasks_okI:
  assumes "\<And>t. t \<in> set (wp_taken p) \<longleftrightarrow> tk_done p t \<or> (\<exists>w. at_task (wp_worker p w) t)"
    and "\<And>w t. at_task (wp_worker p w) t \<Longrightarrow> \<not> tk_done p t"
    and "\<And>v w t. at_task (wp_worker p v) t \<Longrightarrow> at_task (wp_worker p w) t \<Longrightarrow> v = w"
    and "\<And>t. tk_done p t \<Longrightarrow> tk_v p t = tk_fn p t"
    and "\<And>w t. wp_worker p w = WorkerClose t \<Longrightarrow> tk_v p t = tk_fn p t"
    and "\<And>w. wp_worker p w \<noteq> WorkerPanic"
  shows "tasks_ok p"
  using assms unfolding tasks_ok_def by blast

lemma tasks_okD:
  assumes "tasks_ok p"
  shows tasks_taken: "t \<in> set (wp_taken p) \<longleftrightarrow> tk_done p t \<or> (\<exists>w. at_task (wp_worker p w) t)"
    and tasks_undone: "at_task (wp_worker p w) t \<Longrightarrow> \<not> tk_done p t"
    and tasks_once: "at_task (wp_worker p v) t \<Longrightarrow> at_task (wp_worker p w) t \<Longrightarrow> v = w"
    and tasks_value: "tk_done p t \<Longrightarrow> tk_v p t = tk_fn p t"
    and tasks_stored: "wp_worker p w = WorkerClose t \<Longrightarrow> tk_v p t = tk_fn p t"
    and tasks_no_panic: "wp_worker p w \<noteq> WorkerPanic"
  using assms unfolding tasks_ok_def by blast+

lemma tasks_ok_frame:
  "wp_taken p' = wp_taken p \<Longrightarrow> tk_done p' = tk_done p \<Longrightarrow> tk_v p' = tk_v p \<Longrightarrow> tk_fn p' = tk_fn p \<Longrightarrow>
     wp_worker p' = wp_worker p \<Longrightarrow> tasks_ok p' = tasks_ok p"
  by (simp only: tasks_ok_def)

text \<open>A worker that goes from one place without a task to another.\<close>

lemma tasks_ok_idle:
  assumes tk: "tasks_ok p" and w: "\<And>t. \<not> at_task (wp_worker p w) t" and q: "\<And>t. \<not> at_task q t" "q \<noteq> WorkerPanic"
  shows "tasks_ok (p\<lparr>wp_worker := (wp_worker p)(w := q)\<rparr>)"
proof -
  have at: "at_task (((wp_worker p)(w := q)) v) r = at_task (wp_worker p v) r" for v r using w q by simp
  have cl: "((wp_worker p)(w := q)) v = WorkerClose r \<Longrightarrow> wp_worker p v = WorkerClose r" for v r
    using q(1) [of r] by (auto simp: at_task_def split: if_splits)
  have np: "((wp_worker p)(w := q)) v \<noteq> WorkerPanic" for v using q(2) tasks_no_panic [OF tk] by simp
  show ?thesis
    by (rule tasks_okI) (use tasks_okD [OF tk] at cl np in \<open>simp_all del: fun_upd_apply, blast?\<close>)
qed

text \<open>While a worker waits, at least as many are about to poll as there are queued tasks.\<close>

definition waits_ok :: "'v WorkerPool \<Rightarrow> bool" where
  "waits_ok p \<longleftrightarrow> active WorkerOff (wp_worker p) \<and> distinct (wp_notEmpty p)
     \<and> (\<forall>w. w \<in> set (wp_notEmpty p) \<longleftrightarrow> wp_worker p w = WorkerWait)
     \<and> (wp_notEmpty p \<noteq> [] \<longrightarrow> \<not> om_closed (wp_queue p)
         \<and> int (length (om_items (wp_queue p))) \<le> num (\<lambda>pc. pc = WorkerPoll) (wp_worker p))
     \<and> (\<forall>w. wp_worker p w = WorkerExit \<longrightarrow> om_closed (wp_queue p))
     \<and> (om_closed (wp_queue p) \<longrightarrow> wp_cancelled p)"

text \<open>What clients know of a task is true of it.\<close>

definition clients_ok :: "'v WorkerPool \<Rightarrow> bool" where
  "clients_ok p \<longleftrightarrow>
     (\<forall>s t. wp_taskMap p s = Some t \<longrightarrow> t < tk_fresh p \<and> tk_signature p t = s)
     \<and> (\<forall>c t. wp_client p c = InGet t \<or> wp_client p c = InPoll t \<longrightarrow> t < tk_fresh p)
     \<and> (\<forall>c t v. wp_client p c = Got t v \<or> wp_client p c = Polled t (Some v) \<longrightarrow>
          t < tk_fresh p \<and> tk_done p t \<and> v = tk_fn p t)"

definition unused :: "'v WorkerPool \<Rightarrow> bool" where
  "unused p \<longleftrightarrow> (\<not> wp_init p \<longrightarrow> wp_queue p = newOrderedMap \<and> tk_fresh p = 0 \<and> wp_taken p = [] \<and> wp_notEmpty p = []
     \<and> wp_taskMap p = Map.empty \<and> (\<forall>w. wp_worker p w = WorkerOff) \<and> (\<forall>t. \<not> tk_done p t) \<and> \<not> wp_closer p)"

definition pool_inv :: "'v WorkerPool \<Rightarrow> bool" where
  "pool_inv p \<longleftrightarrow> queue_ok p \<and> tasks_ok p \<and> waits_ok p \<and> clients_ok p \<and> unused p"

lemma pool_invD:
  assumes "pool_inv p"
  shows inv_queue: "queue_ok p" and inv_tasks: "tasks_ok p" and inv_waits: "waits_ok p"
    and inv_clients: "clients_ok p" and inv_unused: "unused p"
  using assms unfolding pool_inv_def by blast+

lemmas num_poll = num_upd [where idle = WorkerOff and P = "\<lambda>pc. pc = WorkerPoll", simplified]

lemma queue_ok_taken:
  assumes "queue_ok p"
  shows "t \<in> set (wp_taken p) \<or> t \<in> set (om_items (wp_queue p)) \<longleftrightarrow> t < tk_fresh p"
    and "t \<in> set (wp_taken p) \<Longrightarrow> t \<notin> set (om_items (wp_queue p))"
    and "distinct (om_items (wp_queue p))"
proof -
  have e: "wp_taken p @ om_items (wp_queue p) = [0..<tk_fresh p]" using assms by (simp add: queue_ok_def)
  have "t \<in> set (wp_taken p @ om_items (wp_queue p)) \<longleftrightarrow> t < tk_fresh p" unfolding e by simp
  then show "t \<in> set (wp_taken p) \<or> t \<in> set (om_items (wp_queue p)) \<longleftrightarrow> t < tk_fresh p" by simp
  have "distinct (wp_taken p @ om_items (wp_queue p))" unfolding e by simp
  then show "t \<in> set (wp_taken p) \<Longrightarrow> t \<notin> set (om_items (wp_queue p))" "distinct (om_items (wp_queue p))" by auto
qed

subsection \<open>Clients\<close>

lemma pool_inv_client:
  assumes inv: "pool_inv p"
    and new: "case pc of InGet t \<Rightarrow> t < tk_fresh p | InPoll t \<Rightarrow> t < tk_fresh p
      | Got t v \<Rightarrow> t < tk_fresh p \<and> tk_done p t \<and> v = tk_fn p t
      | Polled t (Some v) \<Rightarrow> t < tk_fresh p \<and> tk_done p t \<and> v = tk_fn p t | _ \<Rightarrow> True"
  shows "pool_inv (p\<lparr>wp_client := (wp_client p)(c := pc)\<rparr>)"
proof -
  let ?p = "p\<lparr>wp_client := (wp_client p)(c := pc)\<rparr>"
  have "queue_ok ?p = queue_ok p" "tasks_ok ?p = tasks_ok p" "waits_ok ?p = waits_ok p" "unused ?p = unused p"
    by (simp_all add: queue_ok_def tasks_ok_def waits_ok_def unused_def)
  moreover have "clients_ok ?p"
    using inv_clients [OF inv] new unfolding clients_ok_def by (auto split: client_pc.splits option.splits)
  ultimately show ?thesis using inv by (simp add: pool_inv_def)
qed

lemma pool_inv_lookup:
  assumes "pool_inv p" and "next = InGet \<or> next = InPoll"
  shows "pool_inv (Future_lookup c s next p)"
  using assms inv_clients [OF assms(1)] unfolding Future_lookup_def clients_ok_def
  by (auto intro!: pool_inv_client split: option.splits)

lemma pool_inv_select:
  assumes inv: "pool_inv p"
  shows "Future_Poll_select c p = Some p' \<Longrightarrow> pool_inv p'" and "Future_Get_select c b p = Some p' \<Longrightarrow> pool_inv p'"
proof -
  have v: "tk_v p t = tk_fn p t" if "tk_done p t" for t using inv_tasks [OF inv] that unfolding tasks_ok_def by blast
  have f: "t < tk_fresh p" if "wp_client p c = InGet t \<or> wp_client p c = InPoll t" for t
    using inv_clients [OF inv] that unfolding clients_ok_def by blast
  show "pool_inv p'" if "Future_Poll_select c p = Some p'"
    using that v f by (auto simp: Future_Poll_select_def intro!: pool_inv_client [OF inv] split: client_pc.splits if_splits)
  show "pool_inv p'" if "Future_Get_select c b p = Some p'"
    using that v f by (auto simp: Future_Get_select_def intro!: pool_inv_client [OF inv] split: client_pc.splits if_splits)
qed

subsection \<open>Starting, cancelling and closing\<close>

lemma pool_inv_new:
  assumes inv: "pool_inv p" and n: "n \<le> max_goroutines"
  shows "pool_inv (NewWorkerPool n p)"
proof (cases "wp_init p")
  case False
  then have u: "wp_queue p = newOrderedMap" "tk_fresh p = 0" "wp_taken p = []" "\<And>t. \<not> tk_done p t"
    using inv_unused [OF inv] by (simp_all add: unused_def)
  let ?p = "NewWorkerPool n p"
  have q: "queue_ok ?p" using False u om_good_new by (simp add: queue_ok_def NewWorkerPool_def om_items_new)
  moreover have "tasks_ok ?p" using False u by (simp add: tasks_ok_def NewWorkerPool_def at_task_def)
  moreover have "waits_ok ?p" using False n om_closed_new by (auto simp: waits_ok_def NewWorkerPool_def active_def)
  moreover have "clients_ok ?p" using False inv_clients [OF inv] by (simp add: clients_ok_def NewWorkerPool_def)
  moreover have "unused ?p" using False by (simp add: unused_def NewWorkerPool_def)
  ultimately show ?thesis by (simp add: pool_inv_def)
qed (use inv in \<open>simp add: NewWorkerPool_def\<close>)

lemma pool_inv_cancel: "pool_inv p \<Longrightarrow> pool_inv (p\<lparr>wp_cancelled := True\<rparr>)"
  by (simp add: pool_inv_def queue_ok_def tasks_ok_def waits_ok_def clients_ok_def unused_def)

lemma pool_inv_closer:
  assumes inv: "pool_inv p" and st: "closer_step p = Some p'"
  shows "pool_inv p'"
proof -
  let ?ws = "\<lambda>w. if w \<in> set (wp_notEmpty p) then WorkerPoll else wp_worker p w"
  have c: "wp_closer p" "wp_cancelled p"
    and p': "p' = p\<lparr>wp_queue := om_close (wp_queue p), wp_closer := False, wp_notEmpty := [], wp_worker := ?ws\<rparr>"
    using st by (simp_all add: closer_step_def split: if_splits)
  have i: "wp_init p" using c inv_unused [OF inv] by (auto simp: unused_def)
  have w: "w \<in> set (wp_notEmpty p) \<longleftrightarrow> wp_worker p w = WorkerWait" for w
    using inv_waits [OF inv] by (simp add: waits_ok_def)
  have at: "at_task (?ws w) t = at_task (wp_worker p w) t" for w t by (auto simp: w)
  have "queue_ok p'" using inv_queue [OF inv] om_queue.close_law by (auto simp: p' queue_ok_def)
  moreover have "tasks_ok p'"
    using inv_tasks [OF inv] unfolding tasks_ok_def p' by (simp add: at) (auto simp: w)
  moreover have "waits_ok p'"
    using inv_waits [OF inv] c om_queue.close_law inv_queue [OF inv]
    by (auto simp: p' waits_ok_def active_def queue_ok_def om_close_def w split: if_splits)
  moreover have "clients_ok p'" using inv_clients [OF inv] by (simp add: p' clients_ok_def)
  ultimately show ?thesis using i by (simp add: pool_inv_def unused_def p')
qed

subsection \<open>Submitting a task\<close>

text \<open>\<^verbatim>\<open>Signal\<close> after a task was queued.\<close>

lemma waits_ok_signal:
  assumes w: "waits_ok p" and st: "wp_signal u (p\<lparr>wp_queue := q\<rparr>) = Some p'"
    and q: "length (om_items q) = Suc (length (om_items (wp_queue p)))" "om_closed q = om_closed (wp_queue p)"
  shows "waits_ok p'"
proof (cases "wp_notEmpty p = []")
  case True
  then show ?thesis using w st q by (auto simp: wp_signal_def waits_ok_def)
next
  case False
  then have u: "u \<in> set (wp_notEmpty p)" and p': "p' = p\<lparr>wp_queue := q, wp_notEmpty := remove1 u (wp_notEmpty p),
      wp_worker := (wp_worker p)(u := WorkerPoll)\<rparr>"
    using st by (simp_all add: wp_signal_def split: if_splits)
  have a: "active WorkerOff (wp_worker p)" and d: "distinct (wp_notEmpty p)"
    and e: "\<And>v. v \<in> set (wp_notEmpty p) \<longleftrightarrow> wp_worker p v = WorkerWait" using w by (auto simp: waits_ok_def)
  have uw: "wp_worker p u = WorkerWait" using u e by simp
  have "num (\<lambda>pc. pc = WorkerPoll) ((wp_worker p)(u := WorkerPoll)) = num (\<lambda>pc. pc = WorkerPoll) (wp_worker p) + 1"
    using a uw by (simp add: num_poll)
  moreover have "active WorkerOff ((wp_worker p)(u := WorkerPoll))" using a uw by (simp add: active_move)
  moreover have "v \<in> set (remove1 u (wp_notEmpty p)) \<longleftrightarrow> ((wp_worker p)(u := WorkerPoll)) v = WorkerWait" for v
    using e d by (simp add: set_remove1_eq)
  ultimately show ?thesis using w False q d unfolding p' waits_ok_def by (auto simp: fun_upd_def)
qed

lemma wp_signal_frame:
  assumes "wp_signal u p = Some p'"
  shows "wp_queue p' = wp_queue p" "tk_signature p' = tk_signature p" "wp_taken p' = wp_taken p" "tk_fresh p' = tk_fresh p"
    "tk_done p' = tk_done p" "tk_v p' = tk_v p" "tk_fn p' = tk_fn p" "wp_taskMap p' = wp_taskMap p" "wp_client p' = wp_client p"
    "wp_init p' = wp_init p" "wp_worker p' w = wp_worker p w \<or> wp_worker p' w = WorkerPoll \<and> u = w \<and> u \<in> set (wp_notEmpty p)"
  using assms by (auto simp: wp_signal_def split: if_splits)

lemma tasks_ok_signal:
  assumes "tasks_ok p" and w: "\<And>v. v \<in> set (wp_notEmpty p) \<Longrightarrow> wp_worker p v = WorkerWait" and "wp_signal u p = Some p'"
  shows "tasks_ok p'"
proof -
  note f = wp_signal_frame [OF assms(3)]
  have at: "at_task (wp_worker p' w) t = at_task (wp_worker p w) t"
    and c: "wp_worker p' w = WorkerClose t \<longleftrightarrow> wp_worker p w = WorkerClose t"
    and e: "wp_worker p' w = WorkerPanic \<longleftrightarrow> wp_worker p w = WorkerPanic" for w t
    using f(11) [of w] w by auto
  show ?thesis using assms(1) unfolding tasks_ok_def at c e f .
qed

text \<open>A new task, not yet queued.\<close>

abbreviation new_task :: "string \<Rightarrow> 'v \<Rightarrow> 'v::zero WorkerPool \<Rightarrow> 'v WorkerPool" where
  "new_task s fn p \<equiv> p\<lparr>tk_fn := (tk_fn p)(tk_fresh p := fn), tk_v := (tk_v p)(tk_fresh p := 0),
     tk_signature := (tk_signature p)(tk_fresh p := s), tk_done := (tk_done p)(tk_fresh p := False),
     tk_fresh := Suc (tk_fresh p)\<rparr>"

lemma tasks_ok_new_task:
  assumes inv: "pool_inv p"
  shows "tasks_ok (new_task s fn p)"
proof -
  have "tk_fresh p \<notin> set (wp_taken p)" using queue_ok_taken(1) [OF inv_queue [OF inv], of "tk_fresh p"] by auto
  then have "\<not> tk_done p (tk_fresh p)" "\<And>w. \<not> at_task (wp_worker p w) (tk_fresh p)"
    using inv_tasks [OF inv] unfolding tasks_ok_def by blast+
  moreover from this have "\<And>w. wp_worker p w \<noteq> WorkerClose (tk_fresh p)" by (auto simp: at_task_def)
  ultimately show ?thesis using inv_tasks [OF inv] unfolding tasks_ok_def by (auto simp: fun_upd_def)
qed

lemma pool_inv_resolve:
  assumes inv: "pool_inv p" and st: "Promise_Resolve c s fn u p = Some p'"
  shows "pool_inv p'"
proof (cases "wp_init p")
  case False
  then show ?thesis using st pool_inv_client [OF inv, of "ClientPanic NotInitialized" c] by (simp add: Promise_Resolve_def)
next
  case True
  let ?t = "tk_fresh p"
  let ?p1 = "(new_task s fn p)\<lparr>wp_taskMap := (wp_taskMap p)(s \<mapsto> ?t)\<rparr>"
  have qk: "om_good (tk_signature p) (wp_queue p)" "wp_taken p @ om_items (wp_queue p) = [0..<?t]"
    using inv_queue [OF inv] by (simp_all add: queue_ok_def)
  have "t \<noteq> ?t" if "t \<in> set (om_items (wp_queue p))" for t
    using queue_ok_taken(1) [OF inv_queue [OF inv], of t] that by auto
  then have "om_good (tk_signature ?p1) (wp_queue p)" by (intro om_good_cong [OF qk(1)]) simp
  from om_queue.put_law [OF this, of ?t] obtain q where q: "om_put (tk_signature ?p1) ?t (wp_queue p) = Some q"
    "om_good (tk_signature ?p1) q" "om_items q = om_items (wp_queue p) @ [?t]" "om_closed q = om_closed (wp_queue p)" by blast
  have sg: "wp_signal u (?p1\<lparr>wp_queue := q\<rparr>) = Some p'"
    using st True q(1) by (simp add: Promise_Resolve_def submit_def Let_def fun_upd_def)
  note f = wp_signal_frame [OF sg]
  have w1: "waits_ok ?p1" using inv_waits [OF inv] by (simp add: waits_ok_def)
  have "waits_ok p'" using w1 by (rule waits_ok_signal [OF _ sg]) (simp_all add: q)
  moreover have "queue_ok p'" using q qk(2) by (simp add: queue_ok_def f)
  moreover have "clients_ok p'"
  proof -
    have "wp_client p d \<noteq> Got ?t v" "wp_client p d \<noteq> Polled ?t (Some v)" for d v
      using inv_clients [OF inv] unfolding clients_ok_def by (metis less_irrefl)+
    then show ?thesis using inv_clients [OF inv] unfolding clients_ok_def f by (auto simp: less_Suc_eq)
  qed
  moreover have "unused p'" using True by (simp add: unused_def f)
  moreover have "tasks_ok p'"
  proof (rule tasks_ok_signal [OF _ _ sg])
    show "tasks_ok (?p1\<lparr>wp_queue := q\<rparr>)" using tasks_ok_new_task [OF inv, of s fn] by (simp add: tasks_ok_def)
  qed (use w1 in \<open>simp add: waits_ok_def\<close>)
  ultimately show ?thesis by (simp add: pool_inv_def)
qed

subsection \<open>Workers\<close>

lemma waits_ok_move:
  assumes w: "waits_ok p" and pc: "wp_worker p w \<notin> {WorkerOff, WorkerPoll, WorkerWait}" and q: "q \<notin> {WorkerWait, WorkerExit}"
  shows "waits_ok (p\<lparr>wp_worker := (wp_worker p)(w := q)\<rparr>)"
proof -
  have a: "active WorkerOff (wp_worker p)" using w by (simp add: waits_ok_def)
  have "num (\<lambda>pc. pc = WorkerPoll) (wp_worker p) \<le> num (\<lambda>pc. pc = WorkerPoll) ((wp_worker p)(w := q))"
    using a pc by (simp add: num_poll)
  then show ?thesis using w pc q unfolding waits_ok_def by (auto simp: active_move)
qed

lemma pool_inv_run:
  assumes inv: "pool_inv p" and w: "wp_worker p w = WorkerRun t"
  shows "pool_inv (p\<lparr>tk_v := (tk_v p)(t := tk_fn p t), wp_worker := (wp_worker p)(w := WorkerClose t)\<rparr>)"
proof -
  let ?p = "p\<lparr>tk_v := (tk_v p)(t := tk_fn p t), wp_worker := (wp_worker p)(w := WorkerClose t)\<rparr>"
  have at: "at_task (((wp_worker p)(w := WorkerClose t)) v) r = at_task (wp_worker p v) r" for v r using w by simp
  note tk = tasks_okD [OF inv_tasks [OF inv]]
  have "tasks_ok ?p"
  proof (rule tasks_okI)
    show "tk_v ?p r = tk_fn ?p r" if "wp_worker ?p v = WorkerClose r" for v r
      using tk(5) [of v r] that by (auto split: if_splits)
  qed (use tk(1-4,6) at in \<open>auto split: if_splits\<close>)
  moreover have "waits_ok ?p"
    using waits_ok_move [OF inv_waits [OF inv], of w "WorkerClose t"] w by (simp add: waits_ok_def)
  moreover have "wp_init p" using inv_unused [OF inv] w by (auto simp: unused_def)
  ultimately show ?thesis using inv by (simp add: pool_inv_def queue_ok_def clients_ok_def unused_def)
qed

lemma pool_inv_finish:
  assumes inv: "pool_inv p" and w: "wp_worker p w = WorkerClose t"
  shows "\<not> tk_done p t" and "pool_inv (p\<lparr>tk_done := (tk_done p)(t := True), wp_worker := (wp_worker p)(w := WorkerPoll)\<rparr>)"
proof -
  let ?p = "p\<lparr>tk_done := (tk_done p)(t := True), wp_worker := (wp_worker p)(w := WorkerPoll)\<rparr>"
  note tk = inv_tasks [OF inv]
  have me: "at_task (wp_worker p w) t" using w by simp
  then show nd: "\<not> tk_done p t" using tk unfolding tasks_ok_def by blast
  have only: "v = w" if "at_task (wp_worker p v) t" for v using tk me that unfolding tasks_ok_def by blast
  have "tasks_ok ?p"
  proof -
    have at': "at_task (wp_worker ?p v) r \<longleftrightarrow> at_task (wp_worker p v) r \<and> v \<noteq> w" for v r by simp
    show ?thesis
    proof (rule tasks_okI, unfold at')
      show "r \<in> set (wp_taken ?p) \<longleftrightarrow> tk_done ?p r \<or> (\<exists>v. at_task (wp_worker p v) r \<and> v \<noteq> w)" for r
        using tasks_taken [OF tk, of r] tasks_taken [OF tk, of t] me w by (auto simp: at_task_def)
      show "\<not> tk_done ?p r" if "at_task (wp_worker p v) r \<and> v \<noteq> w" for v r
        using that only tasks_undone [OF tk] by auto
      show "u = v" if "at_task (wp_worker p u) r \<and> u \<noteq> w" "at_task (wp_worker p v) r \<and> v \<noteq> w" for u v r
        using that tasks_once [OF tk] by blast
    qed (use tasks_value [OF tk] tasks_stored [OF tk] tasks_no_panic [OF tk] w in \<open>auto split: if_splits\<close>)
  qed
  moreover have "waits_ok ?p"
    using waits_ok_move [OF inv_waits [OF inv], of w WorkerPoll] w by (simp add: waits_ok_def)
  moreover have "wp_init p" using inv_unused [OF inv] w by (auto simp: unused_def)
  moreover have "clients_ok ?p" using inv_clients [OF inv] unfolding clients_ok_def by auto
  ultimately show "pool_inv ?p" using inv by (simp add: pool_inv_def queue_ok_def unused_def)
qed

lemma pool_inv_wait:
  assumes inv: "pool_inv p" and w: "wp_worker p w = WorkerPoll" and q: "om_items (wp_queue p) = []" "\<not> om_closed (wp_queue p)"
  shows "pool_inv (p\<lparr>wp_notEmpty := wp_notEmpty p @ [w], wp_worker := (wp_worker p)(w := WorkerWait)\<rparr>)"
proof -
  let ?p = "p\<lparr>wp_notEmpty := wp_notEmpty p @ [w], wp_worker := (wp_worker p)(w := WorkerWait)\<rparr>"
  note wt = inv_waits [OF inv]
  have "w \<notin> set (wp_notEmpty p)" using wt w by (simp add: waits_ok_def)
  moreover have "active WorkerOff ((wp_worker p)(w := WorkerWait))" using wt w by (simp add: waits_ok_def active_move)
  ultimately have "waits_ok ?p" using wt q unfolding waits_ok_def by simp
  moreover have "tasks_ok (p\<lparr>wp_worker := (wp_worker p)(w := WorkerWait)\<rparr>)"
    using tasks_ok_idle [OF inv_tasks [OF inv], of w WorkerWait] w by simp
  then have "tasks_ok ?p" by (rule tasks_ok_frame [THEN iffD2, rotated 5]) simp_all
  moreover have "wp_init p" using inv_unused [OF inv] w by (auto simp: unused_def)
  ultimately show ?thesis using inv by (simp add: pool_inv_def queue_ok_def clients_ok_def unused_def)
qed

lemma pool_inv_exit:
  assumes inv: "pool_inv p" and w: "wp_worker p w = WorkerPoll" and q: "om_closed (wp_queue p)"
  shows "pool_inv (p\<lparr>wp_worker := (wp_worker p)(w := WorkerExit)\<rparr>)"
proof -
  let ?p = "p\<lparr>wp_worker := (wp_worker p)(w := WorkerExit)\<rparr>"
  note wt = inv_waits [OF inv]
  have "wp_notEmpty p = []" using wt q by (auto simp: waits_ok_def)
  moreover have "active WorkerOff ((wp_worker p)(w := WorkerExit))" using wt w by (simp add: waits_ok_def active_move)
  ultimately have "waits_ok ?p" using wt q unfolding waits_ok_def by simp
  moreover have "tasks_ok ?p" using tasks_ok_idle [OF inv_tasks [OF inv], of w WorkerExit] w by simp
  moreover have "wp_init p" using inv_unused [OF inv] w by (auto simp: unused_def)
  ultimately show ?thesis using inv by (simp add: pool_inv_def queue_ok_def clients_ok_def unused_def)
qed

lemma pool_inv_take:
  assumes inv: "pool_inv p" and w: "wp_worker p w = WorkerPoll"
    and q: "om_good (tk_signature p) q" "om_items (wp_queue p) = t # om_items q" "om_closed q = om_closed (wp_queue p)"
  shows "pool_inv (p\<lparr>wp_queue := q, wp_worker := (wp_worker p)(w := WorkerRun t), wp_taken := wp_taken p @ [t]\<rparr>)"
proof -
  let ?p = "p\<lparr>wp_queue := q, wp_worker := (wp_worker p)(w := WorkerRun t), wp_taken := wp_taken p @ [t]\<rparr>"
  note tk = inv_tasks [OF inv] and wt = inv_waits [OF inv]
  have a: "active WorkerOff (wp_worker p)" using wt by (simp add: waits_ok_def)
  have "t \<notin> set (wp_taken p)" using queue_ok_taken(2) [OF inv_queue [OF inv], of t] q(2) by auto
  then have t: "\<not> tk_done p t" "\<not> at_task (wp_worker p v) t" for v using tasks_taken [OF tk, of t] by blast+
  have at: "at_task (wp_worker ?p v) r \<longleftrightarrow> (if v = w then r = t else at_task (wp_worker p v) r)" for v r by auto
  have wn: "\<not> at_task (wp_worker p w) r" for r using w by simp
  have "tasks_ok ?p"
  proof (rule tasks_okI, unfold at)
    show "r \<in> set (wp_taken ?p) \<longleftrightarrow> tk_done ?p r \<or> (\<exists>v. if v = w then r = t else at_task (wp_worker p v) r)" for r
      using tasks_taken [OF tk, of r] wn [of r] by auto
    show "u = v" if "if u = w then r = t else at_task (wp_worker p u) r" "if v = w then r = t else at_task (wp_worker p v) r" for u v r
      using that tasks_once [OF tk, of u r v] t(2) by (auto split: if_splits)
    show "\<not> tk_done ?p r" if "if v = w then r = t else at_task (wp_worker p v) r" for v r
      using that tasks_undone [OF tk, of v r] t(1) by (simp split: if_splits)
    show "tk_v ?p r = tk_fn ?p r" if "wp_worker ?p v = WorkerClose r" for v r
      using that tasks_stored [OF tk, of v r] by (simp split: if_splits)
    show "wp_worker ?p v \<noteq> WorkerPanic" for v using tasks_no_panic [OF tk, of v] by simp
    show "tk_v ?p r = tk_fn ?p r" if "tk_done ?p r" for r using that tasks_value [OF tk, of r] by simp
  qed
  moreover have "waits_ok ?p"
  proof -
    have "num (\<lambda>pc. pc = WorkerPoll) ((wp_worker p)(w := WorkerRun t)) = num (\<lambda>pc. pc = WorkerPoll) (wp_worker p) - 1"
      using a w by (simp add: num_poll)
    moreover have "active WorkerOff ((wp_worker p)(w := WorkerRun t))" using a w by (simp add: active_move)
    ultimately show ?thesis using wt w q unfolding waits_ok_def by auto
  qed
  moreover have "queue_ok ?p" using inv_queue [OF inv] q by (simp add: queue_ok_def)
  moreover have "wp_init p" using inv_unused [OF inv] w by (auto simp: unused_def)
  ultimately show ?thesis using inv_clients [OF inv] by (simp add: pool_inv_def clients_ok_def unused_def)
qed

lemma pool_inv_poll:
  assumes inv: "pool_inv p" and w: "wp_worker p w = WorkerPoll" and st: "worker_step w p = Some p'"
  shows "pool_inv p'"
proof -
  have "om_good (tk_signature p) (wp_queue p)" using inv_queue [OF inv] by (simp add: queue_ok_def)
  then show ?thesis
  proof (cases rule: om_queue.poll_total)
    case wait
    then show ?thesis using st w pool_inv_wait [OF inv w] by (simp add: worker_step_def)
  next
    case drained
    then show ?thesis using st w pool_inv_exit [OF inv w] by (simp add: worker_step_def)
  next
    case (task q t)
    then show ?thesis using st w pool_inv_take [OF inv w, of q t] by (simp add: worker_step_def)
  qed
qed

lemma pool_inv_step:
  assumes inv: "pool_inv p" and st: "pool_step a p = Some p'"
  shows "pool_inv p'"
proof (cases a)
  case (Worker w)
  show ?thesis
  proof (cases "wp_worker p w")
    case WorkerPoll
    then show ?thesis using pool_inv_poll [OF inv WorkerPoll] st Worker by simp
  next
    case (WorkerRun t)
    then show ?thesis using pool_inv_run [OF inv WorkerRun] st Worker by (simp add: worker_step_def)
  next
    case (WorkerClose t)
    then show ?thesis using pool_inv_finish [OF inv WorkerClose] st Worker by (simp add: worker_step_def)
  qed (use st Worker in \<open>simp_all add: worker_step_def\<close>)
next
  case (ClientReturn c)
  then show ?thesis using st pool_inv_client [OF inv, of ClientIdle c] by (auto split: client_pc.splits)
qed (use st inv in \<open>auto intro: pool_inv_new pool_inv_resolve pool_inv_lookup pool_inv_select pool_inv_cancel pool_inv_closer
  split: if_splits\<close>)

interpretation worker_pool: machine "\<lambda>p. p = pool_nil" pool_step pool_inv
proof
  show "pool_inv p" if "p = pool_nil" for p
    using om_good_new om_items_new [where 'r = nat]
    by (simp add: that pool_inv_def pool_nil_def queue_ok_def tasks_ok_def waits_ok_def clients_ok_def unused_def om_closed_new)
  show "pool_inv p'" if "pool_inv p" and "pool_step a p = Some p'" for p a p'
    using pool_inv_step that .
qed

section \<open>One worker alone\<close>

text \<open>A worker that runs alone finishes the queued tasks, in three steps each.\<close>

lemma worker_one:
  assumes inv: "pool_inv p" and w: "wp_worker p w = WorkerPoll" and q: "om_items (wp_queue p) = t # ts"
  shows "\<exists>p'. run pool_step [Worker w, Worker w, Worker w] p = Some p' \<and> pool_inv p' \<and> wp_worker p' w = WorkerPoll
    \<and> om_items (wp_queue p') = ts \<and> (\<forall>r. tk_done p' r \<longleftrightarrow> r = t \<or> tk_done p r) \<and> wp_client p' = wp_client p
    \<and> wp_taskMap p' = wp_taskMap p \<and> tk_fn p' = tk_fn p \<and> wp_init p' = wp_init p
    \<and> om_closed (wp_queue p') = om_closed (wp_queue p)"
proof -
  have g: "om_good (tk_signature p) (wp_queue p)" using inv_queue [OF inv] by (simp add: queue_ok_def)
  obtain q' where q': "om_pollWait (tk_signature p) (wp_queue p) = Some (q', Task t)" "om_items q' = ts"
    "om_closed q' = om_closed (wp_queue p)"
    using om_queue.poll_task [OF g q] by blast
  let ?p1 = "p\<lparr>wp_queue := q', wp_worker := (wp_worker p)(w := WorkerRun t), wp_taken := wp_taken p @ [t]\<rparr>"
  have s1: "pool_step (Worker w) p = Some ?p1" using w q' by (simp add: worker_step_def)
  let ?p2 = "?p1\<lparr>tk_v := (tk_v p)(t := tk_fn p t), wp_worker := (wp_worker p)(w := WorkerClose t)\<rparr>"
  have s2: "pool_step (Worker w) ?p1 = Some ?p2" by (simp add: worker_step_def)
  have i1: "pool_inv ?p1" using pool_inv_step [OF inv s1] .
  have i2: "pool_inv ?p2" using pool_inv_step [OF i1 s2] .
  have nd: "\<not> tk_done ?p2 t" by (rule pool_inv_finish(1) [OF i2, of w]) simp
  let ?p3 = "?p2\<lparr>tk_done := (tk_done p)(t := True), wp_worker := (wp_worker p)(w := WorkerPoll)\<rparr>"
  have s3: "pool_step (Worker w) ?p2 = Some ?p3" using nd by (simp add: worker_step_def)
  have "run pool_step [Worker w, Worker w, Worker w] p = Some ?p3"
    using s1 s2 s3 by (simp del: pool_step.simps)
  moreover have "pool_inv ?p3" using pool_inv_step [OF i2 s3] .
  ultimately show ?thesis using q'(2,3) by (intro exI [of _ ?p3]) auto
qed

lemma worker_alone:
  assumes "pool_inv p" and "wp_worker p w = WorkerPoll"
  shows "\<exists>p'. run pool_step (replicate (3 * length (om_items (wp_queue p))) (Worker w)) p = Some p'
    \<and> om_items (wp_queue p') = [] \<and> (\<forall>r \<in> set (om_items (wp_queue p)). tk_done p' r) \<and> (\<forall>r. tk_done p r \<longrightarrow> tk_done p' r)
    \<and> wp_client p' = wp_client p \<and> wp_taskMap p' = wp_taskMap p \<and> tk_fn p' = tk_fn p \<and> wp_init p' = wp_init p \<and> pool_inv p'
    \<and> wp_worker p' w = WorkerPoll \<and> om_closed (wp_queue p') = om_closed (wp_queue p)"
  using assms
proof (induction "om_items (wp_queue p)" arbitrary: p)
  case Nil
  then show ?case by simp
next
  case (Cons t ts)
  obtain p1 where p1: "run pool_step [Worker w, Worker w, Worker w] p = Some p1" "pool_inv p1" "wp_worker p1 w = WorkerPoll"
    "om_items (wp_queue p1) = ts" "\<forall>r. tk_done p1 r \<longleftrightarrow> r = t \<or> tk_done p r" "wp_client p1 = wp_client p"
    "wp_taskMap p1 = wp_taskMap p" "tk_fn p1 = tk_fn p" "wp_init p1 = wp_init p" "om_closed (wp_queue p1) = om_closed (wp_queue p)"
    using worker_one [OF Cons.prems Cons.hyps(2) [symmetric]] by blast
  have "replicate (3 * length (om_items (wp_queue p))) (Worker w)
      = [Worker w, Worker w, Worker w] @ replicate (3 * length ts) (Worker w)"
    using Cons.hyps(2) [symmetric] by (simp add: replicate_add eval_nat_numeral)
  then have "run pool_step (replicate (3 * length (om_items (wp_queue p))) (Worker w)) p
      = run pool_step (replicate (3 * length ts) (Worker w)) p1"
    using run_append_Some [OF p1(1)] by metis
  then show ?case
    using Cons.hyps(1) [OF p1(4) [symmetric] p1(2,3)] Cons.hyps(2) [symmetric] p1(4-10) by auto
qed

text \<open>Once the queue is closed, the worker then leaves its loop.\<close>

lemma worker_drains:
  assumes "pool_inv p" and "wp_worker p w = WorkerPoll" and "om_closed (wp_queue p)"
  shows "\<exists>p'. run pool_step (replicate (3 * length (om_items (wp_queue p))) (Worker w) @ [Worker w]) p = Some p'
    \<and> wp_worker p' w = WorkerExit \<and> om_items (wp_queue p') = [] \<and> (\<forall>r \<in> set (om_items (wp_queue p)). tk_done p' r)"
proof -
  obtain p1 where r: "run pool_step (replicate (3 * length (om_items (wp_queue p))) (Worker w)) p = Some p1"
    and q: "om_items (wp_queue p1) = []" and d: "\<forall>r \<in> set (om_items (wp_queue p)). tk_done p1 r"
    and i: "pool_inv p1" and w: "wp_worker p1 w = WorkerPoll" and c: "om_closed (wp_queue p1) = om_closed (wp_queue p)"
    using worker_alone [OF assms(1,2)] by blast
  have g: "om_good (tk_signature p1) (wp_queue p1)" using inv_queue [OF i] by (simp add: queue_ok_def)
  have "pool_step (Worker w) p1 = Some (p1\<lparr>wp_worker := (wp_worker p1)(w := WorkerExit)\<rparr>)"
    using om_queue.poll_empty [OF g q] w c assms(3) by (simp add: worker_step_def)
  then show ?thesis using run_append_Some [OF r, of "[Worker w]"] q d by simp
qed

section \<open>The theorems\<close>



text \<open>No wake-up of a worker is lost: as long as the queue is open and the pool has a worker, an
  unfinished task is queued while a worker is about to take the head of the queue, or some worker is at a
  task; so the workers never all wait while there is work.\<close>

theorem worker_pool_progress:
  assumes "run pool_step as pool_nil = Some p" and "wp_worker p w \<noteq> WorkerOff" and "\<not> om_closed (wp_queue p)"
    and "t < tk_fresh p" and "\<not> tk_done p t"
  shows "(\<exists>v r. at_task (wp_worker p v) r) \<or> (om_items (wp_queue p) \<noteq> [] \<and> (\<exists>v. wp_worker p v = WorkerPoll))"
proof (cases "t \<in> set (wp_taken p)")
  case True
  have "pool_inv p" using worker_pool.invariant [OF refl assms(1)] .
  then show ?thesis using tasks_taken [OF inv_tasks, of p t] True assms(5) by blast
next
  case False
  have inv: "pool_inv p" using worker_pool.invariant [OF refl assms(1)] .
  note wt = inv_waits [OF inv]
  have it: "om_items (wp_queue p) \<noteq> []" using queue_ok_taken(1) [OF inv_queue [OF inv], of t] False assms(4) by auto
  show ?thesis
  proof (cases "wp_notEmpty p = []")
    case True
    then have "wp_worker p w \<noteq> WorkerWait" "wp_worker p w \<noteq> WorkerExit" using wt assms(3) by (auto simp: waits_ok_def)
    then show ?thesis using it assms(2) tasks_no_panic [OF inv_tasks [OF inv], of w]
      by (cases "wp_worker p w") (auto simp: at_task_def)
  next
    case False
    then have "0 < num (\<lambda>pc. pc = WorkerPoll) (wp_worker p)" using wt it by (cases "om_items (wp_queue p)") (auto simp: waits_ok_def)
    then show ?thesis using it num_posD by blast
  qed
qed

lemma worker_pool_progress_witness:
  "\<exists>p. run pool_step [CallNewWorkerPool 1, Worker 0, CallResolve 5 ''a'' 7 0] (pool_nil :: int WorkerPool) = Some p
     \<and> ((\<exists>v r. at_task (wp_worker p v) r) \<or> (om_items (wp_queue p) \<noteq> [] \<and> (\<exists>v. wp_worker p v = WorkerPoll)))"
proof -
  obtain p where r: "run pool_step [CallNewWorkerPool 1, Worker 0, CallResolve 5 ''a'' 7 0] (pool_nil :: int WorkerPool) = Some p"
    and c: "wp_worker p 0 \<noteq> WorkerOff" "\<not> om_closed (wp_queue p)" "0 < tk_fresh p" "\<not> tk_done p 0"
    by (simp add: pool_nil_def NewWorkerPool_def Promise_Resolve_def submit_def om_put_def Let_def newOrderedMap_def
        wp_signal_def worker_step_def om_pollWait_def max_goroutines_def)
  show ?thesis using worker_pool_progress [OF r c] r by blast
qed

end
