(* ===== verification/Once.thy ===== *)
theory Once
  imports Prelude
begin

text \<open>
  \<^verbatim>\<open>Once\<close>, \<^verbatim>\<open>OnceCell\<close> and \<^verbatim>\<open>OnceCells\<close> of \<^verbatim>\<open>syncx/once.go\<close>. The cell's value is of
  any type, for \<^verbatim>\<open>OnceCells\<close> a pair; a \<^verbatim>\<open>Once\<close> is a cell whose value nobody reads. A call brings its
  function with it, as what it does when it is called: return a value, or panic. Deferred calls run in
  reverse order also when the function panics. The auxiliary field \<open>once_ran\<close> lists the functions that
  were called. A function that calls \<^verbatim>\<open>Do\<close> on the same \<^verbatim>\<open>Once\<close> blocks for ever on \<^verbatim>\<open>mu\<close>,
  as the type's users must know; it has no counterpart here.
\<close>

section \<open>The code\<close>

datatype 'v outcome = Returns 'v | Panics

datatype 'v once_pc =
    OnceIdle
  | OnceLoad "'v outcome"    \<comment> \<open>\<open>old := o.state.Load()\<close>\<close>
  | OnceLock "'v outcome"    \<comment> \<open>\<open>o.mu.Lock()\<close>\<close>
  | OnceCheck "'v outcome"   \<comment> \<open>\<open>!o.state.Load()\<close>\<close>
  | OnceRun "'v outcome"     \<comment> \<open>\<open>f()\<close>\<close>
  | OnceStore bool           \<comment> \<open>deferred \<open>o.state.Store(true)\<close>, and whether \<open>f\<close> panicked\<close>
  | OnceUnlock bool          \<comment> \<open>deferred \<open>o.mu.Unlock()\<close>\<close>
  | OnceRead                 \<comment> \<open>\<open>return o.v\<close>\<close>
  | OnceOut 'v               \<comment> \<open>returned\<close>
  | OncePanicked             \<comment> \<open>the panic of \<open>f\<close> goes on in its caller\<close>

record 'v OnceCell =
  once_state :: bool
  once_mu :: "tid option"
  once_v :: 'v
  once_pc :: "tid \<Rightarrow> 'v once_pc"
  once_ran :: "'v outcome list"

definition OnceCell_zero :: "'v::zero OnceCell" where
  "OnceCell_zero = \<lparr>once_state = False, once_mu = None, once_v = 0, once_pc = (\<lambda>_. OnceIdle), once_ran = []\<rparr>"

abbreviation once_goto :: "tid \<Rightarrow> 'v once_pc \<Rightarrow> 'v OnceCell \<Rightarrow> 'v OnceCell" where
  "once_goto t p s \<equiv> s\<lparr>once_pc := (once_pc s)(t := p)\<rparr>"

definition Once_Do_step :: "tid \<Rightarrow> 'v OnceCell \<Rightarrow> 'v OnceCell option" where
  "Once_Do_step t s =
     (case once_pc s t of
        OnceLoad f \<Rightarrow> Some (once_goto t (if once_state s then OnceRead else OnceLock f) s)
      | OnceLock f \<Rightarrow>
          (if once_mu s = None then Some (s\<lparr>once_mu := Some t, once_pc := (once_pc s)(t := OnceCheck f)\<rparr>) else None)
      | OnceCheck f \<Rightarrow> Some (once_goto t (if once_state s then OnceUnlock False else OnceRun f) s)
      | OnceRun f \<Rightarrow>
          (case f of
             Returns v \<Rightarrow> Some (s\<lparr>once_v := v, once_ran := once_ran s @ [f], once_pc := (once_pc s)(t := OnceStore False)\<rparr>)
           | Panics \<Rightarrow> Some (s\<lparr>once_ran := once_ran s @ [f], once_pc := (once_pc s)(t := OnceStore True)\<rparr>))
      | OnceStore b \<Rightarrow> Some (s\<lparr>once_state := True, once_pc := (once_pc s)(t := OnceUnlock b)\<rparr>)
      | OnceUnlock b \<Rightarrow>
          Some (s\<lparr>once_mu := None, once_pc := (once_pc s)(t := if b then OncePanicked else OnceRead)\<rparr>)
      | _ \<Rightarrow> None)"

definition OnceCell_Do_step :: "tid \<Rightarrow> 'v OnceCell \<Rightarrow> 'v OnceCell option" where
  "OnceCell_Do_step t s =
     (if once_pc s t = OnceRead then Some (once_goto t (OnceOut (once_v s)) s) else Once_Do_step t s)"

text \<open>\<^verbatim>\<open>OnceCells\<close> keeps two values of different types; the zero value of the pair is the pair of the
  zero values.\<close>

instantiation prod :: (zero, zero) zero
begin

definition zero_prod_def: "0 = (0, 0)"

instance ..

end

type_synonym ('t, 'k) OnceCells = "('t \<times> 'k) OnceCell"

definition OnceCells_Do_step :: "tid \<Rightarrow> ('t::zero, 'k::zero) OnceCells \<Rightarrow> ('t, 'k) OnceCells option" where
  "OnceCells_Do_step t s =
     (if once_pc s t = OnceRead then Some (once_goto t (OnceOut (fst (once_v s), snd (once_v s))) s) else Once_Do_step t s)"

lemma OnceCells_Do_step: "OnceCells_Do_step t s = OnceCell_Do_step t s"
  by (simp add: OnceCells_Do_step_def OnceCell_Do_step_def)

datatype 'v once_act = CallDo tid "'v outcome" | OnceStep tid | OnceReturn tid

fun once_step :: "'v once_act \<Rightarrow> 'v OnceCell \<Rightarrow> 'v OnceCell option" where
  "once_step (CallDo t f) s = (if once_pc s t = OnceIdle then Some (once_goto t (OnceLoad f) s) else None)"
| "once_step (OnceStep t) s = OnceCell_Do_step t s"
| "once_step (OnceReturn t) s =
     (case once_pc s t of OnceOut v \<Rightarrow> Some (once_goto t OnceIdle s) | _ \<Rightarrow> None)"

section \<open>The invariant\<close>

text \<open>The places where a goroutine holds \<^verbatim>\<open>mu\<close>.\<close>

fun once_holds :: "'v once_pc \<Rightarrow> bool" where
  "once_holds (OnceCheck f) = True"
| "once_holds (OnceRun f) = True"
| "once_holds (OnceStore b) = True"
| "once_holds (OnceUnlock b) = True"
| "once_holds _ = False"

text \<open>What the one call of a function left in the cell.\<close>

definition once_result :: "'v::zero outcome \<Rightarrow> 'v" where
  "once_result f = (case f of Returns v \<Rightarrow> v | Panics \<Rightarrow> 0)"

text \<open>What holds at each place, given the state.\<close>

fun once_at :: "bool \<Rightarrow> 'v::zero outcome list \<Rightarrow> 'v once_pc \<Rightarrow> bool" where
  "once_at st fs (OnceRun f) \<longleftrightarrow> \<not> st \<and> fs = []"
| "once_at st fs (OnceCheck f) \<longleftrightarrow> (st \<longleftrightarrow> fs \<noteq> [])"
| "once_at st fs (OnceStore b) \<longleftrightarrow> \<not> st \<and> (\<exists>f. fs = [f] \<and> b = (f = Panics))"
| "once_at st fs (OnceUnlock b) \<longleftrightarrow> st \<and> (b \<longrightarrow> fs = [Panics])"
| "once_at st fs OnceRead \<longleftrightarrow> st"
| "once_at st fs (OnceOut v) \<longleftrightarrow> st \<and> (\<exists>f. fs = [f] \<and> v = once_result f)"
| "once_at st fs OncePanicked \<longleftrightarrow> fs = [Panics]"
| "once_at st fs _ \<longleftrightarrow> True"

definition once_inv :: "'v::zero OnceCell \<Rightarrow> bool" where
  "once_inv s \<longleftrightarrow> (\<forall>t. once_holds (once_pc s t) \<longleftrightarrow> once_mu s = Some t)
     \<and> (\<forall>t. once_at (once_state s) (once_ran s) (once_pc s t))
     \<and> (once_ran s = [] \<and> once_v s = 0 \<or> (\<exists>f. once_ran s = [f] \<and> once_v s = once_result f))
     \<and> (once_state s \<longrightarrow> once_ran s \<noteq> [])
     \<and> (\<not> once_state s \<longrightarrow> once_ran s \<noteq> [] \<longrightarrow> (\<exists>t b. once_pc s t = OnceStore b))"

lemma once_invD:
  assumes "once_inv s"
  shows once_owner: "once_holds (once_pc s t) \<longleftrightarrow> once_mu s = Some t"
    and once_place: "once_at (once_state s) (once_ran s) (once_pc s t)"
    and once_value: "once_ran s = [] \<and> once_v s = 0 \<or> (\<exists>f. once_ran s = [f] \<and> once_v s = once_result f)"
    and once_set: "once_state s \<Longrightarrow> once_ran s \<noteq> []"
    and once_pending: "\<not> once_state s \<Longrightarrow> once_ran s \<noteq> [] \<Longrightarrow> \<exists>t b. once_pc s t = OnceStore b"
  using assms unfolding once_inv_def by blast+

lemma once_at_other:
  "\<not> once_holds p \<Longrightarrow> once_at st fs p \<Longrightarrow> (st \<longrightarrow> st') \<Longrightarrow> fs' = fs \<or> fs = [] \<Longrightarrow> once_at st' fs' p"
  by (cases p) auto

text \<open>A step outside \<^verbatim>\<open>mu\<close>, and a step with it, where only \<open>t\<close> has to be looked at.\<close>

lemma once_inv_outside:
  assumes inv: "once_inv s" and "\<not> once_holds (once_pc s t)" "\<not> once_holds p" "once_at (once_state s) (once_ran s) p"
  shows "once_inv (once_goto t p s)"
proof -
  have "\<exists>u b. ((once_pc s)(t := p)) u = OnceStore b" if p: "\<not> once_state s" "once_ran s \<noteq> []"
  proof -
    obtain u b where u: "once_pc s u = OnceStore b" using once_pending [OF inv p] by blast
    then have "u \<noteq> t" using assms(2) by auto
    then show ?thesis using u by auto
  qed
  moreover have "once_holds (((once_pc s)(t := p)) u) \<longleftrightarrow> once_mu s = Some u" for u
    using once_owner [OF inv, of u] assms(2,3) by auto
  ultimately show ?thesis
    using once_place [OF inv] once_value [OF inv] once_set [OF inv] assms(4) unfolding once_inv_def by simp
qed

lemma once_inv_inside:
  assumes inv: "once_inv s" and mu: "once_mu s = None \<or> once_mu s = Some t"
    and s': "once_pc s' = (once_pc s)(t := p)" "once_mu s' = (if once_holds p then Some t else None)"
    and st: "once_state s \<Longrightarrow> once_state s'" and fs: "once_ran s' = once_ran s \<or> once_ran s = []"
    and at: "once_at (once_state s') (once_ran s') p"
    and val: "once_ran s' = [] \<and> once_v s' = 0 \<or> (\<exists>f. once_ran s' = [f] \<and> once_v s' = once_result f)"
    and set: "once_state s' \<Longrightarrow> once_ran s' \<noteq> []"
    and pend: "\<not> once_state s' \<Longrightarrow> once_ran s' \<noteq> [] \<Longrightarrow> \<exists>b. p = OnceStore b"
  shows "once_inv s'"
proof -
  have other: "\<not> once_holds (once_pc s u)" if "u \<noteq> t" for u
    using once_owner [OF inv, of u] mu that by auto
  then have "once_at (once_state s') (once_ran s') (once_pc s' u)" for u
    using once_at_other [OF _ once_place [OF inv, of u], of "once_state s'" "once_ran s'"] st fs at s'(1) by (cases "u = t") auto
  then show ?thesis using val set pend other s' unfolding once_inv_def by auto
qed

text \<open>Nobody but the owner of \<^verbatim>\<open>mu\<close> is at the deferred store.\<close>

lemma once_store_owner: "once_inv s \<Longrightarrow> once_pc s u = OnceStore b \<Longrightarrow> once_mu s = Some u"
  using once_owner [of s u] by simp

lemma once_state_ran: "once_inv s \<Longrightarrow> (\<And>u b. once_pc s u \<noteq> OnceStore b) \<Longrightarrow> once_state s \<longleftrightarrow> once_ran s \<noteq> []"
  using once_set once_pending by blast

lemma once_inv_step:
  assumes inv: "once_inv s" and st: "once_step a s = Some s'"
  shows "once_inv s'"
proof (cases a)
  case (CallDo t f)
  then show ?thesis using st once_inv_outside [OF inv, of t "OnceLoad f"] by (auto split: if_splits)
next
  case (OnceReturn t)
  then show ?thesis using st once_inv_outside [OF inv, of t OnceIdle] by (auto split: once_pc.splits)
next
  case (OnceStep t)
  note at = once_place [OF inv, of t] and own = once_owner [OF inv, of t] and val = once_value [OF inv]
  note inside = once_inv_inside [OF inv, of t s']
  show ?thesis
  proof (cases "once_pc s t")
    case (OnceLoad f)
    then show ?thesis using st OnceStep once_inv_outside [OF inv, of t]
      by (auto simp: OnceCell_Do_step_def Once_Do_step_def)
  next
    case (OnceLock f)
    have m: "once_mu s = None" and s': "s' = s\<lparr>once_mu := Some t, once_pc := (once_pc s)(t := OnceCheck f)\<rparr>"
      using st OnceStep OnceLock by (auto simp: OnceCell_Do_step_def Once_Do_step_def split: if_splits)
    then have "once_state s \<longleftrightarrow> once_ran s \<noteq> []" using once_state_ran [OF inv] once_store_owner [OF inv] by fastforce
    then show ?thesis using val m by (intro inside) (auto simp: s')
  next
    case (OnceCheck f)
    then show ?thesis using st OnceStep at own val
      by (intro inside [of "if once_state s then OnceUnlock False else OnceRun f"])
        (auto simp: OnceCell_Do_step_def Once_Do_step_def)
  next
    case (OnceRun f)
    have "s' = s\<lparr>once_v := (case f of Returns v \<Rightarrow> v | Panics \<Rightarrow> once_v s), once_ran := once_ran s @ [f],
        once_pc := (once_pc s)(t := OnceStore (f = Panics))\<rparr>"
      using st OnceStep OnceRun by (cases f) (auto simp: OnceCell_Do_step_def Once_Do_step_def)
    then show ?thesis using OnceRun at own val
      by (intro inside [of "OnceStore (f = Panics)"]) (auto simp: once_result_def split: outcome.splits)
  next
    case (OnceStore b)
    then show ?thesis using st OnceStep at own val
      by (intro inside [of "OnceUnlock b"]) (auto simp: OnceCell_Do_step_def Once_Do_step_def)
  next
    case (OnceUnlock b)
    then show ?thesis using st OnceStep at own val once_set [OF inv]
      by (intro inside [of "if b then OncePanicked else OnceRead"]) (auto simp: OnceCell_Do_step_def Once_Do_step_def)
  next
    case OnceRead
    then show ?thesis using st OnceStep at val once_set [OF inv] once_inv_outside [OF inv, of t "OnceOut (once_v s)"]
      by (auto simp: OnceCell_Do_step_def)
  qed (use st OnceStep in \<open>simp_all add: OnceCell_Do_step_def Once_Do_step_def\<close>)
qed

interpretation once: machine "\<lambda>s. s = OnceCell_zero" once_step once_inv
proof
  show "once_inv s" if "s = OnceCell_zero" for s :: "'v::zero OnceCell"
    by (simp add: that once_inv_def OnceCell_zero_def)
  show "once_inv s'" if "once_inv s" and "once_step a s = Some s'" for s a and s' :: "'v::zero OnceCell"
    using once_inv_step that .
qed

section \<open>The theorem\<close>

text \<open>C26: \<^verbatim>\<open>Once\<close> and its cells, under every interleaving of calls that bring their own functions: at
  most one function is ever called; a call that returns does so after that function has returned or
  panicked, with its value in the first case and the zero value in the second; the panic itself reaches
  only the caller whose function it was; and while a call is blocked on the mutex, the goroutine that holds
  it can go on.\<close>

theorem once_correct:
  assumes "run once_step as OnceCell_zero = Some s"
  shows "length (once_ran s) \<le> 1
    \<and> (once_pc s t = OnceOut v \<longrightarrow> once_ran s = [Returns v] \<or> once_ran s = [Panics] \<and> v = 0)
    \<and> (once_pc s t = OncePanicked \<longrightarrow> once_ran s = [Panics])
    \<and> (once_pc s t = OnceLock f \<longrightarrow> once_step (OnceStep t) s = None \<longrightarrow>
         (\<exists>u. once_mu s = Some u \<and> once_step (OnceStep u) s \<noteq> None))"
proof -
  have inv: "once_inv s" using once.invariant [OF refl assms] .
  have "\<exists>u. once_mu s = Some u \<and> once_step (OnceStep u) s \<noteq> None"
    if l: "once_pc s t = OnceLock f" "once_step (OnceStep t) s = None"
  proof -
    obtain u where u: "once_mu s = Some u" using l by (auto simp: OnceCell_Do_step_def Once_Do_step_def split: if_splits)
    then have "once_holds (once_pc s u)" using once_owner [OF inv, of u] by simp
    then have "once_step (OnceStep u) s \<noteq> None"
      by (cases "once_pc s u") (auto simp: OnceCell_Do_step_def Once_Do_step_def split: outcome.splits)
    then show ?thesis using u by blast
  qed
  moreover have "once_ran s = [Returns v] \<or> once_ran s = [Panics] \<and> v = 0" if out: "once_pc s t = OnceOut v"
  proof -
    obtain f where "once_ran s = [f]" "v = once_result f" using once_place [OF inv, of t] out by auto
    then show ?thesis by (cases f) (simp_all add: once_result_def)
  qed
  moreover have "length (once_ran s) \<le> 1" using once_value [OF inv] by auto
  moreover have "once_ran s = [Panics]" if "once_pc s t = OncePanicked" using once_place [OF inv, of t] that by simp
  ultimately show ?thesis by blast
qed

text \<open>A panic in the first function of a pair of cells: the next caller gets two zero values.\<close>

lemma once_cells_after_panic:
  "\<exists>s. run once_step [CallDo 1 Panics, OnceStep 1, OnceStep 1, OnceStep 1, OnceStep 1, OnceStep 1, OnceStep 1,
       CallDo 2 (Returns (3, 4)), OnceStep 2, OnceStep 2] (OnceCell_zero :: (int, nat) OnceCells) = Some s
     \<and> once_pc s 1 = OncePanicked \<and> once_pc s 2 = OnceOut (0, 0)"
  by (simp add: OnceCell_zero_def OnceCell_Do_step_def Once_Do_step_def zero_prod_def)

lemma once_witness:
  "\<exists>s. run once_step [CallDo 1 (Returns 7), CallDo 2 (Returns 9), OnceStep 1, OnceStep 2, OnceStep 1, OnceStep 1, OnceStep 1,
       OnceStep 1, OnceStep 1, OnceStep 2, OnceStep 2, OnceStep 2, OnceStep 2] (OnceCell_zero :: int OnceCell) = Some s
     \<and> once_pc s 2 = OnceOut 7 \<and> (once_ran s = [Returns 7] \<or> once_ran s = [Panics] \<and> (7 :: int) = 0)"
proof -
  obtain s where r: "run once_step [CallDo 1 (Returns 7), CallDo 2 (Returns 9), OnceStep 1, OnceStep 2, OnceStep 1, OnceStep 1,
      OnceStep 1, OnceStep 1, OnceStep 1, OnceStep 2, OnceStep 2, OnceStep 2, OnceStep 2] (OnceCell_zero :: int OnceCell) = Some s"
    and p: "once_pc s 2 = OnceOut 7"
    by (simp add: OnceCell_zero_def OnceCell_Do_step_def Once_Do_step_def)
  show ?thesis using once_correct [OF r, of 2 7] r p by blast
qed

end
