(* ===== verification/Demo_Future.thy ===== *)
theory Demo_Future
  imports Prelude
begin

text \<open>
  \<^verbatim>\<open>DemoFuture\<close> of \<^verbatim>\<open>syncx/future_demo.go\<close>: the goroutine that \<^verbatim>\<open>NewDemoFuture\<close> starts
  and any number of callers of \<^verbatim>\<open>Get\<close>. What \<^verbatim>\<open>fn\<close> returns is an argument of the constructor.
\<close>

section \<open>The code\<close>

datatype df_worker = DfRun | DfStore | DfClose | DfDone

datatype ('v, 'e) df_pc =
    DfIdle
  | DfLoad            \<comment> \<open>\<open>!f.state.Load()\<close>\<close>
  | DfRecv            \<comment> \<open>\<open><-f.notify\<close>\<close>
  | DfRead            \<comment> \<open>\<open>return f.v, f.err\<close>\<close>
  | DfGot 'v 'e

record ('v, 'e) DemoFuture =
  df_fn :: "'v \<times> 'e"
  df_v :: 'v
  df_err :: 'e
  df_state :: bool
  df_notify :: bool   \<comment> \<open>the channel is closed\<close>
  df_worker :: df_worker
  df_pc :: "tid \<Rightarrow> ('v, 'e) df_pc"

definition NewDemoFuture :: "'v::zero \<times> 'e::zero \<Rightarrow> ('v, 'e) DemoFuture" where
  "NewDemoFuture fn = \<lparr>df_fn = fn, df_v = 0, df_err = 0, df_state = False, df_notify = False, df_worker = DfRun,
     df_pc = (\<lambda>_. DfIdle)\<rparr>"

definition df_worker_step :: "('v, 'e) DemoFuture \<Rightarrow> ('v, 'e) DemoFuture option" where
  "df_worker_step s =
     (case df_worker s of
        DfRun \<Rightarrow> Some (s\<lparr>df_v := fst (df_fn s), df_err := snd (df_fn s), df_worker := DfStore\<rparr>)
      | DfStore \<Rightarrow> Some (s\<lparr>df_state := True, df_worker := DfClose\<rparr>)
      | DfClose \<Rightarrow> Some (s\<lparr>df_notify := True, df_worker := DfDone\<rparr>)
      | DfDone \<Rightarrow> None)"

definition df_Get_step :: "tid \<Rightarrow> ('v, 'e) DemoFuture \<Rightarrow> ('v, 'e) DemoFuture option" where
  "df_Get_step t s =
     (case df_pc s t of
        DfLoad \<Rightarrow> Some (s\<lparr>df_pc := (df_pc s)(t := if df_state s then DfRead else DfRecv)\<rparr>)
      | DfRecv \<Rightarrow> if df_notify s then Some (s\<lparr>df_pc := (df_pc s)(t := DfRead)\<rparr>) else None
      | DfRead \<Rightarrow> Some (s\<lparr>df_pc := (df_pc s)(t := DfGot (df_v s) (df_err s))\<rparr>)
      | _ \<Rightarrow> None)"

datatype df_act = DfCallGet tid | DfStep tid | DfWorker

fun df_step :: "df_act \<Rightarrow> ('v, 'e) DemoFuture \<Rightarrow> ('v, 'e) DemoFuture option" where
  "df_step (DfCallGet t) s = (if df_pc s t = DfIdle then Some (s\<lparr>df_pc := (df_pc s)(t := DfLoad)\<rparr>) else None)"
| "df_step (DfStep t) s = df_Get_step t s"
| "df_step DfWorker s = df_worker_step s"

section \<open>The invariant\<close>

text \<open>The flag and the channel follow the worker, and whoever has passed one of them finds the result.\<close>

definition df_inv :: "'v \<times> 'e \<Rightarrow> ('v, 'e) DemoFuture \<Rightarrow> bool" where
  "df_inv fn s \<longleftrightarrow> df_fn s = fn \<and> (df_worker s \<noteq> DfRun \<longrightarrow> df_v s = fst fn \<and> df_err s = snd fn)
     \<and> (df_state s \<longleftrightarrow> df_worker s = DfClose \<or> df_worker s = DfDone) \<and> (df_notify s \<longleftrightarrow> df_worker s = DfDone)
     \<and> (\<forall>t. df_pc s t = DfRead \<longrightarrow> df_worker s \<noteq> DfRun \<and> df_worker s \<noteq> DfStore)
     \<and> (\<forall>t v e. df_pc s t = DfGot v e \<longrightarrow> v = fst fn \<and> e = snd fn)"

lemma df_inv_step:
  assumes inv: "df_inv fn s" and st: "df_step a s = Some s'"
  shows "df_inv fn s'"
proof (cases a)
  case (DfCallGet t)
  then show ?thesis using assms by (auto simp: df_inv_def split: if_splits)
next
  case (DfStep t)
  then show ?thesis using assms
    by (cases "df_pc s t") (auto simp: df_inv_def df_Get_step_def split: if_splits)
next
  case DfWorker
  then show ?thesis using assms
    by (cases "df_worker s") (auto simp: df_inv_def df_worker_step_def split: if_splits)
qed

interpretation demo_future: machine "\<lambda>s. s = NewDemoFuture fn" df_step "df_inv fn" for fn :: "'v::zero \<times> 'e::zero"
proof
  show "df_inv fn s" if "s = NewDemoFuture fn" for s by (simp add: that df_inv_def NewDemoFuture_def)
  show "df_inv fn s'" if "df_inv fn s" and "df_step a s = Some s'" for s a s' using df_inv_step that .
qed

section \<open>The theorem\<close>

text \<open>Every \<^verbatim>\<open>Get\<close> of a \<^verbatim>\<open>DemoFuture\<close> that returns, returns the value and the error of
  \<^verbatim>\<open>fn\<close>; and a \<^verbatim>\<open>Get\<close> that has to wait can go on after at most three steps of the goroutine
  that computes them, all of which are possible.\<close>

theorem demo_future_correct:
  assumes "run df_step as (NewDemoFuture fn) = Some s"
  shows "(df_pc s t = DfGot v e \<longrightarrow> (v, e) = fn)
    \<and> (df_pc s t = DfRecv \<longrightarrow> (\<exists>k \<le> 3. \<exists>s'. run df_step (replicate k DfWorker @ [DfStep t, DfStep t]) s = Some s'
         \<and> df_pc s' t = DfGot (fst fn) (snd fn)))"
proof -
  have inv: "df_inv fn s" using demo_future.invariant [OF refl assms] .
  have "\<exists>k \<le> 3. \<exists>s'. run df_step (replicate k DfWorker @ [DfStep t, DfStep t]) s = Some s' \<and> df_pc s' t = DfGot (fst fn) (snd fn)"
    if "df_pc s t = DfRecv"
  proof (cases "df_worker s")
    case DfRun
    then show ?thesis using inv that
      by (intro exI [of _ 3]) (auto simp: df_inv_def df_worker_step_def df_Get_step_def eval_nat_numeral)
  next
    case DfStore
    then show ?thesis using inv that
      by (intro exI [of _ 2]) (auto simp: df_inv_def df_worker_step_def df_Get_step_def eval_nat_numeral)
  next
    case DfClose
    then show ?thesis using inv that
      by (intro exI [of _ 1]) (auto simp: df_inv_def df_worker_step_def df_Get_step_def)
  next
    case DfDone
    then show ?thesis using inv that
      by (intro exI [of _ 0]) (auto simp: df_inv_def df_Get_step_def)
  qed
  moreover have "(v, e) = fn" if "df_pc s t = DfGot v e"
    using inv that unfolding df_inv_def by (metis prod.collapse)
  ultimately show ?thesis by blast
qed

lemma demo_future_witness:
  "\<exists>s. run df_step [DfCallGet 0, DfStep 0, DfWorker, DfWorker, DfCallGet 1, DfStep 1, DfStep 1, DfWorker, DfStep 0, DfStep 0]
       (NewDemoFuture (5 :: int, 0 :: int)) = Some s \<and> df_pc s 0 = DfGot 5 0 \<and> (5, 0) = (5 :: int, 0 :: int)"
proof -
  obtain s where r: "run df_step [DfCallGet 0, DfStep 0, DfWorker, DfWorker, DfCallGet 1, DfStep 1, DfStep 1, DfWorker,
      DfStep 0, DfStep 0] (NewDemoFuture (5 :: int, 0 :: int)) = Some s" and p: "df_pc s 0 = DfGot 5 0"
    by (simp add: NewDemoFuture_def df_worker_step_def df_Get_step_def)
  show ?thesis using demo_future_correct [OF r, of 0 5 0] r p by blast
qed

end
