(* ===== verification/Publication.thy ===== *)
theory Publication
  imports Prelude
begin

text \<open>
  The publication primitives of \<^verbatim>\<open>memory/publication.go\<close>, the \<^verbatim>\<open>AtomicCell\<close> of
  \<^verbatim>\<open>memory/atomic.go\<close> and the \<^verbatim>\<open>Sequence\<close> of \<^verbatim>\<open>queue/disruptor.go\<close>.
  \<^verbatim>\<open>ReadyFlag\<close> has a plain field and a flag, so its methods are steps; the methods of the other types
  are single atomic operations and hence functions of the state. The padding of \<^verbatim>\<open>PaddedCounters\<close> and
  of \<^verbatim>\<open>Sequence\<close> carries no state.
\<close>

section \<open>ReadyFlag\<close>

datatype 'v rf_pc =
    RfIdle
  | RfWrite 'v         \<comment> \<open>\<open>Publish\<close>: \<open>r.data = v\<close>\<close>
  | RfCas              \<comment> \<open>\<open>r.ready.CompareAndSwap(false, true)\<close>\<close>
  | RfLoad             \<comment> \<open>\<open>Observe\<close>: \<open>r.ready.Load()\<close>\<close>
  | RfRead             \<comment> \<open>\<open>return r.data, true\<close>\<close>
  | RfObserved 'v bool
  | RfPanic            \<comment> \<open>Publish is called more than once\<close>

record 'v ReadyFlag =
  rf_data :: 'v
  rf_ready :: bool
  rf_pc :: "tid \<Rightarrow> 'v rf_pc"
  rf_calls :: "'v list"   \<comment> \<open>auxiliary: the arguments of the calls of \<open>Publish\<close>\<close>

definition ReadyFlag_zero :: "'v::zero ReadyFlag" where
  "ReadyFlag_zero = \<lparr>rf_data = 0, rf_ready = False, rf_pc = (\<lambda>_. RfIdle), rf_calls = []\<rparr>"

definition ReadyFlag_Publish_step :: "tid \<Rightarrow> 'v ReadyFlag \<Rightarrow> 'v ReadyFlag option" where
  "ReadyFlag_Publish_step t r =
     (case rf_pc r t of
        RfWrite v \<Rightarrow> Some (r\<lparr>rf_data := v, rf_pc := (rf_pc r)(t := RfCas)\<rparr>)
      | RfCas \<Rightarrow>
          (if rf_ready r then Some (r\<lparr>rf_pc := (rf_pc r)(t := RfPanic)\<rparr>)
           else Some (r\<lparr>rf_ready := True, rf_pc := (rf_pc r)(t := RfIdle)\<rparr>))
      | _ \<Rightarrow> None)"

definition ReadyFlag_Observe_step :: "tid \<Rightarrow> 'v::zero ReadyFlag \<Rightarrow> 'v ReadyFlag option" where
  "ReadyFlag_Observe_step t r =
     (case rf_pc r t of
        RfLoad \<Rightarrow> Some (r\<lparr>rf_pc := (rf_pc r)(t := if rf_ready r then RfRead else RfObserved 0 False)\<rparr>)
      | RfRead \<Rightarrow> Some (r\<lparr>rf_pc := (rf_pc r)(t := RfObserved (rf_data r) True)\<rparr>)
      | _ \<Rightarrow> None)"

datatype 'v rf_act = CallPublish tid 'v | CallObserve tid | RfStep tid | RfReturn tid

fun rf_step :: "'v rf_act \<Rightarrow> 'v::zero ReadyFlag \<Rightarrow> 'v ReadyFlag option" where
  "rf_step (CallPublish t v) r =
     (if rf_pc r t = RfIdle then Some (r\<lparr>rf_pc := (rf_pc r)(t := RfWrite v), rf_calls := rf_calls r @ [v]\<rparr>) else None)"
| "rf_step (CallObserve t) r = (if rf_pc r t = RfIdle then Some (r\<lparr>rf_pc := (rf_pc r)(t := RfLoad)\<rparr>) else None)"
| "rf_step (RfStep t) r =
     (case ReadyFlag_Publish_step t r of Some r' \<Rightarrow> Some r' | None \<Rightarrow> ReadyFlag_Observe_step t r)"
| "rf_step (RfReturn t) r =
     (case rf_pc r t of RfObserved v b \<Rightarrow> Some (r\<lparr>rf_pc := (rf_pc r)(t := RfIdle)\<rparr>) | _ \<Rightarrow> None)"

text \<open>With at most one call of \<^verbatim>\<open>Publish\<close>: what holds at each place, and that only one goroutine is
  in \<^verbatim>\<open>Publish\<close>.\<close>

fun rf_at :: "'v::zero list \<Rightarrow> 'v \<Rightarrow> bool \<Rightarrow> 'v rf_pc \<Rightarrow> bool" where
  "rf_at calls d rdy (RfWrite v) \<longleftrightarrow> calls = [v] \<and> \<not> rdy"
| "rf_at calls d rdy RfCas \<longleftrightarrow> calls = [d] \<and> \<not> rdy"
| "rf_at calls d rdy RfRead \<longleftrightarrow> rdy"
| "rf_at calls d rdy (RfObserved v b) \<longleftrightarrow> (if b then calls = [v] else v = 0)"
| "rf_at calls d rdy RfPanic \<longleftrightarrow> False"
| "rf_at calls d rdy _ \<longleftrightarrow> True"

fun rf_publishes :: "'v rf_pc \<Rightarrow> bool" where
  "rf_publishes (RfWrite v) = True"
| "rf_publishes RfCas = True"
| "rf_publishes _ = False"

definition rf_once :: "'v::zero ReadyFlag \<Rightarrow> bool" where
  "rf_once r \<longleftrightarrow> (\<forall>t. rf_at (rf_calls r) (rf_data r) (rf_ready r) (rf_pc r t))
     \<and> (\<forall>t u. rf_publishes (rf_pc r t) \<longrightarrow> rf_publishes (rf_pc r u) \<longrightarrow> t = u)
     \<and> (rf_ready r \<longrightarrow> rf_calls r = [rf_data r])"

definition rf_inv :: "'v::zero ReadyFlag \<Rightarrow> bool" where
  "rf_inv r \<longleftrightarrow> (length (rf_calls r) \<le> 1 \<longrightarrow> rf_once r)"

lemma rf_onceD:
  assumes "rf_once r"
  shows rf_place: "rf_at (rf_calls r) (rf_data r) (rf_ready r) (rf_pc r t)"
    and rf_alone: "rf_publishes (rf_pc r t) \<Longrightarrow> rf_publishes (rf_pc r u) \<Longrightarrow> t = u"
    and rf_set: "rf_ready r \<Longrightarrow> rf_calls r = [rf_data r]"
  using assms unfolding rf_once_def by blast+

text \<open>A step of \<open>t\<close> to \<open>p\<close>.\<close>

lemma rf_once_move:
  assumes inv: "rf_once r" and pc: "rf_pc r' = (rf_pc r)(t := p)" and calls: "rf_calls r' = rf_calls r \<or> rf_calls r = []"
    and alone: "rf_publishes p \<Longrightarrow> rf_publishes (rf_pc r t) \<or> rf_calls r = []"
    and d: "rf_data r' = rf_data r \<or> rf_publishes (rf_pc r t)" and rd: "rf_ready r' = rf_ready r \<or> rf_publishes (rf_pc r t)"
    and at: "rf_at (rf_calls r') (rf_data r') (rf_ready r') p" and set: "rf_ready r' \<Longrightarrow> rf_calls r' = [rf_data r']"
  shows "rf_once r'"
proof -
  have nobody: "\<not> rf_publishes (rf_pc r u)" if "rf_calls r = []" for u
    using rf_place [OF inv, of u] that by (cases "rf_pc r u") auto
  have quiet: "\<not> rf_ready r" if "rf_publishes (rf_pc r t) \<or> rf_calls r = []"
    using rf_place [OF inv, of t] rf_set [OF inv] that by (cases "rf_pc r t") auto
  have "rf_at (rf_calls r') (rf_data r') (rf_ready r') (rf_pc r u)" if "u \<noteq> t" for u
    using rf_place [OF inv, of u] rf_alone [OF inv, of t u] nobody [of u] quiet that calls d rd
    by (cases "rf_pc r u") (auto split: if_splits)
  then have "rf_at (rf_calls r') (rf_data r') (rf_ready r') (rf_pc r' u)" for u using at pc by (cases "u = t") auto
  moreover have "u = v" if "rf_publishes (rf_pc r' u)" "rf_publishes (rf_pc r' v)" for u v
    using that pc alone nobody rf_alone [OF inv] by (auto split: if_splits)
  ultimately show ?thesis using set unfolding rf_once_def by blast
qed

lemma rf_inv_step:
  assumes inv: "rf_inv r" and st: "rf_step a r = Some r'"
  shows "rf_inv r'"
  unfolding rf_inv_def
proof
  assume l: "length (rf_calls r') \<le> 1"
  show "rf_once r'"
  proof (cases a)
    case (CallPublish t v)
    then have "rf_once r" "rf_calls r = []" and r': "r' = r\<lparr>rf_pc := (rf_pc r)(t := RfWrite v), rf_calls := [v]\<rparr>"
      using inv l st by (auto simp: rf_inv_def split: if_splits)
    then show ?thesis using rf_set [of r] by (intro rf_once_move [of r r' t "RfWrite v"]) auto
  next
    case (CallObserve t)
    then have "rf_once r" and r': "r' = r\<lparr>rf_pc := (rf_pc r)(t := RfLoad)\<rparr>"
      using inv l st by (auto simp: rf_inv_def split: if_splits)
    then show ?thesis using rf_set [of r] by (intro rf_once_move [of r r' t RfLoad]) auto
  next
    case (RfStep t)
    have "rf_calls r' = rf_calls r"
      using st RfStep by (auto simp: ReadyFlag_Publish_step_def ReadyFlag_Observe_step_def split: rf_pc.splits if_splits)
    then have o1: "rf_once r" using inv l by (simp add: rf_inv_def)
    note at = rf_place [OF o1, of t] and set = rf_set [OF o1]
    show ?thesis
    proof (cases "rf_pc r t")
      case (RfWrite v)
      then show ?thesis using st RfStep at by (intro rf_once_move [OF o1, of r' t RfCas]) (auto simp: ReadyFlag_Publish_step_def)
    next
      case RfCas
      then show ?thesis using st RfStep at by (intro rf_once_move [OF o1, of r' t RfIdle]) (auto simp: ReadyFlag_Publish_step_def)
    next
      case RfLoad
      then show ?thesis using st RfStep at set
        by (intro rf_once_move [OF o1, of r' t "if rf_ready r then RfRead else RfObserved 0 False"])
          (auto simp: ReadyFlag_Publish_step_def ReadyFlag_Observe_step_def split: if_splits)
    next
      case RfRead
      then show ?thesis using st RfStep at set
        by (intro rf_once_move [OF o1, of r' t "RfObserved (rf_data r) True"])
          (auto simp: ReadyFlag_Publish_step_def ReadyFlag_Observe_step_def)
    qed (use st RfStep in \<open>simp_all add: ReadyFlag_Publish_step_def ReadyFlag_Observe_step_def\<close>)
  next
    case (RfReturn t)
    then have "rf_once r" and r': "r' = r\<lparr>rf_pc := (rf_pc r)(t := RfIdle)\<rparr>"
      using inv l st by (auto simp: rf_inv_def split: rf_pc.splits)
    then show ?thesis using rf_set [of r] by (intro rf_once_move [of r r' t RfIdle]) auto
  qed
qed

interpretation ready_flag: machine "\<lambda>r. r = ReadyFlag_zero" rf_step rf_inv
proof
  show "rf_inv r" if "r = ReadyFlag_zero" for r :: "'v::zero ReadyFlag"
    by (simp add: that rf_inv_def rf_once_def ReadyFlag_zero_def)
  show "rf_inv r'" if "rf_inv r" and "rf_step a r = Some r'" for r a and r' :: "'v::zero ReadyFlag"
    using rf_inv_step that .
qed

text \<open>\<^verbatim>\<open>ReadyFlag\<close> publishes safely: as long as \<^verbatim>\<open>Publish\<close> is called at most once,
  under every interleaving with any number of observers the call does not panic, an \<^verbatim>\<open>Observe\<close> that
  reports \<^verbatim>\<open>true\<close> returns the published value and never one half written before the flag, and one that
  reports \<^verbatim>\<open>false\<close> returns the zero value.\<close>

theorem ready_flag_publishes:
  assumes "run rf_step as ReadyFlag_zero = Some r" and "length (rf_calls r) \<le> 1"
  shows "rf_pc r t \<noteq> RfPanic \<and> (rf_pc r t = RfObserved v True \<longrightarrow> rf_calls r = [v])
    \<and> (rf_pc r t = RfObserved v False \<longrightarrow> v = 0)"
proof -
  have "rf_once r" using ready_flag.invariant [OF refl assms(1)] assms(2) by (simp add: rf_inv_def)
  from rf_place [OF this, of t] show ?thesis by auto
qed

lemma ready_flag_witness:
  "\<exists>r. run rf_step [CallPublish 0 7, CallObserve 1, RfStep 0, RfStep 1, RfReturn 1, RfStep 0, CallObserve 1, RfStep 1, RfStep 1]
       (ReadyFlag_zero :: int ReadyFlag) = Some r \<and> rf_pc r 1 = RfObserved 7 True \<and> rf_calls r = [7]"
proof -
  obtain r where r: "run rf_step [CallPublish 0 7, CallObserve 1, RfStep 0, RfStep 1, RfReturn 1, RfStep 0, CallObserve 1,
      RfStep 1, RfStep 1] (ReadyFlag_zero :: int ReadyFlag) = Some r"
    and p: "rf_pc r 1 = RfObserved 7 True" "length (rf_calls r) \<le> 1"
    by (simp add: ReadyFlag_zero_def ReadyFlag_Publish_step_def ReadyFlag_Observe_step_def)
  show ?thesis using ready_flag_publishes [OF r p(2), of 1 7] r p by blast
qed

text \<open>A second \<^verbatim>\<open>Publish\<close> panics, but only after it has overwritten the published value: an observer
  that comes later reads what was never published.\<close>

theorem ready_flag_second_publish:
  "\<exists>r. run rf_step [CallPublish 0 7, RfStep 0, RfStep 0, CallPublish 0 9, RfStep 0, RfStep 0, CallObserve 1, RfStep 1, RfStep 1]
       (ReadyFlag_zero :: int ReadyFlag) = Some r \<and> rf_pc r 0 = RfPanic \<and> rf_pc r 1 = RfObserved 9 True"
  by (simp add: ReadyFlag_zero_def ReadyFlag_Publish_step_def ReadyFlag_Observe_step_def)

section \<open>PublishedPointer and AtomicCell\<close>

text \<open>A pointer is an address or nil. \<^verbatim>\<open>AtomicCell\<close> allocates a copy for every \<^verbatim>\<open>Store\<close>.\<close>

record PublishedPointer = pp_p :: "nat option"

definition PublishedPointer_zero :: PublishedPointer where
  "PublishedPointer_zero = \<lparr>pp_p = None\<rparr>"

definition PublishedPointer_Publish :: "nat option \<Rightarrow> PublishedPointer \<Rightarrow> PublishedPointer" where
  "PublishedPointer_Publish v pp = pp\<lparr>pp_p := v\<rparr>"

definition PublishedPointer_Observe :: "PublishedPointer \<Rightarrow> nat option" where
  "PublishedPointer_Observe pp = pp_p pp"

record 'v AtomicCell =
  ac_obj :: "nat option"
  ac_heap :: "nat \<Rightarrow> 'v"
  ac_fresh :: nat

definition AtomicCell_zero :: "'v::zero AtomicCell" where
  "AtomicCell_zero = \<lparr>ac_obj = None, ac_heap = (\<lambda>_. 0), ac_fresh = 0\<rparr>"

definition AtomicCell_Store :: "'v \<Rightarrow> 'v AtomicCell \<Rightarrow> 'v AtomicCell" where
  "AtomicCell_Store v c =
     (let p = ac_fresh c in c\<lparr>ac_heap := (ac_heap c)(p := v), ac_fresh := Suc p, ac_obj := Some p\<rparr>)"

definition AtomicCell_Load :: "'v::zero AtomicCell \<Rightarrow> 'v" where
  "AtomicCell_Load c = (case ac_obj c of Some r \<Rightarrow> ac_heap c r | None \<Rightarrow> 0)"

definition ac_ok :: "'v AtomicCell \<Rightarrow> bool" where
  "ac_ok c \<longleftrightarrow> (\<forall>p. ac_obj c = Some p \<longrightarrow> p < ac_fresh c)"

lemma ac_ok_Store: "ac_ok (AtomicCell_Store v c)"
  by (simp add: ac_ok_def AtomicCell_Store_def Let_def)

lemma AtomicCell_Load_Store: "AtomicCell_Load (AtomicCell_Store v c) = v"
  by (simp add: AtomicCell_Load_def AtomicCell_Store_def Let_def)

lemma ac_fold_ok: "ac_ok c \<Longrightarrow> ac_ok (fold AtomicCell_Store vs c)"
  by (induction vs arbitrary: c) (simp_all add: ac_ok_Store)

lemma ac_fold_heap: "p < ac_fresh c \<Longrightarrow> ac_heap (fold AtomicCell_Store vs c) p = ac_heap c p"
proof (induction vs arbitrary: c)
  case (Cons v vs)
  have "p < ac_fresh (AtomicCell_Store v c)" "ac_heap (AtomicCell_Store v c) p = ac_heap c p"
    using Cons.prems by (simp_all add: AtomicCell_Store_def Let_def)
  then show ?case using Cons.IH by simp
qed simp

text \<open>\<^verbatim>\<open>AtomicCell\<close> gives back what was stored last, or the zero value before the first
  \<^verbatim>\<open>Store\<close>, and the copy a pointer loaded earlier leads to is never changed by a later
  \<^verbatim>\<open>Store\<close>; \<^verbatim>\<open>PublishedPointer\<close> gives back the pointer published last, or nil.\<close>

theorem atomic_cell_roundtrip:
  "AtomicCell_Load (fold AtomicCell_Store vs AtomicCell_zero) = (if vs = [] then 0 else last vs)
   \<and> (ac_obj (fold AtomicCell_Store vs AtomicCell_zero) = Some p \<longrightarrow>
        ac_heap (fold AtomicCell_Store ws (fold AtomicCell_Store vs AtomicCell_zero)) p
          = AtomicCell_Load (fold AtomicCell_Store vs AtomicCell_zero))
   \<and> PublishedPointer_Observe (fold PublishedPointer_Publish ps PublishedPointer_zero) = (if ps = [] then None else last ps)"
proof -
  have "AtomicCell_Load (fold AtomicCell_Store vs AtomicCell_zero) = (if vs = [] then 0 else last vs)"
    by (cases vs rule: rev_cases) (simp_all add: AtomicCell_Load_Store, simp add: AtomicCell_Load_def AtomicCell_zero_def)
  moreover have "ac_heap (fold AtomicCell_Store ws (fold AtomicCell_Store vs AtomicCell_zero)) p
      = AtomicCell_Load (fold AtomicCell_Store vs AtomicCell_zero)"
    if "ac_obj (fold AtomicCell_Store vs AtomicCell_zero) = Some p"
  proof -
    have "ac_ok (fold AtomicCell_Store vs (AtomicCell_zero :: 'a AtomicCell))"
      by (rule ac_fold_ok) (simp add: ac_ok_def AtomicCell_zero_def)
    then show ?thesis using that ac_fold_heap by (simp add: ac_ok_def AtomicCell_Load_def)
  qed
  moreover have "PublishedPointer_Observe (fold PublishedPointer_Publish ps PublishedPointer_zero) = (if ps = [] then None else last ps)"
    by (cases ps rule: rev_cases)
       (simp_all add: PublishedPointer_Observe_def PublishedPointer_Publish_def PublishedPointer_zero_def)
  ultimately show ?thesis by blast
qed

section \<open>Counters and sequences\<close>

record UnpaddedCounters =
  cnt_a :: u64
  cnt_b :: u64

definition Counters_zero :: UnpaddedCounters where
  "Counters_zero = \<lparr>cnt_a = 0, cnt_b = 0\<rparr>"

definition IncA :: "UnpaddedCounters \<Rightarrow> UnpaddedCounters" where
  "IncA c = c\<lparr>cnt_a := cnt_a c + 1\<rparr>"

definition IncB :: "UnpaddedCounters \<Rightarrow> UnpaddedCounters" where
  "IncB c = c\<lparr>cnt_b := cnt_b c + 1\<rparr>"

definition LoadA :: "UnpaddedCounters \<Rightarrow> u64" where
  "LoadA c = cnt_a c"

definition LoadB :: "UnpaddedCounters \<Rightarrow> u64" where
  "LoadB c = cnt_b c"

text \<open>\<^verbatim>\<open>PaddedCounters\<close> is a type of its own with the same methods.\<close>

record PaddedCounters =
  pad_a :: u64
  pad_b :: u64

definition Padded_zero :: PaddedCounters where
  "Padded_zero = \<lparr>pad_a = 0, pad_b = 0\<rparr>"

definition Padded_IncA :: "PaddedCounters \<Rightarrow> PaddedCounters" where
  "Padded_IncA c = c\<lparr>pad_a := pad_a c + 1\<rparr>"

definition Padded_IncB :: "PaddedCounters \<Rightarrow> PaddedCounters" where
  "Padded_IncB c = c\<lparr>pad_b := pad_b c + 1\<rparr>"

definition Padded_LoadA :: "PaddedCounters \<Rightarrow> u64" where
  "Padded_LoadA c = pad_a c"

definition Padded_LoadB :: "PaddedCounters \<Rightarrow> u64" where
  "Padded_LoadB c = pad_b c"

text \<open>The two layouts behave alike, and an increment of one counter does not show in the other.\<close>

lemma padded_like_unpadded:
  "Padded_LoadA (fold (\<lambda>b. if b then Padded_IncA else Padded_IncB) bs Padded_zero)
     = LoadA (fold (\<lambda>b. if b then IncA else IncB) bs Counters_zero)
   \<and> Padded_LoadB (fold (\<lambda>b. if b then Padded_IncA else Padded_IncB) bs Padded_zero)
     = LoadB (fold (\<lambda>b. if b then IncA else IncB) bs Counters_zero)"
proof -
  have "pad_a p = cnt_a c \<Longrightarrow> pad_b p = cnt_b c \<Longrightarrow>
     pad_a (fold (\<lambda>b. if b then Padded_IncA else Padded_IncB) bs p) = cnt_a (fold (\<lambda>b. if b then IncA else IncB) bs c)
     \<and> pad_b (fold (\<lambda>b. if b then Padded_IncA else Padded_IncB) bs p) = cnt_b (fold (\<lambda>b. if b then IncA else IncB) bs c)" for p c
    by (induction bs arbitrary: p c) (simp_all add: Padded_IncA_def Padded_IncB_def IncA_def IncB_def)
  then show ?thesis by (simp add: Padded_LoadA_def Padded_LoadB_def LoadA_def LoadB_def Padded_zero_def Counters_zero_def)
qed

lemma counters_independent:
  "LoadA (fold (\<lambda>b. if b then IncA else IncB) bs Counters_zero) = of_nat (length (filter id bs))
   \<and> LoadB (fold (\<lambda>b. if b then IncA else IncB) bs Counters_zero) = of_nat (length (filter Not bs))"
proof -
  have "LoadA (fold (\<lambda>b. if b then IncA else IncB) bs c) = LoadA c + of_nat (length (filter id bs))
     \<and> LoadB (fold (\<lambda>b. if b then IncA else IncB) bs c) = LoadB c + of_nat (length (filter Not bs))" for c
    by (induction bs arbitrary: c) (auto simp: LoadA_def LoadB_def IncA_def IncB_def)
  then show ?thesis by (simp add: Counters_zero_def LoadA_def LoadB_def)
qed

record Sequence = sq_value :: i64

definition NewSequence :: "i64 \<Rightarrow> Sequence" where
  "NewSequence initial = \<lparr>sq_value = initial\<rparr>"

definition Sequence_Get :: "Sequence \<Rightarrow> i64" where
  "Sequence_Get s = sq_value s"

definition Sequence_Set :: "i64 \<Rightarrow> Sequence \<Rightarrow> Sequence" where
  "Sequence_Set v s = s\<lparr>sq_value := v\<rparr>"

definition Sequence_AddAndGet :: "i64 \<Rightarrow> Sequence \<Rightarrow> Sequence \<times> i64" where
  "Sequence_AddAndGet delta s = (let v = sq_value s + delta in (s\<lparr>sq_value := v\<rparr>, v))"

definition Sequence_IncrementAndGet :: "Sequence \<Rightarrow> Sequence \<times> i64" where
  "Sequence_IncrementAndGet s = (let v = sq_value s + 1 in (s\<lparr>sq_value := v\<rparr>, v))"

definition Sequence_CompareAndSet :: "i64 \<Rightarrow> i64 \<Rightarrow> Sequence \<Rightarrow> Sequence \<times> bool" where
  "Sequence_CompareAndSet expected next s =
     (if sq_value s = expected then (s\<lparr>sq_value := next\<rparr>, True) else (s, False))"

text \<open>Claiming one number after the other gives distinct consecutive numbers until the counter wraps.\<close>

lemma sequence_claims:
  "sint (sq_value s) + int n < 2 ^ 63 \<Longrightarrow>
     sint (sq_value (((\<lambda>s. fst (Sequence_IncrementAndGet s)) ^^ n) s)) = sint (sq_value s) + int n"
proof (induction n arbitrary: s)
  case (Suc n)
  have s: "sint (sq_value s + 1) = sint (sq_value s) + 1"
    using Suc.prems by (intro sint_i64_add_1) simp
  have "sint (sq_value (((\<lambda>s. fst (Sequence_IncrementAndGet s)) ^^ n) (fst (Sequence_IncrementAndGet s))))
      = sint (sq_value (fst (Sequence_IncrementAndGet s))) + int n"
    using Suc.prems s by (intro Suc.IH) (simp add: Sequence_IncrementAndGet_def Let_def)
  moreover have "sint (sq_value (fst (Sequence_IncrementAndGet s))) = sint (sq_value s) + 1"
    using s by (simp add: Sequence_IncrementAndGet_def Let_def)
  ultimately show ?case by (simp add: funpow_Suc_right del: funpow.simps)
qed simp

lemma sequence_increment_add: "Sequence_IncrementAndGet s = Sequence_AddAndGet 1 s"
  by (simp add: Sequence_IncrementAndGet_def Sequence_AddAndGet_def)

end
