(* ===== verification/Broadcast.thy ===== *)
theory Broadcast
  imports Prelude
begin

text \<open>
  \<^verbatim>\<open>Broadcast\<close> of \<^verbatim>\<open>patterns/broadcast.go\<close>: topics with unbuffered subscriber channels, any
  number of calls of \<^verbatim>\<open>Emit\<close>, and the goroutines \<^verbatim>\<open>Emit\<close> leaves behind for slow subscribers. A
  call is an element of the list \<open>bc_emits\<close>. A timer may fire at any time, so every select may take any
  of its cases that is ready. Auxiliary fields: \<open>bc_got\<close>, what subscribers received, in order;
  \<open>bc_owed\<close>, a message for every channel and value when \<^verbatim>\<open>Emit\<close> copies the subscribers;
  \<open>bc_dropped\<close>, what was given up after \<^verbatim>\<open>Close\<close>.
\<close>

section \<open>The code\<close>

datatype 'a emit =
    EmCheck string 'a       \<comment> \<open>the first select on \<open>doneCh\<close>\<close>
  | EmCopy string 'a        \<comment> \<open>the copy under \<open>sliceMu\<close>\<close>
  | EmLoop "nat list" 'a    \<comment> \<open>the select for the first of the remaining channels\<close>
  | EmOut

record 'a Broadcast =
  bc_topics :: "string \<rightharpoonup> nat list"
  bc_done :: bool                      \<comment> \<open>\<open>doneCh\<close> is closed, by \<open>doneOnce\<close>\<close>
  bc_fresh :: nat
  bc_emits :: "'a emit list"
  bc_senders :: "(nat \<times> 'a) list"      \<comment> \<open>the goroutines started for slow subscribers\<close>
  bc_got :: "(nat \<times> 'a) list"
  bc_owed :: "(nat \<times> 'a) multiset"
  bc_dropped :: "(nat \<times> 'a) multiset"

definition NewBroadcast :: "'a Broadcast" where
  "NewBroadcast = \<lparr>bc_topics = Map.empty, bc_done = False, bc_fresh = 0, bc_emits = [], bc_senders = [], bc_got = [],
     bc_owed = {#}, bc_dropped = {#}\<rparr>"

text \<open>A topic nobody registered for has the nil slice.\<close>

definition bc_subscribers :: "string \<Rightarrow> 'a Broadcast \<Rightarrow> nat list" where
  "bc_subscribers topic b = (case bc_topics b topic of None \<Rightarrow> [] | Some chs \<Rightarrow> chs)"

definition Broadcast_Register :: "string \<Rightarrow> 'a Broadcast \<Rightarrow> 'a Broadcast \<times> nat" where
  "Broadcast_Register topic b =
     (let ch = bc_fresh b
      in (b\<lparr>bc_fresh := Suc ch, bc_topics := (bc_topics b)(topic \<mapsto> bc_subscribers topic b @ [ch])\<rparr>, ch))"

definition Broadcast_Close :: "'a Broadcast \<Rightarrow> 'a Broadcast" where
  "Broadcast_Close b = b\<lparr>bc_done := True\<rparr>"

text \<open>\<^verbatim>\<open>Done\<close> hands out the channel; what a receiver can tell of it is whether it is closed.\<close>

definition Broadcast_Done :: "'a Broadcast \<Rightarrow> bool" where
  "Broadcast_Done b = bc_done b"

abbreviation messages :: "nat list \<Rightarrow> 'a \<Rightarrow> (nat \<times> 'a) multiset" where
  "messages chs v \<equiv> mset (map (\<lambda>ch. (ch, v)) chs)"

text \<open>The cases of a select that an \<^verbatim>\<open>Emit\<close> takes.\<close>

datatype emit_case = Proceed | DoneCase | SendCase | AfterCase

definition Emit_step :: "nat \<Rightarrow> emit_case \<Rightarrow> 'a Broadcast \<Rightarrow> 'a Broadcast option" where
  "Emit_step i c b =
     (if i < length (bc_emits b)
      then (case bc_emits b ! i of
              EmCheck topic v \<Rightarrow>
                (if c = Proceed
                 then Some (b\<lparr>bc_emits := (bc_emits b)[i := if bc_done b then EmOut else EmCopy topic v]\<rparr>)
                 else None)
            | EmCopy topic v \<Rightarrow>
                (if c = Proceed
                 then Some (b\<lparr>bc_emits := (bc_emits b)[i := EmLoop (bc_subscribers topic b) v],
                              bc_owed := bc_owed b + messages (bc_subscribers topic b) v\<rparr>)
                 else None)
            | EmLoop [] v \<Rightarrow> (if c = Proceed then Some (b\<lparr>bc_emits := (bc_emits b)[i := EmOut]\<rparr>) else None)
            | EmLoop (ch # chs) v \<Rightarrow>
                (case c of
                   DoneCase \<Rightarrow>
                     if bc_done b
                     then Some (b\<lparr>bc_emits := (bc_emits b)[i := EmOut], bc_dropped := bc_dropped b + messages (ch # chs) v\<rparr>)
                     else None
                 | SendCase \<Rightarrow> Some (b\<lparr>bc_emits := (bc_emits b)[i := EmLoop chs v], bc_got := bc_got b @ [(ch, v)]\<rparr>)
                 | AfterCase \<Rightarrow> Some (b\<lparr>bc_emits := (bc_emits b)[i := EmLoop chs v], bc_senders := bc_senders b @ [(ch, v)]\<rparr>)
                 | Proceed \<Rightarrow> None)
            | EmOut \<Rightarrow> None)
      else None)"

text \<open>A goroutine left behind sends, or gives up when \<^verbatim>\<open>doneCh\<close> is closed.\<close>

definition Sender_step :: "nat \<Rightarrow> bool \<Rightarrow> 'a Broadcast \<Rightarrow> 'a Broadcast option" where
  "Sender_step i sent b =
     (if i < length (bc_senders b)
      then (let m = bc_senders b ! i; rest = take i (bc_senders b) @ drop (Suc i) (bc_senders b)
            in if sent then Some (b\<lparr>bc_senders := rest, bc_got := bc_got b @ [m]\<rparr>)
               else if bc_done b then Some (b\<lparr>bc_senders := rest, bc_dropped := bc_dropped b + {#m#}\<rparr>)
               else None)
      else None)"

datatype 'a bc_act = CallRegister string | CallEmit string 'a | CallClose | EmitStep nat emit_case | SenderStep nat bool

fun bc_step :: "'a bc_act \<Rightarrow> 'a Broadcast \<Rightarrow> 'a Broadcast option" where
  "bc_step (CallRegister topic) b = Some (fst (Broadcast_Register topic b))"
| "bc_step (CallEmit topic v) b = Some (b\<lparr>bc_emits := bc_emits b @ [EmCheck topic v]\<rparr>)"
| "bc_step CallClose b = Some (Broadcast_Close b)"
| "bc_step (EmitStep i c) b = Emit_step i c b"
| "bc_step (SenderStep i sent) b = Sender_step i sent b"

section \<open>The invariant\<close>

text \<open>The messages an \<^verbatim>\<open>Emit\<close> still has to deal with.\<close>

fun emit_pending :: "'a emit \<Rightarrow> (nat \<times> 'a) multiset" where
  "emit_pending (EmLoop chs v) = messages chs v"
| "emit_pending _ = {#}"

definition bc_pending :: "'a Broadcast \<Rightarrow> (nat \<times> 'a) multiset" where
  "bc_pending b = sum_list (map emit_pending (bc_emits b))"

definition bc_inv :: "'a Broadcast \<Rightarrow> bool" where
  "bc_inv b \<longleftrightarrow> bc_owed b = mset (bc_got b) + mset (bc_senders b) + bc_pending b + bc_dropped b
     \<and> (\<not> bc_done b \<longrightarrow> bc_dropped b = {#})
     \<and> (\<forall>topic. distinct (bc_subscribers topic b) \<and> (\<forall>ch \<in> set (bc_subscribers topic b). ch < bc_fresh b))"

lemma pending_update:
  "i < length es \<Longrightarrow>
     sum_list (map emit_pending es) + emit_pending e = sum_list (map emit_pending (es[i := e])) + emit_pending (es ! i)"
proof (induction es arbitrary: i)
  case (Cons x xs)
  then show ?case by (cases i) (simp_all add: add.assoc add.left_commute)
qed simp

lemma pending_set:
  assumes "i < length (bc_emits b)" and "emit_pending (bc_emits b ! i) = emit_pending e + m"
  shows "bc_pending b = bc_pending (b\<lparr>bc_emits := (bc_emits b)[i := e]\<rparr>) + m"
proof -
  have "bc_pending b + emit_pending e = bc_pending (b\<lparr>bc_emits := (bc_emits b)[i := e]\<rparr>) + m + emit_pending e"
    using pending_update [OF assms(1), of e] assms(2) by (simp add: bc_pending_def add.assoc add.left_commute)
  then show ?thesis by simp
qed

lemma mset_remove_nth: "i < length xs \<Longrightarrow> mset xs = add_mset (xs ! i) (mset (take i xs @ drop (Suc i) xs))"
  by (metis id_take_nth_drop mset_append mset.simps(2) union_mset_add_mset_right)

text \<open>Steps that do not register anybody.\<close>

lemma bc_inv_frame:
  assumes "bc_inv b" and "bc_topics b' = bc_topics b" "bc_fresh b' = bc_fresh b"
    and "bc_owed b' = mset (bc_got b') + mset (bc_senders b') + bc_pending b' + bc_dropped b'"
    and "\<not> bc_done b' \<Longrightarrow> bc_dropped b' = {#}"
  shows "bc_inv b'"
proof -
  have "bc_subscribers topic b' = bc_subscribers topic b" for topic using assms(2) by (simp add: bc_subscribers_def)
  then show ?thesis using assms unfolding bc_inv_def by simp
qed

lemma bc_invD:
  assumes "bc_inv b"
  shows bc_balance: "bc_owed b = mset (bc_got b) + mset (bc_senders b) + bc_pending b + bc_dropped b"
    and bc_open: "\<not> bc_done b \<Longrightarrow> bc_dropped b = {#}"
    and bc_distinct: "distinct (bc_subscribers topic b)"
  using assms unfolding bc_inv_def by blast+

lemma bc_subscribers_register:
  "bc_subscribers topic (fst (Broadcast_Register t b)) =
     (if topic = t then bc_subscribers t b @ [bc_fresh b] else bc_subscribers topic b)"
  by (simp add: Broadcast_Register_def Let_def bc_subscribers_def)

lemma bc_inv_register:
  assumes "bc_inv b"
  shows "bc_inv (fst (Broadcast_Register t b))"
proof -
  have d: "distinct (bc_subscribers topic b)" and f: "ch \<in> set (bc_subscribers topic b) \<Longrightarrow> ch < bc_fresh b" for topic ch
    using assms unfolding bc_inv_def by blast+
  have "distinct (bc_subscribers topic (fst (Broadcast_Register t b)))" for topic
    unfolding bc_subscribers_register using d [of topic] d [of t] f [of "bc_fresh b" t] by auto
  moreover have "ch < Suc (bc_fresh b)" if "ch \<in> set (bc_subscribers topic (fst (Broadcast_Register t b)))" for topic ch
    using that f [of ch topic] f [of ch t] unfolding bc_subscribers_register by (auto split: if_splits)
  moreover have "bc_fresh (fst (Broadcast_Register t b)) = Suc (bc_fresh b)" by (simp add: Broadcast_Register_def Let_def)
  moreover have "bc_pending (fst (Broadcast_Register t b)) = bc_pending b"
    by (simp add: Broadcast_Register_def Let_def bc_pending_def)
  ultimately show ?thesis using assms unfolding bc_inv_def by (simp add: Broadcast_Register_def Let_def)
qed

lemma bc_inv_emit:
  assumes inv: "bc_inv b" and st': "Emit_step i c b = Some b'"
  shows "bc_inv b'"
proof -
  have i: "i < length (bc_emits b)" using st' by (auto simp: Emit_step_def split: if_splits)
  note set = pending_set [OF i]
  show ?thesis
  proof (cases "bc_emits b ! i")
    case (EmCheck topic v)
    then have b': "b' = b\<lparr>bc_emits := (bc_emits b)[i := if bc_done b then EmOut else EmCopy topic v]\<rparr>"
      using st' i by (simp add: Emit_step_def split: if_splits)
    have "bc_pending b = bc_pending b'"
      using set [of "if bc_done b then EmOut else EmCopy topic v" "{#}"] EmCheck by (simp add: b')
    then show ?thesis using bc_balance [OF inv] bc_open [OF inv] by (intro bc_inv_frame [OF inv]) (simp_all add: b')
  next
    case (EmCopy topic v)
    let ?m = "messages (bc_subscribers topic b) v"
    have b': "b' = b\<lparr>bc_emits := (bc_emits b)[i := EmLoop (bc_subscribers topic b) v], bc_owed := bc_owed b + ?m\<rparr>"
      using EmCopy st' i by (simp add: Emit_step_def split: if_splits)
    have "bc_pending b + ?m = bc_pending b'"
      using pending_update [OF i, of "EmLoop (bc_subscribers topic b) v"] EmCopy by (simp add: bc_pending_def b')
    then show ?thesis
      using bc_balance [OF inv] bc_open [OF inv] by (intro bc_inv_frame [OF inv]) (simp_all add: b' add.assoc add.commute add.left_commute)
  next
    case (EmLoop chs v)
    show ?thesis
    proof (cases chs)
      case Nil
      then have b': "b' = b\<lparr>bc_emits := (bc_emits b)[i := EmOut]\<rparr>"
        using EmLoop st' i by (simp add: Emit_step_def split: if_splits)
      have "bc_pending b = bc_pending b'" using set [of EmOut "{#}"] EmLoop Nil by (simp add: b')
      then show ?thesis using bc_balance [OF inv] bc_open [OF inv] by (intro bc_inv_frame [OF inv]) (simp_all add: b')
    next
      case (Cons ch rest)
      have p: "bc_pending b = bc_pending (b\<lparr>bc_emits := (bc_emits b)[i := EmLoop rest v]\<rparr>) + {#(ch, v)#}"
        using set [of "EmLoop rest v" "{#(ch, v)#}"] EmLoop Cons by simp
      have o1: "bc_pending b = bc_pending (b\<lparr>bc_emits := (bc_emits b)[i := EmOut]\<rparr>) + messages (ch # rest) v"
        using set [of EmOut "messages (ch # rest) v"] EmLoop Cons by simp
      show ?thesis
        by (rule bc_inv_frame [OF inv])
           (use st' EmLoop Cons i p o1 bc_balance [OF inv] bc_open [OF inv]
             in \<open>cases c; auto simp: Emit_step_def bc_pending_def split: if_splits\<close>)+
    qed
  next
    case EmOut
    then show ?thesis using st' i by (simp add: Emit_step_def)
  qed
qed

lemma bc_inv_step:
  assumes inv: "bc_inv b" and st: "bc_step a b = Some b'"
  shows "bc_inv b'"
proof (cases a)
  case (CallRegister topic)
  then show ?thesis using bc_inv_register [OF inv, of topic] st by simp
next
  case (CallEmit topic v)
  then have b': "b' = b\<lparr>bc_emits := bc_emits b @ [EmCheck topic v]\<rparr>" using st by simp
  show ?thesis by (rule bc_inv_frame [OF inv]) (use bc_balance [OF inv] bc_open [OF inv] in \<open>simp_all add: b' bc_pending_def\<close>)
next
  case CallClose
  then have b': "b' = b\<lparr>bc_done := True\<rparr>" using st by (simp add: Broadcast_Close_def)
  show ?thesis by (rule bc_inv_frame [OF inv]) (use bc_balance [OF inv] bc_open [OF inv] in \<open>simp_all add: b' bc_pending_def\<close>)
next
  case (SenderStep i sent)
  then have i: "i < length (bc_senders b)" using st by (auto simp: Sender_step_def split: if_splits)
  show ?thesis
    by (rule bc_inv_frame [OF inv])
       (use st SenderStep i mset_remove_nth [OF i] bc_balance [OF inv] bc_open [OF inv]
         in \<open>auto simp: bc_pending_def Sender_step_def Let_def split: if_splits\<close>)
qed (use bc_inv_emit [OF inv] st in simp)

interpretation broadcast: machine "\<lambda>b. b = NewBroadcast" bc_step bc_inv
proof
  show "bc_inv b" if "b = NewBroadcast" for b :: "'a Broadcast"
    by (simp add: that bc_inv_def bc_pending_def bc_subscribers_def NewBroadcast_def)
  show "bc_inv b'" if "bc_inv b" and "bc_step a b = Some b'" for b a and b' :: "'a Broadcast"
    using bc_inv_step that .
qed

section \<open>The theorems\<close>



lemma emit_loop_alone:
  "i < length (bc_emits b) \<Longrightarrow> bc_emits b ! i = EmLoop chs v \<Longrightarrow>
     \<exists>b'. run bc_step (replicate (length chs) (EmitStep i AfterCase) @ [EmitStep i Proceed]) b = Some b'
       \<and> bc_emits b' = (bc_emits b)[i := EmOut] \<and> bc_senders b' = bc_senders b @ map (\<lambda>ch. (ch, v)) chs \<and> bc_got b' = bc_got b"
proof (induction chs arbitrary: b)
  case Nil
  then show ?case by (simp add: Emit_step_def)
next
  case (Cons ch chs)
  let ?b = "b\<lparr>bc_emits := (bc_emits b)[i := EmLoop chs v], bc_senders := bc_senders b @ [(ch, v)]\<rparr>"
  have "Emit_step i AfterCase b = Some ?b" using Cons.prems by (simp add: Emit_step_def)
  moreover have "bc_emits ?b ! i = EmLoop chs v" "i < length (bc_emits ?b)" using Cons.prems by simp_all
  ultimately show ?case using Cons.IH [of ?b] by auto
qed

text \<open>\<^verbatim>\<open>Emit\<close> returns although no subscriber ever receives: on an open broadcast its timers
  alone bring it to its end in one step for each subscriber and three more, with a goroutine left behind
  for each; on a closed one it returns at once.\<close>

theorem broadcast_emit_returns:
  assumes "i < length (bc_emits b)" and "bc_emits b ! i = EmCheck topic v"
  shows "\<exists>b'. run bc_step (if bc_done b then [EmitStep i Proceed]
      else [EmitStep i Proceed, EmitStep i Proceed] @ replicate (length (bc_subscribers topic b)) (EmitStep i AfterCase)
        @ [EmitStep i Proceed]) b = Some b'
    \<and> bc_emits b' ! i = EmOut \<and> bc_got b' = bc_got b
    \<and> bc_senders b' = bc_senders b @ (if bc_done b then [] else map (\<lambda>ch. (ch, v)) (bc_subscribers topic b))"
proof (cases "bc_done b")
  case True
  then show ?thesis using assms by (simp add: Emit_step_def)
next
  case False
  let ?chs = "bc_subscribers topic b"
  let ?b1 = "b\<lparr>bc_emits := (bc_emits b)[i := EmCopy topic v]\<rparr>"
  let ?b2 = "?b1\<lparr>bc_emits := (bc_emits b)[i := EmLoop ?chs v], bc_owed := bc_owed b + messages ?chs v\<rparr>"
  have "run bc_step [EmitStep i Proceed, EmitStep i Proceed] b = Some ?b2"
    using assms False by (simp add: Emit_step_def bc_subscribers_def)
  note r = run_append_Some [OF this, of "replicate (length ?chs) (EmitStep i AfterCase) @ [EmitStep i Proceed]"]
  obtain b' where "run bc_step (replicate (length ?chs) (EmitStep i AfterCase) @ [EmitStep i Proceed]) ?b2 = Some b'"
    "bc_emits b' = (bc_emits ?b2)[i := EmOut]" "bc_senders b' = bc_senders ?b2 @ map (\<lambda>ch. (ch, v)) ?chs" "bc_got b' = bc_got ?b2"
    using emit_loop_alone [of i ?b2 ?chs v] assms by auto
  then show ?thesis using r assms(1) False by (intro exI [of _ b']) simp
qed

lemma broadcast_emit_returns_witness:
  "\<exists>b b'. run bc_step [CallRegister ''t'', CallEmit ''t'' 7] (NewBroadcast :: int Broadcast) = Some b
     \<and> run bc_step [EmitStep 0 Proceed, EmitStep 0 Proceed, EmitStep 0 AfterCase, EmitStep 0 Proceed] b = Some b'
     \<and> bc_emits b' ! 0 = EmOut \<and> bc_senders b' = [(0, 7)]"
proof -
  obtain b where b: "run bc_step [CallRegister ''t'', CallEmit ''t'' 7] (NewBroadcast :: int Broadcast) = Some b"
    "0 < length (bc_emits b)" "bc_emits b ! 0 = EmCheck ''t'' 7" "\<not> bc_done b" "bc_subscribers ''t'' b = [0]" "bc_senders b = []"
    by (simp add: NewBroadcast_def Broadcast_Register_def Let_def bc_subscribers_def)
  show ?thesis using broadcast_emit_returns [OF b(2,3)] b by auto
qed

end
