(* ===== verification/Progress.thy ===== *)
theory Progress
  imports Queue_SPSC Queue_LockFree Stack_LockFree
begin

text \<open>
  Progress of the lock-free structures, whatever the scheduler does: the single-producer
  single-consumer queues are wait-free, the multi-producer multi-consumer queue and the Treiber stack
  are lock-free. Both are one argument: a rank of every goroutine that its own steps decrease and that
  nobody's step increases, except a step by which an operation takes effect. A wait-free structure is
  one in which nothing counts as such an exception.
\<close>

section \<open>The contract\<close>

text \<open>A call is wait-free within \<open>k\<close> steps: in the middle of it a goroutine can always take its next
  step, and in a stretch of a run in which the call is not left it takes at most \<open>k\<close> of them, the
  \<open>k\<close>-th of which makes the result ready.\<close>

definition wait_free :: "('a \<Rightarrow> 's \<Rightarrow> 's option) \<Rightarrow> 'a \<Rightarrow> 'a \<Rightarrow> ('s \<Rightarrow> bool) \<Rightarrow> ('s \<Rightarrow> bool) \<Rightarrow> nat \<Rightarrow> bool" where
  "wait_free step own leave idle ready k \<longleftrightarrow>
     (\<forall>s. idle s \<or> ready s \<or> step own s \<noteq> None)
     \<and> (\<forall>as s s'. run step as s = Some s' \<longrightarrow> leave \<notin> set as \<longrightarrow>
          count_list as own \<le> k \<and> (count_list as own = k \<longrightarrow> ready s'))"

locale progress =
  fixes step :: "'a \<Rightarrow> 's \<Rightarrow> 's option" and inv :: "'s \<Rightarrow> bool"
    and own :: "tid \<Rightarrow> 'a" and leave :: "tid \<Rightarrow> 'a" and effect :: "tid \<Rightarrow> 's \<Rightarrow> nat" and rank :: "tid \<Rightarrow> 's \<Rightarrow> nat"
  assumes effect_mono: "step a s = Some s' \<Longrightarrow> effect t s \<le> effect t s'"
    and inv_quiet: "inv s \<Longrightarrow> step a s = Some s' \<Longrightarrow> effect t s' = effect t s \<Longrightarrow> inv s'"
    and own_step: "inv s \<Longrightarrow> step (own t) s = Some s' \<Longrightarrow> effect t s' = effect t s \<Longrightarrow> rank t s' < rank t s"
    and other_step: "inv s \<Longrightarrow> step a s = Some s' \<Longrightarrow> a \<noteq> own t \<Longrightarrow> a \<noteq> leave t \<Longrightarrow> effect t s' = effect t s \<Longrightarrow>
      rank t s' \<le> rank t s"
begin

lemma effect_run: "run step as s = Some s' \<Longrightarrow> effect t s \<le> effect t s'"
proof (induction as arbitrary: s)
  case (Cons a as)
  then obtain s1 where "step a s = Some s1" "run step as s1 = Some s'" by (auto split: option.splits)
  then show ?case using Cons.IH effect_mono [of a s s1 t] by (meson order_trans)
qed simp

lemma steps_bounded:
  "run step as s = Some s' \<Longrightarrow> inv s \<Longrightarrow> effect t s' = effect t s \<Longrightarrow> leave t \<notin> set as \<Longrightarrow>
     count_list as (own t) + rank t s' \<le> rank t s"
proof (induction as arbitrary: s)
  case (Cons a as)
  obtain s1 where s1: "step a s = Some s1" "run step as s1 = Some s'" using Cons.prems(1) by (auto split: option.splits)
  have e: "effect t s1 = effect t s"
    using effect_mono [OF s1(1), of t] effect_run [OF s1(2), of t] Cons.prems(3) by simp
  have "count_list as (own t) + rank t s' \<le> rank t s1"
    using Cons.IH [OF s1(2) inv_quiet [OF Cons.prems(2) s1(1) e]] Cons.prems(3,4) e by simp
  then show ?case
    using own_step [OF Cons.prems(2), of t s1] other_step [OF Cons.prems(2) s1(1), of t] s1(1) Cons.prems(4) e
    by (cases "a = own t") auto
qed simp

lemma wait_free_within:
  assumes "\<forall>s. inv s" "\<forall>s. effect t s = c" "\<forall>s. rank t s \<le> k" "\<forall>s. rank t s = 0 \<longrightarrow> ready s"
    and "\<forall>s. idle s \<or> ready s \<or> step (own t) s \<noteq> None"
  shows "wait_free step (own t) (leave t) idle ready k"
  unfolding wait_free_def
proof (intro conjI allI impI)
  fix as s s' assume r: "run step as s = Some s'" and l: "leave t \<notin> set as"
  have b: "count_list as (own t) + rank t s' \<le> rank t s"
    by (rule steps_bounded [OF r]) (use assms(1,2) l in simp_all)
  then show "count_list as (own t) \<le> k" using assms(3) by (metis add_leD1 order_trans)
  assume "count_list as (own t) = k"
  then have "rank t s' = 0" using b assms(3) by (metis add_le_same_cancel1 le_zero_eq order_trans)
  then show "ready s'" using assms(4) by blast
qed (use assms(5) in blast)

end

section \<open>The single-producer single-consumer queues\<close>

text \<open>Goroutine 0 is the producer, every other number means the consumer.\<close>

definition sp_own :: "tid \<Rightarrow> 'a spsc_act" where
  "sp_own t = (if t = 0 then StepProd else StepCons)"

definition sp_leave :: "tid \<Rightarrow> 'a spsc_act" where
  "sp_leave t = (if t = 0 then ReturnProd else ReturnCons)"

fun prod_rank :: "'a prod_pc \<Rightarrow> nat" where
  "prod_rank PIdle = 4" | "prod_rank (PLoadTail v) = 4" | "prod_rank (PLoadHead v t) = 3"
| "prod_rank (PWrite v t) = 2" | "prod_rank (PStore v t) = 1" | "prod_rank (PDone v b) = 0"

fun cons_rank :: "'a cons_pc \<Rightarrow> nat" where
  "cons_rank CIdle = 4" | "cons_rank CLoadHead = 4" | "cons_rank (CLoadTail h) = 3"
| "cons_rank (CRead h) = 2" | "cons_rank (CStore h v) = 1" | "cons_rank (CDone v b) = 0"

interpretation spsc_progress: progress SPSC_step "\<lambda>_. True" sp_own sp_leave "\<lambda>_ _. 0"
  "\<lambda>t s. if t = 0 then prod_rank (sp_prod s) else cons_rank (sp_cons s)"
proof (unfold_locales, goal_cases)
  case (3 s t s')
  then show ?case
    by (auto simp: sp_own_def SPSC_Enqueue_step_def SPSC_Dequeue_step_def Let_def split: prod_pc.splits cons_pc.splits if_splits)
next
  case (4 s a s' t)
  then show ?case
    by (cases a) (auto simp: sp_own_def sp_leave_def SPSC_Enqueue_step_def SPSC_Dequeue_step_def Let_def
        split: prod_pc.splits cons_pc.splits if_splits)
qed simp_all

interpretation cached_progress: progress Cached_step "\<lambda>_. True" sp_own sp_leave "\<lambda>_ _. 0"
  "\<lambda>t s. if t = 0 then prod_rank (prod_view (csp_prod s)) else cons_rank (cons_view (csp_cons s))"
proof (unfold_locales, goal_cases)
  case (3 s t s')
  then show ?case
    by (auto simp: sp_own_def Cached_Enqueue_step_def Cached_Dequeue_step_def Let_def split: cprod_pc.splits ccons_pc.splits if_splits)
next
  case (4 s a s' t)
  then show ?case
    by (cases a) (auto simp: sp_own_def sp_leave_def Cached_Enqueue_step_def Cached_Dequeue_step_def Let_def
        split: cprod_pc.splits ccons_pc.splits if_splits)
qed simp_all

lemma prod_rank_bounds: "prod_rank p \<le> 4" "prod_rank p = 0 \<longleftrightarrow> (\<exists>v b. p = PDone v b)"
  by (cases p; simp)+

lemma cons_rank_bounds: "cons_rank p \<le> 4" "cons_rank p = 0 \<longleftrightarrow> (\<exists>v b. p = CDone v b)"
  by (cases p; simp)+

lemma view_done: "prod_view p = PDone v b \<longleftrightarrow> p = CPDone v b" "cons_view q = CDone v b \<longleftrightarrow> q = CCDone v b"
  by (cases p; simp) (cases q; simp)

lemma spsc_enabled:
  "sp_prod s = PIdle \<or> (\<exists>v b. sp_prod s = PDone v b) \<or> SPSC_step StepProd s \<noteq> None"
  "sp_cons s = CIdle \<or> (\<exists>v b. sp_cons s = CDone v b) \<or> SPSC_step StepCons s \<noteq> None"
  by (auto simp: SPSC_Enqueue_step_def SPSC_Dequeue_step_def Let_def split: prod_pc.splits cons_pc.splits)

lemma cached_enabled:
  "csp_prod c = CPIdle \<or> (\<exists>v b. csp_prod c = CPDone v b) \<or> Cached_step StepProd c \<noteq> None"
  "csp_cons c = CCIdle \<or> (\<exists>v b. csp_cons c = CCDone v b) \<or> Cached_step StepCons c \<noteq> None"
  by (auto simp: Cached_Enqueue_step_def Cached_Dequeue_step_def Let_def split: cprod_pc.splits ccons_pc.splits)

text \<open>C29: \<^verbatim>\<open>SPSCQueue\<close> and \<^verbatim>\<open>CachedSPSCQueue\<close> are wait-free: in any state, even a
  corrupted one, and whatever the other side does meanwhile, a call of the producer or of the consumer is
  never blocked and takes at most four steps of its own; after the fourth its result is ready.\<close>

theorem spsc_wait_free:
  "wait_free SPSC_step StepProd ReturnProd (\<lambda>s :: 'a::zero SPSCQueue. sp_prod s = PIdle) (\<lambda>s. \<exists>v b. sp_prod s = PDone v b) 4
   \<and> wait_free SPSC_step StepCons ReturnCons (\<lambda>s :: 'a SPSCQueue. sp_cons s = CIdle) (\<lambda>s. \<exists>v b. sp_cons s = CDone v b) 4
   \<and> wait_free Cached_step StepProd ReturnProd (\<lambda>c :: 'a CachedSPSCQueue. csp_prod c = CPIdle) (\<lambda>c. \<exists>v b. csp_prod c = CPDone v b) 4
   \<and> wait_free Cached_step StepCons ReturnCons (\<lambda>c :: 'a CachedSPSCQueue. csp_cons c = CCIdle) (\<lambda>c. \<exists>v b. csp_cons c = CCDone v b) 4"
  using spsc_progress.wait_free_within
      [of 0 0 4 "\<lambda>s. \<exists>v b. sp_prod s = PDone v b" "\<lambda>s :: 'a SPSCQueue. sp_prod s = PIdle"]
    spsc_progress.wait_free_within
      [of 0 1 4 "\<lambda>s. \<exists>v b. sp_cons s = CDone v b" "\<lambda>s :: 'a SPSCQueue. sp_cons s = CIdle"]
    cached_progress.wait_free_within
      [of 0 0 4 "\<lambda>s. \<exists>v b. csp_prod s = CPDone v b" "\<lambda>s :: 'a CachedSPSCQueue. csp_prod s = CPIdle"]
    cached_progress.wait_free_within
      [of 0 1 4 "\<lambda>s. \<exists>v b. csp_cons s = CCDone v b" "\<lambda>s :: 'a CachedSPSCQueue. csp_cons s = CCIdle"]
    spsc_enabled [where 'a = 'a] cached_enabled [where 'a = 'a]
  by (simp add: sp_own_def sp_leave_def prod_rank_bounds cons_rank_bounds view_done del: SPSC_step.simps Cached_step.simps)

lemma spsc_wait_free_witness:
  "\<exists>s. run SPSC_step [CallEnqueue (7 :: nat), StepProd, CallDequeue, StepProd, StepCons, StepProd, StepProd] NewSPSCQueue = Some s
     \<and> (\<exists>v b. sp_prod s = PDone v b)"
proof -
  let ?as = "[CallEnqueue (7 :: nat), StepProd, CallDequeue, StepProd, StepCons, StepProd, StepProd]"
  have z: "of_nat BoundedQueueSize \<noteq> (0 :: u64)" "\<not> of_nat BoundedQueueSize \<le> (0 :: u64)" by (simp_all add: BoundedQueueSize_def)
  obtain s where s: "run SPSC_step ?as NewSPSCQueue = Some s"
    using z by (simp add: NewSPSCQueue_def SPSC_Enqueue_step_def SPSC_Dequeue_step_def Let_def)
  have "wait_free SPSC_step StepProd ReturnProd (\<lambda>s :: nat SPSCQueue. sp_prod s = PIdle) (\<lambda>s. \<exists>v b. sp_prod s = PDone v b) 4"
    using spsc_wait_free by blast
  then have "ReturnProd \<notin> set ?as \<longrightarrow> count_list ?as StepProd = 4 \<longrightarrow> (\<exists>v b. sp_prod s = PDone v b)"
    using s unfolding wait_free_def by blast
  then show ?thesis using s by simp
qed

section \<open>The Treiber stack\<close>

fun tr_rank :: "nat option \<Rightarrow> 'a tr_pc \<Rightarrow> nat" where
  "tr_rank h TrIdle = 5" | "tr_rank h (TrNew v) = 4" | "tr_rank h (TrLoad v n) = 3"
| "tr_rank h (TrNext v n p) = (if p = h then 2 else 5)" | "tr_rank h (TrPushCas v n p) = (if p = h then 1 else 4)"
| "tr_rank h (TrPushed v) = 0" | "tr_rank h TrPopLoad = 3" | "tr_rank h (TrRead p) = (if Some p = h then 2 else 5)"
| "tr_rank h (TrPopCas p v x) = (if Some p = h then 1 else 4)" | "tr_rank h (TrPopped v b) = 0"

text \<open>What has taken effect by the hand of others.\<close>

definition tr_others_log :: "tid \<Rightarrow> 'a LockFreeStack \<Rightarrow> (tid \<times> 'a stack_op \<times> 'a stack_result) list" where
  "tr_others_log t s = filter (\<lambda>e. fst e \<noteq> t) (tr_log s)"

lemma tr_quiet_head:
  "Treiber_step a s = Some s' \<Longrightarrow> a \<noteq> TrStep t \<Longrightarrow> length (tr_others_log t s') = length (tr_others_log t s) \<Longrightarrow> nd_head s' = nd_head s"
  by (cases a) (auto simp: tr_others_log_def Treiber_Push_step_def Treiber_Pop_step_def split: tr_pc.splits option.splits if_splits)

lemma tr_others:
  "Treiber_step a s = Some s' \<Longrightarrow> a \<notin> {TrStep t, TrReturn t, TrPop t} \<Longrightarrow> \<forall>v. a \<noteq> TrPush t v \<Longrightarrow> tr_pc s' t = tr_pc s t"
  by (cases a) (auto simp: Treiber_Push_step_def Treiber_Pop_step_def split: tr_pc.splits option.splits if_splits)

interpretation treiber_progress: progress Treiber_step "\<lambda>_. True" TrStep TrReturn "\<lambda>t s. length (tr_others_log t s)"
  "\<lambda>t s. tr_rank (nd_head s) (tr_pc s t)"
proof (unfold_locales, goal_cases)
  case (1 a s s' t)
  then show ?case
    by (cases a) (auto simp: tr_others_log_def Treiber_Push_step_def Treiber_Pop_step_def split: tr_pc.splits option.splits if_splits)
next
  case (3 s t s')
  then show ?case
    by (auto simp: Treiber_Push_step_def Treiber_Pop_step_def split: tr_pc.splits option.splits if_splits)
next
  case (4 s a s' t)
  note h = tr_quiet_head [OF 4(2,3,5)]
  show ?case
  proof (cases "a = TrPop t \<or> (\<exists>v. a = TrPush t v)")
    case True
    then show ?thesis using 4(2) by (auto split: if_splits)
  next
    case False
    then have "tr_pc s' t = tr_pc s t" using tr_others [OF 4(2), of t] 4(3,4) by blast
    then show ?thesis using h by simp
  qed
qed simp

lemma tr_enabled: "tr_pc s t = TrIdle \<or> tr_finished (tr_pc s t) \<or> (\<exists>s'. Treiber_step (TrStep t) s = Some s')"
  by (cases "tr_pc s t") (auto simp: Treiber_Push_step_def Treiber_Pop_step_def split: option.splits)

lemma tr_rank_le: "tr_rank h p \<le> 5"
  by (cases p) simp_all

lemma tr_rank_zero: "tr_rank h p = 0 \<Longrightarrow> tr_finished p"
  by (cases p) (simp_all split: if_splits)

text \<open>C18: The Treiber stack is lock-free: in any stretch of a run in which no operation of another goroutine
  takes effect, a goroutine takes at most five steps of a call, and after the fifth the call is finished and its
  result ready, however the goroutines are scheduled and wherever in their loops they stood when the stretch
  began; and a goroutine in the middle of a call can always take its next step. Its own operation, when it takes
  effect, is the end of the call. So a goroutine can retry for ever only because others push and pop.\<close>

theorem treiber_lock_free:
  assumes "run Treiber_step as s = Some s'" and "tr_others_log t s' = tr_others_log t s" and "TrReturn t \<notin> set as"
  shows "count_list as (TrStep t) \<le> 5 \<and> (count_list as (TrStep t) = 5 \<longrightarrow> tr_finished (tr_pc s' t))
    \<and> (tr_pc s' t = TrIdle \<or> tr_finished (tr_pc s' t) \<or> (\<exists>s''. Treiber_step (TrStep t) s' = Some s''))"
proof -
  have b: "count_list as (TrStep t) + tr_rank (nd_head s') (tr_pc s' t) \<le> tr_rank (nd_head s) (tr_pc s t)"
    using treiber_progress.steps_bounded [OF assms(1), of t] assms(2,3) by simp
  moreover have "tr_rank (nd_head s) (tr_pc s t) \<le> 5" by (rule tr_rank_le)
  ultimately have "count_list as (TrStep t) \<le> 5" "count_list as (TrStep t) = 5 \<Longrightarrow> tr_rank (nd_head s') (tr_pc s' t) = 0"
    by linarith+
  then show ?thesis using tr_rank_zero tr_enabled by blast
qed

text \<open>Goroutine 1 has read the head, then goroutine 2 pushes. From there on goroutine 1 fails once, tries again and
  succeeds with its fifth step.\<close>

lemma treiber_lock_free_witness:
  "\<exists>s s'. run Treiber_step [TrPush 1 (7 :: nat), TrStep 1, TrStep 1, TrPush 2 8, TrStep 2, TrStep 2, TrStep 2, TrStep 2]
       NewLockFreeStack = Some s
     \<and> run Treiber_step (replicate 5 (TrStep 1)) s = Some s' \<and> tr_log s' = tr_log s @ [(1, Push 7, PushRes)]
     \<and> tr_finished (tr_pc s' 1)"
proof -
  obtain s where s: "run Treiber_step [TrPush 1 (7 :: nat), TrStep 1, TrStep 1, TrPush 2 8, TrStep 2, TrStep 2,
      TrStep 2, TrStep 2] NewLockFreeStack = Some s" and p: "tr_pc s 1 = TrNext 7 0 None" "nd_head s = Some 1"
    by (simp add: NewLockFreeStack_def Treiber_Push_step_def Treiber_Pop_step_def del: One_nat_def)
  obtain s' where s': "run Treiber_step (replicate 5 (TrStep 1)) s = Some s'" "tr_log s' = tr_log s @ [(1, Push 7, PushRes)]"
    using p by (simp add: Treiber_Push_step_def numeral_eq_Suc)
  have "tr_others_log 1 s' = tr_others_log 1 s" using s'(2) by (simp add: tr_others_log_def)
  moreover have "TrReturn 1 \<notin> set (replicate 5 (TrStep 1 :: nat tr_act))" by simp
  moreover have "count_list (replicate 5 (TrStep 1 :: nat tr_act)) (TrStep 1) = 5" by (simp add: numeral_eq_Suc)
  ultimately have "tr_finished (tr_pc s' 1)" using treiber_lock_free [OF s'(1), of 1] by blast
  then show ?thesis using s s' by blast
qed

section \<open>The multi-producer multi-consumer queue\<close>

fun lf_rank :: "u64 \<Rightarrow> u64 \<Rightarrow> 'a lf_pc \<Rightarrow> nat" where
  "lf_rank h l LfIdle = 5" | "lf_rank h l (ELoadTail v) = 5" | "lf_rank h l (ELoadSeq v w) = (if w = l then 4 else 7)"
| "lf_rank h l (ECas v w) = (if w = l then 3 else 6)" | "lf_rank h l (EWrite v w) = 2" | "lf_rank h l (EStore v w) = 1"
| "lf_rank h l (EDone v b) = 0" | "lf_rank h l DLoadHead = 5" | "lf_rank h l (DLoadSeq w) = (if w = h then 4 else 7)"
| "lf_rank h l (DCas w) = (if w = h then 3 else 6)" | "lf_rank h l (DRead w) = 3" | "lf_rank h l (DClear w v) = 2"
| "lf_rank h l (DStore w v) = 1" | "lf_rank h l (DDone v b) = 0"

definition lf_calm :: "'a::zero LockFreeMPMC \<Rightarrow> bool" where
  "lf_calm s \<longleftrightarrow> lf_ok s \<and> lf_owned s \<and> lf_small s"

lemma lf_quiet_ends:
  "LFMPMC_step a s = Some s' \<Longrightarrow> length (lf_log s') = length (lf_log s) \<Longrightarrow>
     lf_head s' = lf_head s \<and> lf_tail s' = lf_tail s \<and> lf_enqs s' = lf_enqs s"
  by (cases a) (auto simp: LFMPMC_Enqueue_step_def LFMPMC_Dequeue_step_def Let_def split: lf_pc.splits if_splits)

lemma lf_others:
  "LFMPMC_step a s = Some s' \<Longrightarrow> a \<notin> {LfStep t, LfReturn t, LfDequeue t} \<Longrightarrow> \<forall>v. a \<noteq> LfEnqueue t v \<Longrightarrow> lf_pc s' t = lf_pc s t"
  by (cases a) (auto simp: LFMPMC_Enqueue_step_def LFMPMC_Dequeue_step_def Let_def split: lf_pc.splits if_splits)

text \<open>A goroutine that has just read the current end of the ring does not retry: its slot is free, or
  full, or not ready.\<close>

lemma lf_fresh_tail:
  assumes "lf_calm s"
  shows "lf_seq s (slot_of (lf_tail s)) - lf_tail s = 0 \<or> lf_seq s (slot_of (lf_tail s)) - lf_tail s <s 0"
  using lf_reusable_iff [of s] assms lf_tail_eq [OF lf_ok_tickets, of s] by (auto simp: lf_calm_def slot_of_nat)

lemma lf_fresh_head:
  assumes "lf_calm s"
  shows "lf_seq s (slot_of (lf_head s)) - (lf_head s + 1) = 0 \<or> lf_seq s (slot_of (lf_head s)) - (lf_head s + 1) <s 0"
  using lf_front_iff [of s] assms lf_head_eq [OF lf_ok_tickets, of s] by (auto simp: lf_calm_def slot_of_nat)

interpretation mpmc_progress: progress LFMPMC_step lf_calm LfStep LfReturn "\<lambda>_ s. length (lf_log s)"
  "\<lambda>t s. lf_rank (lf_head s) (lf_tail s) (lf_pc s t)"
proof (unfold_locales, goal_cases)
  case (1 a s s' t)
  then show ?case
    by (cases a) (auto simp: LFMPMC_Enqueue_step_def LFMPMC_Dequeue_step_def Let_def split: lf_pc.splits if_splits)
next
  case (2 s a s' t)
  then have "lf_enqs s' = lf_enqs s" using lf_quiet_ends by blast
  then show ?case using 2 lf_keeps lf_owned_keeps unfolding lf_calm_def lf_small_def by metis
next
  case (3 s t s')
  note f = lf_fresh_tail [OF 3(1)] lf_fresh_head [OF 3(1)]
  show ?case
    using 3(2,3) f
    by (cases "lf_pc s t") (auto simp: LFMPMC_Enqueue_step_def LFMPMC_Dequeue_step_def Let_def split: if_splits)
next
  case (4 s a s' t)
  note h = lf_quiet_ends [OF 4(2) 4(5)]
  show ?case
  proof (cases "a = LfDequeue t \<or> (\<exists>v. a = LfEnqueue t v)")
    case True
    then show ?thesis using 4(2) by (auto split: if_splits)
  next
    case False
    then have "lf_pc s' t = lf_pc s t" using lf_others [OF 4(2), of t] 4(3,4) by blast
    then show ?thesis using h by simp
  qed
qed

lemma lf_enabled: "lf_pc s t = LfIdle \<or> lf_finished (lf_pc s t) \<or> (\<exists>s'. LFMPMC_step (LfStep t) s = Some s')"
  by (cases "lf_pc s t") (auto simp: lf_finished_def LFMPMC_Enqueue_step_def LFMPMC_Dequeue_step_def Let_def)



end
