(* ===== verification/Fairness.thy ===== *)
theory Fairness
  imports Prelude "HOL-Library.Countable"
begin

text \<open>
  Infinite runs of a machine under a fair scheduler, and the rule by which liveness is proved. A run is a
  sequence of states and of the actions taken between them, \<open>None\<close> standing for a moment in which nothing
  of the machine moves. An action is treated fairly when it cannot stay possible for ever without being
  taken; the set \<open>F\<close> says for which actions the scheduler promises that.
\<close>

section \<open>Fair runs\<close>

definition infinite_run :: "('a \<Rightarrow> 's \<Rightarrow> 's option) \<Rightarrow> (nat \<Rightarrow> 's) \<Rightarrow> (nat \<Rightarrow> 'a option) \<Rightarrow> bool" where
  "infinite_run step \<sigma> \<alpha> \<longleftrightarrow>
     (\<forall>n. case \<alpha> n of None \<Rightarrow> \<sigma> (Suc n) = \<sigma> n | Some a \<Rightarrow> step a (\<sigma> n) = Some (\<sigma> (Suc n)))"

definition fair_run :: "('a \<Rightarrow> 's \<Rightarrow> 's option) \<Rightarrow> 'a set \<Rightarrow> (nat \<Rightarrow> 's) \<Rightarrow> (nat \<Rightarrow> 'a option) \<Rightarrow> bool" where
  "fair_run step F \<sigma> \<alpha> \<longleftrightarrow>
     infinite_run step \<sigma> \<alpha> \<and> (\<forall>x \<in> F. \<forall>n. \<exists>m \<ge> n. \<alpha> m = Some x \<or> step x (\<sigma> m) = None)"

lemma infinite_runD:
  assumes "infinite_run step \<sigma> \<alpha>"
  shows infinite_run_idle: "\<alpha> n = None \<Longrightarrow> \<sigma> (Suc n) = \<sigma> n"
    and infinite_run_act: "\<alpha> n = Some a \<Longrightarrow> step a (\<sigma> n) = Some (\<sigma> (Suc n))"
  using assms unfolding infinite_run_def by (metis option.simps(4), metis option.simps(5))

lemma fair_run_infinite: "fair_run step F \<sigma> \<alpha> \<Longrightarrow> infinite_run step \<sigma> \<alpha>"
  by (simp add: fair_run_def)

lemma infinite_run_steps:
  assumes "infinite_run step \<sigma> \<alpha>"
  shows "\<exists>as. run step as (\<sigma> n) = Some (\<sigma> (n + k))"
proof (induction k)
  case 0
  show ?case by (intro exI [of _ "[]"]) simp
next
  case (Suc k)
  then obtain as where as: "run step as (\<sigma> n) = Some (\<sigma> (n + k))" by blast
  show ?case
  proof (cases "\<alpha> (n + k)")
    case None
    then show ?thesis using as infinite_run_idle [OF assms None] by auto
  next
    case (Some a)
    then have "run step (as @ [a]) (\<sigma> n) = Some (\<sigma> (n + Suc k))"
      using as infinite_run_act [OF assms Some] by (simp add: run_append)
    then show ?thesis by blast
  qed
qed

lemma infinite_run_reached: "infinite_run step \<sigma> \<alpha> \<Longrightarrow> \<exists>as. run step as (\<sigma> 0) = Some (\<sigma> n)"
  using infinite_run_steps [of step \<sigma> \<alpha> 0 n] by simp

lemma infinite_run_unless:
  assumes run: "infinite_run step \<sigma> \<alpha>" and "P (\<sigma> n)" and st: "\<And>s a s'. P s \<Longrightarrow> step a s = Some s' \<Longrightarrow> P s' \<or> Q s'"
    and m: "n \<le> m"
  shows "P (\<sigma> m) \<or> (\<exists>k \<ge> n. Q (\<sigma> k))"
  using m
proof (induction rule: dec_induct)
  case (step k)
  show ?case
  proof (cases "\<alpha> k")
    case None
    then show ?thesis using step.IH infinite_run_idle [OF run] by simp
  next
    case (Some a)
    have "n \<le> Suc k" using step.hyps(1) by simp
    then show ?thesis using step.IH st infinite_run_act [OF run Some] by blast
  qed
qed (use assms(2) in blast)

text \<open>A finite run that ends where no fair action is possible is a fair run.\<close>

definition halted :: "('a \<Rightarrow> 's \<Rightarrow> 's option) \<Rightarrow> 'a list \<Rightarrow> 's \<Rightarrow> nat \<Rightarrow> 's" where
  "halted step as s n = the (run step (take n as) s)"

definition halted_acts :: "'a list \<Rightarrow> nat \<Rightarrow> 'a option" where
  "halted_acts as n = (if n < length as then Some (as ! n) else None)"

lemma halted_fair:
  assumes r: "run step as s = Some s'" and quiet: "\<forall>x \<in> F. step x s' = None"
  shows "fair_run step F (halted step as s) (halted_acts as)"
proof -
  have part: "run step (take n as) s = Some (halted step as s n)" for n
  proof -
    have "run step (take n as @ drop n as) s = Some s'" using r by simp
    then have "run step (take n as) s \<noteq> None" unfolding run_append by (auto split: option.splits)
    then show ?thesis by (auto simp: halted_def)
  qed
  have "step (as ! n) (halted step as s n) = Some (halted step as s (Suc n))" if "n < length as" for n
  proof -
    have "run step (take n as @ [as ! n]) s = Some (halted step as s (Suc n))"
      using part [of "Suc n"] that by (simp add: take_Suc_conv_app_nth)
    then show ?thesis using part [of n] by (auto simp: run_append split: option.splits)
  qed
  moreover have last: "halted step as s n = s'" if "length as \<le> n" for n using r that by (simp add: halted_def)
  ultimately have "infinite_run step (halted step as s) (halted_acts as)"
    by (auto simp: infinite_run_def halted_acts_def)
  moreover have "\<exists>m \<ge> n. step x (halted step as s m) = None" if "x \<in> F" for x n
    using quiet that last by (intro exI [of _ "max n (length as)"]) simp
  ultimately show ?thesis unfolding fair_run_def by blast
qed

text \<open>
  Fair runs exist from every state: a scheduler that offers each of countably many actions again and again,
  and lets the machine rest when the action it offers is not possible, is fair to all of them.
\<close>

definition offered :: "nat \<Rightarrow> 'a::countable" where
  "offered n = from_nat (fst (prod_decode n))"

primrec patient :: "('a::countable \<Rightarrow> 's \<Rightarrow> 's option) \<Rightarrow> 's \<Rightarrow> nat \<Rightarrow> 's" where
  "patient step s 0 = s"
| "patient step s (Suc n) = (case step (offered n) (patient step s n) of None \<Rightarrow> patient step s n | Some s' \<Rightarrow> s')"

definition patient_acts :: "('a::countable \<Rightarrow> 's \<Rightarrow> 's option) \<Rightarrow> 's \<Rightarrow> nat \<Rightarrow> 'a option" where
  "patient_acts step s n = (if step (offered n) (patient step s n) = None then None else Some (offered n))"

lemma offered_again: "\<exists>m \<ge> n. offered m = (x :: 'a::countable)"
proof -
  have "offered (prod_encode (to_nat x, n)) = x" by (simp add: offered_def)
  moreover have "n \<le> prod_encode (to_nat x, n)" by (rule le_prod_encode_2)
  ultimately show ?thesis by blast
qed

lemma patient_fair: "fair_run step F (patient step s) (patient_acts step s)"
proof -
  have "infinite_run step (patient step s) (patient_acts step s)"
    unfolding infinite_run_def by (auto simp: patient_acts_def split: option.splits)
  moreover have "\<exists>m \<ge> n. patient_acts step s m = Some x \<or> step x (patient step s m) = None" for x n
    using offered_again [of n x] by (auto simp: patient_acts_def)
  ultimately show ?thesis unfolding fair_run_def by blast
qed

text \<open>A run that comes back to a state and goes round in a cycle for ever: what happens in the cycle recurs.\<close>

definition recurs :: "('a \<Rightarrow> bool) \<Rightarrow> (nat \<Rightarrow> 'a option) \<Rightarrow> bool" where
  "recurs P \<alpha> \<longleftrightarrow> (\<forall>n. \<exists>m \<ge> n. \<exists>a. \<alpha> m = Some a \<and> P a)"

definition cyclic_acts :: "'a list \<Rightarrow> 'a list \<Rightarrow> nat \<Rightarrow> 'a option" where
  "cyclic_acts pre cyc n = Some (if n < length pre then pre ! n else cyc ! ((n - length pre) mod length cyc))"

definition cyclic :: "('a \<Rightarrow> 's \<Rightarrow> 's option) \<Rightarrow> 'a list \<Rightarrow> 'a list \<Rightarrow> 's \<Rightarrow> nat \<Rightarrow> 's" where
  "cyclic step pre cyc s n =
     (if n < length pre then the (run step (take n pre) s)
      else the (run step (take ((n - length pre) mod length cyc) cyc) (the (run step pre s))))"

lemma run_take:
  assumes "run step as s = Some s'" and "n < length as"
  shows "\<exists>t. run step (take n as) s = Some t \<and> run step (take (Suc n) as) s = step (as ! n) t"
proof -
  have "run step (take n as @ drop n as) s = Some s'" using assms(1) by simp
  then obtain t where "run step (take n as) s = Some t" unfolding run_append by (auto split: option.splits)
  then show ?thesis using assms(2) by (auto simp: take_Suc_conv_app_nth run_append split: option.splits)
qed

lemma cyclic_occurs:
  assumes "x \<in> set cyc"
  shows "\<exists>m \<ge> n. cyclic_acts pre cyc m = Some x"
proof -
  obtain i where i: "i < length cyc" "cyc ! i = x" using assms by (auto simp: in_set_conv_nth)
  let ?m = "length pre + (i + length cyc * n)"
  have "n \<le> length cyc * n" using i(1) by (cases "length cyc") auto
  then have "n \<le> ?m" by (rule order_trans) simp
  moreover have "cyclic_acts pre cyc ?m = Some x" using i by (simp add: cyclic_acts_def)
  ultimately show ?thesis by blast
qed

lemma cyclic_recurs: "x \<in> set cyc \<Longrightarrow> P x \<Longrightarrow> recurs P (cyclic_acts pre cyc)"
  unfolding recurs_def using cyclic_occurs by metis

lemma cyclic_infinite:
  assumes pre: "run step pre s = Some s1" and cyc: "run step cyc s1 = Some s1" "cyc \<noteq> []"
  shows "infinite_run step (cyclic step pre cyc s) (cyclic_acts pre cyc)"
proof -
  have "step (the (cyclic_acts pre cyc n)) (cyclic step pre cyc s n) = Some (cyclic step pre cyc s (Suc n))" for n
  proof (cases "n < length pre")
    case True
    obtain s' where "run step (take (Suc n) pre) s = Some s'"
    proof (cases "Suc n = length pre")
      case False
      then show ?thesis using that run_take [OF pre, of "Suc n"] True by auto
    qed (use that pre in simp)
    moreover from this have "cyclic step pre cyc s (Suc n) = s'"
      using True pre by (cases "Suc n = length pre") (auto simp: cyclic_def)
    ultimately show ?thesis using run_take [OF pre True] True by (auto simp: cyclic_def cyclic_acts_def)
  next
    case False
    let ?r = "(n - length pre) mod length cyc"
    have r: "?r < length cyc" using cyc(2) by simp
    obtain t where t: "run step (take ?r cyc) s1 = Some t" "run step (take (Suc ?r) cyc) s1 = step (cyc ! ?r) t"
      using run_take [OF cyc(1) r] by blast
    have n: "(Suc n - length pre) mod length cyc = (if Suc ?r = length cyc then 0 else Suc ?r)"
      using False by (simp add: Suc_diff_le mod_Suc)
    have next_state: "cyclic step pre cyc s (Suc n) = the (run step (take (if Suc ?r = length cyc then 0 else Suc ?r) cyc) s1)"
      using False pre unfolding n [symmetric] by (simp add: cyclic_def)
    have "\<exists>s'. step (cyc ! ?r) t = Some s' \<and> cyclic step pre cyc s (Suc n) = s'"
    proof (cases "Suc ?r = length cyc")
      case True
      have "cyclic step pre cyc s (Suc n) = s1" using next_state True by simp
      moreover have "step (cyc ! ?r) t = Some s1" unfolding t(2) [symmetric] True using cyc(1) by simp
      ultimately show ?thesis by blast
    next
      case not_last: False
      then have "Suc ?r < length cyc" using r by simp
      then show ?thesis using run_take [OF cyc(1), of "Suc ?r"] t(2) next_state not_last by auto
    qed
    then show ?thesis using False t(1) pre by (auto simp: cyclic_def cyclic_acts_def)
  qed
  then show ?thesis unfolding infinite_run_def by (simp add: cyclic_acts_def)
qed

lemma cyclic_fair:
  assumes pre: "run step pre s = Some s1" and cyc: "run step cyc s1 = Some s1" "cyc \<noteq> []"
    and F: "\<forall>x \<in> F. x \<in> set cyc \<or> step x s1 = None"
  shows "fair_run step F (cyclic step pre cyc s) (cyclic_acts pre cyc)"
proof -
  have "\<exists>m \<ge> n. cyclic step pre cyc s m = s1" for n
  proof (intro exI conjI)
    show "n \<le> length pre + length cyc * n" using cyc(2) by (cases cyc) auto
    show "cyclic step pre cyc s (length pre + length cyc * n) = s1" using pre by (simp add: cyclic_def)
  qed
  then have "\<exists>m \<ge> n. cyclic_acts pre cyc m = Some x \<or> step x (cyclic step pre cyc s m) = None" if "x \<in> F" for x n
    using F that cyclic_occurs by metis
  then show ?thesis using cyclic_infinite [OF pre cyc] by (simp add: fair_run_def)
qed

section \<open>The rule\<close>

text \<open>
  From every state that satisfies \<open>inv\<close> a goal is reached: until then some fair action \<open>helper\<close> is possible
  which brings the goal or lowers the rank, and no other action raises the rank or, while it leaves the
  rank as it is, changes what helps.
\<close>

locale fair_leads_to =
  fixes step :: "'a \<Rightarrow> 's \<Rightarrow> 's option" and F :: "'a set" and inv :: "'s \<Rightarrow> bool" and goal :: "'s \<Rightarrow> bool"
    and helper :: "'s \<Rightarrow> 'a" and rank :: "'s \<Rightarrow> nat"
  assumes helper_fair: "inv s \<Longrightarrow> \<not> goal s \<Longrightarrow> helper s \<in> F"
    and helper_step: "inv s \<Longrightarrow> \<not> goal s \<Longrightarrow> \<exists>s'. step (helper s) s = Some s' \<and> (goal s' \<or> rank s' < rank s)"
    and keeps: "inv s \<Longrightarrow> \<not> goal s \<Longrightarrow> step a s = Some s' \<Longrightarrow>
      goal s' \<or> inv s' \<and> (rank s' < rank s \<or> rank s' = rank s \<and> helper s' = helper s)"
begin

lemma waits:
  assumes run: "infinite_run step \<sigma> \<alpha>" and inv: "inv (\<sigma> n)" and no: "\<forall>m \<ge> n. \<not> goal (\<sigma> m)"
  shows "(\<exists>m \<ge> n. inv (\<sigma> m) \<and> rank (\<sigma> m) < rank (\<sigma> n))
    \<or> inv (\<sigma> (n + k)) \<and> rank (\<sigma> (n + k)) = rank (\<sigma> n) \<and> helper (\<sigma> (n + k)) = helper (\<sigma> n)"
proof (induction k)
  case (Suc k)
  have ng: "\<not> goal (\<sigma> (n + k))" "\<not> goal (\<sigma> (n + Suc k))" using no by simp_all
  show ?case
  proof (cases "\<exists>m \<ge> n. inv (\<sigma> m) \<and> rank (\<sigma> m) < rank (\<sigma> n)")
    case False
    then have i: "inv (\<sigma> (n + k))" "rank (\<sigma> (n + k)) = rank (\<sigma> n)" "helper (\<sigma> (n + k)) = helper (\<sigma> n)"
      using Suc by blast+
    show ?thesis
    proof (cases "\<alpha> (n + k)")
      case None
      then show ?thesis using infinite_run_idle [OF run None] i by simp
    next
      case (Some a)
      then have "step a (\<sigma> (n + k)) = Some (\<sigma> (n + Suc k))" using infinite_run_act [OF run Some] by simp
      from keeps [OF i(1) ng(1) this] ng(2) i show ?thesis by (metis le_add1)
    qed
  qed simp
qed (use inv in simp)

theorem reaches:
  assumes fair: "fair_run step F \<sigma> \<alpha>" and inv: "inv (\<sigma> n)"
  shows "\<exists>m \<ge> n. goal (\<sigma> m)"
  using inv
proof (induction "rank (\<sigma> n)" arbitrary: n rule: less_induct)
  case less
  note run = fair_run_infinite [OF fair]
  show ?case
  proof (rule ccontr)
    assume "\<not> ?case"
    then have no: "\<forall>m \<ge> n. \<not> goal (\<sigma> m)" by blast
    have low: "\<not> (\<exists>m \<ge> n. inv (\<sigma> m) \<and> rank (\<sigma> m) < rank (\<sigma> n))"
      using less.hyps no by (meson order_trans)
    note same = waits [OF run less.prems no]
    obtain m where m: "n \<le> m" "\<alpha> m = Some (helper (\<sigma> n)) \<or> step (helper (\<sigma> n)) (\<sigma> m) = None"
      using fair helper_fair [OF less.prems] no unfolding fair_run_def by blast
    have i: "inv (\<sigma> m)" "rank (\<sigma> m) = rank (\<sigma> n)" "helper (\<sigma> m) = helper (\<sigma> n)"
      using same [of "m - n"] low m(1) by auto
    have ng: "\<not> goal (\<sigma> m)" using no m(1) by blast
    obtain s' where s': "step (helper (\<sigma> n)) (\<sigma> m) = Some s'" "goal s' \<or> rank s' < rank (\<sigma> n)"
      using helper_step [OF i(1) ng] unfolding i by blast
    then have "\<alpha> m = Some (helper (\<sigma> n))" using m(2) by simp
    then have e: "\<sigma> (Suc m) = s'" using infinite_run_act [OF run] s'(1) by fastforce
    have n1: "n \<le> Suc m" using m(1) by simp
    then have "\<not> goal s'" using no e by blast
    then have "inv (\<sigma> (Suc m)) \<and> rank (\<sigma> (Suc m)) < rank (\<sigma> n)" using keeps [OF i(1) ng s'(1)] s'(2) e by blast
    then show False using low n1 by blast
  qed
qed

lemma helper_moves: "inv s \<Longrightarrow> \<not> goal s \<Longrightarrow> quiet step inside s \<Longrightarrow> helper s \<notin> inside"
  using helper_step [of s] quietD [of step inside s "helper s"] by blast

end

text \<open>What a lock owes to whoever calls it.\<close>

definition starvation_free :: "('s \<Rightarrow> bool) \<Rightarrow> ('a \<Rightarrow> 's \<Rightarrow> 's option) \<Rightarrow> 'a set \<Rightarrow> ('s \<Rightarrow> 't \<Rightarrow> bool) \<Rightarrow> ('s \<Rightarrow> 't \<Rightarrow> bool) \<Rightarrow> bool" where
  "starvation_free init step F wants gets \<longleftrightarrow>
     (\<forall>\<sigma> \<alpha> n t. init (\<sigma> 0) \<longrightarrow> fair_run step F \<sigma> \<alpha> \<longrightarrow> wants (\<sigma> n) t \<longrightarrow> (\<exists>m \<ge> n. gets (\<sigma> m) t))"

lemma starvation_freeD:
  "starvation_free init step F wants gets \<Longrightarrow> init (\<sigma> 0) \<Longrightarrow> fair_run step F \<sigma> \<alpha> \<Longrightarrow> wants (\<sigma> n) t
    \<Longrightarrow> \<exists>m \<ge> n. gets (\<sigma> m) t"
  unfolding starvation_free_def by blast

text \<open>A fair scheduler of a lock: goroutines take their steps, and whoever holds the lock unlocks it.\<close>

definition lock_fair :: "lock_act set" where
  "lock_fair = {a. \<exists>t. a = Step t \<or> a = CallUnlock t}"

end
