(* ===== verification/Lock_Liveness.thy ===== *)
theory Lock_Liveness
  imports Fairness Lock_Ticket Lock_CLH Lock_MCS
begin

text \<open>
  Starvation freedom of the first-come-first-served locks: under a scheduler that lets every goroutine take
  its steps, and with clients that unlock what they hold, every call of \<^verbatim>\<open>Lock\<close> returns. The argument is
  the same for the three locks and is made once: the first of the queue always has a step that brings it
  closer to leaving, and nobody else's step sets it back.
\<close>

section \<open>The argument\<close>

locale fair_fifo_lock = fifo_lock init step inv in_cs arrived queue
  for init :: "'s \<Rightarrow> bool" and step :: "'a \<Rightarrow> 's \<Rightarrow> 's option" and inv :: "'s \<Rightarrow> bool"
    and in_cs :: "'s \<Rightarrow> tid \<Rightarrow> bool" and arrived :: "'s \<Rightarrow> tid \<Rightarrow> bool" and queue :: "'s \<Rightarrow> tid list" +
  fixes F :: "'a set" and bad :: "'s \<Rightarrow> bool" and bound :: nat and stage :: "'s \<Rightarrow> nat" and helper :: "'s \<Rightarrow> 'a"
  assumes stage_bound: "stage s < bound"
    and helps: "inv s \<Longrightarrow> \<not> bad s \<Longrightarrow> t \<in> set (queue s) \<Longrightarrow> \<not> in_cs s t \<Longrightarrow> helper s \<in> F \<and>
      (\<exists>s'. step (helper s) s = Some s' \<and> (bad s' \<or> queue s' = tl (queue s) \<or> queue s' = queue s \<and> stage s' < stage s))"
    and undisturbed: "inv s \<Longrightarrow> \<not> bad s \<Longrightarrow> t \<in> set (queue s) \<Longrightarrow> \<not> in_cs s t \<Longrightarrow> step a s = Some s' \<Longrightarrow>
      bad s' \<or> queue s' = tl (queue s) \<and> in_cs s (hd (queue s))
      \<or> (\<exists>us. queue s' = queue s @ us) \<and> (stage s' < stage s \<or> stage s' = stage s \<and> helper s' = helper s)"
begin

definition place :: "'s \<Rightarrow> tid \<Rightarrow> nat" where
  "place s t = length (takeWhile (\<lambda>u. u \<noteq> t) (queue s))"

lemma place_tl: "queue s' = tl (queue s) \<Longrightarrow> queue s = h # us \<Longrightarrow> h \<noteq> t \<Longrightarrow> place s t = Suc (place s' t)"
  by (simp add: place_def)

lemma place_append: "queue s' = queue s @ us \<Longrightarrow> t \<in> set (queue s) \<Longrightarrow> place s' t = place s t"
  by (auto simp: place_def takeWhile_append)

end

sublocale fair_fifo_lock \<subseteq> entering: fair_leads_to step F "\<lambda>s. inv s \<and> t \<in> set (queue s)" "\<lambda>s. in_cs s t \<or> bad s" helper
  "\<lambda>s. bound * place s t + stage s" for t
proof unfold_locales
  fix s assume s: "inv s \<and> t \<in> set (queue s)" and g: "\<not> (in_cs s t \<or> bad s)"
  obtain h us where q: "queue s = h # us" using s by (cases "queue s") auto
  have lower: "bound * place s' t + stage s' < bound * place s t + stage s"
    if "queue s' = tl (queue s)" "h \<noteq> t" for s'
    using place_tl [OF that(1) q that(2)] stage_bound [of s'] by simp
  have not_head: "h \<noteq> t" if "in_cs s h" using that g by blast
  show "helper s \<in> F" using helps [of s t] s g by blast
  show "(in_cs s' t \<or> bad s') \<or> (inv s' \<and> t \<in> set (queue s'))
      \<and> (bound * place s' t + stage s' < bound * place s t + stage s
         \<or> bound * place s' t + stage s' = bound * place s t + stage s \<and> helper s' = helper s)"
    if st: "step a s = Some s'" for a s'
  proof -
    have i: "inv s'" using inv_step st s by blast
    have "bad s' \<or> queue s' = tl (queue s) \<and> in_cs s (hd (queue s))
        \<or> (\<exists>us. queue s' = queue s @ us) \<and> (stage s' < stage s \<or> stage s' = stage s \<and> helper s' = helper s)"
      using undisturbed s g st by blast
    then show ?thesis
    proof (elim disjE conjE exE)
      assume "queue s' = tl (queue s)" "in_cs s (hd (queue s))"
      then show ?thesis using lower [of s'] not_head q s i by simp
    qed (use s i place_append [of s' s] in auto)
  qed
  obtain s' where s': "step (helper s) s = Some s'"
    "bad s' \<or> queue s' = tl (queue s) \<or> queue s' = queue s \<and> stage s' < stage s"
    using helps [of s t] s g by blast
  have "in_cs s' t \<or> bad s' \<or> bound * place s' t + stage s' < bound * place s t + stage s"
    using s'(2)
  proof (elim disjE conjE)
    assume e: "queue s' = tl (queue s)"
    show ?thesis
      using undisturbed [of s t "helper s" s'] s g s'(1) lower [OF e] not_head e q by auto
  qed (use place_append [of s' s "[]"] s in auto)
  then show "\<exists>s'. step (helper s) s = Some s' \<and> ((in_cs s' t \<or> bad s')
      \<or> bound * place s' t + stage s' < bound * place s t + stage s)" using s'(1) by blast
qed

context fair_fifo_lock
begin

lemma gets_in:
  assumes "init (\<sigma> 0)" and fair: "fair_run step F \<sigma> \<alpha>" and "\<exists>k \<ge> n. t \<in> set (queue (\<sigma> k))"
  shows "\<exists>m \<ge> n. in_cs (\<sigma> m) t \<or> bad (\<sigma> m)"
proof -
  obtain k where k: "n \<le> k" "t \<in> set (queue (\<sigma> k))" using assms(3) by blast
  have "inv (\<sigma> k)" using infinite_run_reached [OF fair_run_infinite [OF fair]] invariant [OF assms(1)] by blast
  then have "\<exists>m \<ge> k. in_cs (\<sigma> m) t \<or> bad (\<sigma> m)" using entering.reaches [OF fair] k(2) by blast
  then show ?thesis using k(1) order_trans by blast
qed

end

section \<open>TicketLock\<close>

definition ticket_stage :: "TicketLock \<Rightarrow> nat" where
  "ticket_stage s = (case tk_queue s of
     [] \<Rightarrow> 0
   | h # _ \<Rightarrow> (case tk_pc s h of TSpin w \<Rightarrow> 3 | THeld \<Rightarrow> 2 | _ \<Rightarrow> 1))"

definition ticket_helper :: "TicketLock \<Rightarrow> lock_act" where
  "ticket_helper s = (let h = hd (tk_queue s) in if tk_pc s h = THeld then CallUnlock h else Step h)"

lemma ticket_head:
  assumes "ticket_inv s" and "tk_queue s = h # us"
  shows "h < 2 ^ 64" and "tk_pc s h = TSpin (tk_serving s) \<or> tk_pc s h = THeld \<or> tk_pc s h = TRel"
  using assms unfolding ticket_inv_def by (auto simp: ticket_in_cs_def)

lemma ticket_undisturbed:
  assumes inv: "ticket_inv s" and q: "tk_queue s = h # us" and st: "ticket_step64 a s = Some s'"
  shows "tk_queue s' = us \<and> ticket_in_cs s h
    \<or> (\<exists>vs. tk_queue s' = tk_queue s @ vs) \<and> (ticket_stage s' < ticket_stage s
       \<or> ticket_stage s' = ticket_stage s \<and> ticket_helper s' = ticket_helper s)"
proof -
  note h = ticket_head [OF inv q]
  have cs: "t = h" if "ticket_in_cs s t" for t using ticket_cs_head [OF inv that] q by simp
  have sp: "t = h" if "tk_pc s t = TSpin (tk_serving s)" for t using ticket_spin_head [OF inv that] q by simp
  show ?thesis
  proof (cases a)
    case (CallLock t)
    then show ?thesis using st h q by (auto simp: ticket_step64_def ticket_stage_def ticket_helper_def split: if_splits)
  next
    case (CallUnlock t)
    then have "tk_pc s t = THeld" using st by (auto simp: ticket_step64_def split: if_splits)
    then have "t = h" using cs by (simp add: ticket_in_cs_def)
    then show ?thesis using CallUnlock st q
      by (auto simp: ticket_step64_def ticket_stage_def split: if_splits)
  next
    case (Step t)
    then show ?thesis using st h q cs [of t] sp [of t]
      by (auto simp: ticket_step64_def ticket_stage_def ticket_helper_def ticket_in_cs_def Let_def
          split: if_splits ticket_pc.splits)
  qed
qed

interpretation ticket_fair: fair_fifo_lock ticket_init ticket_step64 ticket_inv ticket_in_cs ticket_has tk_queue
  lock_fair "\<lambda>_. False" 4 ticket_stage ticket_helper
proof unfold_locales
  show "ticket_stage s < 4" for s by (simp add: ticket_stage_def split: list.splits ticket_pc.splits)
  fix s t assume inv: "ticket_inv s" and t: "t \<in> set (tk_queue s)"
  obtain h us where q: "tk_queue s = h # us" using t by (cases "tk_queue s") auto
  note h = ticket_head [OF inv q]
  show "ticket_helper s \<in> lock_fair
      \<and> (\<exists>s'. ticket_step64 (ticket_helper s) s = Some s'
           \<and> (False \<or> tk_queue s' = tl (tk_queue s) \<or> tk_queue s' = tk_queue s \<and> ticket_stage s' < ticket_stage s))"
    using h q by (auto simp: ticket_helper_def lock_fair_def ticket_step64_def ticket_stage_def)
  show "False \<or> tk_queue s' = tl (tk_queue s) \<and> ticket_in_cs s (hd (tk_queue s))
      \<or> (\<exists>us. tk_queue s' = tk_queue s @ us)
        \<and> (ticket_stage s' < ticket_stage s \<or> ticket_stage s' = ticket_stage s \<and> ticket_helper s' = ticket_helper s)"
    if "ticket_step64 a s = Some s'" for a s'
    using ticket_undisturbed [OF inv q that] q by auto
qed

fun ticket_locking :: "ticket_pc \<Rightarrow> bool" where
  "ticket_locking TAdd = True"
| "ticket_locking (TSpin w) = True"
| "ticket_locking p = False"

interpretation ticket_join: fair_leads_to ticket_step64 lock_fair "\<lambda>s. t < 2 ^ 64 \<and> tk_pc s t = TAdd"
  "\<lambda>s. ticket_has s t" "\<lambda>s :: TicketLock. Step t" "\<lambda>_. 0" for t
proof unfold_locales
  show "Step t \<in> lock_fair" by (simp add: lock_fair_def)
  fix s :: TicketLock assume j: "t < 2 ^ 64 \<and> tk_pc s t = TAdd"
  then show "\<exists>s'. ticket_step64 (Step t) s = Some s' \<and> (ticket_has s' t \<or> (0 :: nat) < 0)"
    by (simp add: ticket_step64_def ticket_has_def Let_def)
  fix a s' assume "ticket_step64 a s = Some s'"
  then show "ticket_has s' t \<or> (t < 2 ^ 64 \<and> tk_pc s' t = TAdd) \<and> ((0 :: nat) < 0 \<or> 0 = (0 :: nat) \<and> Step t = Step t)"
    using j by (cases a) (auto simp: ticket_step64_def ticket_has_def Let_def split: if_splits ticket_pc.splits)
qed

lemma ticket_starvation_free:
  "starvation_free ticket_init ticket_step64 lock_fair (\<lambda>s t. t < 2 ^ 64 \<and> ticket_locking (tk_pc s t)) ticket_in_cs"
  unfolding starvation_free_def
proof (intro allI impI)
  fix \<sigma> \<alpha> n t assume i: "ticket_init (\<sigma> 0)" and f: "fair_run ticket_step64 lock_fair \<sigma> \<alpha>"
    and w: "t < 2 ^ 64 \<and> ticket_locking (tk_pc (\<sigma> n) t)"
  have "\<exists>k \<ge> n. ticket_has (\<sigma> k) t"
  proof (cases "tk_pc (\<sigma> n) t = TAdd")
    case True
    then show ?thesis using ticket_join.reaches [OF f, of t n] w by blast
  next
    case False
    then have "ticket_has (\<sigma> n) t" using w by (cases "tk_pc (\<sigma> n) t") (auto simp: ticket_has_def)
    then show ?thesis by blast
  qed
  moreover have "ticket_inv (\<sigma> k)" for k
    using infinite_run_reached [OF fair_run_infinite [OF f]] ticket.invariant [OF i] by blast
  ultimately have "\<exists>k \<ge> n. t \<in> set (tk_queue (\<sigma> k))" unfolding ticket_inv_def by blast
  then show "\<exists>m \<ge> n. ticket_in_cs (\<sigma> m) t" using ticket_fair.gets_in [OF i f] by blast
qed

section \<open>CLHLock\<close>

definition clh_stage :: "CLHLock \<Rightarrow> nat" where
  "clh_stage s = (case cl_queue s of
     [] \<Rightarrow> 0
   | h # _ \<Rightarrow> (case cl_pc s h of ClSpin n p \<Rightarrow> 3 | ClHeld n \<Rightarrow> 2 | _ \<Rightarrow> 1))"

definition clh_helper :: "CLHLock \<Rightarrow> lock_act" where
  "clh_helper s = (let h = hd (cl_queue s) in case cl_pc s h of ClHeld n \<Rightarrow> CallUnlock h | _ \<Rightarrow> Step h)"

lemma clh_head:
  assumes "clh_inv s" and "cl_queue s = h # us"
  shows "(\<exists>n p. cl_pc s h = ClSpin n p \<and> cl_flag s p) \<or> (\<exists>n. cl_pc s h = ClHeld n) \<or> (\<exists>n. cl_pc s h = ClStore n)"
  using clh_inv_hd [OF assms(1)] clh_queued_iff [OF assms(1), of h] assms(2)
  by (cases "cl_pc s h") (auto simp: clh_open_def)

lemma clh_undisturbed:
  assumes inv: "clh_inv s" and q: "cl_queue s = h # us" and st: "clh_step a s = Some s'"
  shows "cl_queue s' = us \<and> clh_in_cs s h
    \<or> (\<exists>vs. cl_queue s' = cl_queue s @ vs) \<and> (clh_stage s' < clh_stage s
       \<or> clh_stage s' = clh_stage s \<and> clh_helper s' = clh_helper s)"
proof -
  note h = clh_head [OF inv q]
  have cs: "t = h" if "clh_in_cs s t" for t using clh_cs_head [OF inv that] q by force
  have sp: "t = h" if "cl_pc s t = ClSpin n p" "cl_flag s p" for t n p
    using clh_head_of [OF inv, of t] that q by force
  show ?thesis
  proof (cases a)
    case (CallLock t)
    then show ?thesis using st h q by (auto simp: clh_stage_def clh_helper_def split: if_splits)
  next
    case (CallUnlock t)
    then obtain n where n: "cl_pc s t = ClHeld n" using st by (auto split: clh_pc.splits)
    then have "t = h" using cs by (simp add: clh_in_cs_def)
    then show ?thesis using CallUnlock st q n by (auto simp: clh_stage_def)
  next
    case (Step t)
    show ?thesis
    proof (cases "t = h")
      case True
      then show ?thesis using st h q Step
        by (elim disjE exE) (auto simp: clh_stage_def clh_in_cs_def clh_Unlock_def)
    next
      case False
      then have "\<not> clh_in_cs s t" "\<forall>n p. cl_pc s t = ClSpin n p \<longrightarrow> \<not> cl_flag s p" using cs sp by blast+
      then have "cl_pc s' h = cl_pc s h" "\<exists>vs. cl_queue s' = cl_queue s @ vs"
        using st Step False by (cases "cl_pc s t"; auto simp: clh_in_cs_def split: option.splits)+
      then show ?thesis using q by (auto simp: clh_stage_def clh_helper_def)
    qed
  qed
qed

interpretation clh_fair: fair_fifo_lock "\<lambda>s. s = clh_zero" clh_step clh_inv clh_in_cs "\<lambda>s t. clh_queued (cl_pc s t)" cl_queue
  lock_fair "\<lambda>_. False" 4 clh_stage clh_helper
proof unfold_locales
  show "clh_stage s < 4" for s by (simp add: clh_stage_def split: list.splits clh_pc.splits)
  fix s t assume inv: "clh_inv s" and t: "t \<in> set (cl_queue s)"
  obtain h us where q: "cl_queue s = h # us" using t by (cases "cl_queue s") auto
  note h = clh_head [OF inv q]
  show "clh_helper s \<in> lock_fair
      \<and> (\<exists>s'. clh_step (clh_helper s) s = Some s'
           \<and> (False \<or> cl_queue s' = tl (cl_queue s) \<or> cl_queue s' = cl_queue s \<and> clh_stage s' < clh_stage s))"
    using h q by (auto simp: clh_helper_def lock_fair_def clh_stage_def clh_Unlock_def)
  show "False \<or> cl_queue s' = tl (cl_queue s) \<and> clh_in_cs s (hd (cl_queue s))
      \<or> (\<exists>us. cl_queue s' = cl_queue s @ us)
        \<and> (clh_stage s' < clh_stage s \<or> clh_stage s' = clh_stage s \<and> clh_helper s' = clh_helper s)"
    if "clh_step a s = Some s'" for a s'
    using clh_undisturbed [OF inv q that] q by auto
qed

fun clh_joining :: "clh_pc \<Rightarrow> nat" where
  "clh_joining ClAlloc = 2"
| "clh_joining (ClSwap n) = 1"
| "clh_joining p = 0"

interpretation clh_join: fair_leads_to clh_step lock_fair "\<lambda>s. 0 < clh_joining (cl_pc s t)"
  "\<lambda>s. clh_queued (cl_pc s t)" "\<lambda>s :: CLHLock. Step t" "\<lambda>s. clh_joining (cl_pc s t)" for t
proof unfold_locales
  show "Step t \<in> lock_fair" by (simp add: lock_fair_def)
  fix s :: CLHLock assume j: "0 < clh_joining (cl_pc s t)"
  show "\<exists>s'. clh_step (Step t) s = Some s'
      \<and> (clh_queued (cl_pc s' t) \<or> clh_joining (cl_pc s' t) < clh_joining (cl_pc s t))"
    using j by (cases "cl_pc s t") (auto split: option.splits)
  fix a s' assume st: "clh_step a s = Some s'"
  have "clh_queued (cl_pc s' t) \<or> cl_pc s' t = cl_pc s t \<or> cl_pc s t = ClAlloc \<and> clh_joining (cl_pc s' t) = 1"
    using st j by (cases a; cases "cl_pc s t")
      (auto simp: clh_Unlock_def split: clh_pc.splits option.splits if_splits)
  then show "clh_queued (cl_pc s' t) \<or> 0 < clh_joining (cl_pc s' t)
      \<and> (clh_joining (cl_pc s' t) < clh_joining (cl_pc s t)
         \<or> clh_joining (cl_pc s' t) = clh_joining (cl_pc s t) \<and> Step t = Step t)"
    using j by auto
qed

fun clh_locking :: "clh_pc \<Rightarrow> bool" where
  "clh_locking ClAlloc = True"
| "clh_locking (ClSwap n) = True"
| "clh_locking (ClSpin n p) = True"
| "clh_locking p = False"

lemma clh_starvation_free:
  "starvation_free (\<lambda>s. s = clh_zero) clh_step lock_fair (\<lambda>s t. clh_locking (cl_pc s t)) clh_in_cs"
  unfolding starvation_free_def
proof (intro allI impI)
  fix \<sigma> \<alpha> n t assume i: "\<sigma> 0 = clh_zero" and f: "fair_run clh_step lock_fair \<sigma> \<alpha>"
    and w: "clh_locking (cl_pc (\<sigma> n) t)"
  have "\<exists>k \<ge> n. clh_queued (cl_pc (\<sigma> k) t)"
  proof (cases "0 < clh_joining (cl_pc (\<sigma> n) t)")
    case True
    then show ?thesis by (rule clh_join.reaches [OF f])
  next
    case False
    then have "clh_queued (cl_pc (\<sigma> n) t)" using w by (cases "cl_pc (\<sigma> n) t") auto
    then show ?thesis by blast
  qed
  moreover have "clh_inv (\<sigma> k)" for k
    using infinite_run_reached [OF fair_run_infinite [OF f]] clh.invariant [OF i] by blast
  ultimately have "\<exists>k \<ge> n. t \<in> set (cl_queue (\<sigma> k))" using clh_queued_iff by blast
  then show "\<exists>m \<ge> n. clh_in_cs (\<sigma> m) t" using clh_fair.gets_in [OF i f] by blast
qed

section \<open>MCSLock\<close>

text \<open>A goroutine that has panicked holds the lock for ever; until that happens, everybody gets in. While
  the first of the queue waits for its successor to link itself, the successor's step helps.\<close>

definition mcs_panicked :: "MCSLock \<Rightarrow> bool" where
  "mcs_panicked s \<longleftrightarrow> (\<exists>t. mc_pc s t = McPanic)"

definition mcs_stage :: "MCSLock \<Rightarrow> nat" where
  "mcs_stage s = (case mc_queue s of
     [] \<Rightarrow> 0
   | h # _ \<Rightarrow> (case mc_pc s h of
        McSpin \<Rightarrow> 9 | McOwn \<Rightarrow> 8 | McHeld \<Rightarrow> 7 | McUOwner \<Rightarrow> 6 | McUNext n \<Rightarrow> 5 | McUCas n \<Rightarrow> 4
      | McUWait n \<Rightarrow> (if mc_next s (mc_node s h) = None then 3 else 2) | McUClear n \<Rightarrow> 1 | _ \<Rightarrow> 0))"

definition mcs_helper :: "MCSLock \<Rightarrow> lock_act" where
  "mcs_helper s = (let h = hd (mc_queue s) in
     case mc_pc s h of
       McHeld \<Rightarrow> CallUnlock h
     | McUWait n \<Rightarrow> if mc_next s (mc_node s h) = None then Step (mc_queue s ! 1) else Step h
     | _ \<Rightarrow> Step h)"

lemma mcs_waiting_tail:
  assumes inv: "mcs_inv s" and q: "mc_queue s = h # us" and t: "t \<in> set us"
  shows "mc_tail s \<noteq> Some (mc_node s h)"
proof -
  have l: "last (mc_queue s) \<in> set us" "h \<notin> set us" using q t mcs_inv_distinct [OF inv] by (auto simp: last_ConsR)
  then have "mcs_has_node s (last (mc_queue s))" "mcs_has_node s h" "last (mc_queue s) \<noteq> h"
    using q mcs_has_queued [OF inv] by auto
  then have "mc_node s (last (mc_queue s)) \<noteq> mc_node s h" using mcs_node_eq [OF mcs_inv_nodes [OF inv]] by blast
  then show ?thesis using mcs_inv_tail [OF inv] q by simp
qed

text \<open>The steps of the first of the queue, while somebody else or itself waits to get in.\<close>

lemma mcs_first_steps:
  assumes inv: "mcs_inv s" and q: "mc_queue s = h # us" and np: "\<not> mcs_panicked s"
    and w: "mcs_in_cs s h \<Longrightarrow> us \<noteq> []"
    and st: "mcs_step a s = Some s'" and actor: "lock_actor a = h"
  shows "mcs_panicked s' \<or> mc_queue s' = us \<and> mcs_in_cs s h
    \<or> mc_queue s' = mc_queue s \<and> mcs_stage s' < mcs_stage s
    \<or> s' = s \<and> (\<exists>n. mc_pc s h = McUWait n) \<and> mc_next s (mc_node s h) = None"
proof -
  have tl: "mcs_in_cs s h \<Longrightarrow> mc_tail s \<noteq> Some (mc_node s h)"
    using mcs_waiting_tail [OF inv q, of "hd us"] w by simp
  have ok: "mcs_head_ok s h" using mcs_inv_hd [OF inv] q by simp
  have p: "mc_pc s h \<noteq> McPanic" using np by (auto simp: mcs_panicked_def)
  show ?thesis
  proof (cases a)
    case (CallLock t)
    then show ?thesis using ok st actor by (auto simp: mcs_head_ok_def split: if_splits)
  next
    case (CallUnlock t)
    then show ?thesis using st actor q by (auto simp: mcs_stage_def split: if_splits)
  next
    case (Step t)
    then show ?thesis using ok st actor q tl p
      by (cases "mc_pc s h")
        (auto simp: mcs_head_ok_def mcs_Lock_step_def mcs_Unlock_step_def mcs_stage_def mcs_in_cs_def mcs_panicked_def
          split: option.splits)
  qed
qed

text \<open>The steps of the others.\<close>

lemma mcs_other_steps:
  assumes inv: "mcs_inv s" and q: "mc_queue s = h # us" and st: "mcs_step a s = Some s'" and actor: "lock_actor a \<noteq> h"
  shows "mc_pc s' h = mc_pc s h" "mc_node s' h = mc_node s h" "\<exists>vs. mc_queue s' = mc_queue s @ vs"
    and "mc_next s (mc_node s h) \<noteq> None \<Longrightarrow> mc_next s' (mc_node s h) \<noteq> None"
proof -
  have nh: "\<not> mcs_in_cs s (lock_actor a)" using mcs_cs_head [OF inv, of "lock_actor a"] q actor by force
  have lt: "mc_node s h < mc_alloc s"
    using mcs_has_queued [OF inv, of h] mcs_inv_nodes [OF inv] q unfolding mcs_nodes_def by simp
  show "mc_pc s' h = mc_pc s h" "mc_node s' h = mc_node s h"
    using st actor by (cases a; auto simp: mcs_Lock_step_def mcs_Unlock_step_def Let_def
        split: mcs_pc.splits option.splits if_splits)+
  show "\<exists>vs. mc_queue s' = mc_queue s @ vs"
    using st nh by (cases a; auto simp: mcs_in_cs_def mcs_Lock_step_def mcs_Unlock_step_def Let_def
        split: mcs_pc.splits option.splits if_splits)
  show "mc_next s' (mc_node s h) \<noteq> None" if "mc_next s (mc_node s h) \<noteq> None"
    using st lt that by (cases a; auto simp: mcs_Lock_step_def mcs_Unlock_step_def Let_def
        split: mcs_pc.splits option.splits if_splits)
qed

lemma mcs_undisturbed:
  assumes inv: "mcs_inv s" and q: "mc_queue s = h # us" and np: "\<not> mcs_panicked s"
    and w: "mcs_in_cs s h \<Longrightarrow> us \<noteq> []" and st: "mcs_step a s = Some s'"
  shows "mcs_panicked s' \<or> mc_queue s' = us \<and> mcs_in_cs s h
    \<or> (\<exists>vs. mc_queue s' = mc_queue s @ vs) \<and> (mcs_stage s' < mcs_stage s
       \<or> mcs_stage s' = mcs_stage s \<and> mcs_helper s' = mcs_helper s)"
proof (cases "lock_actor a = h")
  case True
  then show ?thesis using mcs_first_steps [OF inv q np w st] by auto
next
  case False
  note o = mcs_other_steps [OF inv q st False]
  obtain vs where vs: "mc_queue s' = h # us @ vs" using o(3) q by auto
  have "mcs_stage s' < mcs_stage s \<or> mcs_stage s' = mcs_stage s \<and> mcs_helper s' = mcs_helper s"
  proof (cases "\<exists>n. mc_pc s h = McUWait n")
    case True
    then have "mcs_in_cs s h" by (auto simp: mcs_in_cs_def)
    then show ?thesis using True o(1,2,4) vs q w
      by (auto simp: mcs_stage_def mcs_helper_def nth_append neq_Nil_conv)
  next
    case False
    then show ?thesis using o(1,2) vs q by (cases "mc_pc s h") (auto simp: mcs_stage_def mcs_helper_def)
  qed
  then show ?thesis using vs q by auto
qed

lemma mcs_helps:
  assumes inv: "mcs_inv s" and q: "mc_queue s = h # us" and np: "\<not> mcs_panicked s" and w: "mcs_in_cs s h \<Longrightarrow> us \<noteq> []"
  shows "\<exists>s'. mcs_step (mcs_helper s) s = Some s'
    \<and> (mcs_panicked s' \<or> mc_queue s' = us \<or> mc_queue s' = mc_queue s \<and> mcs_stage s' < mcs_stage s)"
proof -
  have ok: "mcs_head_ok s h" using mcs_inv_hd [OF inv] q by simp
  have p: "mc_pc s h \<noteq> McPanic" using np by (auto simp: mcs_panicked_def)
  show ?thesis
  proof (cases "\<exists>n. mc_pc s h = McUWait n \<and> mc_next s (mc_node s h) = None")
    case True
    then obtain u vs where us: "us = u # vs" using w by (auto simp: mcs_in_cs_def neq_Nil_conv)
    have "u \<noteq> h" using mcs_inv_distinct [OF inv] q us by auto
    moreover have "mc_pc s u = McLink (mc_node s h)"
      using mcs_inv_linked [OF inv, of 0] q us True by (auto simp: mcs_linked_def)
    ultimately show ?thesis using True q us by (auto simp: mcs_helper_def mcs_stage_def mcs_Lock_step_def)
  next
    case False
    have "lock_actor (mcs_helper s) = h" using False ok q by (cases "mc_pc s h") (auto simp: mcs_helper_def mcs_head_ok_def)
    moreover have "\<exists>s'. mcs_step (mcs_helper s) s = Some s'"
      using False ok q p by (cases "mc_pc s h")
        (auto simp: mcs_helper_def mcs_head_ok_def mcs_Lock_step_def mcs_Unlock_step_def split: option.splits)
    ultimately show ?thesis using mcs_first_steps [OF inv q np w] False by blast
  qed
qed

interpretation mcs_fair: fair_fifo_lock "\<lambda>s. s = mcs_zero" mcs_step mcs_inv mcs_in_cs "\<lambda>s t. mcs_pc_queued (mc_pc s t)" mc_queue
  lock_fair mcs_panicked 10 mcs_stage mcs_helper
proof unfold_locales
  show "mcs_stage s < 10" for s by (simp add: mcs_stage_def split: list.splits mcs_pc.splits)
  fix s t assume inv: "mcs_inv s" and np: "\<not> mcs_panicked s" and t: "t \<in> set (mc_queue s)" "\<not> mcs_in_cs s t"
  obtain h us where q: "mc_queue s = h # us" using t by (cases "mc_queue s") auto
  have w: "mcs_in_cs s h \<Longrightarrow> us \<noteq> []" using t q by auto
  have "mcs_helper s \<in> lock_fair" by (auto simp: mcs_helper_def lock_fair_def Let_def split: mcs_pc.splits)
  then show "mcs_helper s \<in> lock_fair \<and> (\<exists>s'. mcs_step (mcs_helper s) s = Some s'
      \<and> (mcs_panicked s' \<or> mc_queue s' = tl (mc_queue s) \<or> mc_queue s' = mc_queue s \<and> mcs_stage s' < mcs_stage s))"
    using mcs_helps [OF inv q np w] q by simp
  show "mcs_panicked s' \<or> mc_queue s' = tl (mc_queue s) \<and> mcs_in_cs s (hd (mc_queue s))
      \<or> (\<exists>us. mc_queue s' = mc_queue s @ us)
        \<and> (mcs_stage s' < mcs_stage s \<or> mcs_stage s' = mcs_stage s \<and> mcs_helper s' = mcs_helper s)"
    if "mcs_step a s = Some s'" for a s'
    using mcs_undisturbed [OF inv q np w that] q by simp
qed

fun mcs_joining :: "mcs_pc \<Rightarrow> nat" where
  "mcs_joining McInit = 2"
| "mcs_joining McSwap = 1"
| "mcs_joining p = 0"

interpretation mcs_join: fair_leads_to mcs_step lock_fair "\<lambda>s. 0 < mcs_joining (mc_pc s t)"
  "\<lambda>s. mcs_pc_queued (mc_pc s t)" "\<lambda>s :: MCSLock. Step t" "\<lambda>s. mcs_joining (mc_pc s t)" for t
proof unfold_locales
  show "Step t \<in> lock_fair" by (simp add: lock_fair_def)
  fix s :: MCSLock assume j: "0 < mcs_joining (mc_pc s t)"
  show "\<exists>s'. mcs_step (Step t) s = Some s'
      \<and> (mcs_pc_queued (mc_pc s' t) \<or> mcs_joining (mc_pc s' t) < mcs_joining (mc_pc s t))"
    using j by (cases "mc_pc s t") (auto simp: mcs_Lock_step_def Let_def split: option.splits)
  fix a s' assume st: "mcs_step a s = Some s'"
  have "mcs_pc_queued (mc_pc s' t) \<or> mc_pc s' t = mc_pc s t \<or> mc_pc s t = McInit \<and> mc_pc s' t = McSwap"
    using st j by (cases a; cases "mc_pc s t")
      (auto simp: mcs_Lock_step_def mcs_Unlock_step_def Let_def split: mcs_pc.splits option.splits if_splits)
  then show "mcs_pc_queued (mc_pc s' t) \<or> 0 < mcs_joining (mc_pc s' t)
      \<and> (mcs_joining (mc_pc s' t) < mcs_joining (mc_pc s t)
         \<or> mcs_joining (mc_pc s' t) = mcs_joining (mc_pc s t) \<and> Step t = Step t)"
    using j by auto
qed

fun mcs_locking :: "mcs_pc \<Rightarrow> bool" where
  "mcs_locking McInit = True"
| "mcs_locking McSwap = True"
| "mcs_locking (McLink p) = True"
| "mcs_locking McSpin = True"
| "mcs_locking McOwn = True"
| "mcs_locking p = False"

lemma mcs_starvation_free:
  "starvation_free (\<lambda>s. s = mcs_zero) mcs_step lock_fair (\<lambda>s t. mcs_locking (mc_pc s t)) (\<lambda>s t. mcs_in_cs s t \<or> mcs_panicked s)"
  unfolding starvation_free_def
proof (intro allI impI)
  fix \<sigma> \<alpha> n t assume i: "\<sigma> 0 = mcs_zero" and f: "fair_run mcs_step lock_fair \<sigma> \<alpha>"
    and w: "mcs_locking (mc_pc (\<sigma> n) t)"
  have "\<exists>k \<ge> n. mcs_pc_queued (mc_pc (\<sigma> k) t)"
  proof (cases "0 < mcs_joining (mc_pc (\<sigma> n) t)")
    case True
    then show ?thesis by (rule mcs_join.reaches [OF f])
  next
    case False
    then have "mcs_pc_queued (mc_pc (\<sigma> n) t)" using w by (cases "mc_pc (\<sigma> n) t") auto
    then show ?thesis by blast
  qed
  moreover have "mcs_inv (\<sigma> k)" for k
    using infinite_run_reached [OF fair_run_infinite [OF f]] mcs.invariant [OF i] by blast
  ultimately have "\<exists>k \<ge> n. t \<in> set (mc_queue (\<sigma> k))" using mcs_queued_iff by blast
  then show "\<exists>m \<ge> n. mcs_in_cs (\<sigma> m) t \<or> mcs_panicked (\<sigma> m)" using mcs_fair.gets_in [OF i f] by blast
qed

section \<open>The theorem\<close>

text \<open>C21: The first-come-first-served locks are starvation free. Under every fair scheduler (no goroutine
  is kept for ever from its next step, no holder from unlocking) a goroutine in \<^verbatim>\<open>Lock\<close> of a
  \<^verbatim>\<open>TicketLock\<close> (of fewer than \<open>2 ^ 64\<close> goroutines) or of a \<^verbatim>\<open>CLHLock\<close> gets in, and so does one in \<^verbatim>\<open>Lock\<close>
  of an \<^verbatim>\<open>MCSLock\<close>, unless a goroutine panics in \<^verbatim>\<open>Unlock\<close>.\<close>

theorem fifo_locks_starvation_free:
  "starvation_free ticket_init ticket_step64 lock_fair (\<lambda>s t. t < 2 ^ 64 \<and> ticket_locking (tk_pc s t)) ticket_in_cs
   \<and> starvation_free (\<lambda>s. s = clh_zero) clh_step lock_fair (\<lambda>s t. clh_locking (cl_pc s t)) clh_in_cs
   \<and> starvation_free (\<lambda>s. s = mcs_zero) mcs_step lock_fair (\<lambda>s t. mcs_locking (mc_pc s t))
       (\<lambda>s t. mcs_in_cs s t \<or> mcs_panicked s)"
  using ticket_starvation_free clh_starvation_free mcs_starvation_free by blast

lemma fifo_locks_starvation_free_witness:
  "\<exists>\<sigma> \<alpha>. \<sigma> 0 = clh_zero \<and> fair_run clh_step lock_fair \<sigma> \<alpha> \<and> cl_pc (\<sigma> 6) 2 = ClSpin 1 0
     \<and> \<not> clh_in_cs (\<sigma> 6) 2 \<and> (\<exists>m \<ge> 6. clh_in_cs (\<sigma> m) 2)"
proof -
  let ?as = "[CallLock 1, CallLock 2, Step 1, Step 1, Step 2, Step 2, CallUnlock 1, Step 1, Step 2, CallUnlock 2, Step 2]"
  let ?r = "halted clh_step ?as clh_zero"
  obtain s where s: "run clh_step ?as clh_zero = Some s" and idle: "\<forall>t. cl_pc s t = ClIdle"
    by (simp add: clh_zero_def clh_Unlock_def del: One_nat_def)
  have f: "fair_run clh_step lock_fair ?r (halted_acts ?as)"
    by (rule halted_fair [OF s]) (use idle in \<open>auto simp: lock_fair_def\<close>)
  have z: "?r 0 = clh_zero" by (simp add: halted_def)
  have w: "cl_pc (?r 6) 2 = ClSpin 1 0" by (simp add: halted_def clh_zero_def clh_Unlock_def del: One_nat_def)
  have "starvation_free (\<lambda>s. s = clh_zero) clh_step lock_fair (\<lambda>s t. clh_locking (cl_pc s t)) clh_in_cs"
    using fifo_locks_starvation_free by blast
  then have "\<exists>m \<ge> 6. clh_in_cs (?r m) 2" using f z w unfolding starvation_free_def by (metis clh_locking.simps(3))
  moreover have "\<not> clh_in_cs (?r 6) 2" using w by (simp add: clh_in_cs_def)
  ultimately show ?thesis using f z w by blast
qed

end
