(* ===== verification/Pool_Liveness.thy ===== *)
theory Pool_Liveness
  imports Fairness Worker_Pool
begin

text \<open>
  Liveness of the worker pool: under a scheduler that is fair to the workers and to the selects of the
  clients every submitted task is done and every \<^verbatim>\<open>Get\<close> returns. The order of the queue is what makes it
  true: one working worker is enough, for it never waits or exits while something is queued, and whatever
  the others do only brings a queued task nearer to the head.
\<close>

definition pool_fair :: "'v pool_act set" where
  "pool_fair = {a. \<exists>w. a = Worker w \<or> a = GetSelect w False}"

fun working :: "worker_pc \<Rightarrow> bool" where
  "working WorkerPoll = True"
| "working (WorkerRun t) = True"
| "working (WorkerClose t) = True"
| "working pc = False"

fun worker_stage :: "worker_pc \<Rightarrow> nat" where
  "worker_stage (WorkerRun t) = 2"
| "worker_stage (WorkerClose t) = 1"
| "worker_stage pc = 0"

section \<open>What a step does to the queue and to a worker\<close>

lemma signal_keeps_working:
  assumes "wp_signal u p = Some p'" and "\<And>w. w \<in> set (wp_notEmpty p) \<Longrightarrow> wp_worker p w = WorkerWait" and "working (wp_worker p v)"
  shows "wp_worker p' v = wp_worker p v"
  using wp_signal_frame(11) [OF assms(1), of v] assms(2) [of v] assms(3) by auto

lemma others_keep_worker:
  assumes inv: "pool_inv p" and v: "working (wp_worker p v)" and st: "pool_step a p = Some p'" and a: "a \<noteq> Worker v"
  shows "wp_worker p' v = wp_worker p v"
proof -
  have w: "w \<in> set (wp_notEmpty p) \<longleftrightarrow> wp_worker p w = WorkerWait" for w using inv_waits [OF inv] by (simp add: waits_ok_def)
  have i: "wp_init p" using inv_unused [OF inv] v by (auto simp: unused_def)
  show ?thesis
  proof (cases a)
    case (CallResolve c s x u)
    obtain p1 where p1: "wp_signal u p1 = Some p'" "wp_notEmpty p1 = wp_notEmpty p" "wp_worker p1 = wp_worker p"
      using st CallResolve i by (auto simp: Promise_Resolve_def submit_def Let_def split: if_splits option.splits)
    then show ?thesis using signal_keeps_working [OF p1(1), of v] w v by simp
  next
    case (Worker u)
    then have "u \<noteq> v" using a by simp
    then show ?thesis using st Worker
      by (auto simp: worker_step_def split: worker_pc.splits option.splits prod.splits polled.splits if_splits)
  next
    case (CallGet c s)
    then show ?thesis using st by (auto simp: Future_lookup_def split: if_splits option.splits)
  next
    case (CallPoll c s)
    then show ?thesis using st by (auto simp: Future_lookup_def split: if_splits option.splits)
  qed (use st v w i in \<open>auto simp: NewWorkerPool_def Future_Get_select_def Future_Poll_select_def closer_step_def
        split: if_splits client_pc.splits\<close>)
qed

lemma queue_moves:
  assumes inv: "pool_inv p" and st: "pool_step a p = Some p'"
  shows "(\<exists>w r. a = Worker w \<and> wp_worker p w = WorkerPoll \<and> om_items (wp_queue p) = r # om_items (wp_queue p')
        \<and> wp_taken p' = wp_taken p @ [r] \<and> wp_worker p' w = WorkerRun r)
    \<or> (\<exists>zs. om_items (wp_queue p') = om_items (wp_queue p) @ zs) \<and> wp_taken p' = wp_taken p
        \<and> (\<forall>w. a = Worker w \<longrightarrow> wp_worker p w = WorkerPoll \<longrightarrow> om_items (wp_queue p) = [])"
proof (cases a)
  case (Worker w)
  have g: "om_good (tk_signature p) (wp_queue p)" using inv_queue [OF inv] by (simp add: queue_ok_def)
  show ?thesis
  proof (cases "wp_worker p w")
    case WorkerPoll
    show ?thesis by (rule om_queue.poll_total [OF g]) (use st Worker WorkerPoll in \<open>auto simp: worker_step_def\<close>)
  qed (use st Worker in \<open>auto simp: worker_step_def split: if_splits\<close>)
next
  case (CallResolve c s x u)
  show ?thesis
  proof (cases "wp_init p")
    case True
    let ?t = "tk_fresh p" and ?sg = "(tk_signature p)(tk_fresh p := s)"
    have qk: "om_good (tk_signature p) (wp_queue p)" using inv_queue [OF inv] by (simp add: queue_ok_def)
    have "t \<noteq> ?t" if "t \<in> set (om_items (wp_queue p))" for t
      using queue_ok_taken(1) [OF inv_queue [OF inv], of t] that by auto
    then have "om_good ?sg (wp_queue p)" by (intro om_good_cong [OF qk]) simp
    from om_queue.put_law [OF this, of ?t] obtain q where q: "om_put ?sg ?t (wp_queue p) = Some q"
      "om_items q = om_items (wp_queue p) @ [?t]" by blast
    then show ?thesis using st CallResolve True
      by (auto simp: Promise_Resolve_def submit_def Let_def dest: wp_signal_frame split: if_splits)
  next
    case False
    then show ?thesis using st CallResolve by (auto simp: Promise_Resolve_def split: if_splits)
  qed
next
  case (CallGet c s)
  then show ?thesis using st by (auto simp: Future_lookup_def split: if_splits option.splits)
next
  case (CallPoll c s)
  then show ?thesis using st by (auto simp: Future_lookup_def split: if_splits option.splits)
next
  case Closer
  have g: "om_good (tk_signature p) (wp_queue p)" using inv_queue [OF inv] by (simp add: queue_ok_def)
  show ?thesis using st Closer om_queue.close_law [OF g] by (auto simp: closer_step_def split: if_splits)
next
  case (CallNewWorkerPool n)
  then show ?thesis using st inv_unused [OF inv] om_items_new [where 'r = nat]
    by (auto simp: NewWorkerPool_def unused_def split: if_splits)
qed (use st in \<open>auto simp: Future_Get_select_def Future_Poll_select_def split: if_splits client_pc.splits\<close>)

lemma stays_done:
  assumes "pool_inv p" and "pool_step a p = Some p'" and "tk_done p t" and "t < tk_fresh p"
  shows "tk_done p' t \<and> tk_fn p' t = tk_fn p t"
proof (cases a)
  case (CallResolve c s x u)
  then show ?thesis using assms
    by (auto simp: Promise_Resolve_def submit_def Let_def dest: wp_signal_frame split: if_splits option.splits)
next
  case (Worker w)
  then show ?thesis using assms
    by (auto simp: worker_step_def split: worker_pc.splits option.splits prod.splits polled.splits if_splits)
qed (use assms in \<open>auto simp: Future_lookup_def NewWorkerPool_def Future_Get_select_def Future_Poll_select_def closer_step_def
      split: if_splits client_pc.splits option.splits\<close>)

section \<open>From the queue to a worker\<close>

definition before :: "'v WorkerPool \<Rightarrow> nat \<Rightarrow> nat" where
  "before p t = length (takeWhile (\<lambda>u. u \<noteq> t) (om_items (wp_queue p)))"

text \<open>The task \<open>t\<close> is queued and the worker \<open>v\<close> works.\<close>

definition queued_for :: "tid \<Rightarrow> nat \<Rightarrow> 'v WorkerPool \<Rightarrow> bool" where
  "queued_for v t p \<longleftrightarrow> pool_inv p \<and> t \<in> set (om_items (wp_queue p)) \<and> working (wp_worker p v)"

definition queue_rank :: "tid \<Rightarrow> nat \<Rightarrow> 'v WorkerPool \<Rightarrow> nat" where
  "queue_rank v t p = 3 * before p t + worker_stage (wp_worker p v)"

lemma worker_working:
  assumes "pool_inv p" and "working (wp_worker p v)" and "om_items (wp_queue p) \<noteq> []"
  shows "\<exists>p'. pool_step (Worker v) p = Some p' \<and> working (wp_worker p' v)
    \<and> (wp_worker p v = WorkerPoll \<or> worker_stage (wp_worker p' v) < worker_stage (wp_worker p v))"
proof (cases "wp_worker p v")
  case WorkerPoll
  have g: "om_good (tk_signature p) (wp_queue p)" using inv_queue [OF assms(1)] by (simp add: queue_ok_def)
  show ?thesis by (rule om_queue.poll_total [OF g]) (use WorkerPoll assms(3) in \<open>auto simp: worker_step_def\<close>)
next
  case (WorkerClose r)
  then show ?thesis using pool_inv_finish(1) [OF assms(1) WorkerClose] by (simp add: worker_step_def)
qed (use assms(2) in \<open>simp_all add: worker_step_def\<close>)

lemma queue_rank_falls:
  assumes q: "queued_for v t p" and st: "pool_step a p = Some p'"
  shows "t \<in> set (wp_taken p') \<or> queued_for v t p' \<and> (queue_rank v t p' < queue_rank v t p
    \<or> a \<noteq> Worker v \<and> queue_rank v t p' = queue_rank v t p)"
proof -
  have inv: "pool_inv p" and t: "t \<in> set (om_items (wp_queue p))" and v: "working (wp_worker p v)"
    using q by (simp_all add: queued_for_def)
  have i': "pool_inv p'" using pool_inv_step [OF inv st] .
  have ne: "om_items (wp_queue p) \<noteq> []" using t by auto
  have me: "working (wp_worker p' v) \<and> (wp_worker p v = WorkerPoll \<or> worker_stage (wp_worker p' v) < worker_stage (wp_worker p v))"
    if "a = Worker v" using worker_working [OF inv v ne] st that by auto
  have other: "wp_worker p' v = wp_worker p v" if "a \<noteq> Worker v" using others_keep_worker [OF inv v st that] .
  have w': "working (wp_worker p' v)" using me other v by (cases "a = Worker v") auto
  from queue_moves [OF inv st] show ?thesis
  proof (elim disjE exE conjE)
    fix w r assume m: "a = Worker w" "om_items (wp_queue p) = r # om_items (wp_queue p')" "wp_taken p' = wp_taken p @ [r]"
      "wp_worker p' w = WorkerRun r"
    show ?thesis
    proof (cases "r = t")
      case False
      then have "before p t = Suc (before p' t)" using m(2) by (simp add: before_def)
      moreover have "worker_stage (wp_worker p' v) \<le> worker_stage (wp_worker p v) + 2"
        using m(4) other m(1) by (cases "w = v") auto
      ultimately show ?thesis using False t m(2) i' w' by (auto simp: queued_for_def queue_rank_def)
    qed (use m(3) in simp)
  next
    fix zs assume m: "om_items (wp_queue p') = om_items (wp_queue p) @ zs"
      "\<forall>w. a = Worker w \<longrightarrow> wp_worker p w = WorkerPoll \<longrightarrow> om_items (wp_queue p) = []"
    then have "before p' t = before p t" using t by (auto simp: before_def takeWhile_append)
    moreover have "worker_stage (wp_worker p' v) < worker_stage (wp_worker p v)" if "a = Worker v"
      using me [OF that] m(2) that t by auto
    ultimately show ?thesis using m(1) t i' w' other by (cases "a = Worker v") (auto simp: queued_for_def queue_rank_def)
  qed
qed

interpretation taking: fair_leads_to pool_step pool_fair "queued_for v t" "\<lambda>p. t \<in> set (wp_taken p)"
  "\<lambda>p :: 'v::zero WorkerPool. Worker v" "queue_rank v t" for v t
proof unfold_locales
  show "Worker v \<in> pool_fair" by (simp add: pool_fair_def)
  fix p :: "'v WorkerPool" assume q: "queued_for v t p"
  then have "om_items (wp_queue p) \<noteq> []" by (auto simp: queued_for_def)
  then obtain p' where st: "pool_step (Worker v) p = Some p'"
    using worker_working [of p v] q by (auto simp: queued_for_def)
  then show "\<exists>p'. pool_step (Worker v) p = Some p' \<and> (t \<in> set (wp_taken p') \<or> queue_rank v t p' < queue_rank v t p)"
    using queue_rank_falls [OF q st] by blast
  show "t \<in> set (wp_taken p') \<or> queued_for v t p' \<and> (queue_rank v t p' < queue_rank v t p
      \<or> queue_rank v t p' = queue_rank v t p \<and> (Worker v :: 'v pool_act) = Worker v)"
    if "pool_step a p = Some p'" for a p'
    using queue_rank_falls [OF q that] by blast
qed

section \<open>From a worker to the client\<close>

lemma worker_finishes:
  assumes inv: "pool_inv p" and at: "at_task (wp_worker p v) t" and st: "pool_step a p = Some p'"
  shows "tk_done p' t \<and> a = Worker v \<or> at_task (wp_worker p' v) t \<and>
    (if a = Worker v then worker_stage (wp_worker p' v) < worker_stage (wp_worker p v) else wp_worker p' v = wp_worker p v)"
proof (cases "a = Worker v")
  case True
  then show ?thesis using st at tasks_undone [OF inv_tasks [OF inv] at] by (auto simp: worker_step_def at_task_def)
next
  case False
  have "working (wp_worker p v)" using at by (auto simp: at_task_def)
  then show ?thesis using others_keep_worker [OF inv _ st False] at False by simp
qed

interpretation finishing: fair_leads_to pool_step pool_fair "\<lambda>p. pool_inv p \<and> at_task (wp_worker p v) t" "\<lambda>p. tk_done p t"
  "\<lambda>p :: 'v::zero WorkerPool. Worker v" "\<lambda>p. worker_stage (wp_worker p v)" for v t
proof unfold_locales
  show "Worker v \<in> pool_fair" by (simp add: pool_fair_def)
  fix p :: "'v WorkerPool" assume i: "pool_inv p \<and> at_task (wp_worker p v) t"
  have "\<exists>p'. pool_step (Worker v) p = Some p'"
    using i tasks_undone [OF inv_tasks] by (auto simp: at_task_def worker_step_def)
  then show "\<exists>p'. pool_step (Worker v) p = Some p' \<and> (tk_done p' t \<or> worker_stage (wp_worker p' v) < worker_stage (wp_worker p v))"
    using worker_finishes i by fastforce
  show "tk_done p' t \<or> (pool_inv p' \<and> at_task (wp_worker p' v) t) \<and> (worker_stage (wp_worker p' v) < worker_stage (wp_worker p v)
      \<or> worker_stage (wp_worker p' v) = worker_stage (wp_worker p v) \<and> (Worker v :: 'v pool_act) = Worker v)"
    if "pool_step a p = Some p'" for a p'
    using worker_finishes [OF _ _ that, of v t] pool_inv_step [OF _ that] i by (auto split: if_splits)
qed

definition get_over :: "tid \<Rightarrow> nat \<Rightarrow> 'v WorkerPool \<Rightarrow> bool" where
  "get_over c t p \<longleftrightarrow> wp_client p c = Got t (tk_fn p t) \<or> wp_client p c = ClientPanic PoolCanceled"

lemma get_stays:
  assumes inv: "pool_inv p" and c: "wp_client p c = InGet t" and st: "pool_step a p = Some p'"
  shows "wp_client p' c = InGet t \<and> a \<noteq> GetSelect c False \<or> get_over c t p'"
proof (cases a)
  case (CallResolve d s x u)
  then show ?thesis using st c
    by (auto simp: Promise_Resolve_def submit_def Let_def dest: wp_signal_frame split: if_splits option.splits)
next
  case (Worker w)
  then show ?thesis using st c
    by (auto simp: worker_step_def split: worker_pc.splits option.splits prod.splits polled.splits if_splits)
next
  case (GetSelect d b)
  then show ?thesis using st c tasks_value [OF inv_tasks [OF inv], of t]
    by (cases "d = c") (auto simp: Future_Get_select_def get_over_def split: if_splits client_pc.splits)
qed (use st c in \<open>auto simp: Future_lookup_def NewWorkerPool_def Future_Poll_select_def closer_step_def
      split: if_splits client_pc.splits option.splits\<close>)

lemma get_fresh: "pool_inv p \<Longrightarrow> wp_client p c = InGet t \<Longrightarrow> t < tk_fresh p"
  using inv_clients unfolding clients_ok_def by blast

interpretation selecting: fair_leads_to pool_step pool_fair
  "\<lambda>p. pool_inv p \<and> wp_client p c = InGet t \<and> tk_done p t \<and> t < tk_fresh p" "get_over c t"
  "\<lambda>p :: 'v::zero WorkerPool. GetSelect c False" "\<lambda>_. 0" for c t
proof unfold_locales
  show "GetSelect c False \<in> pool_fair" by (simp add: pool_fair_def)
  fix p :: "'v WorkerPool" assume i: "pool_inv p \<and> wp_client p c = InGet t \<and> tk_done p t \<and> t < tk_fresh p"
  have "\<exists>p'. pool_step (GetSelect c False) p = Some p'" using i by (simp add: Future_Get_select_def)
  then show "\<exists>p'. pool_step (GetSelect c False) p = Some p' \<and> (get_over c t p' \<or> (0 :: nat) < 0)"
    using get_stays i by blast
  show "get_over c t p' \<or> (pool_inv p' \<and> wp_client p' c = InGet t \<and> tk_done p' t \<and> t < tk_fresh p')
      \<and> ((0 :: nat) < 0 \<or> (0 :: nat) = 0 \<and> (GetSelect c False :: 'v pool_act) = GetSelect c False)"
    if st: "pool_step a p = Some p'" for a p'
  proof (cases "wp_client p' c = InGet t")
    case True
    have "pool_inv p'" using pool_inv_step [of p] st i by simp
    then show ?thesis using True get_fresh [of p' c t] stays_done [of p] st i by simp
  next
    case False
    then show ?thesis using get_stays [of p] st i by blast
  qed
qed

section \<open>Somebody works\<close>

definition staffed :: "'v WorkerPool \<Rightarrow> bool" where
  "staffed p \<longleftrightarrow> (\<exists>w. wp_worker p w \<noteq> WorkerOff \<and> wp_worker p w \<noteq> WorkerExit)"

lemma staffed_working:
  assumes inv: "pool_inv p" and s: "staffed p" and q: "om_items (wp_queue p) \<noteq> []"
  shows "\<exists>v. working (wp_worker p v)"
proof (cases "wp_notEmpty p = []")
  case True
  obtain w where w: "wp_worker p w \<noteq> WorkerOff" "wp_worker p w \<noteq> WorkerExit" using s by (auto simp: staffed_def)
  moreover have "wp_worker p w \<noteq> WorkerWait" using True inv_waits [OF inv] by (simp add: waits_ok_def)
  ultimately have "working (wp_worker p w)" using tasks_no_panic [OF inv_tasks [OF inv], of w] by (cases "wp_worker p w") auto
  then show ?thesis by blast
next
  case False
  then have "0 < num (\<lambda>pc. pc = WorkerPoll) (wp_worker p)"
    using inv_waits [OF inv] q by (cases "om_items (wp_queue p)") (auto simp: waits_ok_def)
  then obtain v where "wp_worker p v = WorkerPoll" using num_posD by blast
  then have "working (wp_worker p v)" by simp
  then show ?thesis by blast
qed

lemma tasks_get_done:
  assumes i: "\<sigma> 0 = pool_nil" and f: "fair_run pool_step pool_fair \<sigma> \<alpha>" and t: "t < tk_fresh (\<sigma> n)" and s: "staffed (\<sigma> n)"
  shows "\<exists>m \<ge> n. tk_done (\<sigma> m) t"
proof -
  have inv: "pool_inv (\<sigma> k)" for k
    using infinite_run_reached [OF fair_run_infinite [OF f]] worker_pool.invariant [OF i] by blast
  have "\<exists>k \<ge> n. t \<in> set (wp_taken (\<sigma> k))"
  proof (cases "t \<in> set (om_items (wp_queue (\<sigma> n)))")
    case True
    then obtain v where "queued_for v t (\<sigma> n)" using staffed_working [OF inv s] inv by (force simp: queued_for_def)
    then show ?thesis by (rule taking.reaches [OF f])
  qed (use queue_ok_taken(1) [OF inv_queue [OF inv], of t n] t in blast)
  then obtain k where k: "n \<le> k" "t \<in> set (wp_taken (\<sigma> k))" by blast
  show ?thesis
  proof (cases "tk_done (\<sigma> k) t")
    case False
    then obtain v where "at_task (wp_worker (\<sigma> k) v) t" using k tasks_taken [OF inv_tasks [OF inv]] by blast
    then have "\<exists>m \<ge> k. tk_done (\<sigma> m) t" using finishing.reaches [OF f] inv by blast
    then show ?thesis using k(1) order_trans by blast
  qed (use k in blast)
qed

lemma pool_run_inv:
  "\<sigma> 0 = pool_nil \<Longrightarrow> infinite_run pool_step \<sigma> \<alpha> \<Longrightarrow> pool_inv (\<sigma> k)"
  using infinite_run_reached worker_pool.invariant by blast

lemma stays_submitted:
  assumes "pool_step a p = Some p'" and "t < tk_fresh p"
  shows "t < tk_fresh p' \<and> tk_fn p' t = tk_fn p t"
proof (cases a)
  case (CallResolve c s x u)
  then show ?thesis using assms
    by (auto simp: Promise_Resolve_def submit_def Let_def dest: wp_signal_frame split: if_splits option.splits)
next
  case (Worker w)
  then show ?thesis using assms
    by (auto simp: worker_step_def split: worker_pc.splits option.splits prod.splits polled.splits if_splits)
qed (use assms in \<open>auto simp: Future_lookup_def NewWorkerPool_def Future_Get_select_def Future_Poll_select_def closer_step_def
      split: if_splits client_pc.splits option.splits\<close>)

lemma stays_submitted_run:
  assumes run: "infinite_run pool_step \<sigma> \<alpha>" and "t < tk_fresh (\<sigma> n)" and m: "n \<le> m"
  shows "t < tk_fresh (\<sigma> m) \<and> tk_fn (\<sigma> m) t = tk_fn (\<sigma> n) t"
  using infinite_run_unless [OF run, of "\<lambda>p. t < tk_fresh p \<and> tk_fn p t = tk_fn (\<sigma> n) t" n "\<lambda>_. False" m] stays_submitted assms(2) m
  by metis

lemma stays_done_run:
  assumes i: "\<sigma> 0 = pool_nil" and run: "infinite_run pool_step \<sigma> \<alpha>" and d: "tk_done (\<sigma> n) t" "t < tk_fresh (\<sigma> n)" and m: "n \<le> m"
  shows "tk_done (\<sigma> m) t"
  using infinite_run_unless [OF run, of "\<lambda>p. pool_inv p \<and> tk_done p t \<and> t < tk_fresh p" n "\<lambda>_. False" m]
    stays_done stays_submitted pool_inv_step pool_run_inv [OF i run] d m by blast

lemma gets_return_done:
  assumes i: "\<sigma> 0 = pool_nil" and f: "fair_run pool_step pool_fair \<sigma> \<alpha>" and c: "wp_client (\<sigma> n) c = InGet t"
    and d: "tk_done (\<sigma> m) t" and m: "n \<le> m"
  shows "\<exists>k \<ge> n. get_over c t (\<sigma> k)"
proof -
  note run = fair_run_infinite [OF f] and inv = pool_run_inv [OF i fair_run_infinite [OF f]]
  have "\<exists>k \<ge> n. get_over c t (\<sigma> k)" if no: "wp_client (\<sigma> m) c \<noteq> InGet t"
    using infinite_run_unless [OF run, of "\<lambda>p. pool_inv p \<and> wp_client p c = InGet t" n "get_over c t" m]
      get_stays pool_inv_step inv c no m by blast
  moreover have "\<exists>k \<ge> m. get_over c t (\<sigma> k)" if "wp_client (\<sigma> m) c = InGet t"
    using selecting.reaches [OF f, of m c t] inv get_fresh d that by blast
  ultimately show ?thesis using m order_trans by blast
qed

lemma gets_return:
  assumes i: "\<sigma> 0 = pool_nil" and f: "fair_run pool_step pool_fair \<sigma> \<alpha>" and c: "wp_client (\<sigma> n) c = InGet t" and s: "staffed (\<sigma> n)"
  shows "\<exists>m \<ge> n. get_over c t (\<sigma> m)"
proof -
  obtain m where "n \<le> m" "tk_done (\<sigma> m) t"
    using tasks_get_done [OF i f get_fresh [OF pool_run_inv [OF i fair_run_infinite [OF f]] c] s] by blast
  then show ?thesis using gets_return_done [OF i f c] by blast
qed

section \<open>The promise and its future\<close>

text \<open>The task that stands under a signature, until somebody resolves a promise with it again.\<close>

definition resolved_as :: "string \<Rightarrow> nat \<Rightarrow> 'v \<Rightarrow> 'v WorkerPool \<Rightarrow> bool" where
  "resolved_as s t x p \<longleftrightarrow> wp_init p \<and> wp_taskMap p s = Some t \<and> t < tk_fresh p \<and> tk_fn p t = x"

lemma resolve_resolves:
  assumes "pool_step (CallResolve c s x u) p = Some p'" and "wp_init p"
  shows "resolved_as s (tk_fresh p) x p'" and "staffed p \<Longrightarrow> staffed p'"
proof -
  obtain q where sg: "wp_signal u (new_task s x p\<lparr>wp_taskMap := (wp_taskMap p)(s \<mapsto> tk_fresh p), wp_queue := q\<rparr>) = Some p'"
    using assms by (auto simp: Promise_Resolve_def submit_def Let_def split: if_splits option.splits)
  note f = wp_signal_frame [OF sg]
  show "resolved_as s (tk_fresh p) x p'" using f assms(2) by (simp add: resolved_as_def)
  show "staffed p'" if sp: "staffed p"
  proof -
    obtain w where "wp_worker p w \<noteq> WorkerOff" "wp_worker p w \<noteq> WorkerExit" using sp by (auto simp: staffed_def)
    then show ?thesis using f(11) [of w] unfolding staffed_def by (intro exI [of _ w]) auto
  qed
qed

lemma resolved_stays:
  assumes r: "resolved_as s t x p" and st: "pool_step a p = Some p'" and a: "\<And>c y u. a \<noteq> CallResolve c s y u"
  shows "resolved_as s t x p'"
proof (cases a)
  case (CallResolve c s' y u)
  then have "s' \<noteq> s" using a by blast
  then show ?thesis using r st CallResolve
    by (auto simp: resolved_as_def Promise_Resolve_def submit_def Let_def dest: wp_signal_frame split: if_splits option.splits)
next
  case (Worker w)
  then show ?thesis using r st
    by (auto simp: resolved_as_def worker_step_def split: worker_pc.splits option.splits prod.splits polled.splits if_splits)
qed (use r st in \<open>auto simp: resolved_as_def Future_lookup_def NewWorkerPool_def Future_Get_select_def Future_Poll_select_def
      closer_step_def split: if_splits client_pc.splits option.splits\<close>)

lemma resolved_stays_run:
  assumes run: "infinite_run pool_step \<sigma> \<alpha>" and r: "resolved_as s t x (\<sigma> n)"
    and no: "\<And>j c y u. n \<le> j \<Longrightarrow> j < m \<Longrightarrow> \<alpha> j \<noteq> Some (CallResolve c s y u)" and m: "n \<le> m"
  shows "resolved_as s t x (\<sigma> m)"
  using m no
proof (induction rule: dec_induct)
  case (step k)
  show ?case
  proof (cases "\<alpha> k")
    case (Some a)
    have "a \<noteq> CallResolve c s y u" for c y u using step.prems [OF step.hyps(1), of c y u] Some by auto
    moreover have "resolved_as s t x (\<sigma> k)" by (rule step.IH) (use step.prems in simp)
    ultimately show ?thesis using resolved_stays infinite_run_act [OF run Some] by blast
  next
    case None
    moreover have "resolved_as s t x (\<sigma> k)" by (rule step.IH) (use step.prems in simp)
    ultimately show ?thesis using infinite_run_idle [OF run] by simp
  qed
qed (rule r)

lemma stays_cancelled: "wp_cancelled p \<Longrightarrow> pool_step a p = Some p' \<Longrightarrow> wp_cancelled p'"
proof (cases a)
  case (CallResolve c s x u)
  assume "wp_cancelled p" "pool_step a p = Some p'"
  then show ?thesis using CallResolve
    by (auto simp: wp_signal_def Promise_Resolve_def submit_def Let_def split: if_splits option.splits)
next
  case (Worker w)
  assume "wp_cancelled p" "pool_step a p = Some p'"
  then show ?thesis using Worker
    by (auto simp: worker_step_def split: worker_pc.splits option.splits prod.splits polled.splits if_splits)
qed (auto simp: Future_lookup_def NewWorkerPool_def Future_Get_select_def Future_Poll_select_def
      closer_step_def split: if_splits client_pc.splits option.splits)

text \<open>Only cancellation makes \<^verbatim>\<open>Get\<close> panic with \<^verbatim>\<open>"Worker pool canceled"\<close>.\<close>

definition panics_cancelled :: "'v WorkerPool \<Rightarrow> bool" where
  "panics_cancelled p \<longleftrightarrow> (\<forall>c. wp_client p c = ClientPanic PoolCanceled \<longrightarrow> wp_cancelled p)"

lemma panics_cancelled_step: "panics_cancelled p \<Longrightarrow> pool_step a p = Some p' \<Longrightarrow> panics_cancelled p'"
proof (cases a)
  case (CallResolve c s x u)
  assume "panics_cancelled p" "pool_step a p = Some p'"
  then show ?thesis using CallResolve
    by (auto simp: panics_cancelled_def wp_signal_def Promise_Resolve_def submit_def Let_def split: if_splits option.splits)
next
  case (Worker w)
  assume "panics_cancelled p" "pool_step a p = Some p'"
  then show ?thesis using Worker
    by (auto simp: panics_cancelled_def worker_step_def split: worker_pc.splits option.splits prod.splits polled.splits if_splits)
qed (auto simp: panics_cancelled_def Future_lookup_def NewWorkerPool_def Future_Get_select_def Future_Poll_select_def
      closer_step_def split: if_splits client_pc.splits option.splits)

lemma panics_cancelled_run:
  assumes i: "\<sigma> 0 = pool_nil" and run: "infinite_run pool_step \<sigma> \<alpha>"
  shows "panics_cancelled (\<sigma> k)"
proof -
  have "panics_cancelled (\<sigma> 0)" using i by (simp add: panics_cancelled_def pool_nil_def)
  then show ?thesis
    using infinite_run_unless [OF run, of panics_cancelled 0 "\<lambda>_. False" k] panics_cancelled_step by blast
qed

section \<open>The theorems\<close>

text \<open>C31: What a promise is resolved with comes out of its future. In a run under a scheduler that is fair to the
  workers and to the selects of the clients let a client resolve the promise with a signature, with a pool of which
  some worker has not exited, be it polling, busy or asleep; and let a client call \<^verbatim>\<open>Get\<close> on the future
  with that signature later, with no other \<^verbatim>\<open>Resolve\<close> of it in between (a second one replaces the task, so it is the
  latest that counts). Then this \<^verbatim>\<open>Get\<close> returns the value of the function that was submitted, whatever else is
  queued and whoever works; only when the pool's context has been cancelled it may panic instead.\<close>

theorem future_returns_promise:
  assumes i: "\<sigma> 0 = pool_nil" and f: "fair_run pool_step pool_fair \<sigma> \<alpha>"
    and r: "\<alpha> n = Some (CallResolve c s x u)" "wp_init (\<sigma> n)" "staffed (\<sigma> n)"
    and g: "n < k" "\<alpha> k = Some (CallGet d s)" and latest: "\<And>j c y u. n < j \<Longrightarrow> j < k \<Longrightarrow> \<alpha> j \<noteq> Some (CallResolve c s y u)"
  shows "\<exists>m > k. wp_client (\<sigma> m) d = Got (tk_fresh (\<sigma> n)) x \<or> wp_client (\<sigma> m) d = ClientPanic PoolCanceled \<and> wp_cancelled (\<sigma> m)"
proof -
  let ?t = "tk_fresh (\<sigma> n)"
  note run = fair_run_infinite [OF f]
  have r1: "resolved_as s ?t x (\<sigma> (Suc n))" "staffed (\<sigma> (Suc n))"
    using resolve_resolves [OF infinite_run_act [OF run r(1)] r(2)] r(3) by blast+
  have "resolved_as s ?t x (\<sigma> k)" by (rule resolved_stays_run [OF run r1(1)]) (use latest g(1) in auto)
  then have "\<sigma> (Suc k) = (\<sigma> k)\<lparr>wp_client := (wp_client (\<sigma> k))(d := InGet ?t)\<rparr>"
    using infinite_run_act [OF run g(2)] by (simp add: resolved_as_def Future_lookup_def split: if_splits)
  then have k: "wp_client (\<sigma> (Suc k)) d = InGet ?t" by simp
  have t: "?t < tk_fresh (\<sigma> (Suc n))" "tk_fn (\<sigma> (Suc n)) ?t = x" using r1(1) by (simp_all add: resolved_as_def)
  obtain m0 where m0: "Suc n \<le> m0" "tk_done (\<sigma> m0) ?t" using tasks_get_done [OF i f t(1) r1(2)] by blast
  let ?m = "max m0 (Suc k)"
  have "tk_done (\<sigma> ?m) ?t" using stays_done_run [OF i run m0(2), of ?m] stays_submitted_run [OF run t(1) m0(1)] by simp
  then obtain m where m: "Suc k \<le> m" "get_over d ?t (\<sigma> m)" using gets_return_done [OF i f k, of ?m] by auto
  have "Suc n \<le> m" using m(1) g(1) by simp
  then have "tk_fn (\<sigma> m) ?t = x" using stays_submitted_run [OF run t(1), of m] t(2) by simp
  then show ?thesis using m panics_cancelled_run [OF i run, of m]
    by (intro exI [of _ m]) (auto simp: get_over_def panics_cancelled_def)
qed



text \<open>The only worker sleeps when the promise is resolved.\<close>

lemma future_returns_promise_witness:
  "\<exists>\<sigma> \<alpha>. \<sigma> 0 = (pool_nil :: int WorkerPool) \<and> fair_run pool_step pool_fair \<sigma> \<alpha> \<and> wp_worker (\<sigma> 2) 0 = WorkerWait
     \<and> \<alpha> 2 = Some (CallResolve 0 ''a'' 5 0) \<and> \<alpha> 3 = Some (CallGet 1 ''a'') \<and> (\<exists>m > 3. wp_client (\<sigma> m) 1 = Got 0 5)"
proof -
  let ?as = "[CallNewWorkerPool 1, Worker 0, CallResolve 0 ''a'' 5 0, CallGet 1 ''a'', Worker 0, Worker 0, Worker 0, GetSelect 1 False,
    Worker 0 :: int pool_act]"
  let ?r = "halted pool_step ?as pool_nil" and ?a = "halted_acts ?as"
  note eval = pool_nil_def NewWorkerPool_def Promise_Resolve_def submit_def om_put_def Let_def newOrderedMap_def
    wp_signal_def worker_step_def om_pollWait_def Future_lookup_def Future_Get_select_def max_goroutines_def
  obtain p where p: "run pool_step ?as pool_nil = Some p" and idle: "\<forall>w. wp_worker p w = (if w = 0 then WorkerWait else WorkerOff)"
    and cl: "\<forall>c t. wp_client p c \<noteq> InGet t" and nc: "\<not> wp_cancelled p"
    by (simp add: eval del: One_nat_def)
  have f: "fair_run pool_step pool_fair ?r ?a"
    by (rule halted_fair [OF p])
      (use idle cl in \<open>auto simp: pool_fair_def worker_step_def Future_Get_select_def split: client_pc.splits\<close>)
  note run = fair_run_infinite [OF f]
  have z: "?r 0 = pool_nil" by (simp add: halted_def)
  have w: "wp_worker (?r 2) 0 = WorkerWait" "wp_init (?r 2)" "tk_fresh (?r 2) = 0" "\<not> wp_cancelled (?r 2)"
    by (simp_all add: halted_def eval del: One_nat_def)
  then have s: "staffed (?r 2)" by (auto simp: staffed_def intro!: exI [of _ 0])
  have a: "?a 2 = Some (CallResolve 0 ''a'' 5 0)" "?a 3 = Some (CallGet 1 ''a'')" by (simp_all add: halted_acts_def)
  have "\<exists>m > 3. wp_client (?r m) 1 = Got (tk_fresh (?r 2)) 5 \<or> wp_client (?r m) 1 = ClientPanic PoolCanceled \<and> wp_cancelled (?r m)"
    by (rule future_returns_promise [OF z f a(1) w(2) s _ a(2)]) auto
  moreover have "\<not> wp_cancelled (?r m)" for m
  proof -
    have "wp_cancelled (?r m) \<longrightarrow> wp_cancelled (?r (m + 9))"
      using infinite_run_unless [OF run, of wp_cancelled m "\<lambda>_. False" "m + 9"] stays_cancelled by auto
    moreover have "?r (m + 9) = p" using p by (simp add: halted_def del: run.simps)
    ultimately show ?thesis using nc by simp
  qed
  ultimately have "\<exists>m > 3. wp_client (?r m) 1 = Got 0 5" unfolding w(3) by blast
  then show ?thesis using z f w(1) a by blast
qed

end
