(* ===== verification/Barrier_Liveness.thy ===== *)
theory Barrier_Liveness
  imports Fairness Barrier
begin

text \<open>
  Liveness of \<^verbatim>\<open>SenseReversingBarrier\<close>: when the scheduler is fair and everybody keeps coming back,
  phases never stop. Within an epoch every step but an idle turn of the spin loop brings one goroutine nearer
  to the end of the epoch, and some goroutine can always take such a step.
\<close>

section \<open>The distance to the end of an epoch\<close>

definition sb_left :: "nat \<Rightarrow> sb_pc \<Rightarrow> nat" where
  "sb_left e p = (case p of
     SbIdle \<Rightarrow> 5 | SbLoad \<Rightarrow> 4 | SbAdd r \<Rightarrow> 3 | SbReset \<Rightarrow> 2 | SbPublish \<Rightarrow> 1
   | SbSpin r \<Rightarrow> if r = of_nat e then 0 else 6)"

definition sb_distance :: "nat \<Rightarrow> SenseReversingBarrier \<Rightarrow> nat" where
  "sb_distance n s = (\<Sum>t < n. sb_left (sb_epoch s) (sb_pc s t))"

text \<open>The first goroutine that has not arrived yet, or leads, and what it does.\<close>

definition sb_mover :: "SenseReversingBarrier \<Rightarrow> tid" where
  "sb_mover s = (LEAST t. sb_pc s t \<noteq> SbSpin (of_nat (sb_epoch s)))"

definition sb_helper :: "SenseReversingBarrier \<Rightarrow> barrier_act" where
  "sb_helper s = (if sb_pc s (sb_mover s) = SbIdle then CallBarrier (sb_mover s) else BarrierStep (sb_mover s))"

lemma sb_mover:
  assumes "sb_inv n s"
  shows "sb_mover s < n" and "sb_pc s (sb_mover s) \<noteq> SbSpin (of_nat (sb_epoch s))"
proof -
  obtain t where t: "t < n" "sb_pc s t \<noteq> SbSpin (of_nat (sb_epoch s))" using sb_not_all [OF assms] by blast
  show "sb_pc s (sb_mover s) \<noteq> SbSpin (of_nat (sb_epoch s))" unfolding sb_mover_def by (rule LeastI) (rule t(2))
  have "sb_mover s \<le> t" unfolding sb_mover_def by (rule Least_le) (rule t(2))
  then show "sb_mover s < n" using t(1) by simp
qed

lemma sb_distance_falls:
  assumes "t < n" and "sb_epoch s' = sb_epoch s" and "sb_pc s' = (sb_pc s)(t := p)"
    and "sb_left (sb_epoch s) p < sb_left (sb_epoch s) (sb_pc s t)"
  shows "sb_distance n s' < sb_distance n s"
  unfolding sb_distance_def by (rule sum_strict_mono_ex1) (use assms in auto)

section \<open>Every step counts\<close>

lemma sb_step_counts:
  assumes inv: "sb_inv n s" and st: "SenseReversing_step a s = Some s'"
  shows "sb_epoch s' = Suc (sb_epoch s) \<or> sb_epoch s' = sb_epoch s \<and> sb_distance n s' < sb_distance n s
    \<or> s' = s \<and> (\<exists>t. a = BarrierStep t \<and> sb_pc s t = SbSpin (of_nat (sb_epoch s)))"
proof -
  have falls: "sb_distance n s' < sb_distance n s"
    if "sb_pc s t \<noteq> SbIdle \<or> t < n" "sb_epoch s' = sb_epoch s" "sb_pc s' = (sb_pc s)(t := p)"
      "sb_left (sb_epoch s) p < sb_left (sb_epoch s) (sb_pc s t)" for t p
    using sb_distance_falls [of t n s' s p] sb_moving [OF inv, of t] that by blast
  show ?thesis
  proof (cases a)
    case (CallBarrier t)
    then have c: "sb_pc s t = SbIdle" "s' = s\<lparr>sb_pc := (sb_pc s)(t := SbLoad)\<rparr>" and "t < nat (sint (sb_count s))"
      using st by (simp_all split: if_splits)
    then have "t < n" using sb_inv_step [OF inv st] sb_moving [of n s' t] by simp
    then show ?thesis using falls [of t SbLoad] c by (simp add: sb_left_def)
  next
    case (BarrierStep t)
    show ?thesis
    proof (cases "sb_pc s t")
      case (SbAdd r)
      have "t < n" using sb_moving [OF inv] SbAdd by simp
      then have "r = of_nat (sb_epoch s)" using sb_ok [OF inv] SbAdd by fastforce
      then show ?thesis using falls [of t] st BarrierStep SbAdd
        by (auto simp: SenseReversing_Wait_step_def Let_def sb_left_def split: if_splits)
    next
      case (SbSpin r)
      then show ?thesis using falls [of t SbIdle] st BarrierStep sb_release_epoch [OF inv]
        by (auto simp: SenseReversing_Wait_step_def sb_left_def split: if_splits)
    qed (use falls [of t] st BarrierStep in \<open>auto simp: SenseReversing_Wait_step_def sb_left_def\<close>)
  qed
qed

lemma sb_helper_moves:
  assumes inv: "sb_inv n s"
  shows "\<exists>s'. SenseReversing_step (sb_helper s) s = Some s'
    \<and> (sb_epoch s' = Suc (sb_epoch s) \<or> sb_epoch s' = sb_epoch s \<and> sb_distance n s' < sb_distance n s)"
proof -
  note m = sb_mover [OF inv]
  have "n < 2147483648" using sb_n [OF inv] by simp
  then have "nat (sint (sb_count s)) = n"
    unfolding sb_count_n [OF inv] by (simp add: signed_of_nat signed_take_bit_int_eq_self)
  then have "\<exists>s'. SenseReversing_step (sb_helper s) s = Some s'"
    using m(1) by (cases "sb_pc s (sb_mover s)") (auto simp: sb_helper_def SenseReversing_Wait_step_def Let_def)
  moreover have "sb_helper s \<noteq> BarrierStep t" if "sb_pc s t = SbSpin (of_nat (sb_epoch s))" for t
    using m(2) that by (auto simp: sb_helper_def)
  ultimately show ?thesis using sb_step_counts [OF inv] by blast
qed

interpretation phase: fair_leads_to SenseReversing_step UNIV "\<lambda>s. sb_inv n s \<and> e \<le> sb_epoch s" "\<lambda>s. e < sb_epoch s"
  sb_helper "sb_distance n" for n e
proof unfold_locales
  show "sb_helper s \<in> UNIV" for s by simp
  fix s assume i: "sb_inv n s \<and> e \<le> sb_epoch s" and "\<not> e < sb_epoch s"
  then have e: "sb_epoch s = e" by simp
  show "\<exists>s'. SenseReversing_step (sb_helper s) s = Some s' \<and> (e < sb_epoch s' \<or> sb_distance n s' < sb_distance n s)"
    using sb_helper_moves i e by (metis lessI)
  show "e < sb_epoch s' \<or> (sb_inv n s' \<and> e \<le> sb_epoch s') \<and> (sb_distance n s' < sb_distance n s
      \<or> sb_distance n s' = sb_distance n s \<and> sb_helper s' = sb_helper s)"
    if st: "SenseReversing_step a s = Some s'" for a s'
    using sb_step_counts [OF _ st] sb_inv_step [OF _ st] i e by fastforce
qed

section \<open>The theorem\<close>

lemma sb_phases:
  assumes f: "fair_run SenseReversing_step UNIV \<sigma> \<alpha>" and inv: "\<And>k. sb_inv n (\<sigma> k)"
  shows "\<exists>m \<ge> k. e \<le> sb_epoch (\<sigma> m)"
proof (induction e)
  case (Suc e)
  then obtain m where m: "k \<le> m" "e \<le> sb_epoch (\<sigma> m)" by blast
  have "\<exists>l \<ge> m. e < sb_epoch (\<sigma> l)" using phase.reaches [OF f, of n m e] inv m(2) by blast
  then show ?case using m(1) by (meson Suc_leI order_trans)
qed auto

text \<open>C24: \<^verbatim>\<open>SenseReversingBarrier\<close> never gets stuck: for \<open>n < 2 ^ 31\<close> goroutines that come back to it
  again and again, under every fair scheduler, every goroutine returns from its \<open>k\<close>-th \<^verbatim>\<open>Wait\<close> for every
  \<open>k\<close>, however the goroutines are delayed against each other and however often the release counter has
  wrapped around.\<close>

theorem sense_reversing_barrier_live:
  "starvation_free (\<lambda>s. NewSenseReversingBarrier (of_nat n) = Some s \<and> n < 2 ^ 31) SenseReversing_step UNIV
     (\<lambda>s (t, k). t < n) (\<lambda>s (t, k). k \<le> sb_done s t)"
  unfolding starvation_free_def
proof (intro allI impI, clarify)
  fix \<sigma> \<alpha> j t and k :: nat
  assume i: "NewSenseReversingBarrier (of_nat n) = Some (\<sigma> 0)" "n < 2 ^ 31" and t: "t < n"
    and f: "fair_run SenseReversing_step UNIV \<sigma> \<alpha>"
  have inv: "sb_inv n (\<sigma> m)" for m
    using infinite_run_reached [OF fair_run_infinite [OF f]] sense_reversing.invariant i by blast
  obtain m where m: "j \<le> m" "Suc k \<le> sb_epoch (\<sigma> m)" using sb_phases [OF f inv] by blast
  moreover have "sb_epoch (\<sigma> m) \<le> Suc (sb_done (\<sigma> m) t)"
    using sb_epoch_bounds(2) [OF inv t, of m] by (cases "sb_pc (\<sigma> m) t") (simp_all add: sb_arrived_def)
  ultimately show "\<exists>m \<ge> j. k \<le> sb_done (\<sigma> m) t" by (intro exI [of _ m]) simp
qed

instance barrier_act :: countable
  by countable_datatype

lemma sense_reversing_barrier_live_witness:
  "\<exists>s0 \<sigma> \<alpha>. NewSenseReversingBarrier (of_nat 3) = Some s0 \<and> \<sigma> 0 = s0 \<and> fair_run SenseReversing_step UNIV \<sigma> \<alpha>
     \<and> (\<exists>m. 100 \<le> sb_done (\<sigma> m) 2)"
proof -
  obtain s0 where s0: "NewSenseReversingBarrier (of_nat 3) = Some s0" by (simp add: NewSenseReversingBarrier_def word_sle_eq)
  let ?r = "patient SenseReversing_step s0" and ?a = "patient_acts SenseReversing_step s0"
  have f: "fair_run SenseReversing_step UNIV ?r ?a" by (rule patient_fair)
  have "\<exists>m \<ge> 0. 100 \<le> sb_done (?r m) 2"
    using starvation_freeD [OF sense_reversing_barrier_live [of 3] _ f, where n = 0 and t = "(2, 100)"] s0 by simp
  then show ?thesis using s0 f by (intro exI [of _ s0] exI [of _ ?r] exI [of _ ?a]) auto
qed

end
