(* ===== verification/LRU_Shared.thy ===== *)
theory LRU_Shared
  imports LRU Monitor
begin

text \<open>
  \<^verbatim>\<open>SyncLRU\<close> as it is shared: \<^verbatim>\<open>Put\<close> and \<^verbatim>\<open>Get\<close> called by any number of goroutines,
  each under \<^verbatim>\<open>mu\<close> (\<^verbatim>\<open>l.mu.Lock()\<close>, \<^verbatim>\<open>defer l.mu.Unlock()\<close>). The bodies are the
  pointer programs of theory \<open>LRU\<close>, the calls those of theory \<open>Monitor\<close>; a nil dereference in
  a body would be a panic.
\<close>

section \<open>The methods as bodies\<close>

fun lru_body :: "('k, 'v::zero) lru_op \<Rightarrow> ('k, 'v) SyncLRU \<Rightarrow> (('k, 'v) SyncLRU \<times> ('v \<times> bool) option) option" where
  "lru_body (Put k v) l = map_option (\<lambda>l'. (l', None)) (LRU_Put k v l)"
| "lru_body (Get k) l = map_option (\<lambda>(l', r). (l', Some r)) (LRU_Get k l)"

fun spec_lru :: "nat \<Rightarrow> ('k, 'v::zero) lru_op \<Rightarrow> ('k \<times> 'v) list \<Rightarrow> ('k \<times> 'v) list \<times> ('v \<times> bool) option" where
  "spec_lru cap (Put k v) xs = (spec_put cap k v xs, None)"
| "spec_lru cap (Get k) xs = map_prod id Some (spec_get k xs)"

definition SyncLRU_step :: "('k, 'v::zero) lru_op mon_act
    \<Rightarrow> (('k, 'v) lru_op, ('k, 'v) SyncLRU, ('v \<times> bool) option) monitor
    \<Rightarrow> (('k, 'v) lru_op, ('k, 'v) SyncLRU, ('v \<times> bool) option) monitor option" where
  "SyncLRU_step = mon_step lru_body"

definition lru_view :: "u64 \<Rightarrow> ('k, 'v) SyncLRU \<Rightarrow> ('k \<times> 'v) list \<Rightarrow> bool" where
  "lru_view n l xs \<longleftrightarrow> (\<exists>ns. lru_rep l ns) \<and> lru_cap l = n \<and> lru_entries l = xs"

lemma lru_body_ok:
  assumes "lru_view n l xs" and "spec_lru (unat n) b xs = (xs', r)"
  shows "\<exists>l'. lru_body b l = Some (l', r) \<and> lru_view n l' xs'"
proof -
  obtain ns where rep: "lru_rep l ns" and c: "lru_cap l = n" and e: "lru_entries l = xs"
    using assms(1) unfolding lru_view_def by blast
  show ?thesis
  proof (cases b)
    case (Put k v)
    then show ?thesis using LRU_Put_ok [OF rep, of k v] assms(2) c e by (fastforce simp: lru_view_def)
  next
    case (Get k)
    then show ?thesis using LRU_Get_ok [OF rep, of k] assms(2) c e by (fastforce simp: lru_view_def)
  qed
qed

interpretation sync_lru: monitor lru_body "spec_lru (unat n)" "lru_view n" "NewSyncLRU n" "[]" for n :: u64
proof (unfold_locales, goal_cases)
  case 1
  show ?case using NewSyncLRU_rep NewSyncLRU_cap NewSyncLRU_entries unfolding lru_view_def by metis
next
  case (2 l xs b xs' r)
  then show ?case by (rule lru_body_ok)
qed

section \<open>The shared cache\<close>

text \<open>C17: \<^verbatim>\<open>SyncLRU\<close>, called by any number of goroutines in any interleaving: no method ever
  dereferences nil and none sees another at work; every call that has returned is answered by one step of
  the abstract least-recently-used cache taken between its call and its return, in one order that
  explains all results; between the methods the linked list holds exactly that cache's entries from
  the least to the most recently used, never more than \<open>n\<close>; and a goroutine that waits for the
  mutex never waits for nobody.\<close>

theorem sync_lru_linearizable:
  assumes "run SyncLRU_step as (mon_new (NewSyncLRU n)) = Some m"
  shows "mon_linearized lru_body (spec_lru (unat n)) []
    (\<lambda>l xs. lru_entries l = xs \<and> length xs \<le> unat n \<and> distinct (map fst xs)) m"
proof -
  have "lru_entries l = xs \<and> length xs \<le> unat n \<and> distinct (map fst xs)" if v: "lru_view n l xs"
    for l :: "('a, 'b) SyncLRU" and xs
  proof -
    obtain ns where rep: "lru_rep l ns" and c: "lru_cap l = n" "lru_entries l = xs"
      using v unfolding lru_view_def by blast
    then show ?thesis
      using rep_entries [OF rep_list [OF rep]] rep_keys [OF rep] rep_cap [OF rep] by (auto simp: comp_def)
  qed
  with sync_lru.linearizable [OF assms [unfolded SyncLRU_step_def]] show ?thesis
    by (rule mon_linearized_mono)
qed

lemma sync_lru_sample:
  "\<exists>m l. run SyncLRU_step (mon_meeting (Put (5 :: int) (50 :: int)) (Get 5)) (mon_new (NewSyncLRU 1)) = Some m
     \<and> mon_obj m = Some l \<and> mon_pc m 2 = MonOut (Get 5) (Some (50, True))"
proof -
  obtain l1 where l1: "lru_body (Put (5 :: int) (50 :: int)) (NewSyncLRU 1) = Some (l1, None)" "lru_view 1 l1 [(5, 50)]"
    using lru_body_ok [OF sync_lru.new_rep, of 1 "Put (5 :: int) (50 :: int)" "[(5, 50)]" None] by (auto simp: spec_put_def)
  obtain l2 where "lru_body (Get 5) l1 = Some (l2, Some (50, True))"
    using lru_body_ok [OF l1(2), of "Get 5" "[(5, 50)]" "Some (50, True)"] by (auto simp: spec_get_def touch_def)
  then show ?thesis
    using mon_meeting_runs [of lru_body, OF l1(1)] unfolding SyncLRU_step_def by blast
qed

lemma sync_lru_linearizable_witness:
  "\<exists>m. run SyncLRU_step (mon_meeting (Put (5 :: int) (50 :: int)) (Get 5)) (mon_new (NewSyncLRU 1)) = Some m
     \<and> mon_mine m 2 = [(2, Get 5, Some (50, True))]"
proof -
  obtain m l where m: "run SyncLRU_step (mon_meeting (Put (5 :: int) (50 :: int)) (Get 5)) (mon_new (NewSyncLRU 1)) = Some m"
    "mon_obj m = Some l" "mon_pc m 2 = MonOut (Get 5) (Some (50, True))"
    using sync_lru_sample by blast
  then show ?thesis using sync_lru_linearizable [OF m(1)] unfolding mon_linearized_def by blast
qed

text \<open>C30: The shape of \<^verbatim>\<open>SyncLRU\<close> under any interleaving of calls: whenever no method is at
  work, the \<^verbatim>\<open>next\<close> fields lead from the head sentinel through distinct nodes to the tail
  sentinel and the \<^verbatim>\<open>prev\<close> fields lead the same way back, the sentinels are never in the map,
  the map's entries are exactly the listed nodes under their own keys, no key is listed twice, and the
  map has as many entries as the list has nodes, at most the capacity, which never changes.\<close>

theorem sync_lru_well_formed:
  assumes "run SyncLRU_step as (mon_new (NewSyncLRU n)) = Some m" and "mon_obj m = Some l"
  shows "\<exists>ns. linked (ln_next l) (ln_prev l) (lru_head l) ns (lru_tail l) \<and> distinct (lru_head l # ns @ [lru_tail l])
    \<and> (\<forall>k x. map_of (lru_cache l) k = Some x \<longleftrightarrow> x \<in> set ns \<and> ln_key l x = k) \<and> distinct (map (ln_key l) ns)
    \<and> length (lru_cache l) = length ns \<and> length ns \<le> unat n \<and> lru_cap l = n"
proof -
  have "mon_linearized lru_body (spec_lru (unat n)) [] (lru_view n) m"
    using sync_lru.linearizable assms(1) unfolding SyncLRU_step_def by blast
  then obtain ns where rep: "lru_rep l ns" and c: "lru_cap l = n"
    using assms(2) unfolding mon_linearized_def lru_view_def by blast
  then show ?thesis
    using rep_list [OF rep] rep_map [OF rep] rep_keys [OF rep] rep_length [OF rep] rep_cap [OF rep]
    unfolding lru_list_def by metis
qed

lemma sync_lru_well_formed_witness:
  "\<exists>m l ns. run SyncLRU_step (mon_meeting (Put (5 :: int) (50 :: int)) (Get 5)) (mon_new (NewSyncLRU 1)) = Some m
     \<and> mon_obj m = Some l \<and> linked (ln_next l) (ln_prev l) (lru_head l) ns (lru_tail l) \<and> length ns \<le> 1"
proof -
  obtain m l where m: "run SyncLRU_step (mon_meeting (Put (5 :: int) (50 :: int)) (Get 5)) (mon_new (NewSyncLRU 1)) = Some m"
    "mon_obj m = Some l" "mon_pc m 2 = MonOut (Get 5) (Some (50, True))"
    using sync_lru_sample by blast
  then show ?thesis using sync_lru_well_formed [OF m(1,2)] by auto
qed

end
