(* ===== verification/Sem_Composed.thy ===== *)
theory Sem_Composed
  imports Sem_Lockfree Queue_LockFree
begin

text \<open>
  \<^verbatim>\<open>LockfreeSemaphore\<close> of \<^verbatim>\<open>syncx/semaphore.go\<close> together with the queue it really uses,
  \<^verbatim>\<open>queue.NewLockFreeMPMC\<close>: the calls \<^verbatim>\<open>l.waiters.Enqueue(gate)\<close> and
  \<^verbatim>\<open>l.waiters.Dequeue()\<close> are the machine of theory \<open>Queue_LockFree\<close>, one shared access of
  the ring at a time, interleaved with everything else. The simulation below maps every step to a
  step, or none, of the model of theory \<open>Sem_Lockfree\<close>, in which a queue operation is one atomic
  step; what was proved of that model so holds of the program with its queue. A gate is the address
  of its \<^verbatim>\<open>atomic.Bool\<close>. Auxiliary fields: \<open>lq_held\<close>, \<open>lq_lost\<close> and \<open>lq_inflight\<close>, as in
  theory \<open>Sem_Lockfree\<close>.
\<close>

section \<open>The program with its queue\<close>

record ComposedSemaphore =
  lq_permits :: i64
  lq_queue :: "nat LockFreeMPMC"
  lq_gate :: "nat \<Rightarrow> bool"
  lq_fresh :: nat
  lq_pc :: "tid \<Rightarrow> ls_pc"
  lq_held :: nat
  lq_lost :: nat
  lq_inflight :: nat

definition NewComposedSemaphore :: "i64 \<Rightarrow> ComposedSemaphore" where
  "NewComposedSemaphore init = \<lparr>lq_permits = init, lq_queue = NewLockFreeMPMC, lq_gate = (\<lambda>_. False),
     lq_fresh = 0, lq_pc = (\<lambda>_. LsIdle), lq_held = 0, lq_lost = 0, lq_inflight = 0\<rparr>"

abbreviation lq_goto :: "tid \<Rightarrow> ls_pc \<Rightarrow> ComposedSemaphore \<Rightarrow> ComposedSemaphore" where
  "lq_goto t p c \<equiv> c\<lparr>lq_pc := (lq_pc c)(t := p)\<rparr>"

text \<open>The call \<^verbatim>\<open>l.waiters.Enqueue(gate)\<close>: entered, taken one access further, and left with its
  result dropped.\<close>

definition lq_Enqueue :: "tid \<Rightarrow> nat \<Rightarrow> ComposedSemaphore \<Rightarrow> ComposedSemaphore option" where
  "lq_Enqueue t gate c =
     (case lf_pc (lq_queue c) t of
        LfIdle \<Rightarrow> map_option (\<lambda>q. c\<lparr>lq_queue := q\<rparr>) (LFMPMC_step (LfEnqueue t gate) (lq_queue c))
      | EDone v b \<Rightarrow>
          map_option (\<lambda>q. c\<lparr>lq_queue := q, lq_pc := (lq_pc c)(t := LsSpin gate)\<rparr>)
            (LFMPMC_step (LfReturn t) (lq_queue c))
      | _ \<Rightarrow>
          map_option (\<lambda>q. c\<lparr>lq_queue := q,
              lq_lost := (if lf_pc q t = EDone gate False then Suc (lq_lost c) else lq_lost c)\<rparr>)
            (LFMPMC_step (LfStep t) (lq_queue c)))"

text \<open>The loop around \<^verbatim>\<open>l.waiters.Dequeue()\<close>.\<close>

definition lq_Dequeue :: "tid \<Rightarrow> ComposedSemaphore \<Rightarrow> ComposedSemaphore option" where
  "lq_Dequeue t c =
     (case lf_pc (lq_queue c) t of
        LfIdle \<Rightarrow> map_option (\<lambda>q. c\<lparr>lq_queue := q\<rparr>) (LFMPMC_step (LfDequeue t) (lq_queue c))
      | DDone gate ok \<Rightarrow>
          map_option (\<lambda>q. c\<lparr>lq_queue := q, lq_pc := (lq_pc c)(t := if ok then LsSet gate else LsDeq)\<rparr>)
            (LFMPMC_step (LfReturn t) (lq_queue c))
      | _ \<Rightarrow>
          map_option (\<lambda>q. c\<lparr>lq_queue := q,
              lq_inflight := lq_inflight c + (lf_deqs q - lf_deqs (lq_queue c))\<rparr>)
            (LFMPMC_step (LfStep t) (lq_queue c)))"

definition Composed_Acquire_step :: "tid \<Rightarrow> ComposedSemaphore \<Rightarrow> ComposedSemaphore option" where
  "Composed_Acquire_step t c =
     (case lq_pc c t of
        LsLoad \<Rightarrow> Some (lq_goto t (LsCas (lq_permits c)) c)
      | LsCas val \<Rightarrow>
          (if lq_permits c = val
           then (if val \<le>s 0 then Some (c\<lparr>lq_permits := val - 1, lq_pc := (lq_pc c)(t := LsGate)\<rparr>)
                 else Some (c\<lparr>lq_permits := val - 1, lq_pc := (lq_pc c)(t := LsIdle), lq_held := Suc (lq_held c)\<rparr>))
           else Some (lq_goto t LsLoad c))
      | LsGate \<Rightarrow>
          Some (c\<lparr>lq_gate := (lq_gate c)(lq_fresh c := False), lq_fresh := Suc (lq_fresh c),
                  lq_pc := (lq_pc c)(t := LsEnq (lq_fresh c))\<rparr>)
      | LsEnq gate \<Rightarrow> lq_Enqueue t gate c
      | LsSpin gate \<Rightarrow>
          (if lq_gate c gate then Some (c\<lparr>lq_pc := (lq_pc c)(t := LsIdle), lq_held := Suc (lq_held c)\<rparr>)
           else Some c)
      | _ \<Rightarrow> None)"

definition Composed_Release_step :: "tid \<Rightarrow> ComposedSemaphore \<Rightarrow> ComposedSemaphore option" where
  "Composed_Release_step t c =
     (case lq_pc c t of
        LsAdd \<Rightarrow>
          (let after = lq_permits c + 1
           in if after \<le>s 0 then Some (c\<lparr>lq_permits := after, lq_pc := (lq_pc c)(t := LsDeq)\<rparr>)
              else Some (c\<lparr>lq_permits := after, lq_pc := (lq_pc c)(t := LsIdle)\<rparr>))
      | LsDeq \<Rightarrow> lq_Dequeue t c
      | LsSet gate \<Rightarrow>
          Some (c\<lparr>lq_gate := (lq_gate c)(gate := True), lq_pc := (lq_pc c)(t := LsIdle),
                  lq_inflight := lq_inflight c - 1\<rparr>)
      | _ \<Rightarrow> None)"

fun Composed_step :: "sem_act \<Rightarrow> ComposedSemaphore \<Rightarrow> ComposedSemaphore option" where
  "Composed_step (CallAcquire t) c =
     (if lq_pc c t = LsIdle \<and> t < max_goroutines then Some (lq_goto t LsLoad c) else None)"
| "Composed_step (CallRelease t) c =
     (if lq_pc c t = LsIdle \<and> t < max_goroutines \<and> 0 < lq_held c
      then Some (c\<lparr>lq_pc := (lq_pc c)(t := LsAdd), lq_held := lq_held c - 1\<rparr>) else None)"
| "Composed_step (SemStep t) c =
     (case Composed_Acquire_step t c of Some c' \<Rightarrow> Some c' | None \<Rightarrow> Composed_Release_step t c)"

section \<open>What the atomic model sees\<close>

text \<open>Where the goroutine stands in the atomic model: an enqueue has happened at its successful CAS
  or at its refusal, a dequeue at its successful CAS.\<close>

fun lq_see :: "nat list \<Rightarrow> nat lf_pc \<Rightarrow> ls_pc \<Rightarrow> ls_pc" where
  "lq_see es x (LsEnq g) =
     (case x of EWrite _ _ \<Rightarrow> LsSpin g | EStore _ _ \<Rightarrow> LsSpin g | EDone _ _ \<Rightarrow> LsSpin g | _ \<Rightarrow> LsEnq g)"
| "lq_see es x LsDeq =
     (case x of
        DRead w \<Rightarrow> LsSet (es ! unat w)
      | DClear _ v \<Rightarrow> LsSet v
      | DStore _ v \<Rightarrow> LsSet v
      | DDone v ok \<Rightarrow> if ok then LsSet v else LsDeq
      | _ \<Rightarrow> LsDeq)"
| "lq_see es x p = p"

definition lq_see_all :: "ComposedSemaphore \<Rightarrow> tid \<Rightarrow> ls_pc" where
  "lq_see_all c u = lq_see (lf_enqs (lq_queue c)) (lf_pc (lq_queue c) u) (lq_pc c u)"

definition lq_view :: "ComposedSemaphore \<Rightarrow> LockfreeSemaphore" where
  "lq_view c = \<lparr>ls_permits = lq_permits c, ls_waiters = lf_abs (lq_queue c), ls_gate = lq_gate c,
     ls_fresh = lq_fresh c, ls_pc = lq_see_all c, ls_held = lq_held c, ls_lost = lq_lost c,
     ls_inflight = lq_inflight c\<rparr>"

text \<open>The queue calls under way are those of the semaphore's program.\<close>

fun lq_match :: "ls_pc \<Rightarrow> nat lf_pc \<Rightarrow> bool" where
  "lq_match (LsEnq g) x \<longleftrightarrow>
     (case x of LfIdle \<Rightarrow> True | ELoadTail v \<Rightarrow> v = g | ELoadSeq v _ \<Rightarrow> v = g | ECas v _ \<Rightarrow> v = g
      | EWrite v _ \<Rightarrow> v = g | EStore v _ \<Rightarrow> v = g | EDone v _ \<Rightarrow> v = g | _ \<Rightarrow> False)"
| "lq_match LsDeq x \<longleftrightarrow>
     (case x of LfIdle \<Rightarrow> True | DLoadHead \<Rightarrow> True | DLoadSeq _ \<Rightarrow> True | DCas _ \<Rightarrow> True | DRead _ \<Rightarrow> True
      | DClear _ _ \<Rightarrow> True | DStore _ _ \<Rightarrow> True | DDone _ _ \<Rightarrow> True | _ \<Rightarrow> False)"
| "lq_match p x \<longleftrightarrow> x = LfIdle"

definition lq_ok :: "ComposedSemaphore \<Rightarrow> bool" where
  "lq_ok c \<longleftrightarrow> lf_ok (lq_queue c) \<and> lf_owned (lq_queue c) \<and> (\<forall>t. lq_match (lq_pc c t) (lf_pc (lq_queue c) t))"

lemma lq_okD:
  assumes "lq_ok c"
  shows lq_queue_ok: "lf_ok (lq_queue c)" and lq_queue_owned: "lf_owned (lq_queue c)"
    and lq_matched: "lq_match (lq_pc c t) (lf_pc (lq_queue c) t)"
  using assms unfolding lq_ok_def by blast+

section \<open>Steps of the queue\<close>

lemma lf_step_others:
  assumes "LFMPMC_step a q = Some q'" and "a \<in> {LfEnqueue t v, LfDequeue t, LfStep t, LfReturn t}"
  shows "lf_pc q' = (lf_pc q)(t := lf_pc q' t)"
  using assms by (auto simp: LFMPMC_Enqueue_step_def LFMPMC_Dequeue_step_def Let_def
      split: lf_pc.splits if_splits)

text \<open>The reader of a ticket knows a value that stays in its place.\<close>

lemma lq_see_append:
  assumes ok: "lf_ok q" and small: "lf_small q"
  shows "lq_see (lf_enqs q @ vs) (lf_pc q u) p = lq_see (lf_enqs q) (lf_pc q u) p"
proof (cases "\<exists>w. lf_pc q u = DRead w")
  case True
  then obtain w where w: "lf_pc q u = DRead w" by blast
  have "unat w < length (lf_enqs q)"
    by (rule lf_reader [OF ok small disjI1 [OF w]]) (auto simp: lf_current_def)
  then show ?thesis by (cases p) (auto simp: w nth_append)
next
  case False
  then show ?thesis by (cases p) (auto split: lf_pc.splits)
qed

lemma lf_cas_room:
  assumes ok: "lf_ok q" and small: "lf_small q" and pc: "lf_pc q t = ECas v (lf_tail q)"
  shows "length (lf_abs q) < BoundedQueueSize"
proof -
  note tk = lf_ok_tickets [OF ok]
  obtain p where p: "p \<le> lf_N q" "lf_tail q = of_nat p" "p = lf_N q \<longrightarrow> lf_reusable q"
    using lf_ok_pc [OF ok, of t] pc by auto
  then have "p = lf_N q"
    using lf_tail_eq [OF tk] small u64_nat_eq [of p "lf_N q"] by (simp add: lf_small_def)
  with p(3) show ?thesis using lf_reusable_room [OF tk] by blast
qed

lemma lf_cas_front:
  assumes ok: "lf_ok q" and small: "lf_small q" and pc: "lf_pc q t = DCas (lf_head q)"
  shows "unat (lf_head q) = lf_deqs q" and "lf_abs q = lf_enqs q ! lf_deqs q # drop (Suc (lf_deqs q)) (lf_enqs q)"
proof -
  note tk = lf_ok_tickets [OF ok]
  have sm: "lf_deqs q < 2 ^ 62" using lf_deqs_le [OF tk] small by (simp add: lf_small_def)
  obtain p where p: "p \<le> lf_deqs q" "lf_head q = of_nat p" "p = lf_deqs q \<longrightarrow> lf_phase q p = Full"
    using lf_ok_pc [OF ok, of t] pc by auto
  then have pe: "p = lf_deqs q"
    using lf_head_eq [OF tk] sm u64_nat_eq [of p "lf_deqs q"] by simp
  then have "lf_deqs q < lf_N q" using p(3) lf_free_iff [OF tk, of "lf_deqs q"] by simp
  then show "lf_abs q = lf_enqs q ! lf_deqs q # drop (Suc (lf_deqs q)) (lf_enqs q)"
    by (simp add: lf_abs_def Cons_nth_drop_Suc)
  show "unat (lf_head q) = lf_deqs q" using p(2) pe sm by (simp add: unat_of_nat)
qed

lemma lf_read_value:
  assumes ok: "lf_ok q" and small: "lf_small q" and pc: "lf_pc q t = DRead w"
  shows "lf_val q (slot_of w) = lf_enqs q ! unat w"
proof -
  obtain p where p: "w = of_nat p" "lf_phase q p = Reading t" "lf_val q (p mod BoundedQueueSize) = lf_enqs q ! p"
    using lf_ok_pc [OF ok, of t] pc by auto
  then have "lf_current q p" using lf_active_current [OF lf_ok_tickets [OF ok], of p] by simp
  then have "unat w = p" using p(1) small by (simp add: lf_current_def lf_small_def unat_of_nat)
  then show ?thesis using p by (simp add: slot_of_nat)
qed

lemma lq_match_at:
  "lq_match p (ELoadTail v) \<longleftrightarrow> p = LsEnq v" "lq_match p (ELoadSeq v w) \<longleftrightarrow> p = LsEnq v"
  "lq_match p (ECas v w) \<longleftrightarrow> p = LsEnq v" "lq_match p (EWrite v w) \<longleftrightarrow> p = LsEnq v"
  "lq_match p (EStore v w) \<longleftrightarrow> p = LsEnq v" "lq_match p DLoadHead \<longleftrightarrow> p = LsDeq"
  "lq_match p (DLoadSeq w) \<longleftrightarrow> p = LsDeq" "lq_match p (DCas w) \<longleftrightarrow> p = LsDeq" "lq_match p (DRead w) \<longleftrightarrow> p = LsDeq"
  "lq_match p (DClear w v) \<longleftrightarrow> p = LsDeq" "lq_match p (DStore w v) \<longleftrightarrow> p = LsDeq"
  by (cases p; auto)+

text \<open>The accesses that change neither the content nor what the atomic model sees.\<close>

fun lq_local :: "nat lf_pc \<Rightarrow> bool" where
  "lq_local (ELoadTail v) = True"
| "lq_local (EWrite v w) = True"
| "lq_local (EStore v w) = True"
| "lq_local DLoadHead = True"
| "lq_local (DLoadSeq w) = True"
| "lq_local (DClear w v) = True"
| "lq_local (DStore w v) = True"
| "lq_local x = False"

lemma lq_local_step:
  assumes "LFMPMC_step (LfStep t) q = Some q'" and "lq_match p (lf_pc q t)" and "lq_local (lf_pc q t)"
  shows "lf_abs q' = lf_abs q" "lf_enqs q' = lf_enqs q" "lf_deqs q' = lf_deqs q" "lq_match p (lf_pc q' t)"
    "lq_see (lf_enqs q) (lf_pc q' t) p = lq_see (lf_enqs q) (lf_pc q t) p" "lf_pc q' t \<noteq> EDone v False"
  using assms
  by (cases "lf_pc q t"; auto simp: LFMPMC_Enqueue_step_def LFMPMC_Dequeue_step_def lf_abs_def lq_match_at Let_def
        split: if_splits)+

lemma lq_refused:
  assumes "lf_ok q" and "lf_owned q" and "lf_small q" and "LFMPMC_step (LfStep t) q = Some q'"
    and "lf_pc q t = ELoadSeq v w"
  shows "q' = lf_goto t (ECas v w) q \<or> q' = lf_goto t (ELoadTail v) q \<or> q' = lf_goto t (EDone v False) q
    \<and> (length (lf_abs q) = BoundedQueueSize \<or> (\<exists>u w. lf_reads (lf_pc q u) = Some w))"
proof (cases "lf_seq q (slot_of w) - w <s 0")
  case True
  then show ?thesis
    using lf_full_cause [OF assms(1,2) lf_refusal_cause(1) [OF assms(1,3,5) True]] assms(4,5)
    by (auto simp: LFMPMC_Enqueue_step_def)
qed (use assms(4,5) in \<open>auto simp: LFMPMC_Enqueue_step_def Let_def split: if_splits\<close>)

text \<open>What a step of the queue program does to the content and to what the atomic model sees of the
  goroutine: nothing, an enqueue, a dequeue, or a refusal with its cause.\<close>

lemma lq_queue_step:
  assumes ok: "lf_ok q" and own: "lf_owned q" and small: "lf_small q"
    and st: "LFMPMC_step (LfStep t) q = Some q'" and m: "lq_match p (lf_pc q t)"
  obtains (quiet) "lf_abs q' = lf_abs q" "lf_enqs q' = lf_enqs q" "lf_deqs q' = lf_deqs q"
      "lq_match p (lf_pc q' t)" "lq_see (lf_enqs q) (lf_pc q' t) p = lq_see (lf_enqs q) (lf_pc q t) p"
      "\<And>v. lf_pc q' t \<noteq> EDone v False"
  | (enq) g where "p = LsEnq g" "lq_see (lf_enqs q) (lf_pc q t) p = LsEnq g" "lf_abs q' = lf_abs q @ [g]"
      "lf_enqs q' = lf_enqs q @ [g]" "length (lf_abs q) < BoundedQueueSize" "lq_match p (lf_pc q' t)"
      "lq_see (lf_enqs q') (lf_pc q' t) p = LsSpin g" "\<And>v. lf_pc q' t \<noteq> EDone v False"
  | (deq) g where "p = LsDeq" "lq_see (lf_enqs q) (lf_pc q t) p = LsDeq" "lf_abs q = g # lf_abs q'"
      "lf_enqs q' = lf_enqs q" "lf_deqs q' = Suc (lf_deqs q)" "lq_match p (lf_pc q' t)"
      "lq_see (lf_enqs q') (lf_pc q' t) p = LsSet g"
  | (refuse) g where "p = LsEnq g" "lq_see (lf_enqs q) (lf_pc q t) p = LsEnq g" "lf_abs q' = lf_abs q"
      "lf_enqs q' = lf_enqs q" "lf_pc q' t = EDone g False"
      "length (lf_abs q) = BoundedQueueSize \<or> (\<exists>u w. lf_reads (lf_pc q u) = Some w)"
proof (cases "lq_local (lf_pc q t)")
  case True
  then show thesis using lq_local_step [OF st m True] by (intro quiet) auto
next
  case False
  note defs = LFMPMC_Enqueue_step_def LFMPMC_Dequeue_step_def lf_abs_def
  then show thesis
  proof (cases "lf_pc q t")
    case (ELoadSeq v w)
    then have p: "p = LsEnq v" using m by (simp add: lq_match_at)
    from lq_refused [OF ok own small st ELoadSeq] show thesis
    proof (elim disjE conjE)
      assume "q' = lf_goto t (ECas v w) q"
      then show thesis using p ELoadSeq by (intro quiet) (auto simp: lf_abs_def)
    next
      assume "q' = lf_goto t (ELoadTail v) q"
      then show thesis using p ELoadSeq by (intro quiet) (auto simp: lf_abs_def)
    qed (use p ELoadSeq in \<open>intro refuse [of v]; auto simp: lf_abs_def\<close>)+
  next
    case (ECas v w)
    then have p: "p = LsEnq v" using m by (simp add: lq_match_at)
    show thesis
    proof (cases "lf_tail q = w")
      case True
      then show thesis
        using ECas st p lf_cas_room [OF ok small, of t v] lf_deqs_le [OF lf_ok_tickets [OF ok]]
        by (intro enq [of v]) (auto simp: defs)
    qed (use p ECas st in \<open>intro quiet; auto simp: defs\<close>)
  next
    case (DCas w)
    then have p: "p = LsDeq" using m by (simp add: lq_match_at)
    show thesis
    proof (cases "lf_head q = w")
      case True
      then show thesis using DCas st p lf_cas_front [OF ok small, of t]
        by (intro deq [of "lf_enqs q ! lf_deqs q"]) (auto simp: defs)
    qed (use p DCas st in \<open>intro quiet; auto simp: defs\<close>)
  next
    case (DRead w)
    then show thesis using m st lf_read_value [OF ok small DRead] by (intro quiet) (auto simp: defs lq_match_at)
  qed (use False st in \<open>simp_all add: defs\<close>)
qed

section \<open>The simulation\<close>

lemma lq_see_all_upd:
  assumes ok: "lq_ok c" and small: "lf_small (lq_queue c)"
    and q: "lf_pc (lq_queue c') = (lf_pc (lq_queue c))(t := x)" "lf_enqs (lq_queue c') = lf_enqs (lq_queue c) @ vs"
    and p: "lq_pc c' = (lq_pc c)(t := p)"
  shows "lq_see_all c' = (lq_see_all c)(t := lq_see (lf_enqs (lq_queue c')) x p)"
  using lq_see_append [OF lq_queue_ok [OF ok] small] by (auto simp: fun_eq_iff lq_see_all_def q p)

lemma lq_ok_upd:
  assumes ok: "lq_ok c" and q: "lf_ok (lq_queue c')" "lf_owned (lq_queue c')"
    and "lf_pc (lq_queue c') = (lf_pc (lq_queue c))(t := x)" and "lq_pc c' = (lq_pc c)(t := p)" and "lq_match p x"
  shows "lq_ok c'"
  using assms lq_matched [OF ok] unfolding lq_ok_def by simp

text \<open>A step of the queue keeps the queue's invariant.\<close>

lemma lq_queue_keeps:
  assumes ok: "lq_ok c" and small: "lf_small (lq_queue c)" and st: "LFMPMC_step a (lq_queue c) = Some q'"
  shows "lf_ok q'" and "lf_owned q'"
  using lf_keeps [OF lq_queue_ok [OF ok] small st]
    lf_owned_keeps [OF lq_queue_ok [OF ok] small lq_queue_owned [OF ok] st] .

text \<open>Outside of the queue calls the two programs take the same steps.\<close>

lemma lq_sim_program:
  assumes ok: "lq_ok c" and small: "lf_small (lq_queue c)"
    and st: "Composed_step a c = Some c'"
    and out: "\<And>t. a = SemStep t \<Longrightarrow> lq_pc c t \<noteq> LsDeq \<and> (\<forall>g. lq_pc c t \<noteq> LsEnq g)"
  shows "lq_ok c' \<and> Lockfree_step (LsCall a) (lq_view c) = Some (lq_view c')"
proof -
  obtain t where a: "a = CallAcquire t \<or> a = CallRelease t \<or> a = SemStep t" by (cases a) auto
  have idle: "lf_pc (lq_queue c) t = LfIdle"
  proof -
    have "lq_pc c t \<noteq> LsDeq \<and> (\<forall>g. lq_pc c t \<noteq> LsEnq g)" using a st out by (auto split: if_splits)
    then show ?thesis using lq_matched [OF ok, of t] by (cases "lq_pc c t") auto
  qed
  have q: "lf_pc (lq_queue c) = (lf_pc (lq_queue c))(t := LfIdle)" using idle by (metis fun_upd_triv)
  have see: "lq_see_all d = (lq_see_all c)(t := lq_see (lf_enqs (lq_queue c)) LfIdle p)" and okd: "lq_match p LfIdle \<Longrightarrow> lq_ok d"
    if "lq_queue d = lq_queue c" "lq_pc d = (lq_pc c)(t := p)" for d p
    using lq_see_all_upd [OF ok small, of d t LfIdle "[]" p] lq_ok_upd [OF ok, of d t LfIdle p]
      lq_queue_ok [OF ok] lq_queue_owned [OF ok] q that by simp_all
  have now: "lq_see_all c t = lq_see (lf_enqs (lq_queue c)) LfIdle (lq_pc c t)" using idle by (simp add: lq_see_all_def)
  note defs = lq_view_def Lockfree_Acquire_step_def Lockfree_Release_step_def Composed_Acquire_step_def Composed_Release_step_def
  from a show ?thesis
  proof (elim disjE)
    assume "a = CallAcquire t"
    then show ?thesis using st now by (auto simp: lq_view_def see okd split: if_splits)
  next
    assume "a = CallRelease t"
    then show ?thesis using st now by (auto simp: lq_view_def see okd split: if_splits)
  next
    assume a: "a = SemStep t"
    show ?thesis
    proof (cases "lq_pc c t")
      case LsLoad
      with a st now show ?thesis by (auto simp: defs see okd)
    next
      case (LsCas v)
      with a st now show ?thesis by (auto simp: defs see okd split: if_splits)
    next
      case LsGate
      with a st now show ?thesis by (auto simp: defs see okd)
    next
      case (LsSpin g)
      with a st now ok show ?thesis by (cases "lq_gate c g") (auto simp: defs see okd)
    next
      case LsAdd
      with a st now show ?thesis by (auto simp: defs see okd Let_def split: if_splits)
    next
      case (LsSet g)
      with a st now show ?thesis by (auto simp: defs see okd)
    qed (use a st out in \<open>auto simp: defs\<close>)
  qed
qed

text \<open>Inside of them, a queue step is a step of the atomic model or none.\<close>

lemma lq_see_reader:
  assumes ok: "lq_ok c" and "lf_reads (lf_pc (lq_queue c) u) = Some w"
  shows "ls_sets (lq_see_all c u)"
  using lq_matched [OF ok, of u] assms(2)
  by (cases "lf_pc (lq_queue c) u"; cases "lq_pc c u") (auto simp: lq_see_all_def)

lemma lq_invisible:
  assumes "lq_view c' = lq_view c"
  shows "\<exists>bs. run Lockfree_step bs (lq_view c) = Some (lq_view c')"
  by (rule exI [of _ "[]"]) (simp add: assms)

lemma lq_visible:
  assumes "Lockfree_step b (lq_view c) = Some (lq_view c')"
  shows "\<exists>bs. run Lockfree_step bs (lq_view c) = Some (lq_view c')"
  by (rule exI [of _ "[b]"]) (simp add: assms)

lemma lq_sim_queue:
  assumes ok: "lq_ok c" and small: "lf_small (lq_queue c)"
    and pc: "lq_pc c t = p" and mid: "LFMPMC_step (LfStep t) (lq_queue c) = Some q'"
    and flight: "\<forall>u. ls_sets (lq_see_all c u) \<longrightarrow> 0 < lq_inflight c"
    and c': "c' = c\<lparr>lq_queue := q',
        lq_lost := (if \<exists>g. p = LsEnq g \<and> lf_pc q' t = EDone g False then Suc (lq_lost c) else lq_lost c),
        lq_inflight := (if p = LsDeq then lq_inflight c + (lf_deqs q' - lf_deqs (lq_queue c)) else lq_inflight c)\<rparr>"
  shows "lq_ok c' \<and> (\<exists>bs. run Lockfree_step bs (lq_view c) = Some (lq_view c'))"
proof -
  let ?q = "lq_queue c"
  have m: "lq_match p (lf_pc ?q t)" using lq_matched [OF ok, of t] pc by simp
  have oth: "lf_pc q' = (lf_pc ?q)(t := lf_pc q' t)" using lf_step_others [OF mid] by simp
  have pcs: "lq_pc c' = (lq_pc c)(t := p)" using pc by (auto simp: c')
  have qc: "lq_queue c' = q'" by (simp add: c')
  have okd: "lq_ok c'" if "lq_match p (lf_pc q' t)"
    by (rule lq_ok_upd [OF ok, where x = "lf_pc q' t" and t = t and p = p])
      (use lq_queue_keeps [OF ok small mid] that oth pcs qc in simp_all)
  have see: "lq_see_all c' = (lq_see_all c)(t := lq_see (lf_enqs q') (lf_pc q' t) p)" if "lf_enqs q' = lf_enqs ?q @ vs" for vs
    using lq_see_all_upd [OF ok small, of c' t "lf_pc q' t" vs p] that oth pcs qc by simp
  have now: "lq_see_all c t = lq_see (lf_enqs ?q) (lf_pc ?q t) p" using pc by (simp add: lq_see_all_def)
  show ?thesis
  proof (rule lq_queue_step [OF lq_queue_ok [OF ok] lq_queue_owned [OF ok] small mid m], goal_cases)
    case 1
    have "lq_see_all c' = lq_see_all c" using see [of "[]"] 1 now by (simp add: fun_upd_idem)
    then have "lq_view c' = lq_view c" using 1 by (auto simp: lq_view_def c')
    then show ?case using okd 1 lq_invisible by blast
  next
    case (2 g)
    then have "lq_see_all c' = (lq_see_all c)(t := LsSpin g)" "lq_see_all c t = LsEnq g"
      using see [of "[g]"] now by simp_all
    then have "Lockfree_step (LsCall (SemStep t)) (lq_view c) = Some (lq_view c')"
      using 2 by (auto simp: lq_view_def Lockfree_Acquire_step_def c')
    then show ?case using okd 2 lq_visible by blast
  next
    case (3 g)
    then have "lq_see_all c' = (lq_see_all c)(t := LsSet g)" "lq_see_all c t = LsDeq"
      using see [of "[]"] now by simp_all
    then have "Lockfree_step (LsCall (SemStep t)) (lq_view c) = Some (lq_view c')"
      using 3 by (auto simp: lq_view_def Lockfree_Acquire_step_def Lockfree_Release_step_def c')
    then show ?case using okd 3 lq_visible by blast
  next
    case (4 g)
    then have "lq_see_all c' = (lq_see_all c)(t := LsSpin g)" "lq_see_all c t = LsEnq g"
      using see [of "[]"] now by simp_all
    moreover have "length (lf_abs ?q) = BoundedQueueSize \<or> 0 < lq_inflight c"
      using 4(6) flight lq_see_reader [OF ok] by metis
    ultimately have "Lockfree_step (LsRefuse t) (lq_view c) = Some (lq_view c')"
      using 4(1,3,5) by (simp add: lq_view_def Lockfree_refused_step_def c' del: neq0_conv)
    moreover have "lq_match p (lf_pc q' t)" using 4(1,5) by simp
    ultimately show ?case using okd lq_visible by blast
  qed
qed

text \<open>Entering and leaving a queue call.\<close>

lemma lq_sim_edge:
  assumes ok: "lq_ok c" and small: "lf_small (lq_queue c)"
    and a: "a \<in> {LfEnqueue t g, LfDequeue t, LfReturn t}" and st: "LFMPMC_step a (lq_queue c) = Some q'"
    and m: "lq_match p (lf_pc q' t)" and same: "lq_see (lf_enqs q') (lf_pc q' t) p = lq_see_all c t"
  shows "lq_ok (c\<lparr>lq_queue := q', lq_pc := (lq_pc c)(t := p)\<rparr>)
    \<and> lq_view (c\<lparr>lq_queue := q', lq_pc := (lq_pc c)(t := p)\<rparr>) = lq_view c"
proof -
  let ?c = "c\<lparr>lq_queue := q', lq_pc := (lq_pc c)(t := p)\<rparr>"
  have q: "lf_pc q' = (lf_pc (lq_queue c))(t := lf_pc q' t)"
    using lf_step_others [OF st, of t g] a by auto
  have e: "lf_enqs q' = lf_enqs (lq_queue c)" "lf_abs q' = lf_abs (lq_queue c)"
    using a st by (auto simp: lf_abs_def split: if_splits)
  have "lq_ok ?c"
    by (rule lq_ok_upd [OF ok, where x = "lf_pc q' t" and t = t and p = p])
      (use lq_queue_keeps [OF ok small st] m q in simp_all)
  moreover have "lq_see_all ?c = lq_see_all c"
    using lq_see_all_upd [OF ok small, of ?c t "lf_pc q' t" "[]" p] q e same by (simp add: fun_upd_idem)
  ultimately show ?thesis using e by (simp add: lq_view_def)
qed

lemma lq_sim_Enqueue:
  assumes ok: "lq_ok c" and small: "lf_small (lq_queue c)" and pc: "lq_pc c t = LsEnq g"
    and flight: "\<forall>u. ls_sets (lq_see_all c u) \<longrightarrow> 0 < lq_inflight c" and st: "lq_Enqueue t g c = Some c'"
  shows "lq_ok c' \<and> (\<exists>bs. run Lockfree_step bs (lq_view c) = Some (lq_view c'))"
proof -
  let ?x = "lf_pc (lq_queue c) t"
  have now: "lq_see_all c t = lq_see (lf_enqs (lq_queue c)) ?x (LsEnq g)" using pc by (simp add: lq_see_all_def)
  consider "?x = LfIdle" | v b where "?x = EDone v b" | "?x \<noteq> LfIdle" "\<And>v b. ?x \<noteq> EDone v b" by blast
  then show ?thesis
  proof cases
    case 1
    then obtain q where q: "LFMPMC_step (LfEnqueue t g) (lq_queue c) = Some q" "lf_pc q t = ELoadTail g"
      and c': "c' = c\<lparr>lq_queue := q, lq_pc := (lq_pc c)(t := LsEnq g)\<rparr>"
      using st pc by (auto simp: lq_Enqueue_def fun_upd_idem)
    show ?thesis
      using lq_sim_edge [OF ok small _ q(1), of t g "LsEnq g"] q(2) now 1 lq_invisible c' by simp
  next
    case (2 v b)
    then obtain q where q: "LFMPMC_step (LfReturn t) (lq_queue c) = Some q" "lf_pc q t = LfIdle"
      and c': "c' = c\<lparr>lq_queue := q, lq_pc := (lq_pc c)(t := LsSpin g)\<rparr>"
      using st by (auto simp: lq_Enqueue_def lf_finished_def)
    show ?thesis
      using lq_sim_edge [OF ok small _ q(1), of t g "LsSpin g"] q(2) now 2 lq_invisible c' by simp
  next
    case 3
    then obtain q where q: "LFMPMC_step (LfStep t) (lq_queue c) = Some q"
      and c': "c' = c\<lparr>lq_queue := q, lq_lost := (if lf_pc q t = EDone g False then Suc (lq_lost c) else lq_lost c)\<rparr>"
      using st by (cases ?x) (auto simp: lq_Enqueue_def)
    show ?thesis by (rule lq_sim_queue [OF ok small pc q flight]) (simp_all add: c')
  qed
qed

lemma lq_sim_Dequeue:
  assumes ok: "lq_ok c" and small: "lf_small (lq_queue c)" and pc: "lq_pc c t = LsDeq"
    and flight: "\<forall>u. ls_sets (lq_see_all c u) \<longrightarrow> 0 < lq_inflight c" and st: "lq_Dequeue t c = Some c'"
  shows "lq_ok c' \<and> (\<exists>bs. run Lockfree_step bs (lq_view c) = Some (lq_view c'))"
proof -
  let ?x = "lf_pc (lq_queue c) t"
  have now: "lq_see_all c t = lq_see (lf_enqs (lq_queue c)) ?x LsDeq" using pc by (simp add: lq_see_all_def)
  consider "?x = LfIdle" | v b where "?x = DDone v b" | "?x \<noteq> LfIdle" "\<And>v b. ?x \<noteq> DDone v b" by blast
  then show ?thesis
  proof cases
    case 1
    then obtain q where q: "LFMPMC_step (LfDequeue t) (lq_queue c) = Some q" "lf_pc q t = DLoadHead"
      and c': "c' = c\<lparr>lq_queue := q, lq_pc := (lq_pc c)(t := LsDeq)\<rparr>"
      using st pc by (auto simp: lq_Dequeue_def fun_upd_idem)
    show ?thesis
      using lq_sim_edge [OF ok small _ q(1), of t 0 LsDeq] q(2) now 1 lq_invisible c' by simp
  next
    case (2 v b)
    let ?p = "if b then LsSet v else LsDeq"
    obtain q where q: "LFMPMC_step (LfReturn t) (lq_queue c) = Some q" "lf_pc q t = LfIdle"
      and c': "c' = c\<lparr>lq_queue := q, lq_pc := (lq_pc c)(t := ?p)\<rparr>"
      using st 2 by (auto simp: lq_Dequeue_def lf_finished_def)
    show ?thesis
      using lq_sim_edge [OF ok small _ q(1), of t 0 ?p] q(2) now 2 lq_invisible c' by simp
  next
    case 3
    then obtain q where q: "LFMPMC_step (LfStep t) (lq_queue c) = Some q"
      and c': "c' = c\<lparr>lq_queue := q, lq_inflight := lq_inflight c + (lf_deqs q - lf_deqs (lq_queue c))\<rparr>"
      using st by (cases ?x) (auto simp: lq_Dequeue_def)
    show ?thesis by (rule lq_sim_queue [OF ok small pc q flight]) (simp_all add: c')
  qed
qed

lemma lq_sim_step:
  assumes ok: "lq_ok c" and small: "lf_small (lq_queue c)"
    and flight: "\<forall>u. ls_sets (lq_see_all c u) \<longrightarrow> 0 < lq_inflight c" and st: "Composed_step a c = Some c'"
  shows "lq_ok c' \<and> (\<exists>bs. run Lockfree_step bs (lq_view c) = Some (lq_view c'))"
proof -
  consider t g where "a = SemStep t" "lq_pc c t = LsEnq g" | t where "a = SemStep t" "lq_pc c t = LsDeq"
    | "\<And>t. a = SemStep t \<Longrightarrow> lq_pc c t \<noteq> LsDeq \<and> (\<forall>g. lq_pc c t \<noteq> LsEnq g)" by blast
  then show ?thesis
  proof cases
    case (1 t g)
    then have "lq_Enqueue t g c = Some c'"
      using st by (auto simp: Composed_Acquire_step_def Composed_Release_step_def split: option.splits)
    from lq_sim_Enqueue [OF ok small 1(2) flight this] show ?thesis by blast
  next
    case (2 t)
    then have "lq_Dequeue t c = Some c'"
      using st by (auto simp: Composed_Acquire_step_def Composed_Release_step_def)
    from lq_sim_Dequeue [OF ok small 2(2) flight this] show ?thesis by blast
  next
    case 3
    then show ?thesis using lq_sim_program [OF ok small st] lq_visible by blast
  qed
qed

text \<open>The queue only ever gains enqueues.\<close>

lemma lq_call_queue:
  "lq_Enqueue t g c = Some c' \<Longrightarrow> \<exists>b. LFMPMC_step b (lq_queue c) = Some (lq_queue c')"
  "lq_Dequeue t c = Some c' \<Longrightarrow> \<exists>b. LFMPMC_step b (lq_queue c) = Some (lq_queue c')"
  unfolding lq_Enqueue_def lq_Dequeue_def
  by (cases "lf_pc (lq_queue c) t"; auto simp del: LFMPMC_step.simps)+

lemma Composed_enqs_mono:
  assumes "Composed_step a c = Some c'"
  shows "lf_N (lq_queue c) \<le> lf_N (lq_queue c')"
proof -
  have "lq_queue c' = lq_queue c \<or> (\<exists>t g. lq_Enqueue t g c = Some c') \<or> (\<exists>t. lq_Dequeue t c = Some c')"
    using assms by (cases a) (auto simp: Composed_Acquire_step_def Composed_Release_step_def
        Let_def split: ls_pc.splits if_splits option.splits)
  then show ?thesis using lq_call_queue lf_N_mono by (metis order_refl)
qed

section \<open>The composed semaphore\<close>

lemma NewComposed_view:
  "lq_view (NewComposedSemaphore n) = NewLockfreeSemaphore n" "lq_ok (NewComposedSemaphore n)"
  by (simp_all add: lq_view_def lq_see_all_def NewComposedSemaphore_def NewLockfreeSemaphore_def NewLockFreeMPMC_def
      lf_abs_def lq_ok_def lf_ok_def lf_owned_def lf_tickets_def lf_slots_def lf_current_def logged_Nil fun_eq_iff)

lemma Lockfree_run_inv: "run Lockfree_step bs l = Some l' \<Longrightarrow> ls_inv n l \<Longrightarrow> ls_inv n l'"
  by (induction bs arbitrary: l) (auto split: option.splits dest: Lockfree_step_inv)

lemma Composed_run:
  assumes "run Composed_step as c0 = Some c" and "lq_ok c0" and "ls_inv n (lq_view c0)" and "lf_small (lq_queue c)"
  shows "lq_ok c \<and> (\<exists>bs. run Lockfree_step bs (lq_view c0) = Some (lq_view c))"
  using assms(1,4)
proof (induction as arbitrary: c rule: rev_induct)
  case Nil
  then show ?case using assms(2) by (auto intro: exI [of _ "[]"])
next
  case (snoc a as)
  obtain d where d: "run Composed_step as c0 = Some d" "Composed_step a d = Some c"
    using snoc.prems(1) by (auto simp: run_snoc_Some)
  have small: "lf_small (lq_queue d)" using Composed_enqs_mono [OF d(2)] snoc.prems(2) by (simp add: lf_small_def)
  obtain bs where ok: "lq_ok d" and bs: "run Lockfree_step bs (lq_view c0) = Some (lq_view d)"
    using snoc.IH [OF d(1) small] by blast
  have inv: "ls_inv n (lq_view d)" using Lockfree_run_inv [OF bs assms(3)] .
  have flight: "\<forall>u. ls_sets (lq_see_all d u) \<longrightarrow> 0 < lq_inflight d"
  proof (intro allI impI)
    fix u assume "ls_sets (lq_see_all d u)"
    then have "0 < int (lq_inflight d)"
      using ls_flight [OF inv] num_pos [where idle = LsIdle and P = ls_sets and pc = "lq_see_all d" and t = u] ls_active [OF inv]
      by (simp add: lq_view_def)
    then show "0 < lq_inflight d" by simp
  qed
  obtain cs where "lq_ok c" "run Lockfree_step cs (lq_view d) = Some (lq_view c)"
    using lq_sim_step [OF ok small flight d(2)] by blast
  then show ?case using run_append_Some [OF bs, of cs] by auto
qed

lemma NewComposed_inv: "n < 2 ^ 63 \<Longrightarrow> ls_inv n (lq_view (NewComposedSemaphore (of_nat n)))"
  using lockfree_semaphore.inv_init NewComposed_view by metis

text \<open>C15: \<^verbatim>\<open>LockfreeSemaphore\<close> with \<open>n\<close> permits, running on the lock-free queue it really uses,
  access by access and under every interleaving of disciplined clients (fewer than \<open>2 ^ 62\<close> waits in
  its lifetime): it is a refinement of its model with an atomic queue and of the counting semaphore with
  limit \<open>n\<close>, also when the queue refuses a waiter. As long as the queue has refused none, no wake-up
  is lost: a goroutine that spins at a shut gate has it in the queue or in the hands of a
  \<^verbatim>\<open>Release\<close>, which has taken it and will open it, and a \<^verbatim>\<open>Release\<close> that looks for a
  waiter will find one, in the queue or about to enter it.\<close>

theorem lockfree_semaphore_composed:
  assumes "run Composed_step as (NewComposedSemaphore (of_nat n)) = Some c" and "n < 2 ^ 63"
    and "length (lf_enqs (lq_queue c)) < 2 ^ 62"
  shows "(\<exists>bs. run (spec_sem n) bs 0 = Some (lq_held c)) \<and> lq_held c \<le> n
    \<and> (\<exists>bs. run Lockfree_step bs (NewLockfreeSemaphore (of_nat n)) = Some (lq_view c))
    \<and> (lq_lost c = 0 \<longrightarrow>
        (lq_pc c t = LsSpin g \<longrightarrow> lq_gate c g \<or> g \<in> set (lf_abs (lq_queue c)) \<or> (\<exists>u. lq_see_all c u = LsSet g))
        \<and> (lq_see_all c t = LsDeq \<longrightarrow> lf_abs (lq_queue c) \<noteq> [] \<or> (\<exists>u. ls_due (lq_see_all c u))))"
proof -
  have "lf_small (lq_queue c)" using assms(3) by (simp add: lf_small_def)
  then obtain bs where bs: "run Lockfree_step bs (NewLockfreeSemaphore (of_nat n)) = Some (lq_view c)"
    using Composed_run [OF assms(1) NewComposed_view(2) NewComposed_inv [OF assms(2)]] NewComposed_view(1) by metis
  have "lq_pc c t = LsSpin g \<Longrightarrow> lq_see_all c t = LsSpin g" by (simp add: lq_see_all_def)
  with lockfree_semaphore_correct [OF bs assms(2), of t g] bs show ?thesis by (auto simp: lq_view_def)
qed

lemma lockfree_semaphore_composed_witness:
  "\<exists>c. run Composed_step [CallAcquire 1, SemStep 1, SemStep 1, CallAcquire 2,
         SemStep 2, SemStep 2, SemStep 2, SemStep 2, SemStep 2, SemStep 2, SemStep 2, SemStep 2, SemStep 2, SemStep 2,
         CallRelease 1, SemStep 1, SemStep 1, SemStep 1, SemStep 1, SemStep 1] (NewComposedSemaphore (of_nat 1)) = Some c
     \<and> lq_pc c 2 = LsSpin 0 \<and> lf_pc (lq_queue c) 1 = DRead 0 \<and> (\<exists>u. lq_see_all c u = LsSet 0)"
proof -
  have sl: "slot_of 0 = 0" using slot_of_nat [of 0] by simp
  obtain c where r: "run Composed_step [CallAcquire 1, SemStep 1, SemStep 1, CallAcquire 2,
         SemStep 2, SemStep 2, SemStep 2, SemStep 2, SemStep 2, SemStep 2, SemStep 2, SemStep 2, SemStep 2, SemStep 2,
         CallRelease 1, SemStep 1, SemStep 1, SemStep 1, SemStep 1, SemStep 1] (NewComposedSemaphore (of_nat 1)) = Some c"
    and p: "lq_pc c 2 = LsSpin 0" "lf_pc (lq_queue c) 1 = DRead 0" "lq_lost c = 0" "length (lf_enqs (lq_queue c)) = 1"
      "\<not> lq_gate c 0" "lf_abs (lq_queue c) = []"
    by (simp add: NewComposedSemaphore_def NewLockFreeMPMC_def Composed_Acquire_step_def Composed_Release_step_def
        lq_Enqueue_def lq_Dequeue_def LFMPMC_Enqueue_step_def LFMPMC_Dequeue_step_def lf_finished_def Let_def sl
        word_sle_eq word_sless_alt max_goroutines_def lf_abs_def del: One_nat_def)
  have "length (lf_enqs (lq_queue c)) < 2 ^ 62" using p(4) by simp
  from lockfree_semaphore_composed [OF r _ this, of 2 0] r p show ?thesis by auto
qed

end
