(* ===== verification/Sem_Lost.thy ===== *)
theory Sem_Lost
  imports Sem_Composed
begin

text \<open>
  A waiter that \<^verbatim>\<open>LockfreeSemaphore\<close> loses. \<^verbatim>\<open>Acquire\<close> drops the result of
  \<^verbatim>\<open>l.waiters.Enqueue(gate)\<close>, and the ring refuses an enqueue not only when it is full but also
  while a \<^verbatim>\<open>Dequeue\<close> is still emptying the slot (theory \<open>Queue_LockFree\<close>). The schedule below
  needs two permits, four goroutines, and one of them stopped between two accesses of
  \<^verbatim>\<open>Dequeue\<close> while the others wait and release 1023 times.
\<close>

section \<open>The schedule\<close>

text \<open>Goroutine 1 takes both permits, goroutine 2 waits, goroutine 1 releases and stops before it
  stores the sequence number of slot 0.\<close>

definition lost_start :: "sem_act list" where
  "lost_start =
     [CallAcquire 1, SemStep 1, SemStep 1, CallAcquire 1, SemStep 1, SemStep 1, CallAcquire 2,
      SemStep 2, SemStep 2, SemStep 2, SemStep 2, SemStep 2, SemStep 2, SemStep 2, SemStep 2, SemStep 2, SemStep 2,
      CallRelease 1, SemStep 1, SemStep 1, SemStep 1, SemStep 1, SemStep 1, SemStep 1, SemStep 1]"

text \<open>Goroutine 3 waits, goroutine 4 releases to it.\<close>

definition lost_wait :: "sem_act list" where
  "lost_wait = [CallAcquire 3,
      SemStep 3, SemStep 3, SemStep 3, SemStep 3, SemStep 3, SemStep 3, SemStep 3, SemStep 3, SemStep 3, SemStep 3]"

definition lost_grant :: "sem_act list" where
  "lost_grant = [CallRelease 4,
      SemStep 4, SemStep 4, SemStep 4, SemStep 4, SemStep 4, SemStep 4, SemStep 4, SemStep 4, SemStep 4, SemStep 4, SemStep 3]"

text \<open>Goroutine 3 comes back once more.\<close>

definition lost_last :: "sem_act list" where
  "lost_last = [CallAcquire 3, SemStep 3, SemStep 3, SemStep 3, SemStep 3, SemStep 3, SemStep 3]"

definition lost_schedule :: "sem_act list" where
  "lost_schedule = lost_start @ concat (replicate 1023 (lost_wait @ lost_grant)) @ lost_last"

section \<open>The run\<close>

text \<open>After \<open>k\<close> waits: goroutine 1 is about to store, goroutine 2 spins, the queue is empty, and the
  slots from \<open>k\<close> on are untouched.\<close>

definition lost_ready :: "nat \<Rightarrow> ComposedSemaphore \<Rightarrow> bool" where
  "lost_ready k c \<longleftrightarrow> lq_permits c = 0 \<and> lq_held c = 1 \<and> lq_lost c = 0 \<and> lq_fresh c = k
     \<and> lq_pc c = (\<lambda>_. LsIdle)(1 := LsDeq, 2 := LsSpin 0) \<and> lf_pc (lq_queue c) = (\<lambda>_. LfIdle)(1 := DStore 0 0)
     \<and> lf_head (lq_queue c) = of_nat k \<and> lf_tail (lq_queue c) = of_nat k
     \<and> length (lf_enqs (lq_queue c)) = k \<and> lf_deqs (lq_queue c) = k
     \<and> lf_seq (lq_queue c) 0 = 1 \<and> (\<forall>i. k \<le> i \<and> i < 1024 \<longrightarrow> lf_seq (lq_queue c) i = of_nat i)"

lemmas lost_defs = Composed_Acquire_step_def Composed_Release_step_def lq_Enqueue_def lq_Dequeue_def
  LFMPMC_Enqueue_step_def LFMPMC_Dequeue_step_def lf_finished_def Let_def word_sle_eq word_sless_alt max_goroutines_def

lemma slot_of_small: "k < 1024 \<Longrightarrow> slot_of (of_nat k) = k"
  using slot_of_nat [of k] by (simp add: BoundedQueueSize_def)

lemma lost_start_ready:
  "\<exists>c. run Composed_step lost_start (NewComposedSemaphore (of_nat 2)) = Some c \<and> lost_ready 1 c"
  using slot_of_small [of 0]
  by (simp add: lost_start_def NewComposedSemaphore_def NewLockFreeMPMC_def lost_defs lost_ready_def del: One_nat_def)
    (simp add: fun_eq_iff)

lemma lost_cycle:
  assumes "lost_ready k c" and "1 \<le> k" "k < 1024"
  shows "\<exists>d. run Composed_step (lost_wait @ lost_grant) c = Some d \<and> lost_ready (Suc k) d"
  using assms slot_of_small [of k]
  by (simp add: lost_wait_def lost_grant_def lost_defs lost_ready_def del: One_nat_def)
    (simp add: fun_eq_iff)

lemma lost_cycles:
  "lost_ready k c \<Longrightarrow> 1 \<le> k \<Longrightarrow> k + n \<le> 1024 \<Longrightarrow>
     \<exists>d. run Composed_step (concat (replicate n (lost_wait @ lost_grant))) c = Some d \<and> lost_ready (k + n) d"
proof (induction n arbitrary: k c)
  case (Suc n)
  obtain d where d: "run Composed_step (lost_wait @ lost_grant) c = Some d" "lost_ready (Suc k) d"
    using lost_cycle [of k c] Suc.prems by auto
  obtain e where "run Composed_step (concat (replicate n (lost_wait @ lost_grant))) d = Some e" "lost_ready (Suc k + n) e"
    using Suc.IH [OF d(2)] Suc.prems by auto
  then show ?case using run_append_Some [OF d(1), of "concat (replicate n (lost_wait @ lost_grant))"] by simp
qed simp

lemma lost_last_runs:
  assumes "lost_ready 1024 c"
  shows "\<exists>d. run Composed_step lost_last c = Some d \<and> lq_pc d 3 = LsEnq 1024 \<and> lf_pc (lq_queue d) 3 = EDone 1024 False
     \<and> lq_lost d = 1 \<and> lq_held d = 1 \<and> \<not> lq_gate d 1024 \<and> length (lf_enqs (lq_queue d)) = 1024
     \<and> lf_deqs (lq_queue d) = 1024 \<and> (\<forall>u. u \<noteq> 1 \<longrightarrow> lq_pc d u \<noteq> LsDeq) \<and> (\<forall>u g. lq_pc d u \<noteq> LsSet g)
     \<and> lf_pc (lq_queue d) 1 = DStore 0 0"
  using assms slot_of_nat [of 1024]
  by (simp add: lost_last_def lost_defs lost_ready_def BoundedQueueSize_def del: One_nat_def)

text \<open>The run reaches a state in which goroutine 3 waits for a gate that is in nobody's hands.\<close>

lemma lost_schedule_stuck:
  "\<exists>c. run Composed_step lost_schedule (NewComposedSemaphore (of_nat 2)) = Some c \<and> lq_ok c \<and> ls_inv 2 (lq_view c)
     \<and> ls_stuck 3 1024 (lq_view c) \<and> lq_lost c = 1 \<and> lq_held c = 1 \<and> lf_abs (lq_queue c) = []
     \<and> length (lf_enqs (lq_queue c)) = 1024"
proof -
  obtain a where a: "run Composed_step lost_start (NewComposedSemaphore (of_nat 2)) = Some a" "lost_ready 1 a"
    using lost_start_ready by blast
  obtain b where b: "run Composed_step (concat (replicate 1023 (lost_wait @ lost_grant))) a = Some b" "lost_ready 1024 b"
    using lost_cycles [OF a(2), of 1023] by auto
  obtain c where c: "run Composed_step lost_last b = Some c" and pc: "lq_pc c 3 = LsEnq 1024" "lf_pc (lq_queue c) 3 = EDone 1024 False"
    and v: "lq_lost c = 1" "lq_held c = 1" "\<not> lq_gate c 1024" "length (lf_enqs (lq_queue c)) = 1024" "lf_deqs (lq_queue c) = 1024"
    and o: "\<forall>u. u \<noteq> 1 \<longrightarrow> lq_pc c u \<noteq> LsDeq" "\<forall>u g. lq_pc c u \<noteq> LsSet g" "lf_pc (lq_queue c) 1 = DStore 0 0"
    using lost_last_runs [OF b(2)] by blast
  have r: "run Composed_step lost_schedule (NewComposedSemaphore (of_nat 2)) = Some c"
    unfolding lost_schedule_def by (simp only: run_append_Some [OF a(1)] run_append_Some [OF b(1)] c)
  have small: "lf_small (lq_queue c)" using v(4) by (simp add: lf_small_def)
  have n2: "(2 :: nat) < 2 ^ 63" by simp
  obtain bs where ok: "lq_ok c" and bs: "run Lockfree_step bs (lq_view (NewComposedSemaphore (of_nat 2))) = Some (lq_view c)"
    using Composed_run [OF r NewComposed_view(2) NewComposed_inv [OF n2] small] by blast
  have inv: "ls_inv 2 (lq_view c)" using Lockfree_run_inv [OF bs NewComposed_inv [OF n2]] .
  have "lq_see_all c u \<noteq> LsSet 1024" for u
    using o by (cases "u = 1"; cases "lq_pc c u") (auto simp: lq_see_all_def split: lf_pc.splits)
  moreover have e: "lf_abs (lq_queue c) = []" using v by (simp add: lf_abs_def)
  ultimately have "ls_stuck 3 1024 (lq_view c)"
    using pc v(3) ls_inv_gates [OF inv] by (simp add: ls_stuck_def ls_pending_def lq_view_def lq_see_all_def)
  then show ?thesis using r ok inv v e by blast
qed

lemma ls_stuck_run: "run Lockfree_step bs l = Some l' \<Longrightarrow> ls_stuck t g l \<Longrightarrow> ls_inv n l \<Longrightarrow> ls_stuck t g l'"
  by (induction bs arbitrary: l) (auto split: option.splits dest: Lockfree_step_inv ls_stuck_step)

text \<open>C16: \<^verbatim>\<open>LockfreeSemaphore\<close> can lose a waiter for ever. With two permits and four
  goroutines there is a run in which one goroutine is stopped for a while inside
  \<^verbatim>\<open>Dequeue\<close>, between its CAS and the store of the slot's sequence number, and another is refused by
  a ring that is empty; \<^verbatim>\<open>Acquire\<close> drops the refusal, and however the run continues (within
  \<open>2 ^ 62\<close> waits) that goroutine never returns from \<^verbatim>\<open>Acquire\<close>, whoever releases.\<close>

theorem lockfree_semaphore_loses_waiter:
  "\<exists>c. run Composed_step lost_schedule (NewComposedSemaphore (of_nat 2)) = Some c
     \<and> lq_held c = 1 \<and> lf_abs (lq_queue c) = []
     \<and> (\<forall>bs c'. run Composed_step bs c = Some c' \<longrightarrow> length (lf_enqs (lq_queue c')) < 2 ^ 62 \<longrightarrow>
          lq_pc c' 3 = LsEnq 1024 \<or> lq_pc c' 3 = LsSpin 1024)"
proof -
  obtain c where r: "run Composed_step lost_schedule (NewComposedSemaphore (of_nat 2)) = Some c"
    and ok: "lq_ok c" and inv: "ls_inv 2 (lq_view c)" and st: "ls_stuck 3 1024 (lq_view c)"
    and v: "lq_held c = 1" "lf_abs (lq_queue c) = []"
    using lost_schedule_stuck by blast
  have "lq_pc c' 3 = LsEnq 1024 \<or> lq_pc c' 3 = LsSpin 1024"
    if run: "run Composed_step bs c = Some c'" and small: "length (lf_enqs (lq_queue c')) < 2 ^ 62" for bs c'
  proof -
    have "lf_small (lq_queue c')" using small by (simp add: lf_small_def)
    then obtain cs where "run Lockfree_step cs (lq_view c) = Some (lq_view c')"
      using Composed_run [OF run ok inv] by blast
    then have "ls_stuck 3 1024 (lq_view c')" using ls_stuck_run st inv by blast
    then have "lq_see_all c' 3 = LsSpin 1024" by (simp add: ls_stuck_def lq_view_def)
    then show ?thesis by (cases "lq_pc c' 3") (auto simp: lq_see_all_def split: lf_pc.splits if_splits)
  qed
  then show ?thesis using r v by blast
qed

lemma lockfree_semaphore_loses_waiter_witness:
  "\<exists>c. run Composed_step lost_schedule (NewComposedSemaphore (of_nat 2)) = Some c \<and> lq_held c = 1
     \<and> (lq_pc c 3 = LsEnq 1024 \<or> lq_pc c 3 = LsSpin 1024)"
proof -
  obtain c where c: "run Composed_step lost_schedule (NewComposedSemaphore (of_nat 2)) = Some c" "lq_held c = 1"
    and all: "\<forall>bs c'. run Composed_step bs c = Some c' \<longrightarrow> length (lf_enqs (lq_queue c')) < 2 ^ 62 \<longrightarrow>
          lq_pc c' 3 = LsEnq 1024 \<or> lq_pc c' 3 = LsSpin 1024"
    using lockfree_semaphore_loses_waiter by blast
  obtain d where d: "run Composed_step lost_schedule (NewComposedSemaphore (of_nat 2)) = Some d"
    "length (lf_enqs (lq_queue d)) = 1024" using lost_schedule_stuck by blast
  then have "length (lf_enqs (lq_queue c)) < 2 ^ 62" using c(1) by simp
  then show ?thesis using c all [rule_format, of "[]" c] by simp
qed

end
