(* ===== verification/Scaffolds.thy ===== *)
theory Scaffolds
  imports Publication Sem_Spec
begin

text \<open>
  The parts of \<^verbatim>\<open>syncx\<close> and \<^verbatim>\<open>queue\<close> that the repository declares and has not
  written yet, as they are: five barriers, two latches, two condition variables, \<^verbatim>\<open>RCULock\<close>,
  a wait strategy with empty bodies, and the transactional variable without operations. A call that
  can block is a partial function (\<open>None\<close> while it blocks), as are the constructors that panic. The
  lemmas say what a caller of these types gets: none of them keeps anybody out.
\<close>

section \<open>Barriers\<close>

datatype CombiningTreeBarrier = CombiningTreeBarrier
datatype StaticTreeBarrier = StaticTreeBarrier
datatype TournamentBarrier = TournamentBarrier
datatype DisseminationBarrier = DisseminationBarrier
datatype ButterflyBarrier = ButterflyBarrier

definition NewCombiningTreeBarrier :: "i32 \<Rightarrow> CombiningTreeBarrier option" where
  "NewCombiningTreeBarrier n = Some CombiningTreeBarrier"

definition CombiningTree_Wait :: "CombiningTreeBarrier \<Rightarrow> CombiningTreeBarrier option" where
  "CombiningTree_Wait b = Some b"

definition NewStaticTreeBarrier :: "i32 \<Rightarrow> StaticTreeBarrier option" where
  "NewStaticTreeBarrier n = Some StaticTreeBarrier"

definition StaticTree_Wait :: "StaticTreeBarrier \<Rightarrow> StaticTreeBarrier option" where
  "StaticTree_Wait b = Some b"

definition NewTournamentBarrier :: "i32 \<Rightarrow> TournamentBarrier option" where
  "NewTournamentBarrier n = Some TournamentBarrier"

definition Tournament_Wait :: "TournamentBarrier \<Rightarrow> TournamentBarrier option" where
  "Tournament_Wait b = Some b"

definition NewDisseminationBarrier :: "i32 \<Rightarrow> DisseminationBarrier option" where
  "NewDisseminationBarrier n = Some DisseminationBarrier"

definition Dissemination_Wait :: "DisseminationBarrier \<Rightarrow> DisseminationBarrier option" where
  "Dissemination_Wait b = Some b"

definition NewButterflyBarrier :: "i32 \<Rightarrow> ButterflyBarrier option" where
  "NewButterflyBarrier n = Some ButterflyBarrier"

definition Butterfly_Wait :: "ButterflyBarrier \<Rightarrow> ButterflyBarrier option" where
  "Butterfly_Wait b = Some b"

text \<open>What \<^verbatim>\<open>SenseReversingBarrier\<close> promises, stated of a constructor and a \<^verbatim>\<open>Wait\<close>:
  sizes below 1 panic, and of two or more parties the first to call blocks.\<close>

definition barrier_blocks :: "(i32 \<Rightarrow> 'b option) \<Rightarrow> ('b \<Rightarrow> 'b option) \<Rightarrow> bool" where
  "barrier_blocks new wait \<longleftrightarrow> (\<forall>n. n \<le>s 0 \<longrightarrow> new n = None) \<and> (\<forall>n b. 1 <s n \<longrightarrow> new n = Some b \<longrightarrow> wait b = None)"

lemma unfinished_barriers:
  "\<not> barrier_blocks NewCombiningTreeBarrier CombiningTree_Wait" "\<not> barrier_blocks NewStaticTreeBarrier StaticTree_Wait"
  "\<not> barrier_blocks NewTournamentBarrier Tournament_Wait" "\<not> barrier_blocks NewDisseminationBarrier Dissemination_Wait"
  "\<not> barrier_blocks NewButterflyBarrier Butterfly_Wait"
  unfolding barrier_blocks_def NewCombiningTreeBarrier_def NewStaticTreeBarrier_def NewTournamentBarrier_def
    NewDisseminationBarrier_def NewButterflyBarrier_def
  by (rule notI, elim conjE, drule spec [of _ 0], simp)+

section \<open>Latches\<close>

datatype SemaLatch = SemaLatch
datatype NotifyListLatch = NotifyListLatch

definition NewSemaLatch :: "i32 \<Rightarrow> SemaLatch option" where
  "NewSemaLatch n = (if n \<le>s 0 then None else Some SemaLatch)"

definition SemaLatch_Done :: "SemaLatch \<Rightarrow> SemaLatch" where
  "SemaLatch_Done l = l"

definition SemaLatch_Wait :: "SemaLatch \<Rightarrow> SemaLatch option" where
  "SemaLatch_Wait l = Some l"

definition NewNotifyListLatch :: "i32 \<Rightarrow> NotifyListLatch option" where
  "NewNotifyListLatch n = (if n \<le>s 0 then None else Some NotifyListLatch)"

definition NotifyListLatch_Done :: "NotifyListLatch \<Rightarrow> NotifyListLatch" where
  "NotifyListLatch_Done l = l"

definition NotifyListLatch_Wait :: "NotifyListLatch \<Rightarrow> NotifyListLatch option" where
  "NotifyListLatch_Wait l = Some l"

text \<open>The constructors keep the contract that \<^verbatim>\<open>SpinLatch\<close> and \<^verbatim>\<open>ChanLatch\<close> keep; but
  \<^verbatim>\<open>Wait\<close> returns before any \<^verbatim>\<open>Done\<close>, and after any number of them.\<close>

lemma unfinished_latches:
  "NewSemaLatch n = None \<longleftrightarrow> n \<le>s 0" "NewNotifyListLatch n = None \<longleftrightarrow> n \<le>s 0"
  "NewSemaLatch n = Some l \<Longrightarrow> SemaLatch_Wait ((SemaLatch_Done ^^ k) l) = Some l"
  "NewNotifyListLatch n = Some m \<Longrightarrow> NotifyListLatch_Wait ((NotifyListLatch_Done ^^ k) m) = Some m"
  by (cases l; cases m; simp add: NewSemaLatch_def NewNotifyListLatch_def SemaLatch_Wait_def NotifyListLatch_Wait_def;
      metis SemaLatch.exhaust NotifyListLatch.exhaust)+

section \<open>Condition variables and the read-copy-update lock\<close>

datatype MesaQueueCond = MesaQueueCond
datatype MesaNotifyListCond = MesaNotifyListCond
datatype RCULock = RCULock

text \<open>\<open>lock\<close> is the holder of the \<^verbatim>\<open>sync.Mutex\<close> the caller passes.\<close>

definition MesaQueueCond_Wait :: "tid option \<Rightarrow> MesaQueueCond \<Rightarrow> (MesaQueueCond \<times> tid option) option" where
  "MesaQueueCond_Wait lock c = Some (c, lock)"

definition MesaQueueCond_Signal :: "MesaQueueCond \<Rightarrow> MesaQueueCond" where
  "MesaQueueCond_Signal c = c"

definition MesaQueueCond_Broadcast :: "MesaQueueCond \<Rightarrow> MesaQueueCond" where
  "MesaQueueCond_Broadcast c = c"

definition MesaNotifyListCond_Wait :: "tid option \<Rightarrow> MesaNotifyListCond \<Rightarrow> (MesaNotifyListCond \<times> tid option) option" where
  "MesaNotifyListCond_Wait lock c = Some (c, lock)"

definition MesaNotifyListCond_Signal :: "MesaNotifyListCond \<Rightarrow> MesaNotifyListCond" where
  "MesaNotifyListCond_Signal c = c"

definition MesaNotifyListCond_Broadcast :: "MesaNotifyListCond \<Rightarrow> MesaNotifyListCond" where
  "MesaNotifyListCond_Broadcast c = c"

definition RCULock_Lock :: "RCULock \<Rightarrow> RCULock option" where
  "RCULock_Lock r = Some r"

definition RCULock_Unlock :: "RCULock \<Rightarrow> RCULock" where
  "RCULock_Unlock r = r"

text \<open>\<^verbatim>\<open>Wait\<close> returns with the mutex still held, so a goroutine that loops on it keeps out
  whoever would make its condition true; and any number of goroutines pass the lock.\<close>

lemma unfinished_conds:
  "MesaQueueCond_Wait (Some t) c = Some (c', m) \<Longrightarrow> m = Some t"
  "MesaNotifyListCond_Wait (Some t) d = Some (d', m) \<Longrightarrow> m = Some t"
  by (simp_all add: MesaQueueCond_Wait_def MesaNotifyListCond_Wait_def)

primrec RCULock_locks :: "nat \<Rightarrow> RCULock \<Rightarrow> RCULock option" where
  "RCULock_locks 0 r = Some r"
| "RCULock_locks (Suc n) r = Option.bind (RCULock_Lock r) (RCULock_locks n)"

lemma unfinished_rcu_lock: "RCULock_locks n r = Some r"
  by (induction n) (simp_all add: RCULock_Lock_def)

section \<open>The wait strategy and the transactional variable\<close>

datatype BlockingWaitStrategy = BlockingWaitStrategy

definition BlockingWaitStrategy_WaitFor :: "i64 \<Rightarrow> Sequence \<Rightarrow> BlockingWaitStrategy \<Rightarrow> i64" where
  "BlockingWaitStrategy_WaitFor sq cursor b = 0"

definition BlockingWaitStrategy_SignalAllWhenBlocking :: "BlockingWaitStrategy \<Rightarrow> BlockingWaitStrategy" where
  "BlockingWaitStrategy_SignalAllWhenBlocking b = b"

text \<open>Whoever waits for a positive sequence number is answered with a smaller one, whatever the cursor
  has reached.\<close>

lemma unfinished_wait_strategy: "0 <s sq \<Longrightarrow> BlockingWaitStrategy_WaitFor sq cursor b <s sq"
  by (simp add: BlockingWaitStrategy_WaitFor_def)

record 'a TVar =
  tv_v :: 'a
  tv_version :: i64

definition NewTVar :: "'a \<Rightarrow> 'a TVar" where
  "NewTVar v = \<lparr>tv_v = v, tv_version = 0\<rparr>"

text \<open>The states of a task that \<^verbatim>\<open>syncx/future.go\<close> names; nothing reads them.\<close>

definition PENDING :: i32 where "PENDING = 0"

definition COMPLETE :: i32 where "COMPLETE = 1"

end

