(* ===== verification/Locks.thy ===== *)
theory Locks
  imports Lock_Spin Lock_Mutex Lock_RW Lock_Liveness
begin

text \<open>
  The locks of \<^verbatim>\<open>syncx/lock.go\<close> under one contract: what a client of \<^verbatim>\<open>Lock\<close> and \<^verbatim>\<open>Unlock\<close> may rely on,
  whichever lock it uses.
\<close>

section \<open>The contract\<close>

text \<open>At most one goroutine is inside, and nobody is left behind: when somebody is in \<^verbatim>\<open>Lock\<close> and no goroutine
  inside a call can change anything any more, some goroutine holds the lock.\<close>

definition lock_contract ::
  "('s \<Rightarrow> bool) \<Rightarrow> ('a \<Rightarrow> 's \<Rightarrow> 's option) \<Rightarrow> 'a set \<Rightarrow> ('s \<Rightarrow> tid \<Rightarrow> bool) \<Rightarrow> ('s \<Rightarrow> tid \<Rightarrow> bool) \<Rightarrow> ('s \<Rightarrow> tid \<Rightarrow> bool) \<Rightarrow> bool" where
  "lock_contract init step inside waits in_cs holds \<longleftrightarrow>
     (\<forall>s as s'. init s \<longrightarrow> run step as s = Some s' \<longrightarrow>
        (\<forall>i j. in_cs s' i \<longrightarrow> holds s' j \<longrightarrow> i = j)
        \<and> (\<forall>t. waits s' t \<longrightarrow> quiet step inside s' \<longrightarrow> (\<exists>i. holds s' i)))"

lemma lock_contractD:
  assumes "lock_contract init step inside waits in_cs holds" and "init s" and "run step as s = Some s'"
  shows lock_contract_exclusive: "in_cs s' i \<Longrightarrow> holds s' j \<Longrightarrow> i = j"
    and lock_contract_held: "waits s' t \<Longrightarrow> quiet step inside s' \<Longrightarrow> \<exists>i. holds s' i"
  using assms unfolding lock_contract_def by blast+

locale deadlock_free_lock = lock_machine init step inv in_cs
  for init :: "'s \<Rightarrow> bool" and step :: "'a \<Rightarrow> 's \<Rightarrow> 's option" and inv :: "'s \<Rightarrow> bool" and in_cs :: "'s \<Rightarrow> tid \<Rightarrow> bool" +
  fixes inside :: "'a set" and waits :: "'s \<Rightarrow> tid \<Rightarrow> bool" and holds :: "'s \<Rightarrow> tid \<Rightarrow> bool"
  assumes held_alone: "inv s \<Longrightarrow> in_cs s i \<Longrightarrow> holds s j \<Longrightarrow> i = j"
    and held: "inv s \<Longrightarrow> waits s t \<Longrightarrow> quiet step inside s \<Longrightarrow> \<exists>i. holds s i"
begin

lemma contract: "lock_contract init step inside waits in_cs holds"
  unfolding lock_contract_def using invariant held_alone held by blast

end

definition lock_inside :: "lock_act set" where
  "lock_inside = range Step"

section \<open>The locks\<close>

interpretation spin: deadlock_free_lock spin_init spin_step spin_inv spin_in_cs lock_inside "\<lambda>s t. sl_pc s t = SCas" spin_in_cs
proof
  show "spin_inv s \<Longrightarrow> spin_in_cs s i \<Longrightarrow> spin_in_cs s j \<Longrightarrow> i = j" for s i j by (auto simp: spin_inv_def)
  fix s t assume inv: "spin_inv s" and t: "sl_pc s t = SCas" and q: "quiet spin_step lock_inside s"
  have "sl_state s" using quietD [OF q, of "Step t"] t by (cases "sl_state s") (auto simp: lock_inside_def dest: arg_cong [where f = sl_state])
  then show "\<exists>i. spin_in_cs s i" using inv by (simp add: spin_inv_def)
qed

lemma mutex_moves: "mx_pc s t \<noteq> MIdle \<Longrightarrow> mx_pc s t \<noteq> MHeld \<Longrightarrow> mutex_step (Step t) s = Some s' \<Longrightarrow> mx_pc s' t \<noteq> mx_pc s t"
  by (cases "mx_pc s t") (auto split: if_splits option.splits)

interpretation mutex: deadlock_free_lock "\<lambda>s. s = mutex_zero" mutex_step mutex_inv mutex_in_cs lock_inside
  "\<lambda>s t. mx_pc s t \<in> {MFast, MSwap, MPark} \<and> mx_unparks s < 2 ^ 32" mutex_in_cs
proof
  show "mutex_inv s \<Longrightarrow> mutex_in_cs s i \<Longrightarrow> mutex_in_cs s j \<Longrightarrow> i = j" for s i j by (auto simp: mutex_inv_def mutex_excl_def)
  fix s t assume inv: "mutex_inv s" and t: "mx_pc s t \<in> {MFast, MSwap, MPark} \<and> mx_unparks s < 2 ^ 32"
    and q: "quiet mutex_step lock_inside s"
  have stuck: "mutex_step (Step u) s = None" if "mx_pc s u \<noteq> MIdle" "mx_pc s u \<noteq> MHeld" for u
    using mutex_moves [OF that] quietD [OF q, of "Step u"] by (cases "mutex_step (Step u) s") (auto simp: lock_inside_def)
  have no: "mx_pc s u \<noteq> MFast" "mx_pc s u \<noteq> MSwap" "mx_pc s u \<noteq> MUnpark" for u using stuck [of u] by (auto split: if_splits)
  then have p: "mx_pc s t = MPark" using t by blast
  then have "sema (mx_parker s) = 0" using stuck [of t] by (auto simp: Parker_Park_blocks split: option.splits)
  then have "mx_state s = lockedWait" using inv p t no unfolding mutex_inv_def mutex_wakeup_def by blast
  then show "\<exists>i. mutex_in_cs s i" using inv by (simp add: mutex_inv_def mutex_excl_def lock_words)
qed

text \<open>In the queue locks the goroutine that helps is inside a call unless it holds the lock.\<close>

interpretation ticket: deadlock_free_lock ticket_init ticket_step64 ticket_inv ticket_in_cs lock_inside
  "\<lambda>s t. t < 2 ^ 64 \<and> ticket_locking (tk_pc s t)" ticket_in_cs
proof
  show "ticket_inv s \<Longrightarrow> ticket_in_cs s i \<Longrightarrow> ticket_in_cs s j \<Longrightarrow> i = j" for s i j by (rule ticket.exclusive)
  fix s t assume inv: "ticket_inv s" and t: "t < 2 ^ 64 \<and> ticket_locking (tk_pc s t)" and q: "quiet ticket_step64 lock_inside s"
  have "tk_pc s t \<noteq> TAdd"
    using ticket_join.helper_moves [where s = s and t = t and inside = lock_inside] t q by (auto simp: ticket_has_def lock_inside_def)
  then have "t \<in> set (tk_queue s)" using inv t unfolding ticket_inv_def ticket_has_def by (cases "tk_pc s t") auto
  then have "ticket_in_cs s t \<or> ticket_helper s \<notin> lock_inside"
    using ticket_fair.entering.helper_moves [where s = s and t = t and inside = lock_inside] inv q by blast
  then show "\<exists>i. ticket_in_cs s i"
    by (auto simp: ticket_helper_def lock_inside_def ticket_in_cs_def Let_def split: if_splits)
qed

interpretation clh: deadlock_free_lock "\<lambda>s. s = clh_zero" clh_step clh_inv clh_in_cs lock_inside
  "\<lambda>s t. clh_locking (cl_pc s t)" clh_in_cs
proof
  show "clh_inv s \<Longrightarrow> clh_in_cs s i \<Longrightarrow> clh_in_cs s j \<Longrightarrow> i = j" for s i j by (rule clh.exclusive)
  fix s t assume inv: "clh_inv s" and t: "clh_locking (cl_pc s t)" and q: "quiet clh_step lock_inside s"
  have "clh_joining (cl_pc s t) = 0"
    using clh_join.helper_moves [where s = s and t = t and inside = lock_inside] q by (cases "cl_pc s t") (auto simp: lock_inside_def)
  then have "clh_queued (cl_pc s t)" using t by (cases "cl_pc s t") auto
  then have "clh_in_cs s t \<or> clh_helper s \<notin> lock_inside"
    using clh_fair.entering.helper_moves [where s = s and t = t and inside = lock_inside] inv q clh_queued_iff [OF inv] by blast
  then show "\<exists>i. clh_in_cs s i"
    by (auto simp: clh_helper_def lock_inside_def clh_in_cs_def Let_def split: clh_pc.splits)
qed

interpretation mcs: deadlock_free_lock "\<lambda>s. s = mcs_zero" mcs_step mcs_inv mcs_in_cs lock_inside
  "\<lambda>s t. mcs_locking (mc_pc s t) \<and> \<not> mcs_panicked s" mcs_in_cs
proof
  show "mcs_inv s \<Longrightarrow> mcs_in_cs s i \<Longrightarrow> mcs_in_cs s j \<Longrightarrow> i = j" for s i j by (rule mcs.exclusive)
  fix s t assume inv: "mcs_inv s" and t: "mcs_locking (mc_pc s t) \<and> \<not> mcs_panicked s" and q: "quiet mcs_step lock_inside s"
  have "mcs_joining (mc_pc s t) = 0"
    using mcs_join.helper_moves [where s = s and t = t and inside = lock_inside] q by (cases "mc_pc s t") (auto simp: lock_inside_def)
  then have "mcs_pc_queued (mc_pc s t)" using t by (cases "mc_pc s t") auto
  then have "mcs_in_cs s t \<or> mcs_helper s \<notin> lock_inside"
    using mcs_fair.entering.helper_moves [where s = s and t = t and inside = lock_inside] inv q t mcs_queued_iff [OF inv] by blast
  moreover have "mcs_in_cs s (hd (mc_queue s))" if "mcs_helper s \<notin> lock_inside"
    using that by (auto simp: mcs_helper_def lock_inside_def mcs_in_cs_def Let_def split: mcs_pc.splits if_splits)
  ultimately show "\<exists>i. mcs_in_cs s i" by blast
qed

lemma rw_moves: "rw_step (RwStep u) s = Some s' \<Longrightarrow> rw_pc s' u \<noteq> rw_pc s u"
  by (auto simp: RW_Lock_step_def RW_RLock_step_def split: rw_pc.splits if_splits option.splits)

text \<open>The readers hold a \<^verbatim>\<open>RWMutexLock\<close> together; a writer holds it alone.\<close>

interpretation rw_lock: deadlock_free_lock "\<lambda>s. s = RWMutex_zero" rw_step rw_inv "\<lambda>s t. rw_pc s t = RwWriting" "range RwStep"
  "\<lambda>s t. rw_pc s t \<in> {RwLock, RwDrain, RwRLock, RwRWait}" "\<lambda>s t. rw_pc s t = RwWriting \<or> rw_pc s t = RwReading"
proof
  show "i = j" if "rw_inv s" "rw_pc s i = RwWriting" "rw_pc s j = RwWriting \<or> rw_pc s j = RwReading" for s i j
    using rw_writer_alone [OF that(1,2)] that(3) by blast
  fix s t assume inv: "rw_inv s" and t: "rw_pc s t \<in> {RwLock, RwDrain, RwRLock, RwRWait}" and q: "quiet rw_step (range RwStep) s"
  have "rw_step (RwStep u) s = None" for u
    using rw_moves [of u s] quietD [OF q, of "RwStep u"] by (cases "rw_step (RwStep u) s") auto
  then show "\<exists>i. rw_pc s i = RwWriting \<or> rw_pc s i = RwReading" using rw_held_or_moves [OF inv t] by simp
qed

section \<open>The theorem\<close>

text \<open>C5: The locks of \<^verbatim>\<open>lock.go\<close> keep one contract, under every interleaving of any number of goroutines: at
  most one goroutine is inside (for \<^verbatim>\<open>RWMutexLock\<close>: a writer is inside alone), and there is neither deadlock
  nor a lost wake-up: when some goroutine is in \<^verbatim>\<open>Lock\<close> or \<^verbatim>\<open>RLock\<close> and nobody inside a call can change
  anything any more, somebody holds the lock. (The second part is for fewer than \<open>2 ^ 64\<close> goroutines at
  \<^verbatim>\<open>TicketLock\<close>, fewer than \<open>2 ^ 32\<close> wake-ups of \<^verbatim>\<open>MutexLock\<close>, and while nobody has panicked in
  \<^verbatim>\<open>MCSLock.Unlock\<close>.)\<close>

theorem locks_keep_contract:
  "lock_contract spin_init spin_step lock_inside (\<lambda>s t. sl_pc s t = SCas) spin_in_cs spin_in_cs
   \<and> lock_contract ticket_init ticket_step64 lock_inside (\<lambda>s t. t < 2 ^ 64 \<and> ticket_locking (tk_pc s t)) ticket_in_cs ticket_in_cs
   \<and> lock_contract (\<lambda>s. s = mutex_zero) mutex_step lock_inside
       (\<lambda>s t. mx_pc s t \<in> {MFast, MSwap, MPark} \<and> mx_unparks s < 2 ^ 32) mutex_in_cs mutex_in_cs
   \<and> lock_contract (\<lambda>s. s = clh_zero) clh_step lock_inside (\<lambda>s t. clh_locking (cl_pc s t)) clh_in_cs clh_in_cs
   \<and> lock_contract (\<lambda>s. s = mcs_zero) mcs_step lock_inside (\<lambda>s t. mcs_locking (mc_pc s t) \<and> \<not> mcs_panicked s) mcs_in_cs mcs_in_cs
   \<and> lock_contract (\<lambda>s. s = RWMutex_zero) rw_step (range RwStep) (\<lambda>s t. rw_pc s t \<in> {RwLock, RwDrain, RwRLock, RwRWait})
       (\<lambda>s t. rw_pc s t = RwWriting) (\<lambda>s t. rw_pc s t = RwWriting \<or> rw_pc s t = RwReading)"
  by (intro conjI spin.contract ticket.contract mutex.contract clh.contract mcs.contract rw_lock.contract)

lemma locks_keep_contract_witness:
  "\<exists>s. run mutex_step [CallLock 1, CallLock 2, Step 1, Step 2, Step 2] mutex_zero = Some s
     \<and> mx_pc s 2 = MPark \<and> quiet mutex_step lock_inside s \<and> (\<exists>i. mutex_in_cs s i)"
proof -
  let ?s = "mutex_zero\<lparr>mx_state := lockedWait, mx_pc := (\<lambda>_. MIdle)(1 := MHeld, 2 := MPark)\<rparr>"
  have r: "run mutex_step [CallLock 1, CallLock 2, Step 1, Step 2, Step 2] mutex_zero = Some ?s"
    by (simp add: mutex_zero_def lock_words fun_upd_twist)
  have w: "mx_pc ?s 2 \<in> {MFast, MSwap, MPark} \<and> mx_unparks ?s < 2 ^ 32" by (simp add: mutex_zero_def)
  have q: "quiet mutex_step lock_inside ?s"
    by (auto simp: quiet_def lock_inside_def mutex_zero_def Parker_Park_def runtime_Semacquire_def split: if_splits)
  have "\<exists>i. mutex_in_cs ?s i"
    by (rule lock_contract_held [OF locks_keep_contract [THEN conjunct2, THEN conjunct2, THEN conjunct1] refl r w q])
  with r q show ?thesis by (intro exI [of _ ?s]) simp
qed

section \<open>First come, first served\<close>

text \<open>A goroutine has arrived from the step that puts it in line (the fetch-and-add of the ticket, the swap of
  \<^verbatim>\<open>tail\<close>) to the step that gives the lock up. Of those that have arrived, listed in \<open>queue\<close>, only the first can
  be inside; it is, or has panicked in \<^verbatim>\<open>Unlock\<close>, or enters within \<open>k\<close> steps of its own; and from here on
  nobody gets inside before a goroutine that had arrived when he had not.\<close>

definition fifo_contract ::
  "('s \<Rightarrow> bool) \<Rightarrow> (lock_act \<Rightarrow> 's \<Rightarrow> 's option) \<Rightarrow> ('s \<Rightarrow> tid \<Rightarrow> bool) \<Rightarrow> ('s \<Rightarrow> tid \<Rightarrow> bool) \<Rightarrow> ('s \<Rightarrow> tid list)
    \<Rightarrow> ('s \<Rightarrow> tid \<Rightarrow> bool) \<Rightarrow> nat \<Rightarrow> bool" where
  "fifo_contract init step in_cs arrived queue panicked k \<longleftrightarrow>
     (\<forall>s as s'. init s \<longrightarrow> run step as s = Some s' \<longrightarrow>
        set (queue s') = {t. arrived s' t}
        \<and> (\<forall>i. in_cs s' i \<longrightarrow> queue s' \<noteq> [] \<and> hd (queue s') = i)
        \<and> (\<forall>i q. queue s' = i # q \<longrightarrow> in_cs s' i \<or> panicked s' i
             \<or> (\<exists>n \<le> k. \<exists>s''. run step (replicate n (Step i)) s' = Some s'' \<and> in_cs s'' i))
        \<and> first_come_first_served step in_cs arrived s')"

lemma fifo_contractD:
  assumes "fifo_contract init step in_cs arrived queue panicked k" and "init s" and "run step as s = Some s'"
  shows fifo_contract_enters: "queue s' = i # q \<Longrightarrow> in_cs s' i \<or> panicked s' i
      \<or> (\<exists>n \<le> k. \<exists>s''. run step (replicate n (Step i)) s' = Some s'' \<and> in_cs s'' i)"
    and fifo_contract_order: "first_come_first_served step in_cs arrived s'"
  using assms unfolding fifo_contract_def by blast+

lemma run_one: "run step [a] s = step a s"
  by (simp split: option.split)

lemma fifo_contractI:
  assumes "\<And>s as s'. init s \<Longrightarrow> run step as s = Some s' \<Longrightarrow> (\<forall>i. in_cs s' i \<longrightarrow> queue s' \<noteq> [] \<and> hd (queue s') = i)
    \<and> (\<forall>i q. queue s' = i # q \<longrightarrow> in_cs s' i \<or> panicked s' i
         \<or> (\<exists>n \<in> N. \<exists>s''. run step (replicate n (Step i)) s' = Some s'' \<and> in_cs s'' i))
    \<and> first_come_first_served step in_cs arrived s'" and "N \<subseteq> {..k}"
    and "\<And>s as s'. init s \<Longrightarrow> run step as s = Some s' \<Longrightarrow> set (queue s') = {t. arrived s' t}"
  shows "fifo_contract init step in_cs arrived queue panicked k"
  unfolding fifo_contract_def
proof (intro allI impI)
  fix s as s' assume "init s" "run step as s = Some s'"
  from assms(1) [OF this] assms(2) assms(3) [OF this]
  show "set (queue s') = {t. arrived s' t}
    \<and> (\<forall>i. in_cs s' i \<longrightarrow> queue s' \<noteq> [] \<and> hd (queue s') = i)
    \<and> (\<forall>i q. queue s' = i # q \<longrightarrow> in_cs s' i \<or> panicked s' i
         \<or> (\<exists>n \<le> k. \<exists>s''. run step (replicate n (Step i)) s' = Some s'' \<and> in_cs s'' i))
    \<and> first_come_first_served step in_cs arrived s'" by blast
qed

text \<open>C20: \<^verbatim>\<open>TicketLock\<close>, \<^verbatim>\<open>CLHLock\<close> and \<^verbatim>\<open>MCSLock\<close> serve in the order of arrival, after every schedule. A goroutine
  arrives with its fetch-and-add of the ticket, or its swap of \<^verbatim>\<open>tail\<close>. Of those that have arrived and not given
  the lock up only the earliest can be inside; it is inside or enters with its next step (at the \<^verbatim>\<open>MCSLock\<close>: within
  two steps, unless it has panicked in \<^verbatim>\<open>Unlock\<close>); and nobody overtakes: when a goroutine is inside that had
  not arrived at some earlier moment, every goroutine that had arrived at that moment has been inside in between.
  The ticket lock's counters may wrap around; its goroutines are fewer than \<open>2 ^ 64\<close>.\<close>

theorem queue_locks_serve_in_order:
  "fifo_contract ticket_init ticket_step64 ticket_in_cs ticket_has tk_queue (\<lambda>_ _. False) 1
   \<and> fifo_contract (\<lambda>s. s = clh_zero) clh_step clh_in_cs (\<lambda>s t. clh_queued (cl_pc s t)) cl_queue (\<lambda>_ _. False) 1
   \<and> fifo_contract (\<lambda>s. s = mcs_zero) mcs_step mcs_in_cs (\<lambda>s t. mcs_pc_queued (mc_pc s t)) mc_queue (\<lambda>s i. mc_pc s i = McPanic) 2"
proof (intro conjI)
  show "fifo_contract ticket_init ticket_step64 ticket_in_cs ticket_has tk_queue (\<lambda>_ _. False) 1"
    by (rule fifo_contractI [where N = "{1}"])
      (simp_all add: run_one ticket_fifo_mutual_exclusion ticket.queue_is [OF ticket.invariant] del: run.simps)
  show "fifo_contract (\<lambda>s. s = clh_zero) clh_step clh_in_cs (\<lambda>s t. clh_queued (cl_pc s t)) cl_queue (\<lambda>_ _. False) 1"
    by (rule fifo_contractI [where N = "{1}"])
      (simp_all add: run_one clh_fifo_handover clh.queue_is [OF clh.invariant [OF refl]] del: run.simps clh_step.simps)
  show "fifo_contract (\<lambda>s. s = mcs_zero) mcs_step mcs_in_cs (\<lambda>s t. mcs_pc_queued (mc_pc s t)) mc_queue (\<lambda>s i. mc_pc s i = McPanic) 2"
    by (rule fifo_contractI [where N = "{1, 2}"])
      (use mcs_fifo_mutual_exclusion in fast, simp, simp add: mcs.queue_is [OF mcs.invariant [OF refl]])
qed

text \<open>At a \<^verbatim>\<open>CLHLock\<close> goroutine 1 has arrived and goroutine 2 has not, although it called \<^verbatim>\<open>Lock\<close> too. When goroutine 2
  is inside, goroutine 1 has been; and when goroutine 1 has given the lock back, goroutine 2 enters with one step.\<close>

lemma queue_locks_serve_in_order_witness:
  "\<exists>s s' s2. run clh_step [CallLock 1, CallLock 2, Step 2, Step 1, Step 1] clh_zero = Some s
     \<and> run clh_step [Step 2, CallUnlock 1, Step 1] s = Some s' \<and> run clh_step [Step 2, CallUnlock 1, Step 1, Step 2] s = Some s2
     \<and> clh_queued (cl_pc s 1) \<and> \<not> clh_queued (cl_pc s 2) \<and> cl_queue s' = [2] \<and> clh_in_cs s2 2
     \<and> (\<exists>n \<le> 1. \<exists>s''. run clh_step (replicate n (Step 2)) s' = Some s'' \<and> clh_in_cs s'' 2)
     \<and> (\<exists>k < 4. \<exists>s1. run clh_step (take k [Step 2, CallUnlock 1, Step 1, Step 2]) s = Some s1 \<and> clh_in_cs s1 1)"
proof -
  let ?as = "[CallLock 1, CallLock 2, Step 2, Step 1, Step 1]" and ?bs = "[Step 2, CallUnlock 1, Step 1]"
  obtain s s' s2 where r: "run clh_step ?as clh_zero = Some s" "run clh_step ?bs s = Some s'" "run clh_step (?bs @ [Step 2]) s = Some s2"
    and p: "clh_queued (cl_pc s 1)" "\<not> clh_queued (cl_pc s 2)" "cl_queue s' = [2]" "cl_pc s' 2 = ClSpin 0 1" "clh_in_cs s2 2"
    by (simp add: clh_zero_def clh_Unlock_def clh_in_cs_def)
  note clh = queue_locks_serve_in_order [THEN conjunct2, THEN conjunct1]
  have r': "run clh_step (?as @ ?bs) clh_zero = Some s'" using r(1,2) unfolding run_append by simp
  have "\<not> clh_in_cs s' 2" using p(4) by (simp add: clh_in_cs_def)
  then have n: "\<exists>n \<le> 1. \<exists>s''. run clh_step (replicate n (Step 2)) s' = Some s'' \<and> clh_in_cs s'' 2"
    using fifo_contract_enters [OF clh refl r' p(3)] by blast
  have "\<exists>k < length (?bs @ [Step 2]). \<exists>s1. run clh_step (take k (?bs @ [Step 2])) s = Some s1 \<and> clh_in_cs s1 1"
    by (rule first_come_first_servedD [OF fifo_contract_order [OF clh refl r(1)] r(3) p(1,2,5)])
  moreover have "length (?bs @ [Step 2]) = 4" by simp
  ultimately have k: "\<exists>k < 4. \<exists>s1. run clh_step (take k [Step 2, CallUnlock 1, Step 1, Step 2]) s = Some s1 \<and> clh_in_cs s1 1"
    by (simp only: append.simps)
  show ?thesis using r p(1-3,5) n k by (intro exI [of _ s] exI [of _ s'] exI [of _ s2] conjI) simp_all
qed

end
