(* ===== verification/Mutex_Liveness.thy ===== *)
theory Mutex_Liveness
  imports Fairness Lock_Mutex
begin

text \<open>
  Liveness of \<^verbatim>\<open>MutexLock\<close>. The lock is not fair to a single goroutine: one that arrives late may take the
  CAS of the fast path before one that is being woken. But it is always handed on: while anybody waits,
  somebody gets in. The argument follows the lock from holder to holder: the holder leaves; then the permit of
  its \<^verbatim>\<open>Unpark\<close> wakes a parked goroutine, or somebody who is awake is there already; and whoever is awake
  and finds the lock free takes it.
\<close>

section \<open>The stages\<close>

definition mx_free :: "MutexLock \<Rightarrow> bool" where
  "mx_free s \<longleftrightarrow> mutex_inv s \<and> mx_unparks s < 2 ^ 32 \<and> (\<forall>i. \<not> mutex_in_cs s i)"

definition mx_awake :: "MutexLock \<Rightarrow> tid \<Rightarrow> bool" where
  "mx_awake s j \<longleftrightarrow> mx_free s \<and> mx_pc s j \<in> {MFast, MSwap}"

definition mx_permit :: "tid \<Rightarrow> MutexLock \<Rightarrow> bool" where
  "mx_permit t s \<longleftrightarrow> mx_free s \<and> mx_pc s t = MPark \<and> sema (mx_parker s) \<noteq> 0"

definition mx_waking :: "tid \<Rightarrow> tid \<Rightarrow> MutexLock \<Rightarrow> bool" where
  "mx_waking j t s \<longleftrightarrow> mx_free s \<and> mx_pc s t = MPark \<and> mx_pc s j = MUnpark"

text \<open>Somebody is inside, or the semaphore may have wrapped around.\<close>

definition mx_over :: "MutexLock \<Rightarrow> bool" where
  "mx_over s \<longleftrightarrow> (\<exists>i. mutex_in_cs s i) \<or> 2 ^ 32 \<le> mx_unparks s"

lemma mx_free_step: "mx_free s \<Longrightarrow> mutex_step a s = Some s' \<Longrightarrow> mx_over s' \<or> mx_free s'"
  using mutex_inv_step by (auto simp: mx_free_def mx_over_def)

lemma mx_free_word: "mx_free s \<Longrightarrow> mx_state s = unlocked"
  by (auto simp: mx_free_def mutex_inv_def mutex_excl_def)

lemma mx_free_starts:
  assumes f: "mx_free s" and t: "mx_pc s t \<in> {MFast, MSwap, MPark}"
  shows "(\<exists>j. mx_awake s j) \<or> mx_permit t s \<or> (\<exists>j. mx_waking j t s)"
proof (cases "mx_pc s t = MPark")
  case True
  then have "mutex_wakeup s" using f by (auto simp: mx_free_def mutex_inv_def)
  moreover have "mx_state s \<noteq> lockedWait" using mx_free_word [OF f] by (simp add: lock_words)
  ultimately show ?thesis using f True by (auto simp: mutex_wakeup_def mx_awake_def mx_permit_def mx_waking_def)
next
  case False
  then show ?thesis using f t by (auto simp: mx_awake_def)
qed

text \<open>What a step of the machine does to a goroutine's place while the lock is free.\<close>

lemma mx_free_moves:
  assumes f: "mx_free s" and st: "mutex_step a s = Some s'" and o: "\<not> mx_over s'"
  shows "mx_free s'" and "mx_pc s j \<in> {MFast, MSwap} \<Longrightarrow> mx_pc s' j = mx_pc s j \<and> a \<noteq> Step j"
    and "mx_pc s j = MUnpark \<Longrightarrow> mx_pc s' j = MUnpark \<or> a = Step j"
    and "mx_pc s j = MPark \<Longrightarrow> mx_pc s' j = MPark \<or> mx_pc s' j = MSwap"
    and "sema (mx_parker s) \<noteq> 0 \<Longrightarrow> sema (mx_parker s') \<noteq> 0 \<or> (\<exists>u. mx_pc s' u = MSwap)"
    and "a = Step j \<Longrightarrow> mx_pc s j = MUnpark \<Longrightarrow> sema (mx_parker s') \<noteq> 0"
proof -
  show f': "mx_free s'" using mx_free_step [OF f st] o by blast
  have u: "mx_state s = unlocked" by (rule mx_free_word [OF f])
  have out: "\<not> mutex_in_cs s' i" for i using f' by (simp add: mx_free_def)
  have sm: "unat (sema (mx_parker s)) \<le> mx_unparks s" using f by (simp add: mx_free_def mutex_inv_def)
  have small: "mx_unparks s' < 2 ^ 32" using f' by (simp add: mx_free_def)
  show "mx_pc s' j = mx_pc s j \<and> a \<noteq> Step j" if "mx_pc s j \<in> {MFast, MSwap}"
    using that st u out [of j] by (cases a) (auto simp: mutex_in_cs_def split: mutex_pc.splits if_splits option.splits)
  show "mx_pc s' j = MUnpark \<or> a = Step j" if "mx_pc s j = MUnpark"
    using that st by (cases a) (auto split: mutex_pc.splits if_splits option.splits)
  show "mx_pc s' j = MPark \<or> mx_pc s' j = MSwap" if "mx_pc s j = MPark"
    using that st by (cases a) (auto split: mutex_pc.splits if_splits option.splits)
  have up: "sema (mx_parker s) + 1 \<noteq> 0" if "mx_unparks s' = Suc (mx_unparks s)"
  proof -
    have "Suc (unat (sema (mx_parker s))) < 2 ^ 32" using sm small that by simp
    then have "unat (sema (mx_parker s) + 1) = Suc (unat (sema (mx_parker s)))" by (simp add: unat_word_ariths)
    then show ?thesis by auto
  qed
  show "sema (mx_parker s') \<noteq> 0 \<or> (\<exists>u. mx_pc s' u = MSwap)" if "sema (mx_parker s) \<noteq> 0"
    using that st up by (cases a) (auto simp: Parker_Unpark_def runtime_Semrelease_def split: mutex_pc.splits if_splits option.splits)
  show "sema (mx_parker s') \<noteq> 0" if "a = Step j" "mx_pc s j = MUnpark"
    using that st up by (auto simp: Parker_Unpark_def runtime_Semrelease_def)
qed

section \<open>From stage to stage\<close>

text \<open>The holder leaves: \<^verbatim>\<open>Unlock\<close> is called and takes its first steps.\<close>

fun mx_holder_left :: "mutex_pc \<Rightarrow> nat" where
  "mx_holder_left MHeld = 2" | "mx_holder_left MUnl1 = 1" | "mx_holder_left _ = 0"

lemma mx_holder_step:
  assumes inv: "mutex_inv s" and c: "mutex_in_cs s i" and st: "mutex_step a s = Some s'"
  shows "(\<forall>j. \<not> mutex_in_cs s' j) \<or> mutex_inv s' \<and> mutex_in_cs s' i
    \<and> (mx_holder_left (mx_pc s' i) < mx_holder_left (mx_pc s i) \<or> mx_pc s' i = mx_pc s i)"
    and "a = (if mx_pc s i = MHeld then CallUnlock i else Step i) \<Longrightarrow>
      (\<forall>j. \<not> mutex_in_cs s' j) \<or> mx_holder_left (mx_pc s' i) < mx_holder_left (mx_pc s i)"
proof -
  have only: "mutex_in_cs s j \<Longrightarrow> j = i" for j using inv c by (auto simp: mutex_inv_def mutex_excl_def)
  have word: "mx_state s \<noteq> unlocked" using inv c by (auto simp: mutex_inv_def mutex_excl_def)
  have i': "mutex_inv s'" by (rule mutex_inv_step [OF inv st])
  have new: "mutex_in_cs s j" if "mutex_in_cs s' j" for j
    using that st word by (cases a) (auto simp: mutex_in_cs_def split: mutex_pc.splits if_splits option.splits)
  have pc: "mutex_in_cs s' i \<Longrightarrow> mx_holder_left (mx_pc s' i) < mx_holder_left (mx_pc s i) \<or> mx_pc s' i = mx_pc s i"
    using st c by (cases a) (auto simp: mutex_in_cs_def split: mutex_pc.splits if_splits option.splits)
  show "(\<forall>j. \<not> mutex_in_cs s' j) \<or> mutex_inv s' \<and> mutex_in_cs s' i
    \<and> (mx_holder_left (mx_pc s' i) < mx_holder_left (mx_pc s i) \<or> mx_pc s' i = mx_pc s i)"
    using new only i' pc by (cases "mutex_in_cs s' i") blast+
  have own: "mutex_in_cs s' i \<Longrightarrow> mx_holder_left (mx_pc s' i) < mx_holder_left (mx_pc s i)"
    if "a = (if mx_pc s i = MHeld then CallUnlock i else Step i)"
    using that st c by (auto simp: mutex_in_cs_def split: mutex_pc.splits if_splits)
  show "(\<forall>j. \<not> mutex_in_cs s' j) \<or> mx_holder_left (mx_pc s' i) < mx_holder_left (mx_pc s i)"
    if "a = (if mx_pc s i = MHeld then CallUnlock i else Step i)"
    using new only own [OF that] by (cases "mutex_in_cs s' i") blast+
qed

interpretation holder_leaves: fair_leads_to mutex_step lock_fair "\<lambda>s. mutex_inv s \<and> mutex_in_cs s i" "\<lambda>s. \<forall>j. \<not> mutex_in_cs s j"
  "\<lambda>s. if mx_pc s i = MHeld then CallUnlock i else Step i" "\<lambda>s. mx_holder_left (mx_pc s i)" for i
proof unfold_locales
  fix s assume s: "mutex_inv s \<and> mutex_in_cs s i"
  show "(if mx_pc s i = MHeld then CallUnlock i else Step i) \<in> lock_fair" by (simp add: lock_fair_def)
  have "mutex_step (if mx_pc s i = MHeld then CallUnlock i else Step i) s \<noteq> None" using s by (auto simp: mutex_in_cs_def)
  then show "\<exists>s'. mutex_step (if mx_pc s i = MHeld then CallUnlock i else Step i) s = Some s'
      \<and> ((\<forall>j. \<not> mutex_in_cs s' j) \<or> mx_holder_left (mx_pc s' i) < mx_holder_left (mx_pc s i))"
    using mx_holder_step(2) s by blast
  show "(\<forall>j. \<not> mutex_in_cs s' j) \<or> (mutex_inv s' \<and> mutex_in_cs s' i)
      \<and> (mx_holder_left (mx_pc s' i) < mx_holder_left (mx_pc s i) \<or> mx_holder_left (mx_pc s' i) = mx_holder_left (mx_pc s i)
        \<and> (if mx_pc s' i = MHeld then CallUnlock i else Step i) = (if mx_pc s i = MHeld then CallUnlock i else Step i))"
    if "mutex_step a s = Some s'" for a s'
    using mx_holder_step(1) [OF _ _ that, of i] s by auto
qed

text \<open>Whoever is awake takes the free lock.\<close>

interpretation awake_enters: fair_leads_to mutex_step lock_fair "\<lambda>s. mx_awake s j" mx_over "\<lambda>_. Step j" "\<lambda>_. 0" for j
proof unfold_locales
  show "Step j \<in> lock_fair" by (simp add: lock_fair_def)
  fix s assume s: "mx_awake s j"
  then have "mx_free s" "mx_pc s j \<in> {MFast, MSwap}" by (simp_all add: mx_awake_def)
  then show "\<exists>s'. mutex_step (Step j) s = Some s' \<and> (mx_over s' \<or> (0 :: nat) < 0)"
    using mx_free_word [of s] by (auto simp: mx_over_def mutex_in_cs_def)
  show "mx_over s' \<or> mx_awake s' j \<and> ((0 :: nat) < 0 \<or> (0 :: nat) = 0 \<and> Step j = Step j)"
    if st: "mutex_step a s = Some s'" for a s'
    using mx_free_moves(1,2) [OF _ st] s unfolding mx_awake_def by metis
qed

text \<open>A permit wakes a goroutine that is parked.\<close>

interpretation permit_wakes: fair_leads_to mutex_step lock_fair "mx_permit t" "\<lambda>s. mx_over s \<or> (\<exists>j. mx_awake s j)"
  "\<lambda>_. Step t" "\<lambda>_. 0" for t
proof unfold_locales
  show "Step t \<in> lock_fair" by (simp add: lock_fair_def)
  fix s assume s: "mx_permit t s"
  then have f: "mx_free s" and p: "mx_pc s t = MPark" "sema (mx_parker s) \<noteq> 0" by (simp_all add: mx_permit_def)
  have awake: "\<exists>j. mx_awake s' j" if "mx_free s'" "mx_pc s' u = MSwap" for s' u using that by (auto simp: mx_awake_def)
  obtain s' where s': "mutex_step (Step t) s = Some s'" "mx_pc s' t = MSwap"
    using p by (auto simp: Parker_Park_def runtime_Semacquire_def)
  then show "\<exists>s'. mutex_step (Step t) s = Some s' \<and> ((mx_over s' \<or> (\<exists>j. mx_awake s' j)) \<or> (0 :: nat) < 0)"
    using mx_free_step [OF f s'(1)] awake by blast
  show "(mx_over s' \<or> (\<exists>j. mx_awake s' j)) \<or> mx_permit t s' \<and> ((0 :: nat) < 0 \<or> (0 :: nat) = 0 \<and> Step t = Step t)"
    if st: "mutex_step a s = Some s'" for a s'
  proof (cases "mx_over s'")
    case False
    note m = mx_free_moves [OF f st False]
    show ?thesis using m(1) m(4) [OF p(1)] m(5) [OF p(2)] awake unfolding mx_permit_def by blast
  qed simp
qed

text \<open>The goroutine that has unlocked deposits a permit.\<close>

interpretation waker_unparks: fair_leads_to mutex_step lock_fair "mx_waking j t"
  "\<lambda>s. mx_over s \<or> (\<exists>u. mx_awake s u) \<or> mx_permit t s" "\<lambda>_. Step j" "\<lambda>_. 0" for j t
proof unfold_locales
  show "Step j \<in> lock_fair" by (simp add: lock_fair_def)
  fix s assume s: "mx_waking j t s"
  then have f: "mx_free s" and p: "mx_pc s t = MPark" "mx_pc s j = MUnpark" by (simp_all add: mx_waking_def)
  have next_stage: "mx_over s' \<or> (\<exists>u. mx_awake s' u) \<or> mx_permit t s' \<or> mx_waking j t s' \<and> a \<noteq> Step j"
    if st: "mutex_step a s = Some s'" for a s'
  proof (cases "mx_over s'")
    case False
    note m = mx_free_moves [OF f st False]
    show ?thesis using m(1) m(4) [OF p(1)] m(3,6) [of j] p(2)
      unfolding mx_permit_def mx_waking_def mx_awake_def by blast
  qed simp
  have "mutex_step (Step j) s \<noteq> None" using p by simp
  then show "\<exists>s'. mutex_step (Step j) s = Some s' \<and> ((mx_over s' \<or> (\<exists>u. mx_awake s' u) \<or> mx_permit t s') \<or> (0 :: nat) < 0)"
    using next_stage by blast
  show "(mx_over s' \<or> (\<exists>u. mx_awake s' u) \<or> mx_permit t s') \<or> mx_waking j t s' \<and> ((0 :: nat) < 0 \<or> (0 :: nat) = 0 \<and> Step j = Step j)"
    if "mutex_step a s = Some s'" for a s'
    using next_stage [OF that] by blast
qed

lemma mx_free_over:
  assumes f: "fair_run mutex_step lock_fair \<sigma> \<alpha>" and s: "mx_free (\<sigma> n)" "mx_pc (\<sigma> n) t \<in> {MFast, MSwap, MPark}"
  shows "\<exists>m \<ge> n. mx_over (\<sigma> m)"
proof -
  have awake: "\<exists>m \<ge> k. mx_over (\<sigma> m)" if "mx_awake (\<sigma> k) j" for k j by (rule awake_enters.reaches [OF f that])
  have permit: "\<exists>m \<ge> k. mx_over (\<sigma> m)" if "mx_permit t (\<sigma> k)" for k
    using permit_wakes.reaches [OF f that] awake by (meson order_trans)
  have "\<exists>m \<ge> k. mx_over (\<sigma> m)" if "mx_waking j t (\<sigma> k)" for k j
    using waker_unparks.reaches [OF f that] awake permit by (meson order_trans)
  then show ?thesis using mx_free_starts [OF s] awake permit by blast
qed

section \<open>The theorem\<close>

lemma mx_enter_step: "mutex_step a s = Some s' \<Longrightarrow> \<not> mutex_in_cs s i \<Longrightarrow> mutex_in_cs s' i \<Longrightarrow> a = Step i"
  by (cases a) (auto simp: mutex_in_cs_def split: mutex_pc.splits if_splits option.splits)

text \<open>A goroutine that was outside and is inside has made a step of \<^verbatim>\<open>Lock\<close> into the lock.\<close>

lemma mx_enters:
  assumes run: "infinite_run mutex_step \<sigma> \<alpha>" and "\<not> mutex_in_cs (\<sigma> n) i" and "mutex_in_cs (\<sigma> m) i" and "n \<le> m"
  shows "\<exists>k \<ge> n. \<alpha> k = Some (Step i) \<and> \<not> mutex_in_cs (\<sigma> k) i \<and> mutex_in_cs (\<sigma> (Suc k)) i"
  using assms(4,3)
proof (induction rule: dec_induct)
  case (step k)
  show ?case
  proof (cases "mutex_in_cs (\<sigma> k) i")
    case False
    then obtain a where a: "\<alpha> k = Some a" using infinite_run_idle [OF run, of k] step.prems by (cases "\<alpha> k") auto
    then have "a = Step i" using mx_enter_step [OF infinite_run_act [OF run a] False step.prems] by simp
    then show ?thesis using a False step.prems step.hyps(1) by blast
  qed (rule step.IH)
qed (use assms(2) in simp)

lemma mx_waits_until:
  assumes run: "infinite_run mutex_step \<sigma> \<alpha>" and w: "mx_pc (\<sigma> n) t \<in> {MFast, MSwap, MPark}" and m: "n \<le> m"
  shows "mx_pc (\<sigma> m) t \<in> {MFast, MSwap, MPark} \<or> (\<exists>k \<ge> n. mutex_in_cs (\<sigma> k) t)"
proof (rule infinite_run_unless [OF run, where P = "\<lambda>s. mx_pc s t \<in> {MFast, MSwap, MPark}" and Q = "\<lambda>s. mutex_in_cs s t", OF w _ m])
  show "mx_pc s' t \<in> {MFast, MSwap, MPark} \<or> mutex_in_cs s' t"
    if "mx_pc s t \<in> {MFast, MSwap, MPark}" "mutex_step a s = Some s'" for s a s'
    using that by (cases a) (auto simp: mutex_in_cs_def split: mutex_pc.splits if_splits option.splits)
qed

text \<open>C6: A \<^verbatim>\<open>MutexLock\<close> is always handed on: under every scheduler that keeps no goroutine for ever from its next
  step, and whose holders unlock, whenever some goroutine is in \<^verbatim>\<open>Lock\<close> (at the fast path, before the swap or
  parked), some goroutine gets in at that moment or later, by a step of its own that takes it from \<^verbatim>\<open>Lock\<close> into
  the lock; unless \<open>2 ^ 32\<close> wake-ups are deposited, when the 32-bit semaphore may wrap around.\<close>

theorem mutex_lock_handed_on:
  assumes i: "\<sigma> 0 = mutex_zero" and f: "fair_run mutex_step lock_fair \<sigma> \<alpha>" and w: "mx_pc (\<sigma> n) t \<in> {MFast, MSwap, MPark}"
  shows "(\<exists>m \<ge> n. \<exists>i. \<alpha> m = Some (Step i) \<and> \<not> mutex_in_cs (\<sigma> m) i \<and> mutex_in_cs (\<sigma> (Suc m)) i)
    \<or> (\<exists>m \<ge> n. 2 ^ 32 \<le> mx_unparks (\<sigma> m))"
proof -
  note run = fair_run_infinite [OF f]
  have inv: "mutex_inv (\<sigma> k)" for k using infinite_run_reached [OF run] mutex.invariant [OF i] by blast
  obtain k where k: "n \<le> k" "\<forall>j. \<not> mutex_in_cs (\<sigma> k) j"
    using holder_leaves.reaches [OF f, of n] inv by (cases "\<forall>j. \<not> mutex_in_cs (\<sigma> n) j") blast+
  have out: "\<not> mutex_in_cs (\<sigma> n) t" using w by (auto simp: mutex_in_cs_def)
  show ?thesis
  proof (cases "\<exists>m \<ge> n. mutex_in_cs (\<sigma> m) t")
    case True
    then show ?thesis using mx_enters [OF run out] by blast
  next
    case False
    then have t: "mx_pc (\<sigma> k) t \<in> {MFast, MSwap, MPark}" using mx_waits_until [OF run w k(1)] by blast
    show ?thesis
    proof (cases "2 ^ 32 \<le> mx_unparks (\<sigma> k)")
      case small: False
      then have "mx_free (\<sigma> k)" using inv k(2) by (simp add: mx_free_def)
      then obtain m where m: "k \<le> m" "mx_over (\<sigma> m)" using mx_free_over [OF f _ t] by blast
      show ?thesis
      proof (cases "2 ^ 32 \<le> mx_unparks (\<sigma> m)")
        case False
        then obtain j where "mutex_in_cs (\<sigma> m) j" using m(2) by (auto simp: mx_over_def)
        then show ?thesis using mx_enters [OF run _ _ m(1)] k by (meson order_trans)
      qed (use m(1) k(1) in \<open>meson order_trans\<close>)
    qed (use k(1) in blast)
  qed
qed

text \<open>Goroutine 2 is parked, goroutine 1 has marked the lock free and has not yet called \<^verbatim>\<open>Unpark\<close>.\<close>

lemma mutex_unparks_mono: "run mutex_step as s = Some s' \<Longrightarrow> mutex_inv s \<Longrightarrow> mx_unparks s \<le> mx_unparks s'"
proof (induction as arbitrary: s)
  case (Cons a as)
  obtain s1 where s1: "mutex_step a s = Some s1" "run mutex_step as s1 = Some s'" using Cons.prems(1) by (auto split: option.splits)
  have "mx_unparks s \<le> mx_unparks s1" using mutex_sema_step [OF _ s1(1)] Cons.prems(2) by (simp add: mutex_inv_def)
  then show ?case using Cons.IH [OF s1(2) mutex_inv_step [OF Cons.prems(2) s1(1)]] by simp
qed simp

lemma mutex_lock_handed_on_witness:
  "\<exists>\<sigma> \<alpha>. \<sigma> 0 = mutex_zero \<and> fair_run mutex_step lock_fair \<sigma> \<alpha> \<and> mx_pc (\<sigma> 8) 2 = MPark \<and> mx_pc (\<sigma> 8) 1 = MUnpark
     \<and> sema (mx_parker (\<sigma> 8)) = 0
     \<and> (\<exists>m \<ge> 8. \<exists>i. \<alpha> m = Some (Step i) \<and> \<not> mutex_in_cs (\<sigma> m) i \<and> mutex_in_cs (\<sigma> (Suc m)) i)"
proof -
  let ?as = "[CallLock 1, CallLock 2, Step 1, Step 2, Step 2, CallUnlock 1, Step 1, Step 1, Step 1, Step 2, Step 2,
    CallUnlock 2, Step 2, Step 2, Step 2]"
  let ?r = "halted mutex_step ?as mutex_zero" and ?a = "halted_acts ?as"
  obtain s where s: "run mutex_step ?as mutex_zero = Some s" and idle: "\<forall>t. mx_pc s t = MIdle" and u: "mx_unparks s = 2"
    by (simp add: mutex_zero_def lock_words Parker_Park_def runtime_Semacquire_def runtime_Semrelease_def Parker_Unpark_def)
  have f: "fair_run mutex_step lock_fair ?r ?a" by (rule halted_fair [OF s]) (use idle in \<open>auto simp: lock_fair_def\<close>)
  have z: "?r 0 = mutex_zero" by (simp add: halted_def)
  have w: "mx_pc (?r 8) 2 = MPark" "mx_pc (?r 8) 1 = MUnpark" "sema (mx_parker (?r 8)) = 0"
    by (simp_all add: halted_def mutex_zero_def lock_words)
  have "mx_unparks (?r m) \<le> 2" for m
  proof -
    have "\<exists>bs. run mutex_step bs (?r m) = Some (?r (m + 15))" by (rule infinite_run_steps [OF fair_run_infinite [OF f]])
    moreover have "?r (m + 15) = s" using s by (simp add: halted_def)
    moreover have "mutex_inv (?r m)"
      using infinite_run_reached [OF fair_run_infinite [OF f], of m] mutex.invariant [OF z] by blast
    ultimately show ?thesis using mutex_unparks_mono u by metis
  qed
  then have "mx_unparks (?r m) < 2 ^ 32" for m by (rule le_less_trans) simp
  then have "\<not> (\<exists>m \<ge> 8. 2 ^ 32 \<le> mx_unparks (?r m))" unfolding not_le [symmetric] by blast
  then have "\<exists>m \<ge> 8. \<exists>i. ?a m = Some (Step i) \<and> \<not> mutex_in_cs (?r m) i \<and> mutex_in_cs (?r (Suc m)) i"
    using mutex_lock_handed_on [OF z f, of 8 2] w(1) by blast
  then show ?thesis using z f w by blast
qed

end
