(* ===== verification/Semaphores.thy ===== *)
theory Semaphores
  imports Sem_Channel Sem_Mutex Sem_Cond Sem_Lockfree
begin

text \<open>
  The \<^verbatim>\<open>Semaphore\<close> interface of \<^verbatim>\<open>syncx/semaphore.go\<close>: its five implementations keep one contract,
  with an exception for \<^verbatim>\<open>LockfreeSemaphore\<close>, whose queue can refuse a waiter.
\<close>

text \<open>C12: Every implementation of \<^verbatim>\<open>Semaphore\<close>, made with \<open>n\<close> permits and used by any number of goroutines in
  any interleaving, is a counting semaphore of limit \<open>n\<close>: at most \<open>n\<close> permits are held, every step takes or
  gives one permit as the counting semaphore does or leaves them alone, and no permit and no wake-up is lost:
  when somebody is inside \<^verbatim>\<open>Acquire\<close> and no goroutine inside a call can change anything any more, then all
  \<open>n\<close> permits are held. (\<^verbatim>\<open>LockfreeSemaphore\<close> is the model over the specification of the bounded queue, one
  operation at a time; over the ring itself it is the subject of \<open>Sem_Composed\<close>. It keeps the last part as long as
  its queue has refused nobody. The counters of the last two hold \<open>n < 2 ^ 63\<close>.)\<close>

theorem semaphores_keep_contract:
  "semaphore_contract (\<lambda>c. NewChannelSemaphore (int n) = Some c) Channel_step sem_inside cc_held cc_waits n
   \<and> semaphore_contract (\<lambda>m. m = NewMutexSemaphore (int n)) MutexSem_step sem_inside ms_held ms_waits n
   \<and> semaphore_contract (\<lambda>c. c = NewCondSemaphore (int n)) Cond_step cs_inside cs_held cs_waits n
   \<and> semaphore_contract (\<lambda>l. l = NewLockfreeSemaphore (of_nat n) \<and> n < 2 ^ 63) Lockfree_step ls_inside ls_held ls_blocked n
   \<and> semaphore_contract (\<lambda>r. r = NewRuntimeSemaphore (of_nat n) \<and> n < 2 ^ 63) Runtime_step sem_inside rs_held rs_waits n"
  using channel_semaphore.contract mutex_semaphore.contract cond_semaphore.contract lockfree_semaphore_capped.contract
    runtime_semaphore.contract by blast

lemma semaphores_keep_contract_witness:
  "\<exists>m. run MutexSem_step [CallAcquire 1, SemStep 1, CallAcquire 2, SemStep 2] (NewMutexSemaphore (int 1)) = Some m
     \<and> ms_waits m 2 \<and> quiet MutexSem_step sem_inside m \<and> ms_held m = 1"
proof -
  obtain m where r: "run MutexSem_step [CallAcquire 1, SemStep 1, CallAcquire 2, SemStep 2] (NewMutexSemaphore (int 1)) = Some m"
    and pc: "ms_pc m = (\<lambda>_. MsIdle)(2 := MsGate 0)" and lk: "ms_locked m 0"
    by (simp add: NewMutexSemaphore_def MutexSem_Acquire_step_def Let_def max_goroutines_def fun_eq_iff)
  have w: "ms_waits m 2" using pc by (simp add: ms_waits_def)
  have q: "quiet MutexSem_step sem_inside m"
    using pc lk by (auto simp: quiet_def sem_inside_def MutexSem_Acquire_step_def MutexSem_Release_step_def split: if_splits)
  have "ms_held m = 1"
    by (rule semaphore_contract_lossless [OF semaphores_keep_contract [THEN conjunct2, THEN conjunct1] refl r w q])
  with r w q show ?thesis by (intro exI [of _ m] conjI)
qed

end
