(* ===== verification/Containers_Mutex.thy ===== *)
theory Containers_Mutex
  imports Queue_Mutex Stack_Mutex
begin

text \<open>
  The containers of \<^verbatim>\<open>queue\<close> and \<^verbatim>\<open>stack\<close> that hold a mutex throughout their methods, shared by goroutines.
\<close>

text \<open>C28: \<^verbatim>\<open>MutexMPMC\<close>, \<^verbatim>\<open>MutexMPSC\<close>, \<^verbatim>\<open>MutexSliceMPMC\<close> and \<^verbatim>\<open>MutexLinkedMPMC\<close>, called by any number
  of goroutines in any interleaving: no body ever starts while another is at work, every call that has returned
  is answered by one step of the bounded FIFO queue of capacity 1024 (of the stack) taken between its call and its
  return, in one order that explains all results, and a goroutine that waits for the mutex never waits for nobody.
  Between the methods the ring, whose 64-bit counters may wrap around any number of times, holds the queue, and
  the values accepted are the values delivered followed by the content; the slice, or the chain of nodes from
  \<^verbatim>\<open>head\<close>, which never has a cycle, holds the stack.\<close>

theorem mutex_containers_linearizable:
  "(run MutexMPMC_step as (mon_new NewMutexMPMC) = Some m \<longrightarrow>
      mon_linearized (queue_body MutexMPMC_Enqueue MutexMPMC_Dequeue) (spec_queue BoundedQueueSize) []
        (fifo_view mm_abs (mon_log m)) m)
   \<and> (run MutexMPSC_step bs (mon_new NewMutexMPSC) = Some k \<longrightarrow>
      mon_linearized (queue_body MutexMPSC_Enqueue MutexMPSC_Dequeue) (spec_queue BoundedQueueSize) []
        (fifo_view (mm_abs \<circ> mpsc_as_mpmc) (mon_log k)) k)
   \<and> (run MutexSlice_step cs (mon_new NewMutexSliceMPMC) = Some s \<longrightarrow>
      mon_linearized (stack_body MutexSlice_Push MutexSlice_Pop) spec_stack [] (\<lambda>s xs. sl_arr s = rev xs) s)
   \<and> (run MutexLinked_step ds (mon_new NewMutexLinkedMPMC) = Some l \<longrightarrow>
      mon_linearized (stack_body MutexLinked_Push MutexLinked_Pop) spec_stack []
        (\<lambda>s xs. stacked s = xs \<and> (\<exists>ns. chain (nd_next s) (nd_head s) ns \<and> distinct ns \<and> map (nd_val s) ns = xs)) l)"
  using mutex_queues_linearizable [of as m bs k] mutex_stacks_linearizable [of cs s ds l] by simp

text \<open>Two goroutines meet at the ring, and two at the linked stack; the second takes what the first put in.\<close>

lemma mutex_containers_linearizable_witness:
  "\<exists>m l. run MutexMPMC_step (mon_meeting (Enq (7 :: nat)) Deq) (mon_new NewMutexMPMC) = Some m
     \<and> run MutexLinked_step (mon_meeting (Push (7 :: nat)) Pop) (mon_new NewMutexLinkedMPMC) = Some l
     \<and> mon_mine m 2 = [(2, Deq, DeqRes 7 True)] \<and> mon_mine l 2 = [(2, Pop, PopRes 7 True)]"
proof -
  have l: "length (replicate BoundedQueueSize (0 :: nat)) = BoundedQueueSize" "of_nat BoundedQueueSize \<noteq> (0 :: u64)"
    by (simp_all add: BoundedQueueSize_def)
  obtain m where m: "run MutexMPMC_step (mon_meeting (Enq (7 :: nat)) Deq) (mon_new NewMutexMPMC) = Some m"
    "mon_pc m 2 = MonOut Deq (DeqRes 7 True)"
    using mon_meeting_runs [of "queue_body MutexMPMC_Enqueue MutexMPMC_Dequeue" "Enq 7" NewMutexMPMC _ "EnqRes True" Deq] l
      slot_of_less [of 0]
    unfolding MutexMPMC_step_def by (fastforce simp: MutexMPMC_Enqueue_def MutexMPMC_Dequeue_def NewMutexMPMC_def)
  obtain l where k: "run MutexLinked_step (mon_meeting (Push (7 :: nat)) Pop) (mon_new NewMutexLinkedMPMC) = Some l"
    "mon_pc l 2 = MonOut Pop (PopRes 7 True)"
    using mon_meeting_runs [of "stack_body MutexLinked_Push MutexLinked_Pop" "Push 7" NewMutexLinkedMPMC _ PushRes Pop]
    unfolding MutexLinked_step_def by (fastforce simp: MutexLinked_Push_eq MutexLinked_Pop_def NewMutexLinkedMPMC_def)
  note all = mutex_containers_linearizable [of "mon_meeting (Enq 7) Deq" m _ _ _ _ "mon_meeting (Push 7) Pop" l]
  have "mon_mine m 2 = [(2, Deq, DeqRes 7 True)]"
    using all [THEN conjunct1, THEN mp, OF m(1)] m(2) unfolding mon_linearized_def by blast
  moreover have "mon_mine l 2 = [(2, Pop, PopRes 7 True)]"
    using all [THEN conjunct2, THEN conjunct2, THEN conjunct2, THEN mp, OF k(1)] k(2) unfolding mon_linearized_def by blast
  ultimately show ?thesis using m(1) k(1) by blast
qed

end
