(* ===== verification/Peterson_Liveness.thy ===== *)
theory Peterson_Liveness
  imports Fairness Peterson
begin

text \<open>
  Starvation freedom of Peterson's lock. A goroutine that waits while it is not its turn is let in at the
  latest when the other one comes back, for then the other gives the turn away; and once the turn is its own
  it stays so until it has got in.
\<close>

definition pt_other_stage :: "peterson_pc \<Rightarrow> nat" where
  "pt_other_stage p = (case p of
     PtTestFlag \<Rightarrow> 7 | PtTestTurn \<Rightarrow> 6 | PtHeld \<Rightarrow> 5 | PtClear \<Rightarrow> 4 | PtIdle \<Rightarrow> 3 | PtFlag \<Rightarrow> 2 | PtTurn \<Rightarrow> 1 | PtPanic \<Rightarrow> 3)"

fun pt_locking :: "peterson_pc \<Rightarrow> bool" where
  "pt_locking PtFlag = True"
| "pt_locking PtTurn = True"
| "pt_locking PtTestFlag = True"
| "pt_locking PtTestTurn = True"
| "pt_locking p = False"

definition pt_distance :: "peterson_pc \<Rightarrow> peterson_pc \<Rightarrow> bool \<Rightarrow> nat" where
  "pt_distance p q mine =
     (if p = PtFlag then 25 else if p = PtTurn then 24
      else if mine then (if p = PtTestTurn then 1 else 2)
      else 3 * pt_other_stage q + (if q = PtIdle \<or> q = PtPanic then (if p = PtTestTurn then 2 else 1) else 0))"

definition pt_helps :: "peterson_pc \<Rightarrow> peterson_pc \<Rightarrow> bool \<Rightarrow> bool" where
  "pt_helps p q mine \<longleftrightarrow> p = PtFlag \<or> p = PtTurn \<or> mine \<or> q = PtIdle \<or> q = PtPanic"

text \<open>One step of the goroutine that waits, and one of the other.\<close>

lemma pt_local_me:
  assumes "pt_locking p" and "peterson_local p f g mine = (p', f', mine')" and "g \<longleftrightarrow> q \<noteq> PtIdle \<and> q \<noteq> PtFlag \<and> q \<noteq> PtPanic"
  shows "peterson_inside p' \<or> pt_locking p' \<and> (pt_distance p' q mine' < pt_distance p q mine
    \<or> \<not> pt_helps p q mine \<and> pt_distance p' q mine' = pt_distance p q mine \<and> \<not> pt_helps p' q mine')"
  using assms by (cases p; cases q) (auto simp: pt_distance_def pt_helps_def pt_other_stage_def split: if_splits)

lemma pt_local_other:
  assumes "pt_locking p" and "peterson_local q g f (\<not> mine) = (q', g', theirs)" and "f \<longleftrightarrow> p \<noteq> PtFlag"
    and "q \<noteq> PtIdle" "q \<noteq> PtHeld" "q \<noteq> PtPanic"
  shows "pt_distance p q' (\<not> theirs) < pt_distance p q mine
    \<or> pt_helps p q mine \<and> pt_distance p q' (\<not> theirs) = pt_distance p q mine \<and> pt_helps p q' (\<not> theirs)"
  using assms by (cases p; cases q) (auto simp: pt_distance_def pt_helps_def pt_other_stage_def split: if_splits)

lemma pt_local_call:
  assumes "pt_locking p" and "q = PtIdle \<and> q' = PtFlag \<or> q = PtHeld \<and> q' = PtClear"
  shows "pt_distance p q' mine < pt_distance p q mine
    \<or> pt_helps p q mine \<and> pt_distance p q' mine = pt_distance p q mine \<and> pt_helps p q' mine"
  using assms by (cases p) (auto simp: pt_distance_def pt_helps_def pt_other_stage_def)

definition pt_left :: "tid \<Rightarrow> Peterson \<Rightarrow> nat" where
  "pt_left me s = pt_distance (pt_pc s me) (pt_pc s (1 - me)) (pt_turn s = me)"

definition pt_helper :: "tid \<Rightarrow> Peterson \<Rightarrow> lock_act" where
  "pt_helper me s =
     (if pt_helps (pt_pc s me) (pt_pc s (1 - me)) (pt_turn s = me) then Step me
      else if pt_pc s (1 - me) = PtHeld then CallUnlock (1 - me) else Step (1 - me))"

definition pt_waits :: "tid \<Rightarrow> Peterson \<Rightarrow> bool" where
  "pt_waits me s \<longleftrightarrow> peterson_inv s \<and> me < 2 \<and> pt_locking (pt_pc s me)"

text \<open>What the invariant says of a waiting goroutine \<open>me\<close> and of the other one.\<close>

lemma pt_waitsD:
  assumes "pt_waits me s"
  shows "1 - me \<noteq> me" and "1 - (1 - me) = me" and "pt_turn s = me \<or> pt_turn s = 1 - me"
    and "pt_flag s me \<longleftrightarrow> pt_pc s me \<noteq> PtFlag"
    and "pt_flag s (1 - me) \<longleftrightarrow> pt_pc s (1 - me) \<noteq> PtIdle \<and> pt_pc s (1 - me) \<noteq> PtFlag \<and> pt_pc s (1 - me) \<noteq> PtPanic"
proof -
  have me: "me = 0 \<or> me = 1" and inv: "peterson_inv s" and w: "pt_locking (pt_pc s me)"
    using assms by (auto simp: pt_waits_def)
  have side: "f = (p \<noteq> PtIdle \<and> p \<noteq> PtFlag \<and> p \<noteq> PtPanic)" if "peterson_side f p q m" for f p q m
    using that by (cases p) (auto simp: peterson_side_def)
  then have fl: "pt_flag s t = (pt_pc s t \<noteq> PtIdle \<and> pt_pc s t \<noteq> PtFlag \<and> pt_pc s t \<noteq> PtPanic)" if "t = 0 \<or> t = 1" for t
    using inv that unfolding peterson_inv_def by blast
  show "1 - me \<noteq> me" "1 - (1 - me) = me" "pt_turn s = me \<or> pt_turn s = 1 - me"
    using me inv by (auto simp: peterson_inv_def)
  show "pt_flag s me \<longleftrightarrow> pt_pc s me \<noteq> PtFlag" using fl [OF me] w by (cases "pt_pc s me") auto
  show "pt_flag s (1 - me) \<longleftrightarrow> pt_pc s (1 - me) \<noteq> PtIdle \<and> pt_pc s (1 - me) \<noteq> PtFlag \<and> pt_pc s (1 - me) \<noteq> PtPanic"
    by (rule fl) (use me in auto)
qed

lemma pt_waits_turn: "pt_waits me s \<Longrightarrow> (pt_turn s = 1 - me) = (pt_turn s \<noteq> me)"
  using pt_waitsD(1,3) [of me s] by auto

lemma pt_step_me:
  assumes w: "pt_waits me s" and st: "peterson_step (Step me) s = Some s'"
  shows "peterson_in_cs s' me \<or> pt_locking (pt_pc s' me) \<and> (pt_left me s' < pt_left me s
    \<or> pt_helper me s \<noteq> Step me \<and> pt_left me s' = pt_left me s \<and> pt_helper me s' = pt_helper me s)"
proof -
  have me: "me = 0 \<or> me = 1" "pt_locking (pt_pc s me)" and tn: "pt_turn s = 0 \<or> pt_turn s = 1"
    using w by (auto simp: pt_waits_def peterson_inv_def)
  note d = pt_waitsD [OF w]
  have l: "peterson_local (pt_pc s me) (pt_flag s me) (pt_flag s (1 - me)) (pt_turn s = me)
      = (pt_pc s' me, pt_flag s' me, pt_turn s' = me)" and q: "pt_pc s' (1 - me) = pt_pc s (1 - me)"
    using peterson_step_local [OF st me(1) tn] d(1) by blast+
  from pt_local_me [OF me(2) l d(5)] show ?thesis
    unfolding pt_left_def pt_helper_def q peterson_in_cs_inside using d(1) by (auto simp del: One_nat_def)
qed

lemma pt_step_other:
  assumes w: "pt_waits me s" and st: "peterson_step (Step (1 - me)) s = Some s'"
  shows "pt_pc s' me = pt_pc s me \<and> (pt_left me s' < pt_left me s
    \<or> pt_helper me s = Step me \<and> pt_left me s' = pt_left me s \<and> pt_helper me s' = Step me)"
proof -
  have u: "1 - me = 0 \<or> 1 - me = 1" and tn: "pt_turn s = 0 \<or> pt_turn s = 1" and me: "pt_locking (pt_pc s me)"
    using w by (auto simp: pt_waits_def peterson_inv_def)
  note d = pt_waitsD [OF w]
  note l = peterson_step_local [OF st u tn]
  have same: "pt_pc s' me = pt_pc s me" using l d(1) by metis
  have tn': "pt_turn s' = me \<longleftrightarrow> pt_turn s' \<noteq> 1 - me"
    using l w by (auto simp: pt_waits_def)
  have q: "pt_pc s (1 - me) \<noteq> PtIdle" "pt_pc s (1 - me) \<noteq> PtHeld" "pt_pc s (1 - me) \<noteq> PtPanic"
    using st by (auto simp: Let_def)
  have "peterson_local (pt_pc s (1 - me)) (pt_flag s (1 - me)) (pt_flag s me) (\<not> (pt_turn s = me))
      = (pt_pc s' (1 - me), pt_flag s' (1 - me), pt_turn s' = 1 - me)"
    using l pt_waits_turn [OF w] d(2) by simp
  from pt_local_other [OF me this d(4) q] show ?thesis
    unfolding pt_left_def pt_helper_def same tn' by (auto simp del: One_nat_def)
qed

lemma pt_step_call:
  assumes w: "pt_waits me s" and st: "peterson_step a s = Some s'" and a: "a = CallLock t \<or> a = CallUnlock t"
  shows "pt_pc s' me = pt_pc s me \<and> (pt_left me s' < pt_left me s
    \<or> a \<noteq> pt_helper me s \<and> pt_left me s' = pt_left me s \<and> pt_helper me s' = pt_helper me s)"
proof (cases "t = 1 - me")
  case True
  have p: "pt_locking (pt_pc s me)" using w by (simp add: pt_waits_def)
  have t: "pt_pc s t = PtIdle \<and> pt_pc s' t = PtFlag \<or> pt_pc s t = PtHeld \<and> pt_pc s' t = PtClear"
    "pt_turn s' = pt_turn s" "pt_pc s' me = pt_pc s me"
    using st a True pt_waitsD(1) [OF w] by (auto simp del: One_nat_def split: if_splits)
  from pt_local_call [OF p t(1) [unfolded True], of "pt_turn s = me"] show ?thesis
    using a t(2,3) True unfolding pt_left_def pt_helper_def by (auto simp del: One_nat_def)
next
  case False
  moreover have "t \<noteq> me" using st a w by (auto simp: pt_waits_def split: if_splits)
  ultimately have "pt_pc s' me = pt_pc s me" "pt_pc s' (1 - me) = pt_pc s (1 - me)" "pt_turn s' = pt_turn s"
    "a \<noteq> pt_helper me s"
    using st a by (auto simp: pt_helper_def simp del: One_nat_def split: if_splits)
  then show ?thesis by (simp add: pt_left_def pt_helper_def)
qed

lemma pt_step_effect:
  assumes w: "pt_waits me s" and st: "peterson_step a s = Some s'"
  shows "peterson_in_cs s' me \<or> pt_waits me s' \<and> (pt_left me s' < pt_left me s
    \<or> a \<noteq> pt_helper me s \<and> pt_left me s' = pt_left me s \<and> pt_helper me s' = pt_helper me s)"
proof -
  note d = pt_waitsD [OF w]
  have i: "peterson_inv s'" and me: "me < 2" "pt_locking (pt_pc s me)"
    using peterson_inv_step [OF _ st] w by (simp_all add: pt_waits_def)
  have "peterson_in_cs s' me \<or> pt_locking (pt_pc s' me) \<and> (pt_left me s' < pt_left me s
    \<or> a \<noteq> pt_helper me s \<and> pt_left me s' = pt_left me s \<and> pt_helper me s' = pt_helper me s)"
  proof (cases a)
    case (Step t)
    consider "t = me" | "t = 1 - me" | "t \<noteq> me" "t \<noteq> 1 - me" by blast
    then show ?thesis
    proof cases
      case 1
      then show ?thesis using pt_step_me [OF w] st Step by auto
    next
      case 2
      then show ?thesis using pt_step_other [OF w] st Step me(2) d(1) by auto
    next
      case 3
      then have "2 \<le> t" using me(1) by auto
      then have "pt_pc s t \<in> {PtIdle, PtFlag, PtPanic}" using w by (auto simp: pt_waits_def peterson_inv_def)
      then have "s' = pt_goto t PtPanic s" using st Step \<open>2 \<le> t\<close> by auto
      then show ?thesis using 3 Step me(2) by (auto simp: pt_left_def pt_helper_def simp del: One_nat_def)
    qed
  qed (use pt_step_call [OF w st] me(2) in auto)
  then show ?thesis using i me(1) by (auto simp: pt_waits_def)
qed

lemma pt_helper_possible:
  assumes w: "pt_waits me s"
  shows "pt_helper me s \<in> lock_fair" and "\<exists>s'. peterson_step (pt_helper me s) s = Some s'"
proof -
  show "pt_helper me s \<in> lock_fair" by (simp add: pt_helper_def lock_fair_def)
  have me: "me < 2" "pt_locking (pt_pc s me)" using w by (simp_all add: pt_waits_def)
  have "\<exists>s'. peterson_step (Step me) s = Some s'"
    using me by (cases "pt_pc s me") (auto simp: Let_def)
  moreover have "\<exists>s'. peterson_step (Step (1 - me)) s = Some s'"
    if "pt_pc s (1 - me) \<notin> {PtIdle, PtPanic, PtHeld}"
    using me that by (cases "pt_pc s (1 - me)") (auto simp: Let_def)
  ultimately show "\<exists>s'. peterson_step (pt_helper me s) s = Some s'"
    by (auto simp: pt_helper_def pt_helps_def simp del: One_nat_def)
qed

interpretation peterson_entering: fair_leads_to peterson_step lock_fair "pt_waits me" "\<lambda>s. peterson_in_cs s me" "pt_helper me"
  "pt_left me" for me
proof unfold_locales
  fix s assume w: "pt_waits me s"
  show "pt_helper me s \<in> lock_fair" using pt_helper_possible(1) [OF w] .
  show "\<exists>s'. peterson_step (pt_helper me s) s = Some s' \<and> (peterson_in_cs s' me \<or> pt_left me s' < pt_left me s)"
    using pt_helper_possible(2) [OF w] pt_step_effect [OF w] by blast
  show "peterson_in_cs s' me \<or> pt_waits me s' \<and> (pt_left me s' < pt_left me s
      \<or> pt_left me s' = pt_left me s \<and> pt_helper me s' = pt_helper me s)"
    if "peterson_step a s = Some s'" for a s'
    using pt_step_effect [OF w that] by blast
qed

section \<open>The theorem\<close>

text \<open>C22: Peterson's lock, on sequentially consistent memory: the two goroutines exclude each other, and
  neither starves. Under every fair scheduler (no goroutine is kept for ever from its next step, and whoever is
  inside unlocks) each of the two that calls \<^verbatim>\<open>Lock\<close> gets in, however often the other one comes back.\<close>

theorem peterson_starvation_free:
  "(\<forall>as s. run peterson_step as peterson_zero = Some s \<longrightarrow> \<not> (peterson_in_cs s 0 \<and> peterson_in_cs s 1))
   \<and> starvation_free (\<lambda>s. s = peterson_zero) peterson_step lock_fair (\<lambda>s t. t < 2 \<and> pt_locking (pt_pc s t)) peterson_in_cs"
proof (intro conjI allI impI)
  fix as s assume "run peterson_step as peterson_zero = Some s"
  then show "\<not> (peterson_in_cs s 0 \<and> peterson_in_cs s 1)" using peterson.mutual_exclusion [OF refl] by (metis zero_neq_one)
next
  show "starvation_free (\<lambda>s. s = peterson_zero) peterson_step lock_fair (\<lambda>s t. t < 2 \<and> pt_locking (pt_pc s t)) peterson_in_cs"
    unfolding starvation_free_def
  proof (intro allI impI)
    fix \<sigma> \<alpha> n t assume i: "\<sigma> 0 = peterson_zero" and f: "fair_run peterson_step lock_fair \<sigma> \<alpha>"
      and w: "t < 2 \<and> pt_locking (pt_pc (\<sigma> n) t)"
    have "peterson_inv (\<sigma> n)"
      using infinite_run_reached [OF fair_run_infinite [OF f]] peterson.invariant [OF i] by blast
    then have "pt_waits t (\<sigma> n)" using w by (simp add: pt_waits_def)
    then show "\<exists>m \<ge> n. peterson_in_cs (\<sigma> m) t" by (rule peterson_entering.reaches [OF f])
  qed
qed

lemma peterson_starvation_free_witness:
  "\<exists>\<sigma> \<alpha>. \<sigma> 0 = peterson_zero \<and> fair_run peterson_step lock_fair \<sigma> \<alpha> \<and> pt_pc (\<sigma> 9) 1 = PtTestTurn \<and> peterson_in_cs (\<sigma> 9) 0
     \<and> (\<exists>m \<ge> 9. peterson_in_cs (\<sigma> m) 1)"
proof -
  let ?as = "[CallLock 0, Step 0, Step 0, CallLock 1, Step 1, Step 1, Step 0, Step 0, Step 1, CallUnlock 0, Step 0,
    Step 1, Step 1, CallUnlock 1, Step 1]"
  let ?r = "halted peterson_step ?as peterson_zero"
  obtain s where s: "run peterson_step ?as peterson_zero = Some s" and idle: "\<forall>t. pt_pc s t = PtIdle"
    by (simp add: peterson_zero_def Let_def del: One_nat_def)
  have f: "fair_run peterson_step lock_fair ?r (halted_acts ?as)"
    by (rule halted_fair [OF s]) (use idle in \<open>auto simp: lock_fair_def\<close>)
  have z: "?r 0 = peterson_zero" by (simp add: halted_def)
  have w: "pt_pc (?r 9) 1 = PtTestTurn" "peterson_in_cs (?r 9) 0"
    by (simp_all add: halted_def peterson_zero_def peterson_in_cs_def Let_def del: One_nat_def)
  have "\<exists>m \<ge> 9. peterson_in_cs (?r m) 1"
    by (rule starvation_freeD [OF peterson_starvation_free [THEN conjunct2] z f]) (use w in simp)
  then show ?thesis using z f w by blast
qed

end
