(* ===== verification/Sem_Liveness.thy ===== *)
theory Sem_Liveness
  imports Fairness Sem_Mutex
begin

text \<open>
  Liveness of \<^verbatim>\<open>MutexSemaphore\<close>: as long as permits come back, every \<^verbatim>\<open>Acquire\<close> returns. Its queue is what
  makes that true: each \<^verbatim>\<open>Release\<close> brings every waiting goroutine one place forward, and newcomers queue
  up behind it.
\<close>

section \<open>Places in the queue\<close>

definition ms_before :: "nat \<Rightarrow> MutexSemaphore \<Rightarrow> nat" where
  "ms_before g m = length (takeWhile (\<lambda>h. h \<noteq> g) (ms_waiters m))"

definition ms_queued :: "nat \<Rightarrow> tid \<Rightarrow> nat \<Rightarrow> MutexSemaphore \<Rightarrow> bool" where
  "ms_queued n t g m \<longleftrightarrow> ms_inv n m \<and> ms_pc m t = MsGate g \<and> g \<in> set (ms_waiters m)"

text \<open>The goroutine has come nearer than \<open>k\<close>, or its gate is open.\<close>

definition ms_nearer :: "nat \<Rightarrow> tid \<Rightarrow> nat \<Rightarrow> nat \<Rightarrow> MutexSemaphore \<Rightarrow> bool" where
  "ms_nearer n t g k m \<longleftrightarrow> ms_inv n m \<and> ms_pc m t = MsGate g \<and> (g \<in> set (ms_waiters m) \<longrightarrow> ms_before g m < k)"

lemma ms_queued_step:
  assumes q: "ms_queued n t g m" and st: "MutexSem_step a m = Some m'"
  shows "ms_nearer n t g (ms_before g m) m' \<or> ms_queued n t g m' \<and> ms_before g m' = ms_before g m
    \<and> (\<forall>u. ms_pc m u = MsRel \<longrightarrow> ms_pc m' u = MsRel \<and> a \<noteq> SemStep u)"
proof -
  have inv: "ms_inv n m" and t: "ms_pc m t = MsGate g" and g: "g \<in> set (ms_waiters m)" using q by (simp_all add: ms_queued_def)
  have i: "ms_inv n m'" using ms_inv_step [OF inv st] .
  have lk: "ms_locked m g" using gates_locked [OF ms_inv_gates [OF inv] t] g by simp
  show ?thesis
  proof (cases "\<exists>u. a = SemStep u \<and> ms_pc m u = MsRel")
    case True
    then obtain u where u: "a = SemStep u" "ms_pc m u = MsRel" by blast
    obtain h rest where w: "ms_waiters m = h # rest" using g by (cases "ms_waiters m") auto
    have m': "ms_waiters m' = rest" "ms_pc m' = (ms_pc m)(u := MsIdle)"
      using st u w ms_release_cases [OF inv u(2)] by (auto simp: MutexSem_Acquire_step_def)
    then have "ms_pc m' t = MsGate g" using t u(2) by auto
    moreover have "ms_before g m' < ms_before g m" if "g \<in> set rest"
    proof -
      have "h \<noteq> g" using that gates_sorted [OF ms_inv_gates [OF inv]] w by auto
      then show ?thesis using m'(1) w by (simp add: ms_before_def)
    qed
    ultimately show ?thesis using i m'(1) by (auto simp: ms_nearer_def)
  next
    case False
    then have "ms_pc m' t = MsGate g \<and> (\<exists>hs. ms_waiters m' = ms_waiters m @ hs)
        \<and> (\<forall>u. ms_pc m u = MsRel \<longrightarrow> ms_pc m' u = MsRel \<and> a \<noteq> SemStep u)"
      using st t lk by (cases a) (auto simp: MutexSem_Acquire_step_def MutexSem_Release_step_def Let_def
          split: ms_pc.splits if_splits option.splits)
    then show ?thesis using i g by (auto simp: ms_queued_def ms_before_def takeWhile_append)
  qed
qed

section \<open>Every release helps\<close>

definition ms_releasing :: "nat \<Rightarrow> tid \<Rightarrow> nat \<Rightarrow> nat \<Rightarrow> tid \<Rightarrow> MutexSemaphore \<Rightarrow> bool" where
  "ms_releasing n t g k u m \<longleftrightarrow> ms_queued n t g m \<and> ms_before g m = k \<and> ms_pc m u = MsRel"

interpretation releasing: fair_leads_to MutexSem_step sem_inside "ms_releasing n t g k u" "ms_nearer n t g k"
  "\<lambda>m :: MutexSemaphore. SemStep u" "\<lambda>_. 0" for n t g k u
proof unfold_locales
  show "SemStep u \<in> sem_inside" by (simp add: sem_inside_def)
  fix m assume r: "ms_releasing n t g k u m"
  then have "\<exists>m'. MutexSem_step (SemStep u) m = Some m'"
    using ms_release_cases [of n m u] by (auto simp: ms_releasing_def ms_queued_def MutexSem_Acquire_step_def)
  then show "\<exists>m'. MutexSem_step (SemStep u) m = Some m' \<and> (ms_nearer n t g k m' \<or> (0 :: nat) < 0)"
    using ms_queued_step r unfolding ms_releasing_def by blast
  show "ms_nearer n t g k m' \<or> ms_releasing n t g k u m' \<and> ((0 :: nat) < 0 \<or> (0 :: nat) = 0 \<and> SemStep u = SemStep u)"
    if "MutexSem_step a m = Some m'" for a m'
    using ms_queued_step [OF _ that] r unfolding ms_releasing_def by blast
qed

lemma ms_comes_nearer:
  assumes f: "fair_run MutexSem_step sem_inside \<sigma> \<alpha>" and r: "recurs (\<lambda>a. \<exists>u. a = CallRelease u) \<alpha>"
    and q: "ms_queued n t g (\<sigma> i)" "ms_before g (\<sigma> i) = k"
  shows "\<exists>j \<ge> i. ms_nearer n t g k (\<sigma> j)"
proof (rule ccontr)
  assume no: "\<not> ?thesis"
  have still: "ms_queued n t g (\<sigma> j) \<and> ms_before g (\<sigma> j) = k" if "i \<le> j" for j
    using infinite_run_unless [OF fair_run_infinite [OF f], of "\<lambda>m. ms_queued n t g m \<and> ms_before g m = k" i "ms_nearer n t g k" j]
      ms_queued_step q no that by blast
  obtain j u where j: "i \<le> j" "\<alpha> j = Some (CallRelease u)" using r unfolding recurs_def by blast
  have "MutexSem_step (CallRelease u) (\<sigma> j) = Some (\<sigma> (Suc j))" using infinite_run_act [OF fair_run_infinite [OF f] j(2)] .
  then have "ms_pc (\<sigma> (Suc j)) u = MsRel" by (auto split: if_splits dest: sym)
  then have "ms_releasing n t g k u (\<sigma> (Suc j))" using still [of "Suc j"] j(1) by (simp add: ms_releasing_def)
  then obtain l where "Suc j \<le> l" "ms_nearer n t g k (\<sigma> l)" using releasing.reaches [OF f] by blast
  then show False using no j(1) by (meson Suc_leD order_trans)
qed

lemma ms_gate_opens:
  assumes f: "fair_run MutexSem_step sem_inside \<sigma> \<alpha>" and r: "recurs (\<lambda>a. \<exists>u. a = CallRelease u) \<alpha>"
    and q: "ms_queued n t g (\<sigma> i)"
  shows "\<exists>j \<ge> i. ms_inv n (\<sigma> j) \<and> ms_pc (\<sigma> j) t = MsGate g \<and> g \<notin> set (ms_waiters (\<sigma> j))"
  using q
proof (induction "ms_before g (\<sigma> i)" arbitrary: i rule: less_induct)
  case less
  obtain j where j: "i \<le> j" "ms_nearer n t g (ms_before g (\<sigma> i)) (\<sigma> j)" using ms_comes_nearer [OF f r less.prems refl] by blast
  show ?case
  proof (cases "g \<in> set (ms_waiters (\<sigma> j))")
    case True
    then have "ms_queued n t g (\<sigma> j)" "ms_before g (\<sigma> j) < ms_before g (\<sigma> i)" using j(2) by (auto simp: ms_nearer_def ms_queued_def)
    then show ?thesis using less.hyps j(1) order_trans by blast
  qed (use j in \<open>auto simp: ms_nearer_def\<close>)
qed

section \<open>Into the queue, and through the gate\<close>

interpretation passing: fair_leads_to MutexSem_step sem_inside
  "\<lambda>m. ms_inv n m \<and> ms_pc m t = MsGate g \<and> g \<notin> set (ms_waiters m)" "\<lambda>m. ms_pc m t = MsIdle"
  "\<lambda>m :: MutexSemaphore. SemStep t" "\<lambda>_. 0" for n t g
proof unfold_locales
  show "SemStep t \<in> sem_inside" by (simp add: sem_inside_def)
  fix m assume i: "ms_inv n m \<and> ms_pc m t = MsGate g \<and> g \<notin> set (ms_waiters m)"
  then have "\<not> ms_locked m g" using gates_locked [OF ms_inv_gates, of n m t g] by blast
  then show "\<exists>m'. MutexSem_step (SemStep t) m = Some m' \<and> (ms_pc m' t = MsIdle \<or> (0 :: nat) < 0)"
    using i by (simp add: MutexSem_Acquire_step_def)
  have older: "g < ms_fresh m" using i gates_owned [OF ms_inv_gates] by blast
  show "ms_pc m' t = MsIdle \<or> (ms_inv n m' \<and> ms_pc m' t = MsGate g \<and> g \<notin> set (ms_waiters m'))
      \<and> ((0 :: nat) < 0 \<or> (0 :: nat) = 0 \<and> SemStep t = SemStep t)" if st: "MutexSem_step a m = Some m'" for a m'
  proof -
    have "ms_pc m' t = MsIdle \<or> ms_pc m' t = MsGate g \<and> g \<notin> set (ms_waiters m')"
      using st i older by (cases a) (auto simp: MutexSem_Acquire_step_def MutexSem_Release_step_def Let_def
          split: ms_pc.splits if_splits option.splits list.splits)
    then show ?thesis using ms_inv_step [OF _ st] i by blast
  qed
qed

interpretation arriving: fair_leads_to MutexSem_step sem_inside "\<lambda>m :: MutexSemaphore. ms_pc m t = MsAcq" "\<lambda>m :: MutexSemaphore. ms_pc m t = MsIdle \<or> at_gate (ms_pc m t)"
  "\<lambda>m :: MutexSemaphore. SemStep t" "\<lambda>_. 0" for t
proof unfold_locales
  show "SemStep t \<in> sem_inside" by (simp add: sem_inside_def)
  fix m :: MutexSemaphore assume i: "ms_pc m t = MsAcq"
  then show "\<exists>m'. MutexSem_step (SemStep t) m = Some m' \<and> ((ms_pc m' t = MsIdle \<or> at_gate (ms_pc m' t)) \<or> (0 :: nat) < 0)"
    by (simp add: MutexSem_Acquire_step_def Let_def)
  show "(ms_pc m' t = MsIdle \<or> at_gate (ms_pc m' t)) \<or> ms_pc m' t = MsAcq
      \<and> ((0 :: nat) < 0 \<or> (0 :: nat) = 0 \<and> SemStep t = SemStep t)" if "MutexSem_step a m = Some m'" for a m'
    using that i by (cases a) (auto simp: MutexSem_Acquire_step_def MutexSem_Release_step_def Let_def
        split: ms_pc.splits if_splits option.splits list.splits)
qed

section \<open>The theorem\<close>

text \<open>C14: Nobody starves at a \<^verbatim>\<open>MutexSemaphore\<close>: under every scheduler that is fair to the goroutines inside
  its calls, and as long as some goroutine or other calls \<^verbatim>\<open>Release\<close> again and again, every call of
  \<^verbatim>\<open>Acquire\<close> returns, however many goroutines come after it and whoever it is that releases.\<close>

theorem mutex_semaphore_live:
  assumes i: "\<sigma> 0 = NewMutexSemaphore (int n)" and f: "fair_run MutexSem_step sem_inside \<sigma> \<alpha>"
    and r: "recurs (\<lambda>a. \<exists>u. a = CallRelease u) \<alpha>" and w: "ms_waits (\<sigma> k) t"
  shows "\<exists>m \<ge> k. ms_pc (\<sigma> m) t = MsIdle"
proof -
  have inv: "ms_inv n (\<sigma> j)" for j
    using infinite_run_reached [OF fair_run_infinite [OF f]] mutex_semaphore.invariant [OF i] by blast
  have gate: "\<exists>m \<ge> j. ms_pc (\<sigma> m) t = MsIdle" if g: "ms_pc (\<sigma> j) t = MsGate g" for j g
  proof -
    have "\<exists>l \<ge> j. ms_inv n (\<sigma> l) \<and> ms_pc (\<sigma> l) t = MsGate g \<and> g \<notin> set (ms_waiters (\<sigma> l))"
    proof (cases "g \<in> set (ms_waiters (\<sigma> j))")
      case True
      then have "ms_queued n t g (\<sigma> j)" using inv g by (simp add: ms_queued_def)
      then show ?thesis by (rule ms_gate_opens [OF f r])
    qed (use inv g in blast)
    then show ?thesis using passing.reaches [OF f] order_trans by blast
  qed
  show ?thesis
  proof (cases "ms_pc (\<sigma> k) t = MsAcq")
    case True
    obtain j where "k \<le> j" "ms_pc (\<sigma> j) t = MsIdle \<or> at_gate (ms_pc (\<sigma> j) t)" using arriving.reaches [OF f True] by blast
    then show ?thesis using gate unfolding at_gate_def by (meson order_trans)
  qed (use w gate in \<open>auto simp: ms_waits_def at_gate_def\<close>)
qed

text \<open>Two goroutines share one permit: the second waits at its gate until the first releases; then they go on
  to acquire and release in turns for ever.\<close>

lemma mutex_semaphore_live_witness:
  "\<exists>\<sigma> \<alpha>. \<sigma> 0 = NewMutexSemaphore (int 1) \<and> fair_run MutexSem_step sem_inside \<sigma> \<alpha>
     \<and> recurs (\<lambda>a. \<exists>u. a = CallRelease u) \<alpha> \<and> ms_pc (\<sigma> 4) 2 = MsGate 0 \<and> ms_locked (\<sigma> 4) 0
     \<and> (\<exists>m \<ge> 4. ms_pc (\<sigma> m) 2 = MsIdle)"
proof -
  let ?s = "NewMutexSemaphore (int 1)"
  let ?pre = "[CallAcquire 1, SemStep 1, CallAcquire 2, SemStep 2, CallRelease 1, SemStep 1, SemStep 2, CallRelease 2, SemStep 2]"
  let ?cyc = "[CallAcquire 1, SemStep 1, CallRelease 1, SemStep 1]"
  let ?r = "cyclic MutexSem_step ?pre ?cyc ?s" and ?a = "cyclic_acts ?pre ?cyc"
  note eval = NewMutexSemaphore_def MutexSem_Acquire_step_def MutexSem_Release_step_def Let_def max_goroutines_def
  obtain m where m: "run MutexSem_step ?pre ?s = Some m" and idle: "\<forall>t. ms_pc m t = MsIdle" and c: "ms_count m = 0" "ms_max m = 1" "ms_held m = 0"
    "ms_waiters m = []"
    by (simp add: eval del: One_nat_def)
  have "(ms_pc m)(1 := MsIdle) = ms_pc m" using idle by auto
  then have cyc: "run MutexSem_step ?cyc m = Some m" using idle c by (simp add: eval fun_upd_idem)
  have f: "fair_run MutexSem_step sem_inside ?r ?a"
    by (rule cyclic_fair [OF m cyc]) (use idle in \<open>auto simp: sem_inside_def MutexSem_Acquire_step_def MutexSem_Release_step_def\<close>)
  have r: "recurs (\<lambda>a. \<exists>u. a = CallRelease u) ?a" by (rule cyclic_recurs [of "CallRelease 1"]) auto
  have z: "?r 0 = ?s" by (simp add: cyclic_def)
  have w: "ms_pc (?r 4) 2 = MsGate 0" "ms_locked (?r 4) 0" by (simp_all add: cyclic_def eval del: One_nat_def)
  have "\<exists>m \<ge> 4. ms_pc (?r m) 2 = MsIdle"
    by (rule mutex_semaphore_live [OF z f r]) (use w in \<open>simp add: ms_waits_def\<close>)
  then show ?thesis using z f r w by blast
qed

end
