(* ===== verification/WaitGroup_Liveness.thy ===== *)
theory WaitGroup_Liveness
  imports Fairness WaitGroup
begin

text \<open>
  Liveness of \<^verbatim>\<open>WaitGroup\<close>: once the counter has come to 0, every goroutine parked in \<^verbatim>\<open>Wait\<close> returns. The
  goroutine that closes the round wakes as many goroutines as are parked, and until they have all gone no
  new round can start, so each of them finds a permit and the state at 0.
\<close>

section \<open>A round that is being closed, and one that is closed\<close>

definition wg_settled_pc :: "wg_pc \<Rightarrow> bool" where
  "wg_settled_pc p \<longleftrightarrow> wg_calm p \<or> p = WgSleep \<or> p = WgVerify"

definition wg_parked :: "tid \<Rightarrow> WaitGroup \<Rightarrow> bool" where
  "wg_parked t w \<longleftrightarrow> wg_inv w \<and> wg_peak w < 2 ^ 31 \<and> wg_pc w t = WgSleep"

definition wg_settled :: "tid \<Rightarrow> WaitGroup \<Rightarrow> bool" where
  "wg_settled t w \<longleftrightarrow> wg_parked t w \<and> wg_tokens w = 0 \<and> (\<forall>u. wg_settled_pc (wg_pc w u))"

definition wg_verifying :: "tid \<Rightarrow> WaitGroup \<Rightarrow> bool" where
  "wg_verifying t w \<longleftrightarrow> wg_inv w \<and> wg_peak w < 2 ^ 31 \<and> wg_pc w t = WgVerify"

definition wg_closing :: "tid \<Rightarrow> tid \<Rightarrow> WaitGroup \<Rightarrow> bool" where
  "wg_closing v t w \<longleftrightarrow> wg_parked t w \<and> wg_closes (wg_pc w v)"

lemma wg_settled_pcs:
  "wg_settled_pc p \<Longrightarrow> p = WgIdle \<or> p = WgLoad \<or> p = WgOut \<or> (\<exists>x. p = WgCas x \<and> wg_counter x \<noteq> 0) \<or> p = WgSleep \<or> p = WgVerify"
  by (auto simp: wg_settled_pc_def wg_calm_def)

lemma wg_settled_pc_simps [simp]:
  "wg_settled_pc WgIdle" "wg_settled_pc WgLoad" "wg_settled_pc WgOut" "wg_settled_pc WgSleep" "wg_settled_pc WgVerify"
  "wg_settled_pc (WgCas x) \<longleftrightarrow> wg_counter x \<noteq> 0"
  "\<not> wg_settled_pc (WgCheck x k)" "\<not> wg_settled_pc (WgReset k)" "\<not> wg_settled_pc (WgWake k)"
  by (simp_all add: wg_settled_pc_def)

lemma wg_settled_at:
  assumes s: "wg_settled t w"
  shows "wg_state w = 0" and "wg_sema w \<noteq> 0"
proof -
  have p: "wg_inv w" "wg_peak w < 2 ^ 31" "wg_pc w t = WgSleep" "wg_tokens w = 0" "\<And>u. wg_settled_pc (wg_pc w u)"
    using s by (auto simp: wg_settled_def wg_parked_def)
  obtain ph where at: "wg_at ph (wg_state w) (wg_sema w) (wg_tokens w) (wg_pc w)" using wg_inv_phase [OF p(1,2)] by blast
  have "num wg_owns (wg_pc w) = 0"
  proof (rule num_no_owners)
    show "\<not> wg_owns (wg_pc w u)" for u using wg_settled_pcs [OF p(5), of u] by auto
  qed
  then have "ph \<noteq> Open" using at p(4) by (auto simp: wg_at.simps)
  moreover have "ph \<noteq> Starting u" "ph \<noteq> Closing u" "ph \<noteq> Waking u" for u
    using at wg_settled_pcs [OF p(5), of u] by (auto simp: wg_at.simps)
  ultimately have c: "ph = Closed" by (cases ph) auto
  then show "wg_state w = 0" using at by (simp add: wg_at.simps)
  have "0 < wg_sleepers (wg_pc w)"
    using num_pos [where P = "\<lambda>p. p = WgSleep" and t = t, OF wg_inv_active [OF p(1)]] p(3) by simp
  then show "wg_sema w \<noteq> 0" using at c by (auto simp: wg_at.simps)
qed

lemma wg_closing_at:
  assumes c: "wg_closing v t w"
  shows "wg_tokens w = 0" and "u \<noteq> v \<Longrightarrow> wg_settled_pc (wg_pc w u)" and "wg_pc w v = WgCheck x k \<Longrightarrow> wg_state w = x"
    and "u \<noteq> v \<Longrightarrow> wg_pc w u = WgLoad \<Longrightarrow> wg_counter (wg_state w) = 0"
    and "u \<noteq> v \<Longrightarrow> wg_pc w u = WgCas x \<Longrightarrow> wg_state w \<noteq> x"
    and "u \<noteq> v \<Longrightarrow> wg_pc w u = WgVerify \<Longrightarrow> wg_state w = 0"
proof -
  have p: "wg_inv w" "wg_peak w < 2 ^ 31" "wg_closes (wg_pc w v)" using c by (auto simp: wg_closing_def wg_parked_def)
  note a = wg_inv_active [OF p(1)]
  obtain ph where at: "wg_at ph (wg_state w) (wg_sema w) (wg_tokens w) (wg_pc w)" using wg_inv_phase [OF p(1,2)] by blast
  have ph: "ph = Closing v \<or> ph = Waking v" using wg_at_pc [OF at, of v] p(3) by (auto simp: wg_closes_def)
  have "wg_count w = 0" using wg_at_owners [OF at] ph by (auto simp: wg_count_def)
  then have "sint (wg_counter (wg_state w)) = 0"
    using wg_at_counter [OF at a] by (simp add: wg_count_def)
  then have z: "wg_counter (wg_state w) = 0" by (simp add: signed_eq_0_iff)
  show "wg_tokens w = 0" using wg_at_owners [OF at] ph by auto
  show "u \<noteq> v \<Longrightarrow> wg_settled_pc (wg_pc w u)" using at ph by (auto simp: wg_at.simps wg_settled_pc_def)
  show "wg_pc w v = WgCheck x k \<Longrightarrow> wg_state w = x" using at ph by (auto simp: wg_at.simps)
  show "u \<noteq> v \<Longrightarrow> wg_pc w u = WgLoad \<Longrightarrow> wg_counter (wg_state w) = 0" using z by simp
  show "u \<noteq> v \<Longrightarrow> wg_pc w u = WgCas x \<Longrightarrow> wg_state w \<noteq> x" using wg_at_pc [OF at, of u] z by auto
  show "u \<noteq> v \<Longrightarrow> wg_pc w u = WgVerify \<Longrightarrow> wg_state w = 0" using wg_at_pc [OF at, of u] at ph by (auto simp: wg_at.simps)
qed

lemma wg_parked_zero:
  assumes p: "wg_parked t w" and z: "wg_count w = 0"
  shows "wg_settled t w \<or> (\<exists>v. wg_closing v t w)"
proof -
  obtain ph where at: "wg_at ph (wg_state w) (wg_sema w) (wg_tokens w) (wg_pc w)"
    using p wg_inv_phase by (auto simp: wg_parked_def)
  have t: "wg_pc w t = WgSleep" using p by (simp add: wg_parked_def)
  show ?thesis
  proof (cases ph)
    case (Starting u)
    then show ?thesis using at t by (cases "u = t") (auto simp: wg_at.simps)
  next
    case (Closing u)
    then show ?thesis using at p by (auto simp: wg_at.simps wg_closing_def wg_closes_def)
  next
    case (Waking u)
    then show ?thesis using at p by (auto simp: wg_at.simps wg_closing_def wg_closes_def)
  qed (use at p z in \<open>auto simp: wg_at.simps wg_settled_def wg_settled_pc_def wg_count_def\<close>)
qed

section \<open>What a step can do then\<close>

lemma wg_parked_busy: "wg_parked t w \<Longrightarrow> wg_busy w \<noteq> 0"
  using num_pos [where idle = WgIdle and P = "\<lambda>p. p \<noteq> WgIdle" and pc = "wg_pc w" and t = t]
  unfolding wg_parked_def wg_inv_def by auto

text \<open>A step of a goroutine that is not closing the round.\<close>

lemma wg_round_step:
  assumes st: "WaitGroup_step a w = Some w'" and z: "wg_tokens w = 0" "wg_busy w \<noteq> 0"
    and u: "\<And>u. a = WgStep u \<Longrightarrow> wg_settled_pc (wg_pc w u) \<and> (wg_pc w u = WgLoad \<longrightarrow> wg_counter (wg_state w) = 0)
      \<and> (wg_pc w u \<noteq> WgCas (wg_state w)) \<and> (wg_pc w u = WgVerify \<longrightarrow> wg_state w = 0)"
  shows "wg_tokens w' = 0 \<and> wg_peak w' = wg_peak w \<and> (\<exists>u q. wg_pc w' = (wg_pc w)(u := q) \<and> wg_settled_pc q
    \<and> wg_settled_pc (wg_pc w u) \<and> (wg_pc w u = WgSleep \<longrightarrow> q = WgVerify) \<and> (a = WgStep u \<or> wg_pc w u \<noteq> WgSleep)
    \<and> (\<forall>v. a = WgStep v \<longrightarrow> u = v))"
proof (cases a)
  case (WgStep v)
  have "wg_pc w v = WgIdle \<or> wg_pc w v = WgLoad \<or> wg_pc w v = WgOut \<or> (\<exists>x. wg_pc w v = WgCas x) \<or> wg_pc w v = WgSleep \<or> wg_pc w v = WgVerify"
    using u [OF WgStep] wg_settled_pcs by blast
  then have "wg_tokens w' = 0 \<and> wg_peak w' = wg_peak w \<and> (\<exists>q. wg_pc w' = (wg_pc w)(v := q) \<and> wg_settled_pc q
      \<and> (wg_pc w v = WgSleep \<longrightarrow> q = WgVerify))"
    using st WgStep z u [OF WgStep]
    by (elim disjE) (auto simp: WaitGroup_Add_step_def WaitGroup_Wait_step_def split: option.splits if_splits)
  then show ?thesis using u [OF WgStep] WgStep by blast
next
  case (WgCallWait v)
  then show ?thesis using st z by (intro conjI exI [of _ v] exI [of _ WgLoad]) (auto split: if_splits)
next
  case (WgReturn v)
  then show ?thesis using st z by (intro conjI exI [of _ v] exI [of _ WgIdle]) (auto split: if_splits)
qed (use st z in \<open>auto split: if_splits\<close>)

lemma wg_settled_step:
  assumes s: "wg_settled t w" and st: "WaitGroup_step a w = Some w'"
  shows "wg_settled t w' \<and> a \<noteq> WgStep t \<or> wg_verifying t w'"
proof -
  have p: "wg_parked t w" and z: "wg_tokens w = 0" and all: "\<And>u. wg_settled_pc (wg_pc w u)" using s by (auto simp: wg_settled_def)
  have st0: "wg_state w = 0" using wg_settled_at [OF s] by simp
  have c: "wg_pc w u \<noteq> WgCas (wg_state w)" for u using all [of u] st0 by auto
  obtain u q where e: "wg_tokens w' = 0" "wg_peak w' = wg_peak w" "wg_pc w' = (wg_pc w)(u := q)" "wg_settled_pc q"
    "wg_pc w u = WgSleep \<longrightarrow> q = WgVerify" "\<forall>v. a = WgStep v \<longrightarrow> u = v"
    using wg_round_step [OF st z wg_parked_busy [OF p]] all c st0 by (metis wg_counter_0)
  have i: "wg_inv w'" using wg_inv_step [OF _ st] p by (simp add: wg_parked_def)
  show ?thesis
  proof (cases "u = t")
    case True
    then show ?thesis using e(2,3,5) i p by (simp add: wg_parked_def wg_verifying_def)
  next
    case False
    then show ?thesis using e i p all by (auto simp: wg_settled_def wg_parked_def)
  qed
qed

definition wg_closer_left :: "wg_pc \<Rightarrow> nat" where
  "wg_closer_left p = (case p of WgCheck x k \<Rightarrow> unat k + 3 | WgReset k \<Rightarrow> unat k + 2 | WgWake k \<Rightarrow> unat k + 1 | _ \<Rightarrow> 0)"

lemma wg_closing_step:
  assumes c: "wg_closing v t w" and st: "WaitGroup_step a w = Some w'"
  shows "wg_verifying t w' \<or> wg_settled t w' \<or> wg_closing v t w' \<and>
    (if a = WgStep v then wg_closer_left (wg_pc w' v) < wg_closer_left (wg_pc w v) else wg_pc w' v = wg_pc w v)"
proof -
  have p: "wg_parked t w" and v: "wg_closes (wg_pc w v)" using c by (auto simp: wg_closing_def)
  note at = wg_closing_at [OF c]
  have i: "wg_inv w'" using wg_inv_step [OF _ st] p by (simp add: wg_parked_def)
  have tv: "t \<noteq> v" using p v by (auto simp: wg_parked_def wg_closes_def)
  show ?thesis
  proof (cases "a = WgStep v")
    case True
    have e: "wg_tokens w' = 0 \<and> wg_peak w' = wg_peak w \<and> (\<exists>q. wg_pc w' = (wg_pc w)(v := q) \<and>
        (q = WgOut \<or> wg_closes q \<and> wg_closer_left q < wg_closer_left (wg_pc w v)))"
      using st True v at(1,3) unfolding wg_closes_def
      by (elim exE disjE) (auto simp: WaitGroup_Add_step_def wg_closer_left_def unat_minus_one unat_gt_0 split: if_splits)
    then show ?thesis using i p tv at(2) True by (auto simp: wg_closing_def wg_settled_def wg_parked_def split: if_splits)
  next
    case False
    obtain u q where e: "wg_peak w' = wg_peak w" "wg_pc w' = (wg_pc w)(u := q)" "wg_settled_pc (wg_pc w u)"
      "wg_pc w u = WgSleep \<longrightarrow> q = WgVerify"
      using wg_round_step [OF st at(1) wg_parked_busy [OF p]] at False by metis
    moreover have "u \<noteq> v" using e(3) v by (auto simp: wg_closes_def)
    ultimately show ?thesis using False i p v by (auto simp: wg_closing_def wg_parked_def wg_verifying_def)
  qed
qed

lemma wg_verifying_step:
  assumes v: "wg_verifying t w" and st: "WaitGroup_step a w = Some w'"
  shows "wg_verifying t w' \<and> a \<noteq> WgStep t \<or> wg_pc w' t = WgOut"
proof -
  have p: "wg_inv w" "wg_peak w < 2 ^ 31" "wg_pc w t = WgVerify" using v by (auto simp: wg_verifying_def)
  note a = wg_inv_active [OF p(1)]
  obtain ph where at: "wg_at ph (wg_state w) (wg_sema w) (wg_tokens w) (wg_pc w)" using wg_inv_phase [OF p(1,2)] by blast
  have ph: "ph = Closed \<or> (\<exists>u. ph = Waking u \<and> u \<noteq> t)" using wg_at_pc [OF at, of t] p(3) by simp
  have z: "wg_tokens w = 0" "wg_state w = 0" using at ph by (auto simp: wg_at.simps)
  have busy: "wg_busy w \<noteq> 0"
    using num_pos [where P = "\<lambda>p. p \<noteq> WgIdle" and t = t, OF a] p(1,3) unfolding wg_inv_def by auto
  have no_add: "wg_pc w u \<noteq> WgAdd d b" for u d b using wg_at_pc [OF at, of u] ph by auto
  have i: "wg_inv w'" using wg_inv_step [OF p(1) st] .
  have "wg_peak w' = wg_peak w \<and> (wg_pc w' t = WgVerify \<and> a \<noteq> WgStep t \<or> wg_pc w' t = WgOut)"
    using st z busy no_add p(3) by (cases a) (auto simp: WaitGroup_Add_step_def WaitGroup_Wait_step_def Let_def
        split: wg_pc.splits if_splits option.splits)
  then show ?thesis using i p(2) by (auto simp: wg_verifying_def)
qed

section \<open>Every one of them gets out\<close>

definition wg_fair :: "wg_act set" where
  "wg_fair = range WgStep"

interpretation closing_round: fair_leads_to WaitGroup_step wg_fair "wg_closing v t" "\<lambda>w. wg_verifying t w \<or> wg_settled t w"
  "\<lambda>_. WgStep v" "\<lambda>w. wg_closer_left (wg_pc w v)" for v t
proof unfold_locales
  show "WgStep v \<in> wg_fair" by (simp add: wg_fair_def)
  fix w assume c: "wg_closing v t w"
  then have "WaitGroup_step (WgStep v) w \<noteq> None" unfolding wg_closing_def wg_closes_def
    by (auto simp: WaitGroup_Add_step_def)
  then obtain w' where w': "WaitGroup_step (WgStep v) w = Some w'" by blast
  show "\<exists>w'. WaitGroup_step (WgStep v) w = Some w'
      \<and> ((wg_verifying t w' \<or> wg_settled t w') \<or> wg_closer_left (wg_pc w' v) < wg_closer_left (wg_pc w v))"
    using wg_closing_step [OF c w'] w' by auto
  show "(wg_verifying t w' \<or> wg_settled t w') \<or> wg_closing v t w' \<and> (wg_closer_left (wg_pc w' v) < wg_closer_left (wg_pc w v)
      \<or> wg_closer_left (wg_pc w' v) = wg_closer_left (wg_pc w v) \<and> WgStep v = WgStep v)"
    if "WaitGroup_step a w = Some w'" for a w'
    using wg_closing_step [OF c that] by (auto split: if_splits)
qed

interpretation being_woken: fair_leads_to WaitGroup_step wg_fair "wg_settled t" "wg_verifying t" "\<lambda>_. WgStep t" "\<lambda>_. 0" for t
proof unfold_locales
  show "WgStep t \<in> wg_fair" by (simp add: wg_fair_def)
  fix w assume s: "wg_settled t w"
  have "wg_pc w t = WgSleep" using s by (simp add: wg_settled_def wg_parked_def)
  then have "WaitGroup_step (WgStep t) w \<noteq> None" using wg_settled_at(2) [OF s] runtime_Semacquire_def
    by (simp add: WaitGroup_Add_step_def WaitGroup_Wait_step_def)
  then show "\<exists>w'. WaitGroup_step (WgStep t) w = Some w' \<and> (wg_verifying t w' \<or> (0 :: nat) < 0)"
    using wg_settled_step [OF s] by blast
  show "wg_verifying t w' \<or> wg_settled t w' \<and> ((0 :: nat) < 0 \<or> (0 :: nat) = 0 \<and> WgStep t = WgStep t)"
    if "WaitGroup_step a w = Some w'" for a w'
    using wg_settled_step [OF s that] by blast
qed

interpretation leaving_wait: fair_leads_to WaitGroup_step wg_fair "wg_verifying t" "\<lambda>w. wg_pc w t = WgOut" "\<lambda>_. WgStep t" "\<lambda>_. 0" for t
proof unfold_locales
  show "WgStep t \<in> wg_fair" by (simp add: wg_fair_def)
  fix w assume v: "wg_verifying t w"
  have "WaitGroup_step (WgStep t) w \<noteq> None" using v
    by (simp add: wg_verifying_def WaitGroup_Add_step_def WaitGroup_Wait_step_def)
  then show "\<exists>w'. WaitGroup_step (WgStep t) w = Some w' \<and> (wg_pc w' t = WgOut \<or> (0 :: nat) < 0)"
    using wg_verifying_step [OF v] by blast
  show "wg_pc w' t = WgOut \<or> wg_verifying t w' \<and> ((0 :: nat) < 0 \<or> (0 :: nat) = 0 \<and> WgStep t = WgStep t)"
    if "WaitGroup_step a w = Some w'" for a w'
    using wg_verifying_step [OF v that] by blast
qed

section \<open>The theorem\<close>

text \<open>C10: \<^verbatim>\<open>Wait\<close> returns: under every scheduler that does not keep a goroutine for ever from its next step, each
  goroutine that is parked in \<^verbatim>\<open>Wait\<close> when the counter is 0, while the closing goroutine may still be waking
  the others, finds its permit, passes the check of the state without a panic and returns. The counter must have
  stayed below the limit of an \<^verbatim>\<open>int32\<close>.\<close>

theorem waitgroup_wait_returns:
  "starvation_free (\<lambda>w. w = WaitGroup_zero) WaitGroup_step wg_fair
     (\<lambda>w t. wg_pc w t = WgSleep \<and> wg_count w = 0 \<and> wg_peak w < 2 ^ 31) (\<lambda>w t. wg_pc w t = WgOut)"
  unfolding starvation_free_def
proof (intro allI impI)
  fix \<sigma> \<alpha> n t assume i: "\<sigma> 0 = WaitGroup_zero" and f: "fair_run WaitGroup_step wg_fair \<sigma> \<alpha>"
    and w: "wg_pc (\<sigma> n) t = WgSleep \<and> wg_count (\<sigma> n) = 0 \<and> wg_peak (\<sigma> n) < 2 ^ 31"
  have "wg_inv (\<sigma> n)"
    using infinite_run_reached [OF fair_run_infinite [OF f]] wait_group.invariant [OF i] by blast
  then have "wg_settled t (\<sigma> n) \<or> (\<exists>v. wg_closing v t (\<sigma> n))" using w by (intro wg_parked_zero) (simp_all add: wg_parked_def)
  then obtain k where k: "n \<le> k" "wg_verifying t (\<sigma> k) \<or> wg_settled t (\<sigma> k)"
    using closing_round.reaches [OF f] by blast
  obtain l where l: "k \<le> l" "wg_verifying t (\<sigma> l)" using k(2) being_woken.reaches [OF f] by blast
  show "\<exists>m \<ge> n. wg_pc (\<sigma> m) t = WgOut" using leaving_wait.reaches [OF f l(2)] k(1) l(1) by (meson order_trans)
qed

text \<open>Goroutine 0 adds 2 and completes twice while goroutine 1 waits.\<close>

lemma waitgroup_wait_returns_witness:
  "\<exists>\<sigma> \<alpha>. \<sigma> 0 = WaitGroup_zero \<and> fair_run WaitGroup_step wg_fair \<sigma> \<alpha> \<and> wg_pc (\<sigma> 11) 1 = WgSleep \<and> wg_closes (wg_pc (\<sigma> 11) 0)
     \<and> (\<exists>m \<ge> 11. wg_pc (\<sigma> m) 1 = WgOut)"
proof -
  let ?as = "[WgCallFirst 0 2, WgStep 0, WgReturn 0, WgCallWait 1, WgStep 1, WgStep 1, WgCallDone 0, WgStep 0,
    WgReturn 0, WgCallDone 0, WgStep 0, WgStep 0, WgStep 0, WgStep 0, WgStep 0, WgReturn 0, WgStep 1, WgStep 1, WgReturn 1]"
  let ?r = "halted WaitGroup_step ?as WaitGroup_zero"
  note eval = WaitGroup_zero_def WaitGroup_Add_step_def WaitGroup_Wait_step_def Let_def max_goroutines_def
    wg_counter_def wg_waiters_def word_sless_alt wg_count_def wg_num_owns active_call push_bit_minus
    runtime_Semacquire_def runtime_Semrelease_def
  obtain w where r: "run WaitGroup_step ?as WaitGroup_zero = Some w" and idle: "\<forall>t. wg_pc w t = WgIdle"
    by (simp add: eval del: push_bit_minus_one_eq_not_mask)
  have f: "fair_run WaitGroup_step wg_fair ?r (halted_acts ?as)"
    by (rule halted_fair [OF r]) (use idle in \<open>auto simp: wg_fair_def WaitGroup_Add_step_def WaitGroup_Wait_step_def\<close>)
  have z: "?r 0 = WaitGroup_zero" by (simp add: halted_def)
  have w: "wg_pc (?r 11) 1 = WgSleep" "wg_peak (?r 11) < 2 ^ 31" "wg_tokens (?r 11) = 0" "\<And>u. \<not> wg_owns (wg_pc (?r 11) u)"
    "wg_closes (wg_pc (?r 11) 0)"
    by (simp_all add: halted_def eval wg_closes_def del: push_bit_minus_one_eq_not_mask)
  have "wg_count (?r 11) = 0" using w(3) num_no_owners [OF w(4)] by (simp add: wg_count_def)
  then have "\<exists>m \<ge> 11. wg_pc (?r m) 1 = WgOut"
    by (intro starvation_freeD [OF waitgroup_wait_returns z f]) (use w(1,2) in simp)
  then show ?thesis using z f w(1,5) by blast
qed

end
