(* ===== verification/Spec2Isabelle.thy ===== *)
theory Spec2Isabelle
  imports Park Lock_Spin Lock_Ticket Lock_Mutex Lock_Seq Lock_CLH Lock_MCS Lock_RW Peterson
    Queue_Mutex Queue_SPSC Queue_LockFree_Variants Stack_Mutex Stack_LockFree Stack_Elimination
    Channel LRU Token_Bucket Sem_Channel Sem_Mutex Sem_Cond Sem_Lockfree Sem_Runtime Barrier Latch WaitGroup
    Ordered_Map Worker_Pool Once Demo_Future Publication Broadcast
    Progress Lock_Liveness Pool_Liveness Barrier_Liveness LRU_Shared Sem_Composed Sem_Lost Scaffolds
    Locks Mutex_Liveness Semaphores Containers_Mutex Peterson_Liveness Sem_Liveness WaitGroup_Liveness
begin

text \<open>
  A verification library for the Go repository \<^verbatim>\<open>gopher-forge\<close>: its locks, semaphores, barriers,
  latches and wait groups, queues and stacks, channel adapters, futures and worker pool, cache, rate
  limiter and publication primitives.

  \<^bold>\<open>The model.\<close> A component that several goroutines use at once is a machine: a \<open>record\<close> of its fields
  and of the place every goroutine has reached (a \<open>datatype\<close> of program counters, one constructor for each
  point between two accesses to shared state, with the local variables as arguments), and a step function
  \<open>step :: action \<Rightarrow> state \<Rightarrow> state option\<close> in which one step is one access to shared memory, one channel
  operation or one critical section of a mutex. An action names the goroutine that moves; the result is
  \<open>None\<close> when it cannot. A schedule is a list of actions and \<open>run\<close> (Prelude) executes it, so a theorem about
  all lists of actions is a theorem about all interleavings. A component that one goroutine uses, or whose
  methods hold its mutex throughout, is a set of functions of its state. Pointers are addresses into a
  store and nil is \<open>None\<close>; a panic and a nil dereference are values; machine integers are words and wrap.
  Fields that only record the past are called auxiliary where they are declared; they do not influence what
  the code does, only which calls a client that keeps a component's rules may make.

  \<^bold>\<open>Theories.\<close>
  \<^item> \<open>Prelude\<close>: names of Go's integers, \<open>run\<close>, quiet states (nothing inside a call can change
    anything), the locales \<open>machine\<close> (an inductive invariant), \<open>lock_machine\<close> (mutual exclusion) and
    \<open>data_refinement\<close> (a simulation of fallible operations), and
    the logs by which linearizability is stated. \<open>Counting\<close>: how many goroutines are at a place.
    \<open>Doubly_Linked\<close>: linked segments in a store, for the cache and the worker pool's queue.
    \<open>Monitor\<close>: an object whose methods hold one \<^verbatim>\<open>sync.Mutex\<close>, shared by goroutines, and the locale
    \<open>monitor\<close> by which every such object is linearizable to the specification its methods refine.
  \<^item> Locks, \<^verbatim>\<open>syncx/lock.go\<close>, \<^verbatim>\<open>peterson\<close> and \<^verbatim>\<open>park\<close>: \<open>Park\<close> (Parker, ChanParker and the runtime
    semaphore), \<open>Lock_Spin\<close>, \<open>Lock_Ticket\<close>, \<open>Lock_Mutex\<close>, \<open>Lock_Seq\<close>, \<open>Lock_CLH\<close>, \<open>Lock_MCS\<close>, \<open>Lock_RW\<close>, \<open>Peterson\<close>.
    Mutual exclusion of every lock, first-come-first-served order of the queue locks, what a validated read
    of \<^verbatim>\<open>SeqLock\<close> has seen, and the panic of \<^verbatim>\<open>MCSLock.Unlock\<close>
    that correct clients can reach. \<open>Lock_Spec\<close> is the contract of a first-come-first-served lock, at which
    nobody gets in before a goroutine that had arrived when he had not, and which the
    ticket, CLH and MCS locks interpret; \<open>Fairness\<close> has infinite runs under a weakly fair scheduler, their
    existence from every state (runs that halt, runs that go round in a cycle, and the patient scheduler), and
    the rule by which a goal is reached in them (locale \<open>fair_leads_to\<close>); \<open>Lock_Liveness\<close> shows with it that
    nobody starves at these three locks, \<open>Peterson_Liveness\<close> that nobody does at Peterson's, and
    \<open>Mutex_Liveness\<close> that \<^verbatim>\<open>MutexLock\<close>, whose waiters may overtake each other, is always handed on while
    somebody waits (as long as fewer than \<open>2 ^ 32\<close> wake-ups are deposited). \<open>Locks\<close> puts
    the locks under one contract (exclusion, and in a quiet state in which somebody waits somebody holds
    the lock: no deadlock and no lost wake-up; locale \<open>deadlock_free_lock\<close>; within the bounds of the counters,
    and at the \<^verbatim>\<open>MCSLock\<close> while nobody has panicked), and the three queue locks under
    one for the order of service.
  \<^item> Queues, \<^verbatim>\<open>queue\<close>: \<open>Queue_Spec\<close> (the interface as a locale over a bounded list), \<open>Queue_Mutex\<close>,
    \<open>Queue_SPSC\<close> (also the cached variant), \<open>Queue_LockFree\<close>, \<open>Queue_LockFree_Variants\<close>. Refinement of the
    bounded queue; for the lock-free ones every schedule has a linearization in which each call returns
    what the list specification returns, and no slot is read while it is written; the ones that hold a
    mutex are instances of \<open>Monitor\<close>, and \<open>Containers_Mutex\<close> states what they and the mutex-guarded stacks
    are to concurrent callers. \<open>Progress\<close>: the single-producer queues are wait-free, the
    lock-free ring and the Treiber stack are lock-free, with the number of steps; at the Treiber stack only
    the operations of other goroutines can make a goroutine retry.
  \<^item> Stacks, \<^verbatim>\<open>stack\<close>: \<open>Stack_Spec\<close>, \<open>Stack_Mutex\<close>, \<open>Stack_LockFree\<close> (Treiber), \<open>Stack_Elimination\<close>. Refinement
    and linearizability; the exception at the elimination stack is a \<^verbatim>\<open>Pop\<close> whose second wait ended too early,
    which returns the zero value, and a run in which a value is lost by it is given.
  \<^item> Semaphores, \<^verbatim>\<open>syncx/semaphore.go\<close>: \<open>Sem_Spec\<close> (the counting semaphore and the locale its five
    implementations interpret), \<open>Sem_Channel\<close>, \<open>Sem_Mutex\<close>, \<open>Sem_Cond\<close>, \<open>Sem_Lockfree\<close>, \<open>Sem_Runtime\<close>. At
    most \<open>n\<close> permits are held, and a blocked goroutine is served when a permit comes back; \<open>Semaphores\<close>
    states the contract they share (locale \<open>lossless_semaphore\<close>; \<^verbatim>\<open>LockfreeSemaphore\<close> keeps the part about
    waiters only while its queue has refused nobody), and
    \<open>Sem_Liveness\<close> that nobody starves at \<^verbatim>\<open>MutexSemaphore\<close> while releases recur.
    \<open>Sem_Composed\<close> puts the lock-free ring in the place of the queue of \<open>Sem_Lockfree\<close>, one access at a
    time, and \<open>Sem_Lost\<close> has the run in which the ring refuses a waiter while it is empty.
  \<^item> Barriers and latches, \<^verbatim>\<open>syncx/barriers.go\<close> and \<^verbatim>\<open>syncx/latch.go\<close>: \<open>Barrier\<close>
    (SenseReversingBarrier), \<open>Latch\<close> (SpinLatch, ChanLatch, CountingBarrier), \<open>WaitGroup\<close>. Nobody leaves
    early, nobody is left behind, and the panics are not reached by clients that follow the rules.
    \<open>Barrier_Liveness\<close>: under a fair scheduler the phases of the sense-reversing barrier never stop;
    \<open>WaitGroup_Liveness\<close>: every goroutine parked in \<^verbatim>\<open>Wait\<close> returns once the counter is 0.
  \<^item> Futures, \<^verbatim>\<open>syncx/future.go\<close>, \<^verbatim>\<open>syncx/future_demo.go\<close> and \<^verbatim>\<open>syncx/once.go\<close>: \<open>Ordered_Map\<close> (the
    pool's queue, and the interface \<open>task_queue\<close> the pool relies on), \<open>Worker_Pool\<close> (workers, promises,
    futures, cancellation), \<open>Demo_Future\<close>, \<open>Once\<close>. Every task runs once, in order, its value is what the
    future returns, and work never waits for a worker that sleeps. \<open>Pool_Liveness\<close>: under a fair scheduler
    every submitted task is done and every \<^verbatim>\<open>Get\<close> returns, and what a promise was resolved with last comes
    out of the future with its signature.
  \<^item> Channels and broadcast, \<^verbatim>\<open>syncx/channel.go\<close> and \<^verbatim>\<open>patterns/broadcast.go\<close>: \<open>Channel\<close> (RingQueue and the
    two unbounded channels), \<open>Broadcast\<close>. Messages are neither lost nor doubled.
  \<^item> \<open>LRU\<close> and \<open>LRU_Shared\<close> (\<^verbatim>\<open>mapx/lru.go\<close>): the pointer program refines the least-recently-used
    cache, and stays one when goroutines share it.
    \<open>Token_Bucket\<close> (\<^verbatim>\<open>ratelimit/token_bucket.go\<close>): the admission bound of any schedule, the equivalence
    of the lazy refill with a bucket refilled by a timer, and that a waiter sleeps for exactly the intervals
    of the tokens it lacks and then returns.
    \<open>Publication\<close> (\<^verbatim>\<open>memory\<close> and the Sequence of \<^verbatim>\<open>queue/disruptor.go\<close>): safe publication, cells, counters.
    \<open>Scaffolds\<close>: the types of the repository whose methods have no statements yet, as they are.

  \<^bold>\<open>How components depend on each other.\<close> The semaphores, \<^verbatim>\<open>MutexLock\<close> and \<^verbatim>\<open>WaitGroup\<close> park on the runtime
  semaphore of \<open>Park\<close>. \<^verbatim>\<open>LockfreeSemaphore\<close> keeps its waiters in a queue: \<open>Sem_Lockfree\<close> takes it by its
  specification \<open>spec_queue\<close>, and \<open>Sem_Composed\<close> simulates the program with the concrete \<^verbatim>\<open>LockFreeMPMC\<close> of
  \<open>Queue_LockFree\<close> in it. \<^verbatim>\<open>OrderedChannel\<close> buffers in
  \<^verbatim>\<open>RingQueue\<close>. The worker pool runs the concrete \<^verbatim>\<open>orderedMap\<close> and rests on the facts of the
  interpretation \<open>om_queue\<close>.

  \<^bold>\<open>Bounds.\<close> Where a counter of the code could wrap, the theorem says how far it holds: \<open>2 ^ 62\<close> enqueues
  for the lock-free queues, \<open>2 ^ 64\<close> increments of the sequence lock, \<open>2 ^ 31\<close> goroutines
  (\<open>max_goroutines\<close>), decrements of a latch and units of a wait group, and the word sizes of the token
  bucket's arguments. The ticket lock, the rings, the barrier's epoch and the parkers are proved across
  their wrap-around. The only fuel is the number of allocated nodes in \<open>nodes_from\<close>, which
  \<open>nodes_from_all\<close> shows to be enough.

  \<^bold>\<open>Assumptions.\<close> Go's atomics, mutexes, channels and the runtime semaphore are sequentially consistent
  and behave as documented; the plain fields of \<^verbatim>\<open>peterson\<close> are taken to be so as well, which Go does not
  promise. The signatures of promises come from a third-party generator and are arguments of the actions;
  the clock of the token bucket is an argument in nanoseconds.

  \<^bold>\<open>Not modelled.\<close> \<^verbatim>\<open>runtime.go\<close> declares three functions of the Go runtime and the layout of its list,
  which nothing in the repository calls; \<^verbatim>\<open>hazard\<close> and \<^verbatim>\<open>memory/ordering.go\<close> hold no operation; the
  methods of \<^verbatim>\<open>TVar\<close> are commented out.
  Re-entrant calls of \<^verbatim>\<open>Once.Do\<close>, functions of tasks that panic or never
  return, and futures of different element types under one signature have no counterpart.
\<close>

end
